(* ===== verification/Prelude.thy ===== *)
theory Prelude
  imports Main "HOL-Library.Word" "HOL-Library.Multiset"
begin

text \<open>
  What every component shares: the machine integer types of the Rust code, the collections of
  rewrite rules the component proofs draw on, exchange of two list positions, and the
  little-endian reads of a byte list.

  Conventions. A Rust \<open>u8\<close>/\<open>u16\<close>/\<open>u32\<close>/\<open>u64\<close>/\<open>i32\<close> whose wrap-around or bit pattern matters is a
  machine word; a \<open>usize\<close> that only counts or indexes a slice is a \<open>nat\<close>. A byte of text is a
  \<open>char\<close> (exactly the 256 byte values), so that byte-string literals read as they do in the
  source. A panic (which aborts the process, see \<open>rt::abort_now\<close> in src/src/platform.rs) is a
  left value of a sum type, an \<open>Option\<close> of the source is an \<open>option\<close>.
\<close>

type_synonym u8 = "8 word"
type_synonym u16 = "16 word"
type_synonym u32 = "32 word"
type_synonym u64 = "64 word"
type_synonym i32 = "32 word"
type_synonym i64 = "64 word"

named_theorems list_store "rewrite rules for positions of updated lists"
named_theorems word_nat "rewrite rules that move words to natural numbers"

subsection \<open>Word bounds\<close>

lemma unat_u8 [word_nat]: "unat (w :: u8) < 256" using unsigned_less [where 'a = nat, of w] by simp
lemma unat_u32 [word_nat]: "unat (w :: u32) < 4294967296" using unsigned_less [where 'a = nat, of w] by simp
lemma unat_u64 [word_nat]: "unat (w :: u64) < 18446744073709551616"
  using unsigned_less [where 'a = nat, of w] by simp

subsection \<open>Exchanging two positions of a list\<close>

definition list_swap :: "nat \<Rightarrow> nat \<Rightarrow> 'a list \<Rightarrow> 'a list" where
  "list_swap i j xs = xs[i := xs ! j, j := xs ! i]"

lemma length_list_swap [simp]: "length (list_swap i j xs) = length xs"
  by (simp add: list_swap_def)

lemma mset_list_swap [simp]:
  "i < length xs \<Longrightarrow> j < length xs \<Longrightarrow> mset (list_swap i j xs) = mset xs"
  unfolding list_swap_def by (rule mset_swap)

lemma nth_list_swap [list_store]:
  "i < length xs \<Longrightarrow> j < length xs \<Longrightarrow> m < length xs \<Longrightarrow>
   list_swap i j xs ! m = (if m = j then xs ! i else if m = i then xs ! j else xs ! m)"
  by (auto simp: list_swap_def nth_list_update)

lemma take_list_swap:
  "i < n \<Longrightarrow> j < n \<Longrightarrow> n \<le> length xs \<Longrightarrow> take n (list_swap i j xs) = list_swap i j (take n xs)"
  by (simp add: list_swap_def take_update_swap)

lemma drop_list_swap [simp]: "i < n \<Longrightarrow> j < n \<Longrightarrow> drop n (list_swap i j xs) = drop n xs"
  by (simp add: list_swap_def)

lemma map_list_swap:
  "i < length xs \<Longrightarrow> j < length xs \<Longrightarrow> map f (list_swap i j xs) = list_swap i j (map f xs)"
  by (simp add: list_swap_def map_update)

lemma nth_update_if: "xs[i := x] ! j = (if j = i \<and> i < length xs then x else xs ! j)"
  by (cases "i < length xs") (simp_all add: list_update_beyond)

subsection \<open>Sortedness by position\<close>

lemma sorted_map_nth_iff:
  "sorted (map f xs) \<longleftrightarrow> (\<forall>i j. i < j \<longrightarrow> j < length xs \<longrightarrow> f (xs ! i) \<le> f (xs ! j))"
  by (auto simp: sorted_iff_nth_mono_less)

subsection \<open>Related lists\<close>

lemma list_all2_in2: "list_all2 R xs ys \<Longrightarrow> y \<in> set ys \<Longrightarrow> \<exists>x \<in> set xs. R x y"
  by (induction rule: list_all2_induct) auto

lemma list_all2_bex:
  "list_all2 R xs ys \<Longrightarrow> (\<And>a b. a \<in> set xs \<Longrightarrow> R a b \<Longrightarrow> P a \<longleftrightarrow> Q b) \<Longrightarrow>
   (\<exists>a \<in> set xs. P a) \<longleftrightarrow> (\<exists>b \<in> set ys. Q b)"
  by (induction rule: list_all2_induct) auto

subsection \<open>Little-endian words in byte lists\<close>

unbundle bit_operations_syntax

text \<open>\<open>u32::from_le_bytes\<close>, and the first \<open>n\<close> bytes of \<open>to_le_bytes\<close>.\<close>

definition u32_le :: "u8 list \<Rightarrow> u32" where
  "u32_le bs = foldr (\<lambda>b w. ucast b OR push_bit 8 w) bs 0"

definition le_bytes :: "nat \<Rightarrow> 'a :: len word \<Rightarrow> u8 list" where
  "le_bytes n w = map (\<lambda>i. ucast (drop_bit (8 * i) w)) [0..<n]"

lemma length_le_bytes [simp]: "length (le_bytes n w) = n" by (simp add: le_bytes_def)

lemma u32_le_bytes [word_nat]: "u32_le (le_bytes 4 w) = ucast w"
proof (rule bit_word_eqI)
  fix n :: nat
  assume n: "n < LENGTH(32)"
  have l: "le_bytes 4 w = [ucast w, ucast (drop_bit 8 w), ucast (drop_bit 16 w), ucast (drop_bit 24 w)]"
    by (simp add: le_bytes_def upt_rec [of _ 4])
  consider "n < 8" | "8 \<le> n" "n < 16" | "16 \<le> n" "n < 24" | "24 \<le> n" using n by linarith
  then show "bit (u32_le (le_bytes 4 w)) n \<longleftrightarrow> bit (ucast w :: u32) n"
    using n by cases (simp_all add: l u32_le_def bit_simps, (linarith | blast | arith)+)
qed

lemma unat_of_nat32: "n < 2 ^ 32 \<Longrightarrow> unat (of_nat n :: u32) = n"
  by (simp add: unsigned_of_nat take_bit_nat_eq_self)

subsection \<open>Text\<close>

text \<open>\<open>str::contains\<close>.\<close>

definition str_contains :: "string \<Rightarrow> string \<Rightarrow> bool" where
  "str_contains needle s = list_ex (\<lambda>i. take (length needle) (drop i s) = needle) [0..<Suc (length s)]"

lemma str_contains_iff: "str_contains needle s \<longleftrightarrow> (\<exists>a b. s = a @ needle @ b)"
proof
  assume "str_contains needle s"
  then obtain i where "take (length needle) (drop i s) = needle" by (auto simp: str_contains_def list_ex_iff)
  then have "s = take i s @ needle @ drop (length needle) (drop i s)" by (metis append_take_drop_id)
  then show "\<exists>a b. s = a @ needle @ b" by blast
next
  assume "\<exists>a b. s = a @ needle @ b"
  then obtain a b where "s = a @ needle @ b" by blast
  then show "str_contains needle s" by (auto simp: str_contains_def list_ex_iff intro!: bexI [of _ "length a"])
qed

end
