(* ===== verification/Sort.thy ===== *)
theory Sort
  imports Prelude
begin

text \<open>
  The in-place heapsort of src/src/sort.rs. \<open>sort_raw\<close> and \<open>sift_down\<close> are generic over a key
  reader and a swap, as in the source; \<open>sort_mono\<close> runs them on the flat \<open>u32\<close> words of the
  slice, \<open>sort_by_u32_key\<close> on the slice itself. The locale \<open>swap_store\<close> is the contract between
  the algorithm and a store; it is interpreted on the flat words, which gives that sorting the
  raw words is sorting the elements.
\<close>

subsection \<open>The algorithm, over any store\<close>

text \<open>The child with the larger key: the right one if it exists and compares greater.\<close>

definition max_child :: "nat \<Rightarrow> ('s \<Rightarrow> nat \<Rightarrow> u32) \<Rightarrow> 's \<Rightarrow> nat \<Rightarrow> nat" where
  "max_child heap_len key s left =
     (let right = left + 1 in
      if right < heap_len \<and> key s right > key s left then right else left)"

lemma max_child_bounds:
  "left \<le> max_child n key s left" "max_child n key s left \<le> left + 1"
  "left < n \<Longrightarrow> max_child n key s left < n"
  by (simp_all add: max_child_def Let_def)

function sift_down ::
  "nat \<Rightarrow> nat \<Rightarrow> ('s \<Rightarrow> nat \<Rightarrow> u32) \<Rightarrow> (nat \<Rightarrow> nat \<Rightarrow> 's \<Rightarrow> 's) \<Rightarrow> 's \<Rightarrow> 's" where
  "sift_down i heap_len key swap s =
     (let left = 2 * i + 1 in
      if left \<ge> heap_len then s
      else
        let mx = max_child heap_len key s left
        in if key s i \<ge> key s mx then s
           else sift_down mx heap_len key swap (swap i mx s))"
  by pat_completeness auto
termination
proof (relation "measure (\<lambda>(i, heap_len, _). heap_len - i)")
  fix i n :: nat and key :: "'s \<Rightarrow> nat \<Rightarrow> u32" and swap :: "nat \<Rightarrow> nat \<Rightarrow> 's \<Rightarrow> 's" and s :: 's and x y
  assume "x = 2 * i + 1" "\<not> n \<le> x" "y = max_child n key s x"
  then show "((y, n, key, swap, swap i y s), i, n, key, swap, s) \<in> measure (\<lambda>(i, heap_len, _). heap_len - i)"
    using max_child_bounds(1) [of x n key s] by simp
qed simp

declare sift_down.simps [simp del]

lemma sift_down_stop:
  "n \<le> 2 * i + 1 \<or> key s i \<ge> key s (max_child n key s (2 * i + 1)) \<Longrightarrow> sift_down i n key swap s = s"
  by (subst sift_down.simps) (auto simp: Let_def)

lemma sift_down_step:
  assumes "2 * i + 1 < n" "key s i < key s (max_child n key s (2 * i + 1))"
  shows "sift_down i n key swap s =
     sift_down (max_child n key s (2 * i + 1)) n key swap (swap i (max_child n key s (2 * i + 1)) s)"
  using assms by (subst sift_down.simps) (auto simp: Let_def not_le)

text \<open>The induction the loop gives: it stops, or it goes on at the larger child.\<close>

lemma sift_down_cases:
  assumes stop: "\<And>i s. n \<le> 2 * i + 1 \<or> key s i \<ge> key s (max_child n key s (2 * i + 1)) \<Longrightarrow> P i s s"
    and step: "\<And>i m s. m = max_child n key s (2 * i + 1) \<Longrightarrow> i < m \<Longrightarrow> m < n \<Longrightarrow>
      key s i < key s m \<Longrightarrow> P m (swap i m s) (sift_down m n key swap (swap i m s)) \<Longrightarrow>
      P i s (sift_down m n key swap (swap i m s))"
  shows "P i s (sift_down i n key swap s)"
proof (induction "n - i" arbitrary: i s rule: less_induct)
  case less
  let ?m = "max_child n key s (2 * i + 1)"
  show ?case
  proof (cases "n \<le> 2 * i + 1 \<or> key s i \<ge> key s ?m")
    case True
    with stop show ?thesis by (simp add: sift_down_stop)
  next
    case False
    then have "i < ?m" "?m < n"
      using max_child_bounds(1,3) [of "2 * i + 1" n key s] by simp_all
    moreover from this have "P ?m (swap i ?m s) (sift_down ?m n key swap (swap i ?m s))"
      by (intro less.hyps) simp
    ultimately show ?thesis
      using False step [of ?m s i] by (simp add: sift_down_step not_le)
  qed
qed

text \<open>Phase 1 of \<open>sort_raw\<close>: the loop \<open>while i > 0 { i -= 1; sift_down(i, len, ..) }\<close>.\<close>

fun heapify_loop ::
  "nat \<Rightarrow> nat \<Rightarrow> ('s \<Rightarrow> nat \<Rightarrow> u32) \<Rightarrow> (nat \<Rightarrow> nat \<Rightarrow> 's \<Rightarrow> 's) \<Rightarrow> 's \<Rightarrow> 's" where
  "heapify_loop 0 len key swap s = s"
| "heapify_loop (Suc i) len key swap s =
     heapify_loop i len key swap (sift_down i len key swap s)"

text \<open>Phase 2: \<open>while n > 1 { n -= 1; swap(0, n); sift_down(0, n, ..) }\<close>.\<close>

fun extract_loop ::
  "nat \<Rightarrow> ('s \<Rightarrow> nat \<Rightarrow> u32) \<Rightarrow> (nat \<Rightarrow> nat \<Rightarrow> 's \<Rightarrow> 's) \<Rightarrow> 's \<Rightarrow> 's" where
  "extract_loop 0 key swap s = s"
| "extract_loop (Suc 0) key swap s = s"
| "extract_loop (Suc (Suc m)) key swap s =
     extract_loop (Suc m) key swap (sift_down 0 (Suc m) key swap (swap 0 (Suc m) s))"

definition sort_raw ::
  "nat \<Rightarrow> ('s \<Rightarrow> nat \<Rightarrow> u32) \<Rightarrow> (nat \<Rightarrow> nat \<Rightarrow> 's \<Rightarrow> 's) \<Rightarrow> 's \<Rightarrow> 's" where
  "sort_raw len key swap s =
     extract_loop len key swap (heapify_loop (len div 2) len key swap s)"

subsection \<open>The slice and its flat words\<close>

text \<open>\<open>sort_by_u32_key\<close> on a slice whose element key is \<open>k\<close> (the \<open>u32\<close> at byte offset 0).\<close>

definition slice_key :: "('a \<Rightarrow> u32) \<Rightarrow> 'a list \<Rightarrow> nat \<Rightarrow> u32" where
  "slice_key k xs i = k (xs ! i)"

definition sort_by_u32_key :: "('a \<Rightarrow> u32) \<Rightarrow> 'a list \<Rightarrow> 'a list" where
  "sort_by_u32_key k xs =
     (if length xs < 2 then xs else sort_raw (length xs) (slice_key k) list_swap xs)"

text \<open>The closures of \<open>sort_mono\<close>: the base pointer's words as a list, \<open>w\<close> words per element.\<close>

definition mono_key :: "nat \<Rightarrow> u32 list \<Rightarrow> nat \<Rightarrow> u32" where
  "mono_key w ws i = ws ! (i * w)"

fun mono_swap_words :: "nat \<Rightarrow> nat \<Rightarrow> nat \<Rightarrow> nat \<Rightarrow> u32 list \<Rightarrow> u32 list" where
  "mono_swap_words 0 a b k ws = ws"
| "mono_swap_words (Suc m) a b k ws =
     (let ta = ws ! (a + k);
          ws1 = ws[a + k := ws ! (b + k)];
          ws2 = ws1[b + k := ta]
      in mono_swap_words m a b (Suc k) ws2)"

definition mono_swap :: "nat \<Rightarrow> nat \<Rightarrow> nat \<Rightarrow> u32 list \<Rightarrow> u32 list" where
  "mono_swap w i j ws = mono_swap_words w (i * w) (j * w) 0 ws"

definition sort_mono :: "nat \<Rightarrow> nat \<Rightarrow> u32 list \<Rightarrow> u32 list" where
  "sort_mono len elem_size ws =
     (let elem_words = elem_size div 4 in sort_raw len (mono_key elem_words) (mono_swap elem_words) ws)"

subsection \<open>The loops only permute\<close>

lemma sift_down_permutes:
  "i < n \<longrightarrow> n \<le> length xs \<longrightarrow>
   mset (sift_down i n key list_swap xs) = mset xs \<and>
   drop n (sift_down i n key list_swap xs) = drop n xs"
  by (rule sift_down_cases [where P = "\<lambda>i xs ys. i < n \<longrightarrow> n \<le> length xs \<longrightarrow>
        mset ys = mset xs \<and> drop n ys = drop n xs"]) auto

lemma mset_sift_down [simp]:
  "i < n \<Longrightarrow> n \<le> length xs \<Longrightarrow> mset (sift_down i n key list_swap xs) = mset xs"
  using sift_down_permutes by blast

lemma drop_sift_down:
  "i < n \<Longrightarrow> n \<le> length xs \<Longrightarrow> drop n (sift_down i n key list_swap xs) = drop n xs"
  using sift_down_permutes by blast

lemma length_sift_down [simp]: "length (sift_down i n key list_swap xs) = length xs"
  by (rule sift_down_cases [where P = "\<lambda>i xs ys. length ys = length xs"]) auto

lemma mset_take_sift_down:
  assumes "i < n" "n \<le> length xs"
  shows "mset (take n (sift_down i n key list_swap xs)) = mset (take n xs)"
proof -
  let ?ys = "sift_down i n key list_swap xs"
  have "mset (take n ?ys) + mset (drop n ?ys) = mset (take n xs) + mset (drop n xs)"
    using assms by (simp flip: mset_append)
  then show ?thesis using assms by (simp add: drop_sift_down)
qed

lemma length_heapify_loop [simp]: "length (heapify_loop i n key list_swap xs) = length xs"
  by (induction i arbitrary: xs) simp_all

lemma mset_heapify_loop [simp]:
  "i \<le> n \<Longrightarrow> n \<le> length xs \<Longrightarrow> mset (heapify_loop i n key list_swap xs) = mset xs"
  by (induction i arbitrary: xs) simp_all

lemma length_extract_loop [simp]: "length (extract_loop n key list_swap xs) = length xs"
  by (induction n key "list_swap :: nat \<Rightarrow> nat \<Rightarrow> 'a list \<Rightarrow> 'a list" xs rule: extract_loop.induct) simp_all

lemma mset_extract_loop [simp]:
  "n \<le> length xs \<Longrightarrow> mset (extract_loop n key list_swap xs) = mset xs"
proof (induction n key "list_swap :: nat \<Rightarrow> nat \<Rightarrow> 'a list \<Rightarrow> 'a list" xs rule: extract_loop.induct)
  case (3 m key xs)
  have "mset (list_swap 0 (Suc m) xs) = mset xs"
    using "3.prems" by (intro mset_list_swap) auto
  with 3 show ?case by simp
qed simp_all

subsection \<open>The contract of a store\<close>

locale swap_store =
  fixes key :: "'s \<Rightarrow> nat \<Rightarrow> u32"
    and swap :: "nat \<Rightarrow> nat \<Rightarrow> 's \<Rightarrow> 's"
    and elems :: "'s \<Rightarrow> 'a list"
    and k :: "'a \<Rightarrow> u32"
    and inv :: "'s \<Rightarrow> bool"
  assumes key_elems: "inv s \<Longrightarrow> i < length (elems s) \<Longrightarrow> key s i = k (elems s ! i)"
    and elems_swap: "inv s \<Longrightarrow> i < length (elems s) \<Longrightarrow> j < length (elems s) \<Longrightarrow>
          elems (swap i j s) = list_swap i j (elems s)"
    and inv_swap: "inv s \<Longrightarrow> i < length (elems s) \<Longrightarrow> j < length (elems s) \<Longrightarrow> inv (swap i j s)"
begin

lemma max_child_sim:
  "inv s \<Longrightarrow> left < n \<Longrightarrow> n \<le> length (elems s) \<Longrightarrow>
   max_child n key s left = max_child n (slice_key k) (elems s) left"
  by (auto simp: max_child_def Let_def slice_key_def key_elems)

lemma sift_down_sim:
  "inv s \<Longrightarrow> i < n \<Longrightarrow> n \<le> length (elems s) \<Longrightarrow>
   inv (sift_down i n key swap s) \<and>
   elems (sift_down i n key swap s) = sift_down i n (slice_key k) list_swap (elems s)"
proof (induction "n - i" arbitrary: i s rule: less_induct)
  case less
  let ?m = "max_child n key s (2 * i + 1)"
  show ?case
  proof (cases "n \<le> 2 * i + 1 \<or> key s i \<ge> key s ?m")
    case True
    moreover have "n \<le> 2 * i + 1 \<or> slice_key k (elems s) i \<ge>
        slice_key k (elems s) (max_child n (slice_key k) (elems s) (2 * i + 1))"
    proof (cases "n \<le> 2 * i + 1")
      case False
      with True less.prems max_child_bounds(3) [of "2 * i + 1" n key s] show ?thesis
        by (simp add: key_elems slice_key_def flip: max_child_sim)
    qed simp
    ultimately show ?thesis using less.prems by (simp add: sift_down_stop)
  next
    case False
    then have m: "i < ?m" "?m < n" and le: "2 * i + 1 < n"
      using max_child_bounds(1,3) [of "2 * i + 1" n key s] by simp_all
    have eq: "?m = max_child n (slice_key k) (elems s) (2 * i + 1)"
      using less.prems le by (intro max_child_sim) auto
    have IH: "inv (sift_down ?m n key swap (swap i ?m s)) \<and>
        elems (sift_down ?m n key swap (swap i ?m s)) =
        sift_down ?m n (slice_key k) list_swap (list_swap i ?m (elems s))"
      using less.hyps [of ?m "swap i ?m s"] less.prems m by (simp add: elems_swap inv_swap)
    have "slice_key k (elems s) i < slice_key k (elems s) ?m"
      using False less.prems m by (simp add: key_elems slice_key_def not_le)
    then have "sift_down i n (slice_key k) list_swap (elems s) =
        sift_down ?m n (slice_key k) list_swap (list_swap i ?m (elems s))"
      using le eq by (simp add: sift_down_step)
    moreover have "sift_down i n key swap s = sift_down ?m n key swap (swap i ?m s)"
      using le False by (intro sift_down_step) (auto simp: not_le)
    ultimately show ?thesis using IH by simp
  qed
qed

lemma heapify_loop_sim:
  "inv s \<Longrightarrow> i \<le> n \<Longrightarrow> n \<le> length (elems s) \<Longrightarrow>
   inv (heapify_loop i n key swap s) \<and>
   elems (heapify_loop i n key swap s) = heapify_loop i n (slice_key k) list_swap (elems s)"
proof (induction i arbitrary: s)
  case (Suc i)
  have sd: "inv (sift_down i n key swap s)"
    "elems (sift_down i n key swap s) = sift_down i n (slice_key k) list_swap (elems s)"
    using Suc.prems sift_down_sim [of s i n] by simp_all
  have "n \<le> length (elems (sift_down i n key swap s))"
    using Suc.prems sd by (simp add: length_sift_down)
  with Suc.IH [of "sift_down i n key swap s"] Suc.prems sd show ?case by simp
qed simp

lemma extract_loop_sim:
  "inv s \<Longrightarrow> n \<le> length (elems s) \<Longrightarrow>
   inv (extract_loop n key swap s) \<and>
   elems (extract_loop n key swap s) = extract_loop n (slice_key k) list_swap (elems s)"
proof (induction n arbitrary: s rule: less_induct)
  case (less n)
  show ?case
  proof (cases "n < 2")
    case True
    then have "n = 0 \<or> n = Suc 0" by arith
    with less.prems show ?thesis by auto
  next
    case False
    then obtain m where n: "n = Suc (Suc m)"
      using less_2_cases_iff by (metis One_nat_def not0_implies_Suc)
    let ?t = "sift_down 0 (Suc m) key swap (swap 0 (Suc m) s)"
    have "0 < length (elems s)" "Suc m < length (elems s)" using less.prems n by auto
    then have sw: "inv (swap 0 (Suc m) s)" "elems (swap 0 (Suc m) s) = list_swap 0 (Suc m) (elems s)"
      using less.prems by (simp_all add: inv_swap elems_swap)
    have t: "inv ?t" "elems ?t = sift_down 0 (Suc m) (slice_key k) list_swap (elems (swap 0 (Suc m) s))"
      using sift_down_sim [of "swap 0 (Suc m) s" 0 "Suc m"] less.prems n sw by simp_all
    show ?thesis
      using less.IH [of "Suc m" ?t] n t sw less.prems by (simp add: length_sift_down)
  qed
qed

text \<open>Sorting the store is sorting the list of its elements.\<close>

lemma sort_raw_sim:
  assumes "inv s" and "length (elems s) = n"
  shows "elems (sort_raw n key swap s) = sort_raw n (slice_key k) list_swap (elems s)"
    and "inv (sort_raw n key swap s)"
proof -
  have h: "inv (heapify_loop (n div 2) n key swap s)"
    "elems (heapify_loop (n div 2) n key swap s) = heapify_loop (n div 2) n (slice_key k) list_swap (elems s)"
    using heapify_loop_sim [of s "n div 2" n] assms by simp_all
  have "n \<le> length (elems (heapify_loop (n div 2) n key swap s))"
    using assms h by (simp add: length_heapify_loop)
  then show "elems (sort_raw n key swap s) = sort_raw n (slice_key k) list_swap (elems s)"
    and "inv (sort_raw n key swap s)"
    using extract_loop_sim [of "heapify_loop (n div 2) n key swap s" n] h
    by (simp_all add: sort_raw_def)
qed

end

subsection \<open>The heap\<close>

definition parent :: "nat \<Rightarrow> nat" where
  "parent c = (c - 1) div 2"

lemma parent_eq: "0 < c \<Longrightarrow> parent c = i \<longleftrightarrow> c = 2 * i + 1 \<or> c = 2 * i + 2"
  unfolding parent_def by arith

lemma parent_less: "0 < c \<Longrightarrow> parent c < c"
  unfolding parent_def by arith

definition heap_on :: "('a \<Rightarrow> u32) \<Rightarrow> nat \<Rightarrow> nat \<Rightarrow> 'a list \<Rightarrow> bool" where
  "heap_on k lo n xs \<longleftrightarrow>
     (\<forall>c. 0 < c \<and> c < n \<and> lo \<le> parent c \<longrightarrow> k (xs ! c) \<le> k (xs ! parent c))"

text \<open>A heap but for position \<open>i\<close>, whose children still lie below \<open>i\<close>'s parent.\<close>

definition heap_hole :: "('a \<Rightarrow> u32) \<Rightarrow> nat \<Rightarrow> nat \<Rightarrow> nat \<Rightarrow> 'a list \<Rightarrow> bool" where
  "heap_hole k lo i n xs \<longleftrightarrow>
     (\<forall>c. 0 < c \<and> c < n \<and> lo \<le> parent c \<and> parent c \<noteq> i \<longrightarrow> k (xs ! c) \<le> k (xs ! parent c)) \<and>
     (\<forall>c. 0 < c \<and> c < n \<and> parent c = i \<and> 0 < i \<and> lo \<le> parent i \<longrightarrow> k (xs ! c) \<le> k (xs ! parent i))"

lemma max_child_max:
  "0 < c \<Longrightarrow> c < n \<Longrightarrow> parent c = i \<Longrightarrow>
   slice_key k xs c \<le> slice_key k xs (max_child n (slice_key k) xs (2 * i + 1))"
  by (auto simp: parent_eq max_child_def Let_def not_less)

lemma heap_hole_stop:
  assumes "heap_hole k lo i n xs"
    and "n \<le> 2 * i + 1 \<or> slice_key k xs i \<ge> slice_key k xs (max_child n (slice_key k) xs (2 * i + 1))"
  shows "heap_on k lo n xs"
  unfolding heap_on_def
proof (intro allI impI)
  fix c assume c: "0 < c \<and> c < n \<and> lo \<le> parent c"
  show "k (xs ! c) \<le> k (xs ! parent c)"
  proof (cases "parent c = i")
    case True
    with c have "\<not> n \<le> 2 * i + 1" by (auto simp: parent_eq)
    with assms(2) max_child_max [of c n i k xs] c True show ?thesis
      by (simp add: slice_key_def)
  next
    case False
    with assms(1) c show ?thesis by (simp add: heap_hole_def)
  qed
qed

lemma heap_hole_step:
  assumes hole: "heap_hole k lo i n xs" and lo: "lo \<le> i" and n: "n \<le> length xs"
    and m: "m = max_child n (slice_key k) xs (2 * i + 1)" "i < m" "m < n"
    and less: "slice_key k xs i < slice_key k xs m"
  shows "heap_hole k lo m n (list_swap i m xs)"
proof -
  have pm: "parent m = i"
    using m max_child_bounds(1,2) [where left = "2 * i + 1" and n = n and key = "slice_key k" and s = xs]
    by (subst parent_eq) auto
  have nth: "c < n \<Longrightarrow> list_swap i m xs ! c = (if c = m then xs ! i else if c = i then xs ! m else xs ! c)" for c
    using m n by (simp add: nth_list_swap)
  have sib: "0 < c \<Longrightarrow> c < n \<Longrightarrow> parent c = i \<Longrightarrow> k (xs ! c) \<le> k (xs ! m)" for c
    using max_child_max [of c n i k xs] m by (simp add: slice_key_def)
  have up: "0 < i \<Longrightarrow> lo \<le> parent i \<Longrightarrow> k (xs ! m) \<le> k (xs ! parent i)"
    using hole pm m by (auto simp: heap_hole_def)
  have old: "0 < c \<Longrightarrow> c < n \<Longrightarrow> lo \<le> parent c \<Longrightarrow> parent c \<noteq> i \<Longrightarrow> k (xs ! c) \<le> k (xs ! parent c)" for c
    using hole by (simp add: heap_hole_def)
  show ?thesis
    unfolding heap_hole_def
  proof (intro conjI allI impI; elim conjE)
    fix c assume c: "0 < c" "c < n" "lo \<le> parent c" "parent c \<noteq> m"
    then have pc: "parent c < n" using parent_less [of c] by simp
    show "k (list_swap i m xs ! c) \<le> k (list_swap i m xs ! parent c)"
    proof (cases "parent c = i")
      case True
      with c pc m(2,3) sib [of c] less parent_less [of c] show ?thesis
        by (auto simp: nth slice_key_def)
    next
      case False
      with c pc pm m(2,3) up old [of c] show ?thesis by (auto simp: nth)
    qed
  next
    fix c assume c: "0 < c" "c < n" "parent c = m"
    then have "m < c" using parent_less [of c] by simp
    with c pm m(2,3) old [of c] lo show "k (list_swap i m xs ! c) \<le> k (list_swap i m xs ! parent m)"
      by (simp add: nth)
  qed
qed

lemma sift_down_heap:
  "heap_hole k lo i n xs \<Longrightarrow> lo \<le> i \<Longrightarrow> n \<le> length xs \<Longrightarrow>
   heap_on k lo n (sift_down i n (slice_key k) list_swap xs)"
proof -
  have "heap_hole k lo i n xs \<longrightarrow> lo \<le> i \<longrightarrow> n \<le> length xs \<longrightarrow>
      heap_on k lo n (sift_down i n (slice_key k) list_swap xs)"
    by (rule sift_down_cases [where P = "\<lambda>i xs ys. heap_hole k lo i n xs \<longrightarrow> lo \<le> i \<longrightarrow>
          n \<le> length xs \<longrightarrow> heap_on k lo n ys"])
      (auto intro: heap_hole_stop heap_hole_step)
  then show "heap_hole k lo i n xs \<Longrightarrow> lo \<le> i \<Longrightarrow> n \<le> length xs \<Longrightarrow>
      heap_on k lo n (sift_down i n (slice_key k) list_swap xs)" by blast
qed

lemma heapify_heap:
  "heap_on k i n xs \<Longrightarrow> n \<le> length xs \<Longrightarrow>
   heap_on k 0 n (heapify_loop i n (slice_key k) list_swap xs)"
proof (induction i arbitrary: xs)
  case (Suc i)
  have "heap_hole k i i n xs"
    using Suc.prems(1) parent_less [of i] by (auto simp: heap_on_def heap_hole_def)
  then have "heap_on k i n (sift_down i n (slice_key k) list_swap xs)"
    using Suc.prems(2) by (intro sift_down_heap) simp_all
  then show ?case using Suc by simp
qed simp

lemma heap_root_max: "heap_on k 0 n xs \<Longrightarrow> i < n \<Longrightarrow> k (xs ! i) \<le> k (xs ! 0)"
proof (induction i rule: less_induct)
  case (less i)
  show ?case
  proof (cases "i = 0")
    case False
    then have "k (xs ! i) \<le> k (xs ! parent i)" using less.prems by (simp add: heap_on_def)
    also have "\<dots> \<le> k (xs ! 0)"
      using less parent_less [of i] False by simp
    finally show ?thesis .
  qed simp
qed

text \<open>The loop invariant of phase 2: a heap in front, the larger keys sorted behind it.\<close>

definition extract_inv :: "('a \<Rightarrow> u32) \<Rightarrow> nat \<Rightarrow> 'a list \<Rightarrow> bool" where
  "extract_inv k n xs \<longleftrightarrow> n \<le> length xs \<and> heap_on k 0 n xs \<and> sorted (map k (drop n xs)) \<and>
     (\<forall>x \<in> set (take n xs). \<forall>y \<in> set (drop n xs). k x \<le> k y)"

lemma extract_inv_step:
  assumes "extract_inv k (Suc (Suc m)) xs"
  shows "extract_inv k (Suc m) (sift_down 0 (Suc m) (slice_key k) list_swap (list_swap 0 (Suc m) xs))"
proof -
  let ?n = "Suc m" and ?sw = "list_swap 0 (Suc m) xs"
  let ?ys = "sift_down 0 ?n (slice_key k) list_swap ?sw"
  have len: "Suc ?n \<le> length xs" and heap: "heap_on k 0 (Suc ?n) xs"
    and srt: "sorted (map k (drop (Suc ?n) xs))"
    and sep: "\<forall>x \<in> set (take (Suc ?n) xs). \<forall>y \<in> set (drop (Suc ?n) xs). k x \<le> k y"
    using assms by (auto simp: extract_inv_def)
  have nth: "c < length xs \<Longrightarrow> ?sw ! c = (if c = ?n then xs ! 0 else if c = 0 then xs ! ?n else xs ! c)" for c
    using len by (subst nth_list_swap) auto
  have hole: "heap_hole k 0 0 ?n ?sw"
    using heap len by (auto simp: heap_hole_def heap_on_def nth parent_def)
  have top: "x \<in> set (take ?n ?sw) \<Longrightarrow> k x \<le> k (xs ! 0)" for x
    using len heap_root_max [OF heap] by (auto simp: in_set_conv_nth nth)
  have dsw: "drop ?n ?sw = xs ! 0 # drop (Suc ?n) xs"
    using len nth [of ?n] by (simp add: drop_list_swap [of 0 "Suc (Suc m)"] flip: Cons_nth_drop_Suc)
  have takes: "set (take ?n ?ys) = set (take ?n ?sw)"
    using mset_take_sift_down [of 0 ?n ?sw] len by (metis length_list_swap Suc_leD set_mset_mset zero_less_Suc)
  have sub: "set (take ?n ?sw) \<subseteq> set (take (Suc ?n) xs)"
    using len by (auto simp: in_set_conv_nth nth) (metis less_Suc_eq nth_take lessI less_trans zero_less_Suc)+
  have d: "drop ?n ?ys = xs ! 0 # drop (Suc ?n) xs"
    using len dsw by (simp add: drop_sift_down)
  have "xs ! 0 \<in> set (take (Suc ?n) xs)"
    using len by (auto simp: in_set_conv_nth intro!: exI [of _ 0])
  with sep srt have "sorted (map k (drop ?n ?ys))" unfolding d by auto
  moreover have "\<forall>x \<in> set (take ?n ?ys). \<forall>y \<in> set (drop ?n ?ys). k x \<le> k y"
    using takes sub sep top unfolding d by auto
  moreover have "heap_on k 0 ?n ?ys"
    using hole len by (intro sift_down_heap) simp_all
  ultimately show ?thesis using len by (simp add: extract_inv_def)
qed

lemma extract_sorted:
  "extract_inv k n xs \<Longrightarrow> sorted (map k (extract_loop n (slice_key k) list_swap xs))"
proof (induction n "slice_key k" "list_swap :: nat \<Rightarrow> nat \<Rightarrow> 'a list \<Rightarrow> 'a list" xs rule: extract_loop.induct)
  case (1 xs)
  then show ?case by (simp add: extract_inv_def)
next
  case (2 xs)
  then show ?case
    by (cases xs) (auto simp: extract_inv_def)
next
  case (3 m xs)
  then show ?case using extract_inv_step [of k m xs] by (simp only: extract_loop.simps)
qed

lemma sort_raw_sorted: "sorted (map k (sort_raw (length xs) (slice_key k) list_swap xs))"
proof -
  let ?n = "length xs"
  have "\<not> ?n div 2 \<le> parent c" if "0 < c" "c < ?n" for c
    using that unfolding parent_def by arith
  then have "heap_on k (?n div 2) ?n xs" unfolding heap_on_def by blast
  then have "heap_on k 0 ?n (heapify_loop (?n div 2) ?n (slice_key k) list_swap xs)"
    by (intro heapify_heap) simp_all
  then show ?thesis
    unfolding sort_raw_def by (intro extract_sorted) (simp add: extract_inv_def)
qed

lemma mset_sort_raw: "mset (sort_raw (length xs) (slice_key k) list_swap xs) = mset xs"
  by (simp add: sort_raw_def)

lemma length_sort_by_u32_key [simp]: "length (sort_by_u32_key k xs) = length xs"
  by (simp add: sort_by_u32_key_def sort_raw_def)

lemma mset_sort_by_u32_key [simp]: "mset (sort_by_u32_key k xs) = mset xs"
  by (simp add: sort_by_u32_key_def mset_sort_raw)

lemma set_sort_by_u32_key [simp]: "set (sort_by_u32_key k xs) = set xs"
  by (metis mset_sort_by_u32_key set_mset_mset)

lemma sorted_sort_by_u32_key [simp]: "sorted (map k (sort_by_u32_key k xs))"
proof (cases "length xs < 2")
  case True
  then have "sorted (map k xs)" by (intro sorted01) simp
  with True show ?thesis by (simp add: sort_by_u32_key_def)
qed (simp add: sort_by_u32_key_def sort_raw_sorted)

subsection \<open>Sorting the raw words sorts the elements\<close>

definition flat_elems :: "nat \<Rightarrow> u32 list \<Rightarrow> u32 list list" where
  "flat_elems w ws = map (\<lambda>i. take w (drop (i * w) ws)) [0 ..< length ws div w]"

definition flat_inv :: "nat \<Rightarrow> u32 list \<Rightarrow> bool" where
  "flat_inv w ws \<longleftrightarrow> 0 < w \<and> w dvd length ws"

lemma length_flat_elems [simp]: "length (flat_elems w ws) = length ws div w"
  by (simp add: flat_elems_def)

lemma flat_index: "flat_inv w ws \<Longrightarrow> i < length ws div w \<Longrightarrow> i * w + w \<le> length ws"
  by (auto simp: flat_inv_def elim!: dvdE)
    (metis add.commute mult.commute mult_Suc mult_le_mono2 Suc_leI)

lemma nth_flat_elems:
  "flat_inv w ws \<Longrightarrow> i < length ws div w \<Longrightarrow> flat_elems w ws ! i = map (\<lambda>t. ws ! (i * w + t)) [0 ..< w]"
  using flat_index [of w ws i] by (auto simp: flat_elems_def intro: nth_equalityI)

lemma length_mono_swap_words [simp]: "length (mono_swap_words m a b t ws) = length ws"
  by (induction m a b t ws rule: mono_swap_words.induct) (simp_all add: Let_def)

lemma mono_swap_words_same: "mono_swap_words m a a t ws = ws"
  by (induction m arbitrary: t) (simp_all add: Let_def)

lemma nth_mono_swap_words:
  assumes "a + w \<le> b \<or> b + w \<le> a" "t + m = w" "a + w \<le> length ws" "b + w \<le> length ws" "p < length ws"
  shows "mono_swap_words m a b t ws ! p =
    (if a + t \<le> p \<and> p < a + w then ws ! (b + (p - a))
     else if b + t \<le> p \<and> p < b + w then ws ! (a + (p - b)) else ws ! p)"
  using assms
proof (induction m arbitrary: t ws)
  case 0
  then show ?case by auto
next
  case (Suc m)
  let ?ws = "ws[a + t := ws ! (b + t), b + t := ws ! (a + t)]"
  have b: "a + t < length ws" "b + t < length ws" "a + t \<noteq> b + t" using Suc.prems by auto
  have step: "?ws ! q = (if q = a + t then ws ! (b + t) else if q = b + t then ws ! (a + t) else ws ! q)"
    if "q < length ws" for q
    using that b by (auto simp: nth_list_update)
  have IH: "mono_swap_words m a b (Suc t) ?ws ! p =
     (if a + Suc t \<le> p \<and> p < a + w then ?ws ! (b + (p - a))
      else if b + Suc t \<le> p \<and> p < b + w then ?ws ! (a + (p - b)) else ?ws ! p)"
    using Suc.prems by (intro Suc.IH) auto
  have "p = a + t \<or> p = b + t \<or> p \<noteq> a + t \<and> p \<noteq> b + t" by blast
  then show ?case
    using Suc.prems b by (auto simp: Let_def IH step)
qed

lemma mono_swap_flat:
  assumes inv: "flat_inv w ws" and i: "i < length ws div w" and j: "j < length ws div w"
  shows "flat_elems w (mono_swap w i j ws) = list_swap i j (flat_elems w ws)"
proof (cases "i = j")
  case True
  then show ?thesis by (simp add: mono_swap_def mono_swap_words_same list_swap_def)
next
  case False
  have len: "length (mono_swap w i j ws) = length ws" by (simp add: mono_swap_def)
  then have inv': "flat_inv w (mono_swap w i j ws)" using inv by (simp add: flat_inv_def)
  have off: "i * w + w \<le> length ws" "j * w + w \<le> length ws"
    using inv i j by (auto intro: flat_index)
  have apart: "x * w + w \<le> y * w" if "x < y" for x y
    using that mult_le_mono1 [of "Suc x" y w] by simp
  have disj: "i * w + w \<le> j * w \<or> j * w + w \<le> i * w"
    using False apart [of i j] apart [of j i] by (cases "i < j") auto
  have words: "mono_swap w i j ws ! (c * w + t) =
      (if c = i then ws ! (j * w + t) else if c = j then ws ! (i * w + t) else ws ! (c * w + t))"
    if c: "c < length ws div w" and t: "t < w" for c t
  proof -
    have "c * w + t < length ws" using flat_index [OF inv c] t by simp
    moreover have "c \<noteq> i \<Longrightarrow> c * w + w \<le> i * w \<or> i * w + w \<le> c * w"
      using apart [of c i] apart [of i c] by (cases "c < i") auto
    moreover have "c \<noteq> j \<Longrightarrow> c * w + w \<le> j * w \<or> j * w + w \<le> c * w"
      using apart [of c j] apart [of j c] by (cases "c < j") auto
    ultimately show ?thesis
      unfolding mono_swap_def using disj off t
      by (subst nth_mono_swap_words [where w = w]) auto
  qed
  show ?thesis
  proof (rule nth_equalityI)
    fix c assume "c < length (flat_elems w (mono_swap w i j ws))"
    then have c: "c < length ws div w" by (simp add: len)
    then show "flat_elems w (mono_swap w i j ws) ! c = list_swap i j (flat_elems w ws) ! c"
      using inv inv' i j by (simp add: nth_flat_elems len nth_list_swap words)
  qed (simp add: len)
qed

interpretation flat: swap_store "mono_key w" "mono_swap w" "flat_elems w" hd "flat_inv w" for w
proof
  fix ws i j
  assume inv: "flat_inv w ws" and i: "i < length (flat_elems w ws)"
  then have "flat_elems w ws ! i = map (\<lambda>t. ws ! (i * w + t)) [0 ..< w]" "0 < w"
    by (simp_all add: nth_flat_elems flat_inv_def)
  then show "mono_key w ws i = hd (flat_elems w ws ! i)"
    by (simp add: mono_key_def hd_map)
  assume "j < length (flat_elems w ws)"
  with inv i show "flat_elems w (mono_swap w i j ws) = list_swap i j (flat_elems w ws)"
    by (simp add: mono_swap_flat)
  show "flat_inv w (mono_swap w i j ws)"
    using inv by (simp add: flat_inv_def mono_swap_def)
qed

subsection \<open>Properties\<close>

text \<open>C8: \<open>sort_by_u32_key\<close> returns its slice in ascending order of the \<open>u32\<close> key, and as the same
  multiset of elements: nothing is lost, duplicated or altered.\<close>

theorem sort_by_u32_key_correct:
  "sorted (map k (sort_by_u32_key k xs)) \<and> mset (sort_by_u32_key k xs) = mset xs"
  by simp

text \<open>\<open>sort_mono\<close>, which compares and exchanges raw 32-bit words through the base pointer,
  computes on a slice of \<open>len \<ge> 2\<close> elements of \<open>elem_size\<close> bytes (a positive multiple of 4)
  exactly what \<open>sort_by_u32_key\<close> computes on the elements those words hold.\<close>

theorem sort_mono_refines:
  assumes "0 < elem_size" "4 dvd elem_size" "length ws = len * (elem_size div 4)" "2 \<le> len"
  shows "flat_elems (elem_size div 4) (sort_mono len elem_size ws) =
         sort_by_u32_key hd (flat_elems (elem_size div 4) ws)"
proof -
  let ?w = "elem_size div 4"
  have "flat_inv ?w ws" "length (flat_elems ?w ws) = len"
    using assms by (auto simp: flat_inv_def)
  then show ?thesis
    using flat.sort_raw_sim(1) [of ?w ws len] assms(4) by (simp add: sort_mono_def sort_by_u32_key_def Let_def)
qed

theorem sort_mono_refines_witness:
  "flat_elems 2 (sort_mono 3 8 [7, 1, 3, 2, 5, 3]) = sort_by_u32_key hd (flat_elems 2 [7, 1, 3, 2, 5, 3])"
  using sort_mono_refines [of 8 "[7, 1, 3, 2, 5, 3]" 3] by simp

end
