(* ===== verification/FVec.thy ===== *)
theory FVec
  imports Prelude
begin

unbundle bit_operations_syntax

text \<open>
  The arena collections of src/src/arena.rs as their clients see them: the fixed-capacity vector
  \<open>FVec\<close> (and \<open>FReserve\<close>, which pushes the same way), the packed slice handle \<open>FSmall\<close>, and the
  nested collection \<open>FNest\<close>. Where the elements live is the business of theory \<open>Arena\<close>; here a
  vector is its capacity and its live elements, and \<open>FNest\<close> its two flat arrays.
\<close>

subsection \<open>FVec\<close>

record 'a fvec =
  fv_capacity :: nat
  fv_elems :: "'a list"

definition fvec_wf :: "'a fvec \<Rightarrow> bool" where
  "fvec_wf v \<longleftrightarrow> length (fv_elems v) \<le> fv_capacity v"

definition fvec_new :: "nat \<Rightarrow> 'a fvec" where
  "fvec_new capacity = \<lparr>fv_capacity = capacity, fv_elems = []\<rparr>"

text \<open>\<open>push\<close> hands the value back (\<open>Inl\<close>) when the vector is full.\<close>

definition fvec_push :: "'a fvec \<Rightarrow> 'a \<Rightarrow> 'a fvec \<times> ('a + unit)" where
  "fvec_push v value =
     (if length (fv_elems v) \<ge> fv_capacity v then (v, Inl value)
      else (v\<lparr>fv_elems := fv_elems v @ [value]\<rparr>, Inr ()))"

text \<open>The caller's \<open>let _ = v.push(x)\<close>: a value that does not fit is dropped.\<close>

definition fvec_push_ignore :: "'a fvec \<Rightarrow> 'a \<Rightarrow> 'a fvec" where
  "fvec_push_ignore v value = fst (fvec_push v value)"

definition fvec_pop :: "'a fvec \<Rightarrow> ('a \<times> 'a fvec) option" where
  "fvec_pop v =
     (if fv_elems v = [] then None
      else Some (last (fv_elems v), v\<lparr>fv_elems := butlast (fv_elems v)\<rparr>))"

fun fvec_truncate :: "'a fvec \<Rightarrow> nat \<Rightarrow> 'a fvec" where
  "fvec_truncate v new_len = v\<lparr>fv_elems := take new_len (fv_elems v)\<rparr>"

definition fvec_clear :: "'a fvec \<Rightarrow> 'a fvec" where
  "fvec_clear v = fvec_truncate v 0"

datatype fvec_panic = ExtendOverflow

definition fvec_extend_from_slice :: "'a fvec \<Rightarrow> 'a list \<Rightarrow> fvec_panic + 'a fvec" where
  "fvec_extend_from_slice v src =
     (if src = [] then Inr v
      else if length (fv_elems v) + length src \<le> fv_capacity v
           then Inr (v\<lparr>fv_elems := fv_elems v @ src\<rparr>)
           else Inl ExtendOverflow)"

fun fvec_extend :: "'a fvec \<Rightarrow> 'a list \<Rightarrow> fvec_panic + 'a fvec" where
  "fvec_extend v [] = Inr v"
| "fvec_extend v (item # iter) =
     (case fvec_push v item of (v', Inl _) \<Rightarrow> Inl ExtendOverflow | (v', Inr _) \<Rightarrow> fvec_extend v' iter)"

text \<open>\<open>retain_in_place\<close>: \<open>keep\<close> sees its captured state and the element in slot \<open>r\<close>, may change
  both, and says whether the element stays; kept elements move down to slot \<open>w\<close>.\<close>

function retain_loop ::
  "('s \<Rightarrow> 'a \<Rightarrow> 's \<times> 'a \<times> bool) \<Rightarrow> 's \<Rightarrow> 'a list \<Rightarrow> nat \<Rightarrow> nat \<Rightarrow> nat \<Rightarrow> 's \<times> 'a list \<times> nat" where
  "retain_loop keep s slots w r e =
     (if r < e then
        (case keep s (slots ! r) of (s', x, keep_this) \<Rightarrow>
          let slots1 = slots[r := x] in
          if keep_this
          then retain_loop keep s' (if w \<noteq> r then slots1[w := slots1 ! r] else slots1) (Suc w) (Suc r) e
          else retain_loop keep s' slots1 w (Suc r) e)
      else (s, slots, w))"
  by pat_completeness auto
termination
  by (relation "measure (\<lambda>(keep, s, slots, w, r, e). e - r)") auto

declare retain_loop.simps [simp del]

definition fvec_retain_in_place ::
  "('s \<Rightarrow> 'a \<Rightarrow> 's \<times> 'a \<times> bool) \<Rightarrow> 's \<Rightarrow> 'a fvec \<Rightarrow> 's \<times> 'a fvec" where
  "fvec_retain_in_place keep s v =
     (case retain_loop keep s (fv_elems v) 0 0 (length (fv_elems v)) of
        (s', slots, w) \<Rightarrow> (s', v\<lparr>fv_elems := take w slots\<rparr>))"

text \<open>The byte writer on a vector truncates softly.\<close>

definition fvec_put_bytes :: "char fvec \<Rightarrow> char list \<Rightarrow> char fvec" where
  "fvec_put_bytes v b =
     (let room = fv_capacity v - length (fv_elems v);
          src = take (min (length b) room) b
      in case fvec_extend_from_slice v src of Inr v' \<Rightarrow> v' | Inl _ \<Rightarrow> v)"

definition fvec_put_byte :: "char fvec \<Rightarrow> char \<Rightarrow> char fvec" where
  "fvec_put_byte v b = fvec_push_ignore v b"

lemmas fvec_defs = fvec_new_def fvec_push_def fvec_push_ignore_def fvec_pop_def fvec_clear_def
  fvec_extend_from_slice_def fvec_put_bytes_def fvec_put_byte_def

lemma fvec_push_ignore_elems:
  "fv_elems (fvec_push_ignore v x) =
     (if length (fv_elems v) < fv_capacity v then fv_elems v @ [x] else fv_elems v)"
  "fv_capacity (fvec_push_ignore v x) = fv_capacity v"
  by (simp_all add: fvec_defs)

lemma fvec_pop_push:
  "length (fv_elems v) < fv_capacity v \<Longrightarrow> fvec_pop (fvec_push_ignore v x) = Some (x, v)"
  by (simp add: fvec_defs)

lemma fvec_extend_eq:
  "fvec_wf v \<Longrightarrow> fvec_extend v src =
     (if length (fv_elems v) + length src \<le> fv_capacity v
      then Inr (v\<lparr>fv_elems := fv_elems v @ src\<rparr>) else Inl ExtendOverflow)"
proof (induction src arbitrary: v)
  case (Cons x src)
  show ?case
  proof (cases "length (fv_elems v) < fv_capacity v")
    case True
    with Cons.IH [of "v\<lparr>fv_elems := fv_elems v @ [x]\<rparr>"] show ?thesis
      by (simp add: fvec_push_def fvec_wf_def)
  qed (use Cons.prems in \<open>simp add: fvec_push_def fvec_wf_def\<close>)
qed (simp add: fvec_wf_def)

text \<open>What \<open>retain_in_place\<close> means: one pass in order, keeping what \<open>keep\<close> keeps as it left it.\<close>

fun retain_spec :: "('s \<Rightarrow> 'a \<Rightarrow> 's \<times> 'a \<times> bool) \<Rightarrow> 's \<Rightarrow> 'a list \<Rightarrow> 's \<times> 'a list" where
  "retain_spec keep s [] = (s, [])"
| "retain_spec keep s (x # xs) =
     (case keep s x of (s', x', keep_this) \<Rightarrow>
       (case retain_spec keep s' xs of (s'', ys) \<Rightarrow> (s'', if keep_this then x' # ys else ys)))"

lemma retain_loop_spec:
  assumes "w \<le> r" "r \<le> length slots"
  shows "case retain_loop keep s slots w r (length slots) of (s', slots', w') \<Rightarrow>
    (s', take w' slots') = (case retain_spec keep s (drop r slots) of (s', ys) \<Rightarrow> (s', take w slots @ ys))"
  using assms
proof (induction "length slots - r" arbitrary: s slots w r rule: less_induct)
  case less
  show ?case
  proof (cases "r < length slots")
    case False
    with less.prems show ?thesis by (simp add: retain_loop.simps)
  next
    case True
    obtain s' x' kp where k: "keep s (slots ! r) = (s', x', kp)" by (metis prod_cases3)
    have d: "drop r slots = slots ! r # drop (Suc r) slots" using True by (simp add: Cons_nth_drop_Suc)
    let ?next = "if kp then (if w \<noteq> r then slots[r := x', w := x'] else slots[r := x']) else slots[r := x']"
    let ?w = "if kp then Suc w else w"
    have dn: "drop (Suc r) ?next = drop (Suc r) slots" using less.prems True by (auto simp: drop_update_cancel)
    have tn: "take ?w ?next = take w slots @ (if kp then [x'] else [])"
      using less.prems True
      by (cases "w = r") (auto simp: take_Suc_conv_app_nth)
    have "case retain_loop keep s' ?next ?w (Suc r) (length ?next) of (s'', slots', w') \<Rightarrow>
      (s'', take w' slots') =
        (case retain_spec keep s' (drop (Suc r) ?next) of (s'', ys) \<Rightarrow> (s'', take ?w ?next @ ys))"
      using less.prems True by (intro less.hyps) auto
    moreover have "length ?next = length slots" by simp
    moreover have "retain_loop keep s slots w r (length slots) =
        retain_loop keep s' ?next ?w (Suc r) (length slots)"
      using True k less.prems by (subst retain_loop.simps) (auto simp: Let_def)
    ultimately show ?thesis
      unfolding dn tn d by (auto simp: k split: prod.splits)
  qed
qed

lemma fvec_retain_in_place_eq:
  "fvec_retain_in_place keep s v =
     (case retain_spec keep s (fv_elems v) of (s', ys) \<Rightarrow> (s', v\<lparr>fv_elems := ys\<rparr>))"
  using retain_loop_spec [of 0 0 "fv_elems v" keep s]
  by (auto simp: fvec_retain_in_place_def split: prod.splits)

subsection \<open>FSmall\<close>

definition LEN_BITS :: nat where "LEN_BITS = 12"
definition LEN_MASK :: u32 where "LEN_MASK = push_bit LEN_BITS 1 - 1"
definition MAX_OFFSET :: u32 where "MAX_OFFSET = push_bit (32 - LEN_BITS) 1 - 1"
definition MAX_LEN :: u32 where "MAX_LEN = LEN_MASK"

definition fsmall_len :: "u32 \<Rightarrow> u32" where "fsmall_len packed = packed AND LEN_MASK"
definition fsmall_offset :: "u32 \<Rightarrow> u32" where "fsmall_offset packed = drop_bit LEN_BITS packed"

text \<open>\<open>into_small\<close> of the span \<open>(offset, len)\<close>; \<open>None\<close> is the failed assertion (a panic).\<close>

definition into_small :: "u32 \<Rightarrow> u32 \<Rightarrow> u32 option" where
  "into_small offset len =
     (if offset \<le> MAX_OFFSET \<and> len \<le> MAX_LEN then Some (push_bit LEN_BITS offset OR len) else None)"

definition into_small_lossy :: "u32 \<Rightarrow> u32 \<Rightarrow> u32 option" where
  "into_small_lossy offset len = into_small offset (min len MAX_LEN)"

lemmas fsmall_defs = LEN_BITS_def LEN_MASK_def MAX_OFFSET_def MAX_LEN_def fsmall_len_def
  fsmall_offset_def into_small_def into_small_lossy_def

lemma into_small_Some:
  "into_small offset len = Some p \<Longrightarrow> fsmall_offset p = offset \<and> fsmall_len p = len"
proof -
  assume p: "into_small offset len = Some p"
  then have le: "offset \<le> 1048575" "len \<le> 4095" and eq: "p = push_bit 12 offset OR len"
    by (auto simp: fsmall_defs split: if_splits)
  have "offset < 2 ^ 20" "len < 2 ^ 12" using le by unat_arith+
  then have o: "take_bit 20 offset = offset" and l: "take_bit 12 len = len"
    by (simp_all add: take_bit_eq_mask less_mask_eq)
  have bo: "bit offset n \<Longrightarrow> n < 20" and bl: "bit len n \<Longrightarrow> n < 12" for n
    using o l by (metis bit_take_bit_iff)+
  have "(4095 :: u32) = mask 12" by (simp add: mask_eq_exp_minus_1)
  then have "fsmall_len p = take_bit 12 p" by (simp add: fsmall_defs take_bit_eq_mask)
  also have "\<dots> = len"
    unfolding eq by (rule bit_word_eqI) (auto simp: bit_simps dest: bl)
  finally have "fsmall_len p = len" .
  moreover have "fsmall_offset p = offset"
    unfolding fsmall_defs eq
    by (rule bit_word_eqI) (auto simp: bit_simps dest: bo bl)
  ultimately show ?thesis by simp
qed

subsection \<open>FNest\<close>

record 'a fnest =
  fn_offsets :: "nat list"
  fn_data :: "'a list"

datatype nest_panic = BucketOutOfRange nat | MoreItems nat | FewerItems nat

text \<open>Pass 1 tallies bucket sizes into \<open>offsets[b + 1]\<close>.\<close>

fun nest_count :: "nat \<Rightarrow> (nat \<times> 'a) list \<Rightarrow> nat list \<Rightarrow> nest_panic + nat list" where
  "nest_count n [] offsets = Inr offsets"
| "nest_count n ((b, _) # items) offsets =
     (if b < n then nest_count n items (offsets[b + 1 := offsets ! (b + 1) + 1])
      else Inl (BucketOutOfRange b))"

text \<open>\<open>for i in 1..=n { offsets[i] += offsets[i - 1] }\<close>, with \<open>m\<close> positions left.\<close>

fun nest_prefix :: "nat \<Rightarrow> nat \<Rightarrow> nat list \<Rightarrow> nat list" where
  "nest_prefix i 0 offsets = offsets"
| "nest_prefix i (Suc m) offsets =
     nest_prefix (Suc i) m (offsets[i := offsets ! i + offsets ! (i - 1)])"

text \<open>Pass 2 fills \<open>data\<close> through the per-bucket cursors. A bucket that pass 1 did not see is out
  of the bounds of \<open>offsets\<close>.\<close>

fun nest_fill :: "nat list \<Rightarrow> (nat \<times> 'a) list \<Rightarrow> nat list \<Rightarrow> 'a list \<Rightarrow> nest_panic + nat list \<times> 'a list" where
  "nest_fill offsets [] cursors data = Inr (cursors, data)"
| "nest_fill offsets ((b, v) # items) cursors data =
     (if b + 1 \<ge> length offsets then Inl (BucketOutOfRange b)
      else if cursors ! b < offsets ! (b + 1)
      then nest_fill offsets items (cursors[b := cursors ! b + 1]) (data[cursors ! b := v])
      else Inl (MoreItems b))"

fun nest_check :: "nat list \<Rightarrow> nat list \<Rightarrow> nat \<Rightarrow> nat \<Rightarrow> nest_panic option" where
  "nest_check offsets cursors i 0 = None"
| "nest_check offsets cursors i (Suc m) =
     (if cursors ! i = offsets ! (i + 1) then nest_check offsets cursors (Suc i) m
      else Some (FewerItems i))"

text \<open>\<open>Frame::nest\<close>. \<open>build\<close> is called twice; \<open>pass1\<close> and \<open>pass2\<close> are what it yields. \<open>dflt\<close> is
  \<open>T::default()\<close>.\<close>

definition nest :: "'a \<Rightarrow> nat \<Rightarrow> (nat \<times> 'a) list \<Rightarrow> (nat \<times> 'a) list \<Rightarrow> nest_panic + 'a fnest" where
  "nest dflt n pass1 pass2 =
     (case nest_count n pass1 (replicate (n + 1) 0) of
        Inl p \<Rightarrow> Inl p
      | Inr counts \<Rightarrow>
          let offsets = nest_prefix 1 n counts;
              total = offsets ! n
          in (case nest_fill offsets pass2 (take n offsets) (replicate total dflt) of
                Inl p \<Rightarrow> Inl p
              | Inr (cursors, data) \<Rightarrow>
                  (case nest_check offsets cursors 0 n of
                     Some p \<Rightarrow> Inl p
                   | None \<Rightarrow> Inr \<lparr>fn_offsets = offsets, fn_data = data\<rparr>)))"

definition fnest_len :: "'a fnest \<Rightarrow> nat" where
  "fnest_len nst = length (fn_offsets nst) - 1"

text \<open>\<open>bucket(i)\<close>; \<open>None\<close> is the index panic on an out-of-range \<open>i\<close>.\<close>

definition fnest_bucket :: "'a fnest \<Rightarrow> nat \<Rightarrow> 'a list option" where
  "fnest_bucket nst i =
     (if i + 1 < length (fn_offsets nst)
      then let start = fn_offsets nst ! i; e = fn_offsets nst ! (i + 1)
           in Some (take (e - start) (drop start (fn_data nst)))
      else None)"

text \<open>The items of bucket \<open>b\<close>, in order, and the offsets they induce.\<close>

definition bucket_items :: "(nat \<times> 'a) list \<Rightarrow> nat \<Rightarrow> 'a list" where
  "bucket_items items b = map snd (filter (\<lambda>x. fst x = b) items)"

definition bucket_off :: "(nat \<times> 'a) list \<Rightarrow> nat \<Rightarrow> nat" where
  "bucket_off items i = (\<Sum>b < i. length (bucket_items items b))"

lemma bucket_items_Nil [simp]: "bucket_items [] b = []"
  by (simp add: bucket_items_def)

lemma bucket_items_append: "bucket_items (xs @ ys) b = bucket_items xs b @ bucket_items ys b"
  by (simp add: bucket_items_def)

lemma bucket_items_single: "bucket_items [(b', v)] b = (if b' = b then [v] else [])"
  by (simp add: bucket_items_def)

lemma bucket_off_Suc: "bucket_off items (Suc i) = bucket_off items i + length (bucket_items items i)"
  by (simp add: bucket_off_def)

lemma bucket_off_mono: "i \<le> j \<Longrightarrow> bucket_off items i \<le> bucket_off items j"
  unfolding bucket_off_def by (rule sum_mono2) auto

lemma nest_count_Inr:
  "\<forall>(b, v) \<in> set items. b < n \<Longrightarrow> length offs = n + 1 \<Longrightarrow>
   \<exists>offs'. nest_count n items offs = Inr offs' \<and> length offs' = n + 1 \<and> offs' ! 0 = offs ! 0 \<and>
     (\<forall>b < n. offs' ! (b + 1) = offs ! (b + 1) + length (bucket_items items b))"
proof (induction items arbitrary: offs)
  case (Cons x items)
  obtain b v where x: "x = (b, v)" by (cases x)
  with Cons.prems have b: "b < n" by auto
  from Cons.IH [of "offs[b + 1 := offs ! (b + 1) + 1]"] Cons.prems
  obtain offs' where o: "nest_count n items (offs[b + 1 := offs ! (b + 1) + 1]) = Inr offs'"
    "length offs' = n + 1" "offs' ! 0 = offs ! 0"
    "\<forall>c < n. offs' ! (c + 1) = offs[b + 1 := offs ! (b + 1) + 1] ! (c + 1) + length (bucket_items items c)"
    by auto
  have "\<forall>c < n. offs' ! (c + 1) = offs ! (c + 1) + length (bucket_items (x # items) c)"
    using o(4) b Cons.prems(2) x by (auto simp: bucket_items_def nth_list_update)
  with o x b show ?case by auto
qed auto

lemma nest_count_Inl:
  "\<not> (\<forall>(b, v) \<in> set items. b < n) \<Longrightarrow> \<exists>b \<ge> n. nest_count n items offs = Inl (BucketOutOfRange b)"
  by (induction n items offs rule: nest_count.induct) auto

lemma nest_prefix_off:
  assumes "1 \<le> i" "i + m = n + 1" "length offs = n + 1"
    and "\<forall>j < i. offs ! j = bucket_off items j"
    and "\<forall>j. i \<le> j \<and> j \<le> n \<longrightarrow> offs ! j = length (bucket_items items (j - 1))"
  shows "nest_prefix i m offs = map (bucket_off items) [0 ..< n + 1]"
  using assms
proof (induction m arbitrary: i offs)
  case 0
  then show ?case by (intro nth_equalityI) (auto simp del: upt_Suc)
next
  case (Suc m)
  let ?offs = "offs[i := offs ! i + offs ! (i - 1)]"
  have "offs ! i + offs ! (i - 1) = bucket_off items i"
    using Suc.prems bucket_off_Suc [of items "i - 1"] by simp
  then have "\<forall>j < Suc i. ?offs ! j = bucket_off items j"
    using Suc.prems by (auto simp: nth_list_update elim: less_SucE)
  moreover have "\<forall>j. Suc i \<le> j \<and> j \<le> n \<longrightarrow> ?offs ! j = length (bucket_items items (j - 1))"
    using Suc.prems by (auto simp: nth_list_update)
  ultimately show ?case using Suc.prems by (simp only: nest_prefix.simps) (intro Suc.IH, auto)
qed

text \<open>The offsets that pass 1 leaves.\<close>

lemma nest_offsets:
  assumes "\<forall>(b, v) \<in> set items. b < n"
  shows "\<exists>counts. nest_count n items (replicate (n + 1) 0) = Inr counts \<and>
    nest_prefix 1 n counts = map (bucket_off items) [0 ..< n + 1]"
proof -
  obtain counts where c: "nest_count n items (replicate (n + 1) 0) = Inr counts"
    "length counts = n + 1" "counts ! 0 = 0"
    "\<forall>b < n. counts ! (b + 1) = length (bucket_items items b)"
    using nest_count_Inr [OF assms, of "replicate (n + 1) 0"] by auto
  have "nest_prefix 1 n counts = map (bucket_off items) [0 ..< n + 1]"
  proof (rule nest_prefix_off)
    show "\<forall>j. 1 \<le> j \<and> j \<le> n \<longrightarrow> counts ! j = length (bucket_items items (j - 1))"
    proof (intro allI impI)
      fix j assume "1 \<le> j \<and> j \<le> n"
      then have "j - 1 < n" "j - 1 + 1 = j" by arith+
      then show "counts ! j = length (bucket_items items (j - 1))"
        using c(4)[rule_format, of "j - 1"] by (simp del: One_nat_def)
    qed
  qed (use c in \<open>auto simp: bucket_off_def\<close>)
  with c show ?thesis by blast
qed

text \<open>The invariant of pass 2: what the prefix \<open>p\<close> of the items has put in the buckets.\<close>

definition fill_inv :: "nat \<Rightarrow> (nat \<Rightarrow> nat) \<Rightarrow> (nat \<times> 'a) list \<Rightarrow> nat list \<Rightarrow> 'a list \<Rightarrow> bool" where
  "fill_inv n off p cursors data \<longleftrightarrow> length cursors = n \<and> length data = off n \<and>
     (\<forall>b < n. cursors ! b = off b + length (bucket_items p b)) \<and>
     (\<forall>b < n. \<forall>j < length (bucket_items p b). data ! (off b + j) = bucket_items p b ! j)"

lemma fill_inv_step:
  assumes inv: "fill_inv n off p cursors data" and b: "b < n" and room: "cursors ! b < off (Suc b)"
    and off: "\<And>i j. i \<le> j \<Longrightarrow> off i \<le> off j" "\<And>c. c < n \<Longrightarrow> off c + length (bucket_items p c) \<le> off (Suc c)"
  shows "fill_inv n off (p @ [(b, v)]) (cursors[b := cursors ! b + 1]) (data[cursors ! b := v])"
proof -
  let ?cur = "cursors ! b"
  have cur: "?cur = off b + length (bucket_items p b)" using inv b by (simp add: fill_inv_def)
  have "off (Suc b) \<le> off n" using b by (intro off(1)) simp
  then have len: "?cur < length data" using room inv by (simp add: fill_inv_def)
  have other: "off c + j \<noteq> ?cur" if "c < n" "c \<noteq> b" "j < length (bucket_items p c)" for c j
  proof (cases "c < b")
    case True
    then have "off (Suc c) \<le> off b" by (intro off(1)) simp
    with that off(2) [of c] cur show ?thesis by simp
  next
    case False
    with that have "off (Suc b) \<le> off c" by (intro off(1)) simp
    with room that show ?thesis by simp
  qed
  show ?thesis
    unfolding fill_inv_def bucket_items_append bucket_items_single
  proof (intro conjI allI impI)
    fix c j assume c: "c < n" and j: "j < length (bucket_items p c @ (if b = c then [v] else []))"
    show "data[?cur := v] ! (off c + j) = (bucket_items p c @ (if b = c then [v] else [])) ! j"
    proof (cases "c = b \<and> j = length (bucket_items p b)")
      case True
      with cur len show ?thesis by simp
    next
      case False
      with j have j': "j < length (bucket_items p c)" by (auto split: if_splits)
      moreover have "off c + j \<noteq> ?cur" using other [OF c _ j'] cur j' by (cases "c = b") auto
      ultimately show ?thesis using inv c by (simp add: fill_inv_def nth_append)
    qed
  qed (use inv b cur in \<open>auto simp: fill_inv_def nth_list_update\<close>)
qed

lemma nest_fill_Inr:
  assumes "fill_inv n (bucket_off q) p cursors data"
    and "offsets = map (bucket_off q) [0 ..< n + 1]"
    and "\<forall>(b, v) \<in> set rest. b < n"
    and "\<forall>b < n. length (bucket_items (p @ rest) b) \<le> length (bucket_items q b)"
  shows "\<exists>cursors' data'. nest_fill offsets rest cursors data = Inr (cursors', data') \<and>
    fill_inv n (bucket_off q) (p @ rest) cursors' data'"
  using assms
proof (induction rest arbitrary: p cursors data)
  case Nil
  then show ?case by simp
next
  case (Cons x rest)
  obtain b v where x: "x = (b, v)" by (cases x)
  have b: "b < n" using Cons.prems(3) x by auto
  have le: "length (bucket_items p c) \<le> length (bucket_items q c)" if "c < n" for c
    using Cons.prems(4) that by (fastforce simp: bucket_items_append)
  have "length (bucket_items p b) < length (bucket_items q b)"
    using Cons.prems(4)[rule_format, OF b] x by (simp add: bucket_items_append bucket_items_def)
  then have room: "cursors ! b < bucket_off q (Suc b)"
    using Cons.prems(1) b by (simp add: fill_inv_def bucket_off_Suc)
  then have fill: "fill_inv n (bucket_off q) (p @ [x]) (cursors[b := cursors ! b + 1]) (data[cursors ! b := v])"
    unfolding x using Cons.prems(1) b le
    by (intro fill_inv_step) (auto simp: bucket_off_mono bucket_off_Suc)
  have "offsets ! Suc b = bucket_off q (Suc b)" "b + 1 < length offsets"
    using Cons.prems(2) b by (simp_all del: upt_Suc)
  with room x have "nest_fill offsets (x # rest) cursors data =
      nest_fill offsets rest (cursors[b := cursors ! b + 1]) (data[cursors ! b := v])"
    by simp
  with Cons.IH [OF fill Cons.prems(2)] Cons.prems(3,4) show ?case by auto
qed

lemma nest_check_None:
  "nest_check offsets cursors i m = None \<longleftrightarrow> (\<forall>j. i \<le> j \<and> j < i + m \<longrightarrow> cursors ! j = offsets ! (j + 1))"
proof (induction m arbitrary: i)
  case (Suc m)
  have "(\<forall>j. i \<le> j \<and> j < i + Suc m \<longrightarrow> cursors ! j = offsets ! (j + 1)) \<longleftrightarrow>
    cursors ! i = offsets ! (i + 1) \<and> (\<forall>j. Suc i \<le> j \<and> j < Suc i + m \<longrightarrow> cursors ! j = offsets ! (j + 1))"
    by (metis Suc_leI add_Suc_shift le_add1 le_eq_less_or_eq less_add_same_cancel1 zero_less_Suc Suc_leD)
  with Suc show ?case by simp
qed simp

lemma fnest_bucket_fill:
  assumes "fill_inv n (bucket_off q) p cursors data" "b < n"
    and "\<forall>c < n. length (bucket_items p c) = length (bucket_items q c)"
  shows "fnest_bucket \<lparr>fn_offsets = map (bucket_off q) [0 ..< n + 1], fn_data = data\<rparr> b = Some (bucket_items p b)"
proof -
  have "bucket_off q (Suc b) \<le> bucket_off q n" using assms(2) by (intro bucket_off_mono) simp
  then have "take (length (bucket_items q b)) (drop (bucket_off q b) data) = bucket_items p b"
    using assms by (intro nth_equalityI) (auto simp: fill_inv_def bucket_off_Suc)
  then show ?thesis
    using assms(2) by (simp add: fnest_bucket_def bucket_off_Suc del: upt_Suc)
qed

text \<open>Two passes that agree on the bucket sizes build the nest whose bucket \<open>b\<close> holds, in order,
  what pass 2 yields for \<open>b\<close>.\<close>

lemma nest_buckets:
  assumes p1: "\<forall>(b, v) \<in> set pass1. b < n" and p2: "\<forall>(b, v) \<in> set pass2. b < n"
    and same: "\<forall>b < n. length (bucket_items pass2 b) = length (bucket_items pass1 b)"
  shows "\<exists>nst. nest dflt n pass1 pass2 = Inr nst \<and> fnest_len nst = n \<and>
    (\<forall>b < n. fnest_bucket nst b = Some (bucket_items pass2 b))"
proof -
  let ?off = "bucket_off pass1" and ?offs = "map (bucket_off pass1) [0 ..< n + 1]"
  obtain counts where c: "nest_count n pass1 (replicate (n + 1) 0) = Inr counts"
    "nest_prefix 1 n counts = ?offs" using nest_offsets [OF p1] by blast
  have n: "?offs ! n = ?off n" by (simp del: upt_Suc)
  have "fill_inv n ?off [] (take n ?offs) (replicate (?off n) dflt)"
    by (simp add: fill_inv_def del: upt_Suc)
  from nest_fill_Inr [OF this refl p2, unfolded append_Nil] same
  obtain cur data where f: "nest_fill ?offs pass2 (take n ?offs) (replicate (?off n) dflt) = Inr (cur, data)"
    "fill_inv n ?off pass2 cur data" by auto
  have "nest_check ?offs cur 0 n = None"
    using f(2) same by (auto simp: nest_check_None fill_inv_def bucket_off_Suc simp del: upt_Suc)
  with c f(1) n have "nest dflt n pass1 pass2 = Inr \<lparr>fn_offsets = ?offs, fn_data = data\<rparr>"
    by (simp add: nest_def Let_def del: upt_Suc)
  moreover have "\<forall>b < n. fnest_bucket \<lparr>fn_offsets = ?offs, fn_data = data\<rparr> b = Some (bucket_items pass2 b)"
    using fnest_bucket_fill [OF f(2)] same by blast
  ultimately show ?thesis by (intro exI conjI) (assumption, simp add: fnest_len_def)
qed

lemma nest_fill_sizes:
  "nest_fill offsets items cursors data = Inr (cursors', data') \<Longrightarrow> length offsets = length cursors + 1 \<Longrightarrow>
   (\<forall>(b, v) \<in> set items. b < length cursors) \<and> length cursors' = length cursors \<and>
   (\<forall>b < length cursors. cursors' ! b = cursors ! b + length (bucket_items items b))"
proof (induction offsets items cursors data rule: nest_fill.induct)
  case (2 offsets b v items cursors data)
  then have "b < length cursors" by (auto split: if_splits)
  with 2 show ?case
    by (auto split: if_splits simp: bucket_items_def nth_list_update)
qed simp

text \<open>Passes that disagree on a bucket's size, or reach past the last bucket, panic.\<close>

lemma nest_Inr_sizes:
  assumes "nest dflt n pass1 pass2 = Inr nst"
  shows "(\<forall>(b, v) \<in> set pass1 \<union> set pass2. b < n) \<and>
    (\<forall>b < n. length (bucket_items pass2 b) = length (bucket_items pass1 b))"
proof -
  let ?off = "bucket_off pass1" and ?offs = "map (bucket_off pass1) [0 ..< n + 1]"
  have p1: "\<forall>(b, v) \<in> set pass1. b < n"
    using assms nest_count_Inl [of pass1 n "replicate (n + 1) 0"]
    by (fastforce simp: nest_def)
  then obtain counts where c: "nest_count n pass1 (replicate (n + 1) 0) = Inr counts"
    "nest_prefix 1 n counts = ?offs" using nest_offsets by blast
  with assms obtain cur data where f: "nest_fill ?offs pass2 (take n ?offs) (replicate (?offs ! n) dflt) = Inr (cur, data)"
    and chk: "nest_check ?offs cur 0 n = None"
    by (auto simp: nest_def Let_def simp del: upt_Suc split: sum.splits option.splits prod.splits)
  from nest_fill_sizes [OF f] have sz: "\<forall>(b, v) \<in> set pass2. b < n"
    "\<forall>b < n. cur ! b = ?off b + length (bucket_items pass2 b)"
    by (simp_all del: upt_Suc)
  from chk sz(2) have "\<forall>b < n. length (bucket_items pass2 b) = length (bucket_items pass1 b)"
    by (auto simp: nest_check_None bucket_off_Suc simp del: upt_Suc)
  with p1 sz(1) show ?thesis by auto
qed

subsection \<open>The contract the tree code relies on\<close>

text \<open>A store of adjacency lists: what \<open>build\<close> is given for a bucket is what \<open>bucket\<close> returns,
  in the order it was given.\<close>

locale adjacency_store =
  fixes build :: "nat \<Rightarrow> (nat \<times> nat) list \<Rightarrow> nest_panic + 'n"
    and bucket :: "'n \<Rightarrow> nat \<Rightarrow> nat list option"
  assumes build_bucket: "\<forall>(b, v) \<in> set items. b < n \<Longrightarrow>
      \<exists>nst. build n items = Inr nst \<and> (\<forall>b < n. bucket nst b = Some (bucket_items items b))"
begin

lemma build_total: "\<forall>(b, v) \<in> set items. b < n \<Longrightarrow> \<exists>nst. build n items = Inr nst"
  using build_bucket by blast

lemma bucket_of_build:
  "build n items = Inr nst \<Longrightarrow> \<forall>(b, v) \<in> set items. b < n \<Longrightarrow> b < n \<Longrightarrow>
   bucket nst b = Some (bucket_items items b)"
  using build_bucket [of items n] by auto

lemma bucket_mem:
  "build n items = Inr nst \<Longrightarrow> \<forall>(b, v) \<in> set items. b < n \<Longrightarrow> b < n \<Longrightarrow>
   x \<in> set (the (bucket nst b)) \<longleftrightarrow> (b, x) \<in> set items"
  by (auto simp: bucket_of_build bucket_items_def image_iff)

end

definition nest_u32 :: "nat \<Rightarrow> (nat \<times> nat) list \<Rightarrow> nest_panic + nat fnest" where
  "nest_u32 n items = nest 0 n items items"

interpretation csr: adjacency_store nest_u32 fnest_bucket
proof
  fix items :: "(nat \<times> nat) list" and n
  assume "\<forall>(b, v) \<in> set items. b < n"
  then show "\<exists>nst. nest_u32 n items = Inr nst \<and> (\<forall>b < n. fnest_bucket nst b = Some (bucket_items items b))"
    unfolding nest_u32_def using nest_buckets [of items n items 0] by blast
qed

subsection \<open>Properties\<close>

text \<open>\<open>FVec::retain_in_place\<close>, which compacts within the vector's own slots, is one pass over
  the elements in order that keeps exactly those the closure keeps, in the state the closure left
  them, and threads the closure's captured state; the capacity is unchanged.\<close>

theorem retain_in_place_is_filter:
  "fvec_retain_in_place keep s v =
     (case retain_spec keep s (fv_elems v) of (s', ys) \<Rightarrow> (s', v\<lparr>fv_elems := ys\<rparr>))"
  by (rule fvec_retain_in_place_eq)

text \<open>C9: \<open>Frame::nest\<close> succeeds exactly when no item of either pass is out of range and the two
  calls of the closure give each bucket as many items; then bucket \<open>b\<close> holds, in order, what the
  second call yields for \<open>b\<close>. In every other case it panics.\<close>

theorem nest_correct:
  "case nest dflt n pass1 pass2 of
     Inr nst \<Rightarrow> (\<forall>(b, v) \<in> set pass1 \<union> set pass2. b < n) \<and>
       (\<forall>b < n. length (bucket_items pass2 b) = length (bucket_items pass1 b)) \<and>
       fnest_len nst = n \<and> (\<forall>b < n. fnest_bucket nst b = Some (bucket_items pass2 b))
   | Inl _ \<Rightarrow> \<not> ((\<forall>(b, v) \<in> set pass1 \<union> set pass2. b < n) \<and>
       (\<forall>b < n. length (bucket_items pass2 b) = length (bucket_items pass1 b)))"
proof (cases "(\<forall>(b, v) \<in> set pass1 \<union> set pass2. b < n) \<and>
       (\<forall>b < n. length (bucket_items pass2 b) = length (bucket_items pass1 b))")
  case True
  then have "\<forall>(b, v) \<in> set pass1. b < n" "\<forall>(b, v) \<in> set pass2. b < n" by simp_all
  with True obtain nst where "nest dflt n pass1 pass2 = Inr nst" "fnest_len nst = n"
    "\<forall>b < n. fnest_bucket nst b = Some (bucket_items pass2 b)"
    using nest_buckets [of pass1 n pass2 dflt] by metis
  with True show ?thesis by simp
next
  case False
  show ?thesis
  proof (cases "nest dflt n pass1 pass2")
    case (Inr nst)
    with False nest_Inr_sizes [OF Inr] show ?thesis by argo
  qed (use False in simp)
qed

theorem nest_correct_witness:
  "case nest 0 3 [(2, 8), (0, 7), (2, 9 :: nat)] [(2, 8), (0, 7), (2, 9)] of
     Inr nst \<Rightarrow> fnest_bucket nst 2 = Some [8, 9] | Inl _ \<Rightarrow> False"
proof -
  have n: "nest 0 3 [(2, 8), (0, 7), (2, 9 :: nat)] [(2, 8), (0, 7), (2, 9)]
      = Inr \<lparr>fn_offsets = [0, 1, 1, 3], fn_data = [7, 8, 9]\<rparr>"
    by code_simp
  have "\<forall>b < 3. fnest_bucket \<lparr>fn_offsets = [0, 1, 1, 3], fn_data = [7, 8, 9 :: nat]\<rparr> b =
      Some (bucket_items [(2, 8), (0, 7), (2, 9)] b)"
    using nest_correct [of "[(2, 8), (0, 7), (2, 9 :: nat)]" "[(2, 8), (0, 7), (2, 9)]" 3 0]
    unfolding n by simp
  then show ?thesis unfolding n by (simp add: bucket_items_def)
qed

text \<open>packing a span into the four bytes of an \<open>FSmall\<close> loses nothing: whenever \<open>into_small\<close>
  does not panic, the handle's offset and length are the span's; and it does not panic on any span
  of the 512 KB arena of at most 4095 elements.\<close>

theorem into_small_roundtrip:
  "(case into_small offset len of
      Some p \<Rightarrow> fsmall_offset p = offset \<and> fsmall_len p = len
    | None \<Rightarrow> offset > 1048575 \<or> len > 4095)"
  using into_small_Some [of offset len]
  by (auto simp: fsmall_defs not_le split: option.split)

end
