(* ===== verification/MapSet.thy ===== *)
theory MapSet
  imports Sort FVec
begin

text \<open>
  The sorted-slice map and set of src/src/map.rs: \<open>freeze_map\<close> / \<open>freeze_set\<close> sort the caller's
  vector, drop adjacent duplicates in place and hand out a view; \<open>get\<close> and \<open>contains\<close> search it
  by halving. \<open>binary_search_by_key\<close> is the slice method of Rust's core library.
\<close>

subsection \<open>Binary search of the core library\<close>

text \<open>The loop \<open>while size > 1\<close>: \<open>base\<close> moves to the middle unless the middle is greater.\<close>

function bsearch_loop :: "('a \<Rightarrow> u32) \<Rightarrow> 'a list \<Rightarrow> u32 \<Rightarrow> nat \<Rightarrow> nat \<Rightarrow> nat" where
  "bsearch_loop k xs key sz base =
     (if sz > 1 then
        let half = sz div 2; mid = base + half
        in bsearch_loop k xs key (sz - half) (if k (xs ! mid) > key then base else mid)
      else base)"
  by pat_completeness auto
termination
  by (relation "measure (\<lambda>(k, xs, key, sz, base). sz)") auto

declare bsearch_loop.simps [simp del]

text \<open>\<open>Ok\<close> of a matching position, or \<open>Err\<close> of the insertion point.\<close>

definition binary_search_by_key :: "('a \<Rightarrow> u32) \<Rightarrow> 'a list \<Rightarrow> u32 \<Rightarrow> nat + nat" where
  "binary_search_by_key k xs key =
     (if xs = [] then Inl 0
      else let base = bsearch_loop k xs key (length xs) 0
           in if k (xs ! base) = key then Inr base
              else Inl (base + (if k (xs ! base) < key then 1 else 0)))"

subsection \<open>Map and Set\<close>

definition map_get :: "(u32 \<times> 'v) list \<Rightarrow> u32 \<Rightarrow> 'v option" where
  "map_get m k =
     (case binary_search_by_key fst m k of Inr i \<Rightarrow> Some (snd (m ! i)) | Inl _ \<Rightarrow> None)"

definition map_contains_key :: "(u32 \<times> 'v) list \<Rightarrow> u32 \<Rightarrow> bool" where
  "map_contains_key m k \<longleftrightarrow> map_get m k \<noteq> None"

definition set_contains :: "u32 list \<Rightarrow> u32 \<Rightarrow> bool" where
  "set_contains s k \<longleftrightarrow> (case binary_search_by_key (\<lambda>x. x) s k of Inr _ \<Rightarrow> True | Inl _ \<Rightarrow> False)"

text \<open>\<open>dedup_in_place\<close>: \<open>same\<close> gets the candidate and the last keeper and returns both, possibly
  changed, with its verdict. \<open>w\<close> is the write position, \<open>r\<close> the candidate.\<close>

function dedup_loop :: "('a \<Rightarrow> 'a \<Rightarrow> 'a \<times> 'a \<times> bool) \<Rightarrow> 'a list \<Rightarrow> nat \<Rightarrow> nat \<Rightarrow> 'a list \<times> nat" where
  "dedup_loop same xs w r =
     (if r < length xs then
        (case same (xs ! r) (xs ! (w - 1)) of (right, left, dup) \<Rightarrow>
          let xs1 = xs[r := right, w - 1 := left] in
          if dup then dedup_loop same xs1 w (Suc r)
          else dedup_loop same (if w \<noteq> r then xs1[w := xs1 ! r] else xs1) (Suc w) (Suc r))
      else (xs, w))"
  by pat_completeness auto
termination
  by (relation "measure (\<lambda>(same, xs, w, r). length xs - r)") (auto simp: Let_def)

declare dedup_loop.simps [simp del]

definition dedup_in_place :: "('a \<Rightarrow> 'a \<Rightarrow> 'a \<times> 'a \<times> bool) \<Rightarrow> 'a list \<Rightarrow> 'a list \<times> nat" where
  "dedup_in_place same xs = (if length xs < 2 then (xs, length xs) else dedup_loop same xs 1 1)"

text \<open>The closure of \<open>freeze_map\<close>: on equal keys, \<open>merge\<close> folds the candidate's value into the
  keeper's.\<close>

definition map_same :: "('v \<Rightarrow> 'v \<Rightarrow> 'v) \<Rightarrow> u32 \<times> 'v \<Rightarrow> u32 \<times> 'v \<Rightarrow> (u32 \<times> 'v) \<times> (u32 \<times> 'v) \<times> bool" where
  "map_same merge right left =
     (if fst left = fst right then (right, (fst left, merge (snd left) (snd right)), True)
      else (right, left, False))"

definition set_same :: "u32 \<Rightarrow> u32 \<Rightarrow> u32 \<times> u32 \<times> bool" where
  "set_same right left = (right, left, left = right)"

definition freeze_map :: "('v \<Rightarrow> 'v \<Rightarrow> 'v) \<Rightarrow> (u32 \<times> 'v) list \<Rightarrow> (u32 \<times> 'v) list" where
  "freeze_map merge entries =
     (case dedup_in_place (map_same merge) (sort_by_u32_key fst entries) of (xs, new_len) \<Rightarrow> take new_len xs)"

definition freeze_map_owned :: "('v \<Rightarrow> 'v \<Rightarrow> 'v) \<Rightarrow> (u32 \<times> 'v) list \<Rightarrow> (u32 \<times> 'v) list" where
  "freeze_map_owned merge entries = freeze_map merge entries"

definition freeze_set :: "u32 list \<Rightarrow> u32 list" where
  "freeze_set keys =
     (case dedup_in_place set_same (sort_by_u32_key (\<lambda>x. x) keys) of (xs, new_len) \<Rightarrow> take new_len xs)"

subsection \<open>What the search finds\<close>

lemma bsearch_loop_bounds:
  "base + sz \<le> length xs \<Longrightarrow> 0 < sz \<Longrightarrow> bsearch_loop k xs key sz base < length xs"
proof (induction k xs key sz base rule: bsearch_loop.induct)
  case (1 k xs key sz base)
  then show ?case by (subst bsearch_loop.simps) (auto simp: Let_def)
qed

lemma bsearch_loop_finds:
  assumes "sorted_wrt (<) (map k xs)" "base + sz \<le> length xs" "0 < sz"
    and "\<forall>i < length xs. k (xs ! i) = key \<longrightarrow> base \<le> i \<and> i < base + sz"
    and "i < length xs" "k (xs ! i) = key"
  shows "bsearch_loop k xs key sz base = i"
  using assms
proof (induction k xs key sz base rule: bsearch_loop.induct)
  case (1 k xs key sz base)
  show ?case
  proof (cases "sz > 1")
    case False
    with "1.prems" show ?thesis by (subst bsearch_loop.simps) force
  next
    case True
    let ?mid = "base + sz div 2"
    have mid: "?mid < length xs" using True "1.prems" by simp
    have mono: "a < b \<Longrightarrow> b < length xs \<Longrightarrow> k (xs ! a) < k (xs ! b)" for a b
      using "1.prems"(1) by (simp add: sorted_wrt_iff_nth_less)
    have side: "if k (xs ! ?mid) > key then j < ?mid else ?mid \<le> j"
      if "j < length xs" "k (xs ! j) = key" for j
      using that mono [of ?mid j] mono [of j ?mid] mid by (cases j ?mid rule: linorder_cases) auto
    have "bsearch_loop k xs key (sz - sz div 2) (if k (xs ! ?mid) > key then base else ?mid) = i"
    proof (rule "1.IH" [OF True refl refl])
      show "\<forall>j < length xs. k (xs ! j) = key \<longrightarrow>
        (if k (xs ! ?mid) > key then base else ?mid) \<le> j \<and>
        j < (if k (xs ! ?mid) > key then base else ?mid) + (sz - sz div 2)"
        using side "1.prems"(4) by (auto split: if_splits) fastforce+
    qed (use True "1.prems" in auto)
    with True show ?thesis by (subst bsearch_loop.simps) (simp add: Let_def)
  qed
qed

lemma binary_search_strict:
  assumes "sorted_wrt (<) (map k xs)"
  shows "(i < length xs \<and> k (xs ! i) = key) \<longleftrightarrow> binary_search_by_key k xs key = Inr i"
proof (cases "xs = []")
  case False
  then have "bsearch_loop k xs key (length xs) 0 < length xs" by (intro bsearch_loop_bounds) simp_all
  moreover have "i < length xs \<and> k (xs ! i) = key \<Longrightarrow> bsearch_loop k xs key (length xs) 0 = i"
    using assms False by (intro bsearch_loop_finds) auto
  ultimately show ?thesis using False by (auto simp: binary_search_by_key_def Let_def)
qed (simp add: binary_search_by_key_def)

lemma map_get_map_of:
  assumes "sorted_wrt (<) (map fst m)"
  shows "map_get m k = map_of m k"
proof (cases "binary_search_by_key fst m k")
  case (Inr i)
  then have i: "i < length m" "fst (m ! i) = k" using binary_search_strict [OF assms] by blast+
  have "distinct (map fst m)" using assms by (simp add: strict_sorted_iff)
  then have "map_of m k = Some (snd (m ! i))"
    using i by (metis map_of_eq_Some_iff nth_mem prod.collapse)
  with Inr show ?thesis by (simp add: map_get_def)
next
  case (Inl e)
  then have "\<nexists>i. i < length m \<and> fst (m ! i) = k" using binary_search_strict [OF assms, of _ k] by auto
  then have "k \<notin> fst ` set m" by (force simp: in_set_conv_nth)
  then have "map_of m k = None" by (simp add: map_of_eq_None_iff)
  with Inl show ?thesis by (simp add: map_get_def)
qed

lemma set_contains_iff:
  assumes "sorted_wrt (<) s"
  shows "set_contains s k \<longleftrightarrow> k \<in> set s"
proof -
  have "(\<exists>i. i < length s \<and> s ! i = k) \<longleftrightarrow> (\<exists>i. binary_search_by_key (\<lambda>x. x) s k = Inr i)"
    using binary_search_strict [of "\<lambda>x. x" s _ k] assms by simp
  then show ?thesis
    by (auto simp: set_contains_def in_set_conv_nth split: sum.splits)
qed

subsection \<open>What the compaction leaves\<close>

fun dedup_spec :: "('a \<Rightarrow> 'a \<Rightarrow> 'a \<times> 'a \<times> bool) \<Rightarrow> 'a \<Rightarrow> 'a list \<Rightarrow> 'a list" where
  "dedup_spec same keeper [] = [keeper]"
| "dedup_spec same keeper (x # xs) =
     (case same x keeper of (right, left, dup) \<Rightarrow>
        if dup then dedup_spec same left xs else left # dedup_spec same right xs)"

lemma dedup_loop_spec:
  assumes "1 \<le> w" "w \<le> r" "r \<le> length xs"
  shows "case dedup_loop same xs w r of (ys, w') \<Rightarrow>
    take w' ys = take (w - 1) xs @ dedup_spec same (xs ! (w - 1)) (drop r xs)"
  using assms
proof (induction "length xs - r" arbitrary: xs w r rule: less_induct)
  case less
  show ?case
  proof (cases "r < length xs")
    case False
    with less.prems take_Suc_conv_app_nth [of "w - 1" xs] show ?thesis
      by (simp add: dedup_loop.simps)
  next
    case True
    obtain right left dup where s: "same (xs ! r) (xs ! (w - 1)) = (right, left, dup)" by (metis prod_cases3)
    have d: "drop r xs = xs ! r # drop (Suc r) xs" using True by (simp add: Cons_nth_drop_Suc)
    let ?xs1 = "xs[r := right, w - 1 := left]"
    let ?xs = "if dup then ?xs1 else if w \<noteq> r then ?xs1[w := ?xs1 ! r] else ?xs1"
    let ?w = "if dup then w else Suc w"
    have IH: "case dedup_loop same ?xs ?w (Suc r) of (ys, w') \<Rightarrow>
        take w' ys = take (?w - 1) ?xs @ dedup_spec same (?xs ! (?w - 1)) (drop (Suc r) ?xs)"
      using less.prems True by (intro less.hyps) auto
    have step: "dedup_loop same xs w r = dedup_loop same ?xs ?w (Suc r)"
      using True s by (subst dedup_loop.simps) (auto simp: Let_def)
    have w: "w - 1 < r" "w - 1 < length xs" using less.prems True by auto
    have dn: "drop (Suc r) ?xs = drop (Suc r) xs" using less.prems w by auto
    have last: "?xs ! (?w - 1) = (if dup then left else right)" using less.prems True w by auto
    have tk: "take (?w - 1) ?xs = take (w - 1) xs @ (if dup then [] else [left])"
      using less.prems True w take_Suc_conv_app_nth [of "w - 1" ?xs] by auto
    show ?thesis using IH unfolding step dn last tk d by (auto simp: s [simplified])
  qed
qed

lemma dedup_in_place_spec:
  "case dedup_in_place same xs of (ys, n) \<Rightarrow>
     take n ys = (case xs of [] \<Rightarrow> [] | x # xs' \<Rightarrow> dedup_spec same x xs')"
proof (cases "length xs < 2")
  case True
  then show ?thesis by (cases xs) (auto simp: dedup_in_place_def)
next
  case False
  then show ?thesis
    using dedup_loop_spec [of 1 1 xs same] by (cases xs) (simp_all add: dedup_in_place_def)
qed

lemma freeze_map_spec:
  "freeze_map merge es =
     (case sort_by_u32_key fst es of [] \<Rightarrow> [] | x # xs \<Rightarrow> dedup_spec (map_same merge) x xs)"
  using dedup_in_place_spec [of "map_same merge" "sort_by_u32_key fst es"]
  by (auto simp: freeze_map_def split: prod.splits)

text \<open>The first value under a key, with the later ones merged in.\<close>

definition merged :: "('v \<Rightarrow> 'v \<Rightarrow> 'v) \<Rightarrow> 'v list \<Rightarrow> 'v option" where
  "merged merge vs = (case vs of [] \<Rightarrow> None | v # vs' \<Rightarrow> Some (foldl merge v vs'))"

definition values_at :: "u32 \<Rightarrow> (u32 \<times> 'v) list \<Rightarrow> 'v list" where
  "values_at k es = map snd (filter (\<lambda>e. fst e = k) es)"

lemma dedup_map_keys:
  "sorted (map fst (e # es)) \<Longrightarrow>
   sorted_wrt (<) (map fst (dedup_spec (map_same merge) e es)) \<and>
   fst ` set (dedup_spec (map_same merge) e es) = fst ` set (e # es)"
proof (induction es arbitrary: e)
  case (Cons x es)
  show ?case
  proof (cases "fst e = fst x")
    case True
    moreover have "sorted (map fst ((fst e, merge (snd e) (snd x)) # es))" using Cons.prems by simp
    ultimately show ?thesis
      using Cons.IH [of "(fst e, merge (snd e) (snd x))"] by (simp add: map_same_def)
  next
    case False
    then have lt: "\<forall>y \<in> set (x # es). fst e < fst y" using Cons.prems by force
    have IH: "sorted_wrt (<) (map fst (dedup_spec (map_same merge) x es))"
      "fst ` set (dedup_spec (map_same merge) x es) = fst ` set (x # es)"
      using Cons.IH [of x] Cons.prems by simp_all
    have "\<forall>y \<in> fst ` set (dedup_spec (map_same merge) x es). fst e < y"
      using lt unfolding IH(2) by auto
    moreover have "dedup_spec (map_same merge) e (x # es) = e # dedup_spec (map_same merge) x es"
      using False by (simp add: map_same_def)
    ultimately show ?thesis using IH by simp
  qed
qed simp

lemma dedup_map_of:
  "sorted (map fst (e # es)) \<Longrightarrow>
   map_of (dedup_spec (map_same merge) e es) k = merged merge (values_at k (e # es))"
proof (induction es arbitrary: e)
  case Nil
  then show ?case by (cases e) (auto simp: merged_def values_at_def)
next
  case (Cons x es)
  show ?case
  proof (cases "fst e = fst x")
    case True
    with Cons.IH [of "(fst e, merge (snd e) (snd x))"] Cons.prems show ?thesis
      by (auto simp: map_same_def merged_def values_at_def)
  next
    case False
    then have "fst e < fst x" using Cons.prems by auto
    then have "k = fst e \<Longrightarrow> values_at k (x # es) = []"
      using Cons.prems by (force simp: values_at_def filter_empty_conv)
    with False Cons.IH [of x] Cons.prems show ?thesis
      by (cases e) (auto simp: map_same_def merged_def values_at_def)
  qed
qed

lemma freeze_map_keys:
  "sorted_wrt (<) (map fst (freeze_map merge es))"
  "fst ` set (freeze_map merge es) = fst ` set es"
proof -
  have "sorted_wrt (<) (map fst (freeze_map merge es)) \<and> fst ` set (freeze_map merge es) = fst ` set es"
  proof (cases "sort_by_u32_key fst es")
    case Nil
    then have "es = []" by (metis set_empty set_sort_by_u32_key)
    with Nil show ?thesis by (simp add: freeze_map_spec)
  next
    case (Cons x xs)
    then have "sorted (map fst (x # xs))" "set (x # xs) = set es"
      by (metis sorted_sort_by_u32_key, metis set_sort_by_u32_key)
    with dedup_map_keys [of x xs merge] Cons show ?thesis
      by (simp add: freeze_map_spec flip: image_insert)
  qed
  then show "sorted_wrt (<) (map fst (freeze_map merge es))"
    "fst ` set (freeze_map merge es) = fst ` set es" by blast+
qed

lemma freeze_map_get:
  "map_get (freeze_map merge es) k = merged merge (values_at k (sort_by_u32_key fst es))"
proof (cases "sort_by_u32_key fst es")
  case Nil
  then show ?thesis
    using freeze_map_keys(1) [of merge es]
    by (simp add: map_get_map_of freeze_map_spec merged_def values_at_def)
next
  case (Cons x xs)
  then have "sorted (map fst (x # xs))" by (metis sorted_sort_by_u32_key)
  with Cons dedup_map_of [of x xs merge k] freeze_map_keys(1) [of merge es] show ?thesis
    by (simp add: map_get_map_of freeze_map_spec)
qed

lemma mset_values_at: "mset (values_at k (sort_by_u32_key fst es)) = mset (values_at k es)"
  by (simp add: values_at_def mset_filter)

lemma values_at_unique:
  "distinct (map fst es) \<Longrightarrow> values_at k es = (case map_of es k of None \<Rightarrow> [] | Some v \<Rightarrow> [v])"
proof (induction es)
  case (Cons e es)
  have "filter (\<lambda>x. fst x = k) es = []" if "k = fst e"
    using Cons.prems that by (auto simp: filter_empty_conv image_iff)
  with Cons show ?case by (cases e) (auto simp: values_at_def)
qed (simp add: values_at_def)

lemma freeze_map_unique:
  "distinct (map fst es) \<Longrightarrow> map_get (freeze_map merge es) k = map_of es k"
proof -
  assume d: "distinct (map fst es)"
  then have "mset (values_at k (sort_by_u32_key fst es)) = mset (case map_of es k of None \<Rightarrow> [] | Some v \<Rightarrow> [v])"
    by (simp only: mset_values_at values_at_unique)
  then show ?thesis
    by (cases "map_of es k") (auto simp: freeze_map_get merged_def)
qed

lemma dedup_set_spec:
  "sorted (e # es) \<Longrightarrow> sorted_wrt (<) (dedup_spec set_same e es) \<and> set (dedup_spec set_same e es) = set (e # es)"
proof (induction es arbitrary: e)
  case (Cons x es)
  show ?case
  proof (cases "e = x")
    case False
    then have "\<forall>y \<in> set (x # es). e < y" using Cons.prems by force
    with False Cons show ?thesis by (simp add: set_same_def)
  qed (use Cons in \<open>simp add: set_same_def\<close>)
qed simp

lemma freeze_set_spec: "sorted_wrt (<) (freeze_set ks) \<and> set (freeze_set ks) = set ks"
proof -
  have spec: "freeze_set ks = (case sort_by_u32_key (\<lambda>x. x) ks of [] \<Rightarrow> [] | x # xs \<Rightarrow> dedup_spec set_same x xs)"
    using dedup_in_place_spec [of set_same "sort_by_u32_key (\<lambda>x. x) ks"]
    by (auto simp: freeze_set_def split: prod.splits)
  show ?thesis
  proof (cases "sort_by_u32_key (\<lambda>x. x) ks")
    case Nil
    then have "ks = []" by (metis set_empty set_sort_by_u32_key)
    with Nil spec show ?thesis by simp
  next
    case (Cons x xs)
    then have "sorted (x # xs)" "set (x # xs) = set ks"
      using sorted_sort_by_u32_key [of "\<lambda>x. x" ks] set_sort_by_u32_key [of "\<lambda>x. x" ks] by simp_all
    with dedup_set_spec Cons show ?thesis by (simp add: spec)
  qed
qed

subsection \<open>The contract of an index\<close>

text \<open>What the tree and filter code asks of the pid index: on distinct keys, a lookup returns what
  was put in.\<close>

locale frozen_index =
  fixes freeze :: "(u32 \<times> 'v) list \<Rightarrow> 'm" and get :: "'m \<Rightarrow> u32 \<Rightarrow> 'v option"
  assumes get_freeze: "distinct (map fst es) \<Longrightarrow> get (freeze es) k = map_of es k"
begin

lemma get_freeze_Some: "distinct (map fst es) \<Longrightarrow> get (freeze es) k = Some v \<longleftrightarrow> (k, v) \<in> set es"
  by (simp add: get_freeze)

lemma get_freeze_None: "distinct (map fst es) \<Longrightarrow> get (freeze es) k = None \<longleftrightarrow> k \<notin> fst ` set es"
  by (simp add: get_freeze map_of_eq_None_iff)

text \<open>An index of positions: each element under its own key.\<close>

lemma get_positions:
  assumes "distinct (map k xs)" "freeze (map (\<lambda>i. (k (xs ! i), f i)) [0 ..< length xs]) = m" "inj f"
  shows "get m q = Some (f i) \<and> i < length xs \<longleftrightarrow> i < length xs \<and> k (xs ! i) = q"
proof -
  have "map fst (map (\<lambda>i. (k (xs ! i), f i)) [0 ..< length xs]) = map k xs"
    by (intro nth_equalityI) auto
  then have "get m q = Some (f i) \<longleftrightarrow> (q, f i) \<in> set (map (\<lambda>i. (k (xs ! i), f i)) [0 ..< length xs])"
    using get_freeze_Some [of "map (\<lambda>i. (k (xs ! i), f i)) [0 ..< length xs]" q "f i"] assms(1,2) by simp
  also have "\<dots> \<longleftrightarrow> i < length xs \<and> k (xs ! i) = q"
    using assms(3) by (auto simp: inj_eq)
  finally show ?thesis by blast
qed

end

interpretation pid_index: frozen_index "freeze_map_owned (\<lambda>a b. a)" map_get
  by unfold_locales (simp add: freeze_map_owned_def freeze_map_unique)

subsection \<open>Properties\<close>

text \<open>C10: \<open>freeze_map\<close> returns a slice strictly ascending by key with the caller's keys, in which
  \<open>get\<close> finds under each key one of that key's values with all its other values merged into it, and
  finds nothing under any other key.\<close>

theorem freeze_map_correct:
  "sorted_wrt (<) (map fst (freeze_map merge es)) \<and>
   (\<exists>vs. mset vs = mset (values_at k es) \<and> map_get (freeze_map merge es) k = merged merge vs)"
  using freeze_map_keys(1) freeze_map_get mset_values_at by blast

text \<open>on entries whose keys are distinct (a pid index), \<open>get\<close> on the frozen map is lookup in
  the entries.\<close>

theorem freeze_map_distinct_get:
  "distinct (map fst es) \<Longrightarrow> map_get (freeze_map merge es) k = map_of es k"
  by (rule freeze_map_unique)

theorem freeze_map_distinct_get_witness:
  "map_get (freeze_map (\<lambda>a b. a) [(30, 3), (10, 1), (20, 2 :: nat)]) 20 = Some 2"
  using freeze_map_distinct_get [of "[(30, 3), (10, 1), (20, 2 :: nat)]" "\<lambda>a b. a" 20] by simp

text \<open>\<open>contains\<close> on a frozen set is membership in the caller's keys, duplicates and order
  notwithstanding.\<close>

theorem freeze_set_contains: "set_contains (freeze_set ks) k \<longleftrightarrow> k \<in> set ks"
  using freeze_set_spec set_contains_iff by metis

end
