(* ===== verification/Floats.thy ===== *)
theory Floats
  imports Prelude Complex_Main "HOL-Library.Log_Nat"
begin

text \<open>
  Rust's \<open>f32\<close> and \<open>f64\<close> on the values this program computes with: finite ones, each a rational.
  An operation is the exact result rounded to the nearest representable value, ties to even, with
  gradual underflow. Infinities and NaN have no model: no float of the program divides by zero
  (\<open>compute_cpu\<close> and \<open>frac\<close> guard their divisors) and none comes near \<open>2 ^ 127\<close>. Casts to an
  integer truncate and saturate.
\<close>

text \<open>\<open>floor (log2 x)\<close> of a positive rational.\<close>

definition ilog2 :: "rat \<Rightarrow> int" where
  "ilog2 x =
     (let (n, d) = quotient_of x;
          e = int (floorlog 2 (nat n)) - int (floorlog 2 (nat d))
      in if 2 powi e \<le> x then e else e - 1)"

definition round_half_even :: "rat \<Rightarrow> int" where
  "round_half_even x =
     (let f = \<lfloor>x\<rfloor>; r = x - of_int f
      in if r < 1 / 2 then f else if r > 1 / 2 then f + 1 else if even f then f else f + 1)"

text \<open>Rounding to \<open>p\<close> significant bits, the last place no finer than \<open>2 powi emin\<close>.\<close>

definition float_round :: "nat \<Rightarrow> int \<Rightarrow> rat \<Rightarrow> rat" where
  "float_round p emin x =
     (if x = 0 then 0
      else let q = max (ilog2 \<bar>x\<bar> - int p + 1) emin
           in sgn x * of_int (round_half_even (\<bar>x\<bar> / 2 powi q)) * 2 powi q)"

type_synonym f32 = rat
type_synonym f64 = rat

definition to_f32 :: "rat \<Rightarrow> f32" where "to_f32 = float_round 24 (- 149)"
definition to_f64 :: "rat \<Rightarrow> f64" where "to_f64 = float_round 53 (- 1074)"

definition f32_add :: "f32 \<Rightarrow> f32 \<Rightarrow> f32" where "f32_add a b = to_f32 (a + b)"
definition f64_add :: "f64 \<Rightarrow> f64 \<Rightarrow> f64" where "f64_add a b = to_f64 (a + b)"
definition f64_mul :: "f64 \<Rightarrow> f64 \<Rightarrow> f64" where "f64_mul a b = to_f64 (a * b)"
definition f64_div :: "f64 \<Rightarrow> f64 \<Rightarrow> f64" where "f64_div a b = to_f64 (a / b)"

definition f64_of_nat :: "nat \<Rightarrow> f64" where "f64_of_nat n = to_f64 (of_nat n)"

text \<open>\<open>x as u8\<close>, \<open>as u32\<close>, \<open>as u64\<close>: towards zero, saturating.\<close>

definition float_as_nat :: "nat \<Rightarrow> rat \<Rightarrow> nat" where
  "float_as_nat bits x = min (nat \<lfloor>x\<rfloor>) (2 ^ bits - 1)"

lemma round_half_even_nonneg: "0 \<le> x \<Longrightarrow> 0 \<le> round_half_even x"
proof -
  assume "0 \<le> x"
  then have "0 \<le> \<lfloor>x\<rfloor>" by simp
  then show ?thesis by (simp add: round_half_even_def Let_def)
qed

lemma float_round_nonneg: "0 \<le> x \<Longrightarrow> 0 \<le> float_round p e x"
  by (simp add: float_round_def Let_def round_half_even_nonneg)

lemma float_round_zero [simp]: "float_round p e 0 = 0"
  by (simp add: float_round_def)

lemma to_f32_nonneg: "0 \<le> x \<Longrightarrow> 0 \<le> to_f32 x" by (simp add: to_f32_def float_round_nonneg)
lemma to_f64_nonneg: "0 \<le> x \<Longrightarrow> 0 \<le> to_f64 x" by (simp add: to_f64_def float_round_nonneg)

lemma f64_of_nat_nonneg: "0 \<le> f64_of_nat n" by (simp add: f64_of_nat_def to_f64_nonneg)

lemma f32_zero [simp]: "to_f32 0 = 0" by (simp add: to_f32_def)
lemma f64_zero [simp]: "to_f64 0 = 0" by (simp add: to_f64_def)

lemma float_as_nat_le: "float_as_nat bits x \<le> 2 ^ bits - 1"
  by (simp add: float_as_nat_def)

subsection \<open>Exactness\<close>

lemma powi_2_add: "(2 :: rat) powi (a + b) = 2 powi a * 2 powi b"
  by (simp add: power_int_add)

lemma floorlog_nat_bounds: "0 < (n :: nat) \<Longrightarrow> 2 ^ (floorlog 2 n - 1) \<le> n \<and> n < 2 ^ floorlog 2 n"
  using floorlog_bounds [of n 2] by simp

lemma ilog2_bounds:
  assumes "0 < x"
  shows "2 powi ilog2 x \<le> x" and "x < 2 powi (ilog2 x + 1)"
proof -
  obtain n d where q: "quotient_of x = (n, d)" by force
  then have d: "0 < d" and x: "x = of_int n / of_int d"
    by (auto simp: quotient_of_denom_pos quotient_of_div)
  with assms have n: "0 < n" by (auto simp: zero_less_divide_iff)
  let ?a = "floorlog 2 (nat n)" and ?b = "floorlog 2 (nat d)"
  let ?e = "int ?a - int ?b"
  have a: "0 < ?a" "0 < ?b" using n d by (simp_all add: floorlog_def)
  have nn: "2 ^ (?a - 1) \<le> nat n" "nat n < 2 ^ ?a" and dd: "2 ^ (?b - 1) \<le> nat d" "nat d < 2 ^ ?b"
    using floorlog_nat_bounds [of "nat n"] floorlog_nat_bounds [of "nat d"] n d by simp_all
  have conv: "(of_int n :: rat) = of_nat (nat n)" "(of_int d :: rat) = of_nat (nat d)"
    using n d by simp_all
  have nr: "(2 :: rat) ^ (?a - 1) \<le> of_int n" "of_int n < (2 :: rat) ^ ?a"
    and dr: "(2 :: rat) ^ (?b - 1) \<le> of_int d" "of_int d < (2 :: rat) ^ ?b"
    unfolding conv using nn dd by (metis of_nat_le_iff of_nat_less_iff of_nat_numeral of_nat_power)+
  have up: "x < 2 powi (?e + 1)"
  proof -
    have "x < 2 ^ ?a / 2 ^ (?b - 1)"
      unfolding x using nr dr n d by (intro frac_less) auto
    also have "\<dots> = 2 powi (?e + 1)"
      using a by (simp add: power_int_add power_int_diff power_diff)
    finally show ?thesis .
  qed
  have lo: "2 powi (?e - 1) \<le> x"
  proof -
    have "2 powi (?e - 1) = (2 :: rat) ^ (?a - 1) / 2 ^ ?b"
      using a by (simp add: power_int_diff power_diff)
    also have "\<dots> \<le> x"
      unfolding x using nr dr n d by (intro frac_le) auto
    finally show ?thesis .
  qed
  have il: "ilog2 x = (if 2 powi ?e \<le> x then ?e else ?e - 1)"
    by (simp add: ilog2_def q Let_def)
  show "2 powi ilog2 x \<le> x" using lo by (simp add: il)
  show "x < 2 powi (ilog2 x + 1)" using up by (simp add: il)
qed

lemma ilog2_le:
  assumes "0 < x" "x < 2 powi (k + 1)"
  shows "ilog2 x \<le> k"
proof (rule ccontr)
  assume "\<not> ilog2 x \<le> k"
  then have "(2 :: rat) powi (k + 1) \<le> 2 powi ilog2 x" by (intro power_int_increasing) auto
  with ilog2_bounds(1) [OF assms(1)] assms(2) show False by simp
qed

lemma round_half_even_int [simp]: "round_half_even (of_int z) = z"
  by (simp add: round_half_even_def Let_def)

text \<open>A value with at most \<open>p\<close> significant bits is not rounded.\<close>

lemma float_round_exact:
  assumes x: "x = of_int m * 2 powi k" and m: "\<bar>m\<bar> < 2 ^ p" and k: "emin \<le> k"
  shows "float_round p emin x = x"
proof (cases "x = 0")
  case False
  let ?q = "max (ilog2 \<bar>x\<bar> - int p + 1) emin"
  have ax: "\<bar>x\<bar> = of_int \<bar>m\<bar> * 2 powi k" by (simp add: x abs_mult)
  have "(of_int \<bar>m\<bar> :: rat) < 2 ^ p" using m by (metis of_int_less_iff of_int_numeral of_int_power)
  then have "\<bar>x\<bar> < 2 powi (int p - 1 + k + 1)"
    by (simp add: ax power_int_add mult_strict_right_mono)
  with False have "ilog2 \<bar>x\<bar> \<le> int p - 1 + k" by (intro ilog2_le) auto
  with k have q: "?q \<le> k" by simp
  then have "(2 :: rat) powi k = 2 ^ nat (k - ?q) * 2 powi ?q"
    by (simp add: power_int_add [symmetric] flip: power_int_of_nat)
  then have r: "\<bar>x\<bar> = of_int (\<bar>m\<bar> * 2 ^ nat (k - ?q)) * 2 powi ?q" unfolding ax by simp
  have "(2 :: rat) powi ?q \<noteq> 0" by simp
  with r have eq: "\<bar>x\<bar> / 2 powi ?q = of_int (\<bar>m\<bar> * 2 ^ nat (k - ?q))"
    by (metis nonzero_mult_div_cancel_right)
  then have "round_half_even (\<bar>x\<bar> / 2 powi ?q) = \<bar>m\<bar> * 2 ^ nat (k - ?q)" by (metis round_half_even_int)
  moreover have "of_int (\<bar>m\<bar> * 2 ^ nat (k - ?q)) * 2 powi ?q = \<bar>x\<bar>"
    by (rule r [symmetric])
  ultimately have "float_round p emin x = sgn x * \<bar>x\<bar>"
    using False by (simp add: float_round_def Let_def mult.assoc)
  then show ?thesis by (simp add: sgn_mult_abs)
qed simp

lemma f64_of_nat_exact: "n < 2 ^ 53 \<Longrightarrow> f64_of_nat n = of_nat n"
  unfolding f64_of_nat_def to_f64_def
  by (rule float_round_exact [where m = "int n" and k = 0]) simp_all

lemma to_f64_exact: "x = of_int m * 2 powi k \<Longrightarrow> \<bar>m\<bar> < 2 ^ 53 \<Longrightarrow> - 1074 \<le> k \<Longrightarrow> to_f64 x = x"
  unfolding to_f64_def by (rule float_round_exact)

end
