(* ===== verification/Proc.thy ===== *)
theory Proc
  imports Floats MapSet
begin

unbundle bit_operations_syntax

text \<open>
  The process rows of src/src/main.rs: \<open>ProcInfo\<close> with its packed age and visibility, \<open>Packed\<close>
  (the visibility bit and the low CPU counter bits carried to the next tick), and \<open>compute_cpu\<close>.
  Code that the source selects by \<open>cfg(target_os)\<close> takes the target as an argument.
\<close>

datatype target_os = Linux | Macos

subsection \<open>Constants\<close>

definition CPU_THRESH :: f32 where "CPU_THRESH = 5"
definition MEM_MB_THRESH :: nat where "MEM_MB_THRESH = 128"
definition GPU_THRESH :: u32 where "GPU_THRESH = 5"
definition CHILD_CPU_THRESH :: f32 where "CHILD_CPU_THRESH = 1"
definition CHILD_CPU_KEEP_THRESH :: f32 where "CHILD_CPU_KEEP_THRESH = to_f32 (3 / 10)"

subsection \<open>ProcInfo\<close>

text \<open>\<open>GpuUsage\<close>; \<open>mem_mib\<close> exists on Linux only, where it is a \<open>NonZeroU32\<close>.\<close>

record gpu_usage =
  sm_pct :: u32
  mem_mib :: u32

record proc_info =
  pid :: u32
  ppid :: u32
  cpu :: f32
  rss_kib :: u32
  age_visible :: u32
  gpu :: "gpu_usage option"
  display :: string

definition VISIBLE_BIT :: u32 where "VISIBLE_BIT = push_bit 31 1"

definition pack :: "u32 \<Rightarrow> bool \<Rightarrow> u32" where
  "pack age visible = age OR push_bit 31 (of_bool visible)"

definition age_secs :: "proc_info \<Rightarrow> u32" where
  "age_secs p = age_visible p AND NOT VISIBLE_BIT"

definition visible :: "proc_info \<Rightarrow> bool" where
  "visible p \<longleftrightarrow> age_visible p AND VISIBLE_BIT \<noteq> 0"

definition set_visible :: "bool \<Rightarrow> proc_info \<Rightarrow> proc_info" where
  "set_visible v p =
     (if v then p\<lparr>age_visible := age_visible p OR VISIBLE_BIT\<rparr>
      else p\<lparr>age_visible := age_visible p AND NOT VISIBLE_BIT\<rparr>)"

definition proc_default :: proc_info where
  "proc_default = \<lparr>pid = 0, ppid = 0, cpu = 0, rss_kib = 0, age_visible = 0, gpu = None, display = []\<rparr>"

lemma VISIBLE_BIT_bit: "bit VISIBLE_BIT n \<longleftrightarrow> n = 31"
  unfolding VISIBLE_BIT_def bit_push_bit_iff bit_1_iff by auto

lemma word_and_bit31: "(w :: u32) AND VISIBLE_BIT \<noteq> 0 \<longleftrightarrow> bit w 31"
proof
  assume "w AND VISIBLE_BIT \<noteq> 0"
  then obtain n where "bit (w AND VISIBLE_BIT) n"
    using bit_word_eqI [of "w AND VISIBLE_BIT" 0] by auto
  then show "bit w 31" by (auto simp: bit_and_iff VISIBLE_BIT_bit)
next
  assume "bit w 31"
  then have "bit (w AND VISIBLE_BIT) 31" by (simp add: bit_and_iff VISIBLE_BIT_bit)
  then show "w AND VISIBLE_BIT \<noteq> 0" by auto
qed

lemma visible_bit: "visible p \<longleftrightarrow> bit (age_visible p) 31"
  by (simp add: visible_def word_and_bit31)

lemma visible_set_visible [simp]: "visible (set_visible v p) = v"
  by (simp add: visible_bit set_visible_def bit_simps VISIBLE_BIT_bit)

lemma age_set_visible [simp]: "age_secs (set_visible v p) = age_secs p"
  by (rule bit_word_eqI) (auto simp: age_secs_def set_visible_def bit_simps VISIBLE_BIT_bit)

lemma set_visible_fields [simp]:
  "pid (set_visible v p) = pid p" "ppid (set_visible v p) = ppid p" "cpu (set_visible v p) = cpu p"
  "rss_kib (set_visible v p) = rss_kib p" "gpu (set_visible v p) = gpu p"
  "display (set_visible v p) = display p"
  by (simp_all add: set_visible_def)

lemma visible_update [simp]:
  "visible (p\<lparr>pid := a\<rparr>) = visible p" "visible (p\<lparr>ppid := a\<rparr>) = visible p"
  "visible (p\<lparr>cpu := c\<rparr>) = visible p" "visible (p\<lparr>rss_kib := a\<rparr>) = visible p"
  "visible (p\<lparr>gpu := g\<rparr>) = visible p" "visible (p\<lparr>display := d\<rparr>) = visible p"
  by (simp_all add: visible_def)

lemma pack_fields:
  assumes "age < VISIBLE_BIT"
  shows "pack age v AND NOT VISIBLE_BIT = age" and "pack age v AND VISIBLE_BIT \<noteq> 0 \<longleftrightarrow> v"
proof -
  have "age < 2 ^ 31" using assms by (simp add: VISIBLE_BIT_def)
  then have "take_bit 31 age = age" by (simp add: take_bit_eq_mask less_mask_eq)
  then have b: "bit age n \<Longrightarrow> n < 31" for n by (metis bit_take_bit_iff)
  show "pack age v AND NOT VISIBLE_BIT = age"
    by (rule bit_word_eqI) (auto simp: pack_def bit_simps VISIBLE_BIT_bit dest: b)
  show "pack age v AND VISIBLE_BIT \<noteq> 0 \<longleftrightarrow> v"
    using b [of 31] by (auto simp: word_and_bit31 pack_def bit_simps)
qed

subsection \<open>Packed\<close>

definition PACKED_VISIBLE :: u32 where "PACKED_VISIBLE = push_bit 31 1"
definition CPU_MASK :: u32 where "CPU_MASK = NOT PACKED_VISIBLE"

definition SHIFT :: "target_os \<Rightarrow> nat" where
  "SHIFT os = (case os of Linux \<Rightarrow> 1 | Macos \<Rightarrow> 7)"

definition packed_new :: "target_os \<Rightarrow> bool \<Rightarrow> u64 \<Rightarrow> u32" where
  "packed_new os vis ticks =
     (let bits = ucast (drop_bit (SHIFT os) ticks) AND CPU_MASK;
          v = (if vis then PACKED_VISIBLE else 0)
      in bits OR v)"

definition packed_visible :: "u32 \<Rightarrow> bool" where
  "packed_visible p \<longleftrightarrow> p AND PACKED_VISIBLE \<noteq> 0"

definition packed_cpu_bits :: "u32 \<Rightarrow> u32" where
  "packed_cpu_bits p = p AND CPU_MASK"

definition packed_set_visible :: "u32 \<Rightarrow> u32" where
  "packed_set_visible p = p OR PACKED_VISIBLE"

lemma PACKED_VISIBLE_eq: "PACKED_VISIBLE = VISIBLE_BIT"
  by (simp add: PACKED_VISIBLE_def VISIBLE_BIT_def)

lemma packed_visible_bit: "packed_visible p \<longleftrightarrow> bit p 31"
  by (simp add: packed_visible_def PACKED_VISIBLE_eq word_and_bit31)

lemma CPU_MASK_bit: "bit CPU_MASK n \<longleftrightarrow> n < 31"
  by (auto simp: CPU_MASK_def PACKED_VISIBLE_eq bit_simps VISIBLE_BIT_bit)

lemma and_CPU_MASK: "w AND CPU_MASK = take_bit 31 w"
  by (rule bit_word_eqI) (auto simp: bit_simps CPU_MASK_bit)

lemma packed_new_visible [simp]: "packed_visible (packed_new os v ticks) = v"
  by (auto simp: packed_visible_bit packed_new_def Let_def bit_simps CPU_MASK_bit PACKED_VISIBLE_eq VISIBLE_BIT_bit)

lemma packed_new_cpu_bits:
  "packed_cpu_bits (packed_new os v ticks) = take_bit 31 (ucast (drop_bit (SHIFT os) ticks))"
  by (rule bit_word_eqI)
    (auto simp: packed_cpu_bits_def packed_new_def Let_def bit_simps CPU_MASK_bit PACKED_VISIBLE_eq VISIBLE_BIT_bit)

lemma packed_set_visible_visible [simp]: "packed_visible (packed_set_visible p)"
  by (simp add: packed_visible_bit packed_set_visible_def bit_simps PACKED_VISIBLE_eq VISIBLE_BIT_bit)

lemma packed_set_visible_cpu_bits [simp]: "packed_cpu_bits (packed_set_visible p) = packed_cpu_bits p"
  by (rule bit_word_eqI)
    (auto simp: packed_cpu_bits_def packed_set_visible_def bit_simps CPU_MASK_bit PACKED_VISIBLE_eq VISIBLE_BIT_bit)

subsection \<open>CPU percent\<close>

definition cpu_delta_bits :: "target_os \<Rightarrow> u32 \<Rightarrow> u64 \<Rightarrow> u32" where
  "cpu_delta_bits os p ticks =
     (let new_bits = ucast (drop_bit (SHIFT os) ticks) AND CPU_MASK
      in (new_bits - packed_cpu_bits p) AND CPU_MASK)"

definition compute_cpu :: "target_os \<Rightarrow> u32 option \<Rightarrow> u32 \<Rightarrow> u64 \<Rightarrow> f64 \<Rightarrow> f64 \<Rightarrow> f32" where
  "compute_cpu os prev_entry age ticks ticks_per_sec dt =
     (if dt \<le> to_f64 (1 / 100) \<or> f64_of_nat (unat age) < dt then 0
      else case prev_entry of
          None \<Rightarrow> 0
        | Some p \<Rightarrow>
            let delta = f64_mul (f64_of_nat (unat (cpu_delta_bits os p ticks))) (f64_of_nat (2 ^ SHIFT os))
            in to_f32 (f64_mul (f64_div (f64_div delta ticks_per_sec) dt) 100))"

text \<open>The packed counters' difference, in the shifted domain, is the true one while that fits 31
  bits.\<close>

lemma uint_cpu_delta_bits:
  "uint (cpu_delta_bits os (packed_new os v old) now) =
     take_bit 31 (uint (drop_bit (SHIFT os) now) - uint (drop_bit (SHIFT os) old))"
proof -
  have m: "(x :: int) mod 4294967296 mod 2147483648 = x mod 2147483648" for x
    by (rule mod_mod_cancel) simp
  show ?thesis
    unfolding cpu_delta_bits_def Let_def packed_new_cpu_bits and_CPU_MASK
    by (simp add: unsigned_take_bit_eq uint_word_ariths unsigned_ucast_eq)
      (simp add: take_bit_eq_mod m mod_diff_eq flip: take_bit_eq_mod [of 32])
qed

lemma cpu_delta_exact:
  assumes "old \<le> now" "unat (drop_bit (SHIFT os) now) - unat (drop_bit (SHIFT os) old) < 2 ^ 31"
  shows "unat (cpu_delta_bits os (packed_new os v old) now) =
         unat (drop_bit (SHIFT os) now) - unat (drop_bit (SHIFT os) old)"
proof -
  have le: "unat (drop_bit (SHIFT os) old) \<le> unat (drop_bit (SHIFT os) now)"
    using assms(1) unfolding word_le_nat_alt
    by (simp only: unat_drop_bit_eq) (simp add: drop_bit_eq_div div_le_mono)
  have eq: "uint (drop_bit (SHIFT os) now) - uint (drop_bit (SHIFT os) old) =
      int (unat (drop_bit (SHIFT os) now) - unat (drop_bit (SHIFT os) old))"
    using le by (simp add: of_nat_diff)
  have "int (unat (cpu_delta_bits os (packed_new os v old) now)) =
      take_bit 31 (int (unat (drop_bit (SHIFT os) now) - unat (drop_bit (SHIFT os) old)))"
    using uint_cpu_delta_bits [of os v old now] unfolding eq by simp
  also have "\<dots> = int (unat (drop_bit (SHIFT os) now) - unat (drop_bit (SHIFT os) old))"
    using assms(2) by (intro take_bit_int_eq_self) auto
  finally show ?thesis by (simp only: of_nat_eq_iff)
qed

lemma compute_cpu_nonneg: "0 < tps \<Longrightarrow> 0 \<le> compute_cpu os prev age ticks tps dt"
proof -
  assume tps: "0 < tps"
  show ?thesis
  proof (cases "dt \<le> to_f64 (1 / 100) \<or> f64_of_nat (unat age) < dt \<or> prev = None")
    case True
    then show ?thesis by (auto simp: compute_cpu_def split: option.split)
  next
    case False
    then have "0 \<le> dt" using order_trans [OF to_f64_nonneg [of "1 / 100"], of dt] by simp
    with False tps show ?thesis
      by (auto simp: compute_cpu_def Let_def f64_mul_def f64_div_def
          intro!: to_f32_nonneg to_f64_nonneg mult_nonneg_nonneg divide_nonneg_nonneg f64_of_nat_nonneg
          split: option.split)
  qed
qed

subsection \<open>Properties\<close>

text \<open>the visibility bit packed above the age never disturbs it: reading back an age below
  \<open>2 ^ 31\<close> and its flag returns both, and \<open>set_visible\<close> changes the flag only.\<close>

theorem proc_age_visible_roundtrip:
  "age < VISIBLE_BIT \<Longrightarrow>
   age_secs (p\<lparr>age_visible := pack age v\<rparr>) = age \<and> visible (p\<lparr>age_visible := pack age v\<rparr>) = v \<and>
   age_secs (set_visible u p) = age_secs p \<and> visible (set_visible u p) = u"
  using pack_fields [of age v] by (simp add: age_secs_def [of "p\<lparr>age_visible := pack age v\<rparr>"]
      visible_def [of "p\<lparr>age_visible := pack age v\<rparr>"])

theorem proc_age_visible_roundtrip_witness:
  "age_secs (proc_default\<lparr>age_visible := pack 100 True\<rparr>) = 100"
  using proc_age_visible_roundtrip [where age = 100 and p = proc_default and v = True and u = False]
  by (simp add: VISIBLE_BIT_def)

text \<open>C11: what is stored in 31 bits is enough: if a process's CPU counter went from \<open>old\<close> to
  \<open>now\<close> and the advance, in units of \<open>2 ^ SHIFT\<close>, fits 31 bits, then the wrapping subtraction of
  \<open>compute_cpu\<close> on last tick's packed entry yields exactly that advance, however large the
  counters are and whatever the visibility bit next to them is.\<close>

theorem cpu_delta_bits_exact:
  assumes "old \<le> now"
    and "unat (drop_bit (SHIFT os) now) - unat (drop_bit (SHIFT os) old) < 2 ^ 31"
  shows "unat (cpu_delta_bits os (packed_new os v old) now) =
           unat (drop_bit (SHIFT os) now) - unat (drop_bit (SHIFT os) old) \<and>
         cpu_delta_bits os (packed_set_visible (packed_new os v old)) now =
           cpu_delta_bits os (packed_new os v old) now"
  using cpu_delta_exact [OF assms] by (simp add: cpu_delta_bits_def)

theorem cpu_delta_bits_exact_witness:
  "unat (cpu_delta_bits Linux (packed_new Linux True 8589934590) 8589934790) = 100"
proof -
  have "unat (drop_bit (SHIFT Linux) (8589934790 :: u64)) - unat (drop_bit (SHIFT Linux) (8589934590 :: u64)) = 100"
    by (simp add: SHIFT_def)
  then show ?thesis
    using cpu_delta_bits_exact [of 8589934590 8589934790 Linux True] by simp
qed

text \<open>\<open>compute_cpu\<close> never reports a negative share, and reports 0 for a pid with no entry from
  the last tick, for an interval of at most 10 ms, and for a process younger than the interval (a
  reused pid).\<close>

theorem compute_cpu_safe:
  assumes "0 < ticks_per_sec"
  shows "0 \<le> compute_cpu os prev age ticks ticks_per_sec dt \<and>
    (prev = None \<or> dt \<le> to_f64 (1 / 100) \<or> f64_of_nat (unat age) < dt \<longrightarrow>
     compute_cpu os prev age ticks ticks_per_sec dt = 0)"
  using compute_cpu_nonneg [OF assms] by (auto simp: compute_cpu_def)

theorem compute_cpu_safe_witness:
  "0 \<le> compute_cpu Linux (Some 7) 100 500 100 2 \<and> compute_cpu Linux None 100 500 100 2 = 0"
  using compute_cpu_safe [of 100 Linux "Some 7" 100 500 2] compute_cpu_safe [of 100 Linux None 100 500 2]
  by simp

end
