(* ===== verification/Twrite.thy ===== *)
theory Twrite
  imports FVec
begin

unbundle bit_operations_syntax

text \<open>
  The text output of src/src/twrite.rs. A \<open>Put\<close> value is modelled by the sequence of writer calls
  it makes; what these calls leave in the writer is the writer's affair, stated once as the locale
  \<open>tiny_writer\<close> and interpreted on the fixed-capacity byte vector.
\<close>

datatype wcall = PutBytes string | PutByte char

fun wcall_bytes :: "wcall \<Rightarrow> string" where
  "wcall_bytes (PutBytes b) = b"
| "wcall_bytes (PutByte b) = [b]"

definition flat :: "wcall list \<Rightarrow> string" where
  "flat calls = concat (List.map wcall_bytes calls)"

lemma flat_simps [simp]:
  "flat [] = []" "flat (c # cs) = wcall_bytes c @ flat cs" "flat (cs @ ds) = flat cs @ flat ds"
  by (simp_all add: flat_def)

lemma length_flat_concat: "length (flat (concat css)) = sum_list (List.map (\<lambda>cs. length (flat cs)) css)"
  by (induction css) simp_all

subsection \<open>Writers\<close>

definition run_call :: "('w \<Rightarrow> string \<Rightarrow> 'w) \<Rightarrow> ('w \<Rightarrow> char \<Rightarrow> 'w) \<Rightarrow> 'w \<Rightarrow> wcall \<Rightarrow> 'w" where
  "run_call put_bytes put_byte w c =
     (case c of PutBytes b \<Rightarrow> put_bytes w b | PutByte b \<Rightarrow> put_byte w b)"

definition run_put :: "('w \<Rightarrow> string \<Rightarrow> 'w) \<Rightarrow> ('w \<Rightarrow> char \<Rightarrow> 'w) \<Rightarrow> wcall list \<Rightarrow> 'w \<Rightarrow> 'w" where
  "run_put put_bytes put_byte calls w = foldl (run_call put_bytes put_byte) w calls"

text \<open>A writer with room for finitely many bytes that drops what does not fit.\<close>

locale tiny_writer =
  fixes put_bytes :: "'w \<Rightarrow> string \<Rightarrow> 'w" and put_byte :: "'w \<Rightarrow> char \<Rightarrow> 'w"
    and content :: "'w \<Rightarrow> string" and room :: "'w \<Rightarrow> nat"
  assumes put_bytes_content: "content (put_bytes w b) = content w @ take (room w) b"
    and put_bytes_room: "room (put_bytes w b) = room w - length b"
    and put_byte_content: "content (put_byte w c) = content w @ take (room w) [c]"
    and put_byte_room: "room (put_byte w c) = room w - 1"
begin

lemma run_call_content:
  "content (run_call put_bytes put_byte w c) = content w @ take (room w) (wcall_bytes c)"
  "room (run_call put_bytes put_byte w c) = room w - length (wcall_bytes c)"
  by (cases c; simp add: run_call_def put_bytes_content put_bytes_room put_byte_content put_byte_room)+

lemma run_put_content:
  "content (run_put put_bytes put_byte calls w) = content w @ take (room w) (flat calls) \<and>
   room (run_put put_bytes put_byte calls w) = room w - length (flat calls)"
  by (induction calls arbitrary: w) (simp_all add: run_put_def run_call_content)

lemma run_put_fits:
  "length (flat calls) \<le> room w \<Longrightarrow> content (run_put put_bytes put_byte calls w) = content w @ flat calls"
  using run_put_content [of calls w] by simp

end

definition fvec_room :: "'a fvec \<Rightarrow> nat" where
  "fvec_room v = fv_capacity v - length (fv_elems v)"

interpretation soft: tiny_writer fvec_put_bytes fvec_put_byte fv_elems fvec_room
proof
  fix w :: "char fvec" and b :: string and c :: char
  have short: "fvec_room w = 0 \<or> take (fvec_room w) b = [] \<or>
      length (fv_elems w) + min (length b) (fvec_room w) \<le> fv_capacity w"
    by (auto simp: fvec_room_def)
  show "fv_elems (fvec_put_bytes w b) = fv_elems w @ take (fvec_room w) b"
    using short by (auto simp: fvec_defs Let_def fvec_room_def min_def split: if_splits)
  then show "fvec_room (fvec_put_bytes w b) = fvec_room w - length b"
    by (auto simp: fvec_defs Let_def fvec_room_def split: if_splits)
  show "fv_elems (fvec_put_byte w c) = fv_elems w @ take (fvec_room w) [c]"
    by (cases "fvec_room w") (auto simp: fvec_put_byte_def fvec_push_ignore_elems fvec_room_def)
  show "fvec_room (fvec_put_byte w c) = fvec_room w - 1"
    by (auto simp: fvec_put_byte_def fvec_push_ignore_elems fvec_room_def)
qed

definition fvec_put :: "wcall list \<Rightarrow> char fvec \<Rightarrow> char fvec" where
  "fvec_put calls v = run_put fvec_put_bytes fvec_put_byte calls v"

subsection \<open>Bytes and characters\<close>

definition byte_of :: "char \<Rightarrow> u8" where "byte_of c = of_char c"

definition leader_len :: "char \<Rightarrow> nat" where
  "leader_len c =
     (let b = byte_of c in
      if b < 0x80 then 1
      else if b < 0xC2 then 0
      else if b < 0xE0 then 2
      else if b < 0xF0 then 3
      else if b < 0xF5 then 4
      else 0)"

definition continuation :: "char \<Rightarrow> bool" where
  "continuation c \<longleftrightarrow> byte_of c AND 0xC0 = 0x80"

definition slice_ok :: "string \<Rightarrow> nat \<Rightarrow> bool" where
  "slice_ok s i \<longleftrightarrow>
     (let n = leader_len (s ! i)
      in n > 0 \<and> i + n \<le> length s \<and> list_all continuation (take (n - 1) (drop (i + 1) s)))"

function put_u8s_loop :: "string \<Rightarrow> nat \<Rightarrow> wcall list" where
  "put_u8s_loop s i =
     (if i < length s then
        (if slice_ok s i
         then PutBytes (take (leader_len (s ! i)) (drop i s)) # put_u8s_loop s (i + leader_len (s ! i))
         else PutByte (CHR ''?'') # put_u8s_loop s (i + 1))
      else [])"
  by pat_completeness auto
termination
  by (relation "measure (\<lambda>(s, i). length s - i)") (auto simp: slice_ok_def Let_def)

declare put_u8s_loop.simps [simp del]

definition put_u8s :: "string \<Rightarrow> wcall list" where "put_u8s s = put_u8s_loop s 0"

definition put_str :: "string \<Rightarrow> wcall list" where "put_str s = [PutBytes s]"

definition put_u8 :: "char \<Rightarrow> wcall list" where "put_u8 b = [PutByte b]"

text \<open>\<open>char::encode_utf8\<close> of Rust's core library, on the scalar value.\<close>

definition encode_utf8 :: "nat \<Rightarrow> string" where
  "encode_utf8 c =
     (if c < 0x80 then [char_of c]
      else if c < 0x800 then [char_of (0xC0 + c div 64), char_of (0x80 + c mod 64)]
      else if c < 0x10000 then
        [char_of (0xE0 + c div 4096), char_of (0x80 + c div 64 mod 64), char_of (0x80 + c mod 64)]
      else
        [char_of (0xF0 + c div 262144), char_of (0x80 + c div 4096 mod 64),
         char_of (0x80 + c div 64 mod 64), char_of (0x80 + c mod 64)])"

definition put_char :: "nat \<Rightarrow> wcall list" where "put_char c = [PutBytes (encode_utf8 c)]"

subsection \<open>Decimal digits\<close>

definition digit_char :: "nat \<Rightarrow> char" where "digit_char d = char_of (48 + d)"

text \<open>The buffer is filled from its end; \<open>i\<close> is the first byte written.\<close>

function digits_loop :: "nat \<Rightarrow> string \<Rightarrow> nat \<Rightarrow> string \<times> nat" where
  "digits_loop m buf i =
     (if m > 0 then digits_loop (m div 10) (buf[i - 1 := digit_char (m mod 10)]) (i - 1) else (buf, i))"
  by pat_completeness auto
termination
  by (relation "measure (\<lambda>(m, buf, i). m)") auto

declare digits_loop.simps [simp del]

definition write_u32 :: "u32 \<Rightarrow> wcall list" where
  "write_u32 n =
     (if n = 0 then [PutByte (CHR ''0'')]
      else case digits_loop (unat n) (replicate 10 (char_of (0 :: nat))) 10 of (buf, i) \<Rightarrow> [PutBytes (drop i buf)])"

definition put_u32 :: "u32 \<Rightarrow> wcall list" where "put_u32 n = write_u32 n"

definition put_u64 :: "u64 \<Rightarrow> wcall list" where
  "put_u64 n =
     (if n = 0 then [PutByte (CHR ''0'')]
      else case digits_loop (unat n) (replicate 20 (char_of (0 :: nat))) 20 of (buf, i) \<Rightarrow> [PutBytes (drop i buf)])"

definition put_usize :: "nat \<Rightarrow> wcall list" where "put_usize n = put_u64 (of_nat n)"

text \<open>\<open>i32\<close>: a negative value is negated as a \<open>u32\<close>, so that the least one has an absolute value.\<close>

definition put_i32 :: "i32 \<Rightarrow> wcall list" where
  "put_i32 n =
     (if sint n < 0 then PutByte (CHR ''-'') # put_u32 (- n) else put_u32 n)"

function digit_count_loop :: "nat \<Rightarrow> nat \<Rightarrow> nat" where
  "digit_count_loop n d = (if n \<ge> 10 then digit_count_loop (n div 10) (d + 1) else d)"
  by pat_completeness auto
termination
  by (relation "measure fst") auto

declare digit_count_loop.simps [simp del]

definition digit_count :: "u32 \<Rightarrow> nat" where "digit_count n = digit_count_loop (unat n) 1"

text \<open>The numeral of a number.\<close>

fun decimal :: "nat \<Rightarrow> string" where
  "decimal n = (if n < 10 then [digit_char n] else decimal (n div 10) @ [digit_char (n mod 10)])"

declare decimal.simps [simp del]

lemma digit_char_0: "digit_char 0 = CHR ''0''"
  by code_simp

lemma decimal_nonempty: "decimal n \<noteq> []"
  by (subst decimal.simps) simp

lemma length_decimal_le: "n < 10 ^ k \<Longrightarrow> 0 < k \<Longrightarrow> length (decimal n) \<le> k"
proof (induction k arbitrary: n)
  case (Suc k)
  show ?case
  proof (cases "n < 10")
    case False
    with Suc.prems have "n div 10 < 10 ^ k" "0 < k" by (auto intro: Nat.gr0I simp: less_mult_imp_div_less)
    with Suc.IH False show ?thesis by (subst decimal.simps) simp
  qed (subst decimal.simps, simp)
qed simp

lemma length_decimal_ge: "10 ^ k \<le> n \<Longrightarrow> k < length (decimal n)"
proof (induction k arbitrary: n)
  case (Suc k)
  then have "10 ^ k \<le> n div 10" "10 \<le> n"
    using mult_le_mono2 [of 1 "10 ^ k" 10] order_trans [of 10 "10 * 10 ^ k" n]
    by (auto simp: less_eq_div_iff_mult_less_eq)
  with Suc.IH [of "n div 10"] show ?case by (subst decimal.simps) simp
qed (simp add: decimal_nonempty)

lemma digits_loop_decimal:
  "0 < m \<Longrightarrow> length (decimal m) \<le> i \<Longrightarrow> i \<le> length buf \<Longrightarrow>
   (case digits_loop m buf i of (buf', i') \<Rightarrow>
      i' = i - length (decimal m) \<and> length buf' = length buf \<and> drop i' buf' = decimal m @ drop i buf)"
proof (induction m buf i rule: digits_loop.induct)
  case (1 m buf i)
  let ?buf = "buf[i - 1 := digit_char (m mod 10)]"
  have i: "0 < i" using "1.prems" decimal_nonempty [of m] by (cases i) auto
  have d: "drop (i - 1) ?buf = digit_char (m mod 10) # drop i buf"
    using i "1.prems" by (cases i) (simp_all add: Cons_nth_drop_Suc [symmetric])
  show ?case
  proof (cases "m < 10")
    case True
    then have "decimal m = [digit_char m]" by (subst decimal.simps) simp
    with True "1.prems" d show ?thesis
      by (subst digits_loop.simps) (simp add: digits_loop.simps [of 0])
  next
    case False
    have dec: "decimal m = decimal (m div 10) @ [digit_char (m mod 10)]"
      using False by (subst decimal.simps) simp
    have "0 < m div 10" using False by simp
    with "1.IH" "1.prems" dec have "case digits_loop (m div 10) ?buf (i - 1) of (buf', i') \<Rightarrow>
      i' = i - 1 - length (decimal (m div 10)) \<and> length buf' = length ?buf \<and>
      drop i' buf' = decimal (m div 10) @ drop (i - 1) ?buf" by simp
    with "1.prems" dec d show ?thesis by (subst digits_loop.simps) auto
  qed
qed

lemma flat_write_u32 [simp]: "flat (write_u32 n) = decimal (unat n)"
proof (cases "n = 0")
  case True
  then show ?thesis by (subst decimal.simps) (simp add: write_u32_def digit_char_0)
next
  case False
  have "unat n < 10 ^ 10" using unat_u32 [of n] by simp
  then have "length (decimal (unat n)) \<le> 10" by (rule length_decimal_le) simp
  with False digits_loop_decimal [of "unat n" 10 "replicate 10 (char_of (0 :: nat))"]
  show ?thesis by (auto simp: write_u32_def unat_gt_0 split: prod.splits)
qed

lemma flat_put_u64 [simp]: "flat (put_u64 n) = decimal (unat n)"
proof (cases "n = 0")
  case True
  then show ?thesis by (subst decimal.simps) (simp add: put_u64_def digit_char_0)
next
  case False
  have "unat n < 10 ^ 20" using unat_u64 [of n] by simp
  then have "length (decimal (unat n)) \<le> 20" by (rule length_decimal_le) simp
  with False digits_loop_decimal [of "unat n" 20 "replicate 20 (char_of (0 :: nat))"]
  show ?thesis by (auto simp: put_u64_def unat_gt_0 split: prod.splits)
qed

lemma flat_put_u32 [simp]: "flat (put_u32 n) = decimal (unat n)"
  by (simp add: put_u32_def)

lemma digit_count_loop_length: "digit_count_loop n d = d + length (decimal n) - 1"
proof (induction n d rule: digit_count_loop.induct)
  case (1 n d)
  have "0 < length (decimal (n div 10))" using decimal_nonempty by simp
  with 1 show ?case
    by (subst digit_count_loop.simps, subst decimal.simps) auto
qed

lemma digit_count_length: "digit_count n = length (decimal (unat n))"
  using digit_count_loop_length [of "unat n" 1] decimal_nonempty [of "unat n"]
  by (simp add: digit_count_def)

subsection \<open>UTF-8 recovery\<close>

text \<open>Byte strings made of sequences of the right shape.\<close>

fun utf8_shape :: "nat \<Rightarrow> string \<Rightarrow> bool" where
  "utf8_shape 0 [] = True"
| "utf8_shape (Suc k) [] = False"
| "utf8_shape 0 (c # s) = (leader_len c > 0 \<and> utf8_shape (leader_len c - 1) s)"
| "utf8_shape (Suc k) (c # s) = (continuation c \<and> utf8_shape k s)"

lemma utf8_shape_append:
  "length s = k \<Longrightarrow> list_all continuation s \<Longrightarrow> utf8_shape k (s @ t) = utf8_shape 0 t"
  by (induction s arbitrary: k) auto

lemma utf8_shape_take: "utf8_shape k s \<Longrightarrow> k \<le> length s \<and> list_all continuation (take k s)"
  by (induction k s rule: utf8_shape.induct) auto

lemma slice_split:
  assumes "slice_ok s i" "i < length s"
  shows "take (leader_len (s ! i)) (drop i s) = s ! i # take (leader_len (s ! i) - 1) (drop (i + 1) s)"
  using assms by (cases "leader_len (s ! i)") (auto simp: slice_ok_def Let_def Cons_nth_drop_Suc [symmetric])

lemma flat_put_u8s_loop:
  "utf8_shape 0 (flat (put_u8s_loop s i)) \<and> length (flat (put_u8s_loop s i)) = length s - i"
proof (induction s i rule: put_u8s_loop.induct)
  case (1 s i)
  let ?n = "leader_len (s ! i)"
  show ?case
  proof (cases "i < length s")
    case True
    show ?thesis
    proof (cases "slice_ok s i")
      case ok: True
      then have n: "0 < ?n" "i + ?n \<le> length s" "list_all continuation (take (?n - 1) (drop (i + 1) s))"
        by (simp_all add: slice_ok_def Let_def)
      then have "length (take (?n - 1) (drop (i + 1) s)) = ?n - 1" by simp
      note app = utf8_shape_append [OF this n(3)]
      have eq: "flat (put_u8s_loop s i) =
          s ! i # take (?n - 1) (drop (i + 1) s) @ flat (put_u8s_loop s (i + ?n))"
        using True ok slice_split [OF ok True] by (subst put_u8s_loop.simps) simp
      show ?thesis using 1(1) [OF True ok] n unfolding eq by (simp add: app [simplified])
    next
      case False
      have "leader_len (CHR ''?'') = 1" by (simp add: leader_len_def byte_of_def)
      with False True 1(2) [OF True False] show ?thesis by (subst put_u8s_loop.simps, subst put_u8s_loop.simps) simp
    qed
  next
    case False
    then show ?thesis by (simp add: put_u8s_loop.simps)
  qed
qed

lemma flat_put_u8s_shape:
  "i \<le> length s \<Longrightarrow> utf8_shape 0 (drop i s) \<Longrightarrow> flat (put_u8s_loop s i) = drop i s"
proof (induction s i rule: put_u8s_loop.induct)
  case (1 s i)
  let ?n = "leader_len (s ! i)"
  show ?case
  proof (cases "i < length s")
    case True
    then have d: "drop i s = s ! i # drop (i + 1) s" by (simp add: Cons_nth_drop_Suc)
    with "1.prems" have n: "?n > 0" and sh: "utf8_shape (?n - 1) (drop (i + 1) s)" by simp_all
    have ok: "slice_ok s i" using utf8_shape_take [OF sh] n True by (auto simp: slice_ok_def Let_def)
    let ?t = "take (?n - 1) (drop (i + 1) s)"
    have split: "drop (i + 1) s = ?t @ drop (i + ?n) s"
      using n append_take_drop_id [of "?n - 1" "drop (i + 1) s"] by (simp add: add.commute)
    have "length ?t = ?n - 1" using utf8_shape_take [OF sh] by simp
    from utf8_shape_append [OF this, of "drop (i + ?n) s"] utf8_shape_take [OF sh]
    have "utf8_shape 0 (drop (i + ?n) s)" using sh split by (metis (no_types))
    moreover have "i + ?n \<le> length s" using ok by (simp add: slice_ok_def Let_def)
    ultimately have "flat (put_u8s_loop s (i + ?n)) = drop (i + ?n) s" using 1(1) [OF True ok] by simp
    then show ?thesis
      using True ok append_take_drop_id [of ?n "drop i s"]
      by (subst put_u8s_loop.simps) (simp add: add.commute)
  next
    case False
    then show ?thesis by (simp add: put_u8s_loop.simps)
  qed
qed

subsection \<open>Properties\<close>

text \<open>\<open>write_u32\<close> and the \<open>Put\<close> of \<open>u64\<close> write the decimal numeral, never past their 10 and
  20 byte buffers, and \<open>digit_count\<close> is the numeral's length, so it is at most 10 for a \<open>u32\<close>.\<close>

theorem decimal_output:
  "flat (write_u32 n) = decimal (unat n) \<and> flat (put_u64 m) = decimal (unat m) \<and>
   digit_count n = length (flat (write_u32 n)) \<and> digit_count n \<le> 10 \<and> length (flat (put_u64 m)) \<le> 20"
proof -
  have "length (decimal (unat n)) \<le> 10" by (rule length_decimal_le) (use unat_u32 [of n] in auto)
  moreover have "length (decimal (unat m)) \<le> 20" by (rule length_decimal_le) (use unat_u64 [of m] in auto)
  ultimately show ?thesis by (simp add: digit_count_length)
qed

text \<open>the \<open>Put\<close> of \<open>[u8]\<close> repairs arbitrary bytes: it writes exactly as many bytes as it is
  given, the result always has the shape of UTF-8 (no lone continuation byte, no truncated
  sequence), and text that has that shape is passed through unchanged.\<close>

theorem put_u8s_recovers:
  "length (flat (put_u8s s)) = length s \<and> utf8_shape 0 (flat (put_u8s s)) \<and>
   (utf8_shape 0 s \<longrightarrow> flat (put_u8s s) = s)"
  using flat_put_u8s_loop [of s 0] flat_put_u8s_shape [of 0 s] by (simp add: put_u8s_def)

theorem put_u8s_recovers_witness:
  "flat (put_u8s [CHR ''a'', CHR 0xC3, CHR 0xA9]) = [CHR ''a'', CHR 0xC3, CHR 0xA9]"
  using put_u8s_recovers [of "[CHR ''a'', CHR 0xC3, CHR 0xA9]"]
  by (simp add: leader_len_def continuation_def byte_of_def)

end
