(* ===== verification/Bytes.thy ===== *)
theory Bytes
  imports Twrite Floats
begin

unbundle bit_operations_syntax

text \<open>
  The byte-slice helpers and number adapters of src/src/bytes.rs: splitting, case-insensitive
  comparison, the name fingerprint, and the padded and one- or two-decimal \<open>Put\<close> adapters.
\<close>

subsection \<open>Slices\<close>

text \<open>\<open>slice::split\<close> of Rust's core library.\<close>

fun split_on :: "(char \<Rightarrow> bool) \<Rightarrow> string \<Rightarrow> string list" where
  "split_on sep [] = [[]]"
| "split_on sep (c # s) =
     (if sep c then [] # split_on sep s
      else case split_on sep s of [] \<Rightarrow> [[c]] | w # ws \<Rightarrow> (c # w) # ws)"

definition is_ascii_whitespace :: "char \<Rightarrow> bool" where
  "is_ascii_whitespace c \<longleftrightarrow>
     c = CHR '' '' \<or> c = CHR 0x09 \<or> c = CHR 0x0A \<or> c = CHR 0x0C \<or> c = CHR 0x0D"

definition split_ascii_whitespace :: "string \<Rightarrow> string list" where
  "split_ascii_whitespace bytes = List.filter (\<lambda>s. s \<noteq> []) (split_on is_ascii_whitespace bytes)"

definition split_lines :: "string \<Rightarrow> string list" where
  "split_lines bytes = split_on (\<lambda>b. b = CHR 0x0A) bytes"

definition to_ascii_lowercase :: "u8 \<Rightarrow> u8" where
  "to_ascii_lowercase b = (if 0x41 \<le> b \<and> b \<le> 0x5A then b OR 0x20 else b)"

definition eq_ignore_ascii_case :: "char \<Rightarrow> char \<Rightarrow> bool" where
  "eq_ignore_ascii_case x y \<longleftrightarrow> to_ascii_lowercase (byte_of x) = to_ascii_lowercase (byte_of y)"

definition ieq :: "string \<Rightarrow> string \<Rightarrow> bool" where
  "ieq a b \<longleftrightarrow> length a = length b \<and> list_all (\<lambda>(x, y). eq_ignore_ascii_case x y) (zip a b)"

definition name_hash :: "string \<Rightarrow> u32" where
  "name_hash s = foldl (\<lambda>h c. (h XOR ucast (byte_of c OR 0x20)) * 0x01000193) 0x811c9dc5 s"

definition has :: "u32 list \<Rightarrow> u32 \<Rightarrow> bool" where
  "has t h \<longleftrightarrow> list_ex (\<lambda>x. x = h) t"

lemma ieq_refl [simp]: "ieq a a"
  by (auto simp: ieq_def eq_ignore_ascii_case_def list_all_iff set_zip)

lemma ieq_sym: "ieq a b \<Longrightarrow> ieq b a"
  by (auto simp: ieq_def eq_ignore_ascii_case_def list_all_length)

lemma lower_or: "to_ascii_lowercase b OR 0x20 = b OR 0x20"
  by (simp add: to_ascii_lowercase_def or.assoc)

lemma eq_ignore_or: "eq_ignore_ascii_case x y \<Longrightarrow> byte_of x OR 0x20 = byte_of y OR 0x20"
  unfolding eq_ignore_ascii_case_def by (metis lower_or)

lemma fold_hash_cong:
  "list_all2 eq_ignore_ascii_case a b \<Longrightarrow>
   foldl (\<lambda>h c. (h XOR ucast (byte_of c OR 0x20)) * 0x01000193) (h :: u32) a =
   foldl (\<lambda>h c. (h XOR ucast (byte_of c OR 0x20)) * 0x01000193) h b"
  by (induction a b arbitrary: h rule: list_all2_induct) (simp_all add: eq_ignore_or)

lemma ieq_list_all2: "ieq a b \<longleftrightarrow> list_all2 eq_ignore_ascii_case a b"
  by (simp add: ieq_def list_all2_iff list_all_iff)

lemma name_hash_ieq: "ieq a b \<Longrightarrow> name_hash a = name_hash b"
  unfolding ieq_list_all2 name_hash_def by (rule fold_hash_cong)

lemma has_iff [simp]: "has t h \<longleftrightarrow> h \<in> set t"
  by (auto simp: has_def list_ex_iff)

subsection \<open>Splitting\<close>

lemma split_on_nonempty [simp]: "split_on sep s \<noteq> []"
  by (induction s) (auto split: list.split)

lemma split_on_no_sep: "w \<in> set (split_on sep s) \<Longrightarrow> c \<in> set w \<Longrightarrow> \<not> sep c"
proof (induction s arbitrary: w)
  case (Cons a s)
  then show ?case by (cases "split_on sep s") (fastforce split: if_splits)+
qed simp

lemma split_on_word: "(\<And>c. c \<in> set w \<Longrightarrow> \<not> sep c) \<Longrightarrow> split_on sep w = [w]"
  by (induction w) auto

lemma split_on_append_sep:
  "sep c \<Longrightarrow> (\<And>c. c \<in> set w \<Longrightarrow> \<not> sep c) \<Longrightarrow> split_on sep (w @ c # s) = w # split_on sep s"
  by (induction w) auto

lemma split_ascii_whitespace_word:
  "w \<in> set (split_ascii_whitespace s) \<Longrightarrow> w \<noteq> [] \<and> (\<forall>c \<in> set w. \<not> is_ascii_whitespace c)"
  by (auto simp: split_ascii_whitespace_def dest: split_on_no_sep)

lemma split_ascii_whitespace_Cons:
  assumes "w \<noteq> []" "\<forall>c \<in> set w. \<not> is_ascii_whitespace c" "is_ascii_whitespace c"
  shows "split_ascii_whitespace (w @ c # s) = w # split_ascii_whitespace s"
  using assms by (simp add: split_ascii_whitespace_def split_on_append_sep)

lemma split_ascii_whitespace_single:
  "w \<noteq> [] \<Longrightarrow> \<forall>c \<in> set w. \<not> is_ascii_whitespace c \<Longrightarrow> split_ascii_whitespace w = [w]"
  by (simp add: split_ascii_whitespace_def split_on_word)

lemma split_ascii_whitespace_sep [simp]:
  "is_ascii_whitespace c \<Longrightarrow> split_ascii_whitespace (c # s) = split_ascii_whitespace s"
  by (simp add: split_ascii_whitespace_def)

text \<open>Words joined by single spaces come apart into the same words.\<close>

fun join_sp :: "string list \<Rightarrow> string" where
  "join_sp [] = []"
| "join_sp [w] = w"
| "join_sp (w # ws) = w @ CHR '' '' # join_sp ws"

lemma split_join_sp:
  "list_all (\<lambda>w. w \<noteq> [] \<and> (\<forall>c \<in> set w. \<not> is_ascii_whitespace c)) ws \<Longrightarrow>
   split_ascii_whitespace (join_sp ws) = ws"
proof (induction ws rule: join_sp.induct)
  case 1
  then show ?case by (simp add: split_ascii_whitespace_def)
next
  case (3 w v ws)
  have "is_ascii_whitespace (CHR '' '')" by (simp add: is_ascii_whitespace_def)
  with 3 show ?case by (simp add: split_ascii_whitespace_Cons)
qed (simp add: split_ascii_whitespace_single)

subsection \<open>Numbers in a field\<close>

text \<open>\<open>for _ in digit_count(n)..width { w.put_byte(c) }\<close>.\<close>

definition pad_bytes :: "char \<Rightarrow> u32 \<Rightarrow> nat \<Rightarrow> wcall list" where
  "pad_bytes c n width = List.map (\<lambda>_. PutByte c) [digit_count n ..< width]"

definition put_u32d :: "u32 \<Rightarrow> wcall list" where "put_u32d n = write_u32 n"

definition pad_right :: "u32 \<Rightarrow> nat \<Rightarrow> wcall list" where
  "pad_right n width = pad_bytes (CHR '' '') n width @ write_u32 n"

definition pad_left :: "u32 \<Rightarrow> nat \<Rightarrow> wcall list" where
  "pad_left n width = write_u32 n @ pad_bytes (CHR '' '') n width"

definition pad_zero :: "u32 \<Rightarrow> nat \<Rightarrow> wcall list" where
  "pad_zero n width = pad_bytes (CHR ''0'') n width @ write_u32 n"

text \<open>\<open>X.Y\<close> in \<open>width\<close> bytes, and \<open>X.YZ\<close>; the integer part goes through \<open>as u64\<close> (saturating)
  and \<open>as u32\<close> (truncating).\<close>

definition f1_wide :: "f64 \<Rightarrow> nat \<Rightarrow> wcall list" where
  "f1_wide x width =
     (let tenths = float_as_nat 64 (f64_add (f64_mul x 10) (1 / 2));
          int_w = width - 2
      in pad_right (of_nat (tenths div 10)) int_w @ [PutByte (CHR ''.'')] @ put_u32d (of_nat (tenths mod 10)))"

definition f2 :: "f64 \<Rightarrow> wcall list" where
  "f2 x =
     (let h = float_as_nat 64 (f64_add (f64_mul x 100) (1 / 2))
      in put_u32d (of_nat (h div 100)) @ [PutByte (CHR ''.'')] @ pad_zero (of_nat (h mod 100)) 2)"

definition repeat_char :: "nat \<Rightarrow> nat \<Rightarrow> wcall list" where
  "repeat_char c n = (let s = encode_utf8 c in replicate n (PutBytes s))"

lemma flat_pad_bytes [simp]: "flat (pad_bytes c n width) = replicate (width - digit_count n) c"
proof -
  have "concat (List.map (wcall_bytes \<circ> (\<lambda>_. PutByte c)) [i ..< j]) = replicate (j - i) c" for i j
    by (induction j) (auto simp: replicate_append_same Suc_diff_le simp flip: replicate_Suc)
  then show ?thesis by (simp add: pad_bytes_def flat_def)
qed

lemma digit_count_pos [simp]: "0 < digit_count n"
  by (simp add: digit_count_length decimal_nonempty)

lemma length_pads:
  "length (flat (pad_right n width)) = max width (digit_count n)"
  "length (flat (pad_left n width)) = max width (digit_count n)"
  "length (flat (pad_zero n width)) = max width (digit_count n)"
  by (simp_all add: pad_right_def pad_left_def pad_zero_def digit_count_length max_def)

lemma digit_count_le: "unat n < 10 ^ k \<Longrightarrow> 0 < k \<Longrightarrow> digit_count n \<le> k"
  by (simp add: digit_count_length length_decimal_le)

lemma unat_of_nat_u32: "n < 4294967296 \<Longrightarrow> unat (of_nat n :: u32) = n"
  by (simp add: unat_of_nat)

lemma f1_wide_length:
  assumes "float_as_nat 64 (f64_add (f64_mul x 10) (1 / 2)) div 10 < 10 ^ (width - 2)" "2 < width" "width \<le> 11"
  shows "length (flat (f1_wide x width)) = width"
proof -
  let ?t = "float_as_nat 64 (f64_add (f64_mul x 10) (1 / 2))"
  have "(10 :: nat) ^ (width - 2) \<le> 10 ^ 9" using assms(3) by (intro power_increasing) auto
  with assms(1) have u: "unat (of_nat (?t div 10) :: u32) = ?t div 10" by (intro unat_of_nat_u32) simp
  have v: "unat (of_nat (?t mod 10) :: u32) = ?t mod 10" by (intro unat_of_nat_u32) (simp add: order_less_trans [of _ 10])
  have "digit_count (of_nat (?t div 10)) \<le> width - 2"
    using assms u by (intro digit_count_le) auto
  moreover have "length (decimal (?t mod 10)) = 1" by (subst decimal.simps) simp
  ultimately show ?thesis
    using assms(2) v by (simp add: f1_wide_def Let_def length_pads put_u32d_def)
qed

lemma flat_repeat_char [simp]: "flat (repeat_char c n) = concat (replicate n (encode_utf8 c))"
  by (simp add: repeat_char_def flat_def Let_def)

subsection \<open>Properties\<close>

text \<open>the name fingerprint folds ASCII case: names equal up to case have the same \<open>name_hash\<close>,
  so the table test \<open>has\<close> never misses a listed name in another case.\<close>

theorem name_hash_case_insensitive:
  "ieq a b \<Longrightarrow> name_hash a = name_hash b \<and> (b \<in> set names \<longrightarrow> has (List.map name_hash names) (name_hash a))"
  using name_hash_ieq [of a b] by auto

theorem name_hash_case_insensitive_witness: "has (List.map name_hash [''finder'', ''dock'']) (name_hash ''FindeR'')"
proof -
  have "ieq ''FindeR'' ''finder''"
    by (simp add: ieq_def eq_ignore_ascii_case_def to_ascii_lowercase_def byte_of_def)
  from name_hash_case_insensitive [OF this, of "[''finder'', ''dock'']"] show ?thesis by simp
qed

text \<open>a padded number fills its field exactly unless it has more digits than the field, and the
  one-decimal adapter \<open>f1_wide\<close> fills exactly \<open>width\<close> bytes whenever the rounded integer part
  fits \<open>width - 2\<close> digits.\<close>

theorem pad_fills_field:
  "length (flat (pad_right n width)) = max width (digit_count n) \<and>
   length (flat (pad_left n width)) = max width (digit_count n) \<and>
   length (flat (pad_zero n width)) = max width (digit_count n) \<and>
   (float_as_nat 64 (f64_add (f64_mul x 10) (1 / 2)) div 10 < 10 ^ (width - 2) \<and> 2 < width \<and> width \<le> 11 \<longrightarrow>
     length (flat (f1_wide x width)) = width)"
  using f1_wide_length [of x width] by (simp add: length_pads)

theorem pad_fills_field_witness: "length (flat (f1_wide 3 5)) = 5"
proof -
  have "f64_mul 3 10 = 30"
    unfolding f64_mul_def by (subst to_f64_exact [where m = 30 and k = 0]) auto
  moreover have "f64_add 30 (1 / 2) = 61 / 2"
    unfolding f64_add_def by (subst to_f64_exact [where m = 61 and k = "- 1"]) (auto simp: power_int_minus)
  moreover have "\<lfloor>61 / 2 :: rat\<rfloor> = 30" by (simp add: floor_eq_iff)
  ultimately have "float_as_nat 64 (f64_add (f64_mul 3 10) (1 / 2)) div 10 < 10 ^ (5 - 2)"
    by (simp only: float_as_nat_def) simp
  then show ?thesis using pad_fills_field [of 0 5 3] by simp
qed

end
