(* ===== verification/Tree.thy ===== *)
theory Tree
  imports Proc Bytes
begin

unbundle bit_operations_syntax

text \<open>
  The display tree of src/src/main.rs: the pid index, the children adjacency, the iterative
  depth-first walk that lays the rows out, and the box-drawing prefix of a row. A position in the
  process list, stored there as \<open>u32\<close>, is a \<open>nat\<close>: the list has far fewer than \<open>2 ^ 32\<close> entries.
\<close>

datatype layout_panic = VecPanic fvec_panic | NestPanic nest_panic | BucketPanic nat

subsection \<open>Indent\<close>

record indent =
  depth :: u8
  mask :: u32

definition is_root :: "indent \<Rightarrow> bool" where "is_root ind \<longleftrightarrow> depth ind = 0"

definition render_depth :: "indent \<Rightarrow> nat" where "render_depth ind = min (unat (depth ind)) 32"

definition indent_width :: "indent \<Rightarrow> nat" where "indent_width ind = render_depth ind * 2"

text \<open>The UTF-8 bytes of the glyphs: a bar and a space, a last corner, an inner branch.\<close>

definition bar_sp :: string where "bar_sp = [CHR 0xE2, CHR 0x94, CHR 0x82, CHR '' '']"
definition corner :: string where "corner = [CHR 0xE2, CHR 0x94, CHR 0x94, CHR 0xE2, CHR 0x94, CHR 0x80]"
definition branch :: string where "branch = [CHR 0xE2, CHR 0x94, CHR 0x9C, CHR 0xE2, CHR 0x94, CHR 0x80]"

definition put_indent :: "indent \<Rightarrow> wcall list" where
  "put_indent ind =
     (let d = render_depth ind in
      if d = 0 then []
      else List.map (\<lambda>i. PutBytes (if bit (mask ind) i then ''  '' else bar_sp)) [0 ..< d - 1] @
           [PutBytes (if bit (mask ind) (d - 1) then corner else branch)])"

subsection \<open>Index and adjacency\<close>

definition build_pid_to_idx :: "proc_info list \<Rightarrow> layout_panic + (u32 \<times> nat) list" where
  "build_pid_to_idx procs =
     (case fvec_extend (fvec_new (length procs)) (List.map (\<lambda>i. (pid (procs ! i), i)) [0 ..< length procs]) of
        Inl e \<Rightarrow> Inl (VecPanic e)
      | Inr buf \<Rightarrow> Inr (freeze_map_owned (\<lambda>a b. a) (fv_elems buf)))"

definition child_edges :: "proc_info list \<Rightarrow> (u32 \<times> nat) list \<Rightarrow> (nat \<times> nat) list" where
  "child_edges procs pid_to_idx =
     List.map_filter (\<lambda>i. map_option (\<lambda>pa. (pa, i)) (map_get pid_to_idx (ppid (procs ! i)))) [0 ..< length procs]"

definition build_children :: "proc_info list \<Rightarrow> (u32 \<times> nat) list \<Rightarrow> layout_panic + nat fnest" where
  "build_children procs pid_to_idx =
     (case nest_u32 (length procs) (child_edges procs pid_to_idx) of
        Inl e \<Rightarrow> Inl (NestPanic e) | Inr nst \<Rightarrow> Inr nst)"

subsection \<open>The walk\<close>

type_synonym work = "nat \<times> u8 \<times> u32 \<times> bool"
type_synonym row = "indent \<times> nat"

definition walk_mask :: "u8 \<Rightarrow> u32 \<Rightarrow> bool \<Rightarrow> u32" where
  "walk_mask d parent_mask is_last =
     (if 0 < d \<and> d \<le> 32 \<and> is_last then parent_mask OR push_bit (unat (d - 1)) 1 else parent_mask)"

definition saturating_inc :: "u8 \<Rightarrow> u8" where
  "saturating_inc d = (if d = 255 then 255 else d + 1)"

text \<open>\<open>for (i, &kid) in kids.iter().enumerate().rev()\<close>.\<close>

definition push_kids :: "nat list \<Rightarrow> u8 \<Rightarrow> u32 \<Rightarrow> work fvec \<Rightarrow> work fvec" where
  "push_kids kids d m stack =
     (let last_i = length kids - 1
      in foldl (\<lambda>st i. fvec_push_ignore st (kids ! i, saturating_inc d, m, i = last_i)) stack
           (rev [0 ..< length kids]))"

text \<open>\<open>while let Some(..) = stack.pop()\<close>; not returning is \<open>None\<close>.\<close>

partial_function (option) tree_walk_loop ::
  "nat fnest \<Rightarrow> row fvec \<Rightarrow> work fvec \<Rightarrow> (layout_panic + row fvec \<times> work fvec) option" where
  "tree_walk_loop children out stack =
     (case fvec_pop stack of
        None \<Rightarrow> Some (Inr (out, stack))
      | Some ((idx, d, parent_mask, is_last), stack1) \<Rightarrow>
          let m = walk_mask d parent_mask is_last;
              out1 = fvec_push_ignore out (\<lparr>depth = d, mask = m\<rparr>, idx)
          in case fnest_bucket children idx of
               None \<Rightarrow> Some (Inl (BucketPanic idx))
             | Some kids \<Rightarrow> tree_walk_loop children out1 (push_kids kids d m stack1))"

definition tree_walk ::
  "nat fnest \<Rightarrow> nat \<Rightarrow> row fvec \<Rightarrow> work fvec \<Rightarrow> (layout_panic + row fvec \<times> work fvec) option" where
  "tree_walk children root_idx out stack =
     tree_walk_loop children out (fvec_push_ignore (fvec_clear stack) (root_idx, 0, 0, True))"

fun walk_roots ::
  "proc_info list \<Rightarrow> (u32 \<times> nat) list \<Rightarrow> nat fnest \<Rightarrow> nat list \<Rightarrow> row fvec \<Rightarrow> work fvec \<Rightarrow>
   (layout_panic + row fvec \<times> work fvec) option" where
  "walk_roots procs pid_to_idx children [] out stack = Some (Inr (out, stack))"
| "walk_roots procs pid_to_idx children (i # is) out stack =
     (if map_get pid_to_idx (ppid (procs ! i)) = None then
        (case tree_walk children i out stack of
           Some (Inr (out1, stack1)) \<Rightarrow> walk_roots procs pid_to_idx children is out1 stack1
         | Some (Inl e) \<Rightarrow> Some (Inl e)
         | None \<Rightarrow> None)
      else walk_roots procs pid_to_idx children is out stack)"

definition tree_layout :: "proc_info list \<Rightarrow> (layout_panic + row list) option" where
  "tree_layout procs =
     (let n = length procs in
      case build_pid_to_idx procs of
        Inl e \<Rightarrow> Some (Inl e)
      | Inr pid_to_idx \<Rightarrow>
          (case build_children procs pid_to_idx of
             Inl e \<Rightarrow> Some (Inl e)
           | Inr children \<Rightarrow>
               (case walk_roots procs pid_to_idx children [0 ..< n] (fvec_new n) (fvec_new n) of
                  Some (Inr (result, _)) \<Rightarrow> Some (Inr (fv_elems result))
                | Some (Inl e) \<Rightarrow> Some (Inl e)
                | None \<Rightarrow> None)))"

subsection \<open>The parent relation of a process list\<close>

definition parent_of :: "proc_info list \<Rightarrow> nat \<Rightarrow> nat option" where
  "parent_of procs i = List.find (\<lambda>j. pid (procs ! j) = ppid (procs ! i)) [0 ..< length procs]"

definition kids_of :: "proc_info list \<Rightarrow> nat \<Rightarrow> nat list" where
  "kids_of procs i = List.filter (\<lambda>j. parent_of procs j = Some i) [0 ..< length procs]"

definition pids_distinct :: "proc_info list \<Rightarrow> bool" where
  "pids_distinct procs \<longleftrightarrow> distinct (List.map pid procs)"

lemma parent_of_less: "parent_of procs i = Some j \<Longrightarrow> j < length procs \<and> pid (procs ! j) = ppid (procs ! i)"
  by (auto simp: parent_of_def find_Some_iff)

lemma map_of_positions: "map_of (List.map (\<lambda>i. (k i, i)) js) q = List.find (\<lambda>j. k j = q) js"
  by (induction js) auto

lemma build_pid_to_idx_get:
  assumes "pids_distinct procs"
  shows "\<exists>m. build_pid_to_idx procs = Inr m \<and> (\<forall>q. map_get m q = List.find (\<lambda>j. pid (procs ! j) = q) [0 ..< length procs])"
proof -
  let ?es = "List.map (\<lambda>i. (pid (procs ! i), i)) [0 ..< length procs]"
  have "List.map fst ?es = List.map pid procs" by (intro nth_equalityI) auto
  then have "distinct (List.map fst ?es)" using assms by (simp add: pids_distinct_def)
  then have "map_get (freeze_map_owned (\<lambda>a b. a) ?es) q = map_of ?es q" for q
    by (rule pid_index.get_freeze)
  moreover have "build_pid_to_idx procs = Inr (freeze_map_owned (\<lambda>a b. a) ?es)"
    by (simp add: build_pid_to_idx_def fvec_extend_eq fvec_wf_def fvec_new_def)
  ultimately show ?thesis by (simp add: map_of_positions)
qed

lemma build_children_bucket:
  assumes m: "\<forall>q. map_get m q = List.find (\<lambda>j. pid (procs ! j) = q) [0 ..< length procs]"
  shows "\<exists>nst. build_children procs m = Inr nst \<and> (\<forall>b < length procs. fnest_bucket nst b = Some (kids_of procs b))"
proof -
  have par: "map_get m (ppid (procs ! i)) = parent_of procs i" for i by (simp add: m parent_of_def)
  have "\<forall>(b, v) \<in> set (child_edges procs m). b < length procs"
    by (auto simp: child_edges_def map_filter_def par dest: parent_of_less)
  then obtain nst where nst: "nest_u32 (length procs) (child_edges procs m) = Inr nst"
    "\<forall>b < length procs. fnest_bucket nst b = Some (bucket_items (child_edges procs m) b)"
    using csr.build_bucket by blast
  have "bucket_items (List.map_filter (\<lambda>i. map_option (\<lambda>pa. (pa, i)) (parent_of procs i)) is) b =
      List.filter (\<lambda>j. parent_of procs j = Some b) is" for "is" b
    by (induction "is") (auto simp: bucket_items_def map_filter_simps split: option.split)
  with nst show ?thesis by (simp add: build_children_def child_edges_def par kids_of_def)
qed

text \<open>Ancestors.\<close>

fun anc :: "proc_info list \<Rightarrow> nat \<Rightarrow> nat \<Rightarrow> nat option" where
  "anc procs 0 i = Some i"
| "anc procs (Suc k) i = (case parent_of procs i of None \<Rightarrow> None | Some p \<Rightarrow> anc procs k p)"

definition rooted :: "proc_info list \<Rightarrow> nat \<Rightarrow> bool" where
  "rooted procs i \<longleftrightarrow> (\<exists>k r. anc procs k i = Some r \<and> parent_of procs r = None)"

lemma anc_add: "anc procs (a + b) i = Option.bind (anc procs a i) (anc procs b)"
  by (induction a arbitrary: i) (auto split: option.split)

lemma anc_less: "i < length procs \<Longrightarrow> anc procs k i = Some r \<Longrightarrow> r < length procs"
  by (induction k arbitrary: i) (auto split: option.splits dest: parent_of_less)

lemma anc_root_inj:
  assumes "anc procs k i = Some r" "parent_of procs r = None" "a < b" "b \<le> k"
  shows "anc procs a i \<noteq> anc procs b i"
proof
  assume eq: "anc procs a i = anc procs b i"
  have "anc procs (a + (k - b)) i = anc procs (b + (k - b)) i" by (simp only: anc_add eq)
  with assms have "anc procs (a + (k - b)) i = Some r" by simp
  moreover have "k = (a + (k - b)) + Suc (b - a - 1)" using assms(3,4) by simp
  ultimately have "anc procs k i = None" using assms(2) by (metis anc_add anc.simps(2) bind.bind_lunit option.simps(4))
  with assms(1) show False by simp
qed

lemma anc_root_bound:
  assumes "anc procs k i = Some r" "parent_of procs r = None" "i < length procs"
  shows "k < length procs"
proof -
  have def: "\<exists>x. anc procs a i = Some x" if "a \<le> k" for a
    using that assms(1) anc_add [of procs a "k - a" i] by (cases "anc procs a i") auto
  have "inj_on (\<lambda>a. the (anc procs a i)) {..k}"
  proof (rule inj_onI)
    fix a b assume ab: "a \<in> {..k}" "b \<in> {..k}" "the (anc procs a i) = the (anc procs b i)"
    then have "anc procs a i = anc procs b i" using def [of a] def [of b] by auto
    with ab anc_root_inj [OF assms(1,2), of a b] anc_root_inj [OF assms(1,2), of b a] show "a = b"
      by (cases a b rule: linorder_cases) auto
  qed
  moreover have "(\<lambda>a. the (anc procs a i)) ` {..k} \<subseteq> {..< length procs}"
    using def anc_less [OF assms(3)] by force
  ultimately have "card {..k} \<le> card {..< length procs}" by (intro card_inj_on_le) auto
  then show ?thesis by simp
qed

lemma anc_Suc: "anc procs (Suc k) i = Option.bind (anc procs k i) (parent_of procs)"
  using anc_add [of procs k 1 i] by (cases "anc procs k i") (auto split: option.split)

lemma rooted_no_cycle:
  assumes "rooted procs i"
  shows "anc procs (Suc d) i \<noteq> Some i"
proof
  assume cyc: "anc procs (Suc d) i = Some i"
  from assms obtain k r where r: "anc procs k i = Some r" "parent_of procs r = None"
    by (auto simp: rooted_def)
  show False
  proof (cases "Suc d \<le> k")
    case True
    with anc_root_inj [OF r, of 0 "Suc d"] cyc show False by simp
  next
    case False
    then have "anc procs (Suc d) i = anc procs (Suc (d - k)) r"
      using anc_add [of procs k "Suc d - k" i] r by (simp add: Suc_diff_le)
    with r(2) cyc show False by simp
  qed
qed

lemma rooted_up: "rooted procs x \<Longrightarrow> anc procs k x = Some i \<Longrightarrow> rooted procs i"
proof -
  assume "rooted procs x" and k: "anc procs k x = Some i"
  then obtain m r where r: "anc procs m x = Some r" "parent_of procs r = None" by (auto simp: rooted_def)
  have "k \<le> m"
  proof (rule ccontr)
    assume "\<not> k \<le> m"
    then have "anc procs k x = anc procs (Suc (k - m - 1)) r"
      using anc_add [of procs m "k - m" x] r by (simp del: anc.simps add: Suc_diff_Suc)
    with k r show False by simp
  qed
  with r k anc_add [of procs k "m - k" x] have "anc procs (m - k) i = Some r" by simp
  with r(2) show ?thesis unfolding rooted_def by blast
qed

lemma rooted_down: "anc procs k x = Some i \<Longrightarrow> rooted procs i \<Longrightarrow> rooted procs x"
proof -
  assume k: "anc procs k x = Some i" and "rooted procs i"
  then obtain m r where r: "anc procs m i = Some r" "parent_of procs r = None" by (auto simp: rooted_def)
  then have "anc procs (k + m) x = Some r" using k by (simp add: anc_add)
  with r show ?thesis unfolding rooted_def by blast
qed

lemma anc_unique:
  assumes "rooted procs i" "anc procs a x = Some i" "anc procs b x = Some i"
  shows "a = b"
proof -
  have "\<not> c < e" if "anc procs c x = Some i" "anc procs e x = Some i" for c e
  proof
    assume "c < e"
    then have "anc procs e x = anc procs (Suc (e - c - 1)) i"
      using anc_add [of procs c "e - c" x] that by (simp del: anc.simps add: Suc_diff_Suc)
    with that rooted_no_cycle [OF assms(1)] show False by metis
  qed
  with assms show ?thesis by (meson linorder_neqE_nat)
qed

subsection \<open>The recursive visit\<close>

datatype rtree = RNode (top: nat) (subtrees: "rtree list")

inductive tree_of :: "proc_info list \<Rightarrow> nat \<Rightarrow> rtree \<Rightarrow> bool" for procs where
  tree_ofI: "list_all2 (tree_of procs) (kids_of procs i) ts \<Longrightarrow> tree_of procs i (RNode i ts)"
monos list_all2_mono

inductive_cases tree_ofE: "tree_of procs i t"
inductive_simps tree_of_RNode: "tree_of procs i (RNode j ts)"

fun nodes :: "rtree \<Rightarrow> nat list" where
  "nodes (RNode i ts) = i # concat (List.map nodes ts)"

text \<open>A row of the recursive visit: for each level below the root whether the node on the path is
  the last of its siblings, and the position.\<close>

fun visit :: "bool list \<Rightarrow> rtree \<Rightarrow> (bool list \<times> nat) list"
  and visits :: "bool list \<Rightarrow> rtree list \<Rightarrow> (bool list \<times> nat) list" where
  "visit fl (RNode i ts) = (fl, i) # visits fl ts"
| "visits fl [] = []"
| "visits fl (t # ts) = visit (fl @ [ts = []]) t @ visits fl ts"

definition indent_of :: "bool list \<Rightarrow> indent" where
  "indent_of fl = \<lparr>depth = of_nat (min 255 (length fl)), mask = horner_sum of_bool 2 (take 32 fl)\<rparr>"

definition to_row :: "bool list \<times> nat \<Rightarrow> row" where "to_row r = (indent_of (fst r), snd r)"

lemma map_snd_visit: "List.map snd (visit fl t) = nodes t" "List.map snd (visits fl ts) = concat (List.map nodes ts)"
  by (induction fl t and fl ts rule: visit_visits.induct) simp_all

lemma nodes_root: "nodes t = top t # concat (List.map nodes (subtrees t))"
  by (cases t) simp

lemma root_in_nodes: "top t \<in> set (nodes t)"
  by (cases t) simp

lemma length_nodes_ge: "length ts \<le> length (concat (List.map nodes ts))"
proof (induction ts)
  case (Cons t ts)
  then show ?case by (simp add: nodes_root [of t])
qed simp

lemma tree_of_root: "tree_of procs i t \<Longrightarrow> top t = i"
  by (auto elim: tree_ofE)

lemma kids_of_iff: "c \<in> set (kids_of procs i) \<longleftrightarrow> c < length procs \<and> parent_of procs c = Some i"
  by (auto simp: kids_of_def)

lemma distinct_kids_of [simp]: "distinct (kids_of procs i)"
  by (simp add: kids_of_def)

lemma nodes_iff:
  "tree_of procs i t \<Longrightarrow> i < length procs \<Longrightarrow>
   x \<in> set (nodes t) \<longleftrightarrow> x < length procs \<and> (\<exists>k. anc procs k x = Some i)"
proof (induction rule: tree_of.induct)
  case (tree_ofI i ts)
  let ?in = "\<lambda>c. x < length procs \<and> (\<exists>k. anc procs k x = Some c)"
  have sub: "(\<exists>t \<in> set ts. x \<in> set (nodes t)) \<longleftrightarrow> (\<exists>c \<in> set (kids_of procs i). ?in c)"
    by (rule list_all2_bex [OF tree_ofI.IH, symmetric]) (simp add: kids_of_iff)
  have step: "(\<exists>c \<in> set (kids_of procs i). ?in c) \<longleftrightarrow> x < length procs \<and> (\<exists>k. anc procs (Suc k) x = Some i)"
    unfolding anc_Suc bind_eq_Some_conv Bex_def kids_of_iff
    by (auto simp del: anc.simps dest: anc_less)
  have "(\<exists>k. anc procs k x = Some i) \<longleftrightarrow> x = i \<or> (\<exists>k. anc procs (Suc k) x = Some i)"
    by (metis anc.simps(1) not0_implies_Suc option.inject)
  moreover have "x \<in> set (nodes (RNode i ts)) \<longleftrightarrow> x = i \<or> (\<exists>t \<in> set ts. x \<in> set (nodes t))" by simp
  ultimately show ?case using tree_ofI.prems unfolding sub step by blast
qed

lemma distinct_concat_map_nodes:
  assumes "list_all2 (tree_of procs) is ts" "distinct is" "\<forall>i \<in> set is. i < length procs"
    and "\<forall>t \<in> set ts. distinct (nodes t)"
    and "\<And>x a b i j. i \<in> set is \<Longrightarrow> j \<in> set is \<Longrightarrow> anc procs a x = Some i \<Longrightarrow> anc procs b x = Some j \<Longrightarrow> i = j"
  shows "distinct (concat (List.map nodes ts))"
  using assms
proof (induction "is" ts rule: list_all2_induct)
  case (Cons i "is" t ts)
  have ts: "x < length procs \<and> (\<exists>j \<in> set is. \<exists>k. anc procs k x = Some j)"
    if "x \<in> set (concat (List.map nodes ts))" for x
  proof -
    from that obtain t where t: "t \<in> set ts" "x \<in> set (nodes t)" by auto
    with list_all2_in2 [OF Cons.hyps(2)] obtain j where "j \<in> set is" "tree_of procs j t" by blast
    with t Cons.prems(2) show ?thesis by (auto simp: nodes_iff)
  qed
  have "set (nodes t) \<inter> set (concat (List.map nodes ts)) = {}"
  proof (rule ccontr)
    assume "set (nodes t) \<inter> set (concat (List.map nodes ts)) \<noteq> {}"
    then obtain x where x: "x \<in> set (nodes t)" "x \<in> set (concat (List.map nodes ts))" by blast
    from x(1) obtain a where "anc procs a x = Some i" using Cons.hyps(1) Cons.prems(2) by (auto simp: nodes_iff)
    moreover from ts [OF x(2)] obtain j b where "j \<in> set is" "anc procs b x = Some j" by blast
    ultimately show False using Cons.prems(1) Cons.prems(4) [of i j a x b] by auto
  qed
  moreover have "distinct (concat (List.map nodes ts))" using Cons.prems by (intro Cons.IH) auto
  ultimately show ?case using Cons.prems(3) by auto
qed simp

lemma distinct_nodes: "tree_of procs i t \<Longrightarrow> i < length procs \<Longrightarrow> rooted procs i \<Longrightarrow> distinct (nodes t)"
proof (induction rule: tree_of.induct)
  case (tree_ofI i ts)
  let ?sub = "concat (List.map nodes ts)"
  have kid: "\<forall>c \<in> set (kids_of procs i). c < length procs \<and> anc procs 1 c = Some i"
    by (auto simp: kids_of_iff)
  have rk: "\<forall>c \<in> set (kids_of procs i). rooted procs c"
    using kid rooted_down [OF _ tree_ofI.prems(2)] by blast
  have trees: "list_all2 (tree_of procs) (kids_of procs i) ts"
    using tree_ofI.IH by (rule list_all2_mono) blast
  have up: "anc procs (Suc a) x = Some i" if "c \<in> set (kids_of procs i)" "anc procs a x = Some c" for a x c
    using that by (simp add: anc_Suc kids_of_iff del: anc.simps)
  have "distinct ?sub"
  proof (rule distinct_concat_map_nodes [OF trees])
    show "\<forall>t \<in> set ts. distinct (nodes t)"
      using list_all2_in2 [OF tree_ofI.IH] kid rk by blast
    fix x a b c d
    assume "c \<in> set (kids_of procs i)" "d \<in> set (kids_of procs i)" and ab: "anc procs a x = Some c" "anc procs b x = Some d"
    then have "Suc a = Suc b" by (intro anc_unique [OF tree_ofI.prems(2), of _ x] up)
    with ab show "c = d" by simp
  qed (use kid in auto)
  moreover have "i \<notin> set ?sub"
  proof
    assume "i \<in> set ?sub"
    then obtain t where t: "t \<in> set ts" "i \<in> set (nodes t)" by auto
    with list_all2_in2 [OF trees] obtain c where c: "c \<in> set (kids_of procs i)" "tree_of procs c t" by blast
    with t kid obtain k where "anc procs k i = Some c" by (auto simp: nodes_iff)
    with c(1) have "anc procs (Suc k) i = Some i" by (intro up)
    with rooted_no_cycle [OF tree_ofI.prems(2)] show False by blast
  qed
  ultimately show ?case by simp
qed

lemma tree_of_exists:
  assumes "anc procs k j = Some r" "parent_of procs r = None" "j < length procs"
  shows "\<exists>t. tree_of procs j t"
  using assms
proof (induction "length procs - k" arbitrary: j k rule: less_induct)
  case less
  have "\<forall>c \<in> set (kids_of procs j). \<exists>t. tree_of procs c t"
  proof
    fix c assume c: "c \<in> set (kids_of procs j)"
    then have k: "anc procs (Suc k) c = Some r" using less.prems by (simp add: kids_of_iff)
    moreover have "Suc k < length procs" using anc_root_bound [OF k] less.prems c by (simp add: kids_of_iff)
    ultimately show "\<exists>t. tree_of procs c t" using c less.prems by (intro less.hyps [of "Suc k"]) (auto simp: kids_of_iff)
  qed
  then obtain f where "\<forall>c \<in> set (kids_of procs j). tree_of procs c (f c)" by metis
  then have "list_all2 (tree_of procs) (kids_of procs j) (List.map f (kids_of procs j))"
    by (simp add: list_all2_conv_all_nth)
  then show ?case by (blast intro: tree_ofI)
qed

subsection \<open>The loop does the visit\<close>

lemma indent_of_snoc:
  "depth (indent_of (fl @ [l])) = saturating_inc (depth (indent_of fl))"
  "walk_mask (depth (indent_of (fl @ [l]))) (mask (indent_of fl)) l = mask (indent_of (fl @ [l]))"
proof -
  let ?n = "length fl"
  have u: "unat (of_nat (min 255 m) :: u8) = min 255 m" for m :: nat
    by (simp add: unat_of_nat)
  show "depth (indent_of (fl @ [l])) = saturating_inc (depth (indent_of fl))"
  proof (cases "?n < 255")
    case True
    then have "(of_nat ?n :: u8) \<noteq> 255" using arg_cong [of "of_nat ?n :: u8" 255 unat] u [of ?n] by auto
    with True show ?thesis by (simp add: indent_of_def saturating_inc_def min.absorb2)
  qed (simp add: indent_of_def saturating_inc_def)
  show "walk_mask (depth (indent_of (fl @ [l]))) (mask (indent_of fl)) l = mask (indent_of (fl @ [l]))"
  proof (cases "?n < 32")
    case True
    have d: "depth (indent_of (fl @ [l])) = of_nat (Suc ?n)" using True by (simp add: indent_of_def)
    have du: "unat (of_nat (Suc ?n) :: u8) = Suc ?n" "unat (of_nat ?n :: u8) = ?n"
      using True by (simp_all del: of_nat_Suc add: unat_of_nat)
    then have "(0 :: u8) < of_nat (Suc ?n)" "(of_nat (Suc ?n) :: u8) \<le> 32" "unat ((of_nat (Suc ?n) :: u8) - 1) = ?n"
      using True by (simp_all add: word_less_nat_alt word_le_nat_alt)
    then show ?thesis
      unfolding d using True
      by (intro bit_word_eqI) (auto simp: walk_mask_def indent_of_def bit_horner_sum_bit_iff bit_simps nth_append
          bit_horner_sum_bit_word_iff less_Suc_eq)
  next
    case False
    then have "32 < unat (depth (indent_of (fl @ [l])))" using u [of "Suc ?n"] by (simp add: indent_of_def)
    then have "\<not> depth (indent_of (fl @ [l])) \<le> 32" by (simp add: word_le_nat_alt)
    with False show ?thesis by (simp add: walk_mask_def indent_of_def)
  qed
qed

fun kid_items :: "bool list \<Rightarrow> rtree list \<Rightarrow> (bool list \<times> rtree) list" where
  "kid_items fl [] = []"
| "kid_items fl (t # ts) = (fl @ [ts = []], t) # kid_items fl ts"

definition visit_all :: "(bool list \<times> rtree) list \<Rightarrow> (bool list \<times> nat) list" where
  "visit_all fts = concat (List.map (\<lambda>(fl, t). visit fl t) fts)"

definition item_rel :: "proc_info list \<Rightarrow> work \<Rightarrow> bool list \<times> rtree \<Rightarrow> bool" where
  "item_rel procs w ft =
     (case w of (i, d, pm, l) \<Rightarrow> case ft of (fl, t) \<Rightarrow>
        tree_of procs i t \<and> d = depth (indent_of fl) \<and> walk_mask d pm l = mask (indent_of fl))"

lemma visits_kid_items: "visits fl ts = visit_all (kid_items fl ts)"
  by (induction ts) (simp_all add: visit_all_def)

lemma length_kid_items [simp]: "length (kid_items fl ts) = length ts"
  by (induction ts) simp_all

lemma nth_kid_items: "i < length ts \<Longrightarrow> kid_items fl ts ! i = (fl @ [i = length ts - 1], ts ! i)"
  by (induction ts arbitrary: i) (auto simp: nth_Cons split: nat.split)

lemma map_snd_kid_items [simp]: "List.map snd (kid_items fl ts) = ts"
  by (induction ts) simp_all

lemma foldl_push:
  "length (fv_elems st) + length xs \<le> fv_capacity st \<Longrightarrow>
   foldl (\<lambda>st i. fvec_push_ignore st (f i)) st xs = st\<lparr>fv_elems := fv_elems st @ List.map f xs\<rparr>"
  by (induction xs arbitrary: st) (simp_all add: fvec_push_ignore_def fvec_push_def)

lemma push_kids_elems:
  "length (fv_elems st) + length kids \<le> fv_capacity st \<Longrightarrow>
   push_kids kids d m st = st\<lparr>fv_elems := fv_elems st @
     rev (List.map (\<lambda>i. (kids ! i, saturating_inc d, m, i = length kids - 1)) [0 ..< length kids])\<rparr>"
  by (simp add: push_kids_def foldl_push rev_map)

lemma item_rel_kids:
  assumes "list_all2 (tree_of procs) kids ts"
  shows "list_all2 (item_rel procs)
     (List.map (\<lambda>i. (kids ! i, saturating_inc (depth (indent_of fl)), mask (indent_of fl), i = length kids - 1))
        [0 ..< length kids]) (kid_items fl ts)"
  using assms indent_of_snoc [of fl]
  by (auto simp: list_all2_conv_all_nth nth_kid_items item_rel_def)

lemma distinct_bound: "distinct xs \<Longrightarrow> set xs \<subseteq> {..< n} \<Longrightarrow> length xs \<le> n"
  by (metis card_lessThan card_mono distinct_card finite_lessThan)

lemma tree_walk_loop_visit:
  assumes "list_all2 (item_rel procs) (rev (fv_elems stack)) fts"
    and "\<forall>b < n. fnest_bucket children b = Some (kids_of procs b)"
    and "distinct (List.map snd (fv_elems out) @ concat (List.map (nodes \<circ> snd) fts))"
    and "set (List.map snd (fv_elems out) @ concat (List.map (nodes \<circ> snd) fts)) \<subseteq> {..< n}"
    and "fv_capacity out = n" "fv_capacity stack = n"
  shows "tree_walk_loop children out stack =
    Some (Inr (out\<lparr>fv_elems := fv_elems out @ List.map to_row (visit_all fts)\<rparr>, stack\<lparr>fv_elems := []\<rparr>))"
  using assms
proof (induction "length (concat (List.map (nodes \<circ> snd) fts))" arbitrary: stack fts out rule: less_induct)
  case less
  show ?case
  proof (cases fts)
    case Nil
    with less.prems(1) have "fv_elems stack = []" by simp
    then show ?thesis
      using Nil by (subst tree_walk_loop.simps) (simp add: fvec_pop_def visit_all_def)
  next
    case (Cons ft rest)
    obtain fl i ts where ft: "ft = (fl, RNode i ts)" by (metis prod.exhaust rtree.exhaust)
    from less.prems(1) Cons ft obtain st0 w where st: "fv_elems stack = st0 @ [w]"
      and w: "item_rel procs w (fl, RNode i ts)" and rest: "list_all2 (item_rel procs) (rev st0) rest"
      by (cases "fv_elems stack" rule: rev_cases) auto
    obtain j d pm l where wj: "w = (j, d, pm, l)" by (cases w)
    have rel: "tree_of procs j (RNode i ts) \<and> d = depth (indent_of fl) \<and> walk_mask d pm l = mask (indent_of fl)"
      using w unfolding wj item_rel_def prod.case .
    note tj = rel [THEN conjunct1] and d = rel [THEN conjunct2, THEN conjunct1]
      and m = rel [THEN conjunct2, THEN conjunct2]
    from tree_of_root [OF tj] have wd: "w = (i, d, pm, l)" and t: "tree_of procs i (RNode i ts)"
      using wj tj by simp_all
    let ?kids = "kids_of procs i"
    from t have kids: "list_all2 (tree_of procs) ?kids ts" by (simp add: tree_of_RNode)
    then have lk: "length ?kids = length ts" by (rule list_all2_lengthD)
    let ?st1 = "stack\<lparr>fv_elems := st0\<rparr>" and ?out1 = "out\<lparr>fv_elems := fv_elems out @ [to_row (fl, i)]\<rparr>"
    let ?fts = "kid_items fl ts @ rest"
    let ?items = "List.map (\<lambda>i. (?kids ! i, saturating_inc d, mask (indent_of fl), i = length ?kids - 1)) [0 ..< length ?kids]"
    have map_nodes: "List.map (nodes \<circ> snd) (kid_items fl ts) = List.map nodes ts"
      by (simp flip: map_map)
    have nodes: "List.map snd (fv_elems ?out1) @ concat (List.map (nodes \<circ> snd) ?fts) =
        List.map snd (fv_elems out) @ concat (List.map (nodes \<circ> snd) fts)"
      by (simp add: Cons ft to_row_def map_nodes)
    note len = distinct_bound [OF less.prems(3,4)]
    have "length rest \<le> length (concat (List.map (nodes \<circ> snd) rest))"
      using length_nodes_ge [of "List.map snd rest"] by simp
    moreover have "length st0 = length rest" using list_all2_lengthD [OF rest] by simp
    ultimately have room: "length st0 + length ?kids \<le> n" "length (fv_elems out) < n"
      using len length_nodes_ge [of ts] lk by (simp_all add: Cons ft)
    have i: "i < n" using less.prems(4) by (simp add: Cons ft)
    have row: "to_row (fl, i) = (\<lparr>depth = d, mask = mask (indent_of fl)\<rparr>, i)" by (simp add: to_row_def d)
    have "tree_walk_loop children out stack = tree_walk_loop children ?out1 (push_kids ?kids d (mask (indent_of fl)) ?st1)"
      using room(2) less.prems(2,5) i
      by (subst tree_walk_loop.simps)
        (simp add: fvec_pop_def st wd m Let_def fvec_push_ignore_def fvec_push_def row)
    also have "push_kids ?kids d (mask (indent_of fl)) ?st1 = stack\<lparr>fv_elems := st0 @ rev ?items\<rparr>"
      using room(1) less.prems(6) by (subst push_kids_elems) simp_all
    also have "tree_walk_loop children ?out1 \<dots> =
      Some (Inr (?out1\<lparr>fv_elems := fv_elems ?out1 @ List.map to_row (visit_all ?fts)\<rparr>, stack\<lparr>fv_elems := []\<rparr>))"
    proof (subst less.hyps [of ?fts])
      show "length (concat (List.map (nodes \<circ> snd) ?fts)) < length (concat (List.map (nodes \<circ> snd) fts))"
        by (simp add: Cons ft map_nodes)
      show "list_all2 (item_rel procs) (rev (fv_elems (stack\<lparr>fv_elems := st0 @ rev ?items\<rparr>))) ?fts"
        using item_rel_kids [OF kids, of fl] rest by (simp add: d list_all2_appendI)
    qed (use less.prems nodes in \<open>simp_all only: fvec.simps, simp_all\<close>)
    finally show ?thesis by (simp add: Cons ft visit_all_def visits_kid_items)
  qed
qed

subsection \<open>All roots\<close>

definition roots_of :: "proc_info list \<Rightarrow> nat list" where
  "roots_of procs = List.filter (\<lambda>i. parent_of procs i = None) [0 ..< length procs]"

lemma forest_exists: "\<exists>forest. list_all2 (tree_of procs) (roots_of procs) forest"
proof -
  have "\<forall>i \<in> set (roots_of procs). \<exists>t. tree_of procs i t"
    using tree_of_exists [of procs 0] by (auto simp: roots_of_def)
  then obtain f where "\<forall>i \<in> set (roots_of procs). tree_of procs i (f i)" by metis
  then have "list_all2 (tree_of procs) (roots_of procs) (List.map f (roots_of procs))"
    by (simp add: list_all2_conv_all_nth)
  then show ?thesis by blast
qed

lemma forest_nodes:
  assumes "list_all2 (tree_of procs) (roots_of procs) forest"
  shows "distinct (concat (List.map nodes forest))"
    and "set (concat (List.map nodes forest)) = {i. i < length procs \<and> rooted procs i}"
proof -
  have r: "\<forall>i \<in> set (roots_of procs). i < length procs \<and> rooted procs i"
    by (auto simp: roots_of_def rooted_def intro: exI [of _ 0])
  show "distinct (concat (List.map nodes forest))"
  proof (rule distinct_concat_map_nodes [OF assms])
    show "\<forall>t \<in> set forest. distinct (nodes t)"
      using list_all2_in2 [OF assms] r distinct_nodes by blast
    fix x a b i j
    assume ij: "i \<in> set (roots_of procs)" "j \<in> set (roots_of procs)"
      and ab: "anc procs a x = Some i" "anc procs b x = Some j"
    have no: "\<not> c < d" if "anc procs c x = Some u" "anc procs d x = Some v" "parent_of procs u = None" for c d u v
    proof
      assume "c < d"
      then have "anc procs d x = anc procs (Suc (d - c - 1)) u"
        using anc_add [of procs c "d - c" x] that by (simp del: anc.simps add: Suc_diff_Suc)
      with that show False by simp
    qed
    from no [OF ab] no [OF ab(2,1)] ij have "a = b" by (auto simp: roots_of_def)
    with ab show "i = j" by simp
  qed (use r in \<open>auto simp: roots_of_def\<close>)
  have e1: "x \<in> set (concat (List.map nodes forest)) \<longleftrightarrow>
      (\<exists>i \<in> set (roots_of procs). x < length procs \<and> (\<exists>k. anc procs k x = Some i))" for x
    using list_all2_bex [OF assms, of "\<lambda>i. x < length procs \<and> (\<exists>k. anc procs k x = Some i)" "\<lambda>t. x \<in> set (nodes t)"] r
    by (simp add: nodes_iff)
  have e2: "(\<exists>i \<in> set (roots_of procs). x < length procs \<and> (\<exists>k. anc procs k x = Some i)) \<longleftrightarrow>
      x < length procs \<and> rooted procs x" for x
    using anc_less [of x procs] by (auto simp: roots_of_def rooted_def)
  show "set (concat (List.map nodes forest)) = {i. i < length procs \<and> rooted procs i}"
    by (intro set_eqI) (simp only: e1 e2 mem_Collect_eq)
qed

lemma walk_roots_forest:
  assumes m: "\<forall>q. map_get m q = List.find (\<lambda>j. pid (procs ! j) = q) [0 ..< length procs]"
    and b: "\<forall>b < n. fnest_bucket children b = Some (kids_of procs b)"
    and "list_all2 (tree_of procs) (List.filter (\<lambda>i. parent_of procs i = None) is) forest"
    and "distinct (List.map snd (fv_elems out) @ concat (List.map nodes forest))"
    and "set (List.map snd (fv_elems out) @ concat (List.map nodes forest)) \<subseteq> {..< n}"
    and "fv_capacity out = n" "fv_capacity stack = n"
  shows "\<exists>stack'. walk_roots procs m children is out stack =
    Some (Inr (out\<lparr>fv_elems := fv_elems out @ List.map to_row (concat (List.map (visit []) forest))\<rparr>, stack'))"
  using assms(3-)
proof (induction "is" arbitrary: out stack forest)
  case (Cons i "is")
  have par: "map_get m (ppid (procs ! i)) = parent_of procs i" by (simp add: m parent_of_def)
  show ?case
  proof (cases "parent_of procs i = None")
    case False
    with Cons.prems have "\<exists>stack'. walk_roots procs m children is out stack =
        Some (Inr (out\<lparr>fv_elems := fv_elems out @ List.map to_row (concat (List.map (visit []) forest))\<rparr>, stack'))"
      by (intro Cons.IH) simp_all
    moreover from False obtain y where "parent_of procs i = Some y" by blast
    ultimately show ?thesis using par by simp
  next
    case True
    then have "list_all2 (tree_of procs) (i # List.filter (\<lambda>i. parent_of procs i = None) is) forest"
      using Cons.prems(1) by simp
    then obtain t ts where f: "forest = t # ts" "tree_of procs i t"
      "list_all2 (tree_of procs) (List.filter (\<lambda>i. parent_of procs i = None) is) ts"
      unfolding list_all2_Cons1 by blast
    let ?stack = "fvec_push_ignore (fvec_clear stack) (i, 0, 0, True)"
    have "top t \<in> {..< n}" using Cons.prems(3) root_in_nodes [of t] by (auto simp: f(1))
    then have n: "0 < n" by simp
    then have st: "fv_elems ?stack = [(i, 0, 0, True)]" "fv_capacity ?stack = n"
      using Cons.prems(5) by (simp_all add: fvec_defs)
    have "tree_walk_loop children out ?stack =
        Some (Inr (out\<lparr>fv_elems := fv_elems out @ List.map to_row (visit_all [([], t)])\<rparr>, ?stack\<lparr>fv_elems := []\<rparr>))"
    proof (rule tree_walk_loop_visit [where procs = procs and n = n])
      show "list_all2 (item_rel procs) (rev (fv_elems ?stack)) [([], t)]"
        using f(2) by (simp add: st item_rel_def indent_of_def walk_mask_def)
    qed (use b Cons.prems f st in auto)
    moreover
    let ?out = "out\<lparr>fv_elems := fv_elems out @ List.map to_row (visit [] t)\<rparr>"
    have row: "List.map snd (List.map to_row (visit [] t)) = nodes t"
      using map_snd_visit(1) [of "[]" t] by (simp add: to_row_def comp_def)
    have "\<exists>stack'. walk_roots procs m children is ?out (?stack\<lparr>fv_elems := []\<rparr>) =
        Some (Inr (?out\<lparr>fv_elems := fv_elems ?out @ List.map to_row (concat (List.map (visit []) ts))\<rparr>, stack'))"
      using Cons.prems row st(2) f by (intro Cons.IH) (simp_all del: map_map)
    ultimately show ?thesis
      using True par f(1) by (simp add: tree_walk_def visit_all_def)
  qed
qed simp

lemma visit_depth:
  "(fl', x) \<in> set (visit fl t) \<Longrightarrow> tree_of procs (top t) t \<Longrightarrow>
     length fl \<le> length fl' \<and> anc procs (length fl' - length fl) x = Some (top t)"
  "(fl', x) \<in> set (visits fl ts) \<Longrightarrow> \<forall>t \<in> set ts. tree_of procs (top t) t \<Longrightarrow>
     \<exists>t \<in> set ts. length fl < length fl' \<and> anc procs (length fl' - length fl - 1) x = Some (top t)"
proof (induction fl t and fl ts rule: visit_visits.induct)
  case (1 fl i ts)
  show ?case
  proof (cases "(fl', x) = (fl, i)")
    case False
    from "1.prems"(2) have k: "list_all2 (tree_of procs) (kids_of procs i) ts" by (simp add: tree_of_RNode)
    then have "\<forall>t \<in> set ts. tree_of procs (top t) t"
      using list_all2_in2 tree_of_root by metis
    with False 1 obtain t where t: "t \<in> set ts" "length fl < length fl'"
      "anc procs (length fl' - length fl - 1) x = Some (top t)" by auto
    with list_all2_in2 [OF k] have "top t \<in> set (kids_of procs i)" using tree_of_root by metis
    with t have "anc procs (Suc (length fl' - length fl - 1)) x = Some i"
      by (simp add: anc_Suc kids_of_iff del: anc.simps)
    moreover have "Suc (length fl' - length fl - 1) = length fl' - length fl" using t(2) by simp
    ultimately show ?thesis using t(2) by (simp del: anc.simps)
  qed simp
next
  case (3 fl t ts)
  then show ?case by (auto simp: Suc_le_eq)
qed simp

lemma tree_layout_forest:
  assumes "pids_distinct procs" "list_all2 (tree_of procs) (roots_of procs) forest"
  shows "tree_layout procs = Some (Inr (List.map to_row (concat (List.map (visit []) forest))))"
proof -
  from build_pid_to_idx_get [OF assms(1)] obtain m where m: "build_pid_to_idx procs = Inr m"
    "\<forall>q. map_get m q = List.find (\<lambda>j. pid (procs ! j) = q) [0 ..< length procs]" by blast
  from build_children_bucket [OF m(2)] obtain nst where nst: "build_children procs m = Inr nst"
    "\<forall>b < length procs. fnest_bucket nst b = Some (kids_of procs b)" by blast
  let ?v = "fvec_new (length procs)"
  have "\<exists>stack'. walk_roots procs m nst [0 ..< length procs] ?v ?v =
    Some (Inr (?v\<lparr>fv_elems := fv_elems ?v @ List.map to_row (concat (List.map (visit []) forest))\<rparr>, stack'))"
    using assms(2) forest_nodes [OF assms(2)]
    by (intro walk_roots_forest [OF m(2) nst(2)]) (auto simp: roots_of_def fvec_new_def)
  then show ?thesis by (auto simp: tree_layout_def Let_def m(1) nst(1) fvec_new_def)
qed

subsection \<open>The prefix of a row\<close>

definition prefix_of :: "bool list \<Rightarrow> string" where
  "prefix_of fl =
     (if fl = [] then []
      else concat (List.map (\<lambda>l. if l then ''  '' else bar_sp) (butlast fl)) @ (if last fl then corner else branch))"

lemma indent_of_bit: "i < min 32 (length fl) \<Longrightarrow> bit (mask (indent_of fl)) i = fl ! i"
  by (simp add: indent_of_def bit_horner_sum_bit_word_iff)

lemma render_depth_indent_of: "render_depth (indent_of fl) = min 32 (length fl)"
proof -
  have "unat (of_nat (min 255 (length fl)) :: u8) = min 255 (length fl)" by (simp add: unat_of_nat)
  then show ?thesis by (simp add: render_depth_def indent_of_def)
qed

lemma flat_put_indent: "flat (put_indent (indent_of fl)) = prefix_of (take 32 fl)"
proof (cases "fl = []")
  case False
  let ?d = "min 32 (length fl)"
  have d: "0 < ?d" using False by simp
  have b: "butlast (take 32 fl) = List.map ((!) fl) [0 ..< ?d - 1]"
    by (intro nth_equalityI) (auto simp: nth_butlast)
  have l: "last (take 32 fl) = fl ! (?d - 1)" using False by (simp add: last_conv_nth min_def)
  let ?g = "\<lambda>i. if bit (mask (indent_of fl)) i then ''  '' else bar_sp"
  have c: "List.map ?g [0 ..< ?d - 1] = List.map (\<lambda>i. if fl ! i then ''  '' else bar_sp) [0 ..< ?d - 1]"
    by (rule map_cong [OF refl]) (subst indent_of_bit, auto)
  have e: "bit (mask (indent_of fl)) (?d - 1) = fl ! (?d - 1)" by (intro indent_of_bit diff_less d) simp
  have f: "flat (List.map (\<lambda>i. PutBytes (?g i)) js) = concat (List.map ?g js)" for js
    by (simp add: flat_def comp_def)
  have "flat (put_indent (indent_of fl)) =
      concat (List.map ?g [0 ..< ?d - 1]) @ (if fl ! (?d - 1) then corner else branch)"
    unfolding put_indent_def Let_def render_depth_indent_of e if_not_P [OF d [THEN less_imp_neq, symmetric]]
    by (simp only: f flat_simps wcall_bytes.simps append_Nil2)
  also have "\<dots> = prefix_of (take 32 fl)"
    unfolding c prefix_of_def b l using False by (simp add: comp_def)
  finally show ?thesis .
qed (simp add: put_indent_def Let_def render_depth_indent_of prefix_of_def)

lemma is_root_indent_of: "is_root (indent_of fl) \<longleftrightarrow> fl = []"
proof -
  have "unat (of_nat (min 255 (length fl)) :: u8) = min 255 (length fl)" by (simp add: unat_of_nat)
  then have "unat (depth (indent_of fl)) = 0 \<longleftrightarrow> fl = []" by (auto simp: indent_of_def min_def)
  then show ?thesis by (simp add: is_root_def unat_eq_zero)
qed

lemma tree_row_depth:
  assumes "list_all2 (tree_of procs) (roots_of procs) forest"
    and "(fl, x) \<in> set (concat (List.map (visit []) forest))"
  shows "\<exists>r. anc procs (length fl) x = Some r \<and> parent_of procs r = None"
proof -
  from assms(2) obtain t where t: "t \<in> set forest" "(fl, x) \<in> set (visit [] t)" by auto
  with list_all2_in2 [OF assms(1)] obtain i where "i \<in> set (roots_of procs)" "tree_of procs i t" by blast
  with visit_depth(1) [OF t(2)] tree_of_root [of procs i t] show ?thesis by (auto simp: roots_of_def)
qed

subsection \<open>Properties\<close>

text \<open>C12: on a list of distinct pids \<open>tree_layout\<close> returns, without a panic and without its
  fixed-size stack or row buffer ever overflowing, and lays out what a recursive visit of the forest
  of parent links would: the trees of the parentless processes in list order, every node before its
  children, children in list order. No process is on two rows, and a process is on a row exactly
  when its chain of parents ends (one on a cycle of parent links is not displayed); its
  row's depth is the length of that chain.\<close>

theorem tree_layout_correct:
  assumes "pids_distinct procs"
  shows "\<exists>forest. list_all2 (tree_of procs) (roots_of procs) forest \<and>
    tree_layout procs = Some (Inr (List.map to_row (concat (List.map (visit []) forest)))) \<and>
    distinct (concat (List.map nodes forest)) \<and>
    set (concat (List.map nodes forest)) = {i. i < length procs \<and> rooted procs i} \<and>
    (\<forall>(fl, x) \<in> set (concat (List.map (visit []) forest)).
       \<exists>r. anc procs (length fl) x = Some r \<and> parent_of procs r = None)"
proof -
  obtain forest where f: "list_all2 (tree_of procs) (roots_of procs) forest" using forest_exists by blast
  have "\<forall>(fl, x) \<in> set (concat (List.map (visit []) forest)).
      \<exists>r. anc procs (length fl) x = Some r \<and> parent_of procs r = None"
    using tree_row_depth [OF f] by fast
  with f forest_nodes [OF f] tree_layout_forest [OF assms f] show ?thesis by blast
qed

theorem tree_layout_correct_witness:
  "\<exists>rows. tree_layout [proc_default\<lparr>pid := 1\<rparr>, proc_default\<lparr>pid := 7, ppid := 1\<rparr>] = Some (Inr rows)"
proof -
  have "pids_distinct [proc_default\<lparr>pid := 1\<rparr>, proc_default\<lparr>pid := 7, ppid := 1\<rparr>]"
    by (simp add: pids_distinct_def)
  from tree_layout_correct [OF this] show ?thesis by blast
qed

text \<open>The prefix drawn in front of a row shows the path to it: for each level above the row's own
  a blank where the ancestor on the path is the last of its siblings and a bar where it is not, then
  a corner or a branch for the row itself, for the first 32 levels; and the columns it is counted as
  are two for each of these levels.\<close>

theorem put_indent_draws_path:
  "flat (put_indent (fst (to_row (fl, i)))) = prefix_of (take 32 fl) \<and>
   indent_width (fst (to_row (fl, i))) = 2 * min 32 (length fl) \<and>
   (is_root (fst (to_row (fl, i))) \<longleftrightarrow> fl = [])"
  by (simp add: flat_put_indent to_row_def indent_width_def render_depth_indent_of is_root_indent_of)

end
