(* ===== verification/Filtering.thy ===== *)
theory Filtering
  imports Tree
begin

text \<open>
  Which processes get a row, in src/src/main.rs: \<open>coalesce_helpers\<close> folds an application's helper
  processes into its own row, and \<open>filter_with_children\<close> keeps the qualifying processes and their
  busy descendants, rewriting the parent link of a survivor to its nearest surviving ancestor.
\<close>

subsection \<open>Helper names\<close>

definition ends_with :: "string \<Rightarrow> string \<Rightarrow> bool" where
  "ends_with s suffix \<longleftrightarrow> length suffix \<le> length s \<and> drop (length s - length suffix) s = suffix"

definition is_helper_of :: "string \<Rightarrow> string \<Rightarrow> bool" where
  "is_helper_of kid app_root =
     (let n = length app_root
      in length kid \<ge> n + 7 \<and> take n kid = app_root \<and> take 7 (drop n kid) = '' Helper'')"

definition is_shard_name :: "string \<Rightarrow> bool" where
  "is_shard_name name \<longleftrightarrow> ends_with name '' (Renderer)'' \<or> ends_with name '' (Service)''"

definition folds_into :: "target_os \<Rightarrow> bool \<Rightarrow> string \<Rightarrow> string \<Rightarrow> bool" where
  "folds_into os shard name pname \<longleftrightarrow>
     shard \<or> is_helper_of name pname \<or>
     (os = Macos \<and> ieq pname ''launchd_sim'') \<or>
     (ieq pname ''lake serve'' \<and> ieq name ''lean --server'') \<or>
     (ieq pname ''lean-mcp'' \<and> ieq name ''lake serve'')"

fun coalesce_hops ::
  "target_os \<Rightarrow> proc_info list \<Rightarrow> (u32 \<times> nat) list \<Rightarrow> nat \<Rightarrow> nat option \<Rightarrow> string \<Rightarrow> bool \<Rightarrow> u32 \<Rightarrow> nat option" where
  "coalesce_hops os procs pid_to_idx 0 app_root name shard a = app_root"
| "coalesce_hops os procs pid_to_idx (Suc hops) app_root name shard a =
     (case map_get pid_to_idx a of
        None \<Rightarrow> app_root
      | Some pa \<Rightarrow>
          let pname = display (procs ! pa); a' = ppid (procs ! pa) in
          if folds_into os shard name pname
          then coalesce_hops os procs pid_to_idx hops (Some pa) pname (is_shard_name pname) a'
          else coalesce_hops os procs pid_to_idx hops app_root name shard a')"

definition coalesce_root :: "target_os \<Rightarrow> proc_info list \<Rightarrow> (u32 \<times> nat) list \<Rightarrow> nat \<Rightarrow> nat option" where
  "coalesce_root os procs pid_to_idx idx =
     (let name = display (procs ! idx)
      in coalesce_hops os procs pid_to_idx 64 None name (is_shard_name name) (ppid (procs ! idx)))"

subsection \<open>Folding\<close>

definition saturating_add32 :: "u32 \<Rightarrow> u32 \<Rightarrow> u32" where
  "saturating_add32 a b = of_nat (min (unat a + unat b) 4294967295)"

definition fold_gpu :: "target_os \<Rightarrow> gpu_usage option \<Rightarrow> gpu_usage option \<Rightarrow> gpu_usage option" where
  "fold_gpu os into from =
     (case from of
        None \<Rightarrow> into
      | Some g \<Rightarrow>
          (case os of
             Macos \<Rightarrow>
               let s0 = (case into of Some h \<Rightarrow> sm_pct h | None \<Rightarrow> 0)
               in Some (g\<lparr>sm_pct := s0 + sm_pct g\<rparr>)
           | Linux \<Rightarrow>
               let (s0, m0) = (case into of Some h \<Rightarrow> (sm_pct h, mem_mib h) | None \<Rightarrow> (0, 0));
                   mem = saturating_add32 m0 (mem_mib g)
               in if mem \<noteq> 0 then Some \<lparr>sm_pct = s0 + sm_pct g, mem_mib = mem\<rparr> else None))"

text \<open>The helper is emptied and hidden first, then its share goes to the root's row.\<close>

definition fold_one :: "target_os \<Rightarrow> nat \<Rightarrow> nat \<Rightarrow> proc_info list \<Rightarrow> proc_info list" where
  "fold_one os idx r procs =
     (let k = procs ! idx; vis = visible k;
          procs1 = procs[idx := (set_visible False k)\<lparr>cpu := 0, rss_kib := 0, gpu := None\<rparr>];
          p = procs1 ! r;
          p1 = (if vis \<or> (os = Macos \<and> ieq (display p) ''launchd_sim'') then set_visible True p else p)
      in procs1[r := p1\<lparr>cpu := f32_add (cpu p1) (cpu k), rss_kib := saturating_add32 (rss_kib p1) (rss_kib k),
                       gpu := fold_gpu os (gpu p1) (gpu k)\<rparr>])"

definition coalesce_step ::
  "target_os \<Rightarrow> (u32 \<times> nat) list \<Rightarrow> proc_info list \<Rightarrow> nat \<Rightarrow> proc_info list" where
  "coalesce_step os pid_to_idx procs idx =
     (case coalesce_root os procs pid_to_idx idx of None \<Rightarrow> procs | Some r \<Rightarrow> fold_one os idx r procs)"

definition coalesce_helpers :: "target_os \<Rightarrow> (u32 \<times> nat) list \<Rightarrow> proc_info list \<Rightarrow> proc_info list" where
  "coalesce_helpers os pid_to_idx procs = foldl (coalesce_step os pid_to_idx) procs [0 ..< length procs]"

subsection \<open>The traversal\<close>

definition keep_thresh :: "(u32 \<times> u32) list \<Rightarrow> proc_info \<Rightarrow> f32" where
  "keep_thresh prev k =
     (let was_visible = (case map_get prev (pid k) of Some p \<Rightarrow> packed_visible p | None \<Rightarrow> False)
      in if was_visible then CHILD_CPU_KEEP_THRESH else CHILD_CPU_THRESH)"

definition visit_kid ::
  "(u32 \<times> u32) list \<Rightarrow> bool \<Rightarrow> nat \<Rightarrow> u32 \<Rightarrow> proc_info list \<times> (nat \<times> nat) fvec \<times> u8 list \<Rightarrow> nat \<Rightarrow>
   proc_info list \<times> (nat \<times> nat) fvec \<times> u8 list" where
  "visit_kid prev i_visible last_vis last_vis_pid st kid =
     (case st of (procs, queue, enqueued) \<Rightarrow>
       let k = procs ! kid;
           k1 = (if cpu k \<ge> keep_thresh prev k then set_visible True k else k);
           k2 = (if visible k1 \<and> \<not> i_visible then k1\<lparr>ppid := last_vis_pid\<rparr> else k1);
           new_last = (if visible k2 then kid else last_vis)
       in if enqueued ! kid = 0
          then (procs[kid := k2], fvec_push_ignore queue (kid, new_last), enqueued[kid := 1])
          else (procs[kid := k2], queue, enqueued))"

partial_function (option) bfs_loop ::
  "(u32 \<times> u32) list \<Rightarrow> nat fnest \<Rightarrow> proc_info list \<Rightarrow> (nat \<times> nat) fvec \<Rightarrow> u8 list \<Rightarrow>
   (layout_panic + proc_info list) option" where
  "bfs_loop prev children procs queue enqueued =
     (case fvec_pop queue of
        None \<Rightarrow> Some (Inr procs)
      | Some ((i, last_vis), queue1) \<Rightarrow>
          let i_visible = visible (procs ! i); last_vis_pid = pid (procs ! last_vis)
          in case fnest_bucket children i of
               None \<Rightarrow> Some (Inl (BucketPanic i))
             | Some kids \<Rightarrow>
                 (case foldl (visit_kid prev i_visible last_vis last_vis_pid) (procs, queue1, enqueued) kids of
                    (procs1, queue2, enqueued1) \<Rightarrow> bfs_loop prev children procs1 queue2 enqueued1))"

definition seed_queue :: "proc_info list \<Rightarrow> (nat \<times> nat) fvec \<times> u8 list" where
  "seed_queue procs =
     foldl (\<lambda>(queue, enqueued) i.
         let vis = visible (procs ! i)
         in (if vis then fvec_push_ignore queue (i, i) else queue, enqueued @ [of_bool vis]))
       (fvec_new (length procs), []) [0 ..< length procs]"

text \<open>The closure of \<open>retain_in_place\<close>: its captured state is the running index and \<open>next\<close>.\<close>

definition retain_visible ::
  "nat \<times> (u32 \<times> u32) list \<Rightarrow> proc_info \<Rightarrow> (nat \<times> (u32 \<times> u32) list) \<times> proc_info \<times> bool" where
  "retain_visible st p =
     (case st of (i, nxt) \<Rightarrow>
       ((i + 1, if visible p then nxt[i := (fst (nxt ! i), packed_set_visible (snd (nxt ! i)))] else nxt),
        p, visible p))"

definition filter_with_children ::
  "target_os \<Rightarrow> proc_info fvec \<Rightarrow> (u32 \<times> u32) list \<Rightarrow> (u32 \<times> u32) list \<Rightarrow>
   (layout_panic + proc_info fvec \<times> (u32 \<times> u32) list) option" where
  "filter_with_children os procs prev nxt =
     (case build_pid_to_idx (fv_elems procs) of
        Inl e \<Rightarrow> Some (Inl e)
      | Inr pid_to_idx \<Rightarrow>
          (case build_children (fv_elems procs) pid_to_idx of
             Inl e \<Rightarrow> Some (Inl e)
           | Inr children \<Rightarrow>
               let procs1 = coalesce_helpers os pid_to_idx (fv_elems procs);
                   (queue, enqueued) = seed_queue procs1
               in case bfs_loop prev children procs1 queue enqueued of
                    None \<Rightarrow> None
                  | Some (Inl e) \<Rightarrow> Some (Inl e)
                  | Some (Inr procs2) \<Rightarrow>
                      (case fvec_retain_in_place retain_visible (0, nxt) (procs\<lparr>fv_elems := procs2\<rparr>) of
                         ((_, nxt1), procs3) \<Rightarrow> Some (Inr (procs3, nxt1)))))"

subsection \<open>Where a helper folds to\<close>

definition index_of :: "proc_info list \<Rightarrow> (u32 \<times> nat) list \<Rightarrow> bool" where
  "index_of procs m \<longleftrightarrow> (\<forall>q. map_get m q = List.find (\<lambda>j. pid (procs ! j) = q) [0 ..< length procs])"

lemma index_of_parent: "index_of procs m \<Longrightarrow> map_get m (ppid (procs ! i)) = parent_of procs i"
  by (simp add: index_of_def parent_of_def)

text \<open>Chains of parents that the hop limit covers.\<close>

definition chains_short :: "proc_info list \<Rightarrow> bool" where
  "chains_short procs \<longleftrightarrow> (\<forall>i < length procs. anc procs 65 i = None)"

lemma coalesce_hops_found:
  "coalesce_hops os procs m n app_root name shard a =
     (case coalesce_hops os procs m n None name shard a of None \<Rightarrow> app_root | Some r \<Rightarrow> Some r)"
proof (induction n arbitrary: app_root name shard a)
  case (Suc n)
  show ?case
  proof (cases "map_get m a")
    case (Some pa)
    show ?thesis
    proof (cases "folds_into os shard name (display (procs ! pa))")
      case True
      with Some Suc.IH [of "Some pa"] show ?thesis by (simp add: Let_def split: option.split)
    next
      case False
      with Some Suc.IH [of app_root] show ?thesis by (simp add: Let_def split: option.split)
    qed
  qed simp
qed simp

lemma coalesce_hops_target:
  assumes "index_of procs m"
  shows "coalesce_hops os procs m n None name shard (ppid (procs ! j)) = Some r \<Longrightarrow>
    \<exists>n' < n. anc procs (n - n') j = Some r \<and>
      coalesce_hops os procs m n' None (display (procs ! r)) (is_shard_name (display (procs ! r))) (ppid (procs ! r)) = None"
proof (induction n arbitrary: name shard j)
  case (Suc n)
  then obtain pa where pa: "parent_of procs j = Some pa"
    by (auto simp: index_of_parent [OF assms] split: option.splits)
  have up: "anc procs (Suc n - n') j = anc procs (n - n') pa" if "n' < n" for n'
    using that pa by (simp add: Suc_diff_le less_imp_le)
  have step: "\<exists>n' < Suc n. anc procs (Suc n - n') j = Some r \<and> Q n'"
    if ex: "\<exists>n' < n. anc procs (n - n') pa = Some r \<and> Q n'" for Q
  proof -
    from ex obtain n' where "n' < n" "anc procs (n - n') pa = Some r" "Q n'" by blast
    with up [of n'] show ?thesis by (intro exI [of _ n']) simp
  qed
  show ?case
  proof (cases "folds_into os shard name (display (procs ! pa))")
    case False
    with Suc.prems pa have "coalesce_hops os procs m n None name shard (ppid (procs ! pa)) = Some r"
      by (simp add: index_of_parent [OF assms] Let_def)
    from step [OF Suc.IH [OF this]] show ?thesis .
  next
    case True
    let ?rest = "coalesce_hops os procs m n None (display (procs ! pa)) (is_shard_name (display (procs ! pa))) (ppid (procs ! pa))"
    from True Suc.prems pa have "coalesce_hops os procs m n (Some pa) (display (procs ! pa))
        (is_shard_name (display (procs ! pa))) (ppid (procs ! pa)) = Some r"
      by (simp add: index_of_parent [OF assms] Let_def)
    then have "(case ?rest of None \<Rightarrow> Some pa | Some r \<Rightarrow> Some r) = Some r"
      by (subst (asm) coalesce_hops_found)
    then consider "?rest = None" "r = pa" | "?rest = Some r" by (cases ?rest) simp_all
    then show ?thesis
    proof cases
      case 1
      with pa show ?thesis by (intro exI [of _ n]) simp
    next
      case 2
      from step [OF Suc.IH [OF 2]] show ?thesis .
    qed
  qed
qed simp

lemma coalesce_hops_long:
  assumes "index_of procs m"
  shows "anc procs (Suc n) j = None \<Longrightarrow> n \<le> n' \<Longrightarrow>
    coalesce_hops os procs m n' app_root name shard (ppid (procs ! j)) =
    coalesce_hops os procs m n app_root name shard (ppid (procs ! j))"
proof (induction n arbitrary: n' app_root name shard j)
  case 0
  then have "parent_of procs j = None" by (cases "parent_of procs j") simp_all
  then show ?case by (cases n') (simp_all add: index_of_parent [OF assms])
next
  case (Suc n)
  then obtain k where k: "n' = Suc k" "n \<le> k" by (cases n') auto
  show ?case
  proof (cases "parent_of procs j")
    case (Some pa)
    with Suc.prems have "anc procs (Suc n) pa = None" by simp
    with Suc.IH [of pa k] k Some show ?thesis by (simp add: index_of_parent [OF assms] Let_def)
  qed (simp add: k index_of_parent [OF assms])
qed

text \<open>A fold target is a proper ancestor and is not folded itself.\<close>

lemma coalesce_root_target:
  assumes m: "index_of procs m" and r: "coalesce_root os procs m j = Some r"
    and short: "chains_short procs" and j: "j < length procs"
  shows "coalesce_root os procs m r = None" and "r < length procs" and "\<exists>k. anc procs (Suc k) j = Some r"
proof -
  obtain n' where n': "n' < 64" "anc procs (64 - n') j = Some r"
    "coalesce_hops os procs m n' None (display (procs ! r)) (is_shard_name (display (procs ! r))) (ppid (procs ! r)) = None"
    using coalesce_hops_target [OF m] r unfolding coalesce_root_def Let_def by blast
  have "anc procs (64 - n' + Suc n') j = anc procs (Suc n') r" using n' by (simp only: anc_add bind.bind_lunit)
  then have "anc procs (Suc n') r = None" using short j n'(1) by (simp add: chains_short_def del: anc.simps)
  from coalesce_hops_long [OF m this, of 64] n' show "coalesce_root os procs m r = None"
    by (simp add: coalesce_root_def Let_def)
  show "r < length procs" using anc_less [OF j n'(2)] .
  show "\<exists>k. anc procs (Suc k) j = Some r"
  proof -
    have "64 - n' = Suc (63 - n')" using n'(1) by simp
    with n'(2) show ?thesis by metis
  qed
qed

subsection \<open>What folding does\<close>

definition same_links :: "proc_info list \<Rightarrow> proc_info list \<Rightarrow> bool" where
  "same_links procs procs' \<longleftrightarrow> length procs' = length procs \<and>
     (\<forall>i < length procs. pid (procs' ! i) = pid (procs ! i) \<and> ppid (procs' ! i) = ppid (procs ! i) \<and>
        display (procs' ! i) = display (procs ! i) \<and> age_secs (procs' ! i) = age_secs (procs ! i))"

lemma same_links_refl [simp]: "same_links procs procs"
  by (simp add: same_links_def)

lemma same_links_trans: "same_links a b \<Longrightarrow> same_links b c \<Longrightarrow> same_links a c"
  by (simp add: same_links_def)

lemma age_secs_update [simp]:
  "age_secs (p\<lparr>cpu := c\<rparr>) = age_secs p" "age_secs (p\<lparr>rss_kib := r\<rparr>) = age_secs p"
  "age_secs (p\<lparr>gpu := g\<rparr>) = age_secs p" "age_secs (p\<lparr>ppid := q\<rparr>) = age_secs p"
  by (simp_all add: age_secs_def)

lemma same_links_fold_one: "same_links procs (fold_one os idx r procs)"
  unfolding same_links_def fold_one_def Let_def by (simp add: nth_update_if)

lemma parent_of_cong: "same_links procs procs' \<Longrightarrow> i < length procs \<Longrightarrow> parent_of procs' i = parent_of procs i"
  unfolding parent_of_def same_links_def by (auto intro: find_cong)

lemma index_of_cong: "same_links procs procs' \<Longrightarrow> index_of procs m \<Longrightarrow> index_of procs' m"
proof -
  assume s: "same_links procs procs'" and m: "index_of procs m"
  then have "List.find (\<lambda>j. pid (procs' ! j) = q) [0 ..< length procs'] =
      List.find (\<lambda>j. pid (procs ! j) = q) [0 ..< length procs]" for q
    unfolding same_links_def by (intro find_cong) auto
  with m show ?thesis by (simp add: index_of_def)
qed

lemma coalesce_hops_cong:
  "same_links procs procs' \<Longrightarrow> index_of procs m \<Longrightarrow>
   coalesce_hops os procs' m n app_root name shard a = coalesce_hops os procs m n app_root name shard a"
proof (induction n arbitrary: app_root name shard a)
  case (Suc n)
  have "pa < length procs" if "map_get m a = Some pa" for pa
    using that Suc.prems(2) by (auto simp: index_of_def find_Some_iff)
  with Suc show ?case by (auto simp: same_links_def Let_def split: option.split)
qed simp

lemma coalesce_root_cong:
  "same_links procs procs' \<Longrightarrow> index_of procs m \<Longrightarrow> i < length procs \<Longrightarrow>
   coalesce_root os procs' m i = coalesce_root os procs m i"
  by (simp add: coalesce_root_def Let_def coalesce_hops_cong same_links_def)

definition launchd_sim :: "target_os \<Rightarrow> string \<Rightarrow> bool" where
  "launchd_sim os name \<longleftrightarrow> os = Macos \<and> ieq name ''launchd_sim''"

text \<open>After the positions in \<open>done\<close> have been folded.\<close>

definition folded_inv ::
  "target_os \<Rightarrow> (u32 \<times> nat) list \<Rightarrow> proc_info list \<Rightarrow> nat list \<Rightarrow> proc_info list \<Rightarrow> bool" where
  "folded_inv os m procs dn procs' \<longleftrightarrow> same_links procs procs' \<and>
     (\<forall>i < length procs.
        if coalesce_root os procs m i = None
        then (visible (procs' ! i) \<longleftrightarrow> visible (procs ! i) \<or>
               (\<exists>j \<in> set dn. coalesce_root os procs m j = Some i \<and>
                  (visible (procs ! j) \<or> launchd_sim os (display (procs ! i)))))
        else if i \<in> set dn then \<not> visible (procs' ! i) \<and> cpu (procs' ! i) = 0 \<and> rss_kib (procs' ! i) = 0 \<and> gpu (procs' ! i) = None
        else procs' ! i = procs ! i)"

lemma folded_inv_step:
  assumes inv: "folded_inv os m procs dn procs'" and m: "index_of procs m" and short: "chains_short procs"
    and i: "i < length procs" "i \<notin> set dn"
  shows "folded_inv os m procs (dn @ [i]) (coalesce_step os m procs' i)"
proof -
  have links: "same_links procs procs'" using inv by (simp add: folded_inv_def)
  then have len: "length procs' = length procs" by (simp add: same_links_def)
  have root: "coalesce_root os procs' m i = coalesce_root os procs m i"
    by (rule coalesce_root_cong [OF links m i(1)])
  show ?thesis
  proof (cases "coalesce_root os procs m i")
    case None
    with inv root show ?thesis by (auto simp: folded_inv_def coalesce_step_def)
  next
    case (Some r)
    note t = coalesce_root_target [OF m Some short i(1)]
    have ri: "r \<noteq> i" using t(1) Some by auto
    have same: "procs' ! i = procs ! i" using inv i Some by (auto simp: folded_inv_def)
    have d: "display (procs' ! r) = display (procs ! r)" using links t(2) by (simp add: same_links_def)
    let ?p = "coalesce_step os m procs' i"
    have step: "?p = fold_one os i r procs'" by (simp add: coalesce_step_def root Some)
    have l: "same_links procs ?p" unfolding step using same_links_trans [OF links same_links_fold_one] .
    have nth: "?p ! j = procs' ! j" if "j \<noteq> i" "j \<noteq> r" for j
      unfolding step using that by (simp add: fold_one_def Let_def)
    have at_i: "?p ! i = (set_visible False (procs ! i))\<lparr>cpu := 0, rss_kib := 0, gpu := None\<rparr>"
      unfolding step using ri i len same by (simp add: fold_one_def Let_def)
    have at_r: "visible (?p ! r) \<longleftrightarrow> visible (procs' ! r) \<or> visible (procs ! i) \<or> launchd_sim os (display (procs ! r))"
      unfolding step using ri i len same t(2) d by (auto simp: fold_one_def Let_def launchd_sim_def)
    show ?thesis
      unfolding folded_inv_def
    proof (intro conjI l allI impI)
      fix j assume j: "j < length procs"
      note J = inv [unfolded folded_inv_def, THEN conjunct2, rule_format, OF j]
      consider "j = i" | "j = r" | "j \<noteq> i" "j \<noteq> r" by blast
      then show "if coalesce_root os procs m j = None
        then visible (?p ! j) \<longleftrightarrow> visible (procs ! j) \<or>
               (\<exists>k \<in> set (dn @ [i]). coalesce_root os procs m k = Some j \<and>
                  (visible (procs ! k) \<or> launchd_sim os (display (procs ! j))))
        else if j \<in> set (dn @ [i]) then \<not> visible (?p ! j) \<and> cpu (?p ! j) = 0 \<and> rss_kib (?p ! j) = 0 \<and> gpu (?p ! j) = None
        else ?p ! j = procs ! j"
      proof cases
        case 1
        then show ?thesis using Some at_i by simp
      next
        case 2
        with J t(1) at_r Some show ?thesis by auto
      next
        case 3
        with J nth Some show ?thesis by (auto split: if_splits)
      qed
    qed
  qed
qed

lemma coalesce_helpers_folded:
  assumes m: "index_of procs m" and short: "chains_short procs"
  shows "folded_inv os m procs [0 ..< length procs] (coalesce_helpers os m procs)"
proof -
  have "n \<le> length procs \<Longrightarrow> folded_inv os m procs [0 ..< n] (foldl (coalesce_step os m) procs [0 ..< n])" for n
  proof (induction n)
    case 0
    then show ?case by (simp add: folded_inv_def)
  next
    case (Suc n)
    then show ?case using folded_inv_step [OF Suc.IH m short, of n] by simp
  qed
  then show ?thesis by (simp add: coalesce_helpers_def)
qed

lemma same_links_coalesce: "same_links procs (coalesce_helpers os m procs)"
proof -
  have "same_links procs (foldl (coalesce_step os m) procs is)" for "is"
  proof (induction "is" rule: rev_induct)
    case (snoc x xs)
    then show ?case
      by (auto simp: coalesce_step_def split: option.split intro: same_links_trans same_links_fold_one)
  qed simp
  then show ?thesis by (simp add: coalesce_helpers_def)
qed

subsection \<open>What the traversal does\<close>

definition busy :: "(u32 \<times> u32) list \<Rightarrow> proc_info \<Rightarrow> bool" where
  "busy prev p \<longleftrightarrow> cpu p \<ge> keep_thresh prev p"

text \<open>Descendants of a visible process, through hidden ones too.\<close>

inductive reached :: "proc_info list \<Rightarrow> nat \<Rightarrow> bool" for procs where
  seed: "i < length procs \<Longrightarrow> visible (procs ! i) \<Longrightarrow> reached procs i"
| child: "reached procs i \<Longrightarrow> parent_of procs k = Some i \<Longrightarrow> k < length procs \<Longrightarrow> reached procs k"

definition survives :: "(u32 \<times> u32) list \<Rightarrow> proc_info list \<Rightarrow> nat \<Rightarrow> bool" where
  "survives prev procs k \<longleftrightarrow> visible (procs ! k) \<or>
     (\<exists>p. parent_of procs k = Some p \<and> reached procs p \<and> busy prev (procs ! k))"

text \<open>The first survivor on the way up from a process, itself included.\<close>

inductive nearest :: "(u32 \<times> u32) list \<Rightarrow> proc_info list \<Rightarrow> nat \<Rightarrow> nat \<Rightarrow> bool" for prev procs where
  here: "survives prev procs i \<Longrightarrow> nearest prev procs i i"
| up: "\<not> survives prev procs i \<Longrightarrow> parent_of procs i = Some p \<Longrightarrow> nearest prev procs p a \<Longrightarrow> nearest prev procs i a"

inductive_cases nearestE: "nearest prev procs i a"

lemma nearest_survives: "nearest prev procs i a \<Longrightarrow> survives prev procs a"
  by (induction rule: nearest.induct)

lemma nearest_unique: "nearest prev procs i a \<Longrightarrow> nearest prev procs i b \<Longrightarrow> a = b"
  by (induction rule: nearest.induct) (auto elim: nearestE)

definition same_stats :: "proc_info \<Rightarrow> proc_info \<Rightarrow> bool" where
  "same_stats p p' \<longleftrightarrow> pid p' = pid p \<and> cpu p' = cpu p \<and> rss_kib p' = rss_kib p \<and> gpu p' = gpu p \<and>
     display p' = display p \<and> age_secs p' = age_secs p"

lemma same_stats_refl [simp]: "same_stats p p" by (simp add: same_stats_def)

lemma same_stats_trans: "same_stats a b \<Longrightarrow> same_stats b c \<Longrightarrow> same_stats a c"
  by (simp add: same_stats_def)

lemma busy_cong: "same_stats p p' \<Longrightarrow> busy prev p' = busy prev p"
  by (simp add: same_stats_def busy_def keep_thresh_def)

definition upd_kid :: "(u32 \<times> u32) list \<Rightarrow> bool \<Rightarrow> u32 \<Rightarrow> proc_info \<Rightarrow> proc_info" where
  "upd_kid prev i_visible last_vis_pid k =
     (let k1 = (if busy prev k then set_visible True k else k)
      in if visible k1 \<and> \<not> i_visible then k1\<lparr>ppid := last_vis_pid\<rparr> else k1)"

lemma upd_kid_stats: "same_stats k (upd_kid prev v q k)"
  by (simp add: upd_kid_def same_stats_def Let_def)

lemma upd_kid_visible: "visible (upd_kid prev v q k) \<longleftrightarrow> visible k \<or> busy prev k"
  by (simp add: upd_kid_def Let_def)

lemma upd_kid_ppid: "ppid (upd_kid prev v q k) = (if (visible k \<or> busy prev k) \<and> \<not> v then q else ppid k)"
  by (simp add: upd_kid_def Let_def)

lemma visit_kid_upd:
  "visit_kid prev v lv q (procs, queue, enqueued) kid =
     (procs[kid := upd_kid prev v q (procs ! kid)],
      if enqueued ! kid = 0
      then fvec_push_ignore queue (kid, if visible (upd_kid prev v q (procs ! kid)) then kid else lv) else queue,
      if enqueued ! kid = 0 then enqueued[kid := 1] else enqueued)"
  by (simp add: visit_kid_def upd_kid_def Let_def busy_def)

lemma kids_fold:
  assumes "distinct ks" "set ks \<subseteq> {..< length procs}" "length enqueued = length procs"
    and "length (fv_elems queue) + length (List.filter (\<lambda>k. enqueued ! k = 0) ks) \<le> fv_capacity queue"
  shows "\<exists>procs' queue' enqueued'. foldl (visit_kid prev v lv q) (procs, queue, enqueued) ks = (procs', queue', enqueued') \<and>
    length procs' = length procs \<and> length enqueued' = length procs \<and> fv_capacity queue' = fv_capacity queue \<and>
    (\<forall>j. procs' ! j = (if j \<in> set ks then upd_kid prev v q (procs ! j) else procs ! j)) \<and>
    fv_elems queue' = fv_elems queue @
      List.map (\<lambda>k. (k, if visible (upd_kid prev v q (procs ! k)) then k else lv)) (List.filter (\<lambda>k. enqueued ! k = 0) ks) \<and>
    (\<forall>j < length procs. enqueued' ! j \<noteq> 0 \<longleftrightarrow> enqueued ! j \<noteq> 0 \<or> j \<in> set ks)"
  using assms
proof (induction ks arbitrary: procs queue enqueued)
  case (Cons k ks)
  let ?u = "upd_kid prev v q"
  let ?procs = "procs[k := ?u (procs ! k)]"
  let ?enq = "if enqueued ! k = 0 then enqueued[k := 1] else enqueued"
  let ?queue = "if enqueued ! k = 0
      then fvec_push_ignore queue (k, if visible (?u (procs ! k)) then k else lv) else queue"
  have k: "k < length procs" "k \<notin> set ks" using Cons.prems by auto
  have nth: "procs[k := x] ! j = procs ! j" if "j \<in> set ks" for j x using that k by (cases "k = j") simp_all
  have fil: "List.filter (\<lambda>j. ?enq ! j = 0) ks = List.filter (\<lambda>j. enqueued ! j = 0) ks"
    using k by (intro filter_cong) (auto simp: nth_update_if)
  have room: "length (fv_elems ?queue) + length (List.filter (\<lambda>j. ?enq ! j = 0) ks) \<le> fv_capacity ?queue"
    unfolding fil using Cons.prems(4) by (cases "enqueued ! k = 0") (simp_all add: fvec_push_ignore_elems)
  have q: "fv_elems ?queue = fv_elems queue @ (if enqueued ! k = 0 then [(k, if visible (?u (procs ! k)) then k else lv)] else [])"
    "fv_capacity ?queue = fv_capacity queue"
    using Cons.prems(4) by (auto simp: fvec_push_ignore_elems)
  have ks: "distinct ks" "set ks \<subseteq> {..< length ?procs}" "length ?enq = length ?procs" using Cons.prems by auto
  from Cons.IH [OF ks room] obtain procs' queue' enqueued'
    where r: "foldl (visit_kid prev v lv q) (?procs, ?queue, ?enq) ks = (procs', queue', enqueued')"
      "length procs' = length ?procs" "length enqueued' = length ?procs" "fv_capacity queue' = fv_capacity ?queue"
      "\<forall>j. procs' ! j = (if j \<in> set ks then ?u (?procs ! j) else ?procs ! j)"
      "fv_elems queue' = fv_elems ?queue @
        List.map (\<lambda>k. (k, if visible (?u (?procs ! k)) then k else lv)) (List.filter (\<lambda>k. ?enq ! k = 0) ks)"
      "\<forall>j < length ?procs. enqueued' ! j \<noteq> 0 \<longleftrightarrow> ?enq ! j \<noteq> 0 \<or> j \<in> set ks"
    by blast
  have m: "List.map (\<lambda>k. (k, if visible (?u (?procs ! k)) then k else lv)) (List.filter (\<lambda>k. enqueued ! k = 0) ks) =
      List.map (\<lambda>k. (k, if visible (?u (procs ! k)) then k else lv)) (List.filter (\<lambda>k. enqueued ! k = 0) ks)"
    by (rule map_cong) (auto simp: nth)
  show ?case
  proof (intro exI conjI)
    show "foldl (visit_kid prev v lv q) (procs, queue, enqueued) (k # ks) = (procs', queue', enqueued')"
      using r(1) by (simp add: visit_kid_upd)
    show "\<forall>j. procs' ! j = (if j \<in> set (k # ks) then ?u (procs ! j) else procs ! j)"
      using r(5) k by (auto simp: nth)
    show "fv_elems queue' = fv_elems queue @
        List.map (\<lambda>k. (k, if visible (?u (procs ! k)) then k else lv)) (List.filter (\<lambda>k. enqueued ! k = 0) (k # ks))"
      unfolding r(6) fil m q(1) by simp
    show "\<forall>j < length procs. enqueued' ! j \<noteq> 0 \<longleftrightarrow> enqueued ! j \<noteq> 0 \<or> j \<in> set (k # ks)"
      using r(7) k Cons.prems(3) by (auto simp: nth_update_if)
  qed (use r q in simp_all)
qed auto

text \<open>The invariant: \<open>dn\<close> are the positions popped so far, \<open>q\<close> the queue.\<close>

definition kid_done :: "proc_info list \<Rightarrow> nat set \<Rightarrow> nat \<Rightarrow> bool" where
  "kid_done procs dn j \<longleftrightarrow> (\<exists>i \<in> dn. parent_of procs j = Some i)"

definition state_ok :: "(u32 \<times> u32) list \<Rightarrow> proc_info list \<Rightarrow> nat set \<Rightarrow> nat \<Rightarrow> proc_info \<Rightarrow> bool" where
  "state_ok prev procs dn j p \<longleftrightarrow> same_stats (procs ! j) p \<and>
     (visible p \<longleftrightarrow> visible (procs ! j) \<or> kid_done procs dn j \<and> busy prev (procs ! j)) \<and>
     (if \<exists>i \<in> dn. parent_of procs j = Some i \<and> \<not> survives prev procs i \<and> survives prev procs j
      then \<exists>i a. parent_of procs j = Some i \<and> nearest prev procs i a \<and> ppid p = pid (procs ! a)
      else ppid p = ppid (procs ! j))"

definition bfs_inv ::
  "(u32 \<times> u32) list \<Rightarrow> proc_info list \<Rightarrow> nat set \<Rightarrow> proc_info list \<Rightarrow> (nat \<times> nat) list \<Rightarrow> u8 list \<Rightarrow> bool" where
  "bfs_inv prev procs dn procs' q enq \<longleftrightarrow>
     length procs' = length procs \<and> length enq = length procs \<and>
     (\<forall>j < length procs. state_ok prev procs dn j (procs' ! j)) \<and>
     distinct (List.map fst q) \<and> fst ` set q \<inter> dn = {} \<and>
     (\<forall>j < length procs. enq ! j \<noteq> 0 \<longleftrightarrow> j \<in> dn \<or> j \<in> fst ` set q) \<and>
     dn \<union> fst ` set q \<subseteq> {i. i < length procs \<and> reached procs i \<and> (visible (procs ! i) \<or> kid_done procs dn i)} \<and>
     (\<forall>(i, lv) \<in> set q. nearest prev procs i lv \<and> lv < length procs) \<and>
     (\<forall>j < length procs. visible (procs ! j) \<or> kid_done procs dn j \<longrightarrow> j \<in> dn \<or> j \<in> fst ` set q)"

lemma kid_done_insert: "kid_done procs (insert i dn) j \<longleftrightarrow> parent_of procs j = Some i \<or> kid_done procs dn j"
  by (auto simp: kid_done_def)

lemma state_ok_other:
  "parent_of procs j \<noteq> Some i \<Longrightarrow> state_ok prev procs (insert i dn) j p = state_ok prev procs dn j p"
  by (simp add: state_ok_def kid_done_insert)

lemma state_ok_kid:
  assumes ok: "state_ok prev procs dn j p" and par: "parent_of procs j = Some i" and new: "i \<notin> dn"
    and i: "reached procs i" "v \<longleftrightarrow> survives prev procs i" and near: "nearest prev procs i lv"
  shows "state_ok prev procs (insert i dn) j (upd_kid prev v (pid (procs ! lv)) p)"
proof -
  have nd: "\<not> kid_done procs dn j" using par new by (auto simp: kid_done_def)
  have st: "same_stats (procs ! j) p" using ok by (simp add: state_ok_def)
  have vis: "visible p \<longleftrightarrow> visible (procs ! j)" and pp: "ppid p = ppid (procs ! j)"
    using ok par new nd by (auto simp: state_ok_def split: if_splits)
  have sj: "survives prev procs j \<longleftrightarrow> visible (procs ! j) \<or> busy prev (procs ! j)"
    using par i(1) by (auto simp: survives_def)
  have "same_stats (procs ! j) (upd_kid prev v (pid (procs ! lv)) p)"
    using same_stats_trans [OF st upd_kid_stats] .
  moreover have "visible (upd_kid prev v (pid (procs ! lv)) p) \<longleftrightarrow> visible (procs ! j) \<or> busy prev (procs ! j)"
    by (simp add: upd_kid_visible vis busy_cong [OF st])
  moreover have "ppid (upd_kid prev v (pid (procs ! lv)) p) =
      (if survives prev procs j \<and> \<not> survives prev procs i then pid (procs ! lv) else ppid (procs ! j))"
    by (simp add: upd_kid_ppid vis pp sj i(2) busy_cong [OF st])
  ultimately show ?thesis
    using par near by (auto simp: state_ok_def kid_done_insert)
qed

lemma bfs_inv_visible:
  assumes "bfs_inv prev procs dn procs' q enq" "i < length procs" "i \<in> dn \<or> i \<in> fst ` set q"
  shows "visible (procs' ! i) \<longleftrightarrow> survives prev procs i"
proof -
  have r: "visible (procs ! i) \<or> kid_done procs dn i" and dn: "dn \<subseteq> {i. reached procs i}"
    and ok: "state_ok prev procs dn i (procs' ! i)"
    using assms by (auto simp: bfs_inv_def)
  then show ?thesis by (auto simp: state_ok_def survives_def kid_done_def)
qed

lemma bfs_inv_step:
  assumes inv: "bfs_inv prev procs dn procs' (q @ [(i, lv)]) enq"
    and procs2: "length procs2 = length procs" "length enq2 = length procs"
      "\<forall>j. procs2 ! j = (if j \<in> set (kids_of procs i)
          then upd_kid prev (visible (procs' ! i)) (pid (procs' ! lv)) (procs' ! j) else procs' ! j)"
    and q2: "q2 = q @ List.map (\<lambda>k. (k, if visible (procs2 ! k) then k else lv))
        (List.filter (\<lambda>k. enq ! k = 0) (kids_of procs i))"
    and enq2: "\<forall>j < length procs. enq2 ! j \<noteq> 0 \<longleftrightarrow> enq ! j \<noteq> 0 \<or> j \<in> set (kids_of procs i)"
  shows "bfs_inv prev procs (insert i dn) procs2 q2 enq2"
proof -
  have i: "i < length procs" "reached procs i" "i \<notin> dn" "i \<notin> fst ` set q" and near: "nearest prev procs i lv" "lv < length procs"
    using inv by (auto simp: bfs_inv_def)
  have vi: "visible (procs' ! i) \<longleftrightarrow> survives prev procs i"
    using bfs_inv_visible [OF inv i(1)] by simp
  have plv: "pid (procs' ! lv) = pid (procs ! lv)" using inv near(2) by (simp add: bfs_inv_def state_ok_def same_stats_def)
  have ok: "\<forall>j < length procs. state_ok prev procs (insert i dn) j (procs2 ! j)"
  proof (intro allI impI)
    fix j assume j: "j < length procs"
    then have "state_ok prev procs dn j (procs' ! j)" using inv by (simp add: bfs_inv_def)
    with j i near vi plv show "state_ok prev procs (insert i dn) j (procs2 ! j)"
      by (cases "parent_of procs j = Some i") (simp_all add: procs2(3) kids_of_iff state_ok_kid state_ok_other)
  qed
  let ?new = "List.filter (\<lambda>k. enq ! k = 0) (kids_of procs i)"
  have map_q2: "List.map fst q2 = List.map fst q @ ?new" by (simp add: q2 comp_def)
  then have "set (List.map fst q2) = set (List.map fst q) \<union> set ?new" by simp
  then have set_q2: "fst ` set q2 = fst ` set q \<union> set ?new" by (simp del: set_filter)
  note fst_q2 = map_q2 set_q2
  have enq: "\<forall>j < length procs. enq ! j \<noteq> 0 \<longleftrightarrow> j \<in> insert i dn \<or> j \<in> fst ` set q"
    using inv by (auto simp: bfs_inv_def)
  have new: "k < length procs \<and> parent_of procs k = Some i \<and> k \<notin> insert i dn \<and> k \<notin> fst ` set q" if "k \<in> set ?new" for k
    using that enq by (auto simp: kids_of_iff)
  have near2: "nearest prev procs k (if visible (procs2 ! k) then k else lv)" if k: "k \<in> set ?new" for k
  proof -
    have "visible (procs2 ! k) \<longleftrightarrow> survives prev procs k"
      using ok new [OF k] i(2) by (auto simp: state_ok_def survives_def kid_done_insert)
    with new [OF k] near show ?thesis by (auto intro: nearest.intros)
  qed
  have kd: "kid_done procs (insert i dn) j \<longleftrightarrow> j \<in> set (kids_of procs i) \<or> kid_done procs dn j" if "j < length procs" for j
    using that by (auto simp: kid_done_insert kids_of_iff)
  show ?thesis
    unfolding bfs_inv_def
  proof (intro conjI)
    show "distinct (List.map fst q2)" using inv new unfolding fst_q2 by (auto simp: bfs_inv_def)
    show "fst ` set q2 \<inter> insert i dn = {}" using inv new i unfolding fst_q2 by (auto simp: bfs_inv_def)
    show "\<forall>j < length procs. enq2 ! j \<noteq> 0 \<longleftrightarrow> j \<in> insert i dn \<or> j \<in> fst ` set q2"
      using enq enq2 unfolding fst_q2 by auto
    show "\<forall>(j, a) \<in> set q2. nearest prev procs j a \<and> a < length procs"
      using inv near2 near new by (auto simp: q2 bfs_inv_def)
    show "insert i dn \<union> fst ` set q2 \<subseteq>
      {j. j < length procs \<and> reached procs j \<and> (visible (procs ! j) \<or> kid_done procs (insert i dn) j)}"
    proof -
      have "insert i dn \<union> fst ` set q \<subseteq>
        {j. j < length procs \<and> reached procs j \<and> (visible (procs ! j) \<or> kid_done procs (insert i dn) j)}"
        using inv by (auto simp: bfs_inv_def kid_done_insert)
      moreover have "set ?new \<subseteq>
        {j. j < length procs \<and> reached procs j \<and> (visible (procs ! j) \<or> kid_done procs (insert i dn) j)}"
        using new i(2) by (auto simp: kid_done_insert intro: reached.child)
      ultimately show ?thesis unfolding fst_q2 by blast
    qed
    show "\<forall>j < length procs. visible (procs ! j) \<or> kid_done procs (insert i dn) j \<longrightarrow> j \<in> insert i dn \<or> j \<in> fst ` set q2"
      using inv enq kd unfolding fst_q2 by (auto simp: bfs_inv_def)
  qed (use procs2 ok in auto)
qed

lemma bfs_inv_final:
  assumes inv: "bfs_inv prev procs dn procs' [] enq"
  shows "dn = {i. reached procs i}"
proof
  show "dn \<subseteq> {i. reached procs i}" using inv by (auto simp: bfs_inv_def)
  have "reached procs i \<Longrightarrow> i \<in> dn" for i
    by (induction rule: reached.induct) (use inv in \<open>auto simp: bfs_inv_def kid_done_def\<close>)
  then show "{i. reached procs i} \<subseteq> dn" by blast
qed

lemma bfs_loop_inv:
  assumes "bfs_inv prev procs dn procs' (fv_elems queue) enq" "fv_capacity queue = length procs"
    and "\<forall>b < length procs. fnest_bucket children b = Some (kids_of procs b)"
  shows "\<exists>procs2 enq2. bfs_loop prev children procs' queue enq = Some (Inr procs2) \<and>
    bfs_inv prev procs {i. reached procs i} procs2 [] enq2"
  using assms(1,2)
proof (induction "length procs - card dn" arbitrary: dn procs' queue enq rule: less_induct)
  case less
  show ?case
  proof (cases "fv_elems queue" rule: rev_cases)
    case Nil
    then have "bfs_loop prev children procs' queue enq = Some (Inr procs')"
      by (subst bfs_loop.simps) (simp add: fvec_pop_def)
    with less.prems(1) Nil bfs_inv_final show ?thesis by metis
  next
    case (snoc q e)
    obtain i lv where e: "e = (i, lv)" by (cases e)
    note inv = less.prems(1) [unfolded snoc e]
    let ?n = "length procs"
    have i: "i < ?n" "i \<notin> dn" and dn: "dn \<subseteq> {..< ?n}" and len: "length procs' = ?n" "length enq = ?n"
      and enq: "\<forall>j < ?n. enq ! j \<noteq> 0 \<longleftrightarrow> j \<in> dn \<or> j \<in> fst ` set (q @ [(i, lv)])"
      and dq: "distinct (List.map fst q)" "fst ` set q \<subseteq> {..< ?n}"
      using inv by (auto simp: bfs_inv_def)
    let ?queue = "queue\<lparr>fv_elems := q\<rparr>" and ?new = "List.filter (\<lambda>k. enq ! k = 0) (kids_of procs i)"
    have "set ?new \<inter> fst ` set q = {}" using enq by (auto simp: kids_of_iff)
    then have "distinct (List.map fst q @ ?new)" using dq by auto
    then have "length (List.map fst q @ ?new) \<le> ?n" using dq by (intro distinct_bound) (auto simp: kids_of_iff)
    then have room: "length (fv_elems ?queue) + length ?new \<le> fv_capacity ?queue" using less.prems(2) by simp
    have kids: "set (kids_of procs i) \<subseteq> {..< length procs'}" "length enq = length procs'"
      using len by (auto simp: kids_of_iff)
    from kids_fold [OF distinct_kids_of kids room] obtain procs1 queue1 enq1
      where r: "foldl (visit_kid prev (visible (procs' ! i)) lv (pid (procs' ! lv))) (procs', ?queue, enq) (kids_of procs i)
          = (procs1, queue1, enq1)"
        "length procs1 = length procs'" "length enq1 = length procs'" "fv_capacity queue1 = fv_capacity ?queue"
        "\<forall>j. procs1 ! j = (if j \<in> set (kids_of procs i)
           then upd_kid prev (visible (procs' ! i)) (pid (procs' ! lv)) (procs' ! j) else procs' ! j)"
        "fv_elems queue1 = fv_elems ?queue @ List.map (\<lambda>k. (k, if visible (upd_kid prev (visible (procs' ! i))
            (pid (procs' ! lv)) (procs' ! k)) then k else lv)) ?new"
        "\<forall>j < length procs'. enq1 ! j \<noteq> 0 \<longleftrightarrow> enq ! j \<noteq> 0 \<or> j \<in> set (kids_of procs i)"
      by blast
    have "fv_elems queue1 = q @ List.map (\<lambda>k. (k, if visible (procs1 ! k) then k else lv)) ?new"
      unfolding r(6) using r(5) by simp
    from bfs_inv_step [OF inv _ _ r(5) this] r(2,3,7) len
    have "bfs_inv prev procs (insert i dn) procs1 (fv_elems queue1) enq1" by simp
    moreover have "?n - card (insert i dn) < ?n - card dn"
    proof -
      have "card (insert i dn) \<le> ?n" using i dn card_mono [of "{..< ?n}" "insert i dn"] by simp
      moreover have "card (insert i dn) = Suc (card dn)" using i dn finite_subset by (subst card_insert_disjoint) auto
      ultimately show ?thesis by simp
    qed
    moreover have "fv_capacity queue1 = ?n" using r(4) less.prems(2) by simp
    ultimately have "\<exists>procs2 enq2. bfs_loop prev children procs1 queue1 enq1 = Some (Inr procs2) \<and>
        bfs_inv prev procs {i. reached procs i} procs2 [] enq2" using less.hyps by blast
    moreover have "bfs_loop prev children procs' queue enq = bfs_loop prev children procs1 queue1 enq1"
      using assms(3) i(1) by (subst bfs_loop.simps) (simp add: fvec_pop_def snoc e Let_def r(1))
    ultimately show ?thesis by simp
  qed
qed

subsection \<open>The whole filter\<close>

lemma seed_queue_eq:
  "seed_queue procs =
     (\<lparr>fv_capacity = length procs, fv_elems = List.map (\<lambda>i. (i, i)) (List.filter (\<lambda>i. visible (procs ! i)) [0 ..< length procs])\<rparr>,
      List.map (\<lambda>i. of_bool (visible (procs ! i))) [0 ..< length procs])"
proof -
  have "n \<le> length procs \<Longrightarrow>
    foldl (\<lambda>(queue, enqueued) i.
         let vis = visible (procs ! i)
         in (if vis then fvec_push_ignore queue (i, i) else queue, enqueued @ [of_bool vis]))
       (fvec_new (length procs), []) [0 ..< n] =
     (\<lparr>fv_capacity = length procs, fv_elems = List.map (\<lambda>i. (i, i)) (List.filter (\<lambda>i. visible (procs ! i)) [0 ..< n])\<rparr>,
      List.map (\<lambda>i. of_bool (visible (procs ! i)) :: u8) [0 ..< n])" for n
  proof (induction n)
    case 0
    then show ?case by (simp add: fvec_new_def)
  next
    case (Suc n)
    have "length (List.filter (\<lambda>i. visible (procs ! i)) [0 ..< n]) \<le> n"
      using length_filter_le [of _ "[0 ..< n]"] by simp
    with Suc show ?case by (simp add: Let_def fvec_push_ignore_def fvec_push_def)
  qed
  then show ?thesis by (simp add: seed_queue_def)
qed

lemma bfs_inv_init:
  "seed_queue procs = (queue, enq) \<Longrightarrow> bfs_inv prev procs {} procs (fv_elems queue) enq"
proof -
  assume "seed_queue procs = (queue, enq)"
  then have q: "fv_elems queue = List.map (\<lambda>i. (i, i)) (List.filter (\<lambda>i. visible (procs ! i)) [0 ..< length procs])"
    and e: "enq = List.map (\<lambda>i. of_bool (visible (procs ! i))) [0 ..< length procs]"
    by (auto simp: seed_queue_eq)
  have m: "List.map fst (fv_elems queue) = List.filter (\<lambda>i. visible (procs ! i)) [0 ..< length procs]"
    by (simp add: q comp_def)
  from arg_cong [OF m, of set] have s: "fst ` set (fv_elems queue) = {i. i < length procs \<and> visible (procs ! i)}"
    by auto
  show ?thesis
    unfolding bfs_inv_def s m e
    by (auto simp: q kid_done_def state_ok_def survives_def intro: reached.seed nearest.here)
qed

lemma retain_visible_spec:
  "length nxt = i + length ps \<Longrightarrow>
   \<exists>nxt'. retain_spec retain_visible (i, nxt) ps = ((i + length ps, nxt'), List.filter visible ps) \<and> length nxt' = length nxt \<and>
     (\<forall>j < i. nxt' ! j = nxt ! j) \<and>
     (\<forall>j < length ps. nxt' ! (i + j) =
        (if visible (ps ! j) then (fst (nxt ! (i + j)), packed_set_visible (snd (nxt ! (i + j)))) else nxt ! (i + j)))"
proof (induction ps arbitrary: i nxt)
  case (Cons p ps)
  let ?nxt = "if visible p then nxt[i := (fst (nxt ! i), packed_set_visible (snd (nxt ! i)))] else nxt"
  have len: "length ?nxt = Suc i + length ps" using Cons.prems by simp
  from Cons.IH [OF len] obtain nxt'
    where r: "retain_spec retain_visible (Suc i, ?nxt) ps = ((Suc i + length ps, nxt'), List.filter visible ps)"
      "length nxt' = length ?nxt" "\<forall>j < Suc i. nxt' ! j = ?nxt ! j"
      "\<forall>j < length ps. nxt' ! (Suc i + j) = (if visible (ps ! j)
         then (fst (?nxt ! (Suc i + j)), packed_set_visible (snd (?nxt ! (Suc i + j)))) else ?nxt ! (Suc i + j))"
    by blast
  show ?case
  proof (intro exI [of _ nxt'] conjI allI impI)
    show "retain_spec retain_visible (i, nxt) (p # ps) = ((i + length (p # ps), nxt'), List.filter visible (p # ps))"
      using r(1) by (simp add: retain_visible_def)
    show "length nxt' = length nxt" using r(2) by simp
    show "nxt' ! j = nxt ! j" if "j < i" for j using r(3) that by simp
    show "nxt' ! (i + j) = (if visible ((p # ps) ! j)
        then (fst (nxt ! (i + j)), packed_set_visible (snd (nxt ! (i + j)))) else nxt ! (i + j))"
      if "j < length (p # ps)" for j
    proof (cases j)
      case 0
      with r(3) Cons.prems show ?thesis by simp
    next
      case (Suc k)
      with r(4) that show ?thesis by (simp add: nth_update_if)
    qed
  qed
qed simp

text \<open>The list after coalescing.\<close>

definition coalesced :: "target_os \<Rightarrow> proc_info list \<Rightarrow> proc_info list" where
  "coalesced os procs =
     (case build_pid_to_idx procs of Inr m \<Rightarrow> coalesce_helpers os m procs | Inl _ \<Rightarrow> procs)"

lemma kids_of_cong: "same_links procs procs' \<Longrightarrow> kids_of procs' b = kids_of procs b"
  unfolding kids_of_def using parent_of_cong [of procs procs']
  by (auto simp: same_links_def intro!: filter_cong)

lemma filter_with_children_result:
  assumes "pids_distinct (fv_elems procs)" "length nxt = length (fv_elems procs)"
    and P_def: "P = coalesced os (fv_elems procs)"
  shows "\<exists>procs2 nxt'. filter_with_children os procs prev nxt =
      Some (Inr (procs\<lparr>fv_elems := List.filter visible procs2\<rparr>, nxt')) \<and>
    length procs2 = length P \<and> (\<forall>j < length P. state_ok prev P {i. reached P i} j (procs2 ! j)) \<and>
    length nxt' = length P \<and> (\<forall>j < length P. nxt' ! j =
      (if visible (procs2 ! j) then (fst (nxt ! j), packed_set_visible (snd (nxt ! j))) else nxt ! j))"
proof -
  let ?ps = "fv_elems procs"
  from build_pid_to_idx_get [OF assms(1)] obtain m where m: "build_pid_to_idx ?ps = Inr m"
    "\<forall>q. map_get m q = List.find (\<lambda>j. pid (?ps ! j) = q) [0 ..< length ?ps]" by blast
  from build_children_bucket [OF m(2)] obtain nst where nst: "build_children ?ps m = Inr nst"
    "\<forall>b < length ?ps. fnest_bucket nst b = Some (kids_of ?ps b)" by blast
  have P: "P = coalesce_helpers os m ?ps" by (simp add: P_def coalesced_def m)
  have links: "same_links ?ps P" unfolding P by (rule same_links_coalesce)
  then have len: "length P = length ?ps" by (simp add: same_links_def)
  obtain queue enq where sq: "seed_queue P = (queue, enq)" by force
  then have cap: "fv_capacity queue = length P" by (auto simp: seed_queue_eq)
  have kids: "\<forall>b < length P. fnest_bucket nst b = Some (kids_of P b)"
    using nst(2) len kids_of_cong [OF links] by simp
  from bfs_loop_inv [OF bfs_inv_init [OF sq] cap kids] obtain procs2 enq2
    where b: "bfs_loop prev nst P queue enq = Some (Inr procs2)" "bfs_inv prev P {i. reached P i} procs2 [] enq2"
    by blast
  from b(2) have l2: "length procs2 = length P" and ok: "\<forall>j < length P. state_ok prev P {i. reached P i} j (procs2 ! j)"
    by (simp_all add: bfs_inv_def)
  have "length nxt = 0 + length procs2" using l2 len assms(2) by simp
  from retain_visible_spec [OF this] obtain nxt' where
    r: "retain_spec retain_visible (0, nxt) procs2 = ((length procs2, nxt'), List.filter visible procs2)"
      "length nxt' = length nxt" "\<forall>j < length procs2. nxt' ! j =
        (if visible (procs2 ! j) then (fst (nxt ! j), packed_set_visible (snd (nxt ! j))) else nxt ! j)" by auto
  have "filter_with_children os procs prev nxt =
      Some (Inr (procs\<lparr>fv_elems := List.filter visible procs2\<rparr>, nxt'))"
    by (simp add: filter_with_children_def m nst(1) P [symmetric] sq Let_def b(1) fvec_retain_in_place_eq r(1))
  with l2 ok r(2,3) len assms(2) show ?thesis by auto
qed

subsection \<open>Properties\<close>



text \<open>C14: \<open>filter_with_children\<close> returns on every list of distinct pids, cycles of parent links
  included, without overflowing its queue. A process survives exactly if it is visible after
  coalescing, or its parent is a descendant of a visible process and its own cpu share passes its
  threshold; the survivors keep their order and everything but visibility and parent link. A
  survivor whose parent is hidden is hung off its nearest surviving ancestor, if it has one, and
  keeps its parent link otherwise. In \<open>next\<close> exactly the survivors' entries are marked visible.\<close>

theorem filter_with_children_correct:
  assumes "pids_distinct (fv_elems procs)" "length nxt = length (fv_elems procs)"
    and "P = coalesced os (fv_elems procs)"
  shows "\<exists>procs2 nxt'. filter_with_children os procs prev nxt =
      Some (Inr (procs\<lparr>fv_elems := List.filter visible procs2\<rparr>, nxt')) \<and>
    length procs2 = length P \<and> length nxt' = length P \<and>
    (\<forall>j < length P. same_stats (P ! j) (procs2 ! j) \<and>
      (visible (procs2 ! j) \<longleftrightarrow> survives prev P j) \<and>
      (if \<exists>i. parent_of P j = Some i \<and> reached P i \<and> \<not> survives prev P i \<and> survives prev P j
       then \<exists>i a. parent_of P j = Some i \<and> nearest prev P i a \<and> ppid (procs2 ! j) = pid (P ! a)
       else ppid (procs2 ! j) = ppid (P ! j)) \<and>
      nxt' ! j = (if survives prev P j then (fst (nxt ! j), packed_set_visible (snd (nxt ! j))) else nxt ! j))"
proof -
  from filter_with_children_result [OF assms, of prev] obtain procs2 nxt' where
    r: "filter_with_children os procs prev nxt = Some (Inr (procs\<lparr>fv_elems := List.filter visible procs2\<rparr>, nxt'))"
      "length procs2 = length P" "\<forall>j < length P. state_ok prev P {i. reached P i} j (procs2 ! j)"
      "length nxt' = length P" "\<forall>j < length P. nxt' ! j =
        (if visible (procs2 ! j) then (fst (nxt ! j), packed_set_visible (snd (nxt ! j))) else nxt ! j)" by blast
  have v: "visible (procs2 ! j) \<longleftrightarrow> survives prev P j" if "j < length P" for j
    using r(3) that by (auto simp: state_ok_def survives_def kid_done_def)
  show ?thesis
  proof (intro exI conjI allI impI)
    fix j assume j: "j < length P"
    with r(3) have ok: "state_ok prev P {i. reached P i} j (procs2 ! j)" by blast
    then show "same_stats (P ! j) (procs2 ! j)" by (simp add: state_ok_def)
    show "if \<exists>i. parent_of P j = Some i \<and> reached P i \<and> \<not> survives prev P i \<and> survives prev P j
       then \<exists>i a. parent_of P j = Some i \<and> nearest prev P i a \<and> ppid (procs2 ! j) = pid (P ! a)
       else ppid (procs2 ! j) = ppid (P ! j)"
      using ok by (auto simp: state_ok_def split: if_splits)
    show "nxt' ! j = (if survives prev P j then (fst (nxt ! j), packed_set_visible (snd (nxt ! j))) else nxt ! j)"
      using r(5) v [OF j] j by simp
  qed (use r v in auto)
qed

theorem filter_with_children_correct_witness:
  "\<exists>r. filter_with_children Linux \<lparr>fv_capacity = 2, fv_elems = [proc_default\<lparr>pid := 1, ppid := 2\<rparr>, proc_default\<lparr>pid := 2, ppid := 1\<rparr>]\<rparr>
     [] [(1, 0), (2, 0)] = Some (Inr r)"
proof -
  let ?v = "\<lparr>fv_capacity = 2, fv_elems = [proc_default\<lparr>pid := 1, ppid := 2\<rparr>, proc_default\<lparr>pid := 2, ppid := 1\<rparr>]\<rparr>"
  have "pids_distinct (fv_elems ?v)" "length [(1, 0), (2, 0) :: u32 \<times> u32] = length (fv_elems ?v)"
    by (simp_all add: pids_distinct_def)
  from filter_with_children_correct [OF this refl, of Linux "[]"] show ?thesis by blast
qed

end
