(* ===== verification/Render.thy ===== *)
theory Render
  imports Tree
begin

unbundle bit_operations_syntax

text \<open>
  The rendered rows of src/src/main.rs: the colour escapes, the fixed-width age and memory cells, the
  truncated command, the row colours, and \<open>render_tree\<close> with its row budget. Rows are given as what
  is emitted, in order: a process row or an elision row.
\<close>

subsection \<open>Escapes\<close>

definition ESC :: char where "ESC = CHR 0x1B"
definition FG_CLOSE :: string where "FG_CLOSE = ESC # ''[0m''"
definition EOL :: string where "EOL = ESC # ''[K'' @ [CHR 0x0A]"
definition FG_CLOSE_EOL :: string where "FG_CLOSE_EOL = ESC # ''[0m'' @ ESC # ''[K'' @ [CHR 0x0A]"
definition CURSOR_HOME :: string where "CURSOR_HOME = ESC # ''[H''"
definition CLEAR_TO_END :: string where "CLEAR_TO_END = ESC # ''[J''"
definition BOLD :: string where "BOLD = ESC # ''[1m''"

type_synonym rgb = "u8 \<times> u8 \<times> u8"

definition put_fg_open :: "rgb \<Rightarrow> wcall list" where
  "put_fg_open c =
     (case c of (r, g, b) \<Rightarrow>
       [PutBytes (ESC # ''[38;2;'')] @ put_u32d (ucast r) @ [PutByte (CHR '';'')] @
       put_u32d (ucast g) @ [PutByte (CHR '';'')] @ put_u32d (ucast b) @ [PutByte (CHR ''m'')])"

definition put_fg :: "rgb \<Rightarrow> wcall list \<Rightarrow> wcall list" where
  "put_fg c content = put_fg_open c @ content @ [PutBytes FG_CLOSE]"

definition line :: "wcall list \<Rightarrow> wcall list" where
  "line content = content @ [PutBytes EOL]"

subsection \<open>Cells\<close>

definition format_age :: "u32 \<Rightarrow> wcall list" where
  "format_age secs =
     (if secs \<ge> 86400 then
        pad_right (secs div 86400) 2 @ put_str ''d'' @ pad_zero ((secs mod 86400) div 3600) 2 @ put_str ''h''
      else if secs \<ge> 3600 then
        pad_right (secs div 3600) 2 @ put_str ''h'' @ pad_zero ((secs mod 3600) div 60) 2 @ put_str ''m''
      else if secs \<ge> 60 then
        pad_right (secs div 60) 2 @ put_str ''m'' @ pad_zero (secs mod 60) 2 @ put_str ''s''
      else pad_right secs 5 @ put_str ''s'')"

definition mem_tenths :: "u32 \<Rightarrow> u64" where
  "mem_tenths kib = drop_bit 20 (ucast kib * 10 + push_bit 19 1)"

definition format_mem :: "u32 \<Rightarrow> wcall list" where
  "format_mem kib =
     (if kib \<ge> push_bit 20 1 then
        let tenths = mem_tenths kib
        in pad_right (ucast (tenths div 10)) 3 @ put_str ''.'' @ put_u32d (ucast (tenths mod 10)) @ put_str ''G''
      else if kib \<ge> push_bit 10 1 then pad_right (drop_bit 10 kib) 5 @ put_str ''M''
      else pad_right kib 5 @ put_str ''K'')"

text \<open>\<open>while n > 0 && (s[n] & 0xC0) == 0x80 { n -= 1 }\<close>.\<close>

fun back_up :: "string \<Rightarrow> nat \<Rightarrow> nat" where
  "back_up s 0 = 0"
| "back_up s (Suc n) = (if continuation (s ! Suc n) then back_up s n else Suc n)"

definition put_truncate :: "string \<Rightarrow> nat \<Rightarrow> wcall list" where
  "put_truncate s mx =
     (if length s \<le> mx then put_u8s s
      else let target = (if mx > 3 then mx - 3 else mx);
               n = back_up s target
           in put_u8s (take n s) @ (if mx > 3 then [PutBytes ''...''] else []))"

subsection \<open>Colours\<close>

definition row_color :: "target_os \<Rightarrow> f32 \<Rightarrow> u32 \<Rightarrow> gpu_usage option \<Rightarrow> u64 \<Rightarrow> rgb" where
  "row_color os cpu_pct rss gpu_u gpu_total_mib =
     (let r0 = of_nat (min (unat rss * 255 div 4194304) 255);
          b0 = of_nat (min (float_as_nat 32 cpu_pct) 100 * 255 div 100)
      in case gpu_u of
           None \<Rightarrow> (r0, 0, b0)
         | Some g \<Rightarrow>
             let r1 = (if os = Linux \<and> gpu_total_mib > 0
                       then max r0 (of_nat (min (unat (mem_mib g) * 255 div unat gpu_total_mib) 255)) else r0);
                 gpu_b = of_nat (min (unat (sm_pct g) * 255 div 100) 255)
             in (r1, 0, max b0 gpu_b))"

definition frac_color :: "f64 \<Rightarrow> f64 \<Rightarrow> rgb" where
  "frac_color red_frac blue_frac =
     (of_nat (float_as_nat 8 (f64_mul (min red_frac 1) 255)), 0,
      of_nat (float_as_nat 8 (f64_mul (min blue_frac 1) 255)))"

subsection \<open>Rows\<close>

definition GPU_DATA_COLS :: "target_os \<Rightarrow> nat" where
  "GPU_DATA_COLS os = (case os of Macos \<Rightarrow> 1 | Linux \<Rightarrow> 2)"

definition GPU_BLANK :: "target_os \<Rightarrow> string" where
  "GPU_BLANK os = (case os of Macos \<Rightarrow> ''       '' | Linux \<Rightarrow> ''              '')"

definition GPU_HEADER :: "target_os \<Rightarrow> string" where
  "GPU_HEADER os = (case os of Macos \<Rightarrow> ''   GPU%'' | Linux \<Rightarrow> ''   GPU%   GMEM'')"

definition gpu_cells :: "target_os \<Rightarrow> bool \<Rightarrow> gpu_usage option \<Rightarrow> wcall list" where
  "gpu_cells os has_gpu gpu_u =
     (if has_gpu then
        case gpu_u of
          Some g \<Rightarrow>
            (case os of
               Macos \<Rightarrow> [PutByte (CHR '' '')] @ pad_right (sm_pct g) 6
             | Linux \<Rightarrow> [PutByte (CHR '' '')] @ pad_right (sm_pct g) 6 @ [PutByte (CHR '' '')] @
                        format_mem (push_bit 10 (mem_mib g)))
        | None \<Rightarrow> [PutBytes (GPU_BLANK os)]
      else [])"

definition emit_proc_row ::
  "target_os \<Rightarrow> proc_info list \<Rightarrow> row list \<Rightarrow> nat \<Rightarrow> nat \<Rightarrow> u64 \<Rightarrow> bool \<Rightarrow> wcall list" where
  "emit_proc_row os procs tree ti width gpu_total_mib has_gpu =
     (let (ind, idx) = tree ! ti;
          p = procs ! idx;
          color = row_color os (cpu p) (rss_kib p) (gpu p) gpu_total_mib;
          gpu_cols = (if has_gpu then GPU_DATA_COLS os else 0);
          n_data_cols = 3 + gpu_cols;
          stats_w = 7 + n_data_cols * 7;
          cmd_w = width - (stats_w + 2 + indent_width ind)
      in put_fg_open color @
         pad_left (pid p) 7 @ [PutByte (CHR '' '')] @ f1_wide (cpu p) 6 @ [PutByte (CHR '' '')] @ format_mem (rss_kib p) @
         gpu_cells os has_gpu (gpu p) @
         [PutByte (CHR '' '')] @ format_age (age_secs p) @ put_str ''  '' @ put_indent ind @ put_truncate (display p) cmd_w @
         [PutBytes FG_CLOSE_EOL])"

definition emit_elision_row :: "target_os \<Rightarrow> nat \<Rightarrow> bool \<Rightarrow> rgb \<Rightarrow> wcall list" where
  "emit_elision_row os n_more has_gpu color =
     (let blanks = 30 + (if has_gpu then GPU_DATA_COLS os * 7 else 0)
      in put_fg_open color @ repeat_char 32 blanks @ put_str corner @ put_u32d (of_nat n_more) @ put_str '' more...'' @
         [PutBytes FG_CLOSE_EOL])"

datatype rrow = RProc nat | RElision nat rgb

definition emit_rrow ::
  "target_os \<Rightarrow> proc_info list \<Rightarrow> row list \<Rightarrow> nat \<Rightarrow> u64 \<Rightarrow> bool \<Rightarrow> rrow \<Rightarrow> wcall list" where
  "emit_rrow os procs tree width gpu_total_mib has_gpu r =
     (case r of
        RProc ti \<Rightarrow> emit_proc_row os procs tree ti width gpu_total_mib has_gpu
      | RElision n_more color \<Rightarrow> emit_elision_row os n_more has_gpu color)"

subsection \<open>The row budget\<close>

definition kids_in :: "nat \<Rightarrow> nat list \<Rightarrow> nat \<Rightarrow> nat" where
  "kids_in tree_len roots k =
     (let e = (if k + 1 < length roots then roots ! (k + 1) else tree_len)
      in e - roots ! k - 1)"

definition slot_for :: "nat \<Rightarrow> nat \<Rightarrow> nat \<Rightarrow> nat \<Rightarrow> nat \<Rightarrow> nat \<Rightarrow> nat" where
  "slot_for n_roots_all child_budget total_children k kids allocated =
     (if k + 1 = n_roots_all then child_budget - allocated
      else if total_children > 0 then child_budget * kids div total_children
      else 0)"

definition limit_used :: "nat \<Rightarrow> nat \<Rightarrow> nat \<times> nat" where
  "limit_used slot kids =
     (if slot \<ge> kids then (kids, kids) else if slot > 0 then (slot - 1, slot) else (0, 0))"

text \<open>The loudest of the elided rows' colours, per channel.\<close>

definition elided_color :: "target_os \<Rightarrow> proc_info list \<Rightarrow> row list \<Rightarrow> u64 \<Rightarrow> nat list \<Rightarrow> rgb" where
  "elided_color os procs tree gpu_total_mib tis =
     (let (rmax, bmax) = foldl (\<lambda>(rmax, bmax) ti.
            let p = procs ! snd (tree ! ti);
                (r, _, b) = row_color os (cpu p) (rss_kib p) (gpu p) gpu_total_mib
            in (max rmax r, max bmax b)) (0, 0) tis
      in (rmax, 0, bmax))"

fun render_groups ::
  "target_os \<Rightarrow> proc_info list \<Rightarrow> row list \<Rightarrow> nat list \<Rightarrow> u64 \<Rightarrow> nat \<Rightarrow> nat \<Rightarrow> nat \<Rightarrow> nat list \<Rightarrow> rrow list" where
  "render_groups os procs tree roots gpu_total_mib child_budget total_children allocated [] = []"
| "render_groups os procs tree roots gpu_total_mib child_budget total_children allocated (k # ks) =
     (let root_ti = roots ! k;
          kids = kids_in (length tree) roots k;
          slot = slot_for (length roots) child_budget total_children k kids allocated;
          (limit, used) = limit_used slot kids
      in RProc root_ti # List.map RProc [root_ti + 1 ..< root_ti + 1 + limit] @
         (if used > limit
          then [RElision (kids - limit)
                  (elided_color os procs tree gpu_total_mib [root_ti + 1 + limit ..< root_ti + 1 + kids])]
          else []) @
         render_groups os procs tree roots gpu_total_mib child_budget total_children (allocated + used) ks)"

definition render_rows :: "target_os \<Rightarrow> proc_info list \<Rightarrow> row list \<Rightarrow> nat list \<Rightarrow> nat \<Rightarrow> u64 \<Rightarrow> rrow list" where
  "render_rows os procs tree roots max_rows gpu_total_mib =
     (let n_roots = min (length roots) max_rows;
          child_budget = max_rows - length roots;
          total_children = sum_list (List.map (kids_in (length tree) roots) [0 ..< length roots])
      in render_groups os procs tree roots gpu_total_mib child_budget total_children 0 [0 ..< n_roots])"

definition render_tree ::
  "target_os \<Rightarrow> proc_info list \<Rightarrow> row list \<Rightarrow> nat list \<Rightarrow> nat \<Rightarrow> nat \<Rightarrow> u64 \<Rightarrow> bool \<Rightarrow> wcall list" where
  "render_tree os procs tree roots max_rows width gpu_total_mib has_gpu =
     concat (List.map (emit_rrow os procs tree width gpu_total_mib has_gpu)
       (render_rows os procs tree roots max_rows gpu_total_mib))"

subsection \<open>Widths\<close>

lemma put_str_flat [simp]: "flat (put_str s) = s" by (simp add: put_str_def)

lemma digit_count_small: "unat n < 100 \<Longrightarrow> digit_count n \<le> 2"
  using digit_count_le [of n 2] by simp

lemma length_format_age:
  "length (flat (format_age secs)) = (if secs < 8640000 then 6 else 4 + digit_count (secs div 86400))"
proof -
  have small: "digit_count (a mod b div c) \<le> 2" if "unat b \<le> 100 * unat c" "0 < unat c" "0 < unat b" for a b c :: u32
  proof -
    have "unat a mod unat b < 100 * unat c"
      using mod_less_divisor [OF that(3), of "unat a"] that(1) by linarith
    then have "unat (a mod b div c) < 100"
      by (simp add: unat_div_distrib unat_mod_distrib less_mult_imp_div_less)
    then show ?thesis by (rule digit_count_small)
  qed
  have m60: "digit_count (a mod 60) \<le> 2" for a :: u32
    using small [of 60 1 a] by simp
  note m = small [of 86400 3600 secs] small [of 3600 60 secs] m60 [of secs]
  consider "secs \<ge> 86400" | "secs < 86400" "secs \<ge> 3600" | "secs < 3600" "secs \<ge> 60" | "secs < 60" by force
  then show ?thesis
  proof cases
    case 1
    have "secs < 8640000 \<longleftrightarrow> unat (secs div 86400) < 100"
      by (simp add: word_less_nat_alt unat_div_distrib div_less_iff_less_mult)
    moreover have "100 \<le> unat (secs div 86400) \<Longrightarrow> 2 < digit_count (secs div 86400)"
      using length_decimal_ge [of 2 "unat (secs div 86400)"] by (simp add: digit_count_length)
    with digit_count_small [of "secs div 86400"]
    have "unat (secs div 86400) < 100 \<longleftrightarrow> digit_count (secs div 86400) \<le> 2" by (meson not_le)
    ultimately show ?thesis using 1 m by (auto simp: format_age_def length_pads)
  next
    case 2
    then have "unat (secs div 3600) < 100" by (simp add: word_less_nat_alt unat_div_distrib less_mult_imp_div_less)
    then have "digit_count (secs div 3600) \<le> 2" by (rule digit_count_small)
    moreover have "secs < 8640000" using 2 by unat_arith
    ultimately show ?thesis using 2 m by (simp add: format_age_def length_pads not_le)
  next
    case 3
    then have "unat (secs div 60) < 100" by (simp add: word_less_nat_alt unat_div_distrib less_mult_imp_div_less)
    then have "digit_count (secs div 60) \<le> 2" by (rule digit_count_small)
    moreover have "secs < 8640000" "\<not> 3600 \<le> secs" "\<not> 86400 \<le> secs" using 3 by unat_arith+
    ultimately show ?thesis using 3 m by (simp add: format_age_def length_pads)
  next
    case 4
    then have "unat secs < 100" by (simp add: word_less_nat_alt)
    then have "digit_count secs \<le> 2" by (rule digit_count_small)
    moreover have "secs < 8640000" "\<not> 60 \<le> secs" "\<not> 3600 \<le> secs" "\<not> 86400 \<le> secs" using 4 by unat_arith+
    ultimately show ?thesis by (simp add: format_age_def length_pads)
  qed
qed

lemma unat_mem_tenths: "unat (mem_tenths kib) = (unat kib * 10 + 524288) div 1048576"
proof -
  have k: "unat (ucast kib :: u64) = unat kib" by (simp add: unsigned_ucast_eq take_bit_nat_eq_self unat_u32 order_less_trans [OF unat_u32])
  have "unat (ucast kib * 10 + 524288 :: u64) = unat kib * 10 + 524288"
    using unat_u32 [of kib] by (simp add: unat_word_ariths k)
  then show ?thesis by (simp add: mem_tenths_def drop_bit_eq_div unat_div_distrib)
qed

lemma ucast_small: "unat (w :: u64) < 4294967296 \<Longrightarrow> unat (ucast w :: u32) = unat w"
  by (simp add: unsigned_ucast_eq take_bit_nat_eq_self)

lemma length_format_mem:
  assumes "(unat kib * 10 + 524288) div 1048576 < 10000"
  shows "length (flat (format_mem kib)) = 6"
proof (cases "kib \<ge> push_bit 20 1")
  case True
  let ?t = "mem_tenths kib"
  have t: "unat ?t < 10000" using assms by (simp add: unat_mem_tenths)
  have "unat (?t div 10) < 1000" "unat (?t mod 10) < 10" using t by (simp_all add: unat_div_distrib unat_mod_distrib)
  then have "unat (ucast (?t div 10) :: u32) < 10 ^ 3" "unat (ucast (?t mod 10) :: u32) < 10 ^ 1"
    by (simp_all add: ucast_small)
  then have "digit_count (ucast (?t div 10)) \<le> 3" "digit_count (ucast (?t mod 10)) \<le> 1"
    by (auto intro: digit_count_le)
  moreover from this digit_count_pos have d1: "digit_count (ucast (?t mod 10)) = 1"
    by (intro le_antisym) (simp_all add: Suc_le_eq)
  ultimately show ?thesis
    using True d1
    by (simp add: format_mem_def Let_def length_pads put_u32d_def flip: digit_count_length)
next
  case False
  then have k: "unat kib < 1048576" by (simp add: word_le_nat_alt)
  have "unat (drop_bit 10 kib) < 10 ^ 5"
    using k by (simp only: unat_drop_bit_eq) (simp add: drop_bit_eq_div less_mult_imp_div_less)
  then have "digit_count (drop_bit 10 kib) \<le> 5" by (rule digit_count_le) simp
  moreover have "digit_count kib \<le> 5" if "\<not> kib \<ge> push_bit 10 1"
    using that by (intro digit_count_le) (auto simp: word_le_nat_alt)
  ultimately show ?thesis using False by (auto simp: format_mem_def length_pads)
qed

subsection \<open>Truncation\<close>

lemma back_up_bounds: "back_up s n \<le> n \<and> (back_up s n = 0 \<or> \<not> continuation (s ! back_up s n))"
  by (induction n) auto

lemma utf8_shape_prefix:
  "utf8_shape k s \<Longrightarrow> n < length s \<Longrightarrow> \<not> continuation (s ! n) \<Longrightarrow> utf8_shape k (take n s)"
  by (induction k s arbitrary: n rule: utf8_shape.induct) (auto simp: take_Cons nth_Cons split: nat.splits)

lemma put_truncate_length: "length (flat (put_truncate s mx)) \<le> mx"
  using back_up_bounds [of s "if mx > 3 then mx - 3 else mx"] flat_put_u8s_loop [of _ 0]
  by (auto simp: put_truncate_def put_u8s_def Let_def)

lemma put_truncate_shape:
  assumes "utf8_shape 0 s" "length s > mx"
  shows "\<exists>n \<le> mx. utf8_shape 0 (take n s) \<and> flat (put_truncate s mx) = take n s @ (if mx > 3 then ''...'' else [])"
proof -
  let ?target = "if mx > 3 then mx - 3 else mx"
  let ?n = "back_up s ?target"
  have n: "?n \<le> ?target" "?n = 0 \<or> \<not> continuation (s ! ?n)" using back_up_bounds by blast+
  then have "utf8_shape 0 (take ?n s)"
    using utf8_shape_prefix [OF assms(1), of ?n] assms(2) by (cases "?n = 0") (auto split: if_splits)
  moreover from this have "flat (put_u8s (take ?n s)) = take ?n s"
    using flat_put_u8s_shape [of 0 "take ?n s"] by (simp add: put_u8s_def)
  moreover have "?n \<le> mx" using n(1) by (auto split: if_splits)
  ultimately show ?thesis
    using assms(2) by (intro exI [of _ ?n]) (simp add: put_truncate_def Let_def)
qed

subsection \<open>The budget holds\<close>

lemma limit_used_le: "limit_used slot kids = (limit, used) \<Longrightarrow> used \<le> slot \<and> limit \<le> used \<and> used \<le> kids \<and> used \<le> limit + 1"
  by (auto simp: limit_used_def split: if_splits)

lemma sum_list_div_le:
  "sum_list (List.map (\<lambda>k. (cb * f k) div t) ks) \<le> (cb * sum_list (List.map f ks)) div (t :: nat)"
proof (induction ks)
  case (Cons k ks)
  have "(cb * f k) div t + (cb * sum_list (List.map f ks)) div t \<le> (cb * f k + cb * sum_list (List.map f ks)) div t"
    by (metis div_add1_eq le_add1)
  with Cons show ?case by (simp add: distrib_left)
qed simp

lemma render_groups_length:
  assumes "\<forall>k \<in> set ks. k + 1 = n \<longrightarrow> ks \<noteq> [] \<and> last ks = k" "distinct ks" "length roots = n"
    and "tc > 0 \<longrightarrow> allocated + sum_list (List.map (\<lambda>k. cb * kids_in (length tree) roots k div tc) (List.filter (\<lambda>k. k + 1 \<noteq> n) ks)) \<le> cb"
    and "allocated \<le> cb"
  shows "length (render_groups os procs tree roots gt cb tc allocated ks) \<le> length ks + (cb - allocated)"
  using assms
proof (induction ks arbitrary: allocated)
  case (Cons k ks)
  let ?kids = "kids_in (length tree) roots k"
  let ?slot = "slot_for (length roots) cb tc k ?kids allocated"
  obtain limit used where lu: "limit_used ?slot ?kids = (limit, used)" by force
  note le = limit_used_le [OF lu]
  have slot: "allocated + ?slot \<le> cb"
    using Cons.prems(3-5) by (auto simp: slot_for_def)
  have "length (render_groups os procs tree roots gt cb tc (allocated + used) ks) \<le> length ks + (cb - (allocated + used))"
  proof (rule Cons.IH)
    show "allocated + used \<le> cb" using slot le by simp
    show "tc > 0 \<longrightarrow> allocated + used +
        sum_list (List.map (\<lambda>k. cb * kids_in (length tree) roots k div tc) (List.filter (\<lambda>k. k + 1 \<noteq> n) ks)) \<le> cb"
    proof (cases "k + 1 = n")
      case True
      then have "ks = []" using Cons.prems(1,2) last_in_set [of ks] by (auto split: if_splits)
      with slot le show ?thesis by simp
    next
      case False
      with Cons.prems(3,4) le show ?thesis by (auto simp: slot_for_def)
    qed
    show "\<forall>j \<in> set ks. j + 1 = n \<longrightarrow> ks \<noteq> [] \<and> last ks = j"
    proof (intro ballI impI)
      fix j assume "j \<in> set ks" "j + 1 = n"
      moreover from this have "ks \<noteq> []" by auto
      ultimately show "ks \<noteq> [] \<and> last ks = j" using Cons.prems(1) by auto
    qed
  qed (use Cons.prems in auto)
  with slot le show ?case by (auto simp: Let_def lu)
qed simp

lemma render_rows_length: "length (render_rows os procs tree roots max_rows gt) \<le> max_rows"
proof -
  let ?n = "length roots" and ?cb = "max_rows - length roots"
  let ?f = "kids_in (length tree) roots"
  let ?t = "sum_list (List.map ?f [0 ..< ?n])"
  let ?ks = "[0 ..< min ?n max_rows]"
  have "sum_list (List.map ?f (List.filter (\<lambda>k. k + 1 \<noteq> ?n) ?ks)) \<le> ?t"
  proof -
    have "sum_list (List.map ?f (List.filter (\<lambda>k. k + 1 \<noteq> ?n) ?ks)) \<le> sum_list (List.map ?f ?ks)"
      by (rule sum_list_filter_le_nat)
    also have "\<dots> \<le> ?t"
    proof -
      have "[0 ..< ?n] = ?ks @ [min ?n max_rows ..< ?n]" by (metis le_add1 le_add_diff_inverse min.cobounded1 plus_nat.add_0 upt_add_eq_append)
      then show ?thesis by (metis map_append sum_list_append le_add1)
    qed
    finally show ?thesis .
  qed
  then have le: "(?cb * sum_list (List.map ?f (List.filter (\<lambda>k. k + 1 \<noteq> ?n) ?ks))) div ?t \<le> (?cb * ?t) div ?t"
    by (intro div_le_mono mult_le_mono2)
  then have sum: "?t > 0 \<longrightarrow> 0 + sum_list (List.map (\<lambda>k. ?cb * ?f k div ?t) (List.filter (\<lambda>k. k + 1 \<noteq> ?n) ?ks)) \<le> ?cb"
  proof (intro impI, unfold add_0)
    assume "?t > 0"
    then have "(?cb * ?t) div ?t = ?cb" by (intro nonzero_mult_div_cancel_right) linarith
    with le order_trans [OF sum_list_div_le [of ?cb ?f ?t "List.filter (\<lambda>k. k + 1 \<noteq> ?n) ?ks"]]
    show "sum_list (List.map (\<lambda>k. ?cb * ?f k div ?t) (List.filter (\<lambda>k. k + 1 \<noteq> ?n) ?ks)) \<le> ?cb" by metis
  qed
  have "length (render_groups os procs tree roots gt ?cb ?t 0 ?ks) \<le> length ?ks + (?cb - 0)"
    by (rule render_groups_length [OF _ _ refl sum]) (auto simp: last_upt min_def)
  also have "\<dots> \<le> max_rows" by simp
  finally show ?thesis by (simp add: render_rows_def Let_def)
qed

subsection \<open>Enough rows\<close>

text \<open>Root rows as \<open>run\<close> collects them: positions of rows of depth 0, in order.\<close>

definition roots_wf :: "nat \<Rightarrow> nat list \<Rightarrow> bool" where
  "roots_wf tree_len roots \<longleftrightarrow> sorted_wrt (<) roots \<and> (\<forall>r \<in> set roots. r < tree_len) \<and>
     (tree_len > 0 \<longrightarrow> roots \<noteq> [] \<and> roots ! 0 = 0)"

definition group_end :: "nat \<Rightarrow> nat list \<Rightarrow> nat \<Rightarrow> nat" where
  "group_end tree_len roots k = (if k + 1 < length roots then roots ! (k + 1) else tree_len)"

lemma group_range:
  assumes "roots_wf n roots" "k < length roots"
  shows "roots ! k < group_end n roots k" and "group_end n roots k = roots ! k + 1 + kids_in n roots k"
proof -
  show "roots ! k < group_end n roots k"
    using assms by (auto simp: roots_wf_def group_end_def sorted_wrt_iff_nth_less)
  then show "group_end n roots k = roots ! k + 1 + kids_in n roots k"
    by (auto simp: kids_in_def group_end_def Let_def split: if_splits)
qed

lemma groups_cover:
  assumes "roots_wf n roots" "m \<le> length roots" "0 < m"
  shows "concat (List.map (\<lambda>k. [roots ! k ..< group_end n roots k]) [0 ..< m]) = [0 ..< group_end n roots (m - 1)]"
  using assms(2,3)
proof (induction m)
  case (Suc m)
  show ?case
  proof (cases "m = 0")
    case True
    then show ?thesis
      using assms(1) Suc.prems group_range(1) [OF assms(1), of 0] by (auto simp: roots_wf_def)
  next
    case False
    have "group_end n roots (m - 1) = roots ! m" using False Suc.prems by (simp add: group_end_def)
    moreover have "[0 ..< group_end n roots m] = [0 ..< roots ! m] @ [roots ! m ..< group_end n roots m]"
      using group_range(1) [OF assms(1), of m] Suc.prems by (metis le_add1 le_add_diff_inverse less_imp_le plus_nat.add_0 upt_add_eq_append Suc_le_lessD)
    ultimately show ?thesis using Suc False by simp
  qed
qed simp

lemma sum_kids:
  assumes "roots_wf n roots"
  shows "sum_list (List.map (kids_in n roots) [0 ..< length roots]) + length roots = n"
proof (cases "roots = []")
  case True
  with assms show ?thesis by (auto simp: roots_wf_def)
next
  case False
  have "length (concat (List.map (\<lambda>k. [roots ! k ..< group_end n roots k]) [0 ..< length roots])) =
      sum_list (List.map (\<lambda>k. kids_in n roots k + 1) [0 ..< length roots])"
    unfolding length_concat map_map comp_def
    by (rule arg_cong [where f = sum_list], rule map_cong) (auto simp: group_range [OF assms])
  also have "\<dots> = sum_list (List.map (kids_in n roots) [0 ..< length roots]) + length roots"
    by (simp add: sum_list_Suc)
  moreover have "group_end n roots (length roots - 1) = n" using False by (simp add: group_end_def)
  ultimately show ?thesis using groups_cover [OF assms le_refl] False by simp
qed

lemma render_groups_all:
  assumes wf: "roots_wf (length tree) roots"
    and tc: "tc = sum_list (List.map (kids_in (length tree) roots) [0 ..< length roots])" and cb: "tc \<le> cb"
    and "k0 \<le> length roots" "allocated = sum_list (List.map (kids_in (length tree) roots) [0 ..< k0])"
  shows "render_groups os procs tree roots gt cb tc allocated [k0 ..< length roots] =
    List.map RProc (concat (List.map (\<lambda>k. [roots ! k ..< group_end (length tree) roots k]) [k0 ..< length roots]))"
  using assms(4,5)
proof (induction "length roots - k0" arbitrary: k0 allocated)
  case (Suc d)
  let ?f = "kids_in (length tree) roots"
  let ?kids = "?f k0"
  have k0: "k0 < length roots" using Suc.hyps(2) by simp
  then have upt: "[k0 ..< length roots] = k0 # [Suc k0 ..< length roots]" by (rule upt_conv_Cons)
  have "[0 ..< length roots] = [0 ..< k0] @ k0 # [Suc k0 ..< length roots]"
    using k0 upt by (metis le_add1 le_add_diff_inverse less_imp_le plus_nat.add_0 upt_add_eq_append)
  then have tot: "allocated + ?kids \<le> tc" unfolding tc Suc.prems(2) by simp
  have slot: "?kids \<le> slot_for (length roots) cb tc k0 ?kids allocated"
  proof (cases "k0 + 1 = length roots")
    case True
    with tot cb show ?thesis by (simp add: slot_for_def)
  next
    case False
    show ?thesis
    proof (cases "tc > 0")
      case True
      have "?kids = tc * ?kids div tc" using True by simp
      also have "\<dots> \<le> cb * ?kids div tc" using cb by (intro div_le_mono mult_le_mono1)
      finally show ?thesis using False True by (simp add: slot_for_def)
    next
      case False
      with tot show ?thesis by simp
    qed
  qed
  then have lu: "limit_used (slot_for (length roots) cb tc k0 ?kids allocated) ?kids = (?kids, ?kids)"
    by (simp add: limit_used_def)
  have rest: "render_groups os procs tree roots gt cb tc (allocated + ?kids) [Suc k0 ..< length roots] =
      List.map RProc (concat (List.map (\<lambda>k. [roots ! k ..< group_end (length tree) roots k]) [Suc k0 ..< length roots]))"
    using Suc.hyps k0 Suc.prems by (intro Suc.hyps(1)) auto
  have "[roots ! k0 ..< group_end (length tree) roots k0] = roots ! k0 # [roots ! k0 + 1 ..< roots ! k0 + 1 + ?kids]"
    using group_range [OF wf k0] upt_conv_Cons [of "roots ! k0" "group_end (length tree) roots k0"] by simp
  then show ?case unfolding upt by (simp add: lu rest Let_def del: upt_Suc)
qed simp

lemma render_rows_all:
  assumes "roots_wf (length tree) roots" "length tree \<le> max_rows"
  shows "render_rows os procs tree roots max_rows gt = List.map RProc [0 ..< length tree]"
proof (cases "roots = []")
  case True
  with assms(1) show ?thesis by (auto simp: render_rows_def roots_wf_def)
next
  case False
  note s = sum_kids [OF assms(1)]
  then have "length roots \<le> max_rows" using assms(2) by simp
  moreover have "group_end (length tree) roots (length roots - 1) = length tree" using False by (simp add: group_end_def)
  ultimately show ?thesis
    using render_groups_all [OF assms(1) refl _ _ refl, of "max_rows - length roots" 0] s assms(2)
      groups_cover [OF assms(1) le_refl] False
    by (simp add: render_rows_def min_absorb1)
qed

subsection \<open>Columns\<close>

text \<open>Terminal columns of text without control characters: its bytes that start a character.\<close>

definition columns :: "string \<Rightarrow> nat" where
  "columns s = length (List.filter (\<lambda>c. \<not> continuation c) s)"

lemma columns_simps [simp]: "columns [] = 0" "columns (s @ t) = columns s + columns t"
  "columns (c # s) = (if continuation c then 0 else 1) + columns s"
  by (simp_all add: columns_def)

lemma columns_le: "columns s \<le> length s"
  by (simp add: columns_def)

lemma columns_concat: "columns (concat ss) = sum_list (List.map columns ss)"
  by (induction ss) simp_all

lemma continuation_space [simp]: "\<not> continuation (CHR '' '')"
  by (simp add: continuation_def byte_of_def)

lemma columns_glyphs: "columns bar_sp = 2" "columns corner = 2" "columns branch = 2" "columns ''  '' = 2"
  by (simp_all add: bar_sp_def corner_def branch_def continuation_def byte_of_def)

lemma columns_indent: "columns (flat (put_indent ind)) = indent_width ind"
proof (cases "render_depth ind = 0")
  case False
  let ?g = "\<lambda>i. if bit (mask ind) i then ''  '' else bar_sp"
  have "sum_list (List.map (\<lambda>i. columns (?g i)) js) = 2 * length js" for js
    by (induction js) (simp_all add: columns_glyphs)
  moreover have "flat (List.map (\<lambda>i. PutBytes (?g i)) js) = concat (List.map ?g js)" for js
    by (simp add: flat_def comp_def)
  ultimately have "columns (flat (List.map (\<lambda>i. PutBytes (?g i)) js)) = 2 * length js" for js
    by (simp add: columns_concat comp_def)
  with False show ?thesis by (simp add: put_indent_def Let_def indent_width_def columns_glyphs)
qed (simp add: put_indent_def indent_width_def)

text \<open>The part of a process row between its two escapes.\<close>

definition row_text :: "target_os \<Rightarrow> proc_info \<Rightarrow> indent \<Rightarrow> nat \<Rightarrow> bool \<Rightarrow> string" where
  "row_text os p ind width has_gpu =
     flat (pad_left (pid p) 7 @ [PutByte (CHR '' '')] @ f1_wide (cpu p) 6 @ [PutByte (CHR '' '')] @ format_mem (rss_kib p) @
       gpu_cells os has_gpu (gpu p) @
       [PutByte (CHR '' '')] @ format_age (age_secs p) @ put_str ''  '' @ put_indent ind @
       put_truncate (display p)
         (width - (7 + (3 + (if has_gpu then GPU_DATA_COLS os else 0)) * 7 + 2 + indent_width ind)))"

text \<open>Values that fit their cells.\<close>

definition cells_fit :: "target_os \<Rightarrow> proc_info \<Rightarrow> bool" where
  "cells_fit os p \<longleftrightarrow> unat (pid p) < 10000000 \<and>
     float_as_nat 64 (f64_add (f64_mul (cpu p) 10) (1 / 2)) div 10 < 10000 \<and>
     (unat (rss_kib p) * 10 + 524288) div 1048576 < 10000 \<and> age_secs p < 8640000 \<and>
     (case gpu p of None \<Rightarrow> True
      | Some g \<Rightarrow> unat (sm_pct g) < 1000000 \<and> (unat (push_bit 10 (mem_mib g)) * 10 + 524288) div 1048576 < 10000)"

lemma length_gpu_cells:
  "cells_fit os p \<Longrightarrow> length (flat (gpu_cells os has_gpu (gpu p))) = (if has_gpu then GPU_DATA_COLS os * 7 else 0)"
proof -
  assume fit: "cells_fit os p"
  have "length (flat (pad_right (sm_pct g) 6)) = 6 \<and> length (flat (format_mem (push_bit 10 (mem_mib g)))) = 6"
    if "gpu p = Some g" for g
    using fit that digit_count_le [of "sm_pct g" 6] length_format_mem [of "push_bit 10 (mem_mib g)"]
    by (simp add: cells_fit_def length_pads)
  then show ?thesis
    by (cases os) (auto simp: gpu_cells_def GPU_BLANK_def GPU_DATA_COLS_def split: option.split)
qed

lemma columns_row_text:
  assumes "cells_fit os p"
  shows "columns (row_text os p ind width has_gpu) \<le>
    max width (30 + (if has_gpu then GPU_DATA_COLS os * 7 else 0) + indent_width ind)"
proof -
  have pid: "length (flat (pad_left (pid p) 7)) = 7"
    using assms digit_count_le [of "pid p" 7] by (simp add: cells_fit_def length_pads)
  have cpu: "length (flat (f1_wide (cpu p) 6)) = 6"
    using assms by (intro f1_wide_length) (simp_all add: cells_fit_def)
  have mem: "length (flat (format_mem (rss_kib p))) = 6" using assms by (intro length_format_mem) (simp add: cells_fit_def)
  have age: "length (flat (format_age (age_secs p))) = 6" using assms by (simp add: length_format_age cells_fit_def)
  let ?w = "width - (7 + (3 + (if has_gpu then GPU_DATA_COLS os else 0)) * 7 + 2 + indent_width ind)"
  have cols: "columns (flat (pad_left (pid p) 7)) \<le> 7" "columns (flat (f1_wide (cpu p) 6)) \<le> 6"
    "columns (flat (format_mem (rss_kib p))) \<le> 6" "columns (flat (format_age (age_secs p))) \<le> 6"
    "columns (flat (gpu_cells os has_gpu (gpu p))) \<le> (if has_gpu then GPU_DATA_COLS os * 7 else 0)"
    "columns (flat (put_truncate (display p) ?w)) \<le> ?w"
    by (rule order_trans [OF columns_le],
        simp only: pid cpu mem age length_gpu_cells [OF assms] put_truncate_length order_refl)+
  have sp: "columns '' '' \<le> 1" "columns ''  '' = 2" "(if continuation (CHR '' '') then 0 else 1) \<le> (1 :: nat)"
    by (simp_all add: columns_glyphs columns_le)
  show ?thesis
    unfolding row_text_def using cols sp by (simp add: columns_indent split: if_splits)
qed

subsection \<open>Properties\<close>

text \<open>C15: a frame never gets taller than its budget: \<open>render_tree\<close> emits at most \<open>max_rows\<close> rows,
  however many roots and children there are; and when every row of the tree fits, it emits every
  row in order and no elision row.\<close>

theorem render_tree_budget:
  "length (render_rows os procs tree roots max_rows gt) \<le> max_rows \<and>
   (roots_wf (length tree) roots \<and> length tree \<le> max_rows \<longrightarrow>
     render_rows os procs tree roots max_rows gt = List.map RProc [0 ..< length tree])"
  using render_rows_length render_rows_all by blast

theorem render_tree_budget_witness:
  "render_rows Linux [] [(\<lparr>depth = 0, mask = 0\<rparr>, 0), (\<lparr>depth = 1, mask = 1\<rparr>, 1)] [0] 5 0 = List.map RProc [0 ..< 2]"
  using render_tree_budget [of Linux "[]" "[(\<lparr>depth = 0, mask = 0\<rparr>, 0), (\<lparr>depth = 1, mask = 1\<rparr>, 1)]" "[0]" 5 0]
  by (simp add: roots_wf_def numeral_2_eq_2)

text \<open>\<open>truncate\<close> never writes more than \<open>max\<close> bytes, and of text too long that has the shape of
  UTF-8 it writes a prefix cut between characters, then three dots if there is room for more than
  these.\<close>

theorem truncate_correct:
  "length (flat (put_truncate s mx)) \<le> mx \<and>
   (utf8_shape 0 s \<and> length s > mx \<longrightarrow>
     (\<exists>n \<le> mx. utf8_shape 0 (take n s) \<and> flat (put_truncate s mx) = take n s @ (if mx > 3 then ''...'' else [])))"
  using put_truncate_length put_truncate_shape by blast

theorem truncate_correct_witness:
  "\<exists>n \<le> 5. flat (put_truncate ''abcdefgh'' 5) = take n ''abcdefgh'' @ ''...''"
proof -
  have "utf8_shape 0 ''abcdefgh''" by (simp add: leader_len_def byte_of_def)
  then show ?thesis using truncate_correct [of "''abcdefgh''" 5] by auto
qed

text \<open>the age cell is 6 bytes wide for ages below 100 days and wider than that from then on, and
  the memory cell is 6 bytes wide whenever the size rounds to less than 1000.0 GiB.\<close>

theorem cell_widths:
  "(length (flat (format_age secs)) = 6 \<longleftrightarrow> secs < 8640000) \<and>
   ((unat kib * 10 + 524288) div 1048576 < 10000 \<longrightarrow> length (flat (format_mem kib)) = 6)"
proof -
  have "2 < digit_count (secs div 86400)" if "\<not> secs < 8640000"
  proof -
    have "100 \<le> unat (secs div 86400)"
      using that by (simp add: word_less_nat_alt unat_div_distrib less_eq_div_iff_mult_less_eq)
    then show ?thesis using length_decimal_ge [of 2 "unat (secs div 86400)"] by (simp add: digit_count_length)
  qed
  then show ?thesis using length_format_mem by (auto simp: length_format_age)
qed

theorem cell_widths_witness: "length (flat (format_mem 2097152)) = 6"
  using cell_widths [of 0 2097152] by simp

text \<open>a process row is the colour escape, its text, and the closing escape; when its values fit
  their cells, the text takes at most the terminal's width, or just the fixed columns and the prefix
  where these alone are wider.\<close>

theorem proc_row_fits:
  assumes "tree ! ti = (ind, idx)" "cells_fit os (procs ! idx)"
  shows "\<exists>color. flat (emit_proc_row os procs tree ti width gt has_gpu) =
      flat (put_fg_open color) @ row_text os (procs ! idx) ind width has_gpu @ FG_CLOSE_EOL \<and>
    columns (row_text os (procs ! idx) ind width has_gpu) \<le>
      max width (30 + (if has_gpu then GPU_DATA_COLS os * 7 else 0) + indent_width ind)"
proof -
  have "flat (emit_proc_row os procs tree ti width gt has_gpu) =
      flat (put_fg_open (row_color os (cpu (procs ! idx)) (rss_kib (procs ! idx)) (gpu (procs ! idx)) gt)) @
      row_text os (procs ! idx) ind width has_gpu @ FG_CLOSE_EOL"
    by (simp add: emit_proc_row_def row_text_def assms(1) Let_def add.assoc)
  with columns_row_text [OF assms(2)] show ?thesis by blast
qed

theorem proc_row_fits_witness:
  "columns (row_text Linux proc_default \<lparr>depth = 0, mask = 0\<rparr> 80 True) \<le> 80"
proof -
  have "to_f64 (1 / 2) = 1 / 2" by (rule to_f64_exact [where m = 1 and k = "- 1"]) (simp_all add: power_int_minus)
  then have "cells_fit Linux ([proc_default] ! 0)"
    by (simp add: cells_fit_def proc_default_def f64_mul_def f64_add_def float_as_nat_def age_secs_def)
  from proc_row_fits [of "[(\<lparr>depth = 0, mask = 0\<rparr>, 0)]" 0, OF _ this, of "\<lparr>depth = 0, mask = 0\<rparr>" 80 0 True]
  show ?thesis by (simp add: indent_width_def render_depth_def GPU_DATA_COLS_def)
qed

end
