(* ===== verification/Classify.thy ===== *)
theory Classify
  imports Filtering
begin

text \<open>
  How src/src/main.rs names and classifies a process from its command name and arguments: the
  substring and path helpers, the noise tables, the interpreter, compiler and Lean special cases,
  and the display string.
\<close>

subsection \<open>Byte string helpers\<close>

definition starts_with :: "string \<Rightarrow> string \<Rightarrow> bool" where
  "starts_with s prefix \<longleftrightarrow> length prefix \<le> length s \<and> take (length prefix) s = prefix"

definition icontains :: "string \<Rightarrow> string \<Rightarrow> bool" where
  "icontains haystack needle =
     (if needle = [] then True
      else if length haystack < length needle then False
      else list_ex (\<lambda>i. ieq (take (length needle) (drop i haystack)) needle)
             [0 ..< length haystack - length needle + 1])"

text \<open>\<open>iter().rposition\<close>.\<close>

fun rposition :: "(char \<Rightarrow> bool) \<Rightarrow> string \<Rightarrow> nat option" where
  "rposition P [] = None"
| "rposition P (c # s) =
     (case rposition P s of Some i \<Rightarrow> Some (Suc i) | None \<Rightarrow> if P c then Some 0 else None)"

fun position :: "(char \<Rightarrow> bool) \<Rightarrow> string \<Rightarrow> nat option" where
  "position P [] = None"
| "position P (c # s) = (if P c then Some 0 else map_option Suc (position P s))"

definition basename :: "string \<Rightarrow> string" where
  "basename s = (case rposition (\<lambda>b. b = CHR ''/'') s of Some i \<Rightarrow> drop (i + 1) s | None \<Rightarrow> s)"

definition rfind_bytes :: "string \<Rightarrow> string \<Rightarrow> nat option" where
  "rfind_bytes haystack needle =
     (if needle = [] then Some (length haystack)
      else if length haystack < length needle then None
      else List.find (\<lambda>i. take (length needle) (drop i haystack) = needle)
             (rev [0 ..< length haystack - length needle + 1]))"

text \<open>\<open>args.first().copied().map(basename).unwrap_or(d)\<close>.\<close>

definition base_of :: "string list \<Rightarrow> string \<Rightarrow> string" where
  "base_of args d = (case args of [] \<Rightarrow> d | a # _ \<Rightarrow> basename a)"

subsection \<open>Noise\<close>

definition IDLE_NOISE_NAMES :: "string list" where
  "IDLE_NOISE_NAMES =
     [''corespotlightd'', ''managedcorespotlightd'', ''spotlightknowledged'', ''spotlightknowledged.updater'',
      ''mediaanalysisd'', ''identityservicesd'', ''imdpersistenceagent'', ''sirittsd'', ''photolibraryd'',
      ''photoanalysisd'', ''sharingd'', ''contactsd'', ''finder'', ''loginwindow'', ''netnewswire'', ''preview'',
      ''things3'', ''avconferenced'', ''applespell'', ''usernotificationcenter'', ''notificationcenter'',
      ''controlcenter'', ''suggestd'', ''textthumbnailextension'', ''reportcrash'', ''google drive'']"

definition IDLE_NOISE :: "u32 list" where "IDLE_NOISE = List.map name_hash IDLE_NOISE_NAMES"

definition is_idle_noise :: "target_os \<Rightarrow> string \<Rightarrow> string list \<Rightarrow> bool" where
  "is_idle_noise os comm args =
     (case os of
        Macos \<Rightarrow> let name = base_of args comm in has IDLE_NOISE (name_hash name) \<or> icontains name ''1password''
      | Linux \<Rightarrow> False)"

definition NOISE_NAMES :: "string list" where
  "NOISE_NAMES =
     [''ssm-session-worker'', ''spotlight'', ''springboard'', ''newstoday2'', ''newsscoringservice'',
      ''screentimeagent'', ''appleaccountd'', ''siriinferenced'', ''siriactionsd'', ''callservicesd'',
      ''calaccessd'', ''amsengagementd'', ''chronod'', ''remindd'', ''routined'', ''textunderstandingd'',
      ''corespeechd'', ''characterpalette'']"

definition NOISE :: "u32 list" where "NOISE = List.map name_hash NOISE_NAMES"

definition is_noise :: "string \<Rightarrow> string list \<Rightarrow> bool" where
  "is_noise comm args =
     (let name = base_of args comm
      in has NOISE (name_hash name) \<or> icontains name ''chrome'' \<or> icontains name ''widget'' \<or>
         starts_with name ''com.apple.'' \<or> starts_with name ''amazon-'' \<or> ends_with name ''BlastDoorService'')"

subsection \<open>Lean, interpreters, compilers\<close>

definition is_lean_or_lake :: "string \<Rightarrow> string list \<Rightarrow> bool" where
  "is_lean_or_lake comm args =
     (let base = base_of args []
      in comm = ''lean'' \<or> comm = ''lake'' \<or> base = ''lean'' \<or> base = ''lake'')"

definition has_lean_keyword :: "string \<Rightarrow> bool" where
  "has_lean_keyword s \<longleftrightarrow> icontains s ''lean'' \<or> icontains s ''lake'' \<or> icontains s ''certificate''"

definition is_lean_related :: "string \<Rightarrow> string list \<Rightarrow> bool" where
  "is_lean_related comm args \<longleftrightarrow> has_lean_keyword comm \<or> list_ex has_lean_keyword (take 3 args)"

definition is_interpreter :: "string \<Rightarrow> bool" where
  "is_interpreter base \<longleftrightarrow>
     (6 \<le> length base \<and> ieq (take 6 base) ''python'') \<or>
     ieq base ''ruby'' \<or> ieq base ''node'' \<or> ieq base ''perl'' \<or> ieq base ''lua''"

fun find_script_loop :: "bool \<Rightarrow> string list \<Rightarrow> string option" where
  "find_script_loop skip_next [] = None"
| "find_script_loop skip_next (arg # args) =
     (if skip_next then find_script_loop False args
      else if starts_with arg ''-'' then
        find_script_loop
          ((length arg = 2 \<and> (arg ! 1 = CHR ''c'' \<or> arg ! 1 = CHR ''m'' \<or> arg ! 1 = CHR ''W'' \<or> arg ! 1 = CHR ''X'' \<or>
              arg ! 1 = CHR ''Q'')) \<or> arg = ''--check-hash-based-pycs'') args
      else Some (basename arg))"

definition find_script_arg :: "string list \<Rightarrow> string option" where
  "find_script_arg args = find_script_loop False (drop 1 args)"

definition has_cxx_ext :: "string \<Rightarrow> bool" where
  "has_cxx_ext a \<longleftrightarrow> ends_with a ''.cc'' \<or> ends_with a ''.cpp'' \<or> ends_with a ''.cxx'' \<or> ends_with a ''.c'' \<or>
     ends_with a ''.C'' \<or> ends_with a ''.c++''"

fun find_cc_source :: "string list \<Rightarrow> string option" where
  "find_cc_source [] = None"
| "find_cc_source (arg # args) =
     (if starts_with arg ''-'' then find_cc_source args
      else if has_cxx_ext arg then Some (basename arg) else find_cc_source args)"

fun first_keyword :: "string list \<Rightarrow> string option" where
  "first_keyword [] = None"
| "first_keyword (arg # args) = (if has_lean_keyword arg then Some (basename arg) else first_keyword args)"

definition lean_label :: "string list \<Rightarrow> string" where
  "lean_label args =
     (let any = (\<lambda>needle. list_ex (\<lambda>a. icontains a needle) args)
      in if any ''--worker'' then ''lean''
         else if any ''--server'' then ''lean --server''
         else if any ''lake'' \<and> any ''serve'' then ''lake serve''
         else if any ''lean.rs'' \<or> any ''debug/lean'' then ''lean-mcp''
         else if any ''certificate'' then ''certificate''
         else case first_keyword args of Some b \<Rightarrow> b | None \<Rightarrow> base_of args ''?'')"

definition is_ascii_uppercase :: "char \<Rightarrow> bool" where
  "is_ascii_uppercase c \<longleftrightarrow> 0x41 \<le> byte_of c \<and> byte_of c \<le> 0x5A"

text \<open>\<open>arg[..dot].first().is_some_and(is_ascii_uppercase)\<close>.\<close>

definition is_module_name :: "string \<Rightarrow> bool" where
  "is_module_name arg \<longleftrightarrow> \<not> starts_with arg ''-'' \<and> \<not> list_ex (\<lambda>b. b = CHR ''/'') arg \<and>
     (case position (\<lambda>b. b = CHR ''.'') arg of
        Some dot \<Rightarrow> (case take dot arg of [] \<Rightarrow> False | c # _ \<Rightarrow> is_ascii_uppercase c)
      | None \<Rightarrow> False)"

fun find_lean_file :: "string list \<Rightarrow> string option" where
  "find_lean_file [] = None"
| "find_lean_file (arg # args) =
     (let path = (if starts_with arg ''file://'' then drop 7 arg else arg)
      in if ends_with path ''.lean'' then
           Some (case rfind_bytes path ''/AKS/'' of Some idx \<Rightarrow> drop (idx + 1) path | None \<Rightarrow> basename path)
         else if is_module_name arg then Some arg
         else find_lean_file args)"

subsection \<open>The display string\<close>

text \<open>What \<open>build_display_into\<close> appends to its builder.\<close>

definition display_plain :: "string \<Rightarrow> string list \<Rightarrow> string" where
  "display_plain comm args =
     (case args of
        [] \<Rightarrow> comm
      | arg0 # _ \<Rightarrow>
          let base = basename arg0
          in if is_interpreter base
             then (case find_script_arg args of Some script \<Rightarrow> script | None \<Rightarrow> base)
             else base)"

definition build_display :: "string \<Rightarrow> string list \<Rightarrow> bool \<Rightarrow> string" where
  "build_display comm args is_related =
     (let rest = (if \<not> is_related then display_plain comm args
                  else lean_label args @ (case find_lean_file args of Some f \<Rightarrow> '' '' @ f | None \<Rightarrow> []))
      in if comm = ''cc1plus'' \<or> comm = ''cc1''
         then (case find_cc_source args of Some src \<Rightarrow> comm @ '' '' @ src | None \<Rightarrow> rest)
         else rest)"

subsection \<open>What the helpers find\<close>

lemma rposition_None: "rposition P s = None \<longleftrightarrow> (\<forall>c \<in> set s. \<not> P c)"
  by (induction s) (auto split: option.splits)

lemma rposition_Some:
  "rposition P s = Some i \<Longrightarrow> i < length s \<and> P (s ! i) \<and> (\<forall>c \<in> set (drop (i + 1) s). \<not> P c)"
proof (induction s arbitrary: i)
  case (Cons c s)
  show ?case
  proof (cases "rposition P s")
    case None
    with Cons.prems have "i = 0" "P c" by (auto split: if_splits)
    with None show ?thesis by (simp add: rposition_None)
  next
    case (Some k)
    with Cons.prems have "i = Suc k" by simp
    with Cons.IH [OF Some] show ?thesis by simp
  qed
qed simp

lemma basename_no_slash: "CHR ''/'' \<notin> set (basename s)"
proof (cases "rposition (\<lambda>b. b = CHR ''/'') s")
  case None
  then have "basename s = s" by (simp only: basename_def option.case)
  moreover from None have "\<forall>c \<in> set s. \<not> c = CHR ''/''" by (simp only: rposition_None)
  ultimately show ?thesis by (simp only:) blast
next
  case (Some i)
  with rposition_Some [OF Some] show ?thesis by (simp add: basename_def) blast
qed

lemma basename_suffix: "\<exists>dir. s = dir @ basename s \<and> (dir = [] \<or> last dir = CHR ''/'')"
proof (cases "rposition (\<lambda>b. b = CHR ''/'') s")
  case None
  then show ?thesis by (auto simp: basename_def)
next
  case (Some i)
  with rposition_Some [OF Some] have i: "i < length s" "s ! i = CHR ''/''" by simp_all
  then have "take (i + 1) s \<noteq> []" "last (take (i + 1) s) = CHR ''/''" by (auto simp: take_Suc_conv_app_nth)
  with Some show ?thesis by (intro exI [of _ "take (i + 1) s"]) (simp add: basename_def)
qed

lemma icontains_iff:
  "icontains h n \<longleftrightarrow> (\<exists>a w b. h = a @ w @ b \<and> ieq w n)"
proof
  assume "icontains h n"
  then consider "n = []" | i where "ieq (take (length n) (drop i h)) n"
    unfolding icontains_def list_ex_iff by (metis (full_types))
  then show "\<exists>a w b. h = a @ w @ b \<and> ieq w n"
  proof cases
    case 1
    then show ?thesis by (intro exI [of _ "[]"] exI [of _ "[]"] exI [of _ h]) simp
  next
    case 2
    have "h = take i h @ take (length n) (drop i h) @ drop (length n) (drop i h)"
      by (simp only: append_take_drop_id)
    with 2 show ?thesis by blast
  qed
next
  assume "\<exists>a w b. h = a @ w @ b \<and> ieq w n"
  then obtain a w b where h: "h = a @ w @ b" "ieq w n" by blast
  then have len: "length w = length n" by (simp add: ieq_def)
  have "ieq (take (length n) (drop (length a) h)) n" using h len by simp
  moreover have "length a \<in> set [0 ..< length h - length n + 1]" "length n \<le> length h" using h len by auto
  ultimately show "icontains h n" by (auto simp: icontains_def list_ex_iff)
qed

lemma is_noise_ieq:
  assumes "ieq (base_of args comm) n" "n \<in> set NOISE_NAMES"
  shows "is_noise comm args"
proof -
  have "name_hash (base_of args comm) = name_hash n" by (rule name_hash_ieq [OF assms(1)])
  then have "has NOISE (name_hash (base_of args comm))" using assms(2) by (simp add: NOISE_def)
  then show ?thesis by (simp add: is_noise_def Let_def)
qed

subsection \<open>Properties\<close>

text \<open>\<open>basename\<close> returns what follows the last slash: the path is a directory part, empty or
  ending in a slash, followed by it, and it holds no slash.\<close>

theorem basename_correct:
  "(\<exists>dir. s = dir @ basename s \<and> (dir = [] \<or> last dir = CHR ''/'')) \<and> CHR ''/'' \<notin> set (basename s)"
  using basename_suffix basename_no_slash by blast

text \<open>\<open>icontains\<close> holds exactly when a part of the haystack equals the needle up to ASCII case;
  so every process whose name is one of the noise names in any case, or contains one of the noise
  words, is classified as noise.\<close>

theorem is_noise_complete:
  "(icontains h n \<longleftrightarrow> (\<exists>a w b. h = a @ w @ b \<and> ieq w n)) \<and>
   ((\<exists>nm \<in> set NOISE_NAMES. ieq (base_of args comm) nm) \<or>
      (\<exists>a w b. base_of args comm = a @ w @ b \<and> (ieq w ''chrome'' \<or> ieq w ''widget'')) \<longrightarrow> is_noise comm args)"
proof -
  have "is_noise comm args" if "base_of args comm = a @ w @ b" "ieq w ''chrome'' \<or> ieq w ''widget''" for a w b
  proof -
    from that have "icontains (base_of args comm) ''chrome'' \<or> icontains (base_of args comm) ''widget''"
      unfolding icontains_iff by blast
    then show ?thesis by (auto simp: is_noise_def Let_def)
  qed
  with icontains_iff is_noise_ieq show ?thesis by blast
qed

theorem is_noise_complete_witness: "is_noise ''x'' [''/usr/bin/Remindd'']"
proof -
  have "base_of [''/usr/bin/Remindd''] ''x'' = ''Remindd''" by code_simp
  moreover have "ieq ''Remindd'' ''remindd''" by code_simp
  moreover have "''remindd'' \<in> set NOISE_NAMES" by (simp add: NOISE_NAMES_def)
  ultimately show ?thesis using is_noise_complete [of "[]" "[]" "[''/usr/bin/Remindd'']" "''x''"] by metis
qed

end
