(* ===== verification/Collect.thy ===== *)
theory Collect
  imports Classify
begin

unbundle bit_operations_syntax

text \<open>
  What src/src/main.rs reads of the system each tick: the process list (\<open>collect_procs\<close>, the Linux
  version over /proc and the macOS one over sysctl and proc_info), the load averages, the memory
  figures and the boot time. What a system call returned is an argument: a file's bytes or \<open>None\<close>,
  a buffer, a record.
\<close>

subsection \<open>Parsing\<close>

definition sat_sub64 :: "u64 \<Rightarrow> u64 \<Rightarrow> u64" where
  "sat_sub64 a b = (if b \<le> a then a - b else 0)"

definition digit_of :: "char \<Rightarrow> u8" where "digit_of b = byte_of b - 48"

fun parse_digits :: "nat \<Rightarrow> string \<Rightarrow> nat option" where
  "parse_digits n [] = Some n"
| "parse_digits n (b # s) =
     (let d = digit_of b in
      if d \<ge> 10 then None
      else if n * 10 + unat d < 18446744073709551616 then parse_digits (n * 10 + unat d) s
      else None)"

text \<open>\<open>checked_mul(10)?.checked_add(d)?\<close> fails exactly when the new value is no \<open>u64\<close>.\<close>

definition parse_u64_ascii :: "string \<Rightarrow> u64 option" where
  "parse_u64_ascii s = (if s = [] then None else map_option of_nat (parse_digits 0 s))"

text \<open>\<open>parse_stat\<close>; the slice \<open>open + 1..close\<close> panics (\<open>None\<close>) when it is not a range.\<close>

definition parse_stat :: "string \<Rightarrow> (string \<times> string) option" where
  "parse_stat stat =
     (let op = (case position (\<lambda>b. b = CHR ''('') stat of Some i \<Rightarrow> i | None \<Rightarrow> 0)
      in case rposition (\<lambda>b. b = CHR '')'') stat of
           None \<Rightarrow> Some ([], [])
         | Some cl \<Rightarrow>
             if cl < op + 1 then None
             else let comm = take (cl - (op + 1)) (drop (op + 1) stat);
                      rest = drop (cl + 1) stat;
                      after = (case position (\<lambda>b. \<not> is_ascii_whitespace b) rest of
                                 None \<Rightarrow> [] | Some i \<Rightarrow> drop i rest)
                  in Some (comm, after))"

text \<open>An iterator's \<open>nth\<close>: the element and what is left.\<close>

definition iter_nth :: "nat \<Rightarrow> 'a list \<Rightarrow> 'a option \<times> 'a list" where
  "iter_nth k fs = (case drop k fs of [] \<Rightarrow> (None, []) | x # r \<Rightarrow> (Some x, r))"

definition num_field :: "string option \<Rightarrow> u64" where
  "num_field f = (case Option.bind f parse_u64_ascii of Some n \<Rightarrow> n | None \<Rightarrow> 0)"

record parsed_stat =
  ps_ppid :: u32
  ps_total_ticks :: u64
  ps_age_secs :: u32
  ps_rss_bytes :: u64
  ps_comm :: string

definition parse_proc_stat :: "u64 \<Rightarrow> nat \<Rightarrow> u64 \<Rightarrow> u64 \<Rightarrow> string \<Rightarrow> parsed_stat option" where
  "parse_proc_stat page_size clock_ticks boot wall_now stat_raw =
     (case parse_stat stat_raw of
        None \<Rightarrow> None
      | Some (comm, after_comm) \<Rightarrow>
          let fields = List.filter (\<lambda>s. s \<noteq> []) (split_on is_ascii_whitespace after_comm);
              (f_ppid, fields) = iter_nth 1 fields;
              (f_utime, fields) = iter_nth 9 fields;
              (f_stime, fields) = iter_nth 0 fields;
              (f_start, fields) = iter_nth 6 fields;
              (f_rss, fields) = iter_nth 1 fields;
              start_epoch = boot + num_field f_start div of_nat clock_ticks
          in Some \<lparr>ps_ppid = ucast (num_field f_ppid), ps_total_ticks = num_field f_utime + num_field f_stime,
                   ps_age_secs = ucast (sat_sub64 wall_now start_epoch),
                   ps_rss_bytes = num_field f_rss * page_size, ps_comm = take (min (length comm) 15) comm\<rparr>)"

subsection \<open>Command lines on Linux\<close>

definition CMDLINE_MAX :: nat where "CMDLINE_MAX = 32768"
definition MAX_ARGS :: nat where "MAX_ARGS = 64"

text \<open>The read loop over the results of the successive \<open>read\<close> calls (the list's end stands for a
  result of zero or an error).\<close>

fun read_cmdline :: "string \<Rightarrow> string list \<Rightarrow> string" where
  "read_cmdline b [] = b"
| "read_cmdline b (chunk # reads) =
     (if chunk = [] then b
      else if length chunk < 4096 then b @ chunk
      else if length (b @ chunk) \<ge> CMDLINE_MAX then b @ chunk
      else read_cmdline (b @ chunk) reads)"

definition cmdline_args :: "string \<Rightarrow> string list" where
  "cmdline_args cmdline =
     (let args = take MAX_ARGS (List.filter (\<lambda>s. s \<noteq> []) (split_on (\<lambda>b. b = CHR 0x00) cmdline))
      in if length cmdline \<ge> CMDLINE_MAX \<and> last cmdline \<noteq> CHR 0x00 then take (length args - 1) args else args)"

subsection \<open>One process\<close>

text \<open>The display handle holds at most 4095 bytes (\<open>into_small_lossy\<close>).\<close>

definition small_lossy :: "string \<Rightarrow> string" where "small_lossy s = take 4095 s"

record thresholds_in =
  ti_gpu_pids :: "u32 list"
  ti_prev :: "(u32 \<times> u32) list"
  ti_dt :: f64

definition visible_now :: "target_os \<Rightarrow> thresholds_in \<Rightarrow> u32 \<Rightarrow> f32 \<Rightarrow> u64 \<Rightarrow> string \<Rightarrow> string list \<Rightarrow> bool" where
  "visible_now os ti p cpu_pct rss_mb comm args =
     (is_lean_or_lake comm args \<or> cpu_pct \<ge> CPU_THRESH \<or>
      (unat rss_mb \<ge> MEM_MB_THRESH \<and> \<not> is_idle_noise os comm args) \<or> set_contains (ti_gpu_pids ti) p)"

definition shown_display :: "string \<Rightarrow> string list \<Rightarrow> string" where
  "shown_display comm args =
     small_lossy (build_display comm args (is_lean_or_lake comm args \<or> is_lean_related comm args))"

definition stub :: "u32 \<Rightarrow> proc_info" where "stub p = proc_default\<lparr>pid := p\<rparr>"

definition may_qualify :: "thresholds_in \<Rightarrow> u32 \<Rightarrow> f32 \<Rightarrow> u64 \<Rightarrow> string \<Rightarrow> bool" where
  "may_qualify ti p cpu_pct rss_mb comm =
     (let kept_visible = (cpu_pct \<ge> CHILD_CPU_KEEP_THRESH \<and>
            (case map_get (ti_prev ti) p of Some e \<Rightarrow> packed_visible e | None \<Rightarrow> False))
      in cpu_pct \<ge> CHILD_CPU_THRESH \<or> kept_visible \<or> unat rss_mb \<ge> MEM_MB_THRESH \<or>
         set_contains (ti_gpu_pids ti) p \<or> comm = ''lean'' \<or> comm = ''lake'')"

definition linux_row :: "nat \<Rightarrow> thresholds_in \<Rightarrow> u32 \<Rightarrow> parsed_stat \<Rightarrow> string list \<Rightarrow> proc_info \<times> (u32 \<times> u32)" where
  "linux_row clock_ticks ti p ps reads =
     (let comm = ps_comm ps;
          cpu_pct = compute_cpu Linux (map_get (ti_prev ti) p) (ps_age_secs ps) (ps_total_ticks ps)
            (f64_of_nat clock_ticks) (ti_dt ti);
          nxt = (p, packed_new Linux False (ps_total_ticks ps));
          rss_mb = ps_rss_bytes ps div (1024 * 1024);
          row = \<lparr>pid = p, ppid = ps_ppid ps, cpu = cpu_pct, rss_kib = ucast (drop_bit 10 (ps_rss_bytes ps)),
                 age_visible = pack (ps_age_secs ps) False, gpu = None, display = comm\<rparr>
      in if \<not> may_qualify ti p cpu_pct rss_mb comm then (row, nxt)
         else let args = cmdline_args (read_cmdline [] reads) in
              if is_noise comm args then (row\<lparr>cpu := 0, display := []\<rparr>, nxt)
              else (row\<lparr>age_visible := pack (ps_age_secs ps) (visible_now Linux ti p cpu_pct rss_mb comm args),
                        display := shown_display comm args\<rparr>, nxt))"

text \<open>Pass 2 of the Linux \<open>collect_procs\<close> for one pid: \<open>stat\<close> is what was read of its stat file,
  \<open>reads\<close> the results of reading its cmdline file (none if it did not open). \<open>None\<close> is a panic.\<close>

definition linux_proc ::
  "u64 \<Rightarrow> nat \<Rightarrow> u64 \<Rightarrow> u64 \<Rightarrow> thresholds_in \<Rightarrow> u32 \<Rightarrow> string option \<Rightarrow> string list \<Rightarrow> (proc_info \<times> (u32 \<times> u32)) option" where
  "linux_proc page_size clock_ticks boot wall_now ti p stat reads =
     (case stat of
        None \<Rightarrow> Some (stub p, (p, packed_new Linux False 0))
      | Some stat_raw \<Rightarrow>
          (case parse_proc_stat page_size clock_ticks boot wall_now stat_raw of
             None \<Rightarrow> None
           | Some ps \<Rightarrow> Some (linux_row clock_ticks ti p ps reads)))"

record linux_source =
  ls_pids :: "u32 list option"
  ls_stat :: "u32 \<Rightarrow> string option"
  ls_cmdline :: "u32 \<Rightarrow> string list"

definition collect_procs_linux ::
  "linux_source \<Rightarrow> u32 \<Rightarrow> u64 \<Rightarrow> nat \<Rightarrow> u64 \<Rightarrow> u64 \<Rightarrow> thresholds_in \<Rightarrow>
   (proc_info list \<times> (u32 \<times> u32) list) option" where
  "collect_procs_linux src my_pid page_size clock_ticks boot wall_now ti =
     (case ls_pids src of
        None \<Rightarrow> Some ([], [])
      | Some pids \<Rightarrow>
          map_option (\<lambda>rows. (List.map fst rows, List.map snd rows))
            (those (List.map (\<lambda>p. linux_proc page_size clock_ticks boot wall_now ti p (ls_stat src p) (ls_cmdline src p))
              (List.filter (\<lambda>p. p \<noteq> my_pid) pids))))"

subsection \<open>macOS\<close>

definition MACOS_ARG_MAX :: nat where "MACOS_ARG_MAX = 2 ^ 18"

definition le_nat :: "u8 list \<Rightarrow> nat" where
  "le_nat bs = foldr (\<lambda>b n. unat b + 256 * n) bs 0"

fun skip_while :: "(char \<Rightarrow> bool) \<Rightarrow> string \<Rightarrow> string" where
  "skip_while P [] = []"
| "skip_while P (c # s) = (if P c then skip_while P s else c # s)"

text \<open>The loop that fills \<open>out\<close>: up to \<open>want\<close> non-empty strings.\<close>

function take_args :: "nat \<Rightarrow> string \<Rightarrow> string list" where
  "take_args want s =
     (if s = [] \<or> want = 0 then []
      else let w = takeWhile (\<lambda>c. c \<noteq> CHR 0x00) s;
               rest = drop 1 (skip_while (\<lambda>c. c \<noteq> CHR 0x00) s)
           in if w = [] then take_args want rest else w # take_args (want - 1) rest)"
  by pat_completeness auto

lemma length_skip_while: "length (skip_while P s) \<le> length s"
  by (induction s) auto

termination take_args
proof (relation "measure (\<lambda>(want, s). length s)")
  fix want s w rest
  assume s: "\<not> (s = [] \<or> want = (0 :: nat))" and rest: "rest = drop 1 (skip_while (\<lambda>c. c \<noteq> CHR 0x00) s)"
  have "length rest < length s" using s length_skip_while [of "\<lambda>c. c \<noteq> CHR 0x00" s] by (cases s) (auto simp: rest)
  then show "((want, rest), want, s) \<in> measure (\<lambda>(want, s). length s)"
    "((want - 1, rest), want, s) \<in> measure (\<lambda>(want, s). length s)" by simp_all
qed simp

declare take_args.simps [simp del]

text \<open>The blob is what the sysctl left in the buffer, its size the number of bytes returned.\<close>

definition macos_proc_args :: "string \<Rightarrow> string list" where
  "macos_proc_args blob =
     (if length blob < 4 then []
      else let argc = nat (max (sint (of_nat (le_nat (List.map byte_of (take 4 blob))) :: i32)) 0);
               want = min argc 64;
               s1 = skip_while (\<lambda>c. c \<noteq> CHR 0x00) (drop 4 blob);
               s2 = skip_while (\<lambda>c. c = CHR 0x00) s1
           in take_args want s2)"

text \<open>\<open>proc_pidbsdinfo\<close>'s buffer and result.\<close>

definition macos_proc_age_ppid :: "u64 \<Rightarrow> int \<Rightarrow> u8 list \<Rightarrow> u32 \<times> u32" where
  "macos_proc_age_ppid wall_now ret buf =
     (if ret < 128 then (0, 0)
      else (ucast (sat_sub64 wall_now (of_nat (le_nat (take 8 (drop 120 buf))))),
            of_nat (le_nat (take 4 (drop 16 buf)))))"

record task_info =
  pti_resident_size :: u64
  pti_total_user :: u64
  pti_total_system :: u64

record mac_source =
  ms_pids :: "i32 list option"
  ms_task :: "u32 \<Rightarrow> task_info option"
  ms_bsdinfo :: "u32 \<Rightarrow> int \<times> u8 list"
  ms_name :: "u32 \<Rightarrow> string"
  ms_args_size :: "u32 \<Rightarrow> nat option"
  ms_args :: "u32 \<Rightarrow> string option"

definition macos_args :: "mac_source \<Rightarrow> u32 \<Rightarrow> string list" where
  "macos_args src p =
     (let cap = (case ms_args_size src p of Some n \<Rightarrow> if 4 \<le> n \<and> n \<le> MACOS_ARG_MAX then n else 0 | None \<Rightarrow> 0)
      in if cap > 0 then (case ms_args src p of Some blob \<Rightarrow> macos_proc_args (take cap blob) | None \<Rightarrow> []) else [])"

definition macos_proc ::
  "mac_source \<Rightarrow> u64 \<Rightarrow> f64 \<Rightarrow> thresholds_in \<Rightarrow> u32 \<Rightarrow> proc_info \<times> (u32 \<times> u32)" where
  "macos_proc src wall_now mach_tps ti p =
     (case ms_task src p of
        None \<Rightarrow> (stub p, (p, packed_new Macos False 0))
      | Some t \<Rightarrow>
          let rss_bytes = pti_resident_size t;
              total_ticks = pti_total_user t + pti_total_system t;
              (age, parent) = macos_proc_age_ppid wall_now (fst (ms_bsdinfo src p)) (snd (ms_bsdinfo src p));
              cpu_pct = compute_cpu Macos (map_get (ti_prev ti) p) age total_ticks mach_tps (ti_dt ti);
              nxt = (p, packed_new Macos False total_ticks);
              comm = takeWhile (\<lambda>c. c \<noteq> CHR 0x00) (ms_name src p);
              rss_mb = rss_bytes div (1024 * 1024);
              args = macos_args src p;
              row = \<lparr>pid = p, ppid = parent, cpu = cpu_pct, rss_kib = ucast (drop_bit 10 rss_bytes),
                     age_visible = pack age False, gpu = None, display = []\<rparr>
          in if is_noise comm args then (row\<lparr>cpu := 0\<rparr>, nxt)
             else (row\<lparr>age_visible := pack age (visible_now Macos ti p cpu_pct rss_mb comm args),
                       display := shown_display comm args\<rparr>, nxt))"

text \<open>\<open>ms_pids\<close> are the pids \<open>proc_listallpids\<close> filled in, at most \<open>n_slots\<close> of them.\<close>

definition collect_procs_macos ::
  "mac_source \<Rightarrow> u32 \<Rightarrow> u64 \<Rightarrow> f64 \<Rightarrow> thresholds_in \<Rightarrow> proc_info list \<times> (u32 \<times> u32) list" where
  "collect_procs_macos src my_pid wall_now mach_tps ti =
     (case ms_pids src of
        None \<Rightarrow> ([], [])
      | Some pids \<Rightarrow>
          let live = List.map (\<lambda>p. ucast p) (List.filter (\<lambda>p. 0 < sint p \<and> ucast p \<noteq> my_pid) pids);
              rows = List.map (macos_proc src wall_now mach_tps ti) live
          in (List.map fst rows, List.map snd rows))"

subsection \<open>System figures\<close>

definition boot_time_linux :: "string option \<Rightarrow> u64 \<Rightarrow> u64" where
  "boot_time_linux text now =
     (case text of
        None \<Rightarrow> 0
      | Some t \<Rightarrow>
          let first = (case split_ascii_whitespace t of [] \<Rightarrow> ''0'' | w # _ \<Rightarrow> w);
              whole = (case split_on (\<lambda>b. b = CHR ''.'') first of [] \<Rightarrow> ''0'' | w # _ \<Rightarrow> w);
              uptime = (case parse_u64_ascii whole of Some n \<Rightarrow> n | None \<Rightarrow> 0)
          in sat_sub64 now uptime)"

record load_info =
  la_text :: string
  la_frac :: f64

text \<open>The position of the third space, found counting from \<open>i\<close>; 0 if there is none.\<close>

fun third_space :: "nat \<Rightarrow> nat \<Rightarrow> string \<Rightarrow> nat" where
  "third_space i spaces [] = 0"
| "third_space i spaces (b # s) =
     (if b = CHR '' '' then if spaces + 1 = 3 then i else third_space (i + 1) (spaces + 1) s
      else third_space (i + 1) spaces s)"

fun hundredths :: "u64 \<Rightarrow> string \<Rightarrow> u64" where
  "hundredths h [] = h"
| "hundredths h (b # s) =
     (if b = CHR '' '' then h
      else let d = digit_of b in hundredths (if d < 10 then h * 10 + ucast d else h) s)"

definition load_avg_linux :: "string option \<Rightarrow> f64 \<Rightarrow> load_info" where
  "load_avg_linux text num_cpus =
     (case text of
        None \<Rightarrow> \<lparr>la_text = [], la_frac = 0\<rparr>
      | Some t \<Rightarrow>
          let e = third_space 0 0 t in
          if e = 0 \<or> e > 24 then \<lparr>la_text = [], la_frac = 0\<rparr>
          else let load0 = f64_mul (f64_of_nat (unat (hundredths 0 (take e t)))) (to_f64 (1 / 100))
               in \<lparr>la_text = take e t, la_frac = min (f64_div load0 num_cpus) 1\<rparr>)"

definition put_load_avg :: "load_info \<Rightarrow> wcall list" where
  "put_load_avg la = (if la_text la = [] then [PutByte (CHR ''?'')] else [PutBytes (la_text la)])"

text \<open>macOS: the three averages arrive as floats.\<close>

definition load_avg_macos :: "(f64 \<times> f64 \<times> f64) option \<Rightarrow> f64 \<Rightarrow> (f64 \<times> f64 \<times> f64) option \<times> f64" where
  "load_avg_macos loads num_cpus =
     (case loads of Some (a, b, c) \<Rightarrow> (Some (a, b, c), min (f64_div a num_cpus) 1) | None \<Rightarrow> (None, 0))"

definition put_load_avg_macos :: "(f64 \<times> f64 \<times> f64) option \<Rightarrow> wcall list" where
  "put_load_avg_macos loads =
     (case loads of
        None \<Rightarrow> [PutByte (CHR ''?'')]
      | Some (a, b, c) \<Rightarrow> f2 a @ [PutByte (CHR '' '')] @ f2 b @ [PutByte (CHR '' '')] @ f2 c)"

record mem_info =
  used_bytes :: u64
  total_bytes :: u64

definition mem_frac :: "mem_info \<Rightarrow> f64" where
  "mem_frac mi =
     (if total_bytes mi > 0 then f64_div (f64_of_nat (unat (used_bytes mi))) (f64_of_nat (unat (total_bytes mi))) else 0)"

definition put_mem_info :: "mem_info \<Rightarrow> wcall list" where
  "put_mem_info mi =
     (if total_bytes mi = 0 then [PutByte (CHR ''?'')]
      else let gib = (\<lambda>bytes. f64_div (f64_of_nat (unat bytes)) (f64_of_nat (2 ^ 30)))
           in f1_wide (gib (used_bytes mi)) 0 @ put_str ''G / '' @ f1_wide (gib (total_bytes mi)) 0 @ put_str ''G used'')"

definition nth_num :: "string \<Rightarrow> nat \<Rightarrow> u64" where
  "nth_num entry n = num_field (fst (iter_nth n (split_ascii_whitespace entry)))"

fun meminfo_lines :: "u64 \<times> u64 \<Rightarrow> string list \<Rightarrow> u64 \<times> u64" where
  "meminfo_lines ta [] = ta"
| "meminfo_lines (total_kib, avail_kib) (entry # entries) =
     meminfo_lines
       (if starts_with entry ''MemTotal:'' then (nth_num entry 1, avail_kib)
        else if starts_with entry ''MemAvailable:'' then (total_kib, nth_num entry 1)
        else (total_kib, avail_kib)) entries"

definition mem_info_linux :: "string option \<Rightarrow> mem_info" where
  "mem_info_linux content =
     (case content of
        None \<Rightarrow> \<lparr>used_bytes = 0, total_bytes = 0\<rparr>
      | Some c \<Rightarrow>
          (case meminfo_lines (0, 0) (split_lines c) of
             (total_kib, avail_kib) \<Rightarrow>
               \<lparr>used_bytes = sat_sub64 total_kib avail_kib * 1024, total_bytes = total_kib * 1024\<rparr>))"

text \<open>macOS: total memory, page size, and the free and inactive page counts.\<close>

definition mem_info_macos :: "u64 \<Rightarrow> u64 \<Rightarrow> (u32 \<times> u32) option \<Rightarrow> mem_info" where
  "mem_info_macos total_mem page vm =
     (if total_mem = 0 then \<lparr>used_bytes = 0, total_bytes = 0\<rparr>
      else let avail = (case vm of Some (free, inactive) \<Rightarrow> (ucast free + ucast inactive) * page | None \<Rightarrow> 0)
           in \<lparr>used_bytes = sat_sub64 total_mem avail, total_bytes = total_mem\<rparr>)"

subsection \<open>Numbers\<close>

lemma digit_of_digit_char: "d < 10 \<Longrightarrow> unat (digit_of (digit_char d)) = d"
proof -
  assume "d < 10"
  then have "d \<in> set [0 ..< 10]" by simp
  moreover have "\<forall>d \<in> set [0 ..< 10]. unat (digit_of (digit_char d)) = d" by code_simp
  ultimately show ?thesis by blast
qed

lemma parse_digits_append:
  "parse_digits n (s @ t) = Option.bind (parse_digits n s) (\<lambda>m. parse_digits m t)"
  by (induction s arbitrary: n) (simp_all add: Let_def)

lemma parse_digits_digit:
  "d < 10 \<Longrightarrow> parse_digits n [digit_char d] = (if n * 10 + d < 18446744073709551616 then Some (n * 10 + d) else None)"
  by (simp add: Let_def word_le_nat_alt digit_of_digit_char)

lemma parse_digits_decimal: "parse_digits 0 (decimal n) = (if n < 18446744073709551616 then Some n else None)"
proof (induction n rule: decimal.induct)
  case (1 n)
  show ?case
  proof (cases "n < 10")
    case True
    then show ?thesis by (subst decimal.simps) (simp add: parse_digits_digit del: parse_digits.simps)
  next
    case False
    have m: "n mod 10 < 10" "n div 10 * 10 + n mod 10 = n" by simp_all
    have "n div 10 < 18446744073709551616" if "n < 18446744073709551616" using that by simp
    with 1 [OF False] False m show ?thesis
      by (subst decimal.simps) (simp add: parse_digits_append parse_digits_digit del: parse_digits.simps)
  qed
qed

lemma parse_u64_decimal:
  "parse_u64_ascii (decimal n) = (if n < 18446744073709551616 then Some (of_nat n) else None)"
  by (simp add: parse_u64_ascii_def parse_digits_decimal decimal_nonempty)

lemma parse_u64_unat [simp]: "parse_u64_ascii (decimal (unat (w :: u64))) = Some w"
  by (simp add: parse_u64_decimal unat_u64)

lemma parse_digits_digits: "parse_digits n s = Some m \<Longrightarrow> \<forall>c \<in> set s. digit_of c < 10"
  by (induction s arbitrary: n) (auto simp: Let_def split: if_splits)

lemma decimal_chars: "c \<in> set (decimal n) \<Longrightarrow> \<exists>d < 10. c = digit_char d"
proof (induction n rule: decimal.induct)
  case (1 n)
  show ?case
  proof (cases "n < 10")
    case True
    then have "decimal n = [digit_char n]" by (subst decimal.simps) simp
    with True "1.prems" show ?thesis by auto
  next
    case False
    then have "decimal n = decimal (n div 10) @ [digit_char (n mod 10)]" by (subst decimal.simps) simp
    with "1.prems" consider "c \<in> set (decimal (n div 10))" | "c = digit_char (n mod 10)" by auto
    then show ?thesis
    proof cases
      case 2
      then show ?thesis by (intro exI [of _ "n mod 10"]) simp
    qed (use "1.IH" False in blast)
  qed
qed

lemma digit_char_plain: "d < 10 \<Longrightarrow> digit_char d \<noteq> CHR ''('' \<and> digit_char d \<noteq> CHR '')'' \<and> \<not> is_ascii_whitespace (digit_char d)"
proof -
  assume "d < 10"
  then have "d \<in> set [0 ..< 10]" by simp
  moreover have "\<forall>d \<in> set [0 ..< 10]. digit_char d \<noteq> CHR ''('' \<and> digit_char d \<noteq> CHR '')'' \<and> \<not> is_ascii_whitespace (digit_char d)"
    by code_simp
  ultimately show ?thesis by blast
qed

subsection \<open>The stat line\<close>

lemma position_append: "\<forall>c \<in> set s. \<not> P c \<Longrightarrow> P c \<Longrightarrow> position P (s @ c # t) = Some (length s)"
  by (induction s) simp_all

lemma rposition_append: "P c \<Longrightarrow> \<forall>c \<in> set t. \<not> P c \<Longrightarrow> rposition P (s @ c # t) = Some (length s)"
proof (induction s)
  case Nil
  then have "rposition P t = None" by (simp add: rposition_None)
  with Nil show ?case by simp
qed simp

lemma parse_stat_line:
  assumes "\<forall>c \<in> set pre. c \<noteq> CHR ''(''" "CHR '')'' \<notin> set rest" "rest \<noteq> []" "\<not> is_ascii_whitespace (hd rest)"
  shows "parse_stat (pre @ '' ('' @ comm @ '') '' @ rest) = Some (comm, rest)"
proof -
  let ?stat = "pre @ '' ('' @ comm @ '') '' @ rest"
  have op: "position (\<lambda>b. b = CHR ''('') ?stat = Some (length pre + 1)"
    using position_append [of "pre @ '' ''" "\<lambda>b. b = CHR ''(''" "CHR ''(''" "comm @ '') '' @ rest"] assms(1) by simp
  have cl: "rposition (\<lambda>b. b = CHR '')'') ?stat = Some (length pre + 2 + length comm)"
    using rposition_append [of "\<lambda>b. b = CHR '')''" "CHR '')''" "'' '' @ rest" "pre @ '' ('' @ comm"] assms(2) by auto
  have "drop (length pre + 2 + length comm + 1) ((pre @ '' ('' @ comm @ '')'') @ '' '' @ rest) = '' '' @ rest"
    by (subst drop_append) simp
  then have d1: "drop (length pre + 2 + length comm + 1) ?stat = '' '' @ rest" by simp
  have "take (length comm) (drop (length pre + 2) ((pre @ '' ('') @ comm @ '') '' @ rest)) = comm"
    by (subst drop_append) simp
  then have d2: "take (length pre + 2 + length comm - (length pre + 1 + 1)) (drop (length pre + 1 + 1) ?stat) = comm"
    by simp
  have "is_ascii_whitespace (CHR '' '')" by (simp add: is_ascii_whitespace_def)
  then have af: "position (\<lambda>b. \<not> is_ascii_whitespace b) ('' '' @ rest) = Some 1"
    using assms(3,4) by (cases rest) simp_all
  show ?thesis
    unfolding parse_stat_def Let_def op cl option.case d1 d2 af by simp
qed

lemma iter_nth_eq: "k < length fs \<Longrightarrow> iter_nth k fs = (Some (fs ! k), drop (Suc k) fs)"
  by (simp add: iter_nth_def Cons_nth_drop_Suc [symmetric])

text \<open>A line as proc(5) describes it.\<close>

definition stat_line :: "u32 \<Rightarrow> string \<Rightarrow> string list \<Rightarrow> string" where
  "stat_line p comm fs = decimal (unat p) @ '' ('' @ comm @ '') '' @ join_sp fs"

definition stat_fields_ok :: "string list \<Rightarrow> bool" where
  "stat_fields_ok fs \<longleftrightarrow> 22 \<le> length fs \<and>
     list_all (\<lambda>w. w \<noteq> [] \<and> (\<forall>c \<in> set w. \<not> is_ascii_whitespace c \<and> c \<noteq> CHR '')'')) fs"

lemma set_join_sp: "set (join_sp fs) \<subseteq> insert (CHR '' '') (\<Union> (set ` set fs))"
  by (induction fs rule: join_sp.induct) auto

lemma parse_proc_stat_line:
  assumes fs: "stat_fields_ok fs"
    and num: "fs ! 1 = decimal (unat pp)" "fs ! 11 = decimal (unat ut)" "fs ! 12 = decimal (unat st)"
      "fs ! 19 = decimal (unat start)" "fs ! 21 = decimal (unat pages)"
  shows "parse_proc_stat page_size clock_ticks boot wall_now (stat_line p comm fs) =
    Some \<lparr>ps_ppid = ucast (pp :: u64), ps_total_ticks = ut + st,
      ps_age_secs = ucast (sat_sub64 wall_now (boot + start div of_nat clock_ticks)),
      ps_rss_bytes = pages * page_size, ps_comm = take (min (length comm) 15) comm\<rparr>"
proof -
  have len: "22 \<le> length fs" using fs by (simp add: stat_fields_ok_def)
  then obtain w ws where ws: "fs = w # ws" by (cases fs) auto
  have w: "w \<noteq> []" "\<forall>c \<in> set w. \<not> is_ascii_whitespace c" using fs ws by (simp_all add: stat_fields_ok_def)
  then have join: "join_sp fs \<noteq> []" "\<not> is_ascii_whitespace (hd (join_sp fs))"
    by (cases ws; cases w; simp add: ws)+
  have par: "CHR '')'' \<notin> set (join_sp fs)"
    using set_join_sp [of fs] fs by (fastforce simp: stat_fields_ok_def list_all_iff)
  have "\<forall>c \<in> set (decimal (unat p)). c \<noteq> CHR ''(''" using digit_char_plain by (auto dest!: decimal_chars)
  from parse_stat_line [OF this par join] have ps: "parse_stat (stat_line p comm fs) = Some (comm, join_sp fs)"
    by (simp add: stat_line_def)
  have sp: "List.filter (\<lambda>s. s \<noteq> []) (split_on is_ascii_whitespace (join_sp fs)) = fs"
    using split_join_sp [of fs] fs by (auto simp: split_ascii_whitespace_def stat_fields_ok_def list_all_iff)
  show ?thesis
    unfolding parse_proc_stat_def ps option.case prod.case Let_def sp
    using len by (simp add: iter_nth_eq num num(1) [unfolded One_nat_def] num_field_def)
qed

subsection \<open>Rows\<close>

lemma linux_proc_pid:
  "linux_proc ps ct b w ti p stat reads = Some (row, nxt) \<Longrightarrow>
   pid row = p \<and> fst nxt = p \<and> \<not> packed_visible (snd nxt) \<and> gpu row = None"
  by (auto simp: linux_proc_def linux_row_def Let_def stub_def proc_default_def split: option.splits if_splits)

lemma macos_proc_pid:
  "macos_proc src w tps ti p = (row, nxt) \<Longrightarrow> pid row = p \<and> fst nxt = p \<and> \<not> packed_visible (snd nxt) \<and> gpu row = None"
  by (auto simp: macos_proc_def Let_def stub_def proc_default_def split: option.splits if_splits prod.splits)

lemma those_map_Some: "those (List.map f xs) = Some ys \<longleftrightarrow> List.map f xs = List.map Some ys"
proof (induction xs arbitrary: ys)
  case (Cons x xs)
  then show ?case by (cases ys) (auto split: option.split)
qed auto

lemma collect_procs_linux_pids:
  assumes "collect_procs_linux src me ps ct b w ti = Some (procs, nxt)" "ls_pids src = Some pids"
  shows "List.map pid procs = List.filter (\<lambda>p. p \<noteq> me) pids \<and> List.map fst nxt = List.filter (\<lambda>p. p \<noteq> me) pids"
proof -
  let ?f = "\<lambda>p. linux_proc ps ct b w ti p (ls_stat src p) (ls_cmdline src p)"
  from assms obtain rows where r: "List.map ?f (List.filter (\<lambda>p. p \<noteq> me) pids) = List.map Some rows"
    "procs = List.map fst rows" "nxt = List.map snd rows"
    by (auto simp: collect_procs_linux_def those_map_Some)
  have "List.map ?f xs = List.map Some rows \<Longrightarrow>
      List.map (pid \<circ> fst) rows = xs \<and> List.map (fst \<circ> snd) rows = xs" for xs
  proof (induction xs arbitrary: rows)
    case (Cons x xs)
    then obtain row n rest where rr: "rows = (row, n) # rest" "?f x = Some (row, n)" "List.map ?f xs = List.map Some rest"
      by (cases rows) auto
    with Cons.IH [OF rr(3)] linux_proc_pid [OF rr(2)] show ?case by simp
  qed simp
  from this [OF r(1)] r(2,3) show ?thesis by simp
qed

definition row_of :: "parsed_stat \<Rightarrow> nat \<Rightarrow> thresholds_in \<Rightarrow> u32 \<Rightarrow> f32" where
  "row_of ps clock_ticks ti p =
     compute_cpu Linux (map_get (ti_prev ti) p) (ps_age_secs ps) (ps_total_ticks ps) (f64_of_nat clock_ticks) (ti_dt ti)"

lemma pack_visible: "age < VISIBLE_BIT \<Longrightarrow> visible (p\<lparr>age_visible := pack age v\<rparr>) = v"
  using pack_fields [of age v] by (simp add: visible_def)

lemma pack_visible_make:
  "age < VISIBLE_BIT \<Longrightarrow>
   visible \<lparr>pid = a, ppid = b, cpu = c, rss_kib = d, age_visible = pack age v, gpu = g, display = e\<rparr> = v"
  using pack_fields [of age v] by (simp add: visible_def)

lemma linux_row_visible:
  assumes "ps_age_secs ps < VISIBLE_BIT" "linux_row clock_ticks ti p ps reads = (row, nxt)"
    and "args = cmdline_args (read_cmdline [] reads)" "c = row_of ps clock_ticks ti p" "mb = ps_rss_bytes ps div (1024 * 1024)"
  shows "visible row \<longleftrightarrow> may_qualify ti p c mb (ps_comm ps) \<and> \<not> is_noise (ps_comm ps) args \<and>
    visible_now Linux ti p c mb (ps_comm ps) args"
  using assms(2) pack_visible [OF assms(1)] pack_visible_make [OF assms(1)]
  by (auto simp: linux_row_def Let_def assms(3-5) row_of_def split: if_splits)

subsection \<open>Argument blobs\<close>

lemma skip_while_append: "\<forall>c \<in> set s. P c \<Longrightarrow> t \<noteq> [] \<longrightarrow> \<not> P (hd t) \<Longrightarrow> skip_while P (s @ t) = t"
  by (induction s) (cases t; simp)+

definition plain_arg :: "string \<Rightarrow> bool" where
  "plain_arg a \<longleftrightarrow> a \<noteq> [] \<and> CHR 0x00 \<notin> set a"

lemma take_args_plain:
  "list_all plain_arg args \<Longrightarrow> take_args want (concat (List.map (\<lambda>a. a @ [CHR 0x00]) args) @ env) =
     take want args @ take_args (want - length args) env"
proof (induction args arbitrary: want)
  case (Cons a args)
  show ?case
  proof (cases want)
    case 0
    then show ?thesis by (simp add: take_args.simps)
  next
    case (Suc w)
    let ?rest = "concat (List.map (\<lambda>a. a @ [CHR 0x00]) args) @ env"
    have a: "a \<noteq> []" "\<forall>c \<in> set a. c \<noteq> CHR 0x00" using Cons.prems by (auto simp: plain_arg_def)
    have tw: "takeWhile (\<lambda>c. c \<noteq> CHR 0x00) (a @ CHR 0x00 # ?rest) = a"
      using a(2) by (subst takeWhile_append2) auto
    have sw: "skip_while (\<lambda>c. c \<noteq> CHR 0x00) (a @ CHR 0x00 # ?rest) = CHR 0x00 # ?rest"
      using a(2) by (intro skip_while_append) auto
    have "take_args (Suc w) (a @ CHR 0x00 # ?rest) = a # take_args w ?rest"
      using a(1) by (subst take_args.simps) (simp only: tw sw Let_def, simp)
    with Cons Suc show ?thesis by simp
  qed
qed simp

lemma le_nat_nil [simp]: "le_nat [] = 0" by (simp add: le_nat_def)

definition args_blob :: "string \<Rightarrow> string \<Rightarrow> nat \<Rightarrow> string list \<Rightarrow> string \<Rightarrow> string" where
  "args_blob argc4 exec_path pad args env =
     argc4 @ exec_path @ replicate (Suc pad) (CHR 0x00) @ concat (List.map (\<lambda>a. a @ [CHR 0x00]) args) @ env"

lemma macos_proc_args_blob:
  assumes "length argc4 = 4" "le_nat (List.map byte_of argc4) = length args" "length args < 2147483648"
    and "CHR 0x00 \<notin> set exec_path" "list_all plain_arg args" "args \<noteq> []"
  shows "macos_proc_args (args_blob argc4 exec_path pad args env) = take 64 args"
proof -
  let ?args = "concat (List.map (\<lambda>a. a @ [CHR 0x00]) args) @ env"
  let ?blob = "args_blob argc4 exec_path pad args env"
  have t: "take 4 ?blob = argc4" "drop 4 ?blob = exec_path @ replicate (Suc pad) (CHR 0x00) @ ?args"
    using assms(1) by (simp_all add: args_blob_def)
  have "unat (of_nat (length args) :: i32) = length args" using assms(3) by (simp add: unat_of_nat)
  then have "uint (of_nat (length args) :: i32) = int (length args)" by (metis of_nat_unat)
  then have "sint (of_nat (length args) :: i32) = int (length args)"
    using assms(3) unfolding sint_uint by (simp only:) (simp add: signed_take_bit_int_eq_self)
  then have argc: "nat (max (sint (of_nat (le_nat (List.map byte_of (take 4 ?blob))) :: i32)) 0) = length args"
    using t(1) assms(2) by simp
  have s1: "skip_while (\<lambda>c. c \<noteq> CHR 0x00) (drop 4 ?blob) = replicate (Suc pad) (CHR 0x00) @ ?args"
    unfolding t using assms(4) by (intro skip_while_append) auto
  obtain a as where a: "args = a # as" "a \<noteq> []" "CHR 0x00 \<notin> set a"
    using assms(5,6) by (cases args) (auto simp: plain_arg_def)
  then have "hd a \<noteq> CHR 0x00" by (metis hd_in_set)
  with a have s2: "skip_while (\<lambda>c. c = CHR 0x00) (replicate (Suc pad) (CHR 0x00) @ ?args) = ?args"
    by (intro skip_while_append) auto
  have "4 \<le> length ?blob" using assms(1) by (simp add: args_blob_def)
  then have "macos_proc_args ?blob = take_args (min (length args) 64) ?args"
    unfolding macos_proc_args_def argc s1 s2 Let_def by simp
  also have "\<dots> = take (min (length args) 64) args"
    using assms(5) by (simp add: take_args_plain take_args.simps [of 0])
  finally show ?thesis by (simp add: min_def)
qed

subsection \<open>Properties\<close>

text \<open>\<open>parse_u64_ascii\<close> reads back every decimal numeral a \<open>u64\<close> holds, rejects the numerals of
  larger numbers instead of wrapping, and accepts nothing with a byte that is not a digit.\<close>

theorem parse_u64_ascii_roundtrip:
  "parse_u64_ascii (flat (put_u64 w)) = Some w \<and>
   parse_u64_ascii (decimal n) = (if n < 2 ^ 64 then Some (of_nat n) else None) \<and>
   (parse_u64_ascii s \<noteq> None \<longrightarrow> s \<noteq> [] \<and> (\<forall>c \<in> set s. digit_of c < 10))"
proof -
  have "s \<noteq> [] \<and> (\<forall>c \<in> set s. digit_of c < 10)" if "parse_u64_ascii s \<noteq> None"
    using that parse_digits_digits [of 0 s] by (auto simp: parse_u64_ascii_def split: if_splits)
  then show ?thesis by (simp add: parse_u64_decimal unat_u64)
qed

theorem parse_u64_ascii_roundtrip_witness: "list_all (\<lambda>c. digit_of c < 10) (decimal 17)"
  using parse_u64_ascii_roundtrip [of 0 0 "decimal 17"] by (simp add: parse_u64_decimal list_all_iff)

text \<open>C16: a stat line as proc(5) gives it is read correctly whatever the command name holds, closing
  parentheses and spaces included: the parent pid, the two CPU counters, the start time and the
  resident pages come from their fields.\<close>

theorem parse_proc_stat_correct:
  assumes "stat_fields_ok fs"
    and "fs ! 1 = decimal (unat pp)" "fs ! 11 = decimal (unat ut)" "fs ! 12 = decimal (unat st)"
      "fs ! 19 = decimal (unat start)" "fs ! 21 = decimal (unat pages)"
  shows "parse_proc_stat page_size clock_ticks boot wall_now (stat_line p comm fs) =
    Some \<lparr>ps_ppid = ucast (pp :: u64), ps_total_ticks = ut + st,
      ps_age_secs = ucast (sat_sub64 wall_now (boot + start div of_nat clock_ticks)),
      ps_rss_bytes = pages * page_size, ps_comm = take (min (length comm) 15) comm\<rparr>"
  by (rule parse_proc_stat_line [OF assms])

theorem parse_proc_stat_correct_witness:
  "\<exists>r. parse_proc_stat 4096 100 5 1000 (stat_line 7 ''a) (b'' (replicate 22 ''1'')) = Some r \<and> ps_ppid r = 1"
proof -
  have "decimal (unat (1 :: u64)) = ''1''" by code_simp
  moreover have "stat_fields_ok (replicate 22 ''1'')" by code_simp
  ultimately show ?thesis
    using parse_proc_stat_correct [of "replicate 22 ''1''" 1 1 1 1 1 4096 100 5 1000 7 "''a) (b''"] by simp
qed

text \<open>the rows and the next tick's entries of \<open>collect_procs\<close> come out in lockstep: one of each per
  listed pid other than the monitor's own, in the listed order, on Linux and on macOS. This is what
  \<open>filter_with_children\<close> relies on when it marks the survivors' entries by position.\<close>

theorem collect_procs_lockstep:
  "(ls_pids lsrc = Some pids \<and> collect_procs_linux lsrc me page_size clock_ticks boot wall_now ti = Some (procs, nxt) \<longrightarrow>
     List.map pid procs = List.filter (\<lambda>p. p \<noteq> me) pids \<and> List.map fst nxt = List.map pid procs) \<and>
   (collect_procs_macos msrc me wall_now tps ti = (mprocs, mnxt) \<longrightarrow> List.map fst mnxt = List.map pid mprocs)"
proof -
  have "List.map fst mnxt = List.map pid mprocs" if "collect_procs_macos msrc me wall_now tps ti = (mprocs, mnxt)"
    using that macos_proc_pid [of msrc wall_now tps ti]
    by (auto simp: collect_procs_macos_def Let_def comp_def split: option.splits) (metis prod.collapse)
  then show ?thesis
    using collect_procs_linux_pids [of lsrc me page_size clock_ticks boot wall_now ti procs nxt pids] by auto
qed

theorem collect_procs_lockstep_witness:
  "List.map fst (snd (collect_procs_macos \<lparr>ms_pids = Some [5, 0, 6], ms_task = (\<lambda>_. None), ms_bsdinfo = (\<lambda>_. (0, [])),
     ms_name = (\<lambda>_. []), ms_args_size = (\<lambda>_. None), ms_args = (\<lambda>_. None)\<rparr> 6 0 1
     \<lparr>ti_gpu_pids = [], ti_prev = [], ti_dt = 0\<rparr>)) = [5]"
proof -
  let ?src = "\<lparr>ms_pids = Some [5, 0, 6], ms_task = (\<lambda>_. None), ms_bsdinfo = (\<lambda>_. (0, [])),
     ms_name = (\<lambda>_. []), ms_args_size = (\<lambda>_. None), ms_args = (\<lambda>_. None)\<rparr>"
  let ?ti = "\<lparr>ti_gpu_pids = [], ti_prev = [], ti_dt = 0\<rparr>"
  let ?r = "collect_procs_macos ?src 6 0 1 ?ti"
  have "List.map pid (fst ?r) = [5]" by (simp add: collect_procs_macos_def macos_proc_def stub_def)
  with collect_procs_lockstep [where msrc = ?src and me = 6 and wall_now = 0 and tps = 1 and ti = ?ti
      and mprocs = "fst ?r" and mnxt = "snd ?r"] show ?thesis by simp
qed

text \<open>C17: which Linux processes get a row on their own: exactly those that are not noise and are lean or
  lake by name, or use at least 5 percent CPU, or at least 128 MiB, or the GPU; and a lean or lake
  known by its arguments only, if it passes the test that lets its arguments be read at all.\<close>

theorem linux_visible_exactly:
  assumes "ps_age_secs ps < VISIBLE_BIT" "linux_row clock_ticks ti p ps reads = (row, nxt)"
    and "args = cmdline_args (read_cmdline [] reads)" "c = row_of ps clock_ticks ti p" "mb = ps_rss_bytes ps div (1024 * 1024)"
  shows "visible row \<longleftrightarrow> \<not> is_noise (ps_comm ps) args \<and>
    (ps_comm ps = ''lean'' \<or> ps_comm ps = ''lake'' \<or> c \<ge> CPU_THRESH \<or> unat mb \<ge> MEM_MB_THRESH \<or>
     set_contains (ti_gpu_pids ti) p \<or> may_qualify ti p c mb (ps_comm ps) \<and> is_lean_or_lake (ps_comm ps) args)"
proof -
  have "c \<ge> CPU_THRESH \<Longrightarrow> c \<ge> CHILD_CPU_THRESH" by (simp add: CPU_THRESH_def CHILD_CPU_THRESH_def)
  then show ?thesis
    unfolding linux_row_visible [OF assms]
    by (auto simp: visible_now_def may_qualify_def is_idle_noise_def is_lean_or_lake_def Let_def)
qed

theorem linux_visible_exactly_witness:
  "visible (fst (linux_row 100 \<lparr>ti_gpu_pids = [], ti_prev = [], ti_dt = 0\<rparr> 9
     \<lparr>ps_ppid = 1, ps_total_ticks = 0, ps_age_secs = 3, ps_rss_bytes = 0, ps_comm = ''lean''\<rparr> []))"
proof -
  let ?ti = "\<lparr>ti_gpu_pids = [], ti_prev = [], ti_dt = 0\<rparr>"
  let ?ps = "\<lparr>ps_ppid = 1, ps_total_ticks = 0, ps_age_secs = 3, ps_rss_bytes = 0, ps_comm = ''lean''\<rparr>"
  have age: "ps_age_secs ?ps < VISIBLE_BIT" by (simp add: VISIBLE_BIT_def)
  let ?r = "linux_row 100 ?ti 9 ?ps []"
  have r: "?r = (fst ?r, snd ?r)" by (rule surjective_pairing)
  have "\<not> is_noise ''lean'' (cmdline_args (read_cmdline [] []))" by code_simp
  with linux_visible_exactly [OF age r refl refl refl] show ?thesis
    by (simp only: parsed_stat.select_convs simp_thms)
qed

text \<open>C18: the macOS argument blob is taken apart correctly when no argument is empty: the executable
  path and its padding are skipped and the first 64 arguments come out, whatever environment
  follows. With an empty argument a variable of the environment is taken for an argument.\<close>

theorem macos_proc_args_correct:
  "(length argc4 = 4 \<and> le_nat (List.map byte_of argc4) = length args \<and> length args < 2147483648 \<and>
    CHR 0x00 \<notin> set exec_path \<and> list_all plain_arg args \<and> args \<noteq> [] \<longrightarrow>
    macos_proc_args (args_blob argc4 exec_path pad args env) = take 64 args) \<and>
   macos_proc_args (args_blob [CHR 0x02, CHR 0x00, CHR 0x00, CHR 0x00] ''/a'' 0 [''a'', []] (''K=1'' @ [CHR 0x00]))
     = [''a'', ''K=1'']"
proof -
  have "macos_proc_args (args_blob [CHR 0x02, CHR 0x00, CHR 0x00, CHR 0x00] ''/a'' 0 [''a'', []] (''K=1'' @ [CHR 0x00]))
     = [''a'', ''K=1'']"
    by (simp add: macos_proc_args_def args_blob_def le_nat_def byte_of_def take_args.simps)
  with macos_proc_args_blob show ?thesis by blast
qed

theorem macos_proc_args_correct_witness:
  "macos_proc_args (args_blob [CHR 0x01, CHR 0x00, CHR 0x00, CHR 0x00] ''/bin/ls'' 3 [''ls''] ''HOME'') = [''ls'']"
proof -
  have "le_nat (List.map byte_of [CHR 0x01, CHR 0x00, CHR 0x00, CHR 0x00]) = 1"
    by (simp add: le_nat_def byte_of_def)
  with macos_proc_args_correct [of "[CHR 0x01, CHR 0x00, CHR 0x00, CHR 0x00]" "[''ls'']" "''/bin/ls''" 3 "''HOME''"]
  show ?thesis by (simp add: plain_arg_def)
qed

end
