(* ===== verification/OsBinary.thy ===== *)
theory OsBinary
  imports Prelude
begin

unbundle bit_operations_syntax

text \<open>
  The OSSerializeBinary decoder of src/src/osbinary.rs: the flat validation walk that records
  checkpoints, and the lookups on the blob. Offsets and counts, \<open>u32\<close> there, are numbers: \<open>parse\<close>
  refuses blobs whose offsets could reach \<open>2 ^ 32\<close>, and the checked additions are kept as tests.
\<close>

definition TYPE_DICT :: u8 where "TYPE_DICT = 0x01"
definition TYPE_ARRAY :: u8 where "TYPE_ARRAY = 0x02"
definition TYPE_SET :: u8 where "TYPE_SET = 0x03"
definition TYPE_NUMBER :: u8 where "TYPE_NUMBER = 0x04"
definition TYPE_SYMBOL :: u8 where "TYPE_SYMBOL = 0x08"
definition TYPE_STRING :: u8 where "TYPE_STRING = 0x09"
definition TYPE_DATA :: u8 where "TYPE_DATA = 0x0a"
definition TYPE_BOOLEAN :: u8 where "TYPE_BOOLEAN = 0x0b"
definition TYPE_OBJECT :: u8 where "TYPE_OBJECT = 0x0c"

lemmas type_defs = TYPE_DICT_def TYPE_ARRAY_def TYPE_SET_def TYPE_NUMBER_def TYPE_SYMBOL_def
  TYPE_STRING_def TYPE_DATA_def TYPE_BOOLEAN_def TYPE_OBJECT_def

definition MAGIC :: "u8 list" where "MAGIC = [0xd3, 0x00, 0x00, 0x00]"

record tag =
  tg_ty :: u8
  tg_operand :: nat

definition read_tag :: "u8 list \<Rightarrow> nat \<Rightarrow> tag option" where
  "read_tag blob o' =
     (if o' + 4 > length blob then None
      else let raw = u32_le (take 4 (drop o' blob))
           in Some \<lparr>tg_ty = ucast (drop_bit 24 raw AND 0x7f), tg_operand = unat (raw AND 0x00ffffff)\<rparr>)"

definition scalar_step :: "tag \<Rightarrow> nat option" where
  "scalar_step t =
     (let ty = tg_ty t in
      if ty = TYPE_DICT \<or> ty = TYPE_ARRAY \<or> ty = TYPE_SET \<or> ty = TYPE_BOOLEAN then Some 4
      else if ty = TYPE_NUMBER then Some 12
      else if ty = TYPE_SYMBOL \<or> ty = TYPE_STRING \<or> ty = TYPE_DATA
           then Some ((tg_operand t + 3) div 4 * 4 + 4)
      else None)"

subsection \<open>Checkpoints\<close>

record ckpts =
  ck_buf :: "nat list"
  ck_n :: nat
  ck_stride :: nat

text \<open>\<open>while r < n { buf[w] = buf[r]; w += 1; r += 2 }\<close>.\<close>

function halve :: "nat list \<Rightarrow> nat \<Rightarrow> nat \<Rightarrow> nat \<Rightarrow> nat list \<times> nat" where
  "halve buf n w r = (if r < n then halve (buf[w := buf ! r]) n (w + 1) (r + 2) else (buf, w))"
  by pat_completeness auto
termination by (relation "measure (\<lambda>(buf, n, w, r). n - r)") auto

declare halve.simps [simp del]

definition ck_record :: "ckpts \<Rightarrow> nat \<Rightarrow> nat \<Rightarrow> ckpts" where
  "ck_record ck cnt off =
     (if cnt mod ck_stride ck \<noteq> 0 then ck
      else if ck_n ck = length (ck_buf ck) then
        (case halve (ck_buf ck) (ck_n ck) 0 0 of
           (buf, w) \<Rightarrow>
             if cnt mod (ck_stride ck * 2) \<noteq> 0
             then \<lparr>ck_buf = buf, ck_n = w, ck_stride = ck_stride ck * 2\<rparr>
             else \<lparr>ck_buf = buf[w := off], ck_n = w + 1, ck_stride = ck_stride ck * 2\<rparr>)
      else ck\<lparr>ck_buf := (ck_buf ck)[ck_n ck := off], ck_n := ck_n ck + 1\<rparr>)"

subsection \<open>The walk\<close>

definition is_container :: "tag \<Rightarrow> bool" where
  "is_container t \<longleftrightarrow> tg_ty t = TYPE_DICT \<or> tg_ty t = TYPE_ARRAY \<or> tg_ty t = TYPE_SET"

definition owed :: "tag \<Rightarrow> nat" where
  "owed t = (if is_container t then tg_operand t * (if tg_ty t = TYPE_DICT then 2 else 1) else 0)"

function walk_loop ::
  "u8 list \<Rightarrow> nat \<Rightarrow> nat \<Rightarrow> nat \<Rightarrow> ckpts option \<Rightarrow> (nat \<times> nat \<times> ckpts option) option" where
  "walk_loop blob cursor remaining cnt ck =
     (if remaining = 0 then Some (cursor, cnt, ck)
      else case read_tag blob cursor of
        None \<Rightarrow> None
      | Some t \<Rightarrow>
          if tg_ty t = TYPE_OBJECT then
            (if ck \<noteq> None \<and> tg_operand t \<ge> cnt then None
             else walk_loop blob (cursor + 4) (remaining - 1) cnt ck)
          else if remaining - 1 + owed t \<ge> 2 ^ 64 then None
          else (case scalar_step t of
             None \<Rightarrow> None
           | Some step \<Rightarrow>
               if cursor + step > length blob then None
               else if cnt + 1 \<ge> 2 ^ 32 then None
               else walk_loop blob (cursor + step) (remaining - 1 + owed t) (cnt + 1)
                      (map_option (\<lambda>c. ck_record c cnt cursor) ck)))"
  by pat_completeness auto

lemma scalar_step_ge: "scalar_step t = Some n \<Longrightarrow> 4 \<le> n"
  by (auto simp: scalar_step_def Let_def split: if_splits)

lemma read_tag_bound: "read_tag blob i = Some t \<Longrightarrow> i + 4 \<le> length blob"
  by (auto simp: read_tag_def split: if_splits)

termination walk_loop
proof (relation "measure (\<lambda>(blob, cursor, remaining, cnt, ck). length blob - cursor)")
  fix blob :: "u8 list" and cursor remaining cnt :: nat and ck :: "ckpts option" and t step
  assume t: "read_tag blob cursor = Some t"
  note b = read_tag_bound [OF t]
  then show "((blob, cursor + 4, remaining - 1, cnt, ck), blob, cursor, remaining, cnt, ck)
      \<in> measure (\<lambda>(blob, cursor, remaining, cnt, ck). length blob - cursor)" by simp
  assume "scalar_step t = Some step"
  with scalar_step_ge b
  show "((blob, cursor + step, remaining - 1 + owed t, cnt + 1, map_option (\<lambda>c. ck_record c cnt cursor) ck),
      blob, cursor, remaining, cnt, ck) \<in> measure (\<lambda>(blob, cursor, remaining, cnt, ck). length blob - cursor)"
    by fastforce
qed simp

declare walk_loop.simps [simp del]

definition walk :: "u8 list \<Rightarrow> nat \<Rightarrow> ckpts option \<Rightarrow> (nat \<times> nat \<times> ckpts option) option" where
  "walk blob start ck = walk_loop blob start 1 0 ck"

subsection \<open>Parsing and lookups\<close>

record os_binary =
  ob_blob :: "u8 list"
  ob_ckpts :: "nat list"
  ob_stride :: nat
  ob_count :: nat

definition os_parse :: "u8 list \<Rightarrow> nat list \<Rightarrow> os_binary option" where
  "os_parse blob ckpts_buf =
     (if length blob < 8 \<or> take 4 blob \<noteq> MAGIC \<or> ckpts_buf = [] then None
      else if length blob \<ge> 4294967295 - 16 then None
      else case walk blob 4 (Some \<lparr>ck_buf = ckpts_buf, ck_n = 0, ck_stride = 1\<rparr>) of
             Some (_, cnt, Some ck) \<Rightarrow>
               Some \<lparr>ob_blob = blob, ob_ckpts = take (ck_n ck) (ck_buf ck), ob_stride = ck_stride ck, ob_count = cnt\<rparr>
           | _ \<Rightarrow> None)"

definition os_root :: "os_binary \<Rightarrow> nat option" where
  "os_root b = (if ob_count b = 0 then None else Some 4)"

function nth_object_loop :: "u8 list \<Rightarrow> nat \<Rightarrow> nat \<Rightarrow> nat \<Rightarrow> nat option" where
  "nth_object_loop blob off i idx =
     (case read_tag blob off of
        None \<Rightarrow> None
      | Some t \<Rightarrow>
          if tg_ty t = TYPE_OBJECT then nth_object_loop blob (off + 4) i idx
          else if i = idx then Some off
          else case scalar_step t of None \<Rightarrow> None | Some step \<Rightarrow> nth_object_loop blob (off + step) (i + 1) idx)"
  by pat_completeness auto

termination nth_object_loop
proof (relation "measure (\<lambda>(blob, off, i, idx). length blob - off)")
  fix blob :: "u8 list" and off i idx :: nat and t step
  assume t: "read_tag blob off = Some t"
  note b = read_tag_bound [OF t]
  then show "((blob, off + 4, i, idx), blob, off, i, idx) \<in> measure (\<lambda>(blob, off, i, idx). length blob - off)" by simp
  assume "scalar_step t = Some step"
  with scalar_step_ge b
  show "((blob, off + step, i + 1, idx), blob, off, i, idx) \<in> measure (\<lambda>(blob, off, i, idx). length blob - off)"
    by fastforce
qed simp

declare nth_object_loop.simps [simp del]

definition nth_object :: "os_binary \<Rightarrow> nat \<Rightarrow> nat option" where
  "nth_object b idx =
     (if idx \<ge> ob_count b then None
      else let ck = idx div ob_stride b
           in if ck < length (ob_ckpts b)
              then nth_object_loop (ob_blob b) (ob_ckpts b ! ck) (ck * ob_stride b) idx
              else None)"

definition resolve :: "os_binary \<Rightarrow> nat \<Rightarrow> nat option" where
  "resolve b off =
     (case read_tag (ob_blob b) off of
        None \<Rightarrow> None
      | Some t \<Rightarrow> if tg_ty t = TYPE_OBJECT then nth_object b (tg_operand t) else Some off)"

definition item_len :: "os_binary \<Rightarrow> nat \<Rightarrow> nat option" where
  "item_len b off =
     (case read_tag (ob_blob b) off of
        None \<Rightarrow> None
      | Some t \<Rightarrow>
          if tg_ty t = TYPE_OBJECT then Some 4
          else map_option (\<lambda>(e, _, _). e - off) (walk (ob_blob b) off None))"

text \<open>The tag an item resolves to, with its offset.\<close>

definition target :: "os_binary \<Rightarrow> nat \<Rightarrow> (nat \<times> tag) option" where
  "target b off =
     (case resolve b off of None \<Rightarrow> None | Some o' \<Rightarrow> map_option (\<lambda>t. (o', t)) (read_tag (ob_blob b) o'))"

definition symbol_bytes :: "os_binary \<Rightarrow> nat \<Rightarrow> u8 list option" where
  "symbol_bytes b off =
     (case target b off of
        None \<Rightarrow> None
      | Some (o', t) \<Rightarrow>
          let trimmed = tg_operand t - 1
          in if tg_ty t \<noteq> TYPE_SYMBOL \<or> o' + 4 + trimmed > length (ob_blob b) then None
             else Some (take trimmed (drop (o' + 4) (ob_blob b))))"

fun find_dict_loop :: "os_binary \<Rightarrow> u8 list \<Rightarrow> nat \<Rightarrow> nat \<Rightarrow> nat option" where
  "find_dict_loop b key 0 cursor = None"
| "find_dict_loop b key (Suc pairs) cursor =
     (case item_len b cursor of
        None \<Rightarrow> None
      | Some key_len \<Rightarrow>
          (case item_len b (cursor + key_len) of
             None \<Rightarrow> None
           | Some val_len \<Rightarrow>
               if symbol_bytes b cursor = Some key then Some (cursor + key_len)
               else find_dict_loop b key pairs (cursor + key_len + val_len)))"

definition find_dict :: "os_binary \<Rightarrow> nat \<Rightarrow> u8 list \<Rightarrow> nat option" where
  "find_dict b dict key =
     (case target b dict of
        None \<Rightarrow> None
      | Some (o', t) \<Rightarrow>
          if tg_ty t \<noteq> TYPE_DICT then None else find_dict_loop b key (tg_operand t) (o' + 4))"

text \<open>The items \<open>for_each_array\<close> calls its function on, and whether it got to the end.\<close>

fun array_items :: "os_binary \<Rightarrow> nat \<Rightarrow> nat \<Rightarrow> nat list \<times> bool" where
  "array_items b 0 cursor = ([], True)"
| "array_items b (Suc n) cursor =
     (case item_len b cursor of
        None \<Rightarrow> ([], False)
      | Some len \<Rightarrow> (case array_items b n (cursor + len) of (is, ok) \<Rightarrow> (cursor # is, ok)))"

definition for_each_array :: "os_binary \<Rightarrow> nat \<Rightarrow> nat list \<times> bool" where
  "for_each_array b arr =
     (case target b arr of
        None \<Rightarrow> ([], False)
      | Some (o', t) \<Rightarrow>
          if tg_ty t \<noteq> TYPE_ARRAY \<and> tg_ty t \<noteq> TYPE_SET then ([], False)
          else array_items b (tg_operand t) (o' + 4))"

definition as_number :: "os_binary \<Rightarrow> nat \<Rightarrow> u64 option" where
  "as_number b it =
     (case target b it of
        None \<Rightarrow> None
      | Some (t_off, t) \<Rightarrow>
          if tg_ty t \<noteq> TYPE_NUMBER \<or> t_off + 4 + 8 > length (ob_blob b) then None
          else Some (push_bit 32 (ucast (u32_le (take 4 (drop (t_off + 8) (ob_blob b))))) OR
                     ucast (u32_le (take 4 (drop (t_off + 4) (ob_blob b))))))"

definition as_string :: "os_binary \<Rightarrow> nat \<Rightarrow> u8 list option" where
  "as_string b it =
     (case target b it of
        None \<Rightarrow> None
      | Some (t_off, t) \<Rightarrow>
          if tg_ty t \<noteq> TYPE_STRING \<or> t_off + 4 + tg_operand t > length (ob_blob b) then None
          else Some (take (tg_operand t) (drop (t_off + 4) (ob_blob b))))"

definition as_symbol :: "os_binary \<Rightarrow> nat \<Rightarrow> u8 list option" where "as_symbol b it = symbol_bytes b it"

definition as_bool :: "os_binary \<Rightarrow> nat \<Rightarrow> bool option" where
  "as_bool b it =
     (case target b it of
        None \<Rightarrow> None
      | Some (_, t) \<Rightarrow> if tg_ty t \<noteq> TYPE_BOOLEAN then None else Some (tg_operand t \<noteq> 0))"

subsection \<open>The objects of a stream\<close>

text \<open>The offsets of the non-reference tags the walk passes, in order.\<close>

function stream :: "u8 list \<Rightarrow> nat \<Rightarrow> nat \<Rightarrow> (nat \<times> nat list) option" where
  "stream blob cursor remaining =
     (if remaining = 0 then Some (cursor, [])
      else case read_tag blob cursor of
        None \<Rightarrow> None
      | Some t \<Rightarrow>
          if tg_ty t = TYPE_OBJECT then stream blob (cursor + 4) (remaining - 1)
          else (case scalar_step t of
             None \<Rightarrow> None
           | Some step \<Rightarrow>
               if cursor + step > length blob then None
               else map_option (\<lambda>(e, os). (e, cursor # os)) (stream blob (cursor + step) (remaining - 1 + owed t))))"
  by pat_completeness auto

termination stream
proof (relation "measure (\<lambda>(blob, cursor, remaining). length blob - cursor)")
  fix blob :: "u8 list" and cursor remaining :: nat and t step
  assume t: "read_tag blob cursor = Some t"
  note b = read_tag_bound [OF t]
  then show "((blob, cursor + 4, remaining - 1), blob, cursor, remaining)
      \<in> measure (\<lambda>(blob, cursor, remaining). length blob - cursor)" by simp
  assume "scalar_step t = Some step"
  with scalar_step_ge b
  show "((blob, cursor + step, remaining - 1 + owed t), blob, cursor, remaining)
      \<in> measure (\<lambda>(blob, cursor, remaining). length blob - cursor)" by fastforce
qed simp

declare stream.simps [simp del]

fun record_all :: "ckpts \<Rightarrow> nat \<Rightarrow> nat list \<Rightarrow> ckpts" where
  "record_all ck cnt [] = ck"
| "record_all ck cnt (o' # os) = record_all (ck_record ck cnt o') (cnt + 1) os"

lemma walk_loop_stream:
  "walk_loop blob cursor remaining cnt ck = Some (e, cnt', ck') \<Longrightarrow>
   \<exists>os. stream blob cursor remaining = Some (e, os) \<and> cnt' = cnt + length os \<and>
     ck' = map_option (\<lambda>c. record_all c cnt os) ck"
proof (induction blob cursor remaining cnt ck rule: walk_loop.induct)
  case (1 blob cursor remaining cnt ck)
  show ?case
  proof (cases "remaining = 0")
    case True
    with "1.prems" show ?thesis
      by (subst (asm) walk_loop.simps, subst stream.simps) (simp add: option.map_ident)
  next
    case rem: False
    with "1.prems" obtain t where t: "read_tag blob cursor = Some t"
      by (subst (asm) walk_loop.simps) (auto split: option.splits)
    show ?thesis
    proof (cases "tg_ty t = TYPE_OBJECT")
      case True
      with "1.prems" rem t have "walk_loop blob (cursor + 4) (remaining - 1) cnt ck = Some (e, cnt', ck')"
        "\<not> (ck \<noteq> None \<and> tg_operand t \<ge> cnt)"
        by (subst (asm) walk_loop.simps, auto split: if_splits)+
      with "1.IH"(1) [OF rem t True] True rem t show ?thesis by (subst stream.simps) auto
    next
      case False
      from "1.prems" rem t False have ow: "\<not> remaining - 1 + owed t \<ge> 2 ^ 64"
        by (subst (asm) walk_loop.simps) (auto split: if_splits)
      from "1.prems" rem t False obtain step where s: "scalar_step t = Some step"
        by (subst (asm) walk_loop.simps) (auto split: if_splits option.splits)
      from "1.prems" rem t False s ow have b: "\<not> cursor + step > length blob" "\<not> cnt + 1 \<ge> 2 ^ 32"
        and w: "walk_loop blob (cursor + step) (remaining - 1 + owed t) (cnt + 1)
          (map_option (\<lambda>c. ck_record c cnt cursor) ck) = Some (e, cnt', ck')"
        by (subst (asm) walk_loop.simps, auto split: if_splits)+
      from "1.IH"(2) [OF rem t False ow s b w] obtain os
        where os: "stream blob (cursor + step) (remaining - 1 + owed t) = Some (e, os)"
          "cnt' = cnt + 1 + length os"
          "ck' = map_option (\<lambda>c. record_all c (cnt + 1) os) (map_option (\<lambda>c. ck_record c cnt cursor) ck)" by blast
      with rem t False s b show ?thesis
        by (intro exI [of _ "cursor # os"]) (subst stream.simps, auto simp: option.map_comp comp_def)
    qed
  qed
qed

lemma stream_suffix:
  "stream blob cursor remaining = Some (e, os) \<Longrightarrow> i < length os \<Longrightarrow>
   \<exists>rem. stream blob (os ! i) rem = Some (e, drop i os) \<and> rem > 0"
proof (induction blob cursor remaining arbitrary: os i rule: stream.induct)
  case (1 blob cursor remaining)
  from "1.prems" have rem: "remaining \<noteq> 0" by (subst (asm) stream.simps) (auto split: if_splits)
  with "1.prems" obtain t where t: "read_tag blob cursor = Some t"
    by (subst (asm) stream.simps) (auto split: option.splits)
  show ?case
  proof (cases "tg_ty t = TYPE_OBJECT")
    case True
    with "1.prems" rem t have "stream blob (cursor + 4) (remaining - 1) = Some (e, os)"
      by (subst (asm) stream.simps) simp
    from "1.IH"(1) [OF rem t True this "1.prems"(2)] show ?thesis by blast
  next
    case False
    from "1.prems" rem t False obtain step where s: "scalar_step t = Some step"
      by (subst (asm) stream.simps) (auto split: if_splits option.splits)
    from "1.prems" rem t False s obtain os' where b: "\<not> cursor + step > length blob"
      and os: "stream blob (cursor + step) (remaining - 1 + owed t) = Some (e, os')" "os = cursor # os'"
      by (subst (asm) stream.simps) (auto split: if_splits)
    show ?thesis
    proof (cases i)
      case 0
      with "1.prems"(1) os rem show ?thesis by auto
    next
      case (Suc k)
      with "1.IH"(2) [OF rem t False s b os(1), of k] "1.prems"(2) os(2) show ?thesis by simp
    qed
  qed
qed

lemma nth_object_loop_stream:
  "stream blob cursor remaining = Some (e, os) \<Longrightarrow> j < length os \<Longrightarrow>
   nth_object_loop blob cursor i (i + j) = Some (os ! j)"
proof (induction blob cursor remaining arbitrary: os i j rule: stream.induct)
  case (1 blob cursor remaining)
  from "1.prems" have rem: "remaining \<noteq> 0" by (subst (asm) stream.simps) (auto split: if_splits)
  with "1.prems" obtain t where t: "read_tag blob cursor = Some t"
    by (subst (asm) stream.simps) (auto split: option.splits)
  show ?case
  proof (cases "tg_ty t = TYPE_OBJECT")
    case True
    with "1.prems" rem t have "stream blob (cursor + 4) (remaining - 1) = Some (e, os)"
      by (subst (asm) stream.simps) simp
    from "1.IH"(1) [OF rem t True this "1.prems"(2)] True t show ?thesis by (subst nth_object_loop.simps) simp
  next
    case False
    from "1.prems" rem t False obtain step where s: "scalar_step t = Some step"
      by (subst (asm) stream.simps) (auto split: if_splits option.splits)
    from "1.prems" rem t False s obtain os' where b: "\<not> cursor + step > length blob"
      and os: "stream blob (cursor + step) (remaining - 1 + owed t) = Some (e, os')" "os = cursor # os'"
      by (subst (asm) stream.simps) (auto split: if_splits)
    show ?thesis
    proof (cases j)
      case 0
      with t False os show ?thesis by (subst nth_object_loop.simps) simp
    next
      case (Suc k)
      with "1.IH"(2) [OF rem t False s b os(1), of k "i + 1"] "1.prems"(2) os(2) t False s
      show ?thesis by (subst nth_object_loop.simps) simp
    qed
  qed
qed

subsection \<open>Checkpoints of the walk\<close>

lemma halve_spec:
  "w \<le> r \<Longrightarrow> n \<le> length buf \<Longrightarrow> r = 2 * w \<Longrightarrow> (\<forall>i. w \<le> i \<longrightarrow> buf ! i = b0 ! i) \<Longrightarrow> (\<forall>i<w. buf ! i = b0 ! (2 * i)) \<Longrightarrow>
   w \<le> (n + 1) div 2 \<Longrightarrow> halve buf n w r = (buf', w') \<Longrightarrow>
   w' = (n + 1) div 2 \<and> length buf' = length buf \<and> (\<forall>i<w'. buf' ! i = b0 ! (2 * i))"
proof (induction buf n w r rule: halve.induct)
  case (1 buf n w r)
  show ?case
  proof (cases "r < n")
    case True
    with "1.prems" have h: "halve (buf[w := buf ! r]) n (w + 1) (r + 2) = (buf', w')"
      by (subst (asm) halve.simps) simp
    have wl: "w < length buf" using True "1.prems"(1,2) by simp
    have "buf ! r = b0 ! (2 * w)" using "1.prems"(3,4) by simp
    then have a: "\<forall>i<w + 1. buf[w := buf ! r] ! i = b0 ! (2 * i)"
      using "1.prems"(5) wl by (auto simp: nth_list_update less_Suc_eq)
    have b: "\<forall>i. w + 1 \<le> i \<longrightarrow> buf[w := buf ! r] ! i = b0 ! i" using "1.prems"(4) by simp
    have "w + 1 \<le> (n + 1) div 2" using True "1.prems"(3) by linarith
    with "1.IH" [OF True _ _ _ b a _ h] "1.prems"(1,2,3) show ?thesis by simp
  next
    case False
    with "1.prems"(7) have "buf' = buf" "w' = w" by (simp_all add: halve.simps)
    moreover have "w = (n + 1) div 2" using False "1.prems"(3,6) by linarith
    ultimately show ?thesis using "1.prems"(5) by simp
  qed
qed

definition ck_inv :: "ckpts \<Rightarrow> nat list \<Rightarrow> bool" where
  "ck_inv ck seen \<longleftrightarrow> ck_buf ck \<noteq> [] \<and> 0 < ck_stride ck \<and> ck_n ck \<le> length (ck_buf ck) \<and>
     length seen \<le> ck_n ck * ck_stride ck \<and>
     (\<forall>i<ck_n ck. i * ck_stride ck < length seen \<and> ck_buf ck ! i = seen ! (i * ck_stride ck))"

lemma ck_inv_D:
  assumes "ck_inv ck seen"
  shows "0 < ck_stride ck" "ck_buf ck \<noteq> []" "ck_n ck \<le> length (ck_buf ck)" "length seen \<le> ck_n ck * ck_stride ck"
    "i < ck_n ck \<Longrightarrow> i * ck_stride ck < length seen"
    "i < ck_n ck \<Longrightarrow> ck_buf ck ! i = seen ! (i * ck_stride ck)"
  using assms by (auto simp: ck_inv_def)

lemma ck_inv_full:
  assumes "ck_inv ck seen" "length seen mod ck_stride ck = 0"
  shows "length seen = ck_n ck * ck_stride ck"
proof -
  obtain q where q: "length seen = q * ck_stride ck" using assms(2) that [of "length seen div ck_stride ck"] by auto
  have "q \<le> ck_n ck" using ck_inv_D(1,4) [OF assms(1)] q by simp
  moreover have "\<not> q < ck_n ck" using ck_inv_D(5) [OF assms(1), of q] q by auto
  ultimately show ?thesis using q by simp
qed

lemma ck_inv_skip:
  assumes "ck_inv ck seen" "length seen mod ck_stride ck \<noteq> 0"
  shows "ck_inv ck (seen @ [off])"
proof -
  have "length seen \<noteq> ck_n ck * ck_stride ck" using assms(2) by auto
  with ck_inv_D(4) [OF assms(1)] have "length seen < ck_n ck * ck_stride ck" by simp
  with assms(1) show ?thesis by (simp add: ck_inv_def nth_append less_SucI)
qed

lemma ck_inv_push:
  assumes "ck_inv ck seen" "length seen = ck_n ck * ck_stride ck" "ck_n ck < length (ck_buf ck)"
  shows "ck_inv (ck\<lparr>ck_buf := (ck_buf ck)[ck_n ck := off], ck_n := ck_n ck + 1\<rparr>) (seen @ [off])"
  using assms by (auto simp: ck_inv_def nth_append nth_list_update less_Suc_eq)

lemma ck_inv_halve:
  assumes "ck_inv ck seen" "length seen = ck_n ck * ck_stride ck" "halve (ck_buf ck) (ck_n ck) 0 0 = (buf, w)"
  shows "ck_inv \<lparr>ck_buf = buf, ck_n = w, ck_stride = ck_stride ck * 2\<rparr> seen" "w = (ck_n ck + 1) div 2"
    "length buf = length (ck_buf ck)"
proof -
  note h = halve_spec [OF _ ck_inv_D(3) [OF assms(1)] _ _ _ _ assms(3), of "ck_buf ck"]
  from h show w: "w = (ck_n ck + 1) div 2" and l: "length buf = length (ck_buf ck)" by simp_all
  from h have e: "\<forall>i<w. buf ! i = ck_buf ck ! (2 * i)" by simp
  have lt: "2 * i < ck_n ck" if "i < w" for i using that w by linarith
  have el: "i * (ck_stride ck * 2) < length seen \<and> buf ! i = seen ! (i * (ck_stride ck * 2))" if "i < w" for i
    using ck_inv_D(5,6) [OF assms(1) lt [OF that]] e that by (simp add: mult.commute mult.left_commute)
  have "ck_n ck \<le> w * 2" using w by linarith
  then have "length seen \<le> w * (ck_stride ck * 2)" using assms(2)
    by (metis mult.assoc mult.commute mult_le_mono1)
  moreover have "buf \<noteq> []" using l ck_inv_D(2) [OF assms(1)] by auto
  moreover have "w \<le> length buf" using w l ck_inv_D(3) [OF assms(1)] by linarith
  ultimately show "ck_inv \<lparr>ck_buf = buf, ck_n = w, ck_stride = ck_stride ck * 2\<rparr> seen"
    using el ck_inv_D(1) [OF assms(1)] by (simp add: ck_inv_def)
qed

lemma ck_record_inv:
  assumes "ck_inv ck seen"
  shows "ck_inv (ck_record ck (length seen) off) (seen @ [off])"
proof (cases "length seen mod ck_stride ck = 0")
  case False
  with ck_inv_skip [OF assms] show ?thesis by (simp add: ck_record_def)
next
  case True
  note full = ck_inv_full [OF assms True]
  show ?thesis
  proof (cases "ck_n ck = length (ck_buf ck)")
    case False
    with ck_inv_D(3) [OF assms] have "ck_n ck < length (ck_buf ck)" by simp
    from ck_inv_push [OF assms full this] True False show ?thesis by (simp add: ck_record_def)
  next
    case nl: True
    obtain buf w where h: "halve (ck_buf ck) (ck_n ck) 0 0 = (buf, w)" by fastforce
    note hi = ck_inv_halve [OF assms full h]
    let ?ck = "\<lparr>ck_buf = buf, ck_n = w, ck_stride = ck_stride ck * 2\<rparr>"
    show ?thesis
    proof (cases "length seen mod (ck_stride ck * 2) = 0")
      case False
      with ck_inv_skip [OF hi(1)] True nl h show ?thesis by (simp add: ck_record_def)
    next
      case t2: True
      have "length seen = w * (ck_stride ck * 2)" using ck_inv_full [OF hi(1)] t2 by simp
      moreover have "0 < ck_n ck" using nl ck_inv_D(2) [OF assms] by simp
      moreover have "ck_n ck = w * 2" using full calculation ck_inv_D(1) [OF assms] by simp
      ultimately have "w < length buf" using nl hi(3) by simp
      with ck_inv_push [OF hi(1), of off] \<open>length seen = w * (ck_stride ck * 2)\<close> True t2 nl h
      show ?thesis by (simp add: ck_record_def)
    qed
  qed
qed

lemma record_all_inv: "ck_inv ck seen \<Longrightarrow> ck_inv (record_all ck (length seen) os) (seen @ os)"
proof (induction os arbitrary: ck seen)
  case (Cons o' os)
  from Cons.IH [OF ck_record_inv [OF Cons.prems, of o']] show ?case by simp
qed simp

lemma os_parse_D:
  assumes "os_parse blob buf = Some b"
  obtains e os where "stream blob 4 1 = Some (e, os)" "ob_blob b = blob" "ob_count b = length os"
    "0 < ob_stride b" "length os \<le> length (ob_ckpts b) * ob_stride b"
    "\<And>i. i < length (ob_ckpts b) \<Longrightarrow> i * ob_stride b < length os \<and> ob_ckpts b ! i = os ! (i * ob_stride b)"
proof -
  let ?c0 = "\<lparr>ck_buf = buf, ck_n = 0, ck_stride = 1\<rparr>"
  from assms obtain e cnt ck where w: "walk blob 4 (Some ?c0) = Some (e, cnt, Some ck)" and nb: "buf \<noteq> []"
    and b: "b = \<lparr>ob_blob = blob, ob_ckpts = take (ck_n ck) (ck_buf ck), ob_stride = ck_stride ck, ob_count = cnt\<rparr>"
    by (auto simp: os_parse_def split: if_splits option.splits)
  from walk_loop_stream [OF w [unfolded walk_def]] obtain os
    where os: "stream blob 4 1 = Some (e, os)" "cnt = length os" "ck = record_all ?c0 0 os" by auto
  have "ck_inv ?c0 []" using nb by (simp add: ck_inv_def)
  from record_all_inv [OF this, of os] os(3) have inv: "ck_inv ck os" by simp
  have lt: "length (ob_ckpts b) = ck_n ck" using b ck_inv_D(3) [OF inv] by simp
  show ?thesis
    by (rule that [OF os(1)]) (use b os(2) lt ck_inv_D [OF inv] in auto)
qed

lemma nth_object_correct:
  assumes "os_parse blob buf = Some b" "stream blob 4 1 = Some (e, os)"
  shows "nth_object b idx = (if idx < length os then Some (os ! idx) else None)"
proof -
  from os_parse_D [OF assms(1)] assms(2) have b: "ob_blob b = blob" "ob_count b = length os" "0 < ob_stride b"
    "length os \<le> length (ob_ckpts b) * ob_stride b"
    and ck: "\<And>i. i < length (ob_ckpts b) \<Longrightarrow> i * ob_stride b < length os \<and> ob_ckpts b ! i = os ! (i * ob_stride b)"
    by auto
  show ?thesis
  proof (cases "idx < length os")
    case False
    with b show ?thesis by (simp add: nth_object_def)
  next
    case True
    let ?k = "idx div ob_stride b"
    have k: "?k < length (ob_ckpts b)" using True b(3,4) by (simp add: less_mult_imp_div_less)
    let ?p = "?k * ob_stride b" and ?j = "idx mod ob_stride b"
    have p: "?p < length os" "ob_ckpts b ! ?k = os ! ?p" using ck [OF k] by auto
    obtain rem where s: "stream blob (os ! ?p) rem = Some (e, drop ?p os)"
      using stream_suffix [OF assms(2) p(1)] by blast
    have j: "?p + ?j = idx" by simp
    have "?j < length (drop ?p os)" using True j by (metis length_drop less_diff_conv add.commute)
    from nth_object_loop_stream [OF s this, of ?p] p j True k b show ?thesis
      by (simp add: nth_object_def Let_def)
  qed
qed

text \<open>C19: any non-empty checkpoint table resolves back-references exactly: in a blob \<open>parse\<close> accepts, whatever
  the size of the scratch table (even one entry), object number \<open>idx\<close> is the \<open>idx\<close>-th non-reference tag of
  the stream for every \<open>idx\<close> below the count and nothing above it, and the count is their number.\<close>

theorem nth_object_is_emit_order:
  assumes "os_parse blob buf = Some b"
  shows "\<exists>e os. stream blob 4 1 = Some (e, os) \<and> ob_count b = length os \<and>
    (\<forall>idx. nth_object b idx = (if idx < length os then Some (os ! idx) else None))"
proof -
  from os_parse_D [OF assms] obtain e os where os: "stream blob 4 1 = Some (e, os)" "ob_count b = length os" by blast
  with nth_object_correct [OF assms os(1)] show ?thesis by blast
qed

text \<open>\<open>{ "k": 7, (ref 1): true }\<close>, parsed with a table of one entry.\<close>

definition sample_blob :: "u8 list" where
  "sample_blob =
     [0xd3, 0, 0, 0, 2, 0, 0, 0x81, 2, 0, 0, 8, 0x6b, 0, 0, 0, 0x40, 0, 0, 4, 7, 0, 0, 0, 0, 0, 0, 0,
      1, 0, 0, 0x0c, 1, 0, 0, 0x8b]"

lemma sample_tags:
  "read_tag sample_blob 4 = Some \<lparr>tg_ty = 1, tg_operand = 2\<rparr>"
  "read_tag sample_blob 8 = Some \<lparr>tg_ty = 8, tg_operand = 2\<rparr>"
  "read_tag sample_blob 16 = Some \<lparr>tg_ty = 4, tg_operand = 64\<rparr>"
  "read_tag sample_blob 28 = Some \<lparr>tg_ty = 12, tg_operand = 1\<rparr>"
  "read_tag sample_blob 32 = Some \<lparr>tg_ty = 11, tg_operand = 1\<rparr>"
  by (simp_all add: read_tag_def sample_blob_def u32_le_def)

lemma sample_length: "length sample_blob = 36" by (simp add: sample_blob_def)

lemma sample_parse:
  "os_parse sample_blob [0] = Some \<lparr>ob_blob = sample_blob, ob_ckpts = [4], ob_stride = 4, ob_count = 4\<rparr>"
proof -
  have "take 4 sample_blob = MAGIC" by (simp add: sample_blob_def MAGIC_def)
  moreover have "walk sample_blob 4 (Some \<lparr>ck_buf = [0], ck_n = 0, ck_stride = 1\<rparr>)
      = Some (36, 4, Some \<lparr>ck_buf = [4], ck_n = 1, ck_stride = 4\<rparr>)"
    by (simp add: walk_def walk_loop.simps sample_tags sample_length type_defs scalar_step_def owed_def
        is_container_def ck_record_def halve.simps)
  ultimately show ?thesis by (simp add: os_parse_def sample_length)
qed

theorem nth_object_is_emit_order_witness:
  "\<exists>b. os_parse sample_blob [0] = Some b \<and> nth_object b 3 = Some 32 \<and> nth_object b 4 = None"
proof -
  let ?b = "\<lparr>ob_blob = sample_blob, ob_ckpts = [4], ob_stride = 4, ob_count = 4\<rparr>"
  have "stream sample_blob 4 1 = Some (36, [4, 8, 16, 32])"
    by (simp add: stream.simps sample_tags sample_length type_defs scalar_step_def owed_def is_container_def)
  with nth_object_is_emit_order [OF sample_parse]
  have "nth_object ?b 3 = Some 32 \<and> nth_object ?b 4 = None" by auto
  with sample_parse show ?thesis by blast
qed

end
