(* ===== verification/Sandbox.thy ===== *)
theory Sandbox
  imports Twrite
begin

text \<open>
  The Linux sandbox of src/src/sandbox.rs: the seccomp program \<open>build_prog\<close> assembles, the classic-BPF
  interpreter and the \<open>seccomp_data\<close> layout its tests run it with, and the installation sequence.
  The architecture (\<open>cfg(target_arch)\<close>) and the \<open>sandbox-trap\<close> feature are arguments; the replies of the
  kernel are a parameter of the installation.
\<close>

subsection \<open>Constants\<close>

datatype arch = X86_64 | Aarch64

definition SECCOMP_RET_KILL_PROCESS :: u32 where "SECCOMP_RET_KILL_PROCESS = 0x80000000"
definition SECCOMP_RET_TRAP :: u32 where "SECCOMP_RET_TRAP = 0x00030000"
definition SECCOMP_RET_ALLOW :: u32 where "SECCOMP_RET_ALLOW = 0x7fff0000"

definition BPF_LD_W_ABS :: u16 where "BPF_LD_W_ABS = 0x20"
definition BPF_JMP_JEQ_K :: u16 where "BPF_JMP_JEQ_K = 0x15"
definition BPF_RET_K :: u16 where "BPF_RET_K = 0x06"
definition BPF_ALU_AND_K :: u16 where "BPF_ALU_AND_K = 0x54"

definition SECCOMP_DATA_NR :: u32 where "SECCOMP_DATA_NR = 0"
definition SECCOMP_DATA_ARCH :: u32 where "SECCOMP_DATA_ARCH = 4"
definition SECCOMP_DATA_ARG0_LO :: u32 where "SECCOMP_DATA_ARG0_LO = 16"
definition SECCOMP_DATA_ARG1_LO :: u32 where "SECCOMP_DATA_ARG1_LO = 24"
definition SECCOMP_DATA_ARG2_LO :: u32 where "SECCOMP_DATA_ARG2_LO = 32"

definition OPENAT_DENY_FLAGS :: u32 where "OPENAT_DENY_FLAGS = 0x400643"
definition TIOCGWINSZ :: u32 where "TIOCGWINSZ = 0x5413"
definition TCSETS :: u32 where "TCSETS = 0x5402"
definition RM_IOCTL_MASK :: u32 where "RM_IOCTL_MASK = 0xc000ff00"
definition RM_IOCTL_VALUE :: u32 where "RM_IOCTL_VALUE = 0xc0000000 OR push_bit 8 (0x46 :: u32)"

definition AUDIT_ARCH :: "arch \<Rightarrow> u32" where
  "AUDIT_ARCH a = (case a of X86_64 \<Rightarrow> 0xC000003E | Aarch64 \<Rightarrow> 0xC00000B7)"

definition deny_action :: "bool \<Rightarrow> u32" where
  "deny_action trap = (if trap then SECCOMP_RET_TRAP else SECCOMP_RET_KILL_PROCESS)"

definition allow_direct :: "arch \<Rightarrow> bool \<Rightarrow> u32 list" where
  "allow_direct a trap =
     (case a of
        X86_64 \<Rightarrow> [0, 3, 28, 35, 39, 217, 219, 263, 228, 231] @ (if trap then [15] else [])
      | Aarch64 \<Rightarrow> [63, 57, 233, 101, 172, 61, 128, 35, 113, 94] @ (if trap then [139] else []))"

definition SYS_WRITE :: "arch \<Rightarrow> u32" where "SYS_WRITE a = (case a of X86_64 \<Rightarrow> 1 | Aarch64 \<Rightarrow> 64)"
definition SYS_OPENAT :: "arch \<Rightarrow> u32" where "SYS_OPENAT a = (case a of X86_64 \<Rightarrow> 257 | Aarch64 \<Rightarrow> 56)"
definition SYS_IOCTL :: "arch \<Rightarrow> u32" where "SYS_IOCTL a = (case a of X86_64 \<Rightarrow> 16 | Aarch64 \<Rightarrow> 29)"

subsection \<open>The program\<close>

record sock_filter =
  sf_code :: u16
  sf_jt :: u8
  sf_jf :: u8
  sf_k :: u32

abbreviation ins :: "u16 \<Rightarrow> u8 \<Rightarrow> u8 \<Rightarrow> u32 \<Rightarrow> sock_filter" where
  "ins c jt jf k \<equiv> \<lparr>sf_code = c, sf_jt = jt, sf_jf = jf, sf_k = k\<rparr>"

definition I_LD_ARCH :: nat where "I_LD_ARCH = 0"
definition I_JEQ_ARCH :: nat where "I_JEQ_ARCH = 1"
definition I_LD_NR :: nat where "I_LD_NR = 2"
definition I_DIRECT_START :: nat where "I_DIRECT_START = 3"
definition I_DISPATCH_WRITE :: "nat \<Rightarrow> nat" where "I_DISPATCH_WRITE n = I_DIRECT_START + n"
definition I_DISPATCH_OPENAT :: "nat \<Rightarrow> nat" where "I_DISPATCH_OPENAT n = I_DISPATCH_WRITE n + 1"
definition I_DISPATCH_IOCTL :: "nat \<Rightarrow> nat" where "I_DISPATCH_IOCTL n = I_DISPATCH_OPENAT n + 1"
definition I_CHECK_WRITE :: "nat \<Rightarrow> nat" where "I_CHECK_WRITE n = I_DISPATCH_IOCTL n + 1"
definition I_CHECK_OPENAT :: "nat \<Rightarrow> nat" where "I_CHECK_OPENAT n = I_CHECK_WRITE n + 3"
definition I_CHECK_IOCTL :: "nat \<Rightarrow> nat" where "I_CHECK_IOCTL n = I_CHECK_OPENAT n + 3"
definition I_RET_DENY :: "nat \<Rightarrow> nat" where "I_RET_DENY n = I_CHECK_IOCTL n + 5"
definition I_RET_ALLOW :: "nat \<Rightarrow> nat" where "I_RET_ALLOW n = I_RET_DENY n + 1"
definition PROG_LEN :: "nat \<Rightarrow> nat" where "PROG_LEN n = I_RET_ALLOW n + 1"

lemmas index_defs = I_LD_ARCH_def I_JEQ_ARCH_def I_LD_NR_def I_DIRECT_START_def I_DISPATCH_WRITE_def
  I_DISPATCH_OPENAT_def I_DISPATCH_IOCTL_def I_CHECK_WRITE_def I_CHECK_OPENAT_def I_CHECK_IOCTL_def
  I_RET_DENY_def I_RET_ALLOW_def PROG_LEN_def

definition jmp :: "nat \<Rightarrow> nat \<Rightarrow> u8" where "jmp from' to' = of_nat (to' - from' - 1)"

text \<open>The loop over \<open>ALLOW_DIRECT\<close>.\<close>

function direct_jeqs :: "u32 list \<Rightarrow> nat \<Rightarrow> sock_filter list \<Rightarrow> sock_filter list" where
  "direct_jeqs allow i prog =
     (if i < length allow
      then let idx = I_DIRECT_START + i
           in direct_jeqs allow (i + 1)
                (prog[idx := ins BPF_JMP_JEQ_K (jmp idx (I_RET_ALLOW (length allow))) 0 (allow ! i)])
      else prog)"
  by pat_completeness auto
termination by (relation "measure (\<lambda>(allow, i, prog). length allow - i)") auto

declare direct_jeqs.simps [simp del]

definition build_prog :: "arch \<Rightarrow> bool \<Rightarrow> sock_filter list" where
  "build_prog a trap =
     (let n = length (allow_direct a trap);
          prog = replicate (PROG_LEN n) (ins 0 0 0 0);
          prog = prog[I_LD_ARCH := ins BPF_LD_W_ABS 0 0 SECCOMP_DATA_ARCH];
          prog = prog[I_JEQ_ARCH := ins BPF_JMP_JEQ_K 0 (jmp I_JEQ_ARCH (I_RET_DENY n)) (AUDIT_ARCH a)];
          prog = prog[I_LD_NR := ins BPF_LD_W_ABS 0 0 SECCOMP_DATA_NR];
          prog = direct_jeqs (allow_direct a trap) 0 prog
      in prog
        [I_DISPATCH_WRITE n := ins BPF_JMP_JEQ_K (jmp (I_DISPATCH_WRITE n) (I_CHECK_WRITE n)) 0 (SYS_WRITE a),
         I_DISPATCH_OPENAT n := ins BPF_JMP_JEQ_K (jmp (I_DISPATCH_OPENAT n) (I_CHECK_OPENAT n)) 0 (SYS_OPENAT a),
         I_DISPATCH_IOCTL n := ins BPF_JMP_JEQ_K (jmp (I_DISPATCH_IOCTL n) (I_CHECK_IOCTL n))
           (jmp (I_DISPATCH_IOCTL n) (I_RET_DENY n)) (SYS_IOCTL a),
         I_CHECK_WRITE n := ins BPF_LD_W_ABS 0 0 SECCOMP_DATA_ARG0_LO,
         I_CHECK_WRITE n + 1 := ins BPF_JMP_JEQ_K (jmp (I_CHECK_WRITE n + 1) (I_RET_ALLOW n)) 0 1,
         I_CHECK_WRITE n + 2 := ins BPF_JMP_JEQ_K (jmp (I_CHECK_WRITE n + 2) (I_RET_ALLOW n))
           (jmp (I_CHECK_WRITE n + 2) (I_RET_DENY n)) 2,
         I_CHECK_OPENAT n := ins BPF_LD_W_ABS 0 0 SECCOMP_DATA_ARG2_LO,
         I_CHECK_OPENAT n + 1 := ins BPF_ALU_AND_K 0 0 OPENAT_DENY_FLAGS,
         I_CHECK_OPENAT n + 2 := ins BPF_JMP_JEQ_K (jmp (I_CHECK_OPENAT n + 2) (I_RET_ALLOW n))
           (jmp (I_CHECK_OPENAT n + 2) (I_RET_DENY n)) 0,
         I_CHECK_IOCTL n := ins BPF_LD_W_ABS 0 0 SECCOMP_DATA_ARG1_LO,
         I_CHECK_IOCTL n + 1 := ins BPF_JMP_JEQ_K (jmp (I_CHECK_IOCTL n + 1) (I_RET_ALLOW n)) 0 TIOCGWINSZ,
         I_CHECK_IOCTL n + 2 := ins BPF_JMP_JEQ_K (jmp (I_CHECK_IOCTL n + 2) (I_RET_ALLOW n)) 0 TCSETS,
         I_CHECK_IOCTL n + 3 := ins BPF_ALU_AND_K 0 0 RM_IOCTL_MASK,
         I_CHECK_IOCTL n + 4 := ins BPF_JMP_JEQ_K (jmp (I_CHECK_IOCTL n + 4) (I_RET_ALLOW n))
           (jmp (I_CHECK_IOCTL n + 4) (I_RET_DENY n)) RM_IOCTL_VALUE,
         I_RET_DENY n := ins BPF_RET_K 0 0 (deny_action trap),
         I_RET_ALLOW n := ins BPF_RET_K 0 0 SECCOMP_RET_ALLOW])"

subsection \<open>The interpreter\<close>

text \<open>\<open>run_bpf\<close>: an index outside the program or the data, and an unknown opcode, panic (\<open>None\<close>).\<close>

function run_bpf_from :: "sock_filter list \<Rightarrow> u8 list \<Rightarrow> nat \<Rightarrow> u32 \<Rightarrow> u32 option" where
  "run_bpf_from prog data pc a =
     (if pc < length prog then
        (let i = prog ! pc in
         if sf_code i = BPF_LD_W_ABS then
           (let off = unat (sf_k i)
            in if off + 4 \<le> length data then run_bpf_from prog data (pc + 1) (u32_le (take 4 (drop off data)))
               else None)
         else if sf_code i = BPF_JMP_JEQ_K then
           run_bpf_from prog data (pc + 1 + unat (if a = sf_k i then sf_jt i else sf_jf i)) a
         else if sf_code i = BPF_ALU_AND_K then run_bpf_from prog data (pc + 1) (a AND sf_k i)
         else if sf_code i = BPF_RET_K then Some (sf_k i)
         else None)
      else None)"
  by pat_completeness auto
termination by (relation "measure (\<lambda>(prog, data, pc, a). length prog - pc)") auto

declare run_bpf_from.simps [simp del]

definition run_bpf :: "sock_filter list \<Rightarrow> u8 list \<Rightarrow> u32 option" where
  "run_bpf prog data = run_bpf_from prog data 0 0"

text \<open>\<open>copy_from_slice\<close> into a part of the array.\<close>

definition store :: "nat \<Rightarrow> u8 list \<Rightarrow> u8 list \<Rightarrow> u8 list" where
  "store off bs d = take off d @ bs @ drop (off + length bs) d"

fun store_args :: "nat \<Rightarrow> u64 list \<Rightarrow> u8 list \<Rightarrow> u8 list" where
  "store_args i [] d = d"
| "store_args i (a # args) d =
     (if i < 6 then store_args (i + 1) args (store (16 + i * 8) (le_bytes 8 a) d) else d)"

definition make_data :: "i32 \<Rightarrow> u32 \<Rightarrow> u64 list \<Rightarrow> u8 list" where
  "make_data nr arch args =
     store_args 0 args (store 4 (le_bytes 4 arch) (store 0 (le_bytes 4 nr) (replicate 64 0)))"

subsection \<open>The policy\<close>

text \<open>What the module documentation says the filter lets through.\<close>

definition arg_lo :: "u64 list \<Rightarrow> nat \<Rightarrow> u32" where
  "arg_lo args j = (if j < length args then ucast (args ! j) else 0)"

definition sys_allowed :: "arch \<Rightarrow> bool \<Rightarrow> i32 \<Rightarrow> u32 \<Rightarrow> u64 list \<Rightarrow> bool" where
  "sys_allowed a trap nr arch args \<longleftrightarrow>
     arch = AUDIT_ARCH a \<and>
     (nr \<in> set (allow_direct a trap)
      \<or> nr = SYS_WRITE a \<and> arg_lo args 0 \<in> {1, 2}
      \<or> nr = SYS_OPENAT a \<and> arg_lo args 2 AND OPENAT_DENY_FLAGS = 0
      \<or> nr = SYS_IOCTL a \<and> (arg_lo args 1 \<in> {TIOCGWINSZ, TCSETS} \<or> arg_lo args 1 AND RM_IOCTL_MASK = RM_IOCTL_VALUE))"

subsection \<open>Loads\<close>

definition load4 :: "nat \<Rightarrow> u8 list \<Rightarrow> u8 list" where "load4 off d = take 4 (drop off d)"

lemma length_store [simp]: "off + length bs \<le> length d \<Longrightarrow> length (store off bs d) = length d"
  by (simp add: store_def)

lemma load4_store_same:
  "off \<le> length d \<Longrightarrow> 4 \<le> length bs \<Longrightarrow> load4 off (store off bs d) = take 4 bs"
  by (simp add: store_def load4_def)

lemma load4_store_before: "off' + 4 \<le> off \<Longrightarrow> off \<le> length d \<Longrightarrow> load4 off' (store off bs d) = load4 off' d"
  by (simp add: store_def load4_def drop_append take_append min_def drop_take [symmetric]) (simp add: take_drop)

lemma load4_store_after:
  "off + length bs \<le> off' \<Longrightarrow> off \<le> length d \<Longrightarrow> load4 off' (store off bs d) = load4 off' d"
  by (simp add: store_def load4_def add.commute)

lemma take_le_bytes: "take 4 (le_bytes 8 w) = le_bytes 4 w"
  by (simp add: le_bytes_def take_map)

lemma store_args_load:
  "length d = 64 \<Longrightarrow>
   length (store_args i args d) = 64 \<and>
   (off \<le> 12 \<longrightarrow> load4 off (store_args i args d) = load4 off d) \<and>
   (j < 6 \<longrightarrow> load4 (16 + j * 8) (store_args i args d) =
     (if i \<le> j \<and> j - i < length args then le_bytes 4 (args ! (j - i)) else load4 (16 + j * 8) d))"
proof (induction i args d rule: store_args.induct)
  case (2 i a args d)
  show ?case
  proof (cases "i < 6")
    case True
    let ?d = "store (16 + i * 8) (le_bytes 8 a) d"
    have l: "length ?d = 64" using True "2.prems" by simp
    have o12: "load4 off ?d = load4 off d" if "off \<le> 12" using that "2.prems" True by (intro load4_store_before) auto
    have same: "load4 (16 + i * 8) ?d = le_bytes 4 a"
      using True "2.prems" by (simp add: load4_store_same take_le_bytes)
    have other: "load4 (16 + j * 8) ?d = load4 (16 + j * 8) d" if "j \<noteq> i"
    proof (cases "j < i")
      case True
      then show ?thesis using \<open>i < 6\<close> "2.prems" by (intro load4_store_before) auto
    next
      case False
      with that show ?thesis using \<open>i < 6\<close> "2.prems" by (intro load4_store_after) auto
    qed
    note IH = "2.IH" [OF True l]
    consider "j = i" | "j < i" | "i < j" "j - i = Suc (j - Suc i)" by linarith
    then show ?thesis using True IH o12 same other by cases auto
  qed (use "2.prems" in auto)
qed simp

lemma make_data_loads:
  "length (make_data nr arch args) = 64"
  "u32_le (load4 0 (make_data nr arch args)) = nr"
  "u32_le (load4 4 (make_data nr arch args)) = arch"
  "j < 6 \<Longrightarrow> u32_le (load4 (16 + j * 8) (make_data nr arch args)) = arg_lo args j"
proof -
  let ?d0 = "store 0 (le_bytes 4 nr) (replicate 64 0)"
  let ?d = "store 4 (le_bytes 4 arch) ?d0"
  have l: "length ?d = 64" by simp
  note L = store_args_load [OF l, of 0 args]
  have d0: "load4 0 ?d = le_bytes 4 nr" by (simp add: load4_store_before load4_store_same)
  have d4: "load4 4 ?d = le_bytes 4 arch" by (simp add: load4_store_same)
  have z: "load4 (16 + j * 8) ?d = replicate 4 0" if "j < 6" for j
    using that by (simp add: load4_store_after) (simp add: load4_def)
  have z0: "u32_le (replicate 4 0) = 0" by (simp add: u32_le_def numeral_eq_Suc)
  show "length (make_data nr arch args) = 64" using L by (simp add: make_data_def)
  show "u32_le (load4 0 (make_data nr arch args)) = nr"
    using L [of 0] d0 by (simp add: make_data_def u32_le_bytes)
  show "u32_le (load4 4 (make_data nr arch args)) = arch"
    using L [of 4] d4 by (simp add: make_data_def u32_le_bytes)
  show "j < 6 \<Longrightarrow> u32_le (load4 (16 + j * 8) (make_data nr arch args)) = arg_lo args j"
    using L [of _ j] z z0 by (simp add: make_data_def u32_le_bytes arg_lo_def)
qed

subsection \<open>The instructions of the program\<close>

lemma allow_direct_length: "length (allow_direct a trap) \<le> 11"
  by (simp add: allow_direct_def split: arch.split)

lemma direct_jeqs_nth:
  "3 + length allow \<le> length prog \<Longrightarrow>
   length (direct_jeqs allow i prog) = length prog \<and>
   (direct_jeqs allow i prog ! j =
     (if 3 + i \<le> j \<and> j < 3 + length allow
      then ins BPF_JMP_JEQ_K (jmp j (I_RET_ALLOW (length allow))) 0 (allow ! (j - 3)) else prog ! j))"
proof (induction allow i prog rule: direct_jeqs.induct)
  case (1 allow i prog)
  show ?case
  proof (cases "i < length allow")
    case True
    have st: "direct_jeqs allow i prog = direct_jeqs allow (Suc i)
        (prog[3 + i := ins BPF_JMP_JEQ_K (jmp (3 + i) (I_RET_ALLOW (length allow))) 0 (allow ! i)])"
      using True by (subst direct_jeqs.simps) (simp add: I_DIRECT_START_def Let_def)
    from "1.IH" [OF True refl] "1.prems" True show ?thesis
      unfolding st by (cases "j = 3 + i") (auto simp: I_DIRECT_START_def nth_list_update)
  next
    case False
    then show ?thesis by (subst (1 2) direct_jeqs.simps) auto
  qed
qed

lemma build_prog_length: "length (build_prog a trap) = PROG_LEN (length (allow_direct a trap))"
  using direct_jeqs_nth [where j = 0] by (simp add: build_prog_def Let_def index_defs)

lemma build_prog_direct:
  assumes "i < length (allow_direct a trap)"
  shows "build_prog a trap ! (3 + i) =
    ins BPF_JMP_JEQ_K (jmp (3 + i) (I_RET_ALLOW (length (allow_direct a trap)))) 0 (allow_direct a trap ! i)"
  using assms by (simp add: build_prog_def Let_def index_defs direct_jeqs_nth nth_list_update)

lemma build_prog_nth:
  fixes a trap
  defines "p \<equiv> build_prog a trap" and "n \<equiv> length (allow_direct a trap)"
  shows
    "p ! 0 = ins BPF_LD_W_ABS 0 0 4"
    "p ! 1 = ins BPF_JMP_JEQ_K 0 (jmp 1 (n + 17)) (AUDIT_ARCH a)"
    "p ! 2 = ins BPF_LD_W_ABS 0 0 0"
    "p ! (n + 3) = ins BPF_JMP_JEQ_K (jmp (n + 3) (n + 6)) 0 (SYS_WRITE a)"
    "p ! (n + 4) = ins BPF_JMP_JEQ_K (jmp (n + 4) (n + 9)) 0 (SYS_OPENAT a)"
    "p ! (n + 5) = ins BPF_JMP_JEQ_K (jmp (n + 5) (n + 12)) (jmp (n + 5) (n + 17)) (SYS_IOCTL a)"
    "p ! (n + 6) = ins BPF_LD_W_ABS 0 0 16"
    "p ! (n + 7) = ins BPF_JMP_JEQ_K (jmp (n + 7) (n + 18)) 0 1"
    "p ! (n + 8) = ins BPF_JMP_JEQ_K (jmp (n + 8) (n + 18)) (jmp (n + 8) (n + 17)) 2"
    "p ! (n + 9) = ins BPF_LD_W_ABS 0 0 32"
    "p ! (n + 10) = ins BPF_ALU_AND_K 0 0 OPENAT_DENY_FLAGS"
    "p ! (n + 11) = ins BPF_JMP_JEQ_K (jmp (n + 11) (n + 18)) (jmp (n + 11) (n + 17)) 0"
    "p ! (n + 12) = ins BPF_LD_W_ABS 0 0 24"
    "p ! (n + 13) = ins BPF_JMP_JEQ_K (jmp (n + 13) (n + 18)) 0 TIOCGWINSZ"
    "p ! (n + 14) = ins BPF_JMP_JEQ_K (jmp (n + 14) (n + 18)) 0 TCSETS"
    "p ! (n + 15) = ins BPF_ALU_AND_K 0 0 RM_IOCTL_MASK"
    "p ! (n + 16) = ins BPF_JMP_JEQ_K (jmp (n + 16) (n + 18)) (jmp (n + 16) (n + 17)) RM_IOCTL_VALUE"
    "p ! (n + 17) = ins BPF_RET_K 0 0 (deny_action trap)"
    "p ! (n + 18) = ins BPF_RET_K 0 0 SECCOMP_RET_ALLOW"
  unfolding p_def n_def build_prog_def Let_def index_defs
  by (simp_all add: direct_jeqs_nth nth_list_update index_defs add.commute SECCOMP_DATA_ARCH_def
      SECCOMP_DATA_NR_def SECCOMP_DATA_ARG0_LO_def SECCOMP_DATA_ARG1_LO_def SECCOMP_DATA_ARG2_LO_def)

subsection \<open>Running it\<close>

lemma bpf_codes [simp]:
  "BPF_JMP_JEQ_K \<noteq> BPF_LD_W_ABS" "BPF_ALU_AND_K \<noteq> BPF_LD_W_ABS" "BPF_ALU_AND_K \<noteq> BPF_JMP_JEQ_K"
  "BPF_RET_K \<noteq> BPF_LD_W_ABS" "BPF_RET_K \<noteq> BPF_JMP_JEQ_K" "BPF_RET_K \<noteq> BPF_ALU_AND_K"
  by (simp_all add: BPF_LD_W_ABS_def BPF_JMP_JEQ_K_def BPF_ALU_AND_K_def BPF_RET_K_def)

lemma run_ld:
  "pc < length p \<Longrightarrow> p ! pc = ins BPF_LD_W_ABS 0 0 k \<Longrightarrow> off = unat k \<Longrightarrow> off + 4 \<le> length d \<Longrightarrow> t = pc + 1 \<Longrightarrow>
   run_bpf_from p d pc a = run_bpf_from p d t (u32_le (load4 off d))"
  by (subst run_bpf_from.simps) (simp add: load4_def)

lemma run_jeq:
  "pc < length p \<Longrightarrow> p ! pc = ins BPF_JMP_JEQ_K jt jf k \<Longrightarrow> t = pc + 1 + unat jt \<Longrightarrow> f = pc + 1 + unat jf \<Longrightarrow>
   run_bpf_from p d pc a = (if a = k then run_bpf_from p d t a else run_bpf_from p d f a)"
  by (subst run_bpf_from.simps) simp

lemma run_and:
  "pc < length p \<Longrightarrow> p ! pc = ins BPF_ALU_AND_K 0 0 k \<Longrightarrow> t = pc + 1 \<Longrightarrow>
   run_bpf_from p d pc a = run_bpf_from p d t (a AND k)"
  by (subst run_bpf_from.simps) simp

lemma run_ret: "pc < length p \<Longrightarrow> p ! pc = ins BPF_RET_K 0 0 k \<Longrightarrow> run_bpf_from p d pc a = Some k"
  by (subst run_bpf_from.simps) simp

lemma unat_jmp: "i < j \<Longrightarrow> j \<le> i + 256 \<Longrightarrow> unat (jmp i j) = j - i - 1"
  unfolding jmp_def unat_of_nat by (simp add: take_bit_nat_eq_self)

text \<open>The program of an architecture, run on the bytes of any system call: the facts about one run are proved
  once here, and interpreted below on what \<open>build_prog\<close> assembles and \<open>make_data\<close> lays out.\<close>

locale built_program =
  fixes a :: arch and trap :: bool and d :: "u8 list" and n :: nat and p :: "sock_filter list"
  assumes n: "n = length (allow_direct a trap)" and p: "p = build_prog a trap" and d: "length d = 64"
begin

lemma n_le: "n \<le> 11" using allow_direct_length n by simp

lemma p_length: "length p = n + 19" by (simp add: p n build_prog_length index_defs)

lemmas p_nth = build_prog_nth [of a trap, folded p n]

lemmas at = p_length d n_le

lemma run_allow: "run_bpf_from p d (n + 18) x = Some SECCOMP_RET_ALLOW"
  by (rule run_ret [OF _ p_nth(19)]) (simp add: at)

lemma run_deny: "run_bpf_from p d (n + 17) x = Some (deny_action trap)"
  by (rule run_ret [OF _ p_nth(18)]) (simp add: at)

abbreviation "verdict b \<equiv> Some (if b then SECCOMP_RET_ALLOW else deny_action trap)"

lemma run_write: "run_bpf_from p d (n + 6) x = verdict (u32_le (load4 16 d) \<in> {1, 2})"
proof -
  let ?fd = "u32_le (load4 16 d)"
  have "run_bpf_from p d (n + 6) x = run_bpf_from p d (n + 7) ?fd"
    by (rule run_ld [OF _ p_nth(7)]) (simp_all add: at)
  also have "\<dots> = (if ?fd = 1 then run_bpf_from p d (n + 18) ?fd else run_bpf_from p d (n + 8) ?fd)"
    by (rule run_jeq [OF _ p_nth(8)]) (simp_all add: at unat_jmp)
  also have "run_bpf_from p d (n + 8) ?fd = (if ?fd = 2 then run_bpf_from p d (n + 18) ?fd else run_bpf_from p d (n + 17) ?fd)"
    by (rule run_jeq [OF _ p_nth(9)]) (simp_all add: at unat_jmp)
  finally show ?thesis by (simp add: run_allow run_deny)
qed

lemma run_openat: "run_bpf_from p d (n + 9) x = verdict (u32_le (load4 32 d) AND OPENAT_DENY_FLAGS = 0)"
proof -
  let ?f = "u32_le (load4 32 d) AND OPENAT_DENY_FLAGS"
  have "run_bpf_from p d (n + 9) x = run_bpf_from p d (n + 10) (u32_le (load4 32 d))"
    by (rule run_ld [OF _ p_nth(10)]) (simp_all add: at)
  also have "\<dots> = run_bpf_from p d (n + 11) ?f"
    by (rule run_and [OF _ p_nth(11)]) (simp_all add: at)
  also have "\<dots> = (if ?f = 0 then run_bpf_from p d (n + 18) ?f else run_bpf_from p d (n + 17) ?f)"
    by (rule run_jeq [OF _ p_nth(12)]) (simp_all add: at unat_jmp)
  finally show ?thesis by (simp add: run_allow run_deny)
qed

lemma run_ioctl:
  "run_bpf_from p d (n + 12) x =
     verdict (u32_le (load4 24 d) \<in> {TIOCGWINSZ, TCSETS} \<or> u32_le (load4 24 d) AND RM_IOCTL_MASK = RM_IOCTL_VALUE)"
proof -
  let ?c = "u32_le (load4 24 d)"
  let ?m = "?c AND RM_IOCTL_MASK"
  have "run_bpf_from p d (n + 12) x = run_bpf_from p d (n + 13) ?c"
    by (rule run_ld [OF _ p_nth(13)]) (simp_all add: at)
  also have "\<dots> = (if ?c = TIOCGWINSZ then run_bpf_from p d (n + 18) ?c else run_bpf_from p d (n + 14) ?c)"
    by (rule run_jeq [OF _ p_nth(14)]) (simp_all add: at unat_jmp)
  also have "run_bpf_from p d (n + 14) ?c = (if ?c = TCSETS then run_bpf_from p d (n + 18) ?c else run_bpf_from p d (n + 15) ?c)"
    by (rule run_jeq [OF _ p_nth(15)]) (simp_all add: at unat_jmp)
  also have "run_bpf_from p d (n + 15) ?c = run_bpf_from p d (n + 16) ?m"
    by (rule run_and [OF _ p_nth(16)]) (simp_all add: at)
  also have "\<dots> = (if ?m = RM_IOCTL_VALUE then run_bpf_from p d (n + 18) ?m else run_bpf_from p d (n + 17) ?m)"
    by (rule run_jeq [OF _ p_nth(17)]) (simp_all add: at unat_jmp)
  finally show ?thesis by (simp add: run_allow run_deny)
qed

lemma run_dispatch:
  "run_bpf_from p d (n + 3) x =
     (if x = SYS_WRITE a then run_bpf_from p d (n + 6) x
      else if x = SYS_OPENAT a then run_bpf_from p d (n + 9) x
      else if x = SYS_IOCTL a then run_bpf_from p d (n + 12) x
      else Some (deny_action trap))"
proof -
  have "run_bpf_from p d (n + 3) x =
      (if x = SYS_WRITE a then run_bpf_from p d (n + 6) x else run_bpf_from p d (n + 4) x)"
    by (rule run_jeq [OF _ p_nth(4)]) (simp_all add: at unat_jmp)
  also have "run_bpf_from p d (n + 4) x =
      (if x = SYS_OPENAT a then run_bpf_from p d (n + 9) x else run_bpf_from p d (n + 5) x)"
    by (rule run_jeq [OF _ p_nth(5)]) (simp_all add: at unat_jmp)
  also have "run_bpf_from p d (n + 5) x =
      (if x = SYS_IOCTL a then run_bpf_from p d (n + 12) x else run_bpf_from p d (n + 17) x)"
    by (rule run_jeq [OF _ p_nth(6)]) (simp_all add: at unat_jmp)
  finally show ?thesis by (simp add: run_deny)
qed

lemma run_direct:
  "i \<le> n \<Longrightarrow> run_bpf_from p d (i + 3) x =
     (if x \<in> set (drop i (allow_direct a trap)) then Some SECCOMP_RET_ALLOW else run_bpf_from p d (n + 3) x)"
proof (induction "n - i" arbitrary: i)
  case (Suc k)
  then have i: "i < n" and k: "k = n - Suc i" by simp_all
  have e: "p ! (i + 3) = ins BPF_JMP_JEQ_K (jmp (i + 3) (n + 18)) 0 (allow_direct a trap ! i)"
    using build_prog_direct [of i a trap] i by (simp add: p n index_defs add.commute)
  have "run_bpf_from p d (i + 3) x = (if x = allow_direct a trap ! i then run_bpf_from p d (n + 18) x
      else run_bpf_from p d (Suc i + 3) x)"
    by (rule run_jeq [OF _ e]) (use i n_le in \<open>simp_all add: p_length unat_jmp\<close>)
  moreover have "drop i (allow_direct a trap) = allow_direct a trap ! i # drop (Suc i) (allow_direct a trap)"
    using i n by (simp add: Cons_nth_drop_Suc)
  ultimately show ?case using Suc.hyps(1) [OF k] i by (simp add: run_allow)
qed (simp add: n)

lemma run_prog:
  "run_bpf p d =
     (if u32_le (load4 4 d) = AUDIT_ARCH a then run_bpf_from p d 3 (u32_le (load4 0 d)) else Some (deny_action trap))"
proof -
  let ?ar = "u32_le (load4 4 d)"
  have "run_bpf p d = run_bpf_from p d 1 ?ar"
    unfolding run_bpf_def by (rule run_ld [OF _ p_nth(1)]) (simp_all add: at)
  also have "\<dots> = (if ?ar = AUDIT_ARCH a then run_bpf_from p d 2 ?ar else run_bpf_from p d (n + 17) ?ar)"
    by (rule run_jeq [OF _ p_nth(2)]) (use n_le in \<open>simp_all add: p_length unat_jmp\<close>)
  also have "run_bpf_from p d 2 ?ar = run_bpf_from p d 3 (u32_le (load4 0 d))"
    by (rule run_ld [OF _ p_nth(3)]) (simp_all add: at)
  finally show ?thesis by (simp add: run_deny)
qed

end

interpretation prog: built_program a trap "make_data nr arch args" "length (allow_direct a trap)" "build_prog a trap"
  for a trap nr arch args
  by unfold_locales (simp_all add: make_data_loads(1))

lemma run_bpf_policy:
  "run_bpf (build_prog a trap) (make_data nr arch args) =
     Some (if sys_allowed a trap nr arch args then SECCOMP_RET_ALLOW else deny_action trap)"
proof -
  let ?d = "make_data nr arch args"
  note L = make_data_loads [where nr = nr and arch = arch and args = args]
  have args: "u32_le (load4 16 ?d) = arg_lo args 0" "u32_le (load4 24 ?d) = arg_lo args 1"
    "u32_le (load4 32 ?d) = arg_lo args 2"
    using L(4) [of 0] L(4) [of 1] L(4) [of 2] by simp_all
  have "run_bpf (build_prog a trap) ?d =
      (if arch = AUDIT_ARCH a then run_bpf_from (build_prog a trap) ?d 3 nr else Some (deny_action trap))"
    by (rule prog.run_prog [where nr = nr and arch = arch and args = args, unfolded L(2,3)])
  also have "run_bpf_from (build_prog a trap) ?d 3 nr =
      (if nr \<in> set (allow_direct a trap) then Some SECCOMP_RET_ALLOW
       else run_bpf_from (build_prog a trap) ?d (length (allow_direct a trap) + 3) nr)"
    using prog.run_direct [where i = 0 and nr = nr and arch = arch and args = args] by simp
  finally show ?thesis
    unfolding prog.run_dispatch prog.run_write prog.run_openat prog.run_ioctl args
    by (auto simp: sys_allowed_def SYS_WRITE_def SYS_OPENAT_def SYS_IOCTL_def split: arch.splits)
qed

text \<open>C20: the assembled program, run on any \<open>seccomp_data\<close>, returns ALLOW exactly for the policy: the native
  architecture and a directly allowed syscall, a write to descriptor 1 or 2, an openat with none of the
  denied flags, or one of the allowed ioctls; it returns the deny action for everything else, and the
  interpreter never runs off the program.\<close>

theorem seccomp_filter_is_policy:
  "run_bpf (build_prog a trap) (make_data nr arch args) =
     Some (if sys_allowed a trap nr arch args then SECCOMP_RET_ALLOW else deny_action trap)"
  by (rule run_bpf_policy)

subsection \<open>Installing\<close>

definition PR_SET_NO_NEW_PRIVS :: int where "PR_SET_NO_NEW_PRIVS = 38"
definition LANDLOCK_ACCESS_FS_READ_FILE :: u64 where "LANDLOCK_ACCESS_FS_READ_FILE = push_bit 2 1"
definition LANDLOCK_ACCESS_FS_READ_DIR :: u64 where "LANDLOCK_ACCESS_FS_READ_DIR = push_bit 3 1"
definition LANDLOCK_ACCESS_FS_REMOVE_FILE :: u64 where "LANDLOCK_ACCESS_FS_REMOVE_FILE = push_bit 5 1"
definition LANDLOCK_ACCESS_FS_ALL_V1 :: u64 where "LANDLOCK_ACCESS_FS_ALL_V1 = push_bit 13 1 - 1"
definition O_PATH :: i32 where "O_PATH = 0x200000"
definition O_CLOEXEC_LINUX :: i32 where "O_CLOEXEC_LINUX = 0x80000"

text \<open>The calls the installation makes. A reply is the raw return value, negative for an error; it may
  depend on every call before it.\<close>

datatype call =
    RtSigaction
  | Prctl int nat
  | CreateRuleset u64
  | OpenCstr string i32
  | AddRule int int u64
  | RestrictSelf int
  | CloseFd int
  | SeccompFilter "sock_filter list"
  | WriteOnce nat string
  | ExitGroup nat

type_synonym kernel = "call list \<Rightarrow> call \<Rightarrow> int"

text \<open>\<open>Inl\<close>: the process exited; \<open>Inr\<close>: the function returned. Both carry the calls made so far.\<close>

type_synonym installed = "call list + call list"

definition fail_message :: "char \<Rightarrow> int \<Rightarrow> string" where
  "fail_message s e =
     (let v = (nat \<bar>e\<bar> mod 2 ^ 32) mod 1000
      in (''ltop: sandbox install failed (? err=000)'' @ [char_of (10 :: nat)])
           [30 := s, 36 := digit_char (v div 100), 37 := digit_char (v div 10 mod 10), 38 := digit_char (v mod 10)])"

definition fail :: "char \<Rightarrow> int \<Rightarrow> call list \<Rightarrow> installed" where
  "fail s e tr = Inl (tr @ [WriteOnce 2 (fail_message s e), ExitGroup 2])"

fun and_then :: "installed \<Rightarrow> (call list \<Rightarrow> installed) \<Rightarrow> installed" where
  "and_then (Inl tr) f = Inl tr"
| "and_then (Inr tr) f = f tr"

definition install_sigsys_handler :: "kernel \<Rightarrow> call list \<Rightarrow> installed" where
  "install_sigsys_handler k tr =
     (let r = k tr RtSigaction; tr = tr @ [RtSigaction]
      in if r < 0 then fail (CHR ''7'') r tr else Inr tr)"

definition add_rule :: "kernel \<Rightarrow> int \<Rightarrow> int \<Rightarrow> u64 \<Rightarrow> call list \<Rightarrow> installed" where
  "add_rule k rs parent_fd access tr =
     (let c = AddRule rs parent_fd access; r = k tr c
      in if r < 0 then fail (CHR ''5'') r (tr @ [c]) else Inr (tr @ [c]))"

text \<open>\<open>rs as i32\<close> keeps the low 32 bits.\<close>

definition as_i32 :: "int \<Rightarrow> int" where "as_i32 r = sint (word_of_int r :: i32)"

definition install_landlock :: "kernel \<Rightarrow> int \<Rightarrow> call list \<Rightarrow> installed" where
  "install_landlock k label_dir tr =
     (let c1 = CreateRuleset LANDLOCK_ACCESS_FS_ALL_V1; rs = k tr c1; tr = tr @ [c1]
      in if rs < 0 then fail (CHR ''3'') rs tr
         else let rs = as_i32 rs;
                  c2 = OpenCstr ''/proc'' (O_PATH OR O_CLOEXEC_LINUX); proc_fd = k tr c2; tr = tr @ [c2]
              in if proc_fd < 0 then fail (CHR ''4'') proc_fd tr
                 else and_then
                   (add_rule k rs proc_fd (LANDLOCK_ACCESS_FS_READ_FILE OR LANDLOCK_ACCESS_FS_READ_DIR) tr)
                   (\<lambda>tr. let tr = tr @ [CloseFd proc_fd]
                     in and_then
                          (if label_dir \<ge> 0
                           then add_rule k rs label_dir
                             (LANDLOCK_ACCESS_FS_READ_FILE OR LANDLOCK_ACCESS_FS_READ_DIR OR LANDLOCK_ACCESS_FS_REMOVE_FILE) tr
                           else Inr tr)
                          (\<lambda>tr. let r = k tr (RestrictSelf rs); tr = tr @ [RestrictSelf rs, CloseFd rs]
                            in if r < 0 then fail (CHR ''6'') r tr else Inr tr)))"

definition install_seccomp :: "kernel \<Rightarrow> arch \<Rightarrow> bool \<Rightarrow> call list \<Rightarrow> installed" where
  "install_seccomp k a trap tr =
     (let c = SeccompFilter (build_prog a trap); r = k tr c
      in if r < 0 then fail (CHR ''2'') r (tr @ [c]) else Inr (tr @ [c]))"

definition install :: "kernel \<Rightarrow> arch \<Rightarrow> bool \<Rightarrow> int \<Rightarrow> installed" where
  "install k a trap label_dir =
     and_then (if trap then install_sigsys_handler k [] else Inr [])
       (\<lambda>tr. let c = Prctl PR_SET_NO_NEW_PRIVS 1; r = k tr c; tr = tr @ [c]
         in and_then (if r < 0 then fail (CHR ''1'') r tr else Inr tr)
              (\<lambda>tr. and_then (install_landlock k label_dir tr) (install_seccomp k a trap)))"

text \<open>The calls of an installation that returns.\<close>

definition full_install :: "kernel \<Rightarrow> arch \<Rightarrow> bool \<Rightarrow> int \<Rightarrow> call list" where
  "full_install k a trap label_dir =
     (let pre = (if trap then [RtSigaction] else []) @ [Prctl 38 1];
          rs = as_i32 (k pre (CreateRuleset 0x1fff));
          proc_fd = k (pre @ [CreateRuleset 0x1fff]) (OpenCstr ''/proc'' 0x280000)
      in pre @ [CreateRuleset 0x1fff, OpenCstr ''/proc'' 0x280000, AddRule rs proc_fd 0xc, CloseFd proc_fd] @
         (if label_dir \<ge> 0 then [AddRule rs label_dir 0x2c] else []) @
         [RestrictSelf rs, CloseFd rs, SeccompFilter (build_prog a trap)])"

text \<open>Every call of the trace but the closes was granted.\<close>

definition granted :: "kernel \<Rightarrow> call list \<Rightarrow> bool" where
  "granted k tr \<longleftrightarrow> (\<forall>i<length tr. (\<exists>fd. tr ! i = CloseFd fd) \<or> 0 \<le> k (take i tr) (tr ! i))"

text \<open>The step character that names a refused call.\<close>

fun step_char :: "call \<Rightarrow> char" where
  "step_char (Prctl _ _) = CHR ''1''"
| "step_char (SeccompFilter _) = CHR ''2''"
| "step_char (CreateRuleset _) = CHR ''3''"
| "step_char (OpenCstr _ _) = CHR ''4''"
| "step_char (AddRule _ _ _) = CHR ''5''"
| "step_char (RestrictSelf _) = CHR ''6''"
| "step_char RtSigaction = CHR ''7''"
| "step_char _ = CHR ''?''"

definition failed_exit :: "kernel \<Rightarrow> call list \<Rightarrow> bool" where
  "failed_exit k tr \<longleftrightarrow>
     (\<exists>pre c closes. tr = pre @ c # closes @ [WriteOnce 2 (fail_message (step_char c) (k pre c)), ExitGroup 2] \<and>
        granted k pre \<and> k pre c < 0 \<and> (\<forall>x\<in>set closes. \<exists>fd. x = CloseFd fd))"

lemma granted_Nil [simp]: "granted k []" by (simp add: granted_def)

lemma granted_snoc: "granted k (tr @ [c]) \<longleftrightarrow> granted k tr \<and> ((\<exists>fd. c = CloseFd fd) \<or> 0 \<le> k tr c)"
  by (auto simp: granted_def nth_append less_Suc_eq)

definition ends :: "kernel \<Rightarrow> (call list \<Rightarrow> bool) \<Rightarrow> installed \<Rightarrow> bool" where
  "ends k P r \<longleftrightarrow> (case r of Inl tr \<Rightarrow> failed_exit k tr | Inr tr \<Rightarrow> granted k tr \<and> P tr)"

lemma ends_and_then:
  "ends k P r \<Longrightarrow> (\<And>tr. P tr \<Longrightarrow> granted k tr \<Longrightarrow> ends k Q (f tr)) \<Longrightarrow> ends k Q (and_then r f)"
  by (cases r) (auto simp: ends_def)

lemma ends_Inr: "granted k tr \<Longrightarrow> P tr \<Longrightarrow> ends k P (Inr tr)" by (simp add: ends_def)

lemma failed_exitI:
  "granted k tr \<Longrightarrow> k tr c < 0 \<Longrightarrow> \<forall>x\<in>set closes. \<exists>fd. x = CloseFd fd \<Longrightarrow> s = step_char c \<Longrightarrow>
   failed_exit k (tr @ c # closes @ [WriteOnce 2 (fail_message s (k tr c)), ExitGroup 2])"
  unfolding failed_exit_def by blast

lemma ends_fail:
  "granted k tr \<Longrightarrow> k tr c < 0 \<Longrightarrow> s = step_char c \<Longrightarrow> ends k P (fail s (k tr c) (tr @ [c]))"
  using failed_exitI [of k tr c "[]" s] by (simp add: ends_def fail_def)

lemma ends_fail_close:
  "granted k tr \<Longrightarrow> k tr c < 0 \<Longrightarrow> s = step_char c \<Longrightarrow> ends k P (fail s (k tr c) (tr @ [c, CloseFd fd]))"
  using failed_exitI [of k tr c "[CloseFd fd]" s] by (simp add: ends_def fail_def)

lemma ends_call:
  "granted k tr \<Longrightarrow> s = step_char c \<Longrightarrow>
   ends k (\<lambda>t. t = tr @ [c]) (if k tr c < 0 then fail s (k tr c) (tr @ [c]) else Inr (tr @ [c]))"
  using ends_fail [of k tr c s] ends_Inr [of k "tr @ [c]"] by (simp add: granted_snoc)

lemma ends_weaken: "ends k P r \<Longrightarrow> (\<And>t. P t \<Longrightarrow> Q t) \<Longrightarrow> ends k Q r"
  by (auto simp: ends_def split: sum.splits)

lemma ends_add_rule:
  "granted k tr \<Longrightarrow> ends k (\<lambda>tr'. tr' = tr @ [AddRule rs fd acc]) (add_rule k rs fd acc tr)"
  using ends_call by (simp add: add_rule_def Let_def)

lemma ends_sigsys: "ends k (\<lambda>tr. tr = [] @ [RtSigaction]) (install_sigsys_handler k [])"
  unfolding install_sigsys_handler_def Let_def append_Nil
  using ends_call [of k "[]" "CHR ''7''" RtSigaction, unfolded append_Nil] by simp

lemma ends_prctl:
  "granted k tr \<Longrightarrow> ends k (\<lambda>t. t = tr @ [Prctl 38 1])
     (if k tr (Prctl PR_SET_NO_NEW_PRIVS 1) < 0
      then fail (CHR ''1'') (k tr (Prctl PR_SET_NO_NEW_PRIVS 1)) (tr @ [Prctl PR_SET_NO_NEW_PRIVS 1])
      else Inr (tr @ [Prctl PR_SET_NO_NEW_PRIVS 1]))"
  unfolding PR_SET_NO_NEW_PRIVS_def by (rule ends_call) simp_all

lemma ends_seccomp:
  "granted k tr \<Longrightarrow> ends k (\<lambda>t. t = tr @ [SeccompFilter (build_prog a trap)]) (install_seccomp k a trap tr)"
  using ends_call by (simp add: install_seccomp_def Let_def)

lemma landlock_flags:
  "LANDLOCK_ACCESS_FS_ALL_V1 = 0x1fff"
  "LANDLOCK_ACCESS_FS_READ_FILE OR LANDLOCK_ACCESS_FS_READ_DIR = 0xc"
  "LANDLOCK_ACCESS_FS_READ_FILE OR LANDLOCK_ACCESS_FS_READ_DIR OR LANDLOCK_ACCESS_FS_REMOVE_FILE = 0x2c"
  "O_PATH OR O_CLOEXEC_LINUX = 0x280000"
  by (simp_all add: LANDLOCK_ACCESS_FS_ALL_V1_def LANDLOCK_ACCESS_FS_READ_FILE_def
      LANDLOCK_ACCESS_FS_READ_DIR_def LANDLOCK_ACCESS_FS_REMOVE_FILE_def O_PATH_def O_CLOEXEC_LINUX_def)

lemma ends_landlock:
  assumes g: "granted k tr"
  defines "rs \<equiv> as_i32 (k tr (CreateRuleset 0x1fff))"
    and "fd \<equiv> k (tr @ [CreateRuleset 0x1fff]) (OpenCstr ''/proc'' 0x280000)"
  shows "ends k (\<lambda>tr'. tr' = tr @ [CreateRuleset 0x1fff, OpenCstr ''/proc'' 0x280000, AddRule rs fd 0xc, CloseFd fd] @
      (if label_dir \<ge> 0 then [AddRule rs label_dir 0x2c] else []) @ [RestrictSelf rs, CloseFd rs])
    (install_landlock k label_dir tr)"
proof (cases "k tr (CreateRuleset 0x1fff) < 0")
  case True
  with g show ?thesis by (simp add: install_landlock_def landlock_flags Let_def ends_fail)
next
  case rs: False
  let ?t1 = "tr @ [CreateRuleset 0x1fff]"
  have g1: "granted k ?t1" using g rs by (simp add: granted_snoc)
  show ?thesis
  proof (cases "fd < 0")
    case True
    with ends_fail [OF g1, of "OpenCstr ''/proc'' 0x280000"] rs show ?thesis
      by (simp add: install_landlock_def landlock_flags Let_def fd_def)
  next
    case fd: False
    let ?t2 = "?t1 @ [OpenCstr ''/proc'' 0x280000]"
    have g2: "granted k ?t2" using g1 fd by (simp add: granted_snoc fd_def del: append_assoc)
    let ?t3 = "?t2 @ [AddRule rs fd 0xc]"
    let ?t4 = "?t3 @ [CloseFd fd]"
    let ?t5 = "?t4 @ (if label_dir \<ge> 0 then [AddRule rs label_dir 0x2c] else [])"
    have "ends k (\<lambda>tr'. tr' = ?t5 @ [RestrictSelf rs, CloseFd rs])
      (and_then (add_rule k rs fd 0xc ?t2)
         (\<lambda>tr. and_then (if label_dir \<ge> 0 then add_rule k rs label_dir 0x2c (tr @ [CloseFd fd]) else Inr (tr @ [CloseFd fd]))
            (\<lambda>tr. if k tr (RestrictSelf rs) < 0 then fail (CHR ''6'') (k tr (RestrictSelf rs)) (tr @ [RestrictSelf rs, CloseFd rs])
                  else Inr (tr @ [RestrictSelf rs, CloseFd rs]))))"
    proof (rule ends_and_then [OF ends_add_rule [OF g2]])
      fix t
      assume t: "t = ?t3" and gt: "granted k t"
      from gt have g4: "granted k (t @ [CloseFd fd])" by (simp add: granted_snoc)
      show "ends k (\<lambda>tr'. tr' = ?t5 @ [RestrictSelf rs, CloseFd rs])
         (and_then (if label_dir \<ge> 0 then add_rule k rs label_dir 0x2c (t @ [CloseFd fd]) else Inr (t @ [CloseFd fd]))
            (\<lambda>tr. if k tr (RestrictSelf rs) < 0 then fail (CHR ''6'') (k tr (RestrictSelf rs)) (tr @ [RestrictSelf rs, CloseFd rs])
                  else Inr (tr @ [RestrictSelf rs, CloseFd rs])))"
      proof (rule ends_and_then [where P = "\<lambda>tr'. tr' = ?t5"])
        show "ends k (\<lambda>tr'. tr' = ?t5)
          (if label_dir \<ge> 0 then add_rule k rs label_dir 0x2c (t @ [CloseFd fd]) else Inr (t @ [CloseFd fd]))"
          using ends_add_rule [OF g4, of rs label_dir "0x2c"] g4 t by (auto intro: ends_Inr)
      next
        fix u
        assume u: "u = ?t5" "granted k u"
        have gu: "granted k (u @ [RestrictSelf rs, CloseFd rs])" if "\<not> k u (RestrictSelf rs) < 0"
          using u(2) that granted_snoc [of k "u @ [RestrictSelf rs]" "CloseFd rs"] by (simp add: granted_snoc)
        show "ends k (\<lambda>tr'. tr' = ?t5 @ [RestrictSelf rs, CloseFd rs])
          (if k u (RestrictSelf rs) < 0 then fail (CHR ''6'') (k u (RestrictSelf rs)) (u @ [RestrictSelf rs, CloseFd rs])
           else Inr (u @ [RestrictSelf rs, CloseFd rs]))"
          using u gu by (cases "k u (RestrictSelf rs) < 0") (auto intro!: ends_fail_close ends_Inr simp del: append_assoc)
      qed
    qed
    then show ?thesis using rs fd
      by (cases "label_dir \<ge> 0")
        (simp_all add: install_landlock_def landlock_flags Let_def fd_def [symmetric] rs_def [symmetric])
  qed
qed

text \<open>C21: the installation fails closed: when it returns, its calls are exactly the complete sequence (no new
  privileges, the ruleset over all v1 rights, the two path rules, the restriction, the filter) and the
  kernel granted each of them; otherwise the process printed the refused step and left with status 2 right
  after the first refusal.\<close>

theorem install_fails_closed:
  "case install k a trap label_dir of
     Inr tr \<Rightarrow> granted k tr \<and> tr = full_install k a trap label_dir
   | Inl tr \<Rightarrow> failed_exit k tr"
proof -
  let ?h = "if trap then [RtSigaction] else []"
  have h: "ends k (\<lambda>tr. tr = ?h) (if trap then install_sigsys_handler k [] else Inr [])"
    using ends_sigsys by (cases trap) (simp_all add: ends_Inr)
  have "ends k (\<lambda>tr. tr = full_install k a trap label_dir) (install k a trap label_dir)"
    unfolding install_def Let_def
  proof (rule ends_and_then [OF h], rule ends_and_then [OF ends_prctl])
    fix tr
    assume tr: "granted k tr"
    show "granted k tr" by (rule tr)
  next
    fix t tr
    assume t: "t = ?h" and tr: "tr = t @ [Prctl 38 1]" "granted k tr"
    show "ends k (\<lambda>tr. tr = full_install k a trap label_dir)
      (and_then (install_landlock k label_dir tr) (install_seccomp k a trap))"
      by (rule ends_and_then [OF ends_landlock [OF tr(2)]], rule ends_weaken [OF ends_seccomp], assumption)
        (simp add: full_install_def tr(1) t Let_def)
  qed
  then show ?thesis by (simp add: ends_def split: sum.splits)
qed

end
