(* ===== verification/Arena.thy ===== *)
theory Arena
  imports Prelude
begin

text \<open>
  The bump allocator of src/src/arena.rs: the static buffer and its offset, \<open>bump\<close>, scopes, single
  values, spans built by an \<open>FBuilder\<close>, \<open>compact\<close> and \<open>replace2\<close> with their forward copies, reserves,
  and the range \<open>uncommit_tail\<close> gives back. A type is its layout (size and alignment) and a value its
  bytes; the closures the code takes are functions from the arena to a result and an arena, or the
  sequence of builder calls they make. \<open>None\<close> is a panic; the debug assertions, absent from the
  release build, are not part of the operations.
\<close>

subsection \<open>Storage and \<open>bump\<close>\<close>

definition SIZE :: nat where "SIZE = 512 * 1024"
definition MAX_ALIGN :: nat where "MAX_ALIGN = 16"

record arena =
  ar_mem :: "nat \<Rightarrow> u8"
  ar_off :: nat

record layout =
  ly_size :: nat
  ly_align :: nat

text \<open>What Rust guarantees of a layout, and the alignments the storage supports.\<close>

definition layout_ok :: "layout \<Rightarrow> bool" where
  "layout_ok ly \<longleftrightarrow> ly_align ly \<in> {1, 2, 4, 8, 16} \<and> ly_align ly dvd ly_size ly"

definition align_up :: "nat \<Rightarrow> nat \<Rightarrow> nat" where
  "align_up cur align = unat ((of_nat cur + (of_nat align - 1)) AND NOT (of_nat align - 1) :: u32)"

definition bump :: "nat \<Rightarrow> nat \<Rightarrow> arena \<Rightarrow> (nat \<times> arena) option" where
  "bump size' align a =
     (if align > MAX_ALIGN \<or> size' > SIZE then None
      else let aligned = align_up (ar_off a) align; e = aligned + size'
           in if e \<ge> 2 ^ 32 \<or> e > SIZE then None else Some (aligned, a\<lparr>ar_off := e\<rparr>))"

definition write_at :: "nat \<Rightarrow> u8 list \<Rightarrow> arena \<Rightarrow> arena" where
  "write_at off bs a = a\<lparr>ar_mem := (\<lambda>i. if off \<le> i \<and> i < off + length bs then bs ! (i - off) else ar_mem a i)\<rparr>"

definition read_at :: "nat \<Rightarrow> nat \<Rightarrow> arena \<Rightarrow> u8 list" where
  "read_at off n a = map (ar_mem a) [off..<off + n]"

text \<open>The forward byte loop.\<close>

function copy_down_loop :: "nat \<Rightarrow> nat \<Rightarrow> nat \<Rightarrow> nat \<Rightarrow> arena \<Rightarrow> arena" where
  "copy_down_loop src dst len i a =
     (if i < len then copy_down_loop src dst len (i + 1) (a\<lparr>ar_mem := (ar_mem a)(dst + i := ar_mem a (src + i))\<rparr>)
      else a)"
  by pat_completeness auto
termination by (relation "measure (\<lambda>(src, dst, len, i, a). len - i)") auto

declare copy_down_loop.simps [simp del]

definition copy_down :: "nat \<Rightarrow> nat \<Rightarrow> nat \<Rightarrow> arena \<Rightarrow> arena" where
  "copy_down src dst len a = copy_down_loop src dst len 0 a"

subsection \<open>Scopes and single values\<close>

definition in_scope :: "(arena \<Rightarrow> ('r \<times> arena) option) \<Rightarrow> arena \<Rightarrow> ('r \<times> arena) option" where
  "in_scope f a = map_option (\<lambda>(r, a'). (r, a'\<lparr>ar_off := ar_off a\<rparr>)) (f a)"

definition remaining :: "arena \<Rightarrow> nat" where "remaining a = SIZE - ar_off a"

definition alloc :: "layout \<Rightarrow> u8 list \<Rightarrow> arena \<Rightarrow> (nat \<times> arena) option" where
  "alloc ly v a = map_option (\<lambda>(off, a'). (off, write_at off v a')) (bump (ly_size ly) (ly_align ly) a)"

definition alloc_zeroed :: "layout \<Rightarrow> arena \<Rightarrow> (nat \<times> arena) option" where
  "alloc_zeroed ly a = alloc ly (replicate (ly_size ly) 0) a"

subsection \<open>Spans\<close>

record fspan =
  sp_off :: nat
  sp_len :: nat

definition span_vals :: "layout \<Rightarrow> fspan \<Rightarrow> arena \<Rightarrow> u8 list list" where
  "span_vals ly sp a = map (\<lambda>i. read_at (sp_off sp + i * ly_size ly) (ly_size ly) a) [0..<sp_len sp]"

text \<open>The calls of a build closure, and the builder (its length, with the arena).\<close>

datatype bop = Push "u8 list" | Extend "u8 list list" | Pop

fun bop_step :: "layout \<Rightarrow> bop \<Rightarrow> nat \<times> arena \<Rightarrow> (nat \<times> arena) option" where
  "bop_step ly (Push v) (n, a) =
     (case bump (ly_size ly) (ly_align ly) a of
        None \<Rightarrow> None
      | Some (off, a') \<Rightarrow> Some (n + 1, write_at off v a'))"
| "bop_step ly (Extend vs) (n, a) =
     (if vs = [] then Some (n, a)
      else case bump (ly_size ly * length vs) (ly_align ly) a of
             None \<Rightarrow> None
           | Some (off, a') \<Rightarrow> Some (n + length vs, write_at off (concat vs) a'))"
| "bop_step ly Pop (n, a) =
     Some (if n = 0 then (n, a) else (n - 1, a\<lparr>ar_off := ar_off a - ly_size ly\<rparr>))"

fun bops_run :: "layout \<Rightarrow> bop list \<Rightarrow> nat \<times> arena \<Rightarrow> (nat \<times> arena) option" where
  "bops_run ly [] s = Some s"
| "bops_run ly (b # bs) s = Option.bind (bop_step ly b s) (bops_run ly bs)"

definition span :: "layout \<Rightarrow> bop list \<Rightarrow> arena \<Rightarrow> (fspan \<times> arena) option" where
  "span ly build a =
     (let start = align_up (ar_off a) (ly_align ly)
      in map_option (\<lambda>(n, a'). (\<lparr>sp_off = start, sp_len = n\<rparr>, a'))
           (bops_run ly build (0, a\<lparr>ar_off := start\<rparr>)))"

definition collect_span :: "layout \<Rightarrow> u8 list list \<Rightarrow> arena \<Rightarrow> (fspan \<times> arena) option" where
  "collect_span ly vs a = span ly (map Push vs) a"

definition empty_span :: "layout \<Rightarrow> arena \<Rightarrow> fspan" where
  "empty_span ly a = \<lparr>sp_off = align_up (ar_off a) (ly_align ly), sp_len = 0\<rparr>"

subsection \<open>\<open>compact\<close> and \<open>replace2\<close>\<close>

definition compact :: "layout \<Rightarrow> (arena \<Rightarrow> (fspan \<times> arena) option) \<Rightarrow> arena \<Rightarrow> (fspan \<times> arena) option" where
  "compact ly build a =
     (case build a of
        None \<Rightarrow> None
      | Some (result, a') \<Rightarrow>
          let dst = align_up (ar_off a) (ly_align ly);
              bytes = sp_len result * ly_size ly;
              a' = (if dst \<noteq> sp_off result \<and> bytes > 0 then copy_down (sp_off result) dst bytes a' else a')
          in Some (\<lparr>sp_off = dst, sp_len = sp_len result\<rparr>, a'\<lparr>ar_off := dst + bytes\<rparr>))"

definition replace2 ::
  "layout \<Rightarrow> fspan \<Rightarrow> layout \<Rightarrow> fspan \<Rightarrow> (arena \<Rightarrow> ((fspan \<times> fspan) \<times> arena) option) \<Rightarrow> arena \<Rightarrow>
   ((fspan \<times> fspan) \<times> arena) option" where
  "replace2 ly1 span1 ly2 span2 build a =
     (let old1_start = sp_off span1;
          old2_end = sp_off span2 + sp_len span2 * ly_size ly2
      in if \<not> (old2_end \<ge> ar_off a \<and> old2_end - ar_off a < max (ly_align ly2) 1) then None
         else case build a of
           None \<Rightarrow> None
         | Some ((new1, new2), a1) \<Rightarrow>
             let new1_bytes = sp_len new1 * ly_size ly1;
                 new2_bytes = sp_len new2 * ly_size ly2;
                 a2 = (if sp_off new1 \<noteq> old1_start \<and> new1_bytes > 0
                       then copy_down (sp_off new1) old1_start new1_bytes a1 else a1);
                 new2_dst = align_up (old1_start + new1_bytes) (ly_align ly2);
                 a3 = (if sp_off new2 \<noteq> new2_dst \<and> new2_bytes > 0
                       then copy_down (sp_off new2) new2_dst new2_bytes a2 else a2)
             in Some ((\<lparr>sp_off = old1_start, sp_len = sp_len new1\<rparr>, \<lparr>sp_off = new2_dst, sp_len = sp_len new2\<rparr>),
                  a3\<lparr>ar_off := new2_dst + new2_bytes\<rparr>))"

subsection \<open>Reserves\<close>

record freserve =
  rs_off :: nat
  rs_cap :: nat
  rs_len :: nat

definition reserve :: "layout \<Rightarrow> nat \<Rightarrow> arena \<Rightarrow> (freserve \<times> arena) option" where
  "reserve ly capacity a =
     map_option (\<lambda>(off, a'). (\<lparr>rs_off = off, rs_cap = capacity, rs_len = 0\<rparr>, a'))
       (bump (ly_size ly * capacity) (ly_align ly) a)"

text \<open>\<open>Err(value)\<close> is \<open>Inl\<close>.\<close>

definition rs_push :: "layout \<Rightarrow> u8 list \<Rightarrow> freserve \<times> arena \<Rightarrow> u8 list + freserve \<times> arena" where
  "rs_push ly v s =
     (case s of (r, a) \<Rightarrow>
        if rs_len r \<ge> rs_cap r then Inl v
        else Inr (r\<lparr>rs_len := rs_len r + 1\<rparr>, write_at (rs_off r + rs_len r * ly_size ly) v a))"

definition rs_extend :: "layout \<Rightarrow> u8 list list \<Rightarrow> freserve \<times> arena \<Rightarrow> (freserve \<times> arena) option" where
  "rs_extend ly vs s =
     (case s of (r, a) \<Rightarrow>
        if vs = [] then Some (r, a)
        else if rs_len r + length vs > rs_cap r then None
        else Some (r\<lparr>rs_len := rs_len r + length vs\<rparr>, write_at (rs_off r + rs_len r * ly_size ly) (concat vs) a))"

definition rs_truncate :: "nat \<Rightarrow> freserve \<Rightarrow> freserve" where
  "rs_truncate new_len r = (if rs_len r > new_len then r\<lparr>rs_len := new_len\<rparr> else r)"

definition rs_freeze :: "layout \<Rightarrow> freserve \<times> arena \<Rightarrow> fspan \<times> arena" where
  "rs_freeze ly s =
     (case s of (r, a) \<Rightarrow> (\<lparr>sp_off = rs_off r, sp_len = rs_len r\<rparr>, a\<lparr>ar_off := rs_off r + rs_len r * ly_size ly\<rparr>))"

definition rs_drop :: "freserve \<times> arena \<Rightarrow> arena" where
  "rs_drop s = (case s of (r, a) \<Rightarrow> a\<lparr>ar_off := rs_off r\<rparr>)"

subsection \<open>Giving the tail back\<close>

definition saturating_sub :: "u64 \<Rightarrow> u64 \<Rightarrow> u64" where "saturating_sub x y = (if y \<le> x then x - y else 0)"

text \<open>The range handed to \<open>madvise\<close>. Only the macOS variant tests for a zero page size.\<close>

definition uncommit_tail :: "bool \<Rightarrow> u64 \<Rightarrow> u64 \<Rightarrow> arena \<Rightarrow> (u64 \<times> u64) option" where
  "uncommit_tail macos page_size base a =
     (if macos \<and> page_size = 0 then None
      else let current_addr = base + of_nat (ar_off a);
               tail_start = (current_addr + page_size - 1) AND NOT (page_size - 1);
               arena_end = base + of_nat SIZE;
               len = saturating_sub arena_end tail_start AND NOT (page_size - 1)
           in if len > 0 then Some (tail_start, len) else None)"

subsection \<open>Rounding\<close>

lemma unat_and_not_mask: "unat (w AND NOT (mask k)) = unat w div 2 ^ k * 2 ^ k" for w :: "'a::len word"
proof -
  have e: "w AND NOT (mask k) = push_bit k (drop_bit k w)"
    by (rule bit_word_eqI) (auto simp: bit_simps)
  have u: "unat (push_bit k (drop_bit k w)) = take_bit LENGTH('a) (unat w div 2 ^ k * 2 ^ k)"
    unfolding unsigned_push_bit_eq unsigned_drop_bit_eq take_bit_nat_eq_self [OF unsigned_less]
    by (simp add: push_bit_eq_mult drop_bit_eq_div)
  have l: "unat w div 2 ^ k * 2 ^ k < 2 ^ LENGTH('a)"
    using le_less_trans [OF div_times_less_eq_dividend unsigned_less [where 'a = nat, of w]] by simp
  show ?thesis unfolding e u by (rule take_bit_nat_eq_self [OF l])
qed

lemma align_cases: "al \<in> {1, 2, 4, 8, 16} \<Longrightarrow> \<exists>k\<le>4. al = (2::nat) ^ k"
  by (auto intro: exI [of _ 0] exI [of _ 1] exI [of _ 2] exI [of _ 3] exI [of _ 4])

lemma align_up_eq:
  assumes al: "al \<in> {1, 2, 4, 8, 16}" and cur: "cur \<le> 2 * SIZE"
  shows "align_up cur al = (cur + (al - 1)) div al * al"
proof -
  obtain k where k: "k \<le> 4" "al = 2 ^ k" using align_cases [OF al] by blast
  have m: "of_nat al - 1 = (mask k :: u32)" by (simp add: k mask_eq_exp_minus_1)
  have "al \<le> 16" using al by auto
  with cur have "cur + (al - 1) < 2 ^ 32" by (simp add: SIZE_def)
  moreover have "of_nat cur + (of_nat al - 1) = (of_nat (cur + (al - 1)) :: u32)" using al by auto
  ultimately have "unat (of_nat cur + mask k :: u32) = cur + (al - 1)"
    using m by (simp only: unat_of_nat) (simp add: take_bit_nat_eq_self)
  then show ?thesis unfolding align_up_def m by (simp only: unat_and_not_mask k(2))
qed

lemma round_up:
  fixes n al :: nat
  assumes "0 < al"
  shows "al dvd (n + (al - 1)) div al * al" "n \<le> (n + (al - 1)) div al * al"
    "(n + (al - 1)) div al * al < n + al" "al dvd n \<Longrightarrow> (n + (al - 1)) div al * al = n"
    "al dvd p \<Longrightarrow> n \<le> p \<Longrightarrow> (n + (al - 1)) div al * al \<le> p"
proof -
  let ?q = "(n + (al - 1)) div al"
  have e: "?q * al + (n + (al - 1)) mod al = n + (al - 1)" by simp
  have l: "(n + (al - 1)) mod al < al" using assms by simp
  show "al dvd ?q * al" by simp
  show a: "n \<le> ?q * al" and b: "?q * al < n + al" using e l by linarith+
  show c: "?q * al \<le> p" if "al dvd p" "n \<le> p" for p
  proof -
    obtain r where r: "p = al * r" using \<open>al dvd p\<close> by (rule dvdE)
    have "?q * al < (r + 1) * al" using b that(2) r by (simp add: algebra_simps)
    then have "0 < al \<and> ?q < r + 1" by (simp only: mult_less_cancel2)
    then have "?q \<le> r" by linarith
    then have "?q * al \<le> r * al" by (rule mult_le_mono1)
    with r show ?thesis by (simp add: mult.commute)
  qed
  show "?q * al = n" if "al dvd n" using a c [OF that order_refl] by (rule order_antisym [rotated])
qed

lemma align_up_facts:
  assumes "al \<in> {1, 2, 4, 8, 16}" and "cur \<le> 2 * SIZE"
  shows "al dvd align_up cur al" "cur \<le> align_up cur al" "align_up cur al < cur + al"
    "al dvd cur \<Longrightarrow> align_up cur al = cur" "al dvd p \<Longrightarrow> cur \<le> p \<Longrightarrow> align_up cur al \<le> p"
proof -
  have al: "0 < al" using assms(1) by auto
  note r = round_up [OF al, where n = cur, folded align_up_eq [OF assms]]
  show "al dvd align_up cur al" "cur \<le> align_up cur al" "align_up cur al < cur + al"
    "al dvd cur \<Longrightarrow> align_up cur al = cur" "al dvd p \<Longrightarrow> cur \<le> p \<Longrightarrow> align_up cur al \<le> p"
    by (fact r)+
qed

lemma align_up_le_SIZE:
  assumes "al \<in> {1, 2, 4, 8, 16}" "cur \<le> SIZE"
  shows "align_up cur al \<le> SIZE"
proof (rule align_up_facts(5) [OF assms(1)])
  show "al dvd SIZE" using assms(1) by (auto simp: SIZE_def)
qed (use assms(2) in auto)

lemma layout_ok_align: "layout_ok ly \<Longrightarrow> ly_align ly \<in> {1, 2, 4, 8, 16}"
  by (simp add: layout_ok_def)

text \<open>\<open>bump\<close> hands out the first aligned range at or above the offset, inside the storage, and moves the
  offset to its end; it panics exactly when no aligned range of that size is left.\<close>

theorem bump_first_fit:
  assumes "align \<in> {1, 2, 4, 8, 16}" "ar_off a \<le> SIZE"
  shows "case bump n align a of
      None \<Rightarrow> \<forall>p. align dvd p \<and> ar_off a \<le> p \<longrightarrow> SIZE < p + n
    | Some (p, a') \<Rightarrow> align dvd p \<and> ar_off a \<le> p \<and> p + n \<le> SIZE \<and>
        (\<forall>q. align dvd q \<and> ar_off a \<le> q \<longrightarrow> p \<le> q) \<and> a' = a\<lparr>ar_off := p + n\<rparr>"
proof -
  have c: "ar_off a \<le> 2 * SIZE" using assms(2) by simp
  note f = align_up_facts [OF assms(1) c]
  have "align \<le> MAX_ALIGN" "\<not> 2 ^ 32 \<le> m" if "m \<le> SIZE" for m :: nat
    using assms(1) that by (auto simp: MAX_ALIGN_def SIZE_def)
  then show ?thesis using f by (fastforce simp: bump_def Let_def not_le split: option.splits)
qed

theorem bump_first_fit_witness:
  "\<exists>a'. bump 12 8 \<lparr>ar_mem = (\<lambda>_. 0), ar_off = 13\<rparr> = Some (16, a') \<and> ar_off a' = 28"
proof -
  let ?a = "\<lparr>ar_mem = (\<lambda>_. 0), ar_off = 13\<rparr>"
  have "align_up 13 8 = 16" by (subst align_up_eq) (simp_all add: SIZE_def)
  then have b: "bump 12 8 ?a = Some (16, ?a\<lparr>ar_off := 28\<rparr>)" by (simp add: bump_def MAX_ALIGN_def SIZE_def)
  have "(8::nat) \<in> {1, 2, 4, 8, 16}" "ar_off ?a \<le> SIZE" by (simp_all add: SIZE_def)
  from bump_first_fit [OF this, of 12] b show ?thesis by simp
qed

subsection \<open>Reads and writes\<close>

lemma length_read_at [simp]: "length (read_at off n a) = n" by (simp add: read_at_def)

lemma read_at_cong: "(\<And>i. off \<le> i \<Longrightarrow> i < off + n \<Longrightarrow> ar_mem a i = ar_mem b i) \<Longrightarrow> read_at off n a = read_at off n b"
  by (simp add: read_at_def)

lemma read_at_off [simp]: "read_at off n (a\<lparr>ar_off := x\<rparr>) = read_at off n a" by (simp add: read_at_def)

lemma write_at_off [simp]: "ar_off (write_at off bs a) = ar_off a" by (simp add: write_at_def)

lemma write_at_mem:
  "ar_mem (write_at off bs a) i = (if off \<le> i \<and> i < off + length bs then bs ! (i - off) else ar_mem a i)"
  by (simp add: write_at_def)

lemma read_at_split: "read_at off (n + m) a = read_at off n a @ read_at (off + n) m a"
  using upt_add_eq_append [of off "off + n" m] by (simp add: read_at_def add.assoc)

lemma read_at_0 [simp]: "read_at off 0 a = []" by (simp add: read_at_def)

lemma read_at_write_same: "length bs = n \<Longrightarrow> read_at off n (write_at off bs a) = bs"
  by (rule nth_equalityI) (auto simp: read_at_def write_at_mem)

lemma read_at_write_below: "off + n \<le> off' \<Longrightarrow> read_at off n (write_at off' bs a) = read_at off n a"
  by (rule read_at_cong) (simp add: write_at_mem)

text \<open>A span's values are one run of bytes.\<close>

lemma concat_span_vals: "concat (span_vals ly sp a) = read_at (sp_off sp) (sp_len sp * ly_size ly) a"
proof -
  have "concat (map (\<lambda>i. read_at (o' + i * k) k a) [0..<n]) = read_at o' (n * k) a" for o' k n
    by (induction n) (simp_all add: read_at_split [symmetric] add.commute)
  then show ?thesis by (simp add: span_vals_def)
qed

lemma span_vals_read:
  assumes "\<And>i. i < sp_len sp * ly_size ly \<Longrightarrow> ar_mem a (sp_off sp + i) = ar_mem b (sp_off sp' + i)" "sp_len sp' = sp_len sp"
  shows "span_vals ly sp a = span_vals ly sp' b"
proof -
  have "ar_mem a (sp_off sp + i * ly_size ly + j) = ar_mem b (sp_off sp' + i * ly_size ly + j)"
    if "i < sp_len sp" "j < ly_size ly" for i j
  proof -
    have "i * ly_size ly + j < i * ly_size ly + ly_size ly" using that(2) by simp
    also have "\<dots> = (i + 1) * ly_size ly" by simp
    also have "\<dots> \<le> sp_len sp * ly_size ly" using that(1) by (intro mult_le_mono1) simp
    finally show ?thesis using assms(1) [of "i * ly_size ly + j"] by (simp add: add.assoc)
  qed
  then show ?thesis using assms(2)
    by (auto simp: span_vals_def read_at_def list_eq_iff_nth_eq)
qed

lemma length_span_vals [simp]: "length (span_vals ly sp a) = sp_len sp" by (simp add: span_vals_def)

lemma span_vals_eqI:
  assumes "read_at (sp_off sp) (sp_len sp * ly_size ly) a = concat vs" "sp_len sp = length vs"
    "\<forall>v\<in>set vs. length v = ly_size ly"
  shows "span_vals ly sp a = vs"
proof -
  have "\<forall>(x, y)\<in>set (zip (span_vals ly sp a) vs). length x = length y"
    using assms(3) by (auto simp: span_vals_def set_zip)
  moreover have "length (span_vals ly sp a) = length vs" using assms(2) by (simp add: span_vals_def)
  ultimately show ?thesis using assms(1) concat_span_vals [of ly sp a] concat_eq_concat_iff by metis
qed

lemma copy_down_mem:
  assumes "dst \<le> src"
  shows "ar_mem (copy_down src dst len a) j = (if dst \<le> j \<and> j < dst + len then ar_mem a (src + (j - dst)) else ar_mem a j)
    \<and> ar_off (copy_down src dst len a) = ar_off a"
proof -
  have "i \<le> len \<Longrightarrow> (\<forall>j. ar_mem b j = (if dst \<le> j \<and> j < dst + i then ar_mem a (src + (j - dst)) else ar_mem a j)) \<Longrightarrow>
      ar_mem (copy_down_loop src dst len i b) j = (if dst \<le> j \<and> j < dst + len then ar_mem a (src + (j - dst)) else ar_mem a j)
      \<and> ar_off (copy_down_loop src dst len i b) = ar_off b" for i b
  proof (induction "len - i" arbitrary: i b)
    case 0
    then show ?case by (subst (1 2) copy_down_loop.simps) simp
  next
    case (Suc d)
    let ?b = "b\<lparr>ar_mem := (ar_mem b)(dst + i := ar_mem b (src + i))\<rparr>"
    have i: "i < len" "d = len - (i + 1)" using Suc.hyps(2) by auto
    have "ar_mem b (src + i) = ar_mem a (src + i)" using Suc.prems(2) assms by auto
    then have "\<forall>j. ar_mem ?b j = (if dst \<le> j \<and> j < dst + (i + 1) then ar_mem a (src + (j - dst)) else ar_mem a j)"
      using Suc.prems(2) by auto
    from Suc.hyps(1) [OF i(2) _ this] i(1) show ?case
      by (subst (1 2) copy_down_loop.simps) simp
  qed
  moreover have "\<forall>j. ar_mem a j = (if dst \<le> j \<and> j < dst + 0 then ar_mem a (src + (j - dst)) else ar_mem a j)" by auto
  ultimately show ?thesis unfolding copy_down_def by blast
qed

subsection \<open>Building a span\<close>

text \<open>The values a build closure leaves.\<close>

fun bop_list :: "u8 list list \<Rightarrow> bop list \<Rightarrow> u8 list list" where
  "bop_list vs [] = vs"
| "bop_list vs (Push v # bs) = bop_list (vs @ [v]) bs"
| "bop_list vs (Extend ws # bs) = bop_list (vs @ ws) bs"
| "bop_list vs (Pop # bs) = bop_list (butlast vs) bs"

text \<open>Every value pushed has the size of the type.\<close>

fun bop_sized :: "nat \<Rightarrow> bop \<Rightarrow> bool" where
  "bop_sized k (Push v) \<longleftrightarrow> length v = k"
| "bop_sized k (Extend ws) \<longleftrightarrow> (\<forall>w\<in>set ws. length w = k)"
| "bop_sized k Pop \<longleftrightarrow> True"

fun bop_grow :: "bop \<Rightarrow> nat" where
  "bop_grow (Push v) = 1"
| "bop_grow (Extend ws) = length ws"
| "bop_grow Pop = 0"

lemma length_concat_const: "\<forall>w\<in>set ws. length w = k \<Longrightarrow> length (concat ws) = length ws * k"
  by (induction ws) auto

definition built :: "layout \<Rightarrow> arena \<Rightarrow> nat \<Rightarrow> u8 list list \<Rightarrow> nat \<times> arena \<Rightarrow> bool" where
  "built ly a0 start vs s \<longleftrightarrow>
     (case s of (n, a) \<Rightarrow> n = length vs \<and> (\<forall>v\<in>set vs. length v = ly_size ly) \<and>
        ar_off a = start + n * ly_size ly \<and> ar_off a \<le> SIZE \<and>
        read_at start (n * ly_size ly) a = concat vs \<and> (\<forall>i < start. ar_mem a i = ar_mem a0 i))"

lemma bump_aligned:
  assumes "layout_ok ly" "ly_align ly dvd ar_off a" "ar_off a \<le> SIZE"
  shows "bump n (ly_align ly) a =
    (if ar_off a + n \<le> SIZE then Some (ar_off a, a\<lparr>ar_off := ar_off a + n\<rparr>) else None)"
proof -
  have "align_up (ar_off a) (ly_align ly) = ar_off a"
    using assms layout_ok_align [OF assms(1)] by (intro align_up_facts(4)) auto
  moreover have "ly_align ly \<le> MAX_ALIGN" using layout_ok_align [OF assms(1)] by (auto simp: MAX_ALIGN_def)
  ultimately show ?thesis by (auto simp: bump_def SIZE_def Let_def)
qed

lemma built_write:
  assumes "built ly a0 start vs (n, a)" "\<forall>w\<in>set ws. length w = ly_size ly"
    "ar_off a + ly_size ly * length ws \<le> SIZE"
  shows "built ly a0 start (vs @ ws)
    (n + length ws, write_at (ar_off a) (concat ws) (a\<lparr>ar_off := ar_off a + ly_size ly * length ws\<rparr>))"
proof -
  let ?a = "write_at (ar_off a) (concat ws) (a\<lparr>ar_off := ar_off a + ly_size ly * length ws\<rparr>)"
  from assms(1) have n: "n = length vs" "ar_off a = start + n * ly_size ly" "read_at start (n * ly_size ly) a = concat vs"
    by (auto simp: built_def)
  have "read_at start (n * ly_size ly) ?a = concat vs"
    using n by (simp add: read_at_write_below)
  moreover have "read_at (ar_off a) (length ws * ly_size ly) ?a = concat ws"
    using length_concat_const [OF assms(2)] by (simp add: read_at_write_same)
  ultimately have "read_at start ((n + length ws) * ly_size ly) ?a = concat (vs @ ws)"
    using n by (simp add: add_mult_distrib read_at_split)
  then show ?thesis using assms n
    by (auto simp: built_def write_at_mem algebra_simps)
qed

lemma built_pop:
  assumes "built ly a0 start vs (n, a)" "n \<noteq> 0"
  shows "built ly a0 start (butlast vs) (n - 1, a\<lparr>ar_off := ar_off a - ly_size ly\<rparr>)"
proof -
  from assms obtain us v where vs: "vs = us @ [v]" by (cases vs rule: rev_cases) (auto simp: built_def)
  from assms(1) vs have n: "n = Suc (length us)" and v: "length v = ly_size ly"
    and r: "read_at start (length us * ly_size ly + ly_size ly) a = concat us @ v"
    and us: "\<forall>u\<in>set us. length u = ly_size ly"
    by (auto simp: built_def add.commute)
  from r have "read_at start (length us * ly_size ly) a = concat us"
    using length_concat_const [OF us] by (simp add: read_at_split)
  with assms(1) vs n v us show ?thesis by (auto simp: built_def)
qed

lemma bop_step_built:
  assumes ly: "layout_ok ly" and st: "ly_align ly dvd start"
    and b: "built ly a0 start vs (n, a)" and sz: "bop_sized (ly_size ly) op"
  shows "case bop_step ly op (n, a) of
      None \<Rightarrow> SIZE < ar_off a + bop_grow op * ly_size ly
    | Some s \<Rightarrow> built ly a0 start (bop_list vs [op]) s"
proof -
  have al: "ly_align ly dvd ar_off a" "ar_off a \<le> SIZE"
    using st b ly by (auto simp: built_def layout_ok_def intro!: dvd_add dvd_mult)
  note bp = bump_aligned [OF ly al]
  show ?thesis
  proof (cases op)
    case (Push v)
    with bp sz built_write [OF b, of "[v]"] show ?thesis by auto
  next
    case (Extend ws)
    with bp sz b built_write [OF b, of ws] show ?thesis by (auto simp: mult.commute)
  next
    case Pop
    with b built_pop [OF b] show ?thesis by (auto simp: built_def)
  qed
qed

lemma bops_run_built:
  assumes ly: "layout_ok ly" and st: "ly_align ly dvd start"
  shows "built ly a0 start vs (n, a) \<Longrightarrow> \<forall>op\<in>set ops. bop_sized (ly_size ly) op \<Longrightarrow>
    case bops_run ly ops (n, a) of
      None \<Rightarrow> SIZE < ar_off a + sum_list (map bop_grow ops) * ly_size ly
    | Some s \<Rightarrow> built ly a0 start (bop_list vs ops) s"
proof (induction ops arbitrary: vs n a)
  case (Cons op ops)
  note s = bop_step_built [OF ly st Cons.prems(1), of op]
  show ?case
  proof (cases "bop_step ly op (n, a)")
    case None
    with s Cons.prems(2) show ?thesis by (simp add: add_mult_distrib)
  next
    case (Some r)
    obtain m c where r: "r = (m, c)" by fastforce
    with s Some Cons.prems(2) have b: "built ly a0 start (bop_list vs [op]) (m, c)" by simp
    have "ar_off c \<le> ar_off a + bop_grow op * ly_size ly"
      using Cons.prems(1) b by (cases op) (auto simp: built_def add_mult_distrib)
    moreover have "bop_list vs (op # ops) = bop_list (bop_list vs [op]) ops" by (cases op) simp_all
    ultimately show ?thesis using Cons.IH [OF b] Cons.prems(2) Some r
      by (auto simp: add_mult_distrib split: option.splits)
  qed
qed simp

lemma span_result:
  assumes "layout_ok ly" "ar_off a \<le> SIZE" "\<forall>op\<in>set ops. bop_sized (ly_size ly) op"
  shows "case span ly ops a of
      None \<Rightarrow> SIZE < align_up (ar_off a) (ly_align ly) + sum_list (map bop_grow ops) * ly_size ly
    | Some (sp, a') \<Rightarrow>
        span_vals ly sp a' = bop_list [] ops \<and>
        sp_off sp = align_up (ar_off a) (ly_align ly) \<and> ar_off a' = sp_off sp + sp_len sp * ly_size ly \<and>
        ar_off a' \<le> SIZE \<and> (\<forall>i < sp_off sp. ar_mem a' i = ar_mem a i)"
proof -
  let ?s = "align_up (ar_off a) (ly_align ly)"
  have al: "ly_align ly dvd ?s" using align_up_facts(1) [OF layout_ok_align [OF assms(1)]] assms(2) by simp
  have "built ly a ?s [] (0, a\<lparr>ar_off := ?s\<rparr>)"
    using align_up_le_SIZE [OF layout_ok_align [OF assms(1)] assms(2)] by (simp add: built_def)
  note run = bops_run_built [OF assms(1) al this assms(3)]
  show ?thesis
  proof (cases "bops_run ly ops (0, a\<lparr>ar_off := ?s\<rparr>)")
    case None
    with run show ?thesis by (simp add: span_def)
  next
    case (Some s)
    obtain n a' where s: "s = (n, a')" by fastforce
    with run Some have b: "built ly a ?s (bop_list [] ops) (n, a')" by simp
    then have "span_vals ly \<lparr>sp_off = ?s, sp_len = n\<rparr> a' = bop_list [] ops"
      by (intro span_vals_eqI) (auto simp: built_def)
    with b Some s show ?thesis by (auto simp: span_def built_def)
  qed
qed

text \<open>a span built by any sequence of pushes, bulk appends and pops holds exactly the values that sequence
  leaves in a list, starts at the first aligned offset, ends at the new arena offset without padding, and
  leaves every byte below it untouched; the build only panics when the storage is exhausted.\<close>

theorem span_holds_build:
  assumes "layout_ok ly" "ar_off a \<le> SIZE" "\<forall>op\<in>set ops. bop_sized (ly_size ly) op"
  shows "case span ly ops a of
      None \<Rightarrow> SIZE < align_up (ar_off a) (ly_align ly) + sum_list (map bop_grow ops) * ly_size ly
    | Some (sp, a') \<Rightarrow>
        span_vals ly sp a' = bop_list [] ops \<and>
        sp_off sp = align_up (ar_off a) (ly_align ly) \<and> ar_off a' = sp_off sp + sp_len sp * ly_size ly \<and>
        ar_off a' \<le> SIZE \<and> (\<forall>i < sp_off sp. ar_mem a' i = ar_mem a i)"
  using assms by (rule span_result)

text \<open>Two pushes, a bulk append and a pop of \<open>u32\<close> values at an odd offset.\<close>

definition u32_layout :: layout where "u32_layout = \<lparr>ly_size = 4, ly_align = 4\<rparr>"

lemma u32_layout_ok: "layout_ok u32_layout" by (simp add: layout_ok_def u32_layout_def)

theorem span_holds_build_witness:
  "let ops = [Push [1, 0, 0, 0], Extend [[2, 0, 0, 0], [3, 0, 0, 0]], Pop, Push [4, 0, 0, 0]]
   in \<exists>sp a'. span u32_layout ops \<lparr>ar_mem = (\<lambda>_. 7), ar_off = 5\<rparr> = Some (sp, a') \<and>
     span_vals u32_layout sp a' = [[1, 0, 0, 0], [2, 0, 0, 0], [4, 0, 0, 0]] \<and> sp_off sp = 8 \<and> ar_off a' = 20"
proof -
  let ?ops = "[Push [1, 0, 0, 0], Extend [[2, 0, 0, 0], [3, 0, 0, 0]], Pop, Push [4, 0, 0, 0]] :: bop list"
  let ?a = "\<lparr>ar_mem = (\<lambda>_. 7), ar_off = 5\<rparr>"
  have al: "align_up 5 4 = 8" by (subst align_up_eq) (simp_all add: SIZE_def)
  have o': "ar_off ?a \<le> SIZE" "\<forall>op\<in>set ?ops. bop_sized (ly_size u32_layout) op"
    by (simp_all add: SIZE_def u32_layout_def)
  from span_holds_build [OF u32_layout_ok o'] al obtain sp a'
    where r: "span u32_layout ?ops ?a = Some (sp, a')" "sp_off sp = 8" "ar_off a' = sp_off sp + sp_len sp * 4"
      "span_vals u32_layout sp a' = [[1, 0, 0, 0], [2, 0, 0, 0], [4, 0, 0, 0]]"
    by (auto simp: u32_layout_def SIZE_def split: option.splits)
  have "sp_len sp = 3" using arg_cong [OF r(4), of length] by simp
  with r show ?thesis by (simp add: Let_def)
qed

subsection \<open>Results that survive a rewind\<close>

text \<open>
  What a closure can do to the arena: it only writes at or above the offset it starts with (it can reach
  nothing below, the parent frame being borrowed) and stays in the storage.
\<close>

locale arena_client =
  fixes build :: "arena \<Rightarrow> ('r \<times> arena) option"
  assumes frame: "ar_off a \<le> SIZE \<Longrightarrow> build a = Some (r, a') \<Longrightarrow> i < ar_off a \<Longrightarrow> ar_mem a' i = ar_mem a i"
    and inside: "ar_off a \<le> SIZE \<Longrightarrow> build a = Some (r, a') \<Longrightarrow> ar_off a' \<le> SIZE"
begin

lemma scope_restores:
  assumes "ar_off a \<le> SIZE" "in_scope build a = Some (r, a')"
  shows "ar_off a' = ar_off a" "i < ar_off a \<Longrightarrow> ar_mem a' i = ar_mem a i"
  using assms frame [OF assms(1)] by (auto simp: in_scope_def)

end

text \<open>The closure of \<open>compact\<close>: the span it returns was made above the offset, or is empty there.\<close>

locale scratch_build = arena_client build for build :: "arena \<Rightarrow> (fspan \<times> arena) option" +
  fixes ly :: layout
  assumes layout: "layout_ok ly"
    and above: "ar_off a \<le> SIZE \<Longrightarrow> build a = Some (sp, a') \<Longrightarrow> align_up (ar_off a) (ly_align ly) \<le> sp_off sp"
    and holds: "ar_off a \<le> SIZE \<Longrightarrow> build a = Some (sp, a') \<Longrightarrow> sp_off sp + sp_len sp * ly_size ly \<le> SIZE"
begin

lemma compact_result:
  assumes a: "ar_off a \<le> SIZE" and b: "build a = Some (res, b)"
  defines "dst \<equiv> align_up (ar_off a) (ly_align ly)"
  shows "\<exists>a'. compact ly build a = Some (\<lparr>sp_off = dst, sp_len = sp_len res\<rparr>, a') \<and>
    span_vals ly \<lparr>sp_off = dst, sp_len = sp_len res\<rparr> a' = span_vals ly res b \<and>
    ar_off a' = dst + sp_len res * ly_size ly \<and> ar_off a' \<le> SIZE \<and> (\<forall>i<ar_off a. ar_mem a' i = ar_mem a i)"
proof -
  let ?n = "sp_len res * ly_size ly"
  let ?c = "if dst \<noteq> sp_off res \<and> ?n > 0 then copy_down (sp_off res) dst ?n b else b"
  have le: "dst \<le> sp_off res" using above [OF a b] by (simp add: dst_def)
  have up: "ar_off a \<le> dst" using align_up_facts(2) [OF layout_ok_align [OF layout]] a by (simp add: dst_def)
  have m: "ar_mem ?c j = (if dst \<le> j \<and> j < dst + ?n then ar_mem b (sp_off res + (j - dst)) else ar_mem b j)" for j
    using copy_down_mem [OF le, of ?n b j] by auto
  let ?sp = "\<lparr>sp_off = dst, sp_len = sp_len res\<rparr>" and ?a = "?c\<lparr>ar_off := dst + ?n\<rparr>"
  have v: "span_vals ly ?sp ?a = span_vals ly res b"
    by (rule span_vals_read) (use m in simp_all)
  have low: "\<forall>i<ar_off a. ar_mem ?a i = ar_mem a i" using m up frame [OF a b] by auto
  have sz: "ar_off ?a \<le> SIZE" using holds [OF a b] le by simp
  have "compact ly build a = Some (?sp, ?a)" by (simp add: compact_def b Let_def dst_def)
  then show ?thesis using v low sz by (intro exI [of _ ?a] conjI) simp_all
qed

lemma compact_none: "build a = None \<Longrightarrow> compact ly build a = None" by (simp add: compact_def)

lemma compact_some:
  assumes "ar_off a \<le> SIZE" "compact ly build a = Some (sp, a')"
  shows "\<exists>res b. build a = Some (res, b) \<and> sp_off sp = align_up (ar_off a) (ly_align ly) \<and> sp_len sp = sp_len res \<and>
    span_vals ly sp a' = span_vals ly res b \<and> ar_off a' = sp_off sp + sp_len sp * ly_size ly \<and> ar_off a' \<le> SIZE \<and>
    (\<forall>i<ar_off a. ar_mem a' i = ar_mem a i)"
proof (cases "build a")
  case None
  with assms(2) compact_none show ?thesis by simp
next
  case (Some p)
  obtain res b where p: "p = (res, b)" by fastforce
  with Some have b: "build a = Some (res, b)" by simp
  let ?sp = "\<lparr>sp_off = align_up (ar_off a) (ly_align ly), sp_len = sp_len res\<rparr>"
  from compact_result [OF assms(1) b] obtain a2 where r: "compact ly build a = Some (?sp, a2)"
    "span_vals ly ?sp a2 = span_vals ly res b" "ar_off a2 = align_up (ar_off a) (ly_align ly) + sp_len res * ly_size ly"
    "ar_off a2 \<le> SIZE" "\<forall>i<ar_off a. ar_mem a2 i = ar_mem a i"
    by blast
  have e: "sp = ?sp" "a' = a2" using assms(2) r(1) by simp_all
  show ?thesis unfolding e using b r(2-5) by simp
qed

lemma compact_nests: "scratch_build (compact ly build) ly"
proof unfold_locales
  fix a sp a' i
  assume a: "ar_off a \<le> SIZE" and c: "compact ly build a = Some (sp, a')"
  note s = compact_some [OF a c]
  show "align_up (ar_off a) (ly_align ly) \<le> sp_off sp" using s by (elim exE conjE) simp
  show "sp_off sp + sp_len sp * ly_size ly \<le> SIZE" using s by (elim exE conjE) simp
  show "ar_off a' \<le> SIZE" using s by (elim exE conjE)
  assume "i < ar_off a"
  then show "ar_mem a' i = ar_mem a i" using s by (elim exE conjE) simp
qed (rule layout)

end

text \<open>A compaction is itself something a scope can run.\<close>

sublocale scratch_build \<subseteq> compacted: arena_client "compact ly build"
  using compact_nests by (simp add: scratch_build_def)

text \<open>The closure of \<open>replace2\<close>: two spans above the offset, the first below the second.\<close>

locale pair_build = arena_client build for build :: "arena \<Rightarrow> ((fspan \<times> fspan) \<times> arena) option" +
  fixes ly1 ly2 :: layout
  assumes layouts: "layout_ok ly1" "layout_ok ly2"
    and above: "ar_off a \<le> SIZE \<Longrightarrow> build a = Some ((sp1, sp2), a') \<Longrightarrow> align_up (ar_off a) (ly_align ly1) \<le> sp_off sp1"
    and order: "ar_off a \<le> SIZE \<Longrightarrow> build a = Some ((sp1, sp2), a') \<Longrightarrow>
      sp_off sp1 + sp_len sp1 * ly_size ly1 \<le> sp_off sp2 \<and> ly_align ly2 dvd sp_off sp2"
    and holds: "ar_off a \<le> SIZE \<Longrightarrow> build a = Some ((sp1, sp2), a') \<Longrightarrow> sp_off sp2 + sp_len sp2 * ly_size ly2 \<le> SIZE"
begin

lemma replace2_result:
  assumes a: "ar_off a \<le> SIZE" and b: "build a = Some ((new1, new2), b)"
    and s1: "sp_off span1 \<le> ar_off a"
    and top: "ar_off a \<le> sp_off span2 + sp_len span2 * ly_size ly2"
      "sp_off span2 + sp_len span2 * ly_size ly2 < ar_off a + ly_align ly2"
  shows "\<exists>r1 r2 a'. replace2 ly1 span1 ly2 span2 build a = Some ((r1, r2), a') \<and>
    span_vals ly1 r1 a' = span_vals ly1 new1 b \<and> span_vals ly2 r2 a' = span_vals ly2 new2 b \<and>
    sp_off r1 = sp_off span1 \<and> ly_align ly2 dvd sp_off r2 \<and>
    sp_off r1 + sp_len r1 * ly_size ly1 \<le> sp_off r2 \<and>
    sp_off r2 < sp_off r1 + sp_len r1 * ly_size ly1 + ly_align ly2 \<and>
    ar_off a' = sp_off r2 + sp_len r2 * ly_size ly2 \<and> ar_off a' \<le> SIZE \<and>
    (\<forall>i < sp_off span1. ar_mem a' i = ar_mem a i)"
proof -
  let ?d1 = "sp_off span1" and ?n1 = "sp_len new1 * ly_size ly1" and ?n2 = "sp_len new2 * ly_size ly2"
  let ?d2 = "align_up (?d1 + ?n1) (ly_align ly2)"
  let ?b2 = "if sp_off new1 \<noteq> ?d1 \<and> ?n1 > 0 then copy_down (sp_off new1) ?d1 ?n1 b else b"
  let ?b3 = "if sp_off new2 \<noteq> ?d2 \<and> ?n2 > 0 then copy_down (sp_off new2) ?d2 ?n2 ?b2 else ?b2"
  have up: "ar_off a \<le> align_up (ar_off a) (ly_align ly1)"
    using align_up_facts(2) [OF layout_ok_align [OF layouts(1)]] a by simp
  have le1: "?d1 \<le> sp_off new1" using above [OF a b] up s1 by linarith
  note o' = order [OF a b] and h = holds [OF a b]
  have c: "?d1 + ?n1 \<le> 2 * SIZE" using o' h le1 by linarith
  note f = align_up_facts [OF layout_ok_align [OF layouts(2)] c]
  have le2: "?d2 \<le> sp_off new2" using o' le1 by (intro f(5)) auto
  have m2: "ar_mem ?b2 j = (if ?d1 \<le> j \<and> j < ?d1 + ?n1 then ar_mem b (sp_off new1 + (j - ?d1)) else ar_mem b j)" for j
    using copy_down_mem [OF le1, of ?n1 b j] by auto
  have m3: "ar_mem ?b3 j = (if ?d2 \<le> j \<and> j < ?d2 + ?n2 then ar_mem ?b2 (sp_off new2 + (j - ?d2)) else ar_mem ?b2 j)" for j
    using copy_down_mem [OF le2, of ?n2 ?b2 j] by auto
  let ?r1 = "\<lparr>sp_off = ?d1, sp_len = sp_len new1\<rparr>" and ?r2 = "\<lparr>sp_off = ?d2, sp_len = sp_len new2\<rparr>"
  let ?a = "?b3\<lparr>ar_off := ?d2 + ?n2\<rparr>"
  have v1: "span_vals ly1 ?r1 ?a = span_vals ly1 new1 b"
  proof (rule span_vals_read)
    fix i
    assume i: "i < sp_len ?r1 * ly_size ly1"
    then have "?d1 + i < ?d2" using f(2) by simp
    then have "ar_mem ?b3 (?d1 + i) = ar_mem ?b2 (?d1 + i)" unfolding m3 by simp
    also have "\<dots> = ar_mem b (sp_off new1 + i)" using i unfolding m2 by simp
    finally show "ar_mem ?a (sp_off ?r1 + i) = ar_mem b (sp_off new1 + i)" by simp
  qed simp
  have v2: "span_vals ly2 ?r2 ?a = span_vals ly2 new2 b"
  proof (rule span_vals_read)
    fix i
    assume i: "i < sp_len ?r2 * ly_size ly2"
    then have "ar_mem ?b3 (?d2 + i) = ar_mem ?b2 (sp_off new2 + i)" unfolding m3 by simp
    also have "\<dots> = ar_mem b (sp_off new2 + i)" using le1 o' unfolding m2 by simp
    finally show "ar_mem ?a (sp_off ?r2 + i) = ar_mem b (sp_off new2 + i)" by simp
  qed simp
  have low: "ar_mem ?a i = ar_mem a i" if "i < ?d1" for i
  proof -
    have "ar_mem ?b3 i = ar_mem b i" using that f(2) unfolding m3 m2 by simp
    also have "\<dots> = ar_mem a i" using that s1 by (intro frame [OF a b]) simp
    finally show ?thesis by simp
  qed
  have "replace2 ly1 span1 ly2 span2 build a = Some ((?r1, ?r2), ?a)"
    using b top by (simp add: replace2_def Let_def)
  with v1 v2 low f(1-3) le2 h show ?thesis
    by (intro exI [of _ ?r1] exI [of _ ?r2] exI [of _ ?a]) auto
qed

end

subsection \<open>The closures the program passes\<close>

text \<open>\<open>collect\<close> of 32-bit numbers; scratch before the result, as in \<open>tree_layout\<close>; two spans in order, as in the tick.\<close>

definition collect_u32 :: "u32 list \<Rightarrow> arena \<Rightarrow> (fspan \<times> arena) option" where
  "collect_u32 ws a = collect_span u32_layout (map (le_bytes 4) ws) a"

definition scratch_u32 :: "u32 list \<Rightarrow> u32 list \<Rightarrow> arena \<Rightarrow> (fspan \<times> arena) option" where
  "scratch_u32 scratch ws a = Option.bind (collect_u32 scratch a) (\<lambda>(_, a'). collect_u32 ws a')"

definition pair_u32 :: "u32 list \<Rightarrow> u32 list \<Rightarrow> arena \<Rightarrow> ((fspan \<times> fspan) \<times> arena) option" where
  "pair_u32 ws1 ws2 a =
     Option.bind (collect_u32 ws1 a) (\<lambda>(sp1, a'). map_option (\<lambda>(sp2, a''). ((sp1, sp2), a'')) (collect_u32 ws2 a'))"

lemma bop_list_pushes: "bop_list vs (map (Push \<circ> f) ws) = vs @ map f ws"
  by (induction ws arbitrary: vs) simp_all

lemma grow_pushes: "sum_list (map (bop_grow \<circ> (Push \<circ> f)) ws) = length ws"
  by (induction ws) simp_all

lemma collect_u32_result:
  assumes "ar_off a \<le> SIZE"
  shows "case collect_u32 ws a of
      None \<Rightarrow> SIZE < align_up (ar_off a) 4 + length ws * 4
    | Some (sp, a') \<Rightarrow> span_vals u32_layout sp a' = map (le_bytes 4) ws \<and> sp_off sp = align_up (ar_off a) 4 \<and>
        sp_len sp = length ws \<and> ar_off a' = sp_off sp + sp_len sp * 4 \<and> ar_off a' \<le> SIZE \<and>
        (\<forall>i < sp_off sp. ar_mem a' i = ar_mem a i)"
proof -
  have sz: "\<forall>op\<in>set (map Push (map (le_bytes 4) ws)). bop_sized (ly_size u32_layout) op"
    by (auto simp: u32_layout_def)
  from span_result [OF u32_layout_ok assms sz]
  have "case collect_u32 ws a of
      None \<Rightarrow> SIZE < align_up (ar_off a) 4 + length ws * 4
    | Some (sp, a') \<Rightarrow> span_vals u32_layout sp a' = map (le_bytes 4) ws \<and> sp_off sp = align_up (ar_off a) 4 \<and>
        ar_off a' = sp_off sp + sp_len sp * 4 \<and> ar_off a' \<le> SIZE \<and> (\<forall>i < sp_off sp. ar_mem a' i = ar_mem a i)"
    by (auto simp: collect_u32_def collect_span_def bop_list_pushes grow_pushes u32_layout_def
        split: option.splits)
  moreover have "sp_len sp = length ws" if "span_vals u32_layout sp a' = map (le_bytes 4) ws" for sp a'
    using arg_cong [OF that, of length] by simp
  ultimately show ?thesis by (auto split: option.splits)
qed

lemma collect_u32_some:
  assumes "ar_off a \<le> SIZE" "collect_u32 ws a = Some (sp, a')"
  shows "span_vals u32_layout sp a' = map (le_bytes 4) ws" "sp_off sp = align_up (ar_off a) 4" "sp_len sp = length ws"
    "ar_off a' = sp_off sp + sp_len sp * 4" "ar_off a' \<le> SIZE" "ar_off a \<le> sp_off sp"
    "i < sp_off sp \<Longrightarrow> ar_mem a' i = ar_mem a i"
  using collect_u32_result [OF assms(1), of ws] assms align_up_facts(2) [of 4 "ar_off a"] by auto

lemma align4_mono: "x \<le> y \<Longrightarrow> y \<le> SIZE \<Longrightarrow> align_up x 4 \<le> align_up y 4"
  by (rule align_up_facts(5)) (use align_up_facts(1,2) [of 4 y] in auto)

interpretation tree_build: scratch_build "scratch_u32 scratch ws" u32_layout for scratch ws :: "u32 list"
proof unfold_locales
  fix a sp a' i
  assume a: "ar_off a \<le> SIZE" and s: "scratch_u32 scratch ws a = Some (sp, a')"
  from s obtain sp0 a0 where c: "collect_u32 scratch a = Some (sp0, a0)" "collect_u32 ws a0 = Some (sp, a')"
    by (auto simp: scratch_u32_def bind_eq_Some_conv)
  note c1 = collect_u32_some [OF a c(1)] and c2 = collect_u32_some [OF c1(5) c(2)]
  show "ar_off a' \<le> SIZE" by (rule c2(5))
  show "align_up (ar_off a) (ly_align u32_layout) \<le> sp_off sp"
    using c1(2,4) c2(6) by (simp add: u32_layout_def)
  show "sp_off sp + sp_len sp * ly_size u32_layout \<le> SIZE" using c2(4,5) by (simp add: u32_layout_def)
  assume i: "i < ar_off a"
  then show "ar_mem a' i = ar_mem a i"
    using c1(4,6) c1(7) [of i] c2(6) c2(7) [of i] by simp
qed (rule u32_layout_ok)

interpretation tick_pair: pair_build "pair_u32 ws1 ws2" u32_layout u32_layout for ws1 ws2 :: "u32 list"
proof -
  have some: "\<exists>a0. collect_u32 ws1 a = Some (sp1, a0) \<and> collect_u32 ws2 a0 = Some (sp2, a')"
    if "pair_u32 ws1 ws2 a = Some ((sp1, sp2), a')" for a sp1 sp2 a'
    using that by (auto simp: pair_u32_def bind_eq_Some_conv)
  show "pair_build (pair_u32 ws1 ws2) u32_layout u32_layout"
  proof unfold_locales
    fix a r a' i
    assume a: "ar_off a \<le> SIZE" and s: "pair_u32 ws1 ws2 a = Some (r, a')"
    obtain sp1 sp2 where "r = (sp1, sp2)" by fastforce
    with some s obtain a0 where c: "collect_u32 ws1 a = Some (sp1, a0)" "collect_u32 ws2 a0 = Some (sp2, a')" by blast
    note c1 = collect_u32_some [OF a c(1)] and c2 = collect_u32_some [OF c1(5) c(2)]
    show "ar_off a' \<le> SIZE" by (rule c2(5))
    assume i: "i < ar_off a"
    then show "ar_mem a' i = ar_mem a i" using c1(4,6) c1(7) [of i] c2(6) c2(7) [of i] by simp
  next
    fix a sp1 sp2 a'
    assume a: "ar_off a \<le> SIZE" and s: "pair_u32 ws1 ws2 a = Some ((sp1, sp2), a')"
    from some [OF s] obtain a0 where c: "collect_u32 ws1 a = Some (sp1, a0)" "collect_u32 ws2 a0 = Some (sp2, a')" by blast
    note c1 = collect_u32_some [OF a c(1)] and c2 = collect_u32_some [OF c1(5) c(2)]
    show "align_up (ar_off a) (ly_align u32_layout) \<le> sp_off sp1" using c1(2) by (simp add: u32_layout_def)
    have "4 dvd sp_off sp2" using c2(2) align_up_facts(1) [of 4 "ar_off a0"] c1(5) by simp
    then show "sp_off sp1 + sp_len sp1 * ly_size u32_layout \<le> sp_off sp2 \<and> ly_align u32_layout dvd sp_off sp2"
      using c1(4) c2(6) by (simp add: u32_layout_def)
    show "sp_off sp2 + sp_len sp2 * ly_size u32_layout \<le> SIZE" using c2(4,5) by (simp add: u32_layout_def)
  qed (rule u32_layout_ok)+
qed

text \<open>C23: \<open>compact\<close> returns the values of the span its closure built, moved down to the first aligned offset it
  started from, reclaims everything else the closure allocated (the new offset is the end of the result),
  and leaves the memory below untouched, for every closure that keeps to the frame it is given.\<close>

theorem compact_keeps_result:
  assumes "scratch_build build ly" "ar_off a \<le> SIZE" "build a = Some (res, b)"
  shows "\<exists>sp a'. compact ly build a = Some (sp, a') \<and> sp_off sp = align_up (ar_off a) (ly_align ly) \<and>
    span_vals ly sp a' = span_vals ly res b \<and> ar_off a' = sp_off sp + sp_len res * ly_size ly \<and> ar_off a' \<le> SIZE \<and>
    (\<forall>i<ar_off a. ar_mem a' i = ar_mem a i)"
  using scratch_build.compact_result [OF assms] by fastforce

theorem compact_keeps_result_witness:
  "\<exists>sp a'. compact u32_layout (scratch_u32 [9, 9, 9] [1, 2]) \<lparr>ar_mem = (\<lambda>_. 7), ar_off = 5\<rparr> = Some (sp, a') \<and>
     span_vals u32_layout sp a' = [le_bytes 4 (1 :: u32), le_bytes 4 (2 :: u32)] \<and> sp_off sp = 8"
proof -
  let ?a = "\<lparr>ar_mem = (\<lambda>_. 7), ar_off = 5\<rparr>"
  have o': "ar_off ?a \<le> SIZE" by (simp add: SIZE_def)
  have al: "align_up 5 4 = 8" "align_up 20 4 = 20" by (subst align_up_eq, simp_all add: SIZE_def)+
  from collect_u32_result [OF o', of "[9, 9, 9]"] al obtain sp0 a0
    where c0: "collect_u32 [9, 9, 9] ?a = Some (sp0, a0)" by (auto simp: SIZE_def split: option.splits)
  note f0 = collect_u32_some [OF o' c0]
  have "ar_off a0 = 20" using f0(2,3,4) al by simp
  with collect_u32_result [OF f0(5), of "[1, 2]"] al obtain res b
    where c1: "collect_u32 [1, 2] a0 = Some (res, b)" by (auto simp: SIZE_def split: option.splits)
  have "scratch_u32 [9, 9, 9] [1, 2] ?a = Some (res, b)" by (simp add: scratch_u32_def c0 c1)
  from compact_keeps_result [OF tree_build.scratch_build_axioms o' this]
    collect_u32_some(1) [OF f0(5) c1] al show ?thesis by (auto simp: u32_layout_def)
qed

text \<open>\<open>replace2\<close> rotates two adjacent spans at the top of the arena: both new spans keep their values, the
  first takes the old first's place, the second follows it with only alignment padding, the offset ends
  with the second, and nothing below the old first span changes.\<close>

theorem replace2_keeps_both:
  assumes "pair_build build ly1 ly2" "ar_off a \<le> SIZE" "build a = Some ((new1, new2), b)"
    and "sp_off span1 \<le> ar_off a" "ar_off a \<le> sp_off span2 + sp_len span2 * ly_size ly2"
    and "sp_off span2 + sp_len span2 * ly_size ly2 < ar_off a + ly_align ly2"
  shows "\<exists>r1 r2 a'. replace2 ly1 span1 ly2 span2 build a = Some ((r1, r2), a') \<and>
    span_vals ly1 r1 a' = span_vals ly1 new1 b \<and> span_vals ly2 r2 a' = span_vals ly2 new2 b \<and>
    sp_off r1 = sp_off span1 \<and> ly_align ly2 dvd sp_off r2 \<and>
    sp_off r1 + sp_len r1 * ly_size ly1 \<le> sp_off r2 \<and>
    sp_off r2 < sp_off r1 + sp_len r1 * ly_size ly1 + ly_align ly2 \<and>
    ar_off a' = sp_off r2 + sp_len r2 * ly_size ly2 \<and> ar_off a' \<le> SIZE \<and>
    (\<forall>i < sp_off span1. ar_mem a' i = ar_mem a i)"
  using assms by (rule pair_build.replace2_result)

theorem replace2_keeps_both_witness:
  "\<exists>r1 r2 a'. replace2 u32_layout \<lparr>sp_off = 8, sp_len = 1\<rparr> u32_layout \<lparr>sp_off = 12, sp_len = 2\<rparr>
      (pair_u32 [3] [4, 5]) \<lparr>ar_mem = (\<lambda>_. 7), ar_off = 20\<rparr> = Some ((r1, r2), a') \<and>
    span_vals u32_layout r1 a' = [le_bytes 4 (3 :: u32)] \<and>
    span_vals u32_layout r2 a' = [le_bytes 4 (4 :: u32), le_bytes 4 (5 :: u32)] \<and> sp_off r1 = 8"
proof -
  let ?a = "\<lparr>ar_mem = (\<lambda>_. 7), ar_off = 20\<rparr>"
  have o': "ar_off ?a \<le> SIZE" by (simp add: SIZE_def)
  have al: "align_up 20 4 = 20" "align_up 24 4 = 24" by (subst align_up_eq, simp_all add: SIZE_def)+
  from collect_u32_result [OF o', of "[3]"] al obtain n1 a1
    where c1: "collect_u32 [3] ?a = Some (n1, a1)" by (auto simp: SIZE_def split: option.splits)
  note f1 = collect_u32_some [OF o' c1]
  have o1: "ar_off a1 = 24" "sp_off n1 = 20" "sp_len n1 = 1" using f1(2,3,4) al by simp_all
  with collect_u32_result [OF f1(5), of "[4, 5]"] al obtain n2 b
    where c2: "collect_u32 [4, 5] a1 = Some (n2, b)" by (auto simp: SIZE_def split: option.splits)
  note f2 = collect_u32_some [OF f1(5) c2]
  have p: "pair_u32 [3] [4, 5] ?a = Some ((n1, n2), b)" by (simp add: pair_u32_def c1 c2)
  have "span_vals u32_layout n1 b = span_vals u32_layout n1 a1"
  proof (rule span_vals_read)
    fix i
    assume "i < sp_len n1 * ly_size u32_layout"
    then have "sp_off n1 + i < sp_off n2" using o1 f2(6) by (simp add: u32_layout_def)
    then show "ar_mem b (sp_off n1 + i) = ar_mem a1 (sp_off n1 + i)" by (rule f2(7))
  qed simp
  with f1(1) f2(1) replace2_keeps_both [OF tick_pair.pair_build_axioms o' p,
      of "\<lparr>sp_off = 8, sp_len = 1\<rparr>" "\<lparr>sp_off = 12, sp_len = 2\<rparr>"]
  show ?thesis by (fastforce simp: u32_layout_def)
qed

subsection \<open>Reserves\<close>

text \<open>Freezing a reserve filled by pushes gives a span of the pushed values that ends at the arena offset.\<close>

definition reserved :: "layout \<Rightarrow> u8 list list \<Rightarrow> freserve \<times> arena \<Rightarrow> bool" where
  "reserved ly vs s \<longleftrightarrow>
     (case s of (r, a) \<Rightarrow> rs_len r = length vs \<and> rs_len r \<le> rs_cap r \<and> (\<forall>v\<in>set vs. length v = ly_size ly) \<and>
        ar_off a = rs_off r + rs_cap r * ly_size ly \<and> ar_off a \<le> SIZE \<and>
        read_at (rs_off r) (rs_len r * ly_size ly) a = concat vs)"

lemma reserve_reserved:
  assumes "layout_ok ly" "ar_off a \<le> SIZE" "reserve ly n a = Some s"
  shows "reserved ly [] s"
  using assms by (auto simp: reserve_def reserved_def bump_def Let_def mult.commute split: if_splits)

lemma reserved_write:
  assumes "reserved ly vs (r, a)" "\<forall>w\<in>set ws. length w = ly_size ly" "rs_len r + length ws \<le> rs_cap r"
  shows "reserved ly (vs @ ws) (r\<lparr>rs_len := rs_len r + length ws\<rparr>, write_at (rs_off r + rs_len r * ly_size ly) (concat ws) a)"
proof -
  let ?a = "write_at (rs_off r + rs_len r * ly_size ly) (concat ws) a"
  from assms(1) have r: "read_at (rs_off r) (rs_len r * ly_size ly) ?a = concat vs"
    by (auto simp: reserved_def read_at_write_below)
  have "read_at (rs_off r + rs_len r * ly_size ly) (length ws * ly_size ly) ?a = concat ws"
    using length_concat_const [OF assms(2)] by (simp add: read_at_write_same)
  with r have "read_at (rs_off r) ((rs_len r + length ws) * ly_size ly) ?a = concat (vs @ ws)"
    by (simp add: add_mult_distrib read_at_split)
  with assms show ?thesis by (auto simp: reserved_def)
qed

lemma rs_push_reserved:
  assumes "reserved ly vs (r, a)" "length v = ly_size ly"
  shows "case rs_push ly v (r, a) of Inl w \<Rightarrow> w = v \<and> length vs = rs_cap r | Inr s \<Rightarrow> reserved ly (vs @ [v]) s"
  using assms reserved_write [OF assms(1), of "[v]"] by (auto simp: rs_push_def reserved_def)

lemma rs_extend_reserved:
  assumes "reserved ly vs (r, a)" "\<forall>w\<in>set ws. length w = ly_size ly"
  shows "case rs_extend ly ws (r, a) of None \<Rightarrow> rs_cap r < length vs + length ws | Some s \<Rightarrow> reserved ly (vs @ ws) s"
  using assms reserved_write [OF assms] by (auto simp: rs_extend_def reserved_def)

lemma rs_freeze_reserved:
  assumes "reserved ly vs s" "rs_freeze ly s = (sp, a)"
  shows "span_vals ly sp a = vs" "ar_off a = sp_off sp + sp_len sp * ly_size ly" "ar_off a \<le> SIZE"
proof -
  obtain r b where s: "s = (r, b)" by fastforce
  with assms have e: "sp = \<lparr>sp_off = rs_off r, sp_len = rs_len r\<rparr>" "a = b\<lparr>ar_off := rs_off r + rs_len r * ly_size ly\<rparr>"
    by (simp_all add: rs_freeze_def)
  show "span_vals ly sp a = vs" using assms(1) s e by (intro span_vals_eqI) (auto simp: reserved_def)
  show "ar_off a = sp_off sp + sp_len sp * ly_size ly" using e by simp
  have "rs_len r \<le> rs_cap r" "rs_off r + rs_cap r * ly_size ly \<le> SIZE" using assms(1) s by (auto simp: reserved_def)
  then have "rs_off r + rs_len r * ly_size ly \<le> SIZE" using mult_le_mono1 [of "rs_len r" "rs_cap r" "ly_size ly"] by linarith
  then show "ar_off a \<le> SIZE" using e by simp
qed

subsection \<open>The tail given back\<close>

lemma unat_saturating_sub: "unat (saturating_sub x y) = unat x - unat y"
  by (simp add: saturating_sub_def word_le_nat_alt unat_sub)

text \<open>\<open>uncommit_tail\<close> hands the kernel only whole pages strictly inside the unused tail: the range starts at a
  page boundary at or above the bump pointer, is a whole number of pages, ends inside the arena, and is the
  largest such range; it makes no call exactly when no whole page is unused.\<close>

theorem uncommit_tail_whole_pages:
  assumes "page = 2 ^ k" "k < 32" "ar_off a \<le> SIZE" "unat base + SIZE + 2 ^ k \<le> 2 ^ 63"
  shows "case uncommit_tail macos page base a of
      None \<Rightarrow> \<forall>p. 2 ^ k dvd p \<and> unat base + ar_off a \<le> p \<longrightarrow> unat base + SIZE < p + 2 ^ k
    | Some (start, len) \<Rightarrow> 2 ^ k dvd unat start \<and> 2 ^ k dvd unat len \<and>
        unat base + ar_off a \<le> unat start \<and> unat start < unat base + ar_off a + 2 ^ k \<and>
        unat start + unat len \<le> unat base + SIZE \<and> unat base + SIZE < unat start + unat len + 2 ^ k"
proof -
  let ?p = "2 ^ k :: nat" and ?cur = "unat base + ar_off a" and ?lim = "unat base + SIZE"
  have m: "page - 1 = mask k" by (simp add: assms(1) mask_eq_exp_minus_1)
  have p0: "0 < ?p" by simp
  let ?s = "(base + of_nat (ar_off a) + page - 1) AND NOT (page - 1)"
  have "base + of_nat (ar_off a) + page - 1 = (of_nat (?cur + (?p - 1)) :: u64)"
  proof -
    have p1: "1 \<le> ?p" by simp
    have "(of_nat (?p - 1) :: u64) = page - 1"
      unfolding of_nat_diff [OF p1] by (simp add: assms(1))
    then have "(of_nat (?cur + (?p - 1)) :: u64) = of_nat (unat base) + of_nat (ar_off a) + (page - 1)"
      by (simp only: of_nat_add)
    then show ?thesis by simp
  qed
  then have us: "unat ?s = (?cur + (?p - 1)) div ?p * ?p"
    using assms(3,4) p0 unfolding m
    by (simp only: unat_and_not_mask unat_of_nat) (simp add: take_bit_nat_eq_self)
  note r = round_up [OF p0, where n = ?cur, folded us]
  have ue: "unat (base + of_nat SIZE) = ?lim"
    using assms(4) by (simp add: unat_word_ariths unat_of_nat take_bit_nat_eq_self SIZE_def)
  have ul: "unat (saturating_sub (base + of_nat SIZE) ?s AND NOT (page - 1)) = (?lim - unat ?s) div ?p * ?p"
    by (simp only: m unat_and_not_mask unat_saturating_sub ue)
  have mac: "\<not> (macos \<and> page = 0)" using assms(1,2) by simp
  let ?len = "saturating_sub (base + of_nat SIZE) ?s AND NOT (page - 1)"
  have e: "uncommit_tail macos page base a = (if 0 < unat ?len then Some (?s, ?len) else None)"
    using mac by (simp add: uncommit_tail_def Let_def word_less_nat_alt)
  have mod: "(?lim - unat ?s) div ?p * ?p + (?lim - unat ?s) mod ?p = ?lim - unat ?s"
    by (rule div_mult_mod_eq)
  have ml: "(?lim - unat ?s) mod ?p < ?p" using p0 by simp
  show ?thesis
  proof (cases "0 < unat ?len")
    case True
    then have le: "unat ?s \<le> ?lim" unfolding ul by (cases "unat ?s \<le> ?lim") simp_all
    have "unat ?s + unat ?len \<le> ?lim" "?lim < unat ?s + unat ?len + ?p"
      unfolding ul using mod ml le by linarith+
    moreover have "?p dvd unat ?len" unfolding ul by simp
    ultimately show ?thesis unfolding e using True r(1-3) by simp
  next
    case False
    then have "?lim < unat ?s + ?p" unfolding ul using mod ml by linarith
    moreover have "unat ?s \<le> q" if "?p dvd q" "?cur \<le> q" for q using that by (rule r(5))
    ultimately show ?thesis unfolding e using False by fastforce
  qed
qed

text \<open>Pages of 4096 bytes, an arena that starts 16 bytes into a page.\<close>

theorem uncommit_tail_whole_pages_witness:
  "\<exists>start len. uncommit_tail False 4096 0x10010 \<lparr>ar_mem = (\<lambda>_. 0), ar_off = 5000\<rparr> = Some (start, len) \<and>
     unat start + unat len \<le> 65552 + SIZE \<and> 4096 dvd unat start"
proof -
  let ?a = "\<lparr>ar_mem = (\<lambda>_. 0), ar_off = 5000\<rparr>"
  have h: "(4096 :: u64) = 2 ^ 12" "(12::nat) < 32" "ar_off ?a \<le> SIZE" "unat (0x10010 :: u64) + SIZE + 2 ^ 12 \<le> 2 ^ 63"
    by (simp_all add: SIZE_def)
  have "uncommit_tail False 4096 0x10010 ?a \<noteq> None"
    by (simp add: uncommit_tail_def Let_def SIZE_def saturating_sub_def)
  with uncommit_tail_whole_pages [OF h, of False] show ?thesis by (auto split: option.splits)
qed

end
