(* ===== verification/Platform.thy ===== *)
theory Platform
  imports Collect
begin

unbundle bit_operations_syntax

text \<open>
  src/src/platform.rs: the monotonic clock, the directory iterator \<open>PidDir\<close> over the numeric entries of
  /proc and of the label directory, and the argv scan \<open>has_arg\<close>. The batches that getdents64 writes are
  an argument; the iterator's state (buffer, position, last name and start) is a record. A read outside
  the bytes the kernel wrote, and a loop that never advances, are \<open>None\<close>. The allocator and panic
  handler of the file abort the process; they have no other behaviour.
\<close>

subsection \<open>Time\<close>

definition instant_now :: "u64 \<Rightarrow> u64 \<Rightarrow> u64" where
  "instant_now tv_sec tv_nsec = tv_sec * 1000000000 + tv_nsec"

definition duration_since :: "u64 \<Rightarrow> u64 \<Rightarrow> u64" where
  "duration_since self earlier = sat_sub64 self earlier"

text \<open>The \<open>timespec\<close> that \<open>sleep\<close> passes for a duration in nanoseconds.\<close>

definition sleep_timespec :: "nat \<Rightarrow> nat \<times> nat" where
  "sleep_timespec d = (d div 1000000000, d mod 1000000000)"

subsection \<open>Names of entries\<close>

definition NO_START :: u64 where "NO_START = - 1"

definition is_ascii_digit :: "char \<Rightarrow> bool" where
  "is_ascii_digit b \<longleftrightarrow> 48 \<le> byte_of b \<and> byte_of b \<le> 57"

text \<open>The loop over a name; the end of the list is the NUL.\<close>

fun parse_entry :: "u64 \<Rightarrow> u64 \<Rightarrow> nat \<Rightarrow> string \<Rightarrow> (u64 \<times> u64) option" where
  "parse_entry n head i [] = (if i > 0 then Some (n, head) else None)"
| "parse_entry n head i (b # s) =
     (if b = CHR ''.'' \<and> head = NO_START \<and> i > 0 then parse_entry 0 n (i + 1) s
      else if is_ascii_digit b then parse_entry (n * 10 + ucast (byte_of b - 48)) head (i + 1) s
      else None)"

definition pid_entry :: "string \<Rightarrow> (u32 \<times> u64) option" where
  "pid_entry name =
     (case parse_entry 0 NO_START 0 name of
        None \<Rightarrow> None
      | Some (n, head) \<Rightarrow> if head = NO_START then Some (ucast n, NO_START) else Some (ucast head, n))"

subsection \<open>The iterator\<close>

definition DIRENT_NAME_OFFSET :: "target_os \<Rightarrow> nat" where
  "DIRENT_NAME_OFFSET os = (case os of Linux \<Rightarrow> 19 | Macos \<Rightarrow> 21)"

record pid_dir =
  pd_buf :: string
  pd_filled :: nat
  pd_pos :: nat
  pd_start :: u64
  pd_name :: string

definition pid_dir_at :: "int \<Rightarrow> pid_dir option" where
  "pid_dir_at fd =
     (if fd < 0 then None
      else Some \<lparr>pd_buf = [], pd_filled = 0, pd_pos = 0, pd_start = NO_START, pd_name = []\<rparr>)"

text \<open>A batch is what one \<open>getdents64\<close> wrote; end of directory and errors are the empty batch.\<close>

definition refill :: "string list \<Rightarrow> pid_dir \<Rightarrow> (string list \<times> pid_dir) option" where
  "refill batches d =
     (if pd_pos d \<ge> pd_filled d then
        (case batches of
           [] \<Rightarrow> None
         | b # rest \<Rightarrow>
             if b = [] then None else Some (rest, d\<lparr>pd_buf := b, pd_filled := length b, pd_pos := 0\<rparr>))
      else Some (batches, d))"

definition record_at :: "target_os \<Rightarrow> pid_dir \<Rightarrow> (nat \<times> string) option" where
  "record_at os d =
     (let ent = drop (pd_pos d) (pd_buf d);
          name = drop (DIRENT_NAME_OFFSET os) ent
      in if CHR 0x00 \<notin> set name then None
         else Some (le_nat (List.map byte_of (take 2 (drop 16 ent))), takeWhile (\<lambda>c. c \<noteq> CHR 0x00) name))"

partial_function (option) pid_next ::
  "target_os \<Rightarrow> string list \<Rightarrow> pid_dir \<Rightarrow> (u32 option \<times> string list \<times> pid_dir) option" where
  "pid_next os batches d =
     (case refill batches d of
        None \<Rightarrow> Some (None, tl batches, d)
      | Some (batches1, d1) \<Rightarrow>
          (case record_at os d1 of
             None \<Rightarrow> None
           | Some (reclen, name) \<Rightarrow>
               (case pid_entry name of
                  Some (p, st) \<Rightarrow>
                    Some (Some p, batches1, d1\<lparr>pd_pos := pd_pos d1 + reclen, pd_name := name, pd_start := st\<rparr>)
                | None \<Rightarrow> pid_next os batches1 (d1\<lparr>pd_pos := pd_pos d1 + reclen\<rparr>))))"

text \<open>\<open>while let Some(pid) = d.next()\<close>: the pid, start and name each turn of the loop sees.\<close>

partial_function (option) pid_entries ::
  "target_os \<Rightarrow> string list \<Rightarrow> pid_dir \<Rightarrow> (u32 \<times> u64 \<times> string) list option" where
  "pid_entries os batches d =
     (case pid_next os batches d of
        None \<Rightarrow> None
      | Some (r, batches1, d1) \<Rightarrow>
          (case r of
             None \<Rightarrow> Some []
           | Some p \<Rightarrow>
               Option.bind (pid_entries os batches1 d1) (\<lambda>es. Some ((p, pd_start d1, pd_name d1) # es))))"

subsection \<open>argv\<close>

text \<open>An argument is its C string, a null pointer is \<open>None\<close>.\<close>

function has_arg_loop :: "string \<Rightarrow> string \<Rightarrow> nat \<Rightarrow> bool" where
  "has_arg_loop arg flag j =
     (let a = (if j < length arg then arg ! j else CHR 0x00);
          b = (if j < length flag then flag ! j else CHR 0x00)
      in if a \<noteq> b then False else if a = CHR 0x00 then True else has_arg_loop arg flag (Suc j))"
  by pat_completeness auto
termination
  by (relation "measure (\<lambda>(arg, flag, j). length arg - j)") (auto split: if_splits)

definition has_arg :: "string option list \<Rightarrow> string \<Rightarrow> bool" where
  "has_arg argv flag \<longleftrightarrow>
     list_ex (\<lambda>p. case p of None \<Rightarrow> False | Some arg \<Rightarrow> has_arg_loop arg flag 0) (drop 1 argv)"

subsection \<open>Lemmas\<close>

declare has_arg_loop.simps [simp del]

lemma has_arg_loop_eq:
  assumes "CHR 0x00 \<notin> set arg" "CHR 0x00 \<notin> set flag"
  shows "j \<le> length arg \<Longrightarrow> j \<le> length flag \<Longrightarrow> has_arg_loop arg flag j \<longleftrightarrow> drop j arg = drop j flag"
  using assms
proof (induction arg flag j rule: has_arg_loop.induct)
  case (1 arg flag j)
  show ?case
  proof (cases "j < length arg \<and> j < length flag")
    case True
    then have nz: "arg ! j \<noteq> CHR 0x00" using 1 by (metis nth_mem)
    have d: "drop j arg = arg ! j # drop (Suc j) arg" "drop j flag = flag ! j # drop (Suc j) flag"
      using True by (simp_all add: Cons_nth_drop_Suc)
    show ?thesis
    proof (cases "arg ! j = flag ! j")
      case eq: True
      have "has_arg_loop arg flag (Suc j) \<longleftrightarrow> drop (Suc j) arg = drop (Suc j) flag"
        using 1 True nz eq by simp
      then show ?thesis unfolding d using True eq nz by (subst has_arg_loop.simps) simp
    next
      case False
      then show ?thesis unfolding d using True by (subst has_arg_loop.simps) simp
    qed
  next
    case False
    then consider "j = length arg" "j = length flag" | "j = length arg" "j < length flag" | "j < length arg" "j = length flag"
      using 1 by linarith
    then show ?thesis
    proof cases
      case 1
      then show ?thesis by (subst has_arg_loop.simps) simp
    next
      case 2
      then have "flag ! j \<noteq> CHR 0x00" using "1.prems" by (metis nth_mem)
      then show ?thesis using 2 by (subst has_arg_loop.simps) auto
    next
      case 3
      then have "arg ! j \<noteq> CHR 0x00" using "1.prems" by (metis nth_mem)
      then show ?thesis using 3 by (subst has_arg_loop.simps) auto
    qed
  qed
qed

lemma has_arg_iff:
  assumes "\<forall>a. Some a \<in> set argv \<longrightarrow> CHR 0x00 \<notin> set a" "CHR 0x00 \<notin> set flag"
  shows "has_arg argv flag \<longleftrightarrow> Some flag \<in> set (drop 1 argv)"
proof -
  have "(case p of None \<Rightarrow> False | Some arg \<Rightarrow> has_arg_loop arg flag 0) \<longleftrightarrow> p = Some flag"
    if "p \<in> set (drop 1 argv)" for p
    using that assms has_arg_loop_eq [of _ flag 0] by (auto split: option.splits dest: in_set_dropD)
  then show ?thesis by (auto simp: has_arg_def list_ex_iff)
qed

subsection \<open>Parsed names\<close>

lemma digit_char_facts:
  assumes "d < 10"
  shows "is_ascii_digit (digit_char d)" "digit_char d \<noteq> CHR ''.''" "ucast (byte_of (digit_char d) - 48) = (of_nat d :: u64)"
    "digit_char d \<noteq> CHR 0x00"
proof -
  have "\<forall>d \<in> set [0 ..< 10]. is_ascii_digit (digit_char d) \<and> digit_char d \<noteq> CHR ''.'' \<and>
      ucast (byte_of (digit_char d) - 48) = (of_nat d :: u64) \<and> digit_char d \<noteq> CHR 0x00"
    by code_simp
  moreover have "d \<in> set [0 ..< 10]" using assms by simp
  ultimately show "is_ascii_digit (digit_char d)" "digit_char d \<noteq> CHR ''.''"
    "ucast (byte_of (digit_char d) - 48) = (of_nat d :: u64)" "digit_char d \<noteq> CHR 0x00" by blast+
qed

lemma parse_entry_digit:
  "d < 10 \<Longrightarrow> parse_entry n head i (digit_char d # s) = parse_entry (n * 10 + of_nat d) head (i + 1) s"
  by (simp add: digit_char_facts)

lemma parse_entry_decimal:
  "parse_entry n head i (decimal k @ s) =
     parse_entry (n * 10 ^ length (decimal k) + of_nat k) head (i + length (decimal k)) s"
proof (induction k arbitrary: n i s rule: decimal.induct)
  case (1 k)
  show ?case
  proof (cases "k < 10")
    case True
    then show ?thesis by (subst (1 2 3) decimal.simps) (simp add: parse_entry_digit del: parse_entry.simps)
  next
    case False
    have d: "decimal k = decimal (k div 10) @ [digit_char (k mod 10)]" using False by (subst decimal.simps) simp
    have k: "of_nat k = (of_nat (k div 10) * 10 + of_nat (k mod 10) :: u64)"
      by (metis div_mult_mod_eq of_nat_add of_nat_mult of_nat_numeral)
    show ?thesis
      unfolding d by (simp add: 1 [OF False] parse_entry_digit k algebra_simps del: parse_entry.simps)
  qed
qed

lemma ucast_of_nat [simp]: "(ucast (of_nat n :: u64) :: u32) = of_nat n"
  by (rule bit_word_eqI) (simp add: bit_simps)

lemma of_nat_NO_START:
  assumes "p < 2 ^ 64 - 1"
  shows "(of_nat p :: u64) \<noteq> NO_START"
proof
  assume "(of_nat p :: u64) = NO_START"
  then have "unat (of_nat p :: u64) = unat (- 1 :: u64)" by (simp add: NO_START_def)
  then show False
    using assms by (simp add: unat_of_nat take_bit_nat_eq_self unsigned_minus_1_eq_mask mask_eq_exp_minus_1)
qed

lemma pid_entry_pid: "p < 2 ^ 64 - 1 \<Longrightarrow> pid_entry (decimal p) = Some (of_nat p, NO_START)"
  using parse_entry_decimal [of 0 NO_START 0 p "[]"]
  by (simp add: pid_entry_def decimal_nonempty)

lemma pid_entry_label:
  assumes "p < 2 ^ 64 - 1"
  shows "pid_entry (decimal p @ CHR ''.'' # decimal k) = Some (of_nat p, of_nat k)"
proof -
  have "parse_entry 0 NO_START 0 (decimal p @ CHR ''.'' # decimal k) = Some (of_nat k, of_nat p)"
    using of_nat_NO_START [OF assms] parse_entry_decimal [of 0 "of_nat p" _ k "[]"]
    by (simp add: parse_entry_decimal decimal_nonempty)
  then show ?thesis using of_nat_NO_START [OF assms] by (simp add: pid_entry_def)
qed

lemma parse_entry_chars:
  "parse_entry n head i s \<noteq> None \<Longrightarrow> \<forall>c \<in> set s. is_ascii_digit c \<or> c = CHR ''.''"
  by (induction n head i s rule: parse_entry.induct) (auto split: if_splits)

subsection \<open>A directory as the kernel writes it\<close>

record dirent =
  de_head :: string
  de_type :: string
  de_name :: string
  de_pad :: string

definition dirent_len :: "dirent \<Rightarrow> nat" where
  "dirent_len e = 18 + length (de_type e) + length (de_name e) + 1 + length (de_pad e)"

definition char_of_u8 :: "u8 \<Rightarrow> char" where "char_of_u8 b = char_of (unat b)"

definition dirent_bytes :: "dirent \<Rightarrow> string" where
  "dirent_bytes e = de_head e @ List.map char_of_u8 (le_bytes 2 (of_nat (dirent_len e) :: u16)) @ de_type e @
     de_name e @ CHR 0x00 # de_pad e"

definition dirent_ok :: "target_os \<Rightarrow> dirent \<Rightarrow> bool" where
  "dirent_ok os e \<longleftrightarrow> length (de_head e) = 16 \<and> 18 + length (de_type e) = DIRENT_NAME_OFFSET os \<and>
     CHR 0x00 \<notin> set (de_name e) \<and> dirent_len e < 2 ^ 16"

lemma length_dirent_bytes: "dirent_ok os e \<Longrightarrow> length (dirent_bytes e) = dirent_len e"
  by (simp add: dirent_ok_def dirent_bytes_def dirent_len_def)

lemma le_nat_le_bytes2: "le_nat (le_bytes 2 (w :: u16)) = unat w"
proof -
  have "le_bytes 2 w = [ucast w, ucast (drop_bit 8 w)]" by (simp add: le_bytes_def upt_rec [of _ 2])
  then have "le_nat (le_bytes 2 w) = unat w mod 256 + 256 * (unat w div 256 mod 256)"
    by (simp add: le_nat_def unsigned_ucast_eq unat_drop_bit_eq drop_bit_eq_div take_bit_eq_mod unat_div)
  moreover have "unat w div 256 < 256" using unsigned_less [where 'a = nat, of w] by (simp add: div_less_iff_less_mult)
  ultimately show ?thesis by simp
qed

lemma byte_of_char_of_u8 [simp]: "byte_of (char_of_u8 b) = b"
proof -
  have "byte_of (char_of_u8 b) = of_nat (of_char (char_of (unat b) :: char))"
    unfolding byte_of_def char_of_u8_def by (rule of_nat_of_char [symmetric])
  then show ?thesis by (simp add: unat_u8)
qed

lemma map_byte_of_char_of [simp]: "List.map byte_of (List.map char_of_u8 bs) = bs"
  by (simp add: comp_def)

lemma record_at_dirent:
  assumes "dirent_ok os e" "pd_buf d = pre @ dirent_bytes e @ post" "pd_pos d = length pre"
  shows "record_at os d = Some (dirent_len e, de_name e)"
proof -
  let ?ent = "dirent_bytes e @ post"
  have ent: "drop (pd_pos d) (pd_buf d) = ?ent" using assms(2,3) by simp
  have name: "drop (DIRENT_NAME_OFFSET os) ?ent = de_name e @ CHR 0x00 # de_pad e @ post"
    using assms(1) by (auto simp: dirent_ok_def dirent_bytes_def)
  have len: "take 2 (drop 16 ?ent) = List.map char_of_u8 (le_bytes 2 (of_nat (dirent_len e) :: u16))"
    using assms(1) by (simp add: dirent_ok_def dirent_bytes_def)
  have "takeWhile (\<lambda>c. c \<noteq> CHR 0x00) (de_name e @ CHR 0x00 # de_pad e @ post) = de_name e"
    using assms(1) by (subst takeWhile_append2) (auto simp: dirent_ok_def)
  moreover have "unat (of_nat (dirent_len e) :: u16) = dirent_len e"
    using assms(1) by (simp add: dirent_ok_def unat_of_nat take_bit_nat_eq_self)
  ultimately show ?thesis
    unfolding record_at_def Let_def ent name len by (simp add: le_nat_le_bytes2 del: List.map_map)
qed

definition seen :: "dirent list \<Rightarrow> (u32 \<times> u64 \<times> string) list" where
  "seen es = List.map_filter (\<lambda>e. map_option (\<lambda>(p, st). (p, st, de_name e)) (pid_entry (de_name e))) es"

lemma seen_simps [simp]:
  "seen [] = []"
  "seen (e # es) = (case pid_entry (de_name e) of None \<Rightarrow> seen es | Some (p, st) \<Rightarrow> (p, st, de_name e) # seen es)"
  "seen (es @ fs) = seen es @ seen fs"
  by (auto simp: seen_def List.map_filter_def split: option.splits)

text \<open>Where the iterator stands: before the records \<open>es\<close> of the current batch.\<close>

definition before :: "pid_dir \<Rightarrow> dirent list \<Rightarrow> bool" where
  "before d es \<longleftrightarrow> (\<exists>pre. pd_buf d = pre @ concat (List.map dirent_bytes es) \<and> pd_pos d = length pre \<and>
     pd_filled d = length (pd_buf d))"

lemma pid_entries_step:
  assumes "refill batches d = Some (batches1, d1)" "record_at os d1 = Some (n, name)"
  shows "pid_entries os batches d =
    (case pid_entry name of
       None \<Rightarrow> pid_entries os batches1 (d1\<lparr>pd_pos := pd_pos d1 + n\<rparr>)
     | Some (p, st) \<Rightarrow> map_option (Cons (p, st, name))
         (pid_entries os batches1 (d1\<lparr>pd_pos := pd_pos d1 + n, pd_name := name, pd_start := st\<rparr>)))"
proof -
  have "pid_next os batches d =
      (case pid_entry name of
         Some (p, st) \<Rightarrow> Some (Some p, batches1, d1\<lparr>pd_pos := pd_pos d1 + n, pd_name := name, pd_start := st\<rparr>)
       | None \<Rightarrow> pid_next os batches1 (d1\<lparr>pd_pos := pd_pos d1 + n\<rparr>))"
    by (subst pid_next.simps) (simp add: assms)
  then show ?thesis
    by (subst pid_entries.simps, subst (2) pid_entries.simps)
      (auto split: option.splits simp: map_option_case bind_eq_Some_conv)
qed

lemma pid_entries_batch:
  assumes "\<forall>e \<in> set es. dirent_ok os e"
    and "before d es"
    and IH: "\<And>d. before d [] \<Longrightarrow> pid_entries os batches d = Some rs"
  shows "pid_entries os batches d = Some (seen es @ rs)"
  using assms(1,2)
proof (induction es arbitrary: d)
  case (Cons e es)
  then obtain pre where d: "pd_buf d = pre @ dirent_bytes e @ concat (List.map dirent_bytes es)"
    "pd_pos d = length pre" "pd_filled d = length (pd_buf d)"
    by (auto simp: before_def)
  have e: "dirent_ok os e" using Cons.prems by simp
  have len: "length (dirent_bytes e) = dirent_len e" "0 < dirent_len e"
    using length_dirent_bytes [OF e] by (simp_all add: dirent_len_def)
  have ref: "refill batches d = Some (batches, d)" using d len by (simp add: refill_def)
  have adv: "before d' es"
    if "pd_buf d' = pd_buf d" "pd_filled d' = pd_filled d" "pd_pos d' = pd_pos d + dirent_len e" for d'
    unfolding before_def using d len that by (intro exI [of _ "pre @ dirent_bytes e"]) simp
  show ?case
    unfolding pid_entries_step [OF ref record_at_dirent [OF e d(1,2)]]
    using Cons.IH Cons.prems(1) adv by (simp split: option.splits)
qed (use IH in simp)

lemma pid_entries_dir:
  assumes "\<forall>b \<in> set bs. b \<noteq> [] \<and> (\<forall>e \<in> set b. dirent_ok os e)"
  shows "before d [] \<Longrightarrow>
    pid_entries os (List.map (\<lambda>b. concat (List.map dirent_bytes b)) bs @ [[]]) d = Some (seen (concat bs))"
  using assms
proof (induction bs arbitrary: d)
  case Nil
  then have "pd_pos d = pd_filled d" by (auto simp: before_def)
  then show ?case by (subst pid_entries.simps, subst pid_next.simps) (simp add: refill_def)
next
  case (Cons b bs)
  let ?k = "List.map (\<lambda>b. concat (List.map dirent_bytes b)) bs @ [[]]"
  obtain e es where b: "b = e # es" "dirent_ok os e" "\<forall>e \<in> set es. dirent_ok os e"
    using Cons.prems(2) by (cases b) auto
  obtain bytes where bytes: "bytes = concat (List.map dirent_bytes b)" by simp
  let ?d = "d\<lparr>pd_buf := bytes, pd_filled := length bytes, pd_pos := 0\<rparr>"
  have pos: "pd_pos d = pd_filled d" using Cons.prems(1) by (auto simp: before_def)
  have ne: "bytes \<noteq> []" using b by (simp add: dirent_bytes_def bytes)
  have "refill (bytes # ?k) d = Some (?k, ?d)" using pos ne by (simp add: refill_def)
  moreover have "refill ?k ?d = Some (?k, ?d)" using ne by (simp add: refill_def)
  moreover have "record_at os ?d = Some (dirent_len e, de_name e)"
    by (rule record_at_dirent [OF b(2), where pre = "[]" and post = "concat (List.map dirent_bytes es)"]) (simp_all add: b bytes)
  ultimately have "pid_entries os (bytes # ?k) d = pid_entries os ?k ?d"
    using pid_entries_step by presburger
  also have "\<dots> = Some (seen b @ seen (concat bs))"
  proof (rule pid_entries_batch)
    show "\<forall>e \<in> set b. dirent_ok os e" using b by simp
    show "before ?d b" by (simp add: before_def bytes)
    show "pid_entries os ?k d = Some (seen (concat bs))" if "before d []" for d
      using Cons.IH [OF that] Cons.prems(2) by simp
  qed
  finally show ?case by (simp add: bytes)
qed


definition sample_dirent :: "string \<Rightarrow> dirent" where
  "sample_dirent nm = \<lparr>de_head = replicate 16 CHR 0x00, de_type = [CHR 0x08], de_name = nm, de_pad = []\<rparr>"


end
