(* ===== verification/Label.thy ===== *)
theory Label
  imports Platform
begin

unbundle bit_operations_syntax

text \<open>
  src/src/label.rs: a process may name its own COMMAND cell by a file \<open><pid>.<start>\<close> in the label
  directory. Here are the choice of the directory from the environment (\<open>open_dir\<close>), the start time a
  label must match (\<open>start_time\<close>, one version per system) and \<open>apply\<close>, which shows the live labels and
  unlinks the others. What the kernel's files, directory batches and process records hold are arguments;
  the names unlinked are returned in order. A panic is \<open>None\<close>.
\<close>

subsection \<open>The directory\<close>

definition LABEL_MAX :: nat where "LABEL_MAX = 200"

text \<open>\<open>value\<close>: the rest of the C string \<open>e\<close> after \<open>key\<close>; its NUL differs from every byte of the key.\<close>

fun env_value :: "string \<Rightarrow> string \<Rightarrow> string option" where
  "env_value e [] = Some e"
| "env_value [] (k # ks) = None"
| "env_value (c # e) (k # ks) = (if c \<noteq> k then None else env_value e ks)"

fun scan_env :: "string list \<Rightarrow> string option \<Rightarrow> string option \<Rightarrow> string option \<times> string option" where
  "scan_env [] home xdg = (home, xdg)"
| "scan_env (e # es) home xdg =
     (case env_value e ''HOME='' of
        Some v \<Rightarrow> scan_env es (Some v) xdg
      | None \<Rightarrow>
          (case env_value e ''XDG_CACHE_HOME='' of
             Some v \<Rightarrow> scan_env es home (Some v)
           | None \<Rightarrow> scan_env es home xdg))"

definition REST :: string where "REST = ''.cache/ltop/status''"

definition label_base :: "string list \<Rightarrow> string option \<times> string" where
  "label_base env =
     (case scan_env env None None of (home, xdg) \<Rightarrow>
        (case xdg of
           Some x \<Rightarrow> if x \<noteq> [] then (Some x, drop 7 REST) else (home, REST)
         | None \<Rightarrow> (home, REST)))"

text \<open>\<open>open_at b rest\<close> is the descriptor \<open>openat\<close> returns, \<open>open_base\<close> that of \<open>open\<close>.\<close>

definition open_dir :: "(string \<Rightarrow> int) \<Rightarrow> (int \<Rightarrow> string \<Rightarrow> int) \<Rightarrow> string list \<Rightarrow> int" where
  "open_dir open_base open_at env =
     (case label_base env of (base, rest) \<Rightarrow>
        (case base of
           None \<Rightarrow> - 1
         | Some p \<Rightarrow> let b = open_base p in if b < 0 then b else open_at b rest))"

subsection \<open>Start times\<close>

text \<open>One read of a small file into a buffer of \<open>cap\<close> bytes.\<close>

definition read_small_file :: "(string \<Rightarrow> string option) \<Rightarrow> string \<Rightarrow> nat \<Rightarrow> string option" where
  "read_small_file files path cap =
     (case files path of
        None \<Rightarrow> None
      | Some s \<Rightarrow> let n = length (take cap s) in if n = 0 then None else Some (take cap s))"

text \<open>The loop that copies the digits before the dot; the index starts behind \<open>/proc/\<close>.\<close>

fun copy_pid :: "nat \<Rightarrow> string \<Rightarrow> string option" where
  "copy_pid i [] = None"
| "copy_pid i (c # s) =
     (if c = CHR ''.'' then Some []
      else if i > 16 then None
      else map_option (Cons c) (copy_pid (i + 1) s))"

definition start_time_linux :: "(string \<Rightarrow> string option) \<Rightarrow> u32 \<Rightarrow> string \<Rightarrow> u64 option option" where
  "start_time_linux files p name =
     (case copy_pid 6 name of
        None \<Rightarrow> Some None
      | Some ds \<Rightarrow>
          (case read_small_file files (''/proc/'' @ ds @ ''/stat'') 480 of
             None \<Rightarrow> Some None
           | Some stat \<Rightarrow>
               (case parse_stat stat of
                  None \<Rightarrow> None
                | Some (comm, after_comm) \<Rightarrow>
                    Some (Option.bind (fst (iter_nth 19 (split_ascii_whitespace after_comm))) parse_u64_ascii))))"

text \<open>\<open>bsd p\<close> is what \<open>proc_pidbsdinfo\<close> copied out.\<close>

definition start_time_macos :: "(u32 \<Rightarrow> u8 list) \<Rightarrow> u32 \<Rightarrow> string \<Rightarrow> u64 option option" where
  "start_time_macos bsd p name =
     (if length (bsd p) < 136 then Some None
      else let word = (\<lambda>o'. of_nat (le_nat (take 8 (drop o' (bsd p)))) :: u64)
           in Some (Some (word 120 * 1000000 + word 128)))"

subsection \<open>Applying the labels\<close>

text \<open>The closure that builds the cell: one line, without control bytes.\<close>

fun label_text :: "string \<Rightarrow> string" where
  "label_text [] = []"
| "label_text (c # s) =
     (if c = CHR 0x0A then []
      else if byte_of c \<ge> 32 \<and> byte_of c \<noteq> 0x7f then c # label_text s else label_text s)"

definition find_pid :: "proc_info list \<Rightarrow> u32 \<Rightarrow> nat option" where
  "find_pid procs p = List.find (\<lambda>i. pid (procs ! i) = p) [0 ..< length procs]"

definition apply_one ::
  "(u32 \<Rightarrow> string \<Rightarrow> u64 option option) \<Rightarrow> (string \<Rightarrow> string option) \<Rightarrow> u32 \<times> u64 \<times> string \<Rightarrow>
   proc_info list \<times> string list \<Rightarrow> (proc_info list \<times> string list) option" where
  "apply_one start_time readf e st =
     (case e of (p, start, name) \<Rightarrow> case st of (procs, gone) \<Rightarrow>
        if start = NO_START then Some (procs, gone)
        else case start_time p name of
          None \<Rightarrow> None
        | Some t \<Rightarrow>
            if t \<noteq> Some start then Some (procs, gone @ [name])
            else (case find_pid procs p of
                    None \<Rightarrow> Some (procs, gone)
                  | Some i \<Rightarrow>
                      (case read_small_file readf name LABEL_MAX of
                         None \<Rightarrow> Some (procs, gone)
                       | Some text \<Rightarrow>
                           Some (procs[i := (procs ! i)\<lparr>display := small_lossy (label_text text)\<rparr>], gone))))"

fun apply_all ::
  "(u32 \<Rightarrow> string \<Rightarrow> u64 option option) \<Rightarrow> (string \<Rightarrow> string option) \<Rightarrow> (u32 \<times> u64 \<times> string) list \<Rightarrow>
   proc_info list \<times> string list \<Rightarrow> (proc_info list \<times> string list) option" where
  "apply_all start_time readf [] st = Some st"
| "apply_all start_time readf (e # es) st =
     (case apply_one start_time readf e st of None \<Rightarrow> None | Some st1 \<Rightarrow> apply_all start_time readf es st1)"

text \<open>\<open>apply\<close>: \<open>fd\<close> is what opening \<open>.\<close> beneath the label directory returned.\<close>

definition label_apply ::
  "target_os \<Rightarrow> (u32 \<Rightarrow> string \<Rightarrow> u64 option option) \<Rightarrow> (string \<Rightarrow> string option) \<Rightarrow> int \<Rightarrow> string list \<Rightarrow>
   proc_info list \<Rightarrow> (proc_info list \<times> string list) option" where
  "label_apply os start_time readf fd batches procs =
     (case pid_dir_at fd of
        None \<Rightarrow> Some (procs, [])
      | Some d \<Rightarrow>
          Option.bind (pid_entries os batches d) (\<lambda>es. apply_all start_time readf es (procs, [])))"

subsection \<open>Lemmas\<close>

lemma label_text_clean: "c \<in> set (label_text s) \<Longrightarrow> 32 \<le> byte_of c \<and> byte_of c \<noteq> 0x7f"
  by (induction s) (auto split: if_splits)

lemma length_label_text: "length (label_text s) \<le> length s"
  by (induction s) auto

definition pids_once :: "proc_info list \<Rightarrow> bool" where
  "pids_once procs \<longleftrightarrow> distinct (List.map pid procs)"

lemma find_pid_Some:
  assumes "find_pid procs p = Some i"
  shows "i < length procs" "pid (procs ! i) = p"
  using assms by (auto simp: find_pid_def find_Some_iff)

lemma find_pid_None: "find_pid procs p = None \<longleftrightarrow> p \<notin> pid ` set procs"
  by (auto simp: find_pid_def find_None_iff) (metis in_set_conv_nth)

lemma pids_once_inj:
  "pids_once procs \<Longrightarrow> i < length procs \<Longrightarrow> j < length procs \<Longrightarrow> pid (procs ! i) = pid (procs ! j) \<Longrightarrow> i = j"
  by (auto simp: pids_once_def distinct_conv_nth)

text \<open>An entry names a live process, and what it says.\<close>

definition live :: "(u32 \<Rightarrow> string \<Rightarrow> u64 option option) \<Rightarrow> u32 \<times> u64 \<times> string \<Rightarrow> bool" where
  "live start_time e = (case e of (p, start, name) \<Rightarrow> start \<noteq> NO_START \<and> start_time p name = Some (Some start))"

definition stale :: "(u32 \<Rightarrow> string \<Rightarrow> u64 option option) \<Rightarrow> u32 \<times> u64 \<times> string \<Rightarrow> bool" where
  "stale start_time e = (case e of (p, start, name) \<Rightarrow> start \<noteq> NO_START \<and> start_time p name \<noteq> Some (Some start))"

definition labels_of ::
  "(u32 \<Rightarrow> string \<Rightarrow> u64 option option) \<Rightarrow> (string \<Rightarrow> string option) \<Rightarrow> u32 \<Rightarrow> (u32 \<times> u64 \<times> string) list \<Rightarrow> string list" where
  "labels_of start_time readf p es =
     List.map_filter (\<lambda>e. if fst e = p \<and> live start_time e
       then map_option label_text (read_small_file readf (snd (snd e)) LABEL_MAX) else None) es"

text \<open>What a row shows: the last label its process has, or else what it showed before.\<close>

definition labelled :: "string list \<Rightarrow> proc_info \<Rightarrow> proc_info" where
  "labelled ls k = (if ls = [] then k else k\<lparr>display := List.last ls\<rparr>)"

lemma labelled_pid [simp]: "pid (labelled ls k) = pid k" by (simp add: labelled_def)

lemma labelled_labelled: "labelled ms (labelled ls k) = labelled (ls @ ms) k"
  by (simp add: labelled_def)

lemma label_fits:
  assumes "read_small_file readf name LABEL_MAX = Some text"
  shows "length (label_text text) \<le> LABEL_MAX" "small_lossy (label_text text) = label_text text"
proof -
  have "length text \<le> LABEL_MAX"
    using assms by (auto simp: read_small_file_def Let_def split: option.splits if_splits)
  then show l: "length (label_text text) \<le> LABEL_MAX" using length_label_text order_trans by blast
  then show "small_lossy (label_text text) = label_text text" by (simp add: small_lossy_def LABEL_MAX_def)
qed

lemma labels_of_clean:
  assumes "t \<in> set (labels_of start_time readf p es)"
  shows "length t \<le> LABEL_MAX \<and> (\<forall>c \<in> set t. 32 \<le> byte_of c \<and> byte_of c \<noteq> 0x7f)"
  using assms label_fits(1) label_text_clean
  by (fastforce simp: labels_of_def List.map_filter_def split: if_splits)

lemma apply_one_spec:
  assumes "pids_once procs" "fst (snd e) \<noteq> NO_START \<Longrightarrow> start_time (fst e) (snd (snd e)) \<noteq> None"
  shows "apply_one start_time readf e (procs, gone) =
    Some (List.map (\<lambda>k. labelled (labels_of start_time readf (pid k) [e]) k) procs,
      gone @ (if stale start_time e then [snd (snd e)] else []))"
proof -
  obtain p start name where e: "e = (p, start, name)" by (cases e)
  have none: "List.map (\<lambda>k. labelled (labels_of start_time readf (pid k) [e]) k) procs = procs"
    if "\<And>k. k \<in> set procs \<Longrightarrow> labels_of start_time readf (pid k) [e] = []"
    using that by (simp add: labelled_def map_idI)
  show ?thesis
  proof (cases "live start_time e")
    case False
    then show ?thesis
      using assms(2) none
      by (cases "start = NO_START") (auto simp: apply_one_def stale_def live_def labels_of_def e split: option.splits)
  next
    case True
    show ?thesis
    proof (cases "find_pid procs p")
      case None
      then have "labels_of start_time readf (pid k) [e] = []" if "k \<in> set procs" for k
        using that by (auto simp: find_pid_None labels_of_def e)
      then have "List.map (\<lambda>k. labelled (labels_of start_time readf (pid k) [e]) k) procs = procs" by (rule none)
      with None True show ?thesis by (auto simp: apply_one_def live_def stale_def e)
    next
      case (Some i)
      note i = find_pid_Some [OF Some]
      show ?thesis
      proof (cases "read_small_file readf name LABEL_MAX")
        case None
        then have "labels_of start_time readf (pid k) [e] = []" for k by (simp add: labels_of_def e)
        then have "List.map (\<lambda>k. labelled (labels_of start_time readf (pid k) [e]) k) procs = procs" by (rule none)
        with None True Some show ?thesis by (auto simp: apply_one_def live_def stale_def e)
      next
        case (Some content)
        have "labels_of start_time readf q [e] = (if q = p then [label_text content] else [])" for q
          using True Some by (simp add: labels_of_def e)
        then have "List.map (\<lambda>k. labelled (labels_of start_time readf (pid k) [e]) k) procs =
            procs[i := (procs ! i)\<lparr>display := label_text content\<rparr>]"
          using i pids_once_inj [OF assms(1)]
          by (intro nth_equalityI) (auto simp: labelled_def nth_update_if)
        with \<open>find_pid procs p = Some i\<close> True Some label_fits(2) [OF Some] show ?thesis
          by (auto simp: apply_one_def live_def stale_def e)
      qed
    qed
  qed
qed

lemma labels_of_Cons:
  "labels_of start_time readf p (e # es) = labels_of start_time readf p [e] @ labels_of start_time readf p es"
  by (simp add: labels_of_def List.map_filter_def)

lemma apply_all_spec:
  assumes "pids_once procs" "\<forall>(p, start, name) \<in> set es. start \<noteq> NO_START \<longrightarrow> start_time p name \<noteq> None"
  shows "apply_all start_time readf es (procs, gone) =
    Some (List.map (\<lambda>k. labelled (labels_of start_time readf (pid k) es) k) procs,
      gone @ List.map (snd \<circ> snd) (List.filter (stale start_time) es))"
  using assms
proof (induction es arbitrary: procs gone)
  case Nil
  then show ?case by (simp add: labels_of_def labelled_def)
next
  case (Cons e es)
  let ?procs = "List.map (\<lambda>k. labelled (labels_of start_time readf (pid k) [e]) k) procs"
  have one: "apply_one start_time readf e (procs, gone) =
      Some (?procs, gone @ (if stale start_time e then [snd (snd e)] else []))"
    using Cons.prems by (intro apply_one_spec) (auto split: prod.splits)
  have "pids_once ?procs" using Cons.prems by (simp add: pids_once_def comp_def)
  note all = Cons.IH [OF this, of "gone @ (if stale start_time e then [snd (snd e)] else [])"]
  show ?case
    unfolding apply_all.simps one option.case using Cons.prems(2) all
    by (simp add: comp_def labelled_labelled flip: labels_of_Cons)
qed

text \<open>C25: on a directory whose entries \<open>es\<close> the iterator yields, exactly the rows of processes that have
  a live label (a file whose pid and start time are the running process's) change, only in their
  display, to the last such label; exactly the files whose process is gone or has another start time are
  unlinked, in directory order; and a shown label has at most 200 bytes, no newline, no escape and no
  other control byte.\<close>

theorem label_apply_correct:
  assumes "pids_once procs" "pid_dir_at fd = Some d" "pid_entries os batches d = Some es"
    and "\<forall>(p, start, name) \<in> set es. start \<noteq> NO_START \<longrightarrow> start_time p name \<noteq> None"
  shows "label_apply os start_time readf fd batches procs =
      Some (List.map (\<lambda>k. labelled (labels_of start_time readf (pid k) es) k) procs,
        List.map (snd \<circ> snd) (List.filter (stale start_time) es)) \<and>
    (\<forall>p t. t \<in> set (labels_of start_time readf p es) \<longrightarrow>
       length t \<le> LABEL_MAX \<and> (\<forall>c \<in> set t. 32 \<le> byte_of c \<and> byte_of c \<noteq> 0x7f))"
  using apply_all_spec [OF assms(1,4), where readf = readf and gone = "[]"] labels_of_clean
  by (auto simp: label_apply_def assms(2,3))

theorem label_apply_correct_witness:
  "map_option (\<lambda>(procs, gone). (List.map display procs, gone))
     (label_apply Linux (\<lambda>p name. Some (if p = 7 then Some 5 else None)) (\<lambda>name. Some (''ok'' @ [CHR 0x1B, CHR 0x0A])) 3
        [concat (List.map dirent_bytes [sample_dirent ''7.5'', sample_dirent ''8.5'']), []]
        [proc_default\<lparr>pid := 7\<rparr>, proc_default\<lparr>pid := 9\<rparr>]) = Some ([''ok'', []], [''8.5''])"
proof -
  let ?st = "\<lambda>(p :: u32) (name :: string). Some (if p = 7 then Some (5 :: u64) else None)"
  obtain d where d: "pid_dir_at 3 = Some d" and b: "before d []" by (simp add: pid_dir_at_def before_def)
  have ok: "\<forall>b \<in> set [[sample_dirent ''7.5'', sample_dirent ''8.5'']]. b \<noteq> [] \<and> (\<forall>e \<in> set b. dirent_ok Linux e)"
    by (simp add: sample_dirent_def dirent_ok_def dirent_len_def DIRENT_NAME_OFFSET_def)
  have "pid_entry ''7.5'' = Some (7, 5)" "pid_entry ''8.5'' = Some (8, 5)" by code_simp+
  then have es: "pid_entries Linux [concat (List.map dirent_bytes [sample_dirent ''7.5'', sample_dirent ''8.5'']), []] d
      = Some [(7, 5, ''7.5''), (8, 5, ''8.5'')]"
    using pid_entries_dir [OF ok b] by (simp add: sample_dirent_def)
  let ?es = "[(7, 5, ''7.5''), (8, 5, ''8.5'')] :: (u32 \<times> u64 \<times> string) list"
  let ?f = "\<lambda>name :: string. Some (''ok'' @ [CHR 0x1B, CHR 0x0A])"
  have l: "labels_of ?st ?f 7 ?es = [''ok'']" "labels_of ?st ?f 9 ?es = []"
    "List.filter (stale ?st) ?es = [(8, 5, ''8.5'')]" by code_simp+
  have "pids_once [proc_default\<lparr>pid := 7\<rparr>, proc_default\<lparr>pid := 9\<rparr>]" by (simp add: pids_once_def)
  from conjunct1 [OF label_apply_correct [OF this d es, of ?st ?f]] show ?thesis
    by (simp only: list.map l labelled_def proc_default_def proc_info.simps) (simp add: live_def NO_START_def)
qed

text \<open>The iterator reads \<open>123.\<close> as pid 123 with start 0: such a file counts as a stale label.\<close>

lemma bare_dot_is_label: "pid_entry ''123.'' = Some (123, 0)"
  by code_simp

end
