(* ===== verification/Gpu.thy ===== *)
theory Gpu
  imports Render Label "HOL-Library.Sublist"
begin

unbundle bit_operations_syntax

text \<open>
  The GPU figures: src/src/gpu/mod.rs (the per-tick snapshot, what a row shows of it, the header cell)
  and src/src/gpu/rm.rs (the NVIDIA resource manager client: opening the driver, and the per-tick
  aggregation of memory, utilisation and per-process figures over all GPUs). What the driver answers to
  an ioctl is an argument, \<open>None\<close> when the call or its status failed.
\<close>

subsection \<open>The snapshot\<close>

record gpu_proc =
  gp_sm_pct :: u32
  gp_mem_mib :: u32

record gpu_info =
  gi_procs :: "(u32 \<times> gpu_proc) list"
  gi_total_util :: u32
  gi_total_used_mib :: u64
  gi_total_mib :: u64
  gi_n_gpus :: u32

definition gi_mem_frac :: "gpu_info \<Rightarrow> f64" where
  "gi_mem_frac gi =
     (if gi_total_mib gi > 0
      then f64_div (f64_of_nat (unat (gi_total_used_mib gi))) (f64_of_nat (unat (gi_total_mib gi))) else 0)"

text \<open>\<open>usage\<close>: on macOS there is no memory field; it is kept at 0 here.\<close>

definition gi_usage :: "target_os \<Rightarrow> gpu_info \<Rightarrow> u32 \<Rightarrow> gpu_usage option" where
  "gi_usage os gi p =
     (case map_get (gi_procs gi) p of
        None \<Rightarrow> None
      | Some gp \<Rightarrow>
          (case os of
             Macos \<Rightarrow> if gp_sm_pct gp > 0 then Some \<lparr>sm_pct = gp_sm_pct gp, mem_mib = 0\<rparr> else None
           | Linux \<Rightarrow> if gp_mem_mib gp \<noteq> 0 then Some \<lparr>sm_pct = gp_sm_pct gp, mem_mib = gp_mem_mib gp\<rparr> else None))"

definition put_gpu_info :: "target_os \<Rightarrow> gpu_info \<Rightarrow> wcall list" where
  "put_gpu_info os gi =
     (if gi_n_gpus gi = 0 then [PutByte (CHR ''?'')]
      else let gib = (\<lambda>mib. f64_div (f64_of_nat (unat mib)) 1024)
           in put_u32d (gi_total_util gi div gi_n_gpus gi) @ put_str ''%  '' @ f1_wide (gib (gi_total_used_mib gi)) 0 @
              (case os of
                 Linux \<Rightarrow> put_str ''G / '' @ f1_wide (gib (gi_total_mib gi)) 0 @ put_str ''G''
               | Macos \<Rightarrow> put_str ''G active''))"

text \<open>\<open>collect\<close> wraps what the backend's \<open>populate\<close> returned.\<close>

definition gpu_collect :: "(u32 \<times> gpu_proc) list \<times> (u32 \<times> u32 \<times> u64 \<times> u64) \<Rightarrow> gpu_info" where
  "gpu_collect r =
     (case r of (entries, n, util, used, total_m) \<Rightarrow>
        \<lparr>gi_procs = entries, gi_total_util = util, gi_total_used_mib = used, gi_total_mib = total_m, gi_n_gpus = n\<rparr>)"

subsection \<open>Opening the driver\<close>

definition NV_IOCTL_MAGIC :: u32 where "NV_IOCTL_MAGIC = 0x46"
definition NV_ESC_RM_ALLOC :: u32 where "NV_ESC_RM_ALLOC = 0x2B"
definition NV_ESC_RM_CONTROL :: u32 where "NV_ESC_RM_CONTROL = 0x2A"
definition NV_IOCTL_BASE :: u32 where "NV_IOCTL_BASE = 200"
definition NV_ESC_CARD_INFO :: u32 where "NV_ESC_CARD_INFO = NV_IOCTL_BASE + 0"
definition NV_ESC_CHECK_VERSION_STR :: u32 where "NV_ESC_CHECK_VERSION_STR = NV_IOCTL_BASE + 10"

definition iowr :: "u32 \<Rightarrow> u32 \<Rightarrow> u32 \<Rightarrow> u64" where
  "iowr magic nr sz = ucast (((push_bit 30 3 OR push_bit 16 sz) OR push_bit 8 magic) OR nr)"

definition device_handle :: "u32 \<Rightarrow> u32" where "device_handle i = 0xc1d00100 OR (i AND 0xff)"
definition subdevice_handle :: "u32 \<Rightarrow> u32" where "subdevice_handle i = 0xc1d00200 OR (i AND 0xff)"

text \<open>The version token of the driver's version file, cut to the 63 bytes the ioctl takes.\<close>

definition driver_version :: "string \<Rightarrow> string option" where
  "driver_version content =
     List.find (\<lambda>t. (case t of [] \<Rightarrow> False | x # _ \<Rightarrow> is_ascii_digit x) \<and> CHR ''.'' \<in> set t)
       (split_ascii_whitespace content)"

definition check_version :: "(string \<Rightarrow> string option) \<Rightarrow> (string \<Rightarrow> bool) \<Rightarrow> bool" where
  "check_version files version_ok =
     (case read_small_file files ''/proc/driver/nvidia/version'' 256 of
        None \<Rightarrow> False
      | Some content \<Rightarrow>
          (case driver_version content of None \<Rightarrow> False | Some v \<Rightarrow> version_ok (take (64 - 1) v)))"

text \<open>The reply of CARD_INFO: per entry its valid byte and its minor.\<close>

fun attached_gpu_minors :: "(u8 \<times> u32) list \<Rightarrow> u32 list" where
  "attached_gpu_minors [] = []"
| "attached_gpu_minors ((valid, minor) # cards) =
     (if valid \<noteq> 0 then minor # attached_gpu_minors cards else attached_gpu_minors cards)"

text \<open>\<open>CharBuf\<close>: the bounded writer over the path buffer.\<close>

record char_buf =
  cb_cap :: nat
  cb_bytes :: string

definition cb_put_bytes :: "char_buf \<Rightarrow> string \<Rightarrow> char_buf" where
  "cb_put_bytes w b =
     (if length (cb_bytes w) + length b > cb_cap w then w else w\<lparr>cb_bytes := cb_bytes w @ b\<rparr>)"

definition cb_put_byte :: "char_buf \<Rightarrow> char \<Rightarrow> char_buf" where
  "cb_put_byte w c = (if length (cb_bytes w) < cb_cap w then w\<lparr>cb_bytes := cb_bytes w @ [c]\<rparr> else w)"

text \<open>The path as \<open>CStr::from_ptr\<close> reads it back from the buffer.\<close>

definition device_path :: "u32 \<Rightarrow> string" where
  "device_path minor =
     takeWhile (\<lambda>c. c \<noteq> CHR 0x00)
       (cb_bytes (run_put cb_put_bytes cb_put_byte (put_str ''/dev/nvidia'' @ put_u32d minor @ put_str [CHR 0x00])
         \<lparr>cb_cap = 32, cb_bytes = []\<rparr>))"

record rm_kernel =
  rk_open :: "string \<Rightarrow> int"
  rk_files :: "string \<Rightarrow> string option"
  rk_version_ok :: "string \<Rightarrow> bool"
  rk_cards :: "(u8 \<times> u32) list option"
  rk_root :: "u32 option"
  rk_device :: "u32 \<Rightarrow> bool"
  rk_subdevice :: "u32 \<Rightarrow> bool"

record rm_state =
  rs_ctl_fd :: "int option"
  rs_client :: u32
  rs_gpus :: "(int \<times> u32) list"

text \<open>The loop over the GPUs: the devices so far, or the descriptors its early return closes
  (\<open>FdGuard::drop\<close>): the one just opened, then those of the reserve, last one first.\<close>

fun open_gpus :: "rm_kernel \<Rightarrow> nat \<Rightarrow> u32 list \<Rightarrow> (int \<times> u32) list \<Rightarrow> int list + (int \<times> u32) list" where
  "open_gpus k i [] gpus = Inr gpus"
| "open_gpus k i (minor # minors) gpus =
     (let dev_fd = rk_open k (device_path minor) in
      if dev_fd < 0 then Inl (rev (List.map fst gpus))
      else if \<not> rk_device k (of_nat i) \<or> \<not> rk_subdevice k (of_nat i)
      then Inl (dev_fd # rev (List.map fst gpus))
      else open_gpus k (i + 1) minors (gpus @ [(dev_fd, subdevice_handle (of_nat i))]))"

text \<open>\<open>init\<close>: the state, and what it closed on the way.\<close>

definition rm_no_gpu :: rm_state where
  "rm_no_gpu = \<lparr>rs_ctl_fd = None, rs_client = 0, rs_gpus = []\<rparr>"

definition rm_init :: "rm_kernel \<Rightarrow> rm_state \<times> int list" where
  "rm_init k =
     (let fd = rk_open k ''/dev/nvidiactl'' in
      if fd < 0 then (rm_no_gpu, [])
      else if \<not> check_version (rk_files k) (rk_version_ok k) then (rm_no_gpu, [fd])
      else case rk_cards k of
        None \<Rightarrow> (rm_no_gpu, [fd])
      | Some cards \<Rightarrow>
          (case rk_root k of
             None \<Rightarrow> (rm_no_gpu, [fd])
           | Some client \<Rightarrow>
               (case open_gpus k 0 (attached_gpu_minors cards) [] of
                  Inl fds \<Rightarrow> (rm_no_gpu, fds @ [fd])
                | Inr gpus \<Rightarrow> (\<lparr>rs_ctl_fd = Some fd, rs_client = client, rs_gpus = gpus\<rparr>, []))))"

definition rm_has_gpu :: "rm_state \<Rightarrow> bool" where "rm_has_gpu s \<longleftrightarrow> rs_gpus s \<noteq> []"

subsection \<open>One tick\<close>

definition RING :: nat where "RING = 72"
definition PID_INFO_MAX_COUNT :: nat where "PID_INFO_MAX_COUNT = 200"
definition MAX_PROCS_PER_GPU :: nat where "MAX_PROCS_PER_GPU = 1 + PID_INFO_MAX_COUNT"

text \<open>The answers about one GPU: total and free memory in KiB; the sample count and ring of
  (process, utilisation); the count and table of pids; per pid of the request the memory it owns.\<close>

record rm_gpu =
  rg_fb :: "(u32 \<times> u32) option"
  rg_util :: "(u32 \<times> (u32 \<times> u32) list) option"
  rg_pids :: "(u32 \<times> u32 list) option"
  rg_mem :: "u32 list \<Rightarrow> u64 list option"

definition fb_memory :: "rm_gpu \<Rightarrow> (u64 \<times> u64) option" where
  "fb_memory g =
     map_option (\<lambda>(total_kib, free_kib).
       (drop_bit 10 (sat_sub64 (ucast total_kib) (ucast free_kib)), drop_bit 10 (ucast total_kib))) (rg_fb g)"

text \<open>The utilisation, and the process to credit it to.\<close>

definition perfmon_util :: "rm_gpu \<Rightarrow> u32 \<times> (u32 \<times> u32) option" where
  "perfmon_util g =
     (case rg_util g of
        None \<Rightarrow> (0, None)
      | Some (cnt, samples) \<Rightarrow>
          let n = min (unat cnt) RING in
          if n = 0 then (0, None)
          else let (proc_id, util) = samples ! (n - 1); pct = util div 100
               in (pct, if proc_id \<noteq> 0 then Some (proc_id, pct) else None))"

text \<open>\<open>proc_memory\<close>: the entries it pushes.\<close>

definition proc_memory :: "rm_gpu \<Rightarrow> (u32 \<times> gpu_proc) list" where
  "proc_memory g =
     (case rg_pids g of
        None \<Rightarrow> []
      | Some (cnt, tbl) \<Rightarrow>
          let n = min (unat cnt) PID_INFO_MAX_COUNT in
          if n = 0 then []
          else (case rg_mem g (take n tbl) of
                  None \<Rightarrow> []
                | Some owned \<Rightarrow>
                    List.map (\<lambda>(p, bytes). (p, \<lparr>gp_sm_pct = 0, gp_mem_mib = ucast (drop_bit 20 bytes)\<rparr>))
                      (List.filter (\<lambda>(p, bytes). (ucast (drop_bit 20 bytes) :: u32) > 0) (zip (take n tbl) owned))))"

definition push_all :: "'a list \<Rightarrow> 'a fvec \<Rightarrow> 'a fvec" where
  "push_all xs v = foldl fvec_push_ignore v xs"

definition merge_gpu :: "gpu_proc \<Rightarrow> gpu_proc \<Rightarrow> gpu_proc" where
  "merge_gpu a b = \<lparr>gp_sm_pct = gp_sm_pct a + gp_sm_pct b, gp_mem_mib = gp_mem_mib a + gp_mem_mib b\<rparr>"

definition rm_populate :: "rm_state \<Rightarrow> rm_gpu list \<Rightarrow> (u32 \<times> gpu_proc) list \<times> (u32 \<times> u32 \<times> u64 \<times> u64)" where
  "rm_populate s gpus =
     (case rs_ctl_fd s of
        None \<Rightarrow> ([], (0, 0, 0, 0))
      | Some fd \<Rightarrow>
          let valid = List.filter (\<lambda>g. fb_memory g \<noteq> None) gpus;
              fbs = List.map_filter fb_memory gpus;
              used = foldl (\<lambda>t (u, _). t + u) 0 fbs;
              total_m = foldl (\<lambda>t (_, m). t + m) 0 fbs;
              util = foldl (\<lambda>t g. t + fst (perfmon_util g)) 0 valid;
              n_gpus = length valid;
              buf = fvec_new (n_gpus * MAX_PROCS_PER_GPU);
              buf = push_all (List.map (\<lambda>(p, pct). (p, \<lparr>gp_sm_pct = pct, gp_mem_mib = 0\<rparr>))
                      (List.map_filter (\<lambda>g. snd (perfmon_util g)) valid)) buf;
              buf = foldl (\<lambda>b g. push_all (proc_memory g) b) buf valid
          in (freeze_map merge_gpu (fv_elems buf), (of_nat n_gpus, util, used, total_m)))"

subsection \<open>Opening: lemmas\<close>

lemma plain_decimal: "CHR 0x00 \<notin> set (decimal n)"
  using decimal_chars [of _ n] digit_char_facts(4) by fastforce

lemma cb_run_put_fits:
  "length (cb_bytes w) + length (flat cs) \<le> cb_cap w \<Longrightarrow>
   run_put cb_put_bytes cb_put_byte cs w = w\<lparr>cb_bytes := cb_bytes w @ flat cs\<rparr>"
proof (induction cs arbitrary: w)
  case (Cons c cs)
  have "run_call cb_put_bytes cb_put_byte w c = w\<lparr>cb_bytes := cb_bytes w @ wcall_bytes c\<rparr>"
    using Cons.prems by (cases c) (simp_all add: run_call_def cb_put_bytes_def cb_put_byte_def)
  with Cons.IH [of "w\<lparr>cb_bytes := cb_bytes w @ wcall_bytes c\<rparr>"] Cons.prems show ?case
    by (simp add: run_put_def)
qed (simp add: run_put_def)

lemma device_path: "device_path minor = ''/dev/nvidia'' @ decimal (unat minor)"
proof -
  have "length (decimal (unat minor)) \<le> 10" using unat_u32 [of minor] by (intro length_decimal_le) simp_all
  then have "cb_bytes (run_put cb_put_bytes cb_put_byte (put_str ''/dev/nvidia'' @ put_u32d minor @ put_str [CHR 0x00])
         \<lparr>cb_cap = 32, cb_bytes = []\<rparr>) = ''/dev/nvidia'' @ decimal (unat minor) @ [CHR 0x00]"
    by (subst cb_run_put_fits) (simp_all add: put_u32d_def flat_write_u32)
  then show ?thesis using plain_decimal [of "unat minor"] by (simp add: device_path_def takeWhile_append)
qed

lemma open_gpus_cases:
  "case open_gpus k i minors gpus of
     Inr gs \<Rightarrow> gs = gpus @ List.map (\<lambda>(j, m). (rk_open k (device_path m), subdevice_handle (of_nat j))) (List.enumerate i minors) \<and>
       (\<forall>m \<in> set minors. 0 \<le> rk_open k (device_path m))
   | Inl fds \<Rightarrow> \<exists>n \<le> length minors.
       fds = rev (List.map fst gpus @ List.map (\<lambda>m. rk_open k (device_path m)) (take n minors)) \<and>
       (\<forall>m \<in> set (take n minors). 0 \<le> rk_open k (device_path m))"
proof (induction k i minors gpus rule: open_gpus.induct)
  case (2 k i minor minors gpus)
  show ?case
  proof (cases "rk_open k (device_path minor) < 0")
    case True
    then show ?thesis by (auto simp: Let_def intro!: exI [of _ 0])
  next
    case fd: False
    show ?thesis
    proof (cases "\<not> rk_device k (of_nat i) \<or> \<not> rk_subdevice k (of_nat i)")
      case True
      with fd show ?thesis by (auto simp: Let_def intro!: exI [of _ 1])
    next
      case False
      let ?gs = "gpus @ [(rk_open k (device_path minor), subdevice_handle (of_nat i))]"
      have "open_gpus k i (minor # minors) gpus = open_gpus k (i + 1) minors ?gs"
        using fd False by (simp add: Let_def)
      moreover note IH = "2.IH" [OF refl fd False]
      ultimately show ?thesis
      proof (cases "open_gpus k (i + 1) minors ?gs")
        case (Inl fds)
        with IH obtain n where "n \<le> length minors"
          "fds = rev (List.map fst ?gs @ List.map (\<lambda>m. rk_open k (device_path m)) (take n minors))"
          "\<forall>m \<in> set (take n minors). 0 \<le> rk_open k (device_path m)" by auto
        with Inl fd False show ?thesis by (auto simp: Let_def intro!: exI [of _ "Suc n"])
      next
        case (Inr gs)
        with IH fd False show ?thesis by (auto simp: Let_def)
      qed
    qed
  qed
qed simp

subsection \<open>One tick: lemmas\<close>

lemma push_all_elems:
  "length (fv_elems v) + length xs \<le> fv_capacity v \<Longrightarrow>
   push_all xs v = v\<lparr>fv_elems := fv_elems v @ xs\<rparr>"
proof (induction xs arbitrary: v)
  case (Cons x xs)
  then have "fvec_push_ignore v x = v\<lparr>fv_elems := fv_elems v @ [x]\<rparr>" by (simp add: fvec_defs)
  with Cons.IH [of "v\<lparr>fv_elems := fv_elems v @ [x]\<rparr>"] Cons.prems show ?case by (simp add: push_all_def)
qed (simp add: push_all_def)

lemma length_proc_memory: "length (proc_memory g) \<le> PID_INFO_MAX_COUNT"
  by (auto simp: proc_memory_def Let_def split: option.splits intro: order_trans [OF length_filter_le])

lemma foldl_push_all:
  "length (fv_elems v) + sum_list (List.map (\<lambda>g. length (f g)) gs) \<le> fv_capacity v \<Longrightarrow>
   foldl (\<lambda>b g. push_all (f g) b) v gs = v\<lparr>fv_elems := fv_elems v @ concat (List.map f gs)\<rparr>"
proof (induction gs arbitrary: v)
  case (Cons g gs)
  have "push_all (f g) v = v\<lparr>fv_elems := fv_elems v @ f g\<rparr>" using Cons.prems by (intro push_all_elems) simp
  with Cons.IH [of "v\<lparr>fv_elems := fv_elems v @ f g\<rparr>"] Cons.prems show ?case by (simp add: add.assoc)
qed simp

text \<open>What all the GPUs report about processes.\<close>

definition gpu_reports :: "rm_gpu list \<Rightarrow> (u32 \<times> gpu_proc) list" where
  "gpu_reports gpus =
     (let valid = List.filter (\<lambda>g. fb_memory g \<noteq> None) gpus
      in List.map (\<lambda>(p, pct). (p, \<lparr>gp_sm_pct = pct, gp_mem_mib = 0\<rparr>))
           (List.map_filter (\<lambda>g. snd (perfmon_util g)) valid) @ concat (List.map proc_memory valid))"

lemma length_map_filter: "length (List.map_filter f xs) \<le> length xs"
  by (simp add: List.map_filter_def)

lemma rm_populate_reports:
  assumes "rs_ctl_fd s = Some fd"
  shows "fst (rm_populate s gpus) = freeze_map merge_gpu (gpu_reports gpus)"
proof -
  let ?v = "List.filter (\<lambda>g. fb_memory g \<noteq> None) gpus"
  let ?s = "List.map (\<lambda>(p, pct). (p, \<lparr>gp_sm_pct = pct, gp_mem_mib = 0 :: u32\<rparr>)) (List.map_filter (\<lambda>g. snd (perfmon_util g)) ?v)"
  have "sum_list (List.map (\<lambda>g. length (proc_memory g)) ?v) \<le> length ?v * PID_INFO_MAX_COUNT"
    using sum_list_mono [of ?v "\<lambda>g. length (proc_memory g)" "\<lambda>_. PID_INFO_MAX_COUNT"] length_proc_memory
    by (simp add: sum_list_triv)
  moreover have "length ?s \<le> length ?v" using length_map_filter [of "\<lambda>g. snd (perfmon_util g)" ?v] by simp
  ultimately have cap: "length ?s + sum_list (List.map (\<lambda>g. length (proc_memory g)) ?v) \<le> length ?v * MAX_PROCS_PER_GPU"
    by (simp add: MAX_PROCS_PER_GPU_def)
  have "push_all ?s (fvec_new (length ?v * MAX_PROCS_PER_GPU)) =
      \<lparr>fv_capacity = length ?v * MAX_PROCS_PER_GPU, fv_elems = ?s\<rparr>"
    using cap by (subst push_all_elems) (simp_all add: fvec_new_def)
  then show ?thesis
    using cap foldl_push_all [of "\<lparr>fv_capacity = length ?v * MAX_PROCS_PER_GPU, fv_elems = ?s\<rparr>" proc_memory ?v]
    by (simp add: rm_populate_def assms Let_def gpu_reports_def)
qed

lemma foldl_merge_gpu:
  "foldl merge_gpu v vs =
     \<lparr>gp_sm_pct = gp_sm_pct v + sum_list (List.map gp_sm_pct vs), gp_mem_mib = gp_mem_mib v + sum_list (List.map gp_mem_mib vs)\<rparr>"
  by (induction vs arbitrary: v) (simp_all add: merge_gpu_def add.assoc)

lemma merged_gpu:
  "merged merge_gpu vs = (if vs = [] then None
     else Some \<lparr>gp_sm_pct = sum_list (List.map gp_sm_pct vs), gp_mem_mib = sum_list (List.map gp_mem_mib vs)\<rparr>)"
  by (cases vs) (simp_all add: merged_def foldl_merge_gpu)

lemma sum_list_mset_cong: "mset xs = mset ys \<Longrightarrow> sum_list (List.map f xs) = (sum_list (List.map f ys) :: 'a :: comm_monoid_add)"
  by (metis mset_map sum_mset_sum_list)

lemma freeze_gpu_get:
  "map_get (freeze_map merge_gpu es) p = (let vs = values_at p es in if vs = [] then None
     else Some \<lparr>gp_sm_pct = sum_list (List.map gp_sm_pct vs), gp_mem_mib = sum_list (List.map gp_mem_mib vs)\<rparr>)"
proof -
  have m: "mset (values_at p (sort_by_u32_key fst es)) = mset (values_at p es)" by (rule mset_values_at)
  then have "values_at p (sort_by_u32_key fst es) = [] \<longleftrightarrow> values_at p es = []" by (metis mset_zero_iff)
  then show ?thesis
    using sum_list_mset_cong [OF m, of gp_sm_pct] sum_list_mset_cong [OF m, of gp_mem_mib]
    by (simp add: freeze_map_get merged_gpu Let_def)
qed

lemma foldl_plus_fst: "foldl (\<lambda>t (u, _). t + u) a xs = (a :: 'a :: comm_monoid_add) + sum_list (List.map fst xs)"
  by (induction xs arbitrary: a) (auto simp: add.assoc)

lemma foldl_plus_snd: "foldl (\<lambda>t (_, u). t + u) a xs = (a :: 'a :: comm_monoid_add) + sum_list (List.map snd xs)"
  by (induction xs arbitrary: a) (auto simp: add.assoc)

lemma foldl_plus_map: "foldl (\<lambda>t g. t + f g) a xs = (a :: 'a :: comm_monoid_add) + sum_list (List.map f xs)"
  by (induction xs arbitrary: a) (auto simp: add.assoc)

subsection \<open>Properties\<close>


definition sample_rm :: rm_kernel where
  "sample_rm = \<lparr>rk_open = (\<lambda>p. if p = ''/dev/nvidia1'' then - 13 else 3), rk_files = (\<lambda>_. Some ''v 570.1''),
     rk_version_ok = (\<lambda>_. True), rk_cards = Some [(1, 0), (0, 9), (1, 1)], rk_root = Some 5,
     rk_device = (\<lambda>_. True), rk_subdevice = (\<lambda>_. True)\<rparr>"


text \<open>C28: the per-tick snapshot adds up what all answering GPUs report, without its buffer ever
  overflowing: a process is found with the sums of its utilisation and memory over all reports about
  it, and not found when there is none; a GPU whose memory query fails counts for nothing.\<close>

theorem rm_populate_sums:
  assumes "rs_ctl_fd s = Some fd" "rm_populate s gpus = (entries, n, util, used, total_m)"
  shows "sorted_wrt (<) (List.map fst entries) \<and>
    map_get entries p = (let vs = values_at p (gpu_reports gpus) in if vs = [] then None
      else Some \<lparr>gp_sm_pct = sum_list (List.map gp_sm_pct vs), gp_mem_mib = sum_list (List.map gp_mem_mib vs)\<rparr>) \<and>
    (let valid = List.filter (\<lambda>g. fb_memory g \<noteq> None) gpus
     in n = of_nat (length valid) \<and> util = sum_list (List.map (fst \<circ> perfmon_util) valid) \<and>
        used = sum_list (List.map fst (List.map_filter fb_memory gpus)) \<and>
        total_m = sum_list (List.map snd (List.map_filter fb_memory gpus)))"
proof -
  have e: "entries = freeze_map merge_gpu (gpu_reports gpus)"
    using rm_populate_reports [OF assms(1), of gpus] assms(2) by simp
  show ?thesis
    using assms(2) freeze_map_keys(1) [of merge_gpu "gpu_reports gpus"]
    by (auto simp: e freeze_gpu_get rm_populate_def assms(1) Let_def foldl_plus_fst foldl_plus_snd foldl_plus_map comp_def)
qed

definition sample_gpus :: "rm_gpu list" where
  "sample_gpus =
     [\<lparr>rg_fb = Some (4194304, 1048576), rg_util = Some (1, [(7, 7200)]), rg_pids = Some (1, [7]), rg_mem = (\<lambda>_. Some [2097152])\<rparr>,
      \<lparr>rg_fb = None, rg_util = None, rg_pids = None, rg_mem = (\<lambda>_. None)\<rparr>]"

theorem rm_populate_sums_witness:
  "map_get (fst (rm_populate \<lparr>rs_ctl_fd = Some 3, rs_client = 0, rs_gpus = []\<rparr> sample_gpus)) 7 =
     Some \<lparr>gp_sm_pct = 72, gp_mem_mib = 2\<rparr>"
proof -
  let ?s = "\<lparr>rs_ctl_fd = Some 3, rs_client = 0, rs_gpus = []\<rparr> :: rm_state"
  obtain es n util used tot where r: "rm_populate ?s sample_gpus = (es, n, util, used, tot)"
    by (metis prod.collapse)
  have "values_at 7 (gpu_reports sample_gpus) = [\<lparr>gp_sm_pct = 72, gp_mem_mib = 0\<rparr>, \<lparr>gp_sm_pct = 0, gp_mem_mib = 2\<rparr>]"
    by code_simp
  then show ?thesis using rm_populate_sums [OF _ r, of 3 7] r by simp
qed

end
