(* ===== verification/Agx.thy ===== *)
theory Agx
  imports Gpu OsBinary
begin

unbundle bit_operations_syntax

text \<open>
  src/src/gpu/agx.rs: the Apple GPU reader. Each accelerator's and each user client's property blob is
  decoded (theory OsBinary), the accumulated GPU time is summed per process, and the difference to the
  last tick's sums becomes a percentage. What IOKit returned is an argument: per accelerator the
  statistics blob and the blobs of its user clients. The 512-slot checkpoint buffer that all parses of a
  tick share is a fresh one here: no parse reads a slot it has not written.
\<close>

definition MAX_TRACKED_PIDS :: nat where "MAX_TRACKED_PIDS = 256"
definition OSBIN_CKPTS :: nat where "OSBIN_CKPTS = 512"

definition saturating_add64 :: "u64 \<Rightarrow> u64 \<Rightarrow> u64" where
  "saturating_add64 a b = (if unat a + unat b < 2 ^ 64 then a + b else - 1)"

definition saturating_mul64 :: "u64 \<Rightarrow> u64 \<Rightarrow> u64" where
  "saturating_mul64 a b = (if unat a * unat b < 2 ^ 64 then a * b else - 1)"

definition compute_pct :: "u64 \<Rightarrow> u64 \<Rightarrow> u64 \<Rightarrow> u32" where
  "compute_pct prev_ns now_ns dt_ns =
     (if prev_ns = 0 \<or> now_ns \<le> prev_ns \<or> dt_ns = 0 then 0
      else let delta_ns = now_ns - prev_ns
           in ucast (min (saturating_mul64 delta_ns 100 div dt_ns) 100))"

subsection \<open>Extractors\<close>

text \<open>\<open>checked_mul(10)?.checked_add(d)?\<close> on a \<open>u32\<close>.\<close>

fun creator_digits :: "nat \<Rightarrow> bool \<Rightarrow> u8 list \<Rightarrow> u32 option" where
  "creator_digits n any' [] = (if any' then Some (of_nat n) else None)"
| "creator_digits n any' (b # bs) =
     (if \<not> (48 \<le> b \<and> b \<le> 57) then (if any' then Some (of_nat n) else None)
      else if n * 10 + unat (b - 48) < 4294967296 then creator_digits (n * 10 + unat (b - 48)) True bs
      else None)"

definition parse_creator_pid :: "u8 list \<Rightarrow> u32 option" where
  "parse_creator_pid bytes =
     (if take 4 bytes \<noteq> List.map byte_of ''pid '' then None else creator_digits 0 False (drop 4 bytes))"

definition read_perf_stats :: "os_binary \<Rightarrow> u64 option" where
  "read_perf_stats bin =
     Option.bind (os_root bin) (\<lambda>rt.
     Option.bind (find_dict bin rt (List.map byte_of ''In use system memory'')) (\<lambda>used.
     Option.bind (as_number bin used) (\<lambda>bytes. Some (drop_bit 20 bytes))))"

text \<open>The closure that \<open>for_each_array\<close> runs on an item of \<open>AppUsage\<close>.\<close>

definition add_usage :: "os_binary \<Rightarrow> u64 \<Rightarrow> nat \<Rightarrow> u64" where
  "add_usage bin total_ns it =
     (case Option.bind (find_dict bin it (List.map byte_of ''accumulatedGPUTime'')) (as_number bin) of
        None \<Rightarrow> total_ns
      | Some ns \<Rightarrow> saturating_add64 total_ns ns)"

definition read_user_client :: "os_binary \<Rightarrow> (u32 \<times> u64) option" where
  "read_user_client bin =
     Option.bind (os_root bin) (\<lambda>rt.
     Option.bind (find_dict bin rt (List.map byte_of ''IOUserClientCreator'')) (\<lambda>creator.
     Option.bind (as_string bin creator) (\<lambda>creator_bytes.
     Option.bind (parse_creator_pid creator_bytes) (\<lambda>p.
       Some (p, case find_dict bin rt (List.map byte_of ''AppUsage'') of
                  None \<Rightarrow> 0
                | Some usage \<Rightarrow> foldl (add_usage bin) 0 (fst (for_each_array bin usage)))))))"

definition parse_blob :: "u8 list \<Rightarrow> os_binary option" where
  "parse_blob blob = os_parse blob (replicate OSBIN_CKPTS 0)"

subsection \<open>One tick\<close>

record agx_accel =
  aa_perf :: "u8 list option"
  aa_children :: "u8 list option list"

definition accel_used :: "agx_accel \<Rightarrow> u64" where
  "accel_used a =
     (case Option.bind (Option.bind (aa_perf a) parse_blob) read_perf_stats of None \<Rightarrow> 0 | Some used \<Rightarrow> used)"

definition accel_clients :: "agx_accel \<Rightarrow> (u32 \<times> u64) list" where
  "accel_clients a =
     List.map_filter (\<lambda>blob. Option.bind (Option.bind blob parse_blob) read_user_client) (aa_children a)"

text \<open>The accelerators are \<open>None\<close> when the master port or the matching iterator is missing.\<close>

definition agx_populate ::
  "u32 \<Rightarrow> u64 \<Rightarrow> (u32 \<times> u64) list \<Rightarrow> agx_accel list option \<Rightarrow> u64 \<Rightarrow>
   (u32 \<times> gpu_proc) list \<times> (u32 \<times> u64) list \<times> (u32 \<times> u32 \<times> u64 \<times> u64)" where
  "agx_populate n_gpus total_m prev accels dt_ns =
     (if n_gpus = 0 \<or> dt_ns = 0 then ([], [], (0, 0, 0, total_m))
      else case accels of
        None \<Rightarrow> ([], [], (0, 0, 0, total_m))
      | Some as \<Rightarrow>
          let used = foldl (\<lambda>t a. t + accel_used a) 0 as;
              now = foldl (\<lambda>v a. push_all (accel_clients a) v) (fvec_new MAX_TRACKED_PIDS) as;
              new_prev = freeze_map (+) (fv_elems now);
              buf = foldl (\<lambda>v (p, now_ns).
                  let prev_ns = (case map_get prev p of Some ns \<Rightarrow> ns | None \<Rightarrow> 0);
                      pct = compute_pct prev_ns now_ns dt_ns
                  in if pct = 0 then v else fvec_push_ignore v (p, \<lparr>gp_sm_pct = pct, gp_mem_mib = 0\<rparr>))
                (fvec_new MAX_TRACKED_PIDS) new_prev;
              entries = fv_elems buf;
              total_util = min (sum_list (List.map (gp_sm_pct \<circ> snd) entries)) 100
          in (entries, new_prev, (n_gpus, total_util, used, total_m)))"

subsection \<open>Lemmas\<close>

lemma unat_saturating_mul64: "unat (saturating_mul64 a b) = min (unat a * unat b) (2 ^ 64 - 1)"
proof (cases "unat a * unat b < 2 ^ 64")
  case True
  then have "unat (a * b) = unat a * unat b" using unat_mult_lem [of a b] by simp
  with True show ?thesis by (simp add: saturating_mul64_def)
qed (simp add: saturating_mul64_def unsigned_minus_1_eq_mask mask_eq_exp_minus_1)

lemma compute_pct_eq:
  "unat (compute_pct prev_ns now_ns dt_ns) =
     (if prev_ns = 0 \<or> now_ns \<le> prev_ns \<or> dt_ns = 0 then 0
      else min (min ((unat now_ns - unat prev_ns) * 100) (2 ^ 64 - 1) div unat dt_ns) 100)"
proof (cases "prev_ns = 0 \<or> now_ns \<le> prev_ns \<or> dt_ns = 0")
  case False
  then have d: "unat (now_ns - prev_ns) = unat now_ns - unat prev_ns" by (intro unat_sub) (auto simp: not_le)
  have m: "unat (saturating_mul64 (now_ns - prev_ns) 100) = min ((unat now_ns - unat prev_ns) * 100) (2 ^ 64 - 1)"
    by (simp only: unat_saturating_mul64 d) simp
  let ?q = "saturating_mul64 (now_ns - prev_ns) 100 div dt_ns"
  have "unat (min ?q 100) = min (unat ?q) 100" by (simp add: min_def word_le_nat_alt)
  moreover have "unat (ucast (min ?q 100) :: u32) = unat (min ?q 100)"
    by (simp add: unsigned_ucast_eq take_bit_nat_eq_self calculation)
  ultimately show ?thesis using False by (simp add: compute_pct_def Let_def unat_div m)
qed (auto simp: compute_pct_def)

lemma compute_pct_le: "compute_pct prev_ns now_ns dt_ns \<le> 100"
  by (simp add: word_le_nat_alt compute_pct_eq)

lemma creator_digit:
  "d < 10 \<Longrightarrow> creator_digits n b (byte_of (digit_char d) # bs) =
     (if n * 10 + d < 4294967296 then creator_digits (n * 10 + d) True bs else None)"
  using digit_char_facts(1) [of d] digit_of_digit_char [of d] by (simp add: is_ascii_digit_def digit_of_def)

lemma creator_digits_decimal:
  "creator_digits 0 False (List.map byte_of (decimal k) @ bs) =
     (if k < 4294967296 then creator_digits k True bs else None)"
proof (induction k arbitrary: bs rule: decimal.induct)
  case (1 k)
  show ?case
  proof (cases "k < 10")
    case True
    then show ?thesis by (subst decimal.simps) (simp add: creator_digit del: creator_digits.simps)
  next
    case False
    have m: "k mod 10 < 10" "k div 10 * 10 + k mod 10 = k" by simp_all
    have "k div 10 < 4294967296" if "k < 4294967296" using that by simp
    with 1 [OF False, of "byte_of (digit_char (k mod 10)) # bs"] False m show ?thesis
      by (subst decimal.simps) (simp add: creator_digit del: creator_digits.simps)
  qed
qed

lemma parse_creator_decimal:
  assumes "k < 4294967296" "bs = [] \<or> \<not> (48 \<le> hd bs \<and> hd bs \<le> 57)"
  shows "parse_creator_pid (List.map byte_of (''pid '' @ decimal k) @ bs) = Some (of_nat k)"
  using creator_digits_decimal [of k bs] assms by (cases bs) (auto simp: parse_creator_pid_def)

text \<open>The sums of a frozen list of counters.\<close>

lemma foldl_plus: "foldl (+) v vs = (v :: 'a :: comm_monoid_add) + sum_list vs"
  by (induction vs arbitrary: v) (simp_all add: add.assoc)

lemma freeze_sum_get:
  "map_get (freeze_map (+) es) p = (let vs = values_at p es in if vs = [] then None else Some (sum_list vs :: u64))"
proof -
  have m: "mset (values_at p (sort_by_u32_key fst es)) = mset (values_at p es)" by (rule mset_values_at)
  then have "values_at p (sort_by_u32_key fst es) = [] \<longleftrightarrow> values_at p es = []" by (metis mset_zero_iff)
  moreover have "merged (+) vs = (if vs = [] then None else Some (sum_list vs :: u64))" for vs
    by (cases vs) (simp_all add: merged_def foldl_plus)
  ultimately show ?thesis
    using sum_list_mset_cong [OF m, of "\<lambda>x. x"] by (simp add: freeze_map_get Let_def)
qed

lemma push_all_take:
  "fv_elems (push_all xs v) = fv_elems v @ take (fv_capacity v - length (fv_elems v)) xs"
  "fv_capacity (push_all xs v) = fv_capacity v"
proof (induction xs arbitrary: v)
  case (Cons x xs)
  { case 1
    from Cons.IH(1) [of "fvec_push_ignore v x"] show ?case
      by (cases "fv_capacity v - length (fv_elems v)") (auto simp: push_all_def fvec_push_ignore_elems diff_Suc) }
  { case 2
    from Cons.IH(2) [of "fvec_push_ignore v x"] show ?case by (simp add: push_all_def fvec_push_ignore_elems) }
qed (simp_all add: push_all_def)

lemma foldl_push_all_take:
  "length (fv_elems v) \<le> fv_capacity v \<Longrightarrow>
   fv_elems (foldl (\<lambda>v a. push_all (f a) v) v xs) = fv_elems v @ take (fv_capacity v - length (fv_elems v)) (concat (List.map f xs))"
proof (induction xs arbitrary: v)
  case (Cons a xs)
  have "length (fv_elems (push_all (f a) v)) \<le> fv_capacity (push_all (f a) v)"
    using Cons.prems by (simp add: push_all_take)
  from Cons.IH [OF this] show ?case
    by (cases "length (f a) \<le> fv_capacity v - length (fv_elems v)") (simp_all add: push_all_take min_def)
qed simp

lemma fvec_new_simps: "fv_elems (fvec_new n) = []" "fv_capacity (fvec_new n) = n"
  by (simp_all add: fvec_new_def)

text \<open>Every process whose percentage is not 0, in order.\<close>

definition agx_entry :: "(u32 \<times> u64) list \<Rightarrow> u64 \<Rightarrow> u32 \<times> u64 \<Rightarrow> (u32 \<times> gpu_proc) option" where
  "agx_entry prev dt_ns e =
     (let pct = compute_pct (case map_get prev (fst e) of Some ns \<Rightarrow> ns | None \<Rightarrow> 0) (snd e) dt_ns
      in if pct = 0 then None else Some (fst e, \<lparr>gp_sm_pct = pct, gp_mem_mib = 0\<rparr>))"

lemma foldl_entries:
  "length (fv_elems v) + length es \<le> fv_capacity v \<Longrightarrow>
   fv_elems (foldl (\<lambda>v (p, now_ns).
       let prev_ns = (case map_get prev p of Some ns \<Rightarrow> ns | None \<Rightarrow> 0);
           pct = compute_pct prev_ns now_ns dt_ns
       in if pct = 0 then v else fvec_push_ignore v (p, \<lparr>gp_sm_pct = pct, gp_mem_mib = 0\<rparr>)) v es) =
     fv_elems v @ List.map_filter (agx_entry prev dt_ns) es"
proof (induction es arbitrary: v)
  case (Cons e es)
  obtain p ns where e: "e = (p, ns)" by (cases e)
  let ?pct = "compute_pct (case map_get prev p of Some ns \<Rightarrow> ns | None \<Rightarrow> 0) ns dt_ns"
  let ?v = "if ?pct = 0 then v else fvec_push_ignore v (p, \<lparr>gp_sm_pct = ?pct, gp_mem_mib = 0\<rparr>)"
  have "length (fv_elems ?v) + length es \<le> fv_capacity ?v"
    using Cons.prems by (auto simp: fvec_push_ignore_elems)
  note IH = Cons.IH [OF this]
  have "fv_elems ?v = fv_elems v @ (case agx_entry prev dt_ns e of None \<Rightarrow> [] | Some x \<Rightarrow> [x])"
    using Cons.prems by (auto simp: fvec_push_ignore_elems agx_entry_def e Let_def)
  with IH show ?case
    by (auto simp: e Let_def List.map_filter_simps split: option.splits)
qed (simp add: List.map_filter_simps)

lemma length_freeze_map: "length (freeze_map merge es) \<le> length es"
proof -
  have "distinct (List.map fst (freeze_map merge es))" using freeze_map_keys(1) [of merge es] by (simp add: strict_sorted_iff)
  then have "length (freeze_map merge es) = card (fst ` set es)"
    by (metis distinct_card freeze_map_keys(2) length_map list.set_map)
  also have "\<dots> \<le> length es" using card_image_le [of "set es" fst] card_length [of es] by simp
  finally show ?thesis .
qed

subsection \<open>Properties\<close>

text \<open>C29: with the AGX driver present and time passed, the new snapshot holds per process the sum of the
  GPU times of its user clients (of the first 256 decoded ones), and the figures shown are exactly, in
  pid order, the processes whose share of the interval is not 0: the progress since the last snapshot in
  whole percent, at most 100, and nothing for a process the last snapshot did not have. The total is at
  most 100. A creator string \<open>pid <n>, ..\<close> is read as that pid for every pid of 32 bits.\<close>

theorem agx_populate_correct:
  assumes "n_gpus \<noteq> 0" "dt_ns \<noteq> 0"
    and "agx_populate n_gpus total_m prev (Some as) dt_ns = (entries, new_prev, n, util, used, total_m')"
  shows "sorted_wrt (<) (List.map fst new_prev) \<and>
    map_get new_prev p = (let vs = values_at p (take 256 (concat (List.map accel_clients as)))
      in if vs = [] then None else Some (sum_list vs)) \<and>
    entries = List.map_filter (agx_entry prev dt_ns) new_prev \<and>
    (\<forall>e \<in> set entries. 0 < gp_sm_pct (snd e) \<and> gp_sm_pct (snd e) \<le> 100) \<and> util \<le> 100 \<and> n = n_gpus \<and>
    unat (compute_pct a b dt_ns) = (if a = 0 \<or> b \<le> a then 0
      else min (min ((unat b - unat a) * 100) (2 ^ 64 - 1) div unat dt_ns) 100) \<and>
    (k < 2 ^ 32 \<longrightarrow> parse_creator_pid (List.map byte_of (''pid '' @ decimal k @ '','' @ rest)) = Some (of_nat k))"
proof (intro conjI impI)
  let ?cl = "take 256 (concat (List.map accel_clients as))"
  have now: "fv_elems (foldl (\<lambda>v a. push_all (accel_clients a) v) (fvec_new MAX_TRACKED_PIDS) as) = ?cl"
    by (subst foldl_push_all_take) (simp_all add: fvec_new_def MAX_TRACKED_PIDS_def)
  have np: "new_prev = freeze_map (+) ?cl"
    using assms(3) by (simp add: agx_populate_def assms(1,2) Let_def now)
  have "length new_prev \<le> MAX_TRACKED_PIDS" using length_freeze_map [of "(+)" ?cl] by (simp add: np MAX_TRACKED_PIDS_def)
  then show e: "entries = List.map_filter (agx_entry prev dt_ns) new_prev"
    using assms(3) foldl_entries [of "fvec_new MAX_TRACKED_PIDS" new_prev prev dt_ns]
    by (simp add: agx_populate_def assms(1,2) Let_def now np fvec_new_simps)
  show "sorted_wrt (<) (List.map fst new_prev)" unfolding np by (rule freeze_map_keys)
  show "map_get new_prev p = (let vs = values_at p ?cl in if vs = [] then None else Some (sum_list vs))"
    unfolding np by (rule freeze_sum_get)
  show "\<forall>e \<in> set entries. 0 < gp_sm_pct (snd e) \<and> gp_sm_pct (snd e) \<le> 100"
    unfolding e by (auto simp: List.map_filter_def agx_entry_def Let_def compute_pct_le word_neq_0_conv split: if_splits)
  show "util \<le> 100" "n = n_gpus" using assms(3) by (auto simp: agx_populate_def assms(1,2) Let_def)
  show "unat (compute_pct a b dt_ns) = (if a = 0 \<or> b \<le> a then 0
      else min (min ((unat b - unat a) * 100) (2 ^ 64 - 1) div unat dt_ns) 100)"
    using compute_pct_eq [of a b dt_ns] assms(2) by simp
  show "parse_creator_pid (List.map byte_of (''pid '' @ decimal k @ '','' @ rest)) = Some (of_nat k)"
    if "k < 2 ^ 32"
  proof -
    have "\<not> 48 \<le> byte_of (CHR '','')" by code_simp
    then show ?thesis using parse_creator_decimal [of k "List.map byte_of ('','' @ rest)"] that by simp
  qed
qed

theorem agx_populate_correct_witness:
  "case agx_populate 1 0 [] (Some []) 5 of (entries, new_prev, n, util, used, total_m) \<Rightarrow> entries = [] \<and> n = 1 \<and>
     unat (compute_pct 1000 501000 1000000) = 50"
proof -
  obtain es np n util used tot where r: "agx_populate 1 0 [] (Some []) 1000000 = (es, np, n, util, used, tot)"
    by (metis prod.collapse)
  obtain es' np' n' util' used' tot' where r': "agx_populate 1 0 [] (Some []) 5 = (es', np', n', util', used', tot')"
    by (metis prod.collapse)
  have "np' = []" using r' by (auto simp: agx_populate_def Let_def fvec_new_simps freeze_map_spec sort_by_u32_key_def)
  then show ?thesis
    using agx_populate_correct [OF _ _ r, of 0 1000 501000] agx_populate_correct [OF _ _ r', of 0 0 0] r'
    by (simp add: List.map_filter_simps)
qed

end
