(* ===== verification/Tty.thy ===== *)
theory Tty
  imports Render
begin

unbundle bit_operations_syntax

text \<open>
  src/src/tty.rs: raw mode and its guard, the terminal size, the write loop of a rendered frame and the
  one-byte poll of stdin. The terminal is a record of its attributes and of the bytes written to it; a
  stdin that is no terminal refuses both ioctls.
\<close>

subsection \<open>Raw mode\<close>

text \<open>The flag words have 32 bits on Linux and 64 on macOS; the speeds only exist on macOS.\<close>

record 'f termios =
  c_iflag :: "'f"
  c_oflag :: "'f"
  c_cflag :: "'f"
  c_lflag :: "'f"
  c_cc :: "u8 list"
  c_speeds :: "i64 \<times> i64"

definition ICANON :: "target_os \<Rightarrow> 'l :: len word" where
  "ICANON os = (case os of Linux \<Rightarrow> 2 | Macos \<Rightarrow> 0x100)"
definition ECHO :: "target_os \<Rightarrow> 'l :: len word" where "ECHO os = 8"
definition VINTR :: "target_os \<Rightarrow> nat" where "VINTR os = (case os of Linux \<Rightarrow> 0 | Macos \<Rightarrow> 8)"
definition VQUIT :: "target_os \<Rightarrow> nat" where "VQUIT os = (case os of Linux \<Rightarrow> 1 | Macos \<Rightarrow> 9)"
definition VTIME :: "target_os \<Rightarrow> nat" where "VTIME os = (case os of Linux \<Rightarrow> 5 | Macos \<Rightarrow> 17)"
definition VMIN :: "target_os \<Rightarrow> nat" where "VMIN os = (case os of Linux \<Rightarrow> 6 | Macos \<Rightarrow> 16)"
definition VDISABLE :: "target_os \<Rightarrow> u8" where "VDISABLE os = (case os of Linux \<Rightarrow> 0 | Macos \<Rightarrow> 0xff)"
definition NCCS :: "target_os \<Rightarrow> nat" where "NCCS os = (case os of Linux \<Rightarrow> 19 | Macos \<Rightarrow> 20)"

definition termios_default :: "target_os \<Rightarrow> ('l :: len) word termios" where
  "termios_default os =
     \<lparr>c_iflag = 0, c_oflag = 0, c_cflag = 0, c_lflag = 0, c_cc = replicate (NCCS os) 0, c_speeds = (0, 0)\<rparr>"

record 'f tty =
  is_tty :: bool
  attrs :: "'f termios"
  screen :: string

definition tcget :: "('l :: len) word tty \<Rightarrow> 'l word termios \<Rightarrow> 'l word termios" where
  "tcget y t = (if is_tty y then attrs y else t)"

definition tcset :: "('l :: len) word termios \<Rightarrow> 'l word tty \<Rightarrow> 'l word tty" where
  "tcset t y = (if is_tty y then y\<lparr>attrs := t\<rparr> else y)"

definition HIDE_CURSOR :: string where "HIDE_CURSOR = ESC # ''[?25l''"
definition SHOW_CURSOR :: string where "SHOW_CURSOR = ESC # ''[?25h''"

text \<open>\<open>enter_raw_mode\<close> returns the attributes its guard restores.\<close>

definition enter_raw_mode :: "target_os \<Rightarrow> ('l :: len) word tty \<Rightarrow> 'l word termios \<times> 'l word tty" where
  "enter_raw_mode os y =
     (let orig = tcget y (termios_default os);
          raw = orig\<lparr>c_lflag := c_lflag orig AND NOT (ICANON os OR ECHO os),
            c_cc := (c_cc orig)[VMIN os := 0, VTIME os := 0, VINTR os := VDISABLE os, VQUIT os := VDISABLE os]\<rparr>;
          y1 = tcset raw y
      in (orig, y1\<lparr>screen := screen y1 @ HIDE_CURSOR\<rparr>))"

definition raw_mode_drop :: "('l :: len) word termios \<Rightarrow> 'l word tty \<Rightarrow> 'l word tty" where
  "raw_mode_drop orig y = (let y1 = tcset orig y in y1\<lparr>screen := screen y1 @ SHOW_CURSOR\<rparr>)"

subsection \<open>Size, output, input\<close>

text \<open>\<open>term_size\<close>: the ioctl's result with the columns and rows it filled in.\<close>

definition term_size :: "int \<Rightarrow> u16 \<Rightarrow> u16 \<Rightarrow> nat \<times> nat" where
  "term_size ret col row =
     (if ret = 0 then (if col > 0 then unat col else 80, if row > 0 then unat row else 24) else (80, 24))"

text \<open>\<open>write_stdout\<close>: \<open>wr\<close> gives the result of the i-th \<open>write(2)\<close> on the bytes passed to it. A result
  above the length of the request would make the slice panic (\<open>None\<close>).\<close>

function write_loop :: "(nat \<Rightarrow> string \<Rightarrow> int) \<Rightarrow> nat \<Rightarrow> string \<Rightarrow> nat \<Rightarrow> string \<Rightarrow> string option" where
  "write_loop wr i bytes off out =
     (if off < length bytes then
        let n = wr i (drop off bytes) in
        if n \<le> 0 then Some out
        else write_loop wr (Suc i) bytes (off + nat n) (out @ take (nat n) (drop off bytes))
      else if off = length bytes then Some out else None)"
  by pat_completeness auto
termination
  by (relation "measure (\<lambda>(wr, i, bytes, off, out). length bytes - off)") auto

declare write_loop.simps [simp del]

definition write_stdout :: "(nat \<Rightarrow> string \<Rightarrow> int) \<Rightarrow> string \<Rightarrow> string \<Rightarrow> string option" where
  "write_stdout wr bytes out = write_loop wr 0 bytes 0 out"

text \<open>\<open>read_one_stdin\<close>: the count that \<open>read(2)\<close> returned and the byte it stored.\<close>

definition read_one_stdin :: "int \<times> u8 \<Rightarrow> u8 option" where
  "read_one_stdin r = (if fst r = 1 then Some (snd r) else None)"

subsection \<open>Lemmas\<close>

text \<open>What is written is a prefix of the frame, and all of it if every write makes progress.\<close>

definition writes_ok :: "(nat \<Rightarrow> string \<Rightarrow> int) \<Rightarrow> bool" where
  "writes_ok wr \<longleftrightarrow> (\<forall>i b. wr i b \<le> int (length b))"

definition progresses :: "(nat \<Rightarrow> string \<Rightarrow> int) \<Rightarrow> bool" where
  "progresses wr \<longleftrightarrow> (\<forall>i b. b \<noteq> [] \<longrightarrow> 0 < wr i b)"

lemma write_loop_prefix:
  "writes_ok wr \<Longrightarrow> off \<le> length bytes \<Longrightarrow>
    \<exists>n \<le> length bytes - off. write_loop wr i bytes off out = Some (out @ take n (drop off bytes)) \<and>
      (progresses wr \<longrightarrow> n = length bytes - off)"
proof (induction wr i bytes off out rule: write_loop.induct)
  case (1 wr i bytes off out)
  show ?case
  proof (cases "off < length bytes \<and> 0 < wr i (drop off bytes)")
    case True
    let ?n = "nat (wr i (drop off bytes))"
    have "wr i (drop off bytes) \<le> int (length (drop off bytes))" using "1.prems"(1) unfolding writes_ok_def by blast
    then have "?n \<le> length bytes - off" using True by (simp add: nat_le_iff of_nat_diff)
    then have le: "off + ?n \<le> length bytes" using True by linarith
    have step: "write_loop wr i bytes off out = write_loop wr (Suc i) bytes (off + ?n) (out @ take ?n (drop off bytes))"
      using True by (subst write_loop.simps) (simp add: Let_def)
    from True have "off < length bytes" "\<not> wr i (drop off bytes) \<le> 0" by simp_all
    from "1.IH" [OF this(1) refl this(2) "1.prems"(1) le] obtain m where m: "m \<le> length bytes - (off + ?n)"
      "write_loop wr (Suc i) bytes (off + ?n) (out @ take ?n (drop off bytes)) =
        Some ((out @ take ?n (drop off bytes)) @ take m (drop (off + ?n) bytes))"
      "progresses wr \<longrightarrow> m = length bytes - (off + ?n)" by blast
    have "take ?n (drop off bytes) @ take m (drop (off + ?n) bytes) = take (?n + m) (drop off bytes)"
      unfolding take_add by (simp add: add.commute)
    with step m le show ?thesis by (intro exI [of _ "?n + m"]) auto
  next
    case False
    then have "write_loop wr i bytes off out = Some out" using "1.prems" by (subst write_loop.simps) (auto simp: Let_def)
    moreover have "progresses wr \<longrightarrow> off = length bytes"
    proof
      assume "progresses wr"
      show "off = length bytes"
      proof (rule ccontr)
        assume "off \<noteq> length bytes"
        then have "off < length bytes" "drop off bytes \<noteq> []" using "1.prems"(2) by simp_all
        with False \<open>progresses wr\<close> show False unfolding progresses_def by blast
      qed
    qed
    ultimately show ?thesis by (intro exI [of _ 0]) simp
  qed
qed

lemma write_stdout_all: "writes_ok wr \<Longrightarrow> progresses wr \<Longrightarrow> write_stdout wr bytes out = Some (out @ bytes)"
  using write_loop_prefix [of wr 0 bytes 0 out] by (auto simp: write_stdout_def)

subsection \<open>Properties\<close>

text \<open>raw mode is undone exactly: after the guard is dropped the terminal has the attributes it had
  before \<open>enter_raw_mode\<close>, whatever was written to it meanwhile, and the cursor is shown again; in raw mode
  line buffering and echo are off, every other flag is as it was, a read returns at once, and the
  interrupt and quit characters are disabled, so that Ctrl-C and Ctrl-\ arrive as bytes.\<close>

theorem raw_mode_restores:
  assumes "is_tty y" "length (c_cc (attrs y)) = NCCS os" "enter_raw_mode os y = (orig, y1)"
  shows "raw_mode_drop orig (y1\<lparr>screen := frames\<rparr>) = y\<lparr>screen := frames @ SHOW_CURSOR\<rparr> \<and>
    screen y1 = screen y @ HIDE_CURSOR \<and>
    c_lflag (attrs y1) = c_lflag (attrs y) AND NOT (ICANON os OR ECHO os) \<and>
    c_iflag (attrs y1) = c_iflag (attrs y) \<and> c_oflag (attrs y1) = c_oflag (attrs y) \<and>
    c_cflag (attrs y1) = c_cflag (attrs y) \<and>
    (\<forall>i < NCCS os. c_cc (attrs y1) ! i =
       (if i \<in> {VINTR os, VQUIT os} then VDISABLE os else if i \<in> {VMIN os, VTIME os} then 0 else c_cc (attrs y) ! i))"
  using assms
  by (cases os) (auto simp: enter_raw_mode_def raw_mode_drop_def tcget_def tcset_def Let_def nth_list_update
      VINTR_def VQUIT_def VMIN_def VTIME_def NCCS_def)

theorem raw_mode_restores_witness:
  "case enter_raw_mode Linux \<lparr>is_tty = True, attrs = (termios_default Linux)\<lparr>c_lflag := 0x8a3b :: u32\<rparr>, screen = []\<rparr> of
     (orig, y1) \<Rightarrow> c_lflag (attrs y1) = 0x8a31 \<and> c_lflag (attrs (raw_mode_drop orig y1)) = 0x8a3b"
proof -
  let ?y = "\<lparr>is_tty = True, attrs = (termios_default Linux)\<lparr>c_lflag := 0x8a3b :: u32\<rparr>, screen = []\<rparr>"
  obtain orig y1 where e: "enter_raw_mode Linux ?y = (orig, y1)" by (metis prod.collapse)
  have "length (c_cc (attrs ?y)) = NCCS Linux" by (simp add: termios_default_def)
  from raw_mode_restores [OF _ this e, of "screen y1"] show ?thesis
    by (simp add: e ICANON_def ECHO_def)
qed

text \<open>\<open>write_stdout\<close> always ends, after writing a prefix of the frame without a gap or a repetition,
  and writes the whole frame when every \<open>write(2)\<close> makes progress, however short the writes are.\<close>

theorem write_stdout_complete:
  assumes "writes_ok wr"
  shows "\<exists>n \<le> length bytes. write_stdout wr bytes out = Some (out @ take n bytes) \<and>
    (progresses wr \<longrightarrow> n = length bytes)"
  using write_loop_prefix [OF assms, of 0 bytes 0 out] by (simp add: write_stdout_def)

theorem write_stdout_complete_witness:
  "write_stdout (\<lambda>i b. min 2 (int (length b))) ''hello'' ''> '' = Some ''> hello''"
proof -
  let ?wr = "\<lambda>(i :: nat) (b :: string). min 2 (int (length b))"
  have "writes_ok ?wr" "progresses ?wr" by (auto simp: writes_ok_def progresses_def)
  with write_stdout_complete [of ?wr "''hello''" "''> ''"] show ?thesis by auto
qed

end
