(* ===== verification/Tick.thy ===== *)
theory Tick
  imports Agx Tty
begin

text \<open>
  One turn of the main loop (\<open>run\<close> in src/main.rs): the elapsed time, the GPU snapshot and the pids it
  makes visible, collecting the processes, attaching their GPU figures, the filter, the sort by pid, the
  labels, the tree, the frame, and the entries kept for the next turn. Whatever the turn reads from the
  system is in a \<^theory_text>\<open>record\<close> of arguments. A turn that aborts (a panic of any step) is \<open>None\<close>.
\<close>

subsection \<open>What a run and a turn are given\<close>

record run_env =
  re_os :: target_os
  re_page_size :: u64
  re_num_cpus :: f64
  re_boot :: u64
  re_my_pid :: u32
  re_mach_tps :: f64
  re_label_dir :: int
  re_rm :: rm_state
  re_agx :: "u32 \<times> u64"

record tick_in =
  tk_now :: u64
  tk_wall :: u64
  tk_winsize :: "int \<times> u16 \<times> u16"
  tk_rm_gpus :: "rm_gpu list"
  tk_accels :: "agx_accel list option"
  tk_linux :: linux_source
  tk_mac :: mac_source
  tk_files :: "string \<Rightarrow> string option"
  tk_loads :: "(f64 \<times> f64 \<times> f64) option"
  tk_mem :: "u64 \<times> u64 \<times> (u32 \<times> u32) option"
  tk_bsd :: "u32 \<Rightarrow> u8 list"
  tk_label_fd :: "int \<Rightarrow> int"
  tk_label_batches :: "string list"
  tk_label_read :: "string \<Rightarrow> string option"

text \<open>What one turn leaves to the next: the GPU times, the packed CPU counters, its own time.\<close>

record loop_state =
  lp_gpu_prev :: "(u32 \<times> u64) list"
  lp_prev :: "(u32 \<times> u32) list"
  lp_time :: u64

text \<open>The number of online CPUs on Linux: the result of \<open>sched_getaffinity\<close> and the mask it filled.\<close>

definition count_ones :: "u64 \<Rightarrow> nat" where
  "count_ones w = length (List.filter (bit w) [0 ..< 64])"

definition num_cpus_online_linux :: "int \<Rightarrow> u64 list \<Rightarrow> f64" where
  "num_cpus_online_linux ret set_words =
     (if ret > 0 then
        let n = sum_list (List.map count_ones set_words)
        in if n > 0 then f64_of_nat n else 1
      else 1)"

text \<open>\<open>as_secs_f64\<close> of a duration in nanoseconds, and the nanoseconds the GPU readers are given.\<close>

definition as_secs_f64 :: "nat \<Rightarrow> f64" where
  "as_secs_f64 ns = f64_add (f64_of_nat (ns div 1000000000)) (f64_div (f64_of_nat (ns mod 1000000000)) 1000000000)"

definition tick_dt :: "loop_state \<Rightarrow> tick_in \<Rightarrow> f64" where
  "tick_dt st t = as_secs_f64 (unat (duration_since (tk_now t) (lp_time st)))"

definition tick_dt_ns :: "f64 \<Rightarrow> u64" where
  "tick_dt_ns dt = of_nat (float_as_nat 64 (f64_mul dt 1000000000))"

subsection \<open>The GPU\<close>

definition has_gpu :: "run_env \<Rightarrow> bool" where
  "has_gpu env = (case re_os env of Linux \<Rightarrow> rm_has_gpu (re_rm env) | Macos \<Rightarrow> fst (re_agx env) > 0)"

definition gpu_snapshot :: "run_env \<Rightarrow> (u32 \<times> u64) list \<Rightarrow> tick_in \<Rightarrow> u64 \<Rightarrow> gpu_info \<times> (u32 \<times> u64) list" where
  "gpu_snapshot env gpu_prev t dt_ns =
     (case re_os env of
        Linux \<Rightarrow> (gpu_collect (rm_populate (re_rm env) (tk_rm_gpus t)), [])
      | Macos \<Rightarrow>
          (case agx_populate (fst (re_agx env)) (snd (re_agx env)) gpu_prev (tk_accels t) dt_ns of
             (entries, new_prev, totals) \<Rightarrow> (gpu_collect (entries, totals), new_prev)))"

text \<open>The pids a busy GPU makes visible; the buffer has one slot per entry of the snapshot.\<close>

definition gpu_pids :: "target_os \<Rightarrow> gpu_info \<Rightarrow> u32 list" where
  "gpu_pids os gi =
     (let pid_thresh = (case os of Macos \<Rightarrow> GPU_THRESH | Linux \<Rightarrow> 0)
      in freeze_set (List.map fst (List.filter (\<lambda>(_, gp). gp_sm_pct gp \<ge> pid_thresh) (gi_procs gi))))"

definition attach_gpu :: "target_os \<Rightarrow> gpu_info \<Rightarrow> proc_info \<Rightarrow> proc_info" where
  "attach_gpu os gi p = (case gi_usage os gi (pid p) of Some usage \<Rightarrow> p\<lparr>gpu := Some usage\<rparr> | None \<Rightarrow> p)"

subsection \<open>The processes shown\<close>

text \<open>A panic of any kind aborts the program.\<close>

definition returned :: "('e + 'a) option \<Rightarrow> 'a option" where
  "returned r = (case r of Some (Inr x) \<Rightarrow> Some x | _ \<Rightarrow> None)"

definition collect_procs ::
  "run_env \<Rightarrow> tick_in \<Rightarrow> thresholds_in \<Rightarrow> (proc_info list \<times> (u32 \<times> u32) list) option" where
  "collect_procs env t ti =
     (case re_os env of
        Linux \<Rightarrow> collect_procs_linux (tk_linux t) (re_my_pid env) (re_page_size env) 100 (re_boot env) (tk_wall t) ti
      | Macos \<Rightarrow> Some (collect_procs_macos (tk_mac t) (re_my_pid env) (tk_wall t) (re_mach_tps env) ti))"

text \<open>From the collection to the sorted list of what is shown, with the next turn's entries.\<close>

definition select_procs ::
  "run_env \<Rightarrow> (u32 \<times> u32) list \<Rightarrow> tick_in \<Rightarrow> gpu_info \<Rightarrow> f64 \<Rightarrow> (proc_info list \<times> (u32 \<times> u32) list) option" where
  "select_procs env prev t gi dt =
     Option.bind (collect_procs env t \<lparr>ti_gpu_pids = gpu_pids (re_os env) gi, ti_prev = prev, ti_dt = dt\<rparr>)
       (\<lambda>(procs, nxt).
          let procs1 = List.map (attach_gpu (re_os env) gi) procs
          in Option.bind (returned (filter_with_children (re_os env) \<lparr>fv_capacity = length procs, fv_elems = procs1\<rparr> prev nxt))
               (\<lambda>(v, nxt1). Some (sort_by_u32_key pid (fv_elems v), nxt1)))"

text \<open>\<open>tk_label_fd\<close> is \<open>openat\<close> of the directory itself beneath a descriptor.\<close>

definition apply_labels :: "run_env \<Rightarrow> tick_in \<Rightarrow> proc_info list \<Rightarrow> (proc_info list \<times> string list) option" where
  "apply_labels env t procs =
     label_apply (re_os env)
       (case re_os env of Linux \<Rightarrow> start_time_linux (tk_files t) | Macos \<Rightarrow> start_time_macos (tk_bsd t))
       (tk_label_read t) (tk_label_fd t (re_label_dir env)) (tk_label_batches t) procs"

subsection \<open>The frame\<close>

text \<open>What the load cell prints, and its share.\<close>

definition load_avg :: "run_env \<Rightarrow> tick_in \<Rightarrow> wcall list \<times> f64" where
  "load_avg env t =
     (case re_os env of
        Linux \<Rightarrow> let la = load_avg_linux (read_small_file (tk_files t) ''/proc/loadavg'' 128) (re_num_cpus env)
                 in (put_load_avg la, la_frac la)
      | Macos \<Rightarrow> (case load_avg_macos (tk_loads t) (re_num_cpus env) of (loads, share) \<Rightarrow> (put_load_avg_macos loads, share)))"

definition mem_now :: "run_env \<Rightarrow> tick_in \<Rightarrow> mem_info" where
  "mem_now env t =
     (case re_os env of
        Linux \<Rightarrow> mem_info_linux (read_small_file (tk_files t) ''/proc/meminfo'' 4096)
      | Macos \<Rightarrow> (case tk_mem t of (total_mem, page, vm) \<Rightarrow> mem_info_macos total_mem page vm))"

text \<open>The share of the GPUs' time: with \<open>n_gpus = 0\<close> the quotient is NaN or infinite, and its
  \<open>min(1.0)\<close> is 1.\<close>

definition util_frac :: "gpu_info \<Rightarrow> f64" where
  "util_frac gi =
     (if gi_n_gpus gi = 0 then 1
      else f64_div (f64_div (f64_of_nat (unat (gi_total_util gi))) (f64_of_nat (unat (gi_n_gpus gi)))) 100)"

text \<open>The UTF-8 bytes of the tree glyph, a blank.\<close>

definition TREE_GLYPH :: string where "TREE_GLYPH = [CHR 0xF0, CHR 0x9F, CHR 0x8C, CHR 0xB3, CHR '' '']"

definition put_header :: "run_env \<Rightarrow> tick_in \<Rightarrow> gpu_info \<Rightarrow> wcall list" where
  "put_header env t gi =
     (let (la, share) = load_avg env t;
          mi = mem_now env t;
          (lr, _, lb) = frac_color 0 share;
          (mr, _, mb) = frac_color (mem_frac mi) 0
      in put_str TREE_GLYPH @
         put_fg (0, 0, 255) (put_str ''load:'') @ put_str '' '' @ put_fg (lr, 0, lb) la @ put_str ''  '' @
         put_fg (255, 0, 0) (put_str ''mem:'') @ put_str '' '' @ put_fg (mr, 0, mb) (put_mem_info mi) @
         (if has_gpu env then
            (let (gr, _, gb) = frac_color (gi_mem_frac gi) (util_frac gi)
             in put_str ''  '' @ put_fg (0, 0, 255) (put_str ''gpu:'') @ put_str '' '' @
                put_fg (gr, 0, gb) (put_gpu_info (re_os env) gi))
          else []))"

definition put_columns :: "run_env \<Rightarrow> wcall list" where
  "put_columns env =
     [PutBytes BOLD, PutBytes ''PID       CPU%    RSS''] @
     (if has_gpu env then [PutBytes (GPU_HEADER (re_os env))] else []) @
     [PutBytes ''    AGE  COMMAND'', PutBytes FG_CLOSE_EOL]"

definition roots_in :: "row list \<Rightarrow> nat list" where
  "roots_in tree = List.filter (\<lambda>i. is_root (fst (tree ! i))) [0 ..< length tree]"

definition put_frame :: "run_env \<Rightarrow> tick_in \<Rightarrow> gpu_info \<Rightarrow> proc_info list \<Rightarrow> row list \<Rightarrow> nat \<Rightarrow> nat \<Rightarrow> wcall list" where
  "put_frame env t gi procs tree width height =
     [PutBytes CURSOR_HOME] @ put_header env t gi @ [PutBytes EOL] @
     line (repeat_char 0x2500 width) @ put_columns env @ line (repeat_char 0x2500 width) @
     (if procs = [] then line (put_str ''(no matching processes)'') else []) @
     render_tree (re_os env) procs tree (roots_in tree) (height - 4) width (gi_total_mib gi) (has_gpu env)"

text \<open>The frame drops the last newline.\<close>

definition frame_bytes :: "run_env \<Rightarrow> tick_in \<Rightarrow> gpu_info \<Rightarrow> proc_info list \<Rightarrow> row list \<Rightarrow> string" where
  "frame_bytes env t gi procs tree =
     (case term_size (fst (tk_winsize t)) (fst (snd (tk_winsize t))) (snd (snd (tk_winsize t))) of
        (width, height) \<Rightarrow> butlast (flat (put_frame env t gi procs tree width height)) @ CLEAR_TO_END)"

subsection \<open>The turn\<close>

text \<open>The frame, the label files unlinked, and what is kept.\<close>

definition tick :: "run_env \<Rightarrow> loop_state \<Rightarrow> tick_in \<Rightarrow> (string \<times> string list \<times> loop_state) option" where
  "tick env st t =
     (let dt = tick_dt st t;
          (gi, new_gpu_prev) = gpu_snapshot env (lp_gpu_prev st) t (tick_dt_ns dt)
      in Option.bind (select_procs env (lp_prev st) t gi dt) (\<lambda>(procs, nxt).
         Option.bind (apply_labels env t procs) (\<lambda>(procs1, gone).
         Option.bind (returned (tree_layout procs1)) (\<lambda>tree.
           Some (frame_bytes env t gi procs1 tree, gone,
             \<lparr>lp_gpu_prev = new_gpu_prev, lp_prev = sort_by_u32_key fst nxt, lp_time = tk_now t\<rparr>)))))"

end
