(* ===== verification/Frame.thy ===== *)
theory Frame
  imports Tick
begin

text \<open>
  How many lines a frame takes. Every piece the renderer writes is counted in newlines: cells, colours and
  truncated text have none unless the text they show has one, a rendered row has exactly one. A terminal
  that is given at most as many lines as it has rows does not scroll, which is what the row budget and
  the dropped last newline are for.
\<close>

named_theorems newline_simps

definition newlines :: "string \<Rightarrow> nat" where
  "newlines s = count_list s (CHR 0x0A)"

lemma newlines_basic [newline_simps]:
  "newlines [] = 0"
  "newlines (c # s) = (if c = CHR 0x0A then 1 else 0) + newlines s"
  "newlines (s @ t) = newlines s + newlines t"
  by (simp_all add: newlines_def)

lemma newlines_eq_0: "newlines s = 0 \<longleftrightarrow> CHR 0x0A \<notin> set s"
  by (simp add: newlines_def count_list_0_iff)

lemma newlines_concat: "newlines (concat ss) = sum_list (List.map newlines ss)"
  by (induction ss) (simp_all add: newline_simps)

lemma newlines_replicate [newline_simps]: "c \<noteq> CHR 0x0A \<Longrightarrow> newlines (replicate n c) = 0"
  by (auto simp: newlines_eq_0)

lemma newlines_take: "newlines s = 0 \<Longrightarrow> newlines (take n s) = 0"
  by (auto simp: newlines_eq_0 dest: in_set_takeD)

lemma newlines_snoc: "newlines (s @ [CHR 0x0A]) = Suc (newlines s)"
  by (simp add: newline_simps)

lemma newlines_butlast:
  assumes "s \<noteq> []" "List.last s = CHR 0x0A"
  shows "Suc (newlines (butlast s)) = newlines s"
  using newlines_snoc [of "butlast s"] append_butlast_last_id [OF assms(1)] by (simp only: assms(2))

subsection \<open>Cells\<close>

lemma newlines_decimal [newline_simps]: "newlines (decimal n) = 0"
proof -
  have "digit_char d \<noteq> CHR 0x0A" if "d < 10" for d
  proof -
    have "\<forall>d \<in> set [0 ..< 10]. digit_char d \<noteq> CHR 0x0A" by code_simp
    with that show ?thesis by simp
  qed
  then show ?thesis using decimal_chars by (fastforce simp: newlines_eq_0)
qed

lemma newlines_number [newline_simps]:
  "newlines (flat (write_u32 n)) = 0" "newlines (flat (put_u32d n)) = 0"
  "newlines (flat (pad_right n w)) = 0" "newlines (flat (pad_left n w)) = 0" "newlines (flat (pad_zero n w)) = 0"
  by (simp_all add: newline_simps put_u32d_def pad_right_def pad_left_def pad_zero_def)

lemma newlines_float [newline_simps]: "newlines (flat (f1_wide x w)) = 0" "newlines (flat (f2 x)) = 0"
  by (simp_all add: newline_simps f1_wide_def f2_def Let_def)

lemma newlines_cells [newline_simps]:
  "newlines (flat (format_age secs)) = 0" "newlines (flat (format_mem kib)) = 0"
  "newlines (flat (gpu_cells os has_g u)) = 0"
  by (simp_all add: newline_simps format_age_def format_mem_def gpu_cells_def GPU_BLANK_def Let_def
        split: option.split target_os.split)

lemma newlines_put_u8s_loop: "newlines s = 0 \<Longrightarrow> newlines (flat (put_u8s_loop s i)) = 0"
proof (induction s i rule: put_u8s_loop.induct)
  case (1 s i)
  then show ?case
    by (subst put_u8s_loop.simps) (auto simp: newline_simps newlines_eq_0 dest: in_set_takeD in_set_dropD)
qed

lemma newlines_truncate [newline_simps]: "newlines s = 0 \<Longrightarrow> newlines (flat (put_truncate s mx)) = 0"
  by (simp add: put_truncate_def put_u8s_def newlines_put_u8s_loop newlines_take newline_simps Let_def)

lemma newlines_glyphs [newline_simps]:
  "newlines bar_sp = 0" "newlines corner = 0" "newlines branch = 0" "newlines TREE_GLYPH = 0"
  by (simp_all add: newlines_eq_0 bar_sp_def corner_def branch_def TREE_GLYPH_def)

lemma newlines_indent [newline_simps]: "newlines (flat (put_indent ind)) = 0"
  by (auto simp: put_indent_def flat_def newlines_concat comp_def newline_simps Let_def)

lemma newlines_fg [newline_simps]:
  "newlines (flat (put_fg_open c)) = 0" "newlines (flat (put_fg c content)) = newlines (flat content)"
  by (auto simp: put_fg_def put_fg_open_def FG_CLOSE_def ESC_def newline_simps split: prod.split)

lemma newlines_trailers [newline_simps]:
  "newlines EOL = 1" "newlines FG_CLOSE_EOL = 1" "newlines CURSOR_HOME = 0" "newlines CLEAR_TO_END = 0" "newlines BOLD = 0"
  by (simp_all add: EOL_def FG_CLOSE_EOL_def CURSOR_HOME_def CLEAR_TO_END_def BOLD_def ESC_def newline_simps)

lemma newlines_rule [newline_simps]:
  "newlines (concat (replicate n (encode_utf8 0x2500))) = 0" "newlines (concat (replicate n (encode_utf8 32))) = 0"
proof -
  have "newlines (encode_utf8 0x2500) = 0" "newlines (encode_utf8 32) = 0"
    by (auto simp: encode_utf8_def newlines_eq_0 dest!: arg_cong [where f = "of_char :: char \<Rightarrow> nat"])
  then show "newlines (concat (replicate n (encode_utf8 0x2500))) = 0" "newlines (concat (replicate n (encode_utf8 32))) = 0"
    by (simp_all add: newlines_concat sum_list_replicate)
qed

lemma newlines_line [newline_simps]: "newlines (flat (line content)) = newlines (flat content) + 1"
  by (simp add: line_def newline_simps)

subsection \<open>Rows\<close>

lemma newlines_emit_rrow:
  assumes "\<And>ti. r = RProc ti \<Longrightarrow> newlines (display (procs ! snd (tree ! ti))) = 0"
  shows "newlines (flat (emit_rrow os procs tree width gt has_g r)) = 1"
proof (cases r)
  case (RProc ti)
  obtain ind idx where "tree ! ti = (ind, idx)" by force
  with RProc assms [OF RProc] show ?thesis
    by (simp add: emit_rrow_def emit_proc_row_def Let_def newline_simps)
next
  case (RElision n c)
  then show ?thesis by (simp add: emit_rrow_def emit_elision_row_def Let_def newline_simps)
qed

lemma render_groups_rows:
  assumes "\<forall>r \<in> set roots. r < length tree" "\<forall>k \<in> set ks. k < length roots"
  shows "RProc ti \<in> set (render_groups os procs tree roots gt cb tc allocated ks) \<Longrightarrow> ti < length tree"
  using assms(2)
proof (induction ks arbitrary: allocated)
  case (Cons k ks)
  obtain limit used where lu: "limit_used (slot_for (length roots) cb tc k (kids_in (length tree) roots k) allocated)
      (kids_in (length tree) roots k) = (limit, used)" by force
  from limit_used_le [OF this] have "limit \<le> kids_in (length tree) roots k" by simp
  moreover have "roots ! k < length tree" "k + 1 < length roots \<Longrightarrow> roots ! (k + 1) < length tree"
    using assms(1) Cons.prems(2) by (auto simp: nth_mem)
  ultimately have "roots ! k + 1 + limit \<le> length tree \<or> limit = 0"
    by (auto simp: kids_in_def Let_def split: if_splits)
  with Cons lu \<open>roots ! k < length tree\<close> show ?case by (auto simp: Let_def split: if_splits)
qed simp

lemma newlines_render_tree:
  assumes "\<forall>r \<in> set roots. r < length tree" "\<forall>ti < length tree. newlines (display (procs ! snd (tree ! ti))) = 0"
  shows "newlines (flat (render_tree os procs tree roots max_rows width gt has_g)) =
    length (render_rows os procs tree roots max_rows gt)"
proof -
  let ?rows = "render_rows os procs tree roots max_rows gt"
  let ?emit = "emit_rrow os procs tree width gt has_g"
  have "newlines (flat (?emit r)) = 1" if "r \<in> set ?rows" for r
  proof (rule newlines_emit_rrow)
    fix ti assume "r = RProc ti"
    with that have "RProc ti \<in> set ?rows" by simp
    then have "ti < length tree"
      unfolding render_rows_def Let_def using assms(1) by (intro render_groups_rows) auto
    with assms(2) show "newlines (display (procs ! snd (tree ! ti))) = 0" by blast
  qed
  then have "sum_list (List.map (\<lambda>r. newlines (flat (?emit r))) ?rows) = length ?rows"
    by (induction ?rows rule: list.induct) (simp_all add: sum_list_triv cong: map_cong)
  moreover have "newlines (flat (concat (List.map ?emit rs))) = sum_list (List.map (\<lambda>r. newlines (flat (?emit r))) rs)" for rs
    by (induction rs) (simp_all add: newline_simps)
  ultimately show ?thesis by (simp add: render_tree_def)
qed

subsection \<open>The frame\<close>

text \<open>The rows of a layout index the list, and its roots are as the row budget expects them.\<close>

lemma tree_layout_rows:
  assumes "pids_distinct procs" "tree_layout procs = Some (Inr tree)"
  shows "\<forall>ti < length tree. snd (tree ! ti) < length procs" and "roots_wf (length tree) (roots_in tree)"
proof -
  obtain forest where f: "list_all2 (tree_of procs) (roots_of procs) forest" using forest_exists by blast
  let ?v = "concat (List.map (visit []) forest)"
  have tree: "tree = List.map to_row ?v" using tree_layout_forest [OF assms(1) f] assms(2) by simp
  have "List.map snd ?v = concat (List.map nodes forest)" by (simp add: map_concat map_snd_visit comp_def)
  then have "snd ` set ?v = {i. i < length procs \<and> rooted procs i}" by (metis forest_nodes(2) [OF f] set_map)
  then have "snd x < length procs" if "x \<in> set ?v" for x using that by blast
  then have "\<forall>x \<in> set tree. snd x < length procs" unfolding tree by (simp add: to_row_def)
  then show "\<forall>ti < length tree. snd (tree ! ti) < length procs" by (simp add: nth_mem)
  have "is_root (fst (tree ! 0))" if "0 < length tree"
  proof -
    from that obtain t ts where "forest = t # ts" unfolding tree by (cases forest) auto
    then have "tree ! 0 = to_row ([], top t)" unfolding tree by (cases t) simp
    then show ?thesis by (simp add: to_row_def is_root_indent_of)
  qed
  then have "roots_in tree \<noteq> [] \<and> roots_in tree ! 0 = 0" if "0 < length tree"
    using that by (simp add: roots_in_def upt_conv_Cons)
  then show "roots_wf (length tree) (roots_in tree)"
    by (auto simp: roots_wf_def roots_in_def intro: sorted_wrt_filter)
qed

lemma tree_layout_exists: "pids_distinct procs \<Longrightarrow> \<exists>tree. tree_layout procs = Some (Inr tree)"
  using forest_exists tree_layout_forest by blast

definition ends_line :: "string \<Rightarrow> bool" where
  "ends_line s \<longleftrightarrow> s \<noteq> [] \<and> List.last s = CHR 0x0A"

lemma ends_line_append: "ends_line t \<Longrightarrow> ends_line (s @ t)" "ends_line t \<Longrightarrow> ends_line (c # t)"
  by (simp_all add: ends_line_def)

lemma ends_line_trailers: "ends_line EOL" "ends_line FG_CLOSE_EOL"
  by (simp_all add: ends_line_def EOL_def FG_CLOSE_EOL_def)

lemma ends_line_line: "ends_line (flat (line content))"
  by (simp add: line_def ends_line_append ends_line_trailers)

lemma ends_line_emit: "ends_line (flat (emit_rrow os procs tree width gt has_g r))"
  by (cases r)
    (auto simp: emit_rrow_def emit_proc_row_def emit_elision_row_def Let_def split: prod.split
       intro!: ends_line_append ends_line_trailers)

lemma ends_line_render:
  "render_rows os procs tree roots max_rows gt \<noteq> [] \<Longrightarrow>
   ends_line (flat (render_tree os procs tree roots max_rows width gt has_g))"
  by (cases "render_rows os procs tree roots max_rows gt" rule: rev_cases)
    (simp_all add: render_tree_def ends_line_append(1) ends_line_emit)

lemma ends_line_frame: "ends_line (flat (put_frame env t gi procs tree width height))"
proof (cases "render_rows (re_os env) procs tree (roots_in tree) (height - 4) (gi_total_mib gi) = []")
  case True
  then have "render_tree (re_os env) procs tree (roots_in tree) (height - 4) width (gi_total_mib gi) (has_gpu env) = []"
    by (simp add: render_tree_def)
  then show ?thesis
    by (cases "procs = []") (simp_all add: put_frame_def ends_line_append ends_line_line)
qed (simp add: put_frame_def ends_line_append ends_line_render)

lemma newlines_header:
  "newlines (flat (put_header env t gi)) = newlines (flat (fst (load_avg env t)))"
  by (simp add: put_header_def put_mem_info_def put_gpu_info_def newline_simps Let_def
        split: prod.split target_os.split)

lemma newlines_columns [newline_simps]: "newlines (flat (put_columns env)) = 1"
  by (simp add: put_columns_def newline_simps GPU_HEADER_def split: target_os.split)

lemma newlines_frame:
  assumes "pids_distinct procs" "tree_layout procs = Some (Inr tree)"
    and "newlines (flat (fst (load_avg env t))) = 0" "\<forall>p \<in> set procs. newlines (display p) = 0"
  shows "newlines (flat (put_frame env t gi procs tree width height)) =
    4 + (if procs = [] then 1 else 0) +
    length (render_rows (re_os env) procs tree (roots_in tree) (height - 4) (gi_total_mib gi))"
proof -
  note rows = tree_layout_rows [OF assms(1,2)]
  have "\<forall>ti < length tree. newlines (display (procs ! snd (tree ! ti))) = 0"
    using rows(1) assms(4) by (simp add: nth_mem)
  moreover have "\<forall>r \<in> set (roots_in tree). r < length tree" by (simp add: roots_in_def)
  ultimately show ?thesis
    by (simp add: put_frame_def newline_simps newlines_header assms(3) newlines_render_tree)
qed

lemma render_rows_no_roots: "render_rows os procs tree [] max_rows gt = []"
  by (simp add: render_rows_def)

subsection \<open>Properties\<close>

text \<open>C6: a frame never scrolls the terminal it is drawn on: it has fewer newlines than the terminal has
  rows, or than the four fixed lines (five with no process to show) need where the terminal is smaller
  than these; and when the terminal has four rows more than the tree, every row of the tree is drawn. This
  rests on the labels, command lines and the load text holding no newline.\<close>

theorem frame_fits:
  assumes "pids_distinct procs" "tree_layout procs = Some (Inr tree)"
    and "term_size (fst (tk_winsize t)) (fst (snd (tk_winsize t))) (snd (snd (tk_winsize t))) = (width, height)"
    and "newlines (flat (fst (load_avg env t))) = 0" "\<forall>p \<in> set procs. newlines (display p) = 0"
  shows "newlines (frame_bytes env t gi procs tree) < max height (if procs = [] then 5 else 4) \<and>
    (length tree + 4 \<le> height \<longrightarrow>
      render_rows (re_os env) procs tree (roots_in tree) (height - 4) (gi_total_mib gi) = List.map RProc [0 ..< length tree])"
proof -
  let ?rows = "render_rows (re_os env) procs tree (roots_in tree) (height - 4) (gi_total_mib gi)"
  note rows = tree_layout_rows [OF assms(1,2)]
  have "tree = []" if "procs = []" using rows(1) that by auto
  then have none: "?rows = []" if "procs = []" using that by (simp add: roots_in_def render_rows_no_roots)
  let ?f = "flat (put_frame env t gi procs tree width height)"
  have "Suc (newlines (butlast ?f)) = newlines ?f"
    using ends_line_frame newlines_butlast by (simp add: ends_line_def)
  also have "\<dots> = 4 + (if procs = [] then 1 else 0) + length ?rows" by (rule newlines_frame [OF assms(1,2,4,5)])
  finally have "newlines (frame_bytes env t gi procs tree) + 1 = 4 + (if procs = [] then 1 else 0) + length ?rows"
    by (simp add: frame_bytes_def assms(3) newline_simps)
  moreover have "length ?rows \<le> height - 4" by (rule render_rows_length)
  ultimately have "newlines (frame_bytes env t gi procs tree) < max height (if procs = [] then 5 else 4)"
    using none by (auto simp: max_def)
  moreover have "?rows = List.map RProc [0 ..< length tree]" if "length tree + 4 \<le> height"
    using rows(2) that by (intro render_rows_all) simp_all
  ultimately show ?thesis by blast
qed

definition sample_env :: run_env where
  "sample_env = \<lparr>re_os = Linux, re_page_size = 4096, re_num_cpus = 1, re_boot = 0, re_my_pid = 9, re_mach_tps = 1,
     re_label_dir = - 1, re_rm = rm_no_gpu, re_agx = (0, 0)\<rparr>"

definition sample_tick :: tick_in where
  "sample_tick = \<lparr>tk_now = 5, tk_wall = 100, tk_winsize = (- 25, 0, 0), tk_rm_gpus = [], tk_accels = None,
     tk_linux = \<lparr>ls_pids = Some [1, 9], ls_stat = (\<lambda>_. None), ls_cmdline = (\<lambda>_. [])\<rparr>,
     tk_mac = \<lparr>ms_pids = None, ms_task = (\<lambda>_. None), ms_bsdinfo = (\<lambda>_. (0, [])), ms_name = (\<lambda>_. []),
       ms_args_size = (\<lambda>_. None), ms_args = (\<lambda>_. None)\<rparr>,
     tk_files = (\<lambda>_. None), tk_loads = None, tk_mem = (0, 0, None), tk_bsd = (\<lambda>_. []), tk_label_fd = (\<lambda>_. - 9),
     tk_label_batches = [], tk_label_read = (\<lambda>_. None)\<rparr>"

lemma sample_load: "newlines (flat (fst (load_avg sample_env sample_tick))) = 0"
  by (simp add: load_avg_def sample_env_def sample_tick_def read_small_file_def load_avg_linux_def put_load_avg_def
      Let_def newline_simps)

theorem frame_fits_witness:
  "\<exists>tree. tree_layout [proc_default\<lparr>pid := 1\<rparr>] = Some (Inr tree) \<and>
     newlines (frame_bytes sample_env sample_tick (gpu_collect ([], 0, 0, 0, 0)) [proc_default\<lparr>pid := 1\<rparr>] tree) < 24"
proof -
  let ?ps = "[proc_default\<lparr>pid := 1\<rparr>]"
  have d: "pids_distinct ?ps" by (simp add: pids_distinct_def)
  then obtain tree where tree: "tree_layout ?ps = Some (Inr tree)" using tree_layout_exists by blast
  have sz: "term_size (fst (tk_winsize sample_tick)) (fst (snd (tk_winsize sample_tick))) (snd (snd (tk_winsize sample_tick)))
      = (80, 24)"
    by (simp add: sample_tick_def term_size_def)
  have "\<forall>p \<in> set ?ps. newlines (display p) = 0" by (simp add: proc_default_def newline_simps)
  from frame_fits [OF d tree sz sample_load this, of "gpu_collect ([], 0, 0, 0, 0)"] tree show ?thesis by auto
qed

end
