(* ===== verification/Turn.thy ===== *)
theory Turn
  imports Frame
begin

text \<open>
  What one turn guarantees: it returns, on whatever the system reports in the expected shapes; and the
  entries it keeps are the next turn's memory of every process, shown or not, with the mark of those shown.
\<close>

subsection \<open>What the system reports\<close>

definition listed_once :: "run_env \<Rightarrow> tick_in \<Rightarrow> bool" where
  "listed_once env t \<longleftrightarrow>
     (case re_os env of
        Linux \<Rightarrow> (case ls_pids (tk_linux t) of None \<Rightarrow> True | Some pids \<Rightarrow> distinct pids)
      | Macos \<Rightarrow> (case ms_pids (tk_mac t) of None \<Rightarrow> True | Some pids \<Rightarrow> distinct pids))"

definition stats_parse :: "run_env \<Rightarrow> tick_in \<Rightarrow> bool" where
  "stats_parse env t \<longleftrightarrow>
     (re_os env = Linux \<longrightarrow>
        (\<forall>p s. ls_stat (tk_linux t) p = Some s \<longrightarrow> parse_stat s \<noteq> None) \<and>
        (\<forall>ds s. tk_files t (''/proc/'' @ ds @ ''/stat'') = Some s \<longrightarrow> parse_stat (take 480 s) \<noteq> None))"

text \<open>The label directory, when it opens, is read in well-formed batches.\<close>

definition labels_listed :: "run_env \<Rightarrow> tick_in \<Rightarrow> bool" where
  "labels_listed env t \<longleftrightarrow>
     tk_label_fd t (re_label_dir env) < 0 \<or>
     (\<exists>bs. (\<forall>b \<in> set bs. b \<noteq> [] \<and> (\<forall>e \<in> set b. dirent_ok (re_os env) e)) \<and>
        tk_label_batches t = List.map (\<lambda>b. concat (List.map dirent_bytes b)) bs @ [[]])"

subsection \<open>The collection\<close>

text \<open>Rows and entries in lockstep, no entry marked, every pid once.\<close>

definition lockstep :: "proc_info list \<Rightarrow> (u32 \<times> u32) list \<Rightarrow> bool" where
  "lockstep procs nxt \<longleftrightarrow>
     List.map fst nxt = List.map pid procs \<and> list_all (\<lambda>e. \<not> packed_visible (snd e)) nxt \<and> pids_distinct procs"

lemma collect_linux_lockstep:
  assumes "collect_procs_linux src me ps ct b w ti = Some (procs, nxt)" "ls_pids src = Some pids" "distinct pids"
  shows "lockstep procs nxt"
proof -
  have "list_all (\<lambda>e. \<not> packed_visible (snd e)) nxt"
  proof -
    let ?f = "\<lambda>p. linux_proc ps ct b w ti p (ls_stat src p) (ls_cmdline src p)"
    from assms(1,2) obtain rows where r: "List.map ?f (List.filter (\<lambda>p. p \<noteq> me) pids) = List.map Some rows"
      "nxt = List.map snd rows"
      by (auto simp: collect_procs_linux_def those_map_Some)
    have "\<not> packed_visible (snd (snd row))" if "row \<in> set rows" for row
    proof -
      from that have "Some row \<in> set (List.map ?f (List.filter (\<lambda>p. p \<noteq> me) pids))" unfolding r(1) by simp
      then obtain p where "?f p = Some row" by auto
      then show ?thesis using linux_proc_pid [where row = "fst row" and nxt = "snd row"] by simp
    qed
    then show ?thesis by (simp add: r(2) list_all_iff)
  qed
  with collect_procs_linux_pids [OF assms(1,2)] assms(3) show ?thesis
    by (simp add: lockstep_def pids_distinct_def)
qed

lemma distinct_map_ucast: "distinct (ps :: i32 list) \<Longrightarrow> distinct (List.map (\<lambda>p. ucast p :: u32) ps)"
  by (simp add: distinct_map inj_on_def)

lemma collect_macos_lockstep:
  assumes "collect_procs_macos src me w tps ti = (procs, nxt)" "ms_pids src = Some pids" "distinct pids"
  shows "lockstep procs nxt"
proof -
  let ?live = "List.map (\<lambda>p. ucast p :: u32) (List.filter (\<lambda>p. 0 < sint p \<and> ucast p \<noteq> me) pids)"
  let ?f = "macos_proc src w tps ti"
  have f: "pid (fst (?f p)) = p \<and> fst (snd (?f p)) = p \<and> \<not> packed_visible (snd (snd (?f p)))" for p
    using macos_proc_pid [of src w tps ti p "fst (?f p)" "snd (?f p)"] by simp
  have "distinct ?live" using assms(3) by (intro distinct_map_ucast) simp
  moreover from assms have "procs = List.map (fst \<circ> ?f) ?live" "nxt = List.map (snd \<circ> ?f) ?live"
    by (auto simp: collect_procs_macos_def Let_def)
  ultimately show ?thesis
    by (simp add: lockstep_def pids_distinct_def f comp_def list_all_iff)
qed

lemma lockstep_Nil: "lockstep [] []"
  by (simp add: lockstep_def pids_distinct_def)

lemma collect_lockstep:
  assumes "collect_procs env t ti = Some (procs, nxt)" "listed_once env t"
  shows "lockstep procs nxt"
proof (cases "re_os env")
  case Linux
  show ?thesis
  proof (cases "ls_pids (tk_linux t)")
    case None
    with Linux assms(1) show ?thesis by (simp add: collect_procs_def collect_procs_linux_def lockstep_Nil)
  next
    case (Some pids)
    with Linux assms show ?thesis
      by (intro collect_linux_lockstep [OF _ Some]) (auto simp: collect_procs_def listed_once_def)
  qed
next
  case Macos
  show ?thesis
  proof (cases "ms_pids (tk_mac t)")
    case None
    with Macos assms(1) show ?thesis by (simp add: collect_procs_def collect_procs_macos_def lockstep_Nil)
  next
    case (Some pids)
    with Macos assms show ?thesis
      by (intro collect_macos_lockstep [OF _ Some]) (auto simp: collect_procs_def listed_once_def)
  qed
qed

subsection \<open>The selection\<close>

lemma attach_gpu_links [simp]:
  "pid (attach_gpu os gi p) = pid p" "ppid (attach_gpu os gi p) = ppid p" "display (attach_gpu os gi p) = display p"
  by (simp_all add: attach_gpu_def split: option.split)

lemma pid_coalesced: "List.map pid (coalesced os procs) = List.map pid procs"
  using same_links_coalesce
  by (auto simp: coalesced_def same_links_def intro!: nth_equalityI split: sum.split)

text \<open>What a selection does to a collection in lockstep: it returns, in ascending order of pid and each
  once, processes of the collection, and marks exactly their entries.\<close>

definition marked :: "u32 set \<Rightarrow> u32 \<times> u32 \<Rightarrow> u32 \<times> u32" where
  "marked shown e = (if fst e \<in> shown then (fst e, packed_set_visible (snd e)) else e)"

lemma fst_marked [simp]: "fst (marked shown e) = fst e" by (simp add: marked_def)

lemma select_procs_marks:
  assumes "collect_procs env t \<lparr>ti_gpu_pids = gpu_pids (re_os env) gi, ti_prev = prev, ti_dt = dt\<rparr> = Some (procs, nxt)"
    and "lockstep procs nxt"
  shows "\<exists>shown. select_procs env prev t gi dt = Some (shown, List.map (marked (pid ` set shown)) nxt) \<and>
    sorted (List.map pid shown) \<and> pids_distinct shown \<and> pid ` set shown \<subseteq> pid ` set procs"
proof -
  let ?ps = "List.map (attach_gpu (re_os env) gi) procs"
  let ?P = "coalesced (re_os env) ?ps"
  have pids: "List.map pid ?ps = List.map pid procs" by (simp add: comp_def)
  then have d: "pids_distinct ?ps" using assms(2) by (simp add: lockstep_def pids_distinct_def del: map_map)
  have len: "length nxt = length ?ps" using assms(2) by (metis lockstep_def length_map)
  have P: "List.map pid ?P = List.map pid procs" by (simp only: pid_coalesced pids)
  then have lenP: "length ?P = length procs" by (metis length_map)
  from filter_with_children_result [where procs = "\<lparr>fv_capacity = length procs, fv_elems = ?ps\<rparr>" and nxt = nxt and prev = prev
      and os = "re_os env", simplified fvec.simps, OF d len refl]
  obtain procs2 nxt' where
    r: "filter_with_children (re_os env) \<lparr>fv_capacity = length procs, fv_elems = ?ps\<rparr> prev nxt =
      Some (Inr (\<lparr>fv_capacity = length procs, fv_elems = List.filter visible procs2\<rparr>, nxt'))"
      "length procs2 = length ?P" "\<forall>j < length ?P. state_ok prev ?P {i. reached ?P i} j (procs2 ! j)"
      "length nxt' = length ?P" "\<forall>j < length ?P. nxt' ! j =
        (if visible (procs2 ! j) then (fst (nxt ! j), packed_set_visible (snd (nxt ! j))) else nxt ! j)" by blast
  have same: "pid (procs2 ! j) = pid (procs ! j)" if "j < length procs" for j
  proof -
    have "pid (procs2 ! j) = pid (?P ! j)" using r(3) that lenP by (simp add: state_ok_def same_stats_def)
    also have "\<dots> = pid (procs ! j)" using P that lenP by (metis nth_map)
    finally show ?thesis .
  qed
  then have p2: "List.map pid procs2 = List.map pid procs" using r(2) lenP by (intro nth_equalityI) simp_all
  define shown where "shown = sort_by_u32_key pid (List.filter visible procs2)"
  have sel: "select_procs env prev t gi dt = Some (shown, nxt')"
    by (simp add: select_procs_def assms(1) Let_def r(1) returned_def shown_def)
  have vis: "pid (procs2 ! j) \<in> pid ` set shown \<longleftrightarrow> visible (procs2 ! j)" if "j < length procs" for j
  proof -
    have inj: "inj_on pid (set procs2)" using assms(2) p2 by (metis lockstep_def pids_distinct_def distinct_map)
    have "procs2 ! j \<in> set procs2" using that r(2) lenP by simp
    then show ?thesis using inj_onD [OF inj] by (auto simp: shown_def image_iff)
  qed
  have "nxt' = List.map (marked (pid ` set shown)) nxt"
  proof (rule nth_equalityI)
    fix j assume "j < length nxt'"
    then have j: "j < length procs" using r(4) lenP by simp
    have "List.map fst nxt ! j = List.map pid procs ! j" using assms(2) by (simp add: lockstep_def)
    then have "fst (nxt ! j) = pid (procs ! j)" using j len by simp
    then show "nxt' ! j = List.map (marked (pid ` set shown)) nxt ! j"
      using r(5) vis [OF j] same [OF j] j len lenP by (simp add: marked_def)
  qed (use r(4) len lenP in simp)
  moreover have "sorted (List.map pid shown)" by (simp add: shown_def)
  moreover have "pids_distinct shown"
  proof -
    have "distinct (List.map pid procs2)" using assms(2) p2 by (simp add: lockstep_def pids_distinct_def)
    then have "distinct (List.map pid (List.filter visible procs2))" by (rule distinct_map_filter)
    then have "distinct (List.map pid shown)"
      unfolding shown_def by (metis mset_map mset_sort_by_u32_key mset_eq_imp_distinct_iff)
    then show ?thesis by (simp add: pids_distinct_def)
  qed
  moreover have "pid ` set shown \<subseteq> pid ` set procs"
    using p2 by (auto simp: shown_def) (metis image_eqI set_map)
  ultimately show ?thesis using sel by blast
qed

subsection \<open>The turn\<close>

lemma parse_proc_stat_returns: "parse_stat s \<noteq> None \<Longrightarrow> \<exists>ps. parse_proc_stat page_size ct boot now s = Some ps"
  by (auto simp: parse_proc_stat_def Let_def split_beta)

lemma collect_returns:
  assumes "stats_parse env t"
  shows "collect_procs env t ti \<noteq> None"
proof (cases "re_os env")
  case Linux
  let ?src = "tk_linux t"
  let ?f = "\<lambda>p. linux_proc (re_page_size env) 100 (re_boot env) (tk_wall t) ti p (ls_stat ?src p) (ls_cmdline ?src p)"
  have "?f p \<noteq> None" for p
  proof (cases "ls_stat ?src p")
    case (Some s)
    with assms Linux have "parse_stat s \<noteq> None" by (simp only: stats_parse_def simp_thms)
    then obtain ps where "parse_proc_stat (re_page_size env) 100 (re_boot env) (tk_wall t) s = Some ps"
      using parse_proc_stat_returns by blast
    with Some show ?thesis by (simp add: linux_proc_def)
  qed (simp add: linux_proc_def)
  then have "those (List.map ?f ps) \<noteq> None" for ps
    by (induction ps) (auto split: option.split)
  with Linux show ?thesis by (auto simp: collect_procs_def collect_procs_linux_def split: option.splits)
qed (simp add: collect_procs_def)

lemma apply_labels_pids:
  assumes "stats_parse env t" "labels_listed env t" "pids_distinct procs"
  shows "\<exists>procs1 gone. apply_labels env t procs = Some (procs1, gone) \<and> List.map pid procs1 = List.map pid procs"
proof (cases "tk_label_fd t (re_label_dir env) < 0")
  case True
  then show ?thesis by (simp add: apply_labels_def label_apply_def pid_dir_at_def)
next
  case False
  then obtain d where d: "pid_dir_at (tk_label_fd t (re_label_dir env)) = Some d" "before d []"
    by (simp add: pid_dir_at_def before_def)
  from False assms(2) obtain es where es: "pid_entries (re_os env) (tk_label_batches t) d = Some es"
    using pid_entries_dir [OF _ d(2)] by (auto simp: labels_listed_def)
  let ?st = "case re_os env of Linux \<Rightarrow> start_time_linux (tk_files t) | Macos \<Rightarrow> start_time_macos (tk_bsd t)"
  have "?st p name \<noteq> None" for p name
  proof (cases "re_os env")
    case Linux
    have parse: "\<exists>r. parse_stat s = Some r" if "read_small_file (tk_files t) (''/proc/'' @ ds @ ''/stat'') 480 = Some s" for ds s
    proof -
      from that obtain c where c: "tk_files t (''/proc/'' @ ds @ ''/stat'') = Some c" "s = take 480 c"
        by (simp only: read_small_file_def Let_def) (auto split: option.splits if_splits)
      with assms(1) Linux have "parse_stat s \<noteq> None" by (simp only: stats_parse_def simp_thms)
      then show ?thesis by blast
    qed
    show ?thesis
    proof (cases "copy_pid 6 name")
      case (Some ds)
      show ?thesis
      proof (cases "read_small_file (tk_files t) (''/proc/'' @ ds @ ''/stat'') 480")
        case None
        then show ?thesis by (simp only: start_time_linux_def Linux Some target_os.case option.case) simp
      next
        case s: (Some s)
        from parse [OF this] obtain r where "parse_stat s = Some r" by blast
        then show ?thesis
          by (simp only: start_time_linux_def Linux Some s target_os.case option.case) (simp split: prod.split)
      qed
    qed (simp add: start_time_linux_def Linux)
  qed (simp add: start_time_macos_def Let_def)
  then have st: "\<forall>(p, start, name) \<in> set es. start \<noteq> NO_START \<longrightarrow> ?st p name \<noteq> None" by auto
  have "pids_once procs" using assms(3) by (simp add: pids_once_def pids_distinct_def)
  note all = apply_all_spec [OF this st, of "tk_label_read t" "[]"]
  show ?thesis
    unfolding apply_labels_def label_apply_def d(1) option.case es Option.bind.simps all by (simp add: comp_def)
qed

text \<open>The turn on the system's reports in their expected shapes, with what it selected.\<close>

definition tick_gpu :: "run_env \<Rightarrow> loop_state \<Rightarrow> tick_in \<Rightarrow> gpu_info" where
  "tick_gpu env st t = fst (gpu_snapshot env (lp_gpu_prev st) t (tick_dt_ns (tick_dt st t)))"

definition tick_thresholds :: "run_env \<Rightarrow> loop_state \<Rightarrow> tick_in \<Rightarrow> thresholds_in" where
  "tick_thresholds env st t =
     \<lparr>ti_gpu_pids = gpu_pids (re_os env) (tick_gpu env st t), ti_prev = lp_prev st, ti_dt = tick_dt st t\<rparr>"

definition tick_shown :: "run_env \<Rightarrow> loop_state \<Rightarrow> tick_in \<Rightarrow> (proc_info list \<times> (u32 \<times> u32) list) option" where
  "tick_shown env st t = select_procs env (lp_prev st) t (tick_gpu env st t) (tick_dt st t)"

lemma tick_eq:
  "tick env st t =
     Option.bind (tick_shown env st t) (\<lambda>(procs, nxt).
     Option.bind (apply_labels env t procs) (\<lambda>(procs1, gone).
     Option.bind (returned (tree_layout procs1)) (\<lambda>tree.
       Some (frame_bytes env t (tick_gpu env st t) procs1 tree, gone,
         \<lparr>lp_gpu_prev = snd (gpu_snapshot env (lp_gpu_prev st) t (tick_dt_ns (tick_dt st t))),
          lp_prev = sort_by_u32_key fst nxt, lp_time = tk_now t\<rparr>))))"
  by (simp add: tick_def tick_shown_def tick_gpu_def Let_def split: prod.split)

lemma tick_shown_marks:
  assumes "listed_once env t" "collect_procs env t (tick_thresholds env st t) = Some (procs, nxt)"
  shows "\<exists>shown. tick_shown env st t = Some (shown, List.map (marked (pid ` set shown)) nxt) \<and>
    sorted (List.map pid shown) \<and> pids_distinct shown \<and> pid ` set shown \<subseteq> pid ` set procs"
  using select_procs_marks [OF assms(2) [unfolded tick_thresholds_def] collect_lockstep [OF assms(2,1)]]
  by (simp add: tick_shown_def)

lemma tick_total:
  assumes "listed_once env t" "stats_parse env t" "labels_listed env t"
  shows "\<exists>frame gone st'. tick env st t = Some (frame, gone, st')"
proof -
  obtain procs nxt where "collect_procs env t (tick_thresholds env st t) = Some (procs, nxt)"
    using collect_returns [OF assms(2)] by (metis option.exhaust surj_pair)
  from tick_shown_marks [OF assms(1) this] obtain shown nxt1 where
    sh: "tick_shown env st t = Some (shown, nxt1)" "pids_distinct shown" by blast
  from apply_labels_pids [OF assms(2,3) sh(2)] obtain procs1 gone where
    l: "apply_labels env t shown = Some (procs1, gone)" "List.map pid procs1 = List.map pid shown" by blast
  then have "pids_distinct procs1" using sh(2) by (simp add: pids_distinct_def)
  then obtain tree where "tree_layout procs1 = Some (Inr tree)" using tree_layout_exists by blast
  then show ?thesis by (simp add: tick_eq sh(1) l(1) returned_def)
qed

lemma map_of_marked:
  "map_of (List.map (marked S) nxt) p =
     (case map_of nxt p of None \<Rightarrow> None | Some e \<Rightarrow> Some (if p \<in> S then packed_set_visible e else e))"
  by (induction nxt) (auto simp: marked_def)

lemma map_get_sorted:
  assumes "distinct (List.map fst xs)"
  shows "sorted_wrt (<) (List.map fst (sort_by_u32_key fst xs))" and "map_get (sort_by_u32_key fst xs) p = map_of xs p"
proof -
  let ?s = "sort_by_u32_key fst xs"
  have d: "distinct (List.map fst ?s)"
    using assms by (metis mset_map mset_sort_by_u32_key mset_eq_imp_distinct_iff)
  then show s: "sorted_wrt (<) (List.map fst ?s)" by (simp add: strict_sorted_iff)
  have "map_of ?s p = map_of xs p"
  proof (cases "map_of xs p")
    case None
    then have "map_of ?s p = None" by (simp add: map_of_eq_None_iff)
    with None show ?thesis by simp
  next
    case (Some e)
    then show ?thesis using d assms by (simp add: map_of_eq_Some_iff)
  qed
  then show "map_get ?s p = map_of xs p" by (simp add: map_get_map_of [OF s])
qed

subsection \<open>Properties\<close>


lemma sample_shapes:
  "listed_once sample_env sample_tick" "stats_parse sample_env sample_tick" "labels_listed sample_env sample_tick"
  by (simp_all add: listed_once_def stats_parse_def labels_listed_def sample_env_def sample_tick_def)


text \<open>C5: what a turn remembers is exact: its entries are in strictly ascending order of pid (so the next
  turn's binary search finds them), one per process the collection saw, each with the CPU counter the
  collection packed, and the visible bit of an entry is set exactly if its process was shown; the time
  kept is the turn's own.\<close>

theorem tick_remembers:
  assumes "listed_once env t" "tick env st t = Some (frame, gone, st')"
    and "collect_procs env t (tick_thresholds env st t) = Some (procs, nxt)"
    and "tick_shown env st t = Some (shown, nxt1)"
  shows "sorted_wrt (<) (List.map fst (lp_prev st')) \<and> fst ` set (lp_prev st') = pid ` set procs \<and>
    lp_time st' = tk_now t \<and> sorted (List.map pid shown) \<and> pids_distinct shown \<and>
    (\<forall>p. map_option packed_cpu_bits (map_get (lp_prev st') p) = map_option packed_cpu_bits (map_of nxt p)) \<and>
    (\<forall>p. map_option packed_visible (map_get (lp_prev st') p) = map_option (\<lambda>_. p \<in> pid ` set shown) (map_of nxt p))"
proof -
  have ls: "lockstep procs nxt" by (rule collect_lockstep [OF assms(3,1)])
  from tick_shown_marks [OF assms(1,3)] assms(4) have sh: "nxt1 = List.map (marked (pid ` set shown)) nxt"
    "sorted (List.map pid shown)" "pids_distinct shown" by auto
  have st': "lp_prev st' = sort_by_u32_key fst nxt1" "lp_time st' = tk_now t"
    using assms(2,4) by (auto simp: tick_eq bind_eq_Some_conv)
  have d: "distinct (List.map fst nxt1)"
    using ls by (simp add: sh(1) lockstep_def pids_distinct_def comp_def)
  have fst_nxt: "fst ` set nxt = pid ` set procs" using ls by (metis lockstep_def set_map)
  have vis: "\<not> packed_visible e" if "map_of nxt p = Some e" for p e
    using map_of_SomeD [OF that] ls by (auto simp: lockstep_def list_all_iff)
  have get: "map_get (lp_prev st') p = map_of nxt1 p" for p by (simp add: st' map_get_sorted(2) [OF d])
  show ?thesis
  proof (intro conjI allI)
    show "sorted_wrt (<) (List.map fst (lp_prev st'))" by (simp add: st' map_get_sorted(1) [OF d])
    show "fst ` set (lp_prev st') = pid ` set procs" by (simp add: st' sh(1) image_image fst_nxt)
    show "map_option packed_cpu_bits (map_get (lp_prev st') p) = map_option packed_cpu_bits (map_of nxt p)" for p
      by (simp add: get sh(1) map_of_marked split: option.split)
    show "map_option packed_visible (map_get (lp_prev st') p) = map_option (\<lambda>_. p \<in> pid ` set shown) (map_of nxt p)" for p
      using vis [of p] by (auto simp add: get sh(1) map_of_marked split: option.split)
  qed (use st' sh in simp_all)
qed

theorem tick_remembers_witness:
  "\<exists>frame gone st'. tick sample_env \<lparr>lp_gpu_prev = [], lp_prev = [], lp_time = 0\<rparr> sample_tick = Some (frame, gone, st') \<and>
     lp_time st' = 5"
proof -
  let ?st = "\<lparr>lp_gpu_prev = [], lp_prev = [], lp_time = 0\<rparr>"
  from tick_total [OF sample_shapes] obtain frame gone st' where
    t: "tick sample_env ?st sample_tick = Some (frame, gone, st')" by blast
  from collect_returns [OF sample_shapes(2)] obtain procs nxt where
    c: "collect_procs sample_env sample_tick (tick_thresholds sample_env ?st sample_tick) = Some (procs, nxt)"
    by (metis option.exhaust surj_pair)
  from tick_shown_marks [OF sample_shapes(1) c] obtain shown nxt1 where
    "tick_shown sample_env ?st sample_tick = Some (shown, nxt1)" by blast
  from tick_remembers [OF sample_shapes(1) t c this] t show ?thesis by (simp add: sample_tick_def)
qed

end
