(* ===== verification/Run.thy ===== *)
theory Run
  imports Turn Sandbox
begin

text \<open>
  The command line and the main loop (\<open>parse_args\<close> and \<open>run\<close> in src/main.rs). The flags word carries the
  \<open>--once\<close> bit and the label directory's descriptor from one to the other. The loop is a state machine whose
  events are what the system answers: a turn with its reads and the results of its writes, a read of the
  keyboard, the end of the polls, the last newline.
\<close>

subsection \<open>The command line\<close>

definition FLAG_ONCE :: u64 where "FLAG_ONCE = push_bit 0 1"

text \<open>\<open>--check\<close> writes \<open>ok\<close> and exits.\<close>

datatype launch = Check string | Launch u64

definition parse_args ::
  "string option list \<Rightarrow> string list \<Rightarrow> (string \<Rightarrow> int) \<Rightarrow> (int \<Rightarrow> string \<Rightarrow> int) \<Rightarrow> launch" where
  "parse_args argv envp open_base open_at =
     (if has_arg argv ''--check'' then Check (''ok'' @ [CHR 0x0A])
      else let flags = (if has_arg argv ''--once'' then FLAG_ONCE else 0)
           in Launch (flags OR push_bit 32 (of_int (open_dir open_base open_at envp))))"

definition run_once :: "u64 \<Rightarrow> bool" where "run_once flags \<longleftrightarrow> flags AND FLAG_ONCE \<noteq> 0"

definition run_label_dir :: "u64 \<Rightarrow> int" where
  "run_label_dir flags = sint (ucast (drop_bit 32 flags) :: i32)"

definition AT_FDCWD :: "target_os \<Rightarrow> int" where
  "AT_FDCWD os = (case os of Linux \<Rightarrow> - 100 | Macos \<Rightarrow> - 2)"

subsection \<open>The loop\<close>

datatype phase = Turning | Polling nat | Leaving | Exited | Aborted

text \<open>\<open>rn_turns\<close> counts the frames drawn so far; the program has no such counter.\<close>

record 'f run_state =
  rn_phase :: phase
  rn_loop :: loop_state
  rn_steps :: nat
  rn_tty :: "'f tty"
  rn_guard :: "'f termios option"
  rn_turns :: nat

datatype event =
    Tick tick_in "nat \<Rightarrow> string \<Rightarrow> int"
  | Key "int \<times> u8"
  | Slept
  | LastLine "nat \<Rightarrow> string \<Rightarrow> int"

text \<open>Up to the loop: raw mode unless \<open>--once\<close>, then the sandbox, where it is compiled in; an installation
  that fails exits on the spot.\<close>

definition run_start ::
  "target_os \<Rightarrow> u64 \<Rightarrow> u64 \<Rightarrow> installed option \<Rightarrow> ('l :: len) word tty \<Rightarrow> 'l word run_state" where
  "run_start os flags now sandbox y =
     (let (guard, y1) = (if run_once flags then (None, y) else case enter_raw_mode os y of (orig, y1) \<Rightarrow> (Some orig, y1));
          refused = (case sandbox of Some (Inl _) \<Rightarrow> True | _ \<Rightarrow> False)
      in \<lparr>rn_phase = (if refused then Aborted else Turning),
          rn_loop = \<lparr>lp_gpu_prev = [], lp_prev = [], lp_time = now\<rparr>,
          rn_steps = 6, rn_tty = y1, rn_guard = guard, rn_turns = 0\<rparr>)"

definition quits :: "u8 option \<Rightarrow> bool" where
  "quits k \<longleftrightarrow> k = Some 0x71 \<or> k = Some 0x03 \<or> k = Some 0x1c"

definition drop_guard :: "('l :: len) word termios option \<Rightarrow> 'l word tty \<Rightarrow> 'l word tty" where
  "drop_guard guard y = (case guard of None \<Rightarrow> y | Some orig \<Rightarrow> raw_mode_drop orig y)"

inductive run_step ::
  "run_env \<Rightarrow> bool \<Rightarrow> ('l :: len) word run_state \<Rightarrow> event \<Rightarrow> 'l word run_state \<Rightarrow> bool"
  for env :: run_env and once :: bool where
  turn: "rn_phase s = Turning \<Longrightarrow> tick env (rn_loop s) t = Some (frame, gone, lp) \<Longrightarrow>
      write_stdout wr frame (screen (rn_tty s)) = Some out \<Longrightarrow>
      run_step env once s (Tick t wr)
        (s\<lparr>rn_phase := if once then Leaving else Polling (rn_steps s), rn_loop := lp,
           rn_tty := (rn_tty s)\<lparr>screen := out\<rparr>, rn_turns := Suc (rn_turns s)\<rparr>)"
| turn_aborts: "rn_phase s = Turning \<Longrightarrow> tick env (rn_loop s) t = None \<Longrightarrow>
      run_step env once s (Tick t wr) (s\<lparr>rn_phase := Aborted\<rparr>)"
| quit_key: "rn_phase s = Polling (Suc n) \<Longrightarrow> quits (read_one_stdin r) \<Longrightarrow>
      run_step env once s (Key r) (s\<lparr>rn_phase := Leaving\<rparr>)"
| no_quit_key: "rn_phase s = Polling (Suc n) \<Longrightarrow> \<not> quits (read_one_stdin r) \<Longrightarrow>
      run_step env once s (Key r) (s\<lparr>rn_phase := Polling n\<rparr>)"
| polled: "rn_phase s = Polling 0 \<Longrightarrow>
      run_step env once s Slept (s\<lparr>rn_phase := Turning, rn_steps := 40\<rparr>)"
| leave: "rn_phase s = Leaving \<Longrightarrow> write_stdout wr [CHR 0x0A] (screen (rn_tty s)) = Some out \<Longrightarrow>
      run_step env once s (LastLine wr)
        (s\<lparr>rn_phase := Exited, rn_tty := drop_guard (rn_guard s) ((rn_tty s)\<lparr>screen := out\<rparr>)\<rparr>)"

text \<open>A run: the events in order.\<close>

inductive run_trace ::
  "run_env \<Rightarrow> bool \<Rightarrow> ('l :: len) word run_state \<Rightarrow> event list \<Rightarrow> 'l word run_state \<Rightarrow> bool"
  for env :: run_env and once :: bool where
  trace_nil: "run_trace env once s [] s"
| trace_snoc: "run_trace env once s es s1 \<Longrightarrow> run_step env once s1 e s2 \<Longrightarrow> run_trace env once s (es @ [e]) s2"

inductive_cases run_stepE: "run_step env once s e s'"
inductive_simps run_step_tick: "run_step env once s (Tick t wr) s'"
inductive_simps run_step_key: "run_step env once s (Key r) s'"
inductive_simps run_step_slept: "run_step env once s Slept s'"
inductive_simps run_step_last: "run_step env once s (LastLine wr) s'"

subsection \<open>The flags word\<close>

lemma sint_of_int_i32: "- (2 ^ 31) \<le> fd \<Longrightarrow> fd < 2 ^ 31 \<Longrightarrow> sint (of_int fd :: i32) = fd"
  by (simp add: sint_sbintrunc' signed_take_bit_int_eq_self)

lemma run_flags:
  fixes fd :: int
  assumes "- (2 ^ 31) \<le> fd" "fd < 2 ^ 31" "f = 0 \<or> f = FLAG_ONCE"
  shows "run_label_dir (f OR push_bit 32 (of_int fd)) = fd" and "run_once (f OR push_bit 32 (of_int fd)) \<longleftrightarrow> f = FLAG_ONCE"
proof -
  let ?w = "f OR push_bit 32 (of_int fd)"
  have "(ucast (drop_bit 32 ?w) :: i32) = of_int fd"
    using assms(3) by (intro bit_word_eqI) (auto simp: bit_simps FLAG_ONCE_def)
  then show "run_label_dir ?w = fd" using sint_of_int_i32 [OF assms(1,2)] by (simp add: run_label_dir_def)
  have "?w AND FLAG_ONCE = (if f = 0 then 0 else FLAG_ONCE)"
    using assms(3) by (intro bit_word_eqI) (auto simp: bit_simps FLAG_ONCE_def)
  moreover have "FLAG_ONCE \<noteq> 0" by (simp add: FLAG_ONCE_def)
  ultimately show "run_once ?w \<longleftrightarrow> f = FLAG_ONCE" using assms(3) by (auto simp: run_once_def)
qed

subsection \<open>The terminal through a run\<close>

definition tty_inv :: "target_os \<Rightarrow> bool \<Rightarrow> ('l :: len) word tty \<Rightarrow> 'l word run_state \<Rightarrow> bool" where
  "tty_inv os once y s \<longleftrightarrow>
     is_tty (rn_tty s) = is_tty y \<and>
     (if once then rn_guard s = None \<and> attrs (rn_tty s) = attrs y
      else rn_guard s = Some (fst (enter_raw_mode os y)) \<and>
        attrs (rn_tty s) = (if rn_phase s = Exited then attrs y else attrs (snd (enter_raw_mode os y))) \<and>
        (rn_phase s = Exited \<longrightarrow> (\<exists>drawn. screen (rn_tty s) = drawn @ SHOW_CURSOR)))"

lemma enter_raw_mode_tty [simp]: "is_tty (snd (enter_raw_mode os y)) = is_tty y"
  by (simp add: enter_raw_mode_def tcset_def Let_def)

lemma raw_mode_drop_attrs:
  "is_tty z = is_tty y \<Longrightarrow> attrs z = attrs (snd (enter_raw_mode os y)) \<Longrightarrow>
   is_tty (raw_mode_drop (fst (enter_raw_mode os y)) z) = is_tty y \<and>
   attrs (raw_mode_drop (fst (enter_raw_mode os y)) z) = attrs y \<and>
   screen (raw_mode_drop (fst (enter_raw_mode os y)) z) = screen z @ SHOW_CURSOR"
  by (auto simp: raw_mode_drop_def enter_raw_mode_def tcset_def tcget_def Let_def)

lemma run_start_inv:
  assumes "once = run_once flags"
  shows "tty_inv os once y (run_start os flags now sandbox y)"
proof -
  obtain orig y1 where "enter_raw_mode os y = (orig, y1)" by force
  then show ?thesis
    using assms enter_raw_mode_tty [of os y]
    by (auto simp: tty_inv_def run_start_def split: option.splits sum.splits)
qed

lemma run_step_inv: "run_step env once s e s' \<Longrightarrow> tty_inv os once y s \<Longrightarrow> tty_inv os once y s'"
proof (induction rule: run_step.induct)
  case (leave s wr out)
  then show ?case
    using raw_mode_drop_attrs [of "(rn_tty s)\<lparr>screen := out\<rparr>" y os]
    by (auto simp: tty_inv_def drop_guard_def split: if_splits)
qed (auto simp: tty_inv_def split: if_splits)

lemma run_trace_inv: "run_trace env once s es s' \<Longrightarrow> tty_inv os once y s \<Longrightarrow> tty_inv os once y s'"
  by (induction rule: run_trace.induct) (blast intro: run_step_inv)+

subsection \<open>Turns and polls\<close>

definition poll_inv :: "bool \<Rightarrow> 'f run_state \<Rightarrow> bool" where
  "poll_inv once s \<longleftrightarrow>
     (case rn_phase s of
        Turning \<Rightarrow> rn_steps s = (if rn_turns s = 0 then 6 else 40) \<and> (once \<longrightarrow> rn_turns s = 0)
      | Polling n \<Rightarrow> \<not> once \<and> 0 < rn_turns s \<and> rn_steps s = (if rn_turns s = 1 then 6 else 40) \<and> n \<le> rn_steps s
      | Leaving \<Rightarrow> 0 < rn_turns s \<and> (once \<longrightarrow> rn_turns s = 1)
      | Exited \<Rightarrow> 0 < rn_turns s \<and> (once \<longrightarrow> rn_turns s = 1)
      | Aborted \<Rightarrow> True)"

lemma poll_start_inv: "poll_inv once (run_start os flags now sandbox y)"
  by (auto simp: poll_inv_def run_start_def Let_def split: prod.split option.split sum.split phase.split)

lemma poll_step_inv: "run_step env once s e s' \<Longrightarrow> poll_inv once s \<Longrightarrow> poll_inv once s'"
  by (induction rule: run_step.induct) (auto simp: poll_inv_def)

lemma poll_trace_inv: "run_trace env once s es s' \<Longrightarrow> poll_inv once s \<Longrightarrow> poll_inv once s'"
  by (induction rule: run_trace.induct) (blast intro: poll_step_inv)+

text \<open>How many more steps there can be before the next turn.\<close>

fun is_turn :: "event \<Rightarrow> bool" where
  "is_turn (Tick t wr) = True"
| "is_turn _ = False"

fun polls_left :: "phase \<Rightarrow> nat" where
  "polls_left (Polling n) = Suc n"
| "polls_left Leaving = 1"
| "polls_left _ = 0"

lemma run_step_polls: "run_step env once s e s' \<Longrightarrow> \<not> is_turn e \<Longrightarrow> polls_left (rn_phase s') < polls_left (rn_phase s)"
  by (induction rule: run_step.induct) simp_all

lemma run_trace_polls:
  "run_trace env once s es s' \<Longrightarrow> list_all (\<lambda>e. \<not> is_turn e) es \<Longrightarrow>
   length es + polls_left (rn_phase s') \<le> polls_left (rn_phase s)"
proof (induction rule: run_trace.induct)
  case (trace_snoc s es s1 e s2)
  then show ?case using run_step_polls [of env once s1 e s2] by simp
qed simp

lemma polls_bound: "poll_inv once s \<Longrightarrow> polls_left (rn_phase s) \<le> 41"
  by (cases "rn_phase s") (auto simp: poll_inv_def split: if_splits)

subsection \<open>Steps that exist\<close>

text \<open>The event the program waits for in a phase, given a turn's reads and a terminal to write to.\<close>

fun next_event :: "tick_in \<Rightarrow> (nat \<Rightarrow> string \<Rightarrow> int) \<Rightarrow> int \<times> u8 \<Rightarrow> phase \<Rightarrow> event option" where
  "next_event t wr k Turning = Some (Tick t wr)"
| "next_event t wr k (Polling 0) = Some Slept"
| "next_event t wr k (Polling (Suc n)) = Some (Key k)"
| "next_event t wr k Leaving = Some (LastLine wr)"
| "next_event t wr k Exited = None"
| "next_event t wr k Aborted = None"

lemma write_stdout_some: "writes_ok wr \<Longrightarrow> \<exists>out'. write_stdout wr bytes out = Some out'"
  using write_loop_prefix [of wr 0 bytes 0 out] by (auto simp: write_stdout_def)

lemma next_event_step:
  assumes "listed_once env t" "stats_parse env t" "labels_listed env t" "writes_ok wr"
    and "next_event t wr k (rn_phase s) = Some e"
  shows "\<exists>s'. run_step env once s e s' \<and> rn_phase s' \<noteq> Aborted \<and> (rn_phase s = Turning \<longrightarrow> rn_turns s' = Suc (rn_turns s))"
proof (cases "rn_phase s")
  case Turning
  obtain frame gone lp where t: "tick env (rn_loop s) t = Some (frame, gone, lp)"
    using tick_total [OF assms(1-3)] by blast
  obtain out where "write_stdout wr frame (screen (rn_tty s)) = Some out"
    using write_stdout_some [OF assms(4)] by blast
  from run_step.turn [where env = env and once = once, OF Turning t this] assms(5) Turning show ?thesis
    by (intro exI conjI) (assumption | simp)+
next
  case (Polling n)
  show ?thesis
  proof (cases n)
    case 0
    with Polling assms(5) run_step.polled [of s env once] show ?thesis by (intro exI conjI) (assumption | simp)+
  next
    case (Suc m)
    with Polling assms(5) have e: "e = Key k" "rn_phase s = Polling (Suc m)" by simp_all
    show ?thesis
    proof (cases "quits (read_one_stdin k)")
      case True
      from run_step.quit_key [OF e(2) this] e show ?thesis by (intro exI conjI) (assumption | simp)+
    next
      case False
      from run_step.no_quit_key [OF e(2) this] e show ?thesis by (intro exI conjI) (assumption | simp)+
    qed
  qed
next
  case Leaving
  obtain out where "write_stdout wr [CHR 0x0A] (screen (rn_tty s)) = Some out"
    using write_stdout_some [OF assms(4)] by blast
  from run_step.leave [where env = env and once = once, OF Leaving this] assms(5) Leaving show ?thesis
    by (intro exI conjI) (assumption | simp)+
qed (use assms(5) in simp_all)

lemma run_trace_two:
  "run_step env once s e1 s1 \<Longrightarrow> run_step env once s1 e2 s2 \<Longrightarrow> run_trace env once s [e1, e2] s2"
  using trace_snoc [OF trace_snoc [OF trace_nil]] by fastforce

lemma quit_leaves:
  assumes "rn_phase s = Polling (Suc n)" "k = 0x71 \<or> k = 0x03 \<or> k = 0x1c" "writes_ok wr"
  shows "\<exists>s'. run_trace env once s [Key (1, k), LastLine wr] s' \<and> rn_phase s' = Exited"
proof -
  have "quits (read_one_stdin (1, k))" using assms(2) by (auto simp: quits_def read_one_stdin_def)
  note step1 = run_step.quit_key [where env = env and once = once, OF assms(1) this]
  obtain out where "write_stdout wr [CHR 0x0A] (screen (rn_tty s)) = Some out"
    using write_stdout_some [OF assms(3)] by blast
  then have "write_stdout wr [CHR 0x0A] (screen (rn_tty (s\<lparr>rn_phase := Leaving\<rparr>))) = Some out" by simp
  from run_trace_two [OF step1 run_step.leave [OF _ this]] show ?thesis by fastforce
qed

text \<open>A whole interactive run: one turn, then \<open>q\<close>.\<close>

definition all_written :: "nat \<Rightarrow> string \<Rightarrow> int" where "all_written i b = int (length b)"

lemma all_written_ok: "writes_ok all_written" by (simp add: writes_ok_def all_written_def)

lemma run_trace_append:
  "run_trace env once s1 es2 s2 \<Longrightarrow> run_trace env once s es1 s1 \<Longrightarrow> run_trace env once s (es1 @ es2) s2"
proof (induction rule: run_trace.induct)
  case (trace_snoc s' es s1 e s2)
  from run_trace.trace_snoc [OF trace_snoc.IH [OF trace_snoc.prems] trace_snoc.hyps(2)] show ?case by simp
qed simp

lemma sample_run:
  "\<exists>s. run_trace sample_env False (run_start Linux 0 0 None y) [Tick sample_tick all_written, Key (1, 0x71), LastLine all_written] s \<and>
     rn_phase s = Exited"
proof -
  let ?s = "run_start Linux 0 0 None y"
  have ph: "rn_phase ?s = Turning" "rn_steps ?s = 6" by (simp_all add: run_start_def split: prod.split)
  obtain frame gone lp where t: "tick sample_env (rn_loop ?s) sample_tick = Some (frame, gone, lp)"
    using tick_total [OF sample_shapes] by blast
  obtain out where "write_stdout all_written frame (screen (rn_tty ?s)) = Some out"
    using write_stdout_some [OF all_written_ok] by blast
  note one = run_step.turn [where env = sample_env and once = False, OF ph(1) t this]
  let ?s1 = "?s\<lparr>rn_phase := if False then Leaving else Polling (rn_steps ?s), rn_loop := lp,
     rn_tty := (rn_tty ?s)\<lparr>screen := out\<rparr>, rn_turns := Suc (rn_turns ?s)\<rparr>"
  have "rn_phase ?s1 = Polling (Suc 5)" by (simp add: ph(2))
  from quit_leaves [where env = sample_env and once = False, OF this _ all_written_ok, of "0x71"] obtain s where
    "run_trace sample_env False ?s1 [Key (1, 0x71), LastLine all_written] s" "rn_phase s = Exited" by auto
  with run_trace_append [OF this(1) trace_snoc [OF trace_nil one]] show ?thesis by auto
qed

subsection \<open>Properties\<close>

text \<open>The two halves of the program agree on the flags word: for every descriptor or negative error a
  system call can return, what \<open>run\<close> decodes is the label directory \<open>parse_args\<close> opened, sign included, and
  the \<open>--once\<close> bit is read back as it was given; with \<open>--check\<close> nothing is opened and nothing runs.\<close>

theorem flags_roundtrip:
  assumes "- (2 ^ 31) \<le> open_dir open_base open_at envp" "open_dir open_base open_at envp < 2 ^ 31"
  shows "case parse_args argv envp open_base open_at of
      Check out \<Rightarrow> has_arg argv ''--check'' \<and> out = ''ok'' @ [CHR 0x0A]
    | Launch flags \<Rightarrow> \<not> has_arg argv ''--check'' \<and> run_label_dir flags = open_dir open_base open_at envp \<and>
        (run_once flags \<longleftrightarrow> has_arg argv ''--once'')"
proof -
  have "FLAG_ONCE \<noteq> 0" by (simp add: FLAG_ONCE_def)
  then show ?thesis
    using run_flags [OF assms, of 0] run_flags [OF assms, of FLAG_ONCE] by (simp add: parse_args_def Let_def)
qed

theorem flags_roundtrip_witness:
  "case parse_args [Some ''ltop'', Some ''--once''] [''HOME=/u''] (\<lambda>_. - 2) (\<lambda>_ _. 7) of
     Check out \<Rightarrow> False | Launch flags \<Rightarrow> run_once flags \<and> run_label_dir flags = - 2"
proof -
  have o: "open_dir (\<lambda>_. - 2) (\<lambda>_ _. 7) [''HOME=/u''] = - 2" by code_simp
  have a: "has_arg [Some ''ltop'', Some ''--once''] ''--once''" "\<not> has_arg [Some ''ltop'', Some ''--once''] ''--check''"
    by (simp_all add: has_arg_iff)
  have "- (2 ^ 31) \<le> open_dir (\<lambda>_. - 2) (\<lambda>_ _. 7) [''HOME=/u'']" "open_dir (\<lambda>_. - 2) (\<lambda>_ _. 7) [''HOME=/u''] < 2 ^ 31"
    unfolding o by simp_all
  from flags_roundtrip [OF this, of "[Some ''ltop'', Some ''--once'']"] show ?thesis
    using a by (simp add: o split: launch.splits)
qed

text \<open>C1: the terminal through any run: with \<open>--once\<close> its attributes are never touched; otherwise they are
  raw from the first turn on, and as they were found again, with the cursor shown, when the run has ended.
  A run that aborts, because the sandbox is refused or a turn panics, leaves the terminal raw.\<close>

theorem run_leaves_terminal:
  assumes "run_trace env (run_once flags) (run_start os flags now sandbox y) es s"
  shows "attrs (rn_tty s) =
      (if run_once flags \<or> rn_phase s = Exited then attrs y else attrs (snd (enter_raw_mode os y))) \<and>
    (rn_phase s = Exited \<and> \<not> run_once flags \<longrightarrow> (\<exists>drawn. screen (rn_tty s) = drawn @ SHOW_CURSOR))"
  using run_trace_inv [OF assms run_start_inv [OF refl]] by (auto simp: tty_inv_def split: if_splits)

theorem run_leaves_terminal_witness:
  "\<exists>s. run_trace sample_env False (run_start Linux 0 0 None \<lparr>is_tty = True, attrs = termios_default Linux, screen = []\<rparr>)
       [Tick sample_tick all_written, Key (1, 0x71), LastLine all_written] s \<and>
     attrs (rn_tty s) = (termios_default Linux :: u32 termios)"
proof -
  let ?y = "\<lparr>is_tty = True, attrs = termios_default Linux :: u32 termios, screen = []\<rparr>"
  obtain s where s: "run_trace sample_env False (run_start Linux 0 0 None ?y)
      [Tick sample_tick all_written, Key (1, 0x71), LastLine all_written] s" "rn_phase s = Exited"
    using sample_run by blast
  have o: "run_once 0 = False" by (simp add: run_once_def)
  from run_leaves_terminal [where flags = 0 and os = Linux and now = 0 and sandbox = None and y = ?y and env = sample_env,
      unfolded o, OF s(1)] s show ?thesis by auto
qed

text \<open>C2: the loop keeps its pace and answers the keyboard: after the first frame at most 6 polls of 50 ms
  come before the next turn, after every other frame at most 40, and at most 41 steps of any kind; \<open>q\<close>,
  Ctrl-C or Ctrl-\ at any poll end the run with the next step, however short the writes are; and a run with
  \<open>--once\<close> that ends has drawn exactly one frame.\<close>

theorem run_responds:
  assumes "run_trace env once (run_start os flags now sandbox y) es s"
  shows "(\<forall>n. rn_phase s = Polling n \<longrightarrow> n \<le> (if rn_turns s = 1 then 6 else 40)) \<and>
    (\<forall>es' s'. run_trace env once s es' s' \<and> list_all (\<lambda>e. \<not> is_turn e) es' \<longrightarrow> length es' \<le> 41) \<and>
    (\<forall>n k wr. rn_phase s = Polling (Suc n) \<and> k \<in> {0x71, 0x03, 0x1c} \<and> writes_ok wr \<longrightarrow>
       (\<exists>s'. run_trace env once s [Key (1, k), LastLine wr] s' \<and> rn_phase s' = Exited)) \<and>
    (rn_phase s = Exited \<and> once \<longrightarrow> rn_turns s = 1)"
proof -
  have inv: "poll_inv once s" by (rule poll_trace_inv [OF assms poll_start_inv])
  have "length es' \<le> 41" if "run_trace env once s es' s'" "list_all (\<lambda>e. \<not> is_turn e) es'" for es' s'
    using run_trace_polls [OF that] polls_bound [OF inv] by linarith
  with inv quit_leaves [of s _ _ _ env once] show ?thesis by (auto simp: poll_inv_def)
qed

theorem run_responds_witness:
  "\<exists>s. run_trace sample_env False (run_start Linux 0 0 None \<lparr>is_tty = True, attrs = termios_default Linux :: u32 termios, screen = []\<rparr>)
       [Tick sample_tick all_written, Key (1, 0x71), LastLine all_written] s \<and>
     polls_left (rn_phase s) = 0"
proof -
  let ?y = "\<lparr>is_tty = True, attrs = termios_default Linux :: u32 termios, screen = []\<rparr>"
  obtain s where s: "run_trace sample_env False (run_start Linux 0 0 None ?y)
      [Tick sample_tick all_written, Key (1, 0x71), LastLine all_written] s" "rn_phase s = Exited"
    using sample_run by blast
  from run_responds [OF s(1)] s show ?thesis by auto
qed

text \<open>No run gets stuck: in every phase but the two final ones, the event the program waits for has a
  step, which does not abort, and a turn's step draws one more frame.\<close>

theorem run_never_stuck:
  assumes "listed_once env t" "stats_parse env t" "labels_listed env t" "writes_ok wr"
    and "rn_phase s \<noteq> Exited" "rn_phase s \<noteq> Aborted"
  shows "\<exists>e s'. next_event t wr k (rn_phase s) = Some e \<and> run_step env once s e s' \<and> rn_phase s' \<noteq> Aborted \<and>
    (rn_phase s = Turning \<longrightarrow> rn_turns s' = Suc (rn_turns s))"
proof -
  obtain e where "next_event t wr k (rn_phase s) = Some e"
    using assms(5,6) by (cases "(t, wr, k, rn_phase s)" rule: next_event.cases) auto
  with next_event_step [OF assms(1-4) this, of once] show ?thesis by blast
qed

theorem run_never_stuck_witness:
  "\<exists>s'. run_step sample_env False (run_start Linux 0 0 None \<lparr>is_tty = True, attrs = termios_default Linux :: u32 termios, screen = []\<rparr>)
     (Tick sample_tick all_written) s' \<and> rn_turns s' = 1"
proof -
  let ?s = "run_start Linux 0 0 None \<lparr>is_tty = True, attrs = termios_default Linux :: u32 termios, screen = []\<rparr>"
  have ph: "rn_phase ?s = Turning" "rn_turns ?s = 0" by (simp_all add: run_start_def split: prod.split)
  from run_never_stuck [OF sample_shapes all_written_ok, of ?s "(0, 0)" False] show ?thesis by (auto simp: ph)
qed



end
