(* ===== verification/Syscalls.thy ===== *)
theory Syscalls
  imports Run
begin

text \<open>
  The system call layer (src/syscall.rs): the Linux numbers of both architectures and the argument words each
  wrapper passes, and the clock and sleep that the macOS build makes from Mach ticks. A wrapper is the number
  and arguments of its call; the trap instruction itself, and what the kernel answers, are the interface.
\<close>

subsection \<open>Numbers\<close>

datatype sysno =
    NRead | NWrite | NClose | NIoctl | NMadvise | NNanosleep | NGetpid | NUname | NExitGroup | NClockGettime
  | NOpenat | NSchedGetaffinity | NGetdents64 | NUnlinkat | NPrctl | NSeccomp | NRtSigaction
  | NLandlockCreateRuleset | NLandlockAddRule | NLandlockRestrictSelf

fun x86_64_nr :: "sysno \<Rightarrow> i32" where
  "x86_64_nr NRead = 0"
| "x86_64_nr NWrite = 1"
| "x86_64_nr NClose = 3"
| "x86_64_nr NIoctl = 16"
| "x86_64_nr NMadvise = 28"
| "x86_64_nr NNanosleep = 35"
| "x86_64_nr NGetpid = 39"
| "x86_64_nr NUname = 63"
| "x86_64_nr NExitGroup = 231"
| "x86_64_nr NClockGettime = 228"
| "x86_64_nr NOpenat = 257"
| "x86_64_nr NSchedGetaffinity = 204"
| "x86_64_nr NGetdents64 = 217"
| "x86_64_nr NUnlinkat = 263"
| "x86_64_nr NPrctl = 157"
| "x86_64_nr NSeccomp = 317"
| "x86_64_nr NRtSigaction = 13"
| "x86_64_nr NLandlockCreateRuleset = 444"
| "x86_64_nr NLandlockAddRule = 445"
| "x86_64_nr NLandlockRestrictSelf = 446"

fun aarch64_nr :: "sysno \<Rightarrow> i32" where
  "aarch64_nr NRead = 63"
| "aarch64_nr NWrite = 64"
| "aarch64_nr NClose = 57"
| "aarch64_nr NIoctl = 29"
| "aarch64_nr NMadvise = 233"
| "aarch64_nr NNanosleep = 101"
| "aarch64_nr NGetpid = 172"
| "aarch64_nr NUname = 160"
| "aarch64_nr NExitGroup = 94"
| "aarch64_nr NClockGettime = 113"
| "aarch64_nr NOpenat = 56"
| "aarch64_nr NSchedGetaffinity = 123"
| "aarch64_nr NGetdents64 = 61"
| "aarch64_nr NUnlinkat = 35"
| "aarch64_nr NPrctl = 167"
| "aarch64_nr NSeccomp = 277"
| "aarch64_nr NRtSigaction = 134"
| "aarch64_nr NLandlockCreateRuleset = 444"
| "aarch64_nr NLandlockAddRule = 445"
| "aarch64_nr NLandlockRestrictSelf = 446"

definition nr :: "arch \<Rightarrow> sysno \<Rightarrow> i32" where
  "nr a n = (case a of X86_64 \<Rightarrow> x86_64_nr n | Aarch64 \<Rightarrow> aarch64_nr n)"

subsection \<open>Wrappers on Linux\<close>

type_synonym sys_call = "i32 \<times> u64 list"

text \<open>\<open>fd as i64\<close> extends the sign.\<close>

definition word_of_i32 :: "i32 \<Rightarrow> u64" where "word_of_i32 v = scast v"

definition sys_read :: "arch \<Rightarrow> i32 \<Rightarrow> u64 \<Rightarrow> u64 \<Rightarrow> sys_call" where
  "sys_read a fd buf len = (nr a NRead, [word_of_i32 fd, buf, len])"

definition sys_write :: "arch \<Rightarrow> i32 \<Rightarrow> u64 \<Rightarrow> u64 \<Rightarrow> sys_call" where
  "sys_write a fd buf len = (nr a NWrite, [word_of_i32 fd, buf, len])"

definition sys_openat :: "arch \<Rightarrow> i32 \<Rightarrow> u64 \<Rightarrow> i32 \<Rightarrow> sys_call" where
  "sys_openat a dirfd path flags = (nr a NOpenat, [word_of_i32 dirfd, path, word_of_i32 flags])"

definition sys_open :: "arch \<Rightarrow> u64 \<Rightarrow> i32 \<Rightarrow> sys_call" where
  "sys_open a path flags = sys_openat a (of_int (AT_FDCWD Linux)) path flags"

definition sys_close :: "arch \<Rightarrow> i32 \<Rightarrow> sys_call" where
  "sys_close a fd = (nr a NClose, [word_of_i32 fd])"

definition sys_ioctl :: "arch \<Rightarrow> i32 \<Rightarrow> u64 \<Rightarrow> u64 \<Rightarrow> sys_call" where
  "sys_ioctl a fd cmd arg = (nr a NIoctl, [word_of_i32 fd, cmd, arg])"

definition sys_madvise :: "arch \<Rightarrow> u64 \<Rightarrow> u64 \<Rightarrow> i32 \<Rightarrow> sys_call" where
  "sys_madvise a addr len advice = (nr a NMadvise, [addr, len, word_of_i32 advice])"

definition sys_nanosleep :: "arch \<Rightarrow> u64 \<Rightarrow> u64 \<Rightarrow> sys_call" where
  "sys_nanosleep a req rem = (nr a NNanosleep, [req, rem])"

definition sys_clock_gettime :: "arch \<Rightarrow> i32 \<Rightarrow> u64 \<Rightarrow> sys_call" where
  "sys_clock_gettime a clk ts = (nr a NClockGettime, [word_of_i32 clk, ts])"

definition sys_getpid :: "arch \<Rightarrow> sys_call" where
  "sys_getpid a = (nr a NGetpid, [0])"

definition sys_getdents64 :: "arch \<Rightarrow> i32 \<Rightarrow> u64 \<Rightarrow> u64 \<Rightarrow> sys_call" where
  "sys_getdents64 a fd buf len = (nr a NGetdents64, [word_of_i32 fd, buf, len])"

definition sys_unlinkat :: "arch \<Rightarrow> i32 \<Rightarrow> u64 \<Rightarrow> sys_call" where
  "sys_unlinkat a dirfd path = (nr a NUnlinkat, [word_of_i32 dirfd, path, 0])"

definition sys_sched_getaffinity :: "arch \<Rightarrow> i32 \<Rightarrow> u64 \<Rightarrow> u64 \<Rightarrow> sys_call" where
  "sys_sched_getaffinity a p sz set_ptr = (nr a NSchedGetaffinity, [word_of_i32 p, sz, set_ptr])"

definition sys_prctl :: "arch \<Rightarrow> i32 \<Rightarrow> u64 \<Rightarrow> u64 \<Rightarrow> u64 \<Rightarrow> u64 \<Rightarrow> sys_call" where
  "sys_prctl a opt a2 a3 a4 a5 = (nr a NPrctl, [word_of_i32 opt, a2, a3, a4, a5])"

definition sys_seccomp :: "arch \<Rightarrow> u32 \<Rightarrow> u32 \<Rightarrow> u64 \<Rightarrow> sys_call" where
  "sys_seccomp a operation flags args = (nr a NSeccomp, [ucast operation, ucast flags, args])"

definition sys_exit_group :: "arch \<Rightarrow> i32 \<Rightarrow> sys_call" where
  "sys_exit_group a code = (nr a NExitGroup, [word_of_i32 code])"

definition O_RDWR :: i32 where "O_RDWR = 2"
definition O_CLOEXEC :: i32 where "O_CLOEXEC = 0x80000"
definition O_NONBLOCK :: i32 where "O_NONBLOCK = 0x800"
definition O_DIRECTORY :: "arch \<Rightarrow> i32" where
  "O_DIRECTORY a = (case a of X86_64 \<Rightarrow> 0x10000 | Aarch64 \<Rightarrow> 0x4000)"

definition TCGETS :: u64 where "TCGETS = 0x5401"

subsection \<open>The calls of the loop\<close>

text \<open>Every call site reached after the filter is installed: a turn, the polls, the way out.\<close>

inductive loop_call :: "arch \<Rightarrow> sys_call \<Rightarrow> bool" for a :: arch where
  now: "loop_call a (sys_clock_gettime a clk ts)"
| size_of_terminal: "loop_call a (sys_ioctl a 1 (ucast TIOCGWINSZ) ws)"
| rm_control: "sz < 0x4000 \<Longrightarrow> loop_call a (sys_ioctl a fd (iowr NV_IOCTL_MAGIC NV_ESC_RM_CONTROL sz) params)"
| own_pid: "loop_call a (sys_getpid a)"
| open_proc: "loop_call a (sys_openat a fd path (O_DIRECTORY a OR O_CLOEXEC))"
| list_dir: "loop_call a (sys_getdents64 a fd buf len)"
| open_file: "loop_call a (sys_open a path O_CLOEXEC)"
| open_beneath: "loop_call a (sys_openat a fd path O_CLOEXEC)"
| open_label: "loop_call a (sys_openat a fd path (O_NONBLOCK OR O_CLOEXEC))"
| read_file: "loop_call a (sys_read a fd buf len)"
| close_file: "loop_call a (sys_close a fd)"
| drop_label: "loop_call a (sys_unlinkat a fd path)"
| draw: "loop_call a (sys_write a 1 buf len)"
| free_pages: "loop_call a (sys_madvise a addr len advice)"
| nap: "loop_call a (sys_nanosleep a req rem)"
| restore_terminal: "loop_call a (sys_ioctl a 0 (ucast TCSETS) termios)"
| debug_message: "loop_call a (sys_write a 2 buf len)"
| leave: "loop_call a (sys_exit_group a code)"

text \<open>Calls of the start that the filter must not let through any more.\<close>

inductive setup_call :: "arch \<Rightarrow> sys_call \<Rightarrow> bool" for a :: arch where
  affinity: "setup_call a (sys_sched_getaffinity a p sz set_ptr)"
| raw_attributes: "setup_call a (sys_ioctl a fd TCGETS termios)"
| open_driver: "setup_call a (sys_open a path (O_RDWR OR O_CLOEXEC))"
| no_new_privs: "setup_call a (sys_prctl a opt a2 a3 a4 a5)"
| filter: "setup_call a (sys_seccomp a operation flags args)"

lemmas sys_call_defs =
  sys_read_def sys_write_def sys_open_def sys_openat_def sys_close_def sys_ioctl_def sys_madvise_def
  sys_nanosleep_def sys_clock_gettime_def sys_getpid_def sys_getdents64_def sys_unlinkat_def
  sys_sched_getaffinity_def sys_prctl_def sys_seccomp_def sys_exit_group_def

text \<open>What a filter does with a call.\<close>

definition filtered :: "arch \<Rightarrow> bool \<Rightarrow> sys_call \<Rightarrow> u32 option" where
  "filtered a trap c = run_bpf (build_prog a trap) (make_data (fst c) (AUDIT_ARCH a) (snd c))"

lemma bit_below: "(sz :: u32) < 0x4000 \<Longrightarrow> bit sz i \<Longrightarrow> i < 14"
proof (rule ccontr)
  assume "sz < 0x4000" "bit sz i" "\<not> i < 14"
  then have "unat sz < 2 ^ 14" by (simp add: word_less_nat_alt)
  also have "\<dots> \<le> 2 ^ i" using \<open>\<not> i < 14\<close> by (intro power_increasing) simp_all
  finally have "\<not> bit (unat sz) i" by (simp add: bit_iff_odd)
  with \<open>bit sz i\<close> show False by (simp add: bit_unsigned_iff)
qed

lemma low_words:
  "(ucast (word_of_i32 v) :: u32) = v" "(ucast (ucast w :: u64) :: u32) = (w :: u32)"
  by (intro bit_word_eqI; simp add: word_of_i32_def bit_simps)+

lemma iowr_masked:
  assumes "sz < 0x4000"
  shows "(ucast (iowr NV_IOCTL_MAGIC NV_ESC_RM_CONTROL sz) :: u32) AND RM_IOCTL_MASK = RM_IOCTL_VALUE"
proof -
  have "push_bit 16 sz AND RM_IOCTL_MASK = 0"
  proof (rule bit_word_eqI)
    fix i assume i: "i < LENGTH(32)"
    have "list_all (\<lambda>i. \<not> bit RM_IOCTL_MASK i) [16 ..< 30]" by code_simp
    then have clear: "\<not> bit RM_IOCTL_MASK i" if "16 \<le> i" "i < 30" for i
      using that by (simp only: list_all_iff set_upt) simp
    show "bit (push_bit 16 sz AND RM_IOCTL_MASK) i = bit 0 i"
    proof (cases "16 \<le> i \<and> bit sz (i - 16)")
      case True
      then have "i < 30" using bit_below [OF assms, of "i - 16"] by linarith
      with True clear [of i] show ?thesis by (simp add: bit_simps)
    qed (auto simp: bit_simps)
  qed
  moreover have "ucast (iowr NV_IOCTL_MAGIC NV_ESC_RM_CONTROL sz) =
      (push_bit 16 sz OR (0xc0000000 OR push_bit 8 NV_IOCTL_MAGIC OR NV_ESC_RM_CONTROL) :: u32)"
    unfolding iowr_def low_words(2) by (simp add: or.assoc or.left_commute or.commute)
  moreover have "(0xc0000000 OR push_bit 8 NV_IOCTL_MAGIC OR NV_ESC_RM_CONTROL) AND RM_IOCTL_MASK = RM_IOCTL_VALUE"
    by code_simp
  ultimately show ?thesis by (simp add: bit.conj_disj_distrib2)
qed

lemma filtered_policy:
  "filtered a trap c = Some (if sys_allowed a trap (fst c) (AUDIT_ARCH a) (snd c) then SECCOMP_RET_ALLOW else deny_action trap)"
  by (simp add: filtered_def run_bpf_policy)

lemma loop_call_allowed: "loop_call a c \<Longrightarrow> sys_allowed a trap (fst c) (AUDIT_ARCH a) (snd c)"
proof (induction rule: loop_call.induct)
  case (rm_control sz fd params)
  then show ?case
    using iowr_masked [of sz] by (cases a) (simp_all add: sys_ioctl_def nr_def sys_allowed_def arg_lo_def SYS_IOCTL_def)
qed (cases a; simp add: sys_call_defs nr_def sys_allowed_def arg_lo_def allow_direct_def SYS_WRITE_def SYS_OPENAT_def SYS_IOCTL_def
       low_words O_DIRECTORY_def O_CLOEXEC_def O_NONBLOCK_def OPENAT_DENY_FLAGS_def)+

lemma setup_call_denied: "setup_call a c \<Longrightarrow> \<not> sys_allowed a trap (fst c) (AUDIT_ARCH a) (snd c)"
  by (induction rule: setup_call.induct)
    (cases a; simp add: sys_call_defs nr_def sys_allowed_def arg_lo_def allow_direct_def SYS_WRITE_def SYS_OPENAT_def SYS_IOCTL_def
       low_words O_RDWR_def O_CLOEXEC_def OPENAT_DENY_FLAGS_def TCGETS_def TIOCGWINSZ_def TCSETS_def RM_IOCTL_MASK_def RM_IOCTL_VALUE_def)+

subsection \<open>Clock and sleep on macOS\<close>

text \<open>
  The packed ratio of nanoseconds to ticks, asked of the kernel once. The first argument is the cache, the second
  what the kernel answers (zeros when the trap failed).
\<close>

definition cached_timebase :: "u64 \<Rightarrow> u32 \<times> u32 \<Rightarrow> (u32 \<times> u32) \<times> u64" where
  "cached_timebase cache answer =
    (if cache \<noteq> 0 then ((ucast cache, ucast (drop_bit 32 cache)), cache)
     else let (numer, denom) = answer
          in if numer = 0 \<or> denom = 0 then ((1, 1), cache)
             else ((numer, denom), ucast numer OR push_bit 32 (ucast denom)))"

definition darwin_ns :: "u64 \<Rightarrow> u32 \<times> u32 \<Rightarrow> u64" where
  "darwin_ns ticks tb = ticks * ucast (fst tb) div ucast (snd tb)"

definition darwin_monotonic :: "u64 \<Rightarrow> u32 \<times> u32 \<Rightarrow> u64 \<times> u64" where
  "darwin_monotonic ticks tb = (darwin_ns ticks tb div 1000000000, darwin_ns ticks tb mod 1000000000)"

text \<open>The absolute deadline that \<open>darwin_nanosleep\<close> waits for.\<close>

definition darwin_deadline :: "u64 \<times> u64 \<Rightarrow> u64 \<Rightarrow> u32 \<times> u32 \<Rightarrow> u64" where
  "darwin_deadline req now tb =
    (let duration_ns = saturating_add64 (saturating_mul64 (fst req) 1000000000) (snd req);
         delta_ticks = duration_ns * ucast (snd tb) div ucast (fst tb)
     in saturating_add64 now delta_ticks)"

lemma cached_timebase_nonzero:
  assumes "cache = 0"
  shows "fst (fst (cached_timebase cache answer)) \<noteq> 0" "snd (fst (cached_timebase cache answer)) \<noteq> 0"
  using assms by (auto simp: cached_timebase_def split: prod.splits)

lemma unpack_timebase:
  fixes n d :: u32
  shows "ucast (ucast n OR push_bit 32 (ucast d) :: u64) = n"
    and "ucast (drop_bit 32 (ucast n OR push_bit 32 (ucast d) :: u64)) = d"
  by (rule bit_word_eqI; auto simp: bit_simps dest: bit_imp_le_length)+

text \<open>The second query gives what the first gave, whatever the kernel would answer then.\<close>

lemma cached_timebase_again:
  assumes "answer = (numer, denom)" "numer \<noteq> 0" "denom \<noteq> 0"
  shows "fst (cached_timebase (snd (cached_timebase 0 answer)) answer1) = (numer, denom)"
proof -
  have "(ucast numer OR push_bit 32 (ucast denom) :: u64) \<noteq> 0"
    using assms(2) unpack_timebase(1) [of numer denom] by auto
  then show ?thesis using assms by (simp add: cached_timebase_def unpack_timebase del: drop_bit_or)
qed

lemma unat_widen: "unat (ucast (w :: u32) :: u64) = unat w"
  by (simp add: unsigned_ucast_eq take_bit_nat_eq_self order_less_trans [OF unat_u32])

lemma unat_darwin_ns:
  assumes "unat ticks * unat (fst tb) < 2 ^ 64"
  shows "unat (darwin_ns ticks tb) = unat ticks * unat (fst tb) div unat (snd tb)"
  using assms by (simp add: darwin_ns_def unat_div_distrib unat_mult_lem [THEN iffD1] unat_widen)

lemma unat_darwin_deadline:
  assumes ns: "unat sec * 1000000000 + unat nsec = ns"
    and fits: "ns * unat denom < 2 ^ 64" "unat now + ns * unat denom div unat numer < 2 ^ 64" "denom \<noteq> 0"
  shows "unat (darwin_deadline (sec, nsec) now (numer, denom)) = unat now + ns * unat denom div unat numer"
proof -
  have "ns \<le> ns * unat denom" using fits(3) by (simp add: unat_gt_0 Suc_le_eq)
  then have small: "ns < 2 ^ 64" using fits(1) by (rule le_less_trans)
  have mul: "unat (saturating_mul64 sec 1000000000) = unat sec * 1000000000"
    using ns small by (simp add: unat_saturating_mul64)
  have dur: "unat (saturating_add64 (saturating_mul64 sec 1000000000) nsec) = ns"
    using ns small mul by (simp add: saturating_add64_def unat_add_lem [THEN iffD1])
  have "unat (saturating_add64 (saturating_mul64 sec 1000000000) nsec * ucast denom) = ns * unat denom"
    using fits(1) dur by (simp add: unat_mult_lem [THEN iffD1] unat_widen)
  then have "unat (saturating_add64 (saturating_mul64 sec 1000000000) nsec * ucast denom div ucast numer)
      = ns * unat denom div unat numer"
    by (simp add: unat_div_distrib unat_widen)
  then show ?thesis using fits(2) by (simp add: darwin_deadline_def Let_def saturating_add64_def unat_add_lem [THEN iffD1])
qed

text \<open>Rounding down twice: the ticks of a duration, read back in nanoseconds.\<close>

lemma ticks_roundtrip:
  fixes now ns n d :: nat
  assumes "0 < n" "0 < d"
  shows "now * n div d + ns \<le> (now + ns * d div n) * n div d + (n + d - 2) div d"
    and "(now + ns * d div n) * n div d \<le> now * n div d + ns"
proof -
  define r where "r = ns * d mod n"
  have eq: "(now + ns * d div n) * n + r = now * n + ns * d"
    by (simp add: r_def distrib_right)
  have sum: "now * n div d + ns = (now * n + ns * d) div d" using assms by simp
  show "(now + ns * d div n) * n div d \<le> now * n div d + ns"
    unfolding sum eq [symmetric] by (rule div_le_mono) simp
  let ?c = "(n + d - 2) div d"
  have "r < n" using assms by (simp add: r_def)
  have "n + d - 2 < d * Suc ?c" using assms dividend_less_times_div [of d "n + d - 2"] by simp
  then have "r \<le> ?c * d" using \<open>r < n\<close> assms by (simp add: mult.commute)
  then have "(now * n + ns * d) div d \<le> ((now + ns * d div n) * n + ?c * d) div d"
    unfolding eq [symmetric] by (intro div_le_mono) simp
  then show "now * n div d + ns \<le> (now + ns * d div n) * n div d + ?c"
    unfolding sum using assms by simp
qed

text \<open>On macOS a sleep is turned into a deadline in Mach ticks and the clock is read back in nanoseconds, both
  rounded down. As long as the products stay below 2^64, the clock read at the deadline shows at most the requested
  time more than at the start of the sleep, and falls short of it by at most the length of one tick (rounded as the
  two divisions round it): never a busy wake-up early by more than that.\<close>

theorem darwin_sleep_bounds:
  assumes "numer \<noteq> 0" "denom \<noteq> 0"
    and "unat sec * 1000000000 + unat nsec = ns"
    and "ns * unat denom < 2 ^ 64"
    and "(unat now + ns * unat denom div unat numer) * unat numer < 2 ^ 64"
  shows "unat (darwin_ns now (numer, denom)) + ns
      \<le> unat (darwin_ns (darwin_deadline (sec, nsec) now (numer, denom)) (numer, denom))
        + (unat numer + unat denom - 2) div unat denom
    \<and> unat (darwin_ns (darwin_deadline (sec, nsec) now (numer, denom)) (numer, denom))
      \<le> unat (darwin_ns now (numer, denom)) + ns"
proof -
  have pos: "0 < unat numer" "0 < unat denom" using assms(1,2) by (simp_all add: unat_gt_0)
  let ?D = "unat now + ns * unat denom div unat numer"
  have "?D \<le> ?D * unat numer" using pos(1) by (simp add: Suc_le_eq)
  then have "?D < 2 ^ 64" using assms(5) by (rule le_less_trans)
  then have d: "unat (darwin_deadline (sec, nsec) now (numer, denom)) = ?D"
    using assms by (intro unat_darwin_deadline) simp_all
  have "unat now * unat numer \<le> ?D * unat numer" by (rule mult_le_mono1) simp
  then have "unat now * unat numer < 2 ^ 64" using assms(5) by (rule le_less_trans)
  then have "unat (darwin_ns now (numer, denom)) = unat now * unat numer div unat denom"
    by (subst unat_darwin_ns) simp_all
  moreover have "unat (darwin_ns (darwin_deadline (sec, nsec) now (numer, denom)) (numer, denom)) = ?D * unat numer div unat denom"
    using assms(5) d by (subst unat_darwin_ns) simp_all
  ultimately show ?thesis using ticks_roundtrip [OF pos] by presburger
qed

theorem darwin_sleep_bounds_witness:
  "unat (darwin_ns 24000000 (125, 3)) + 50000000
      \<le> unat (darwin_ns (darwin_deadline (0, 50000000) 24000000 (125, 3)) (125, 3)) + (125 + 3 - 2) div 3
    \<and> unat (darwin_ns (darwin_deadline (0, 50000000) 24000000 (125, 3)) (125, 3)) \<le> unat (darwin_ns 24000000 (125, 3)) + 50000000"
  using darwin_sleep_bounds [of 125 3 0 50000000 50000000 24000000] by simp

subsection \<open>What the filter answers\<close>

text \<open>C7: The filter that the program installs answers every call of the loop, and of the way out, with
  \<open>SECCOMP_RET_ALLOW\<close>, on both architectures and whether or not it traps, and answers the calls that only the
  start makes (the affinity query, reading the terminal's attributes, opening a driver, prctl, seccomp) with the deny
  action: the program never trips over its own sandbox, and the sandbox is not wider than the loop at those calls.\<close>

theorem filter_fits_program:
  assumes "loop_call a c" "setup_call a s"
  shows "filtered a trap c = Some SECCOMP_RET_ALLOW \<and> filtered a trap s = Some (deny_action trap)"
  using loop_call_allowed [OF assms(1)] setup_call_denied [OF assms(2)] by (simp add: filtered_policy)

theorem filter_fits_program_witness:
  "filtered Aarch64 False (sys_openat Aarch64 5 4096 (O_DIRECTORY Aarch64 OR O_CLOEXEC)) = Some SECCOMP_RET_ALLOW
    \<and> filtered Aarch64 False (sys_open Aarch64 4096 (O_RDWR OR O_CLOEXEC)) = Some (deny_action False)"
  by (rule filter_fits_program [OF loop_call.open_proc setup_call.open_driver])

end
