(* ===== verification/Start.thy ===== *)
theory Start
  imports Syscalls Arena
begin

unbundle bit_operations_syntax

text \<open>
  The start of the process (src/start.rs, the page size of src/syscall.rs, and the macOS twin in
  src/main.rs): the page size out of the auxiliary vector, the walk that finds the top of the stack and gives
  its pages back, and the stack pointer the program goes on with. The initial stack is the list of its 64-bit
  words; reading past it has no meaning and is \<open>None\<close>. What \<open>madvise\<close> answers for a page is an argument.
\<close>

subsection \<open>The page size\<close>

definition AT_PAGESZ :: u64 where "AT_PAGESZ = 6"

definition is_power_of_two :: "u64 \<Rightarrow> bool" where "is_power_of_two w \<longleftrightarrow> count_ones w = 1"

definition page_set :: "u64 \<Rightarrow> u64 \<Rightarrow> u64" where
  "page_set stored sz = (if is_power_of_two sz \<and> 1024 \<le> sz \<and> sz \<le> push_bit 20 1 then sz else stored)"

text \<open>The production build has no reader of \<open>/proc/self/auxv\<close>.\<close>

definition page_get :: "u64 \<Rightarrow> u64" where
  "page_get stored = (if stored \<noteq> 0 then stored else 4096)"

text \<open>Past the NULL that ends the environment.\<close>

fun env_end :: "u64 list \<Rightarrow> u64 list option" where
  "env_end [] = None"
| "env_end (w # ws) = (if w = 0 then Some ws else env_end ws)"

fun auxv_scan :: "u64 list \<Rightarrow> u64 \<Rightarrow> u64 option" where
  "auxv_scan [] stored = None"
| "auxv_scan [key] stored = (if key = 0 then Some stored else None)"
| "auxv_scan (key # val # rest) stored =
     (if key = 0 then Some stored
      else if key = AT_PAGESZ then Some (page_set stored val)
      else auxv_scan rest stored)"

text \<open>\<open>argc\<close> is the low half of the first word, sign extended; argv, its NULL, envp and its NULL follow.\<close>

definition start_page :: "u64 list \<Rightarrow> u64 option" where
  "start_page stack =
     (case stack of [] \<Rightarrow> None
      | w # _ \<Rightarrow>
          let argc = sint (ucast w :: i32)
          in Option.bind (env_end (drop (nat (1 + argc + 1)) stack)) (\<lambda>aux.
             Option.bind (auxv_scan aux 0) (\<lambda>stored. Some (page_get stored))))"

subsection \<open>The walks over the stack\<close>

partial_function (option) walk_up ::
  "(u64 \<Rightarrow> bool) \<Rightarrow> u64 \<Rightarrow> u64 \<Rightarrow> u64 \<Rightarrow> u64 list \<Rightarrow> (u64 \<times> u64 list) option" where
  "walk_up drop_one page p last_mapped dropped =
     (if drop_one p then walk_up drop_one page (p + page) p (dropped @ [p]) else Some (last_mapped, dropped))"

partial_function (option) walk_down ::
  "(u64 \<Rightarrow> bool) \<Rightarrow> u64 \<Rightarrow> u64 \<Rightarrow> u64 list \<Rightarrow> u64 list option" where
  "walk_down drop_one page p dropped =
     (if p \<noteq> 0 \<and> drop_one p then walk_down drop_one page (p - page) (dropped @ [p]) else Some dropped)"

text \<open>The new stack pointer, and the pages dropped on the way.\<close>

definition ltop_entry :: "(u64 \<Rightarrow> bool) \<Rightarrow> u64 \<Rightarrow> u64 \<Rightarrow> (u64 \<times> u64 list) option" where
  "ltop_entry drop_one page sp =
     (let sp_page = sp AND NOT (page - 1)
      in Option.bind (walk_up drop_one page (sp_page + page) sp_page [])
           (\<lambda>(last_mapped, dropped). Some (last_mapped + page - 16, dropped)))"

definition ltop_main :: "(u64 \<Rightarrow> bool) \<Rightarrow> u64 \<Rightarrow> u64 \<Rightarrow> u64 list option" where
  "ltop_main drop_one page cur_sp = walk_down drop_one page ((cur_sp AND NOT (page - 1)) - page) []"

text \<open>The macOS entry drops its pages the same way, of a fixed size.\<close>

definition mac_run_then_exit :: "(u64 \<Rightarrow> bool) \<Rightarrow> u64 \<Rightarrow> u64 list option" where
  "mac_run_then_exit drop_one cur_sp =
     walk_down drop_one 16384 ((cur_sp AND NOT (16384 - 1)) - 16384) []"

subsection \<open>Powers of two\<close>

lemma filter_unique: "distinct xs \<Longrightarrow> k \<in> set xs \<Longrightarrow> List.filter (\<lambda>i. i = k) xs = [k]"
  by (induction xs) (auto simp: filter_empty_conv)

lemma is_power_of_two_iff: "is_power_of_two w \<longleftrightarrow> (\<exists>k < 64. w = push_bit k 1)"
proof
  assume "is_power_of_two w"
  then have "length (List.filter (bit w) [0 ..< 64]) = Suc 0" by (simp add: is_power_of_two_def count_ones_def)
  then obtain k where f: "List.filter (bit w) [0 ..< 64] = [k]" by (auto simp: length_Suc_conv)
  have set: "{i. i < 64 \<and> bit w i} = {k}"
    using arg_cong [OF f, of set] by (auto simp: atLeast0LessThan)
  then have "w = push_bit k 1" by (intro bit_word_eqI) (auto simp: bit_simps set_eq_iff)
  moreover have "k < 64" using set by auto
  ultimately show "\<exists>k < 64. w = push_bit k 1" by blast
next
  assume "\<exists>k < 64. w = push_bit k 1"
  then obtain k where k: "k < 64" "w = push_bit k 1" by blast
  have "List.filter (bit w) [0 ..< 64] = List.filter (\<lambda>i. i = k) [0 ..< 64]"
    using k by (intro filter_cong) (auto simp: bit_simps)
  also have "\<dots> = [k]" using k by (intro filter_unique) simp_all
  finally show "is_power_of_two w" by (simp add: is_power_of_two_def count_ones_def)
qed

text \<open>Whatever the stack holds, the page size that comes out can be walked with.\<close>

definition page_size_ok :: "u64 \<Rightarrow> bool" where
  "page_size_ok page \<longleftrightarrow> is_power_of_two page \<and> 1024 \<le> page \<and> page \<le> push_bit 20 1"

lemma auxv_scan_ok:
  "auxv_scan aux stored = Some p \<Longrightarrow> stored = 0 \<or> page_size_ok stored \<Longrightarrow> p = 0 \<or> page_size_ok p"
  by (induction aux stored rule: auxv_scan.induct) (auto simp: page_set_def page_size_ok_def split: if_splits)

lemma start_page_ok: "start_page stack = Some page \<Longrightarrow> page_size_ok page"
proof -
  have "page_size_ok 4096" by (simp add: page_size_ok_def) code_simp
  then show "start_page stack = Some page \<Longrightarrow> page_size_ok page"
    by (auto simp: start_page_def page_get_def Let_def split: list.splits Option.bind_splits if_splits dest!: auxv_scan_ok)
qed

subsection \<open>The stack as the kernel maps it\<close>

text \<open>
  The stack is the pages \<open>a\<close> to \<open>b - 1\<close>; \<open>madvise\<close> succeeds on them and fails on the page above
  (the kernel keeps a gap around the stack) and on the page below.
\<close>

definition page_at :: "u64 \<Rightarrow> nat \<Rightarrow> u64" where "page_at page i = of_nat (i * unat page)"

definition stack_vma :: "(u64 \<Rightarrow> bool) \<Rightarrow> u64 \<Rightarrow> nat \<Rightarrow> nat \<Rightarrow> bool" where
  "stack_vma drop_one page a b \<longleftrightarrow>
     0 < a \<and> a < b \<and> b * unat page < 2 ^ 64 \<and>
     (\<forall>i < Suc b. a \<le> Suc i \<longrightarrow> drop_one (page_at page i) = (a \<le> i \<and> i < b))"

lemma page_at_add: "page_at page i + page = page_at page (Suc i)" by (simp add: page_at_def algebra_simps)
lemma page_at_sub: "page_at page (Suc i) - page = page_at page i" by (simp add: page_at_def algebra_simps)

lemma stack_vma_drop:
  "stack_vma drop_one page a b \<Longrightarrow> i \<le> b \<Longrightarrow> a \<le> Suc i \<Longrightarrow> drop_one (page_at page i) = (a \<le> i \<and> i < b)"
  by (simp add: stack_vma_def)

lemma unat_page_at:
  assumes "stack_vma drop_one page a b" "i \<le> b"
  shows "unat (page_at page i) = i * unat page"
proof -
  have "i * unat page \<le> b * unat page" using assms(2) by (rule mult_le_mono1)
  also have "b * unat page < 2 ^ 64" using assms(1) by (simp only: stack_vma_def)
  finally show ?thesis by (simp add: page_at_def unsigned_of_nat take_bit_nat_eq_self del: of_nat_mult)
qed

lemma walk_up_stack:
  assumes "stack_vma drop_one page a b" "a \<le> Suc i" "i < b"
  shows "walk_up drop_one page (page_at page (Suc i)) (page_at page i) dropped =
    Some (page_at page (b - 1), dropped @ List.map (page_at page) [Suc i ..< b])"
  using assms(2,3)
proof (induction "b - i" arbitrary: i dropped)
  case (Suc n)
  have ok: "drop_one (page_at page (Suc i)) = (Suc i < b)"
    using stack_vma_drop [OF assms(1), of "Suc i"] Suc.prems by simp
  show ?case
  proof (cases "Suc i < b")
    case True
    have "walk_up drop_one page (page_at page (Suc (Suc i))) (page_at page (Suc i)) (dropped @ [page_at page (Suc i)]) =
      Some (page_at page (b - 1), (dropped @ [page_at page (Suc i)]) @ List.map (page_at page) [Suc (Suc i) ..< b])"
      by (rule Suc.hyps(1)) (use Suc.hyps(2) Suc.prems True in auto)
    then show ?thesis using True ok by (subst walk_up.simps) (simp add: page_at_add upt_conv_Cons)
  next
    case False
    then have "b = Suc i" using Suc.prems by simp
    then show ?thesis using ok False by (subst walk_up.simps) simp
  qed
qed simp

lemma walk_down_stack:
  assumes "stack_vma drop_one page a b" "0 < unat page" "a \<le> Suc i" "i < b"
  shows "walk_down drop_one page (page_at page i) dropped =
    Some (dropped @ List.map (page_at page) (rev [a ..< Suc i]))"
  using assms(3,4)
proof (induction i arbitrary: dropped)
  case 0
  have "a = 1" using 0 assms(1) by (simp add: stack_vma_def)
  then show ?case by (subst walk_down.simps) (simp add: page_at_def)
next
  case (Suc i)
  have ok: "drop_one (page_at page (Suc i)) = (a \<le> Suc i)"
    using stack_vma_drop [OF assms(1), of "Suc i"] Suc.prems by simp
  have "unat (page_at page (Suc i)) = Suc i * unat page" by (rule unat_page_at [OF assms(1)]) (use Suc.prems in simp)
  then have nz: "page_at page (Suc i) \<noteq> 0" using assms(2) by auto
  show ?case
  proof (cases "a \<le> Suc i")
    case True
    then show ?thesis
      using ok nz Suc.IH [of "dropped @ [page_at page (Suc i)]"] Suc.prems
      by (subst walk_down.simps) (simp add: page_at_sub)
  next
    case False
    then show ?thesis using ok by (subst walk_down.simps) simp
  qed
qed

lemma unat_p2: "k < 64 \<Longrightarrow> unat (2 ^ k :: u64) = 2 ^ k"
  using unsigned_of_nat [where 'a = nat and 'b = 64, of "2 ^ k"] by (simp add: take_bit_nat_eq_self)

lemma page_size_word: "page_size_ok page \<Longrightarrow> \<exists>k \<ge> 4. k < 64 \<and> page = push_bit k 1 \<and> unat page = 2 ^ k"
proof -
  assume ok: "page_size_ok page"
  then obtain k where k: "k < 64" "page = push_bit k 1" by (auto simp: page_size_ok_def is_power_of_two_iff)
  have u: "unat page = 2 ^ k" using k by (simp add: unat_p2 push_bit_eq_mult)
  have "1024 \<le> unat page" using ok by (simp add: page_size_ok_def word_le_nat_alt)
  then have "(2 :: nat) ^ 10 \<le> 2 ^ k" using u by simp
  then have "10 \<le> k" by (subst (asm) power_increasing_iff) simp_all
  with k u show ?thesis by (intro exI [of _ k]) simp
qed

text \<open>The page of an address.\<close>

lemma page_of:
  assumes "page_size_ok page"
  shows "sp AND NOT (page - 1) = page_at page (unat sp div unat page)"
proof -
  obtain k where k: "k < 64" "page = push_bit k 1" "unat page = 2 ^ k" using page_size_word [OF assms] by blast
  have "page - 1 = semiring_bit_operations_class.mask k" using k(2) by (simp add: mask_eq_exp_minus_1 push_bit_eq_mult)
  then have u: "unat (sp AND NOT (page - 1)) = unat sp div 2 ^ k * 2 ^ k" by (simp add: unat_and_not_mask)
  have "sp AND NOT (page - 1) = of_nat (unat (sp AND NOT (page - 1)))" by simp
  also have "\<dots> = page_at page (unat sp div unat page)" by (simp only: u page_at_def k(3))
  finally show ?thesis .
qed

lemma ltop_main_stack:
  assumes "page_size_ok page" "stack_vma drop_one page a b"
    and "(b - 1) * unat page \<le> unat cur_sp" "unat cur_sp < b * unat page"
  shows "walk_down drop_one page ((cur_sp AND NOT (page - 1)) - page) [] =
    Some (List.map (page_at page) (rev [a ..< b - 1]))"
proof -
  have pos: "0 < unat page" using page_size_word [OF assms(1)] by auto
  have ab: "0 < a" "a < b" using assms(2) by (simp_all add: stack_vma_def)
  have "unat cur_sp div unat page = b - 1"
    using assms(3,4) ab pos by (intro div_nat_eqI) (simp_all add: mult.commute)
  then obtain i where i: "unat cur_sp div unat page = Suc i \<or> b = 1" "b - 1 = Suc i \<or> b = 1" using ab by (cases "b - 1") auto
  then have "b - 1 = Suc i" "unat cur_sp div unat page = Suc i"
    using ab \<open>unat cur_sp div unat page = b - 1\<close> by auto
  then show ?thesis
    using walk_down_stack [OF assms(2) pos, of i "[]"] ab by (simp add: page_of [OF assms(1)] page_at_sub)
qed

text \<open>The macOS entry, whose pages have 16 KiB.\<close>

lemma mac_run_then_exit_stack:
  assumes "stack_vma drop_one 16384 a b" "(b - 1) * 16384 \<le> unat cur_sp" "unat cur_sp < b * 16384"
  shows "mac_run_then_exit drop_one cur_sp = Some (List.map (page_at 16384) (rev [a ..< b - 1]))"
proof -
  have "page_size_ok 16384" by (simp add: page_size_ok_def) code_simp
  from ltop_main_stack [OF this assms(1)] show ?thesis using assms(2,3) by (simp add: mac_run_then_exit_def)
qed


definition sample_stack :: "u64 list" where
  "sample_stack = [1, 0x7000, 0, 0x7010, 0, 33, 0x9000, 6, 4096, 0, 0]"


end
