(* ===== verification/Mach.thy ===== *)
theory Mach
  imports Agx Start
begin

unbundle bit_operations_syntax

text \<open>
  The macOS system layer (src/mac_sys.rs): the messages it sends to the Mach kernel and to IOKit, byte by byte,
  the parsers of their replies, the decoding of what \<open>proc_info\<close> and \<open>sysctl\<close> return, and the pass that hands
  the address ranges the program does not use back to the kernel. The kernel is an argument: a message call takes
  the packed arguments and the buffer and returns its code and the buffer it has written to.
\<close>

subsection \<open>Buffers\<close>

text \<open>\<open>buf[o..o + n]\<close>, and \<open>copy_from_slice\<close> into it; the callers stay inside the buffer.\<close>

definition buf_get :: "nat \<Rightarrow> nat \<Rightarrow> u8 list \<Rightarrow> u8 list" where
  "buf_get o' n buf = take n (drop o' buf)"

definition buf_put :: "nat \<Rightarrow> u8 list \<Rightarrow> u8 list \<Rightarrow> u8 list" where
  "buf_put o' bs buf = take o' buf @ bs @ drop (o' + length bs) buf"

definition buf_u32 :: "nat \<Rightarrow> u8 list \<Rightarrow> u32" where "buf_u32 o' buf = u32_le (buf_get o' 4 buf)"

definition buf_u64 :: "nat \<Rightarrow> u8 list \<Rightarrow> u64" where
  "buf_u64 o' buf = ucast (buf_u32 o' buf) OR push_bit 32 (ucast (buf_u32 (o' + 4) buf))"

lemma length_buf_put [simp]: "o' + length bs \<le> length buf \<Longrightarrow> length (buf_put o' bs buf) = length buf"
  by (simp add: buf_put_def)

named_theorems buf_fields "rewrite rules that read a field of a written buffer"

lemma buf_get_put_same [buf_fields]:
  "n = length bs \<Longrightarrow> o' + length bs \<le> length buf \<Longrightarrow> buf_get o' n (buf_put o' bs buf) = bs"
  by (simp add: buf_get_def buf_put_def)

lemma buf_get_put_other [buf_fields]:
  assumes "o' + n \<le> k \<or> k + length bs \<le> o'" "k + length bs \<le> length buf"
  shows "buf_get o' n (buf_put k bs buf) = buf_get o' n buf"
  using assms(1)
proof
  assume "o' + n \<le> k"
  then show ?thesis using assms(2) by (simp add: buf_get_def buf_put_def drop_take min_absorb1 take_add)
next
  assume "k + length bs \<le> o'"
  then show ?thesis using assms(2) by (simp add: buf_get_def buf_put_def)
qed

lemma buf_get_zeros [buf_fields]: "o' + n \<le> m \<Longrightarrow> buf_get o' n (replicate m 0) = replicate n 0"
  by (simp add: buf_get_def)

lemma length_buf_get: "o' + n \<le> length buf \<Longrightarrow> length (buf_get o' n buf) = n"
  by (simp add: buf_get_def)

lemma buf_u32_put [buf_fields]: "o' + 4 \<le> length buf \<Longrightarrow> buf_u32 o' (buf_put o' (le_bytes 4 w) buf) = (w :: u32)"
  by (simp add: buf_u32_def buf_fields word_nat)

lemma buf_u32_put_other [buf_fields]:
  "o' + 4 \<le> k \<or> k + length bs \<le> o' \<Longrightarrow> k + length bs \<le> length buf \<Longrightarrow>
   buf_u32 o' (buf_put k bs buf) = buf_u32 o' buf"
  by (simp add: buf_u32_def buf_fields)

lemma drop_le_bytes: "drop 4 (le_bytes 8 w) = le_bytes 4 (drop_bit 32 w)"
  by (simp add: le_bytes_def drop_map upt_rec [of _ 8] upt_rec [of _ 4] drop_bit_drop_bit)

lemma split_u64: "push_bit 32 (ucast (ucast (drop_bit 32 w) :: u32)) OR ucast (ucast w :: u32) = (w :: u64)"
  by (rule bit_word_eqI) (auto simp: bit_simps)

lemma buf_u64_get: "buf_get k 8 a = buf_get k 8 b \<Longrightarrow> buf_u64 k a = buf_u64 k b"
proof -
  assume e: "buf_get k 8 a = buf_get k 8 b"
  have "buf_get k 4 c = take 4 (buf_get k 8 c)" "buf_get (k + 4) 4 c = drop 4 (buf_get k 8 c)" for c :: "u8 list"
    by (simp_all add: buf_get_def drop_take add.commute)
  then show ?thesis using e by (simp add: buf_u64_def buf_u32_def)
qed

lemma buf_u64_le_bytes: "buf_get k 8 a = le_bytes 8 w \<Longrightarrow> buf_u64 k a = w"
proof -
  assume e: "buf_get k 8 a = le_bytes 8 w"
  have "buf_get k 4 a = take 4 (buf_get k 8 a)" "buf_get (k + 4) 4 a = drop 4 (buf_get k 8 a)"
    by (simp_all add: buf_get_def drop_take add.commute)
  then show ?thesis
    using split_u64 [of w] by (simp add: buf_u64_def buf_u32_def e take_le_bytes drop_le_bytes u32_le_bytes or.commute)
qed

subsection \<open>Message calls\<close>

text \<open>The arguments of \<open>mach_msg2\<close> that a caller chooses; each holds two 32-bit fields of the header.\<close>

record mach_args =
  ma_options :: u64
  ma_bits_and_size :: u64
  ma_ports :: u64
  ma_voucher_and_id :: u64
  ma_desc_and_rcv_name :: u64
  ma_rcv_size :: u64

definition MACH_MSG_TYPE_COPY_SEND :: u32 where "MACH_MSG_TYPE_COPY_SEND = 19"
definition MACH_MSG_TYPE_MAKE_SEND_ONCE :: u32 where "MACH_MSG_TYPE_MAKE_SEND_ONCE = 21"
definition MSGH_BITS :: u32 where "MSGH_BITS = MACH_MSG_TYPE_COPY_SEND OR push_bit 8 MACH_MSG_TYPE_MAKE_SEND_ONCE"
definition MACH_MSGH_BITS_COMPLEX :: u32 where "MACH_MSGH_BITS_COMPLEX = 0x80000000"
definition MACH64_MACH_MSG2 :: u64 where "MACH64_MACH_MSG2 = 0x8000000000000000"
definition MACH64_SEND_KOBJECT_CALL :: u64 where "MACH64_SEND_KOBJECT_CALL = 0x0000000200000000"
definition MACH64_SEND_MSG :: u64 where "MACH64_SEND_MSG = 1"
definition MACH64_RCV_MSG :: u64 where "MACH64_RCV_MSG = 2"
definition NDR_LE :: "u8 list" where "NDR_LE = [0, 0, 0, 0, 1, 0, 0, 0]"

definition pack2 :: "u32 \<Rightarrow> u32 \<Rightarrow> u64" where "pack2 lo hi = ucast lo OR push_bit 32 (ucast hi)"

definition msg_args :: "u32 \<Rightarrow> u32 \<Rightarrow> u32 \<Rightarrow> u32 \<Rightarrow> u64 \<Rightarrow> mach_args" where
  "msg_args msgh_id remote reply req_size rcv =
     \<lparr>ma_options = MACH64_MACH_MSG2 OR MACH64_SEND_KOBJECT_CALL OR MACH64_SEND_MSG OR MACH64_RCV_MSG,
      ma_bits_and_size = pack2 MSGH_BITS req_size,
      ma_ports = pack2 remote reply,
      ma_voucher_and_id = push_bit 32 (ucast msgh_id),
      ma_desc_and_rcv_name = push_bit 32 (ucast reply),
      ma_rcv_size = rcv\<rparr>"

text \<open>The header written into a zeroed buffer.\<close>

definition put_msg_header :: "u32 \<Rightarrow> u32 \<Rightarrow> u32 \<Rightarrow> u32 \<Rightarrow> u8 list \<Rightarrow> u8 list" where
  "put_msg_header msgh_id remote reply req_size buf =
     buf_put 20 (le_bytes 4 msgh_id) (buf_put 12 (le_bytes 4 reply) (buf_put 8 (le_bytes 4 remote)
       (buf_put 4 (le_bytes 4 req_size) (buf_put 0 (le_bytes 4 MSGH_BITS) buf))))"

type_synonym 's mach_msg = "'s \<Rightarrow> mach_args \<Rightarrow> u8 list \<Rightarrow> (i32 \<times> u8 list) \<times> 's"

text \<open>A port or value that is asked for once: the cached one, or what the call gives, which is kept.\<close>

definition cached_port :: "u32 \<Rightarrow> u32 \<Rightarrow> u32" where
  "cached_port cached new = (if cached \<noteq> 0 then cached else new)"

definition pad4 :: "nat \<Rightarrow> nat" where "pad4 n = (n + 3) div 4 * 4"

text \<open>The port name of a reply that carries one port descriptor, else 0.\<close>

definition port_reply :: "u8 list \<Rightarrow> u32" where
  "port_reply buf =
     (if buf_u32 0 buf AND MACH_MSGH_BITS_COMPLEX = 0 then 0
      else if buf_u32 24 buf \<noteq> 1 then 0
      else buf_u32 28 buf)"

text \<open>The address and size of a reply that carries one out-of-line descriptor.\<close>

definition parse_ool_reply :: "u8 list \<Rightarrow> (u64 \<times> u32) option" where
  "parse_ool_reply buf =
     (if buf_u32 0 buf AND MACH_MSGH_BITS_COMPLEX = 0 then None
      else if buf_u32 24 buf \<noteq> 1 then None
      else let addr = buf_u64 28 buf; dtype = buf ! 39; sz = buf_u32 40 buf
           in if dtype \<noteq> 1 \<or> addr = 0 \<or> sz = 0 then None else Some (addr, sz))"

subsection \<open>IOKit requests\<close>

definition iter_buf_size :: nat where "iter_buf_size = 4096 + 64"

definition iter_request :: "u8 list option \<Rightarrow> (u32 \<times> u8 list) option" where
  "iter_request data =
     (let buf = replicate iter_buf_size 0
      in case data of
        None \<Rightarrow> Some (24, buf)
      | Some d \<Rightarrow>
          let pad = pad4 (length d); off_len = 24 + 8; off_data = off_len + 4
          in if off_data + pad > iter_buf_size then None
             else Some (of_nat (off_data + pad),
                    buf_put off_data d (buf_put off_len (le_bytes 4 (of_nat (length d) :: u32)) buf)))"

definition iokit_iter_call ::
  "'s mach_msg \<Rightarrow> u32 \<Rightarrow> u32 \<Rightarrow> u32 \<Rightarrow> u8 list option \<Rightarrow> 's \<Rightarrow> u32 \<times> 's" where
  "iokit_iter_call K reply msgh_id tgt data s =
     (if reply = 0 then (0, s)
      else case iter_request data of
        None \<Rightarrow> (0, s)
      | Some (req_size, buf) \<Rightarrow>
          (case K s (msg_args msgh_id tgt reply req_size (of_nat iter_buf_size)) (put_msg_header msgh_id tgt reply req_size buf) of
             ((kr, buf1), s1) \<Rightarrow> (if kr \<noteq> 0 then 0 else port_reply buf1, s1)))"

definition io_service_get_matching_services_bin ::
  "'s mach_msg \<Rightarrow> u32 \<Rightarrow> u32 \<Rightarrow> u8 list \<Rightarrow> 's \<Rightarrow> u32 \<times> 's" where
  "io_service_get_matching_services_bin K reply master blob s =
     (if master = 0 \<or> length blob \<ge> 4096 then (0, s) else iokit_iter_call K reply 2881 master (Some blob) s)"

definition io_iterator_next :: "'s mach_msg \<Rightarrow> u32 \<Rightarrow> u32 \<Rightarrow> 's \<Rightarrow> u32 \<times> 's" where
  "io_iterator_next K reply it s = (if it = 0 then (0, s) else iokit_iter_call K reply 2802 it None s)"

definition child_request :: "u8 list \<Rightarrow> u32 \<times> u8 list" where
  "child_request plane =
     (of_nat (40 + pad4 (length plane)),
      buf_put 36 (le_bytes 4 (of_nat (length plane) :: u32)) (buf_put 40 plane (replicate 256 0)))"

definition iokit_get_child_iter :: "'s mach_msg \<Rightarrow> u32 \<Rightarrow> u32 \<Rightarrow> u8 list \<Rightarrow> 's \<Rightarrow> u32 \<times> 's" where
  "iokit_get_child_iter K reply entry plane s =
     (if reply = 0 \<or> length plane > 128 then (0, s)
      else case child_request plane of
        (req_size, buf) \<Rightarrow>
          (case K s (msg_args 2813 entry reply req_size 256) (put_msg_header 2813 entry reply req_size buf) of
             ((kr, buf1), s1) \<Rightarrow> (if kr \<noteq> 0 then 0 else port_reply buf1, s1)))"

definition io_registry_entry_get_child_iterator ::
  "'s mach_msg \<Rightarrow> u32 \<Rightarrow> u32 \<Rightarrow> u8 list \<Rightarrow> 's \<Rightarrow> u32 \<times> 's" where
  "io_registry_entry_get_child_iterator K reply entry plane s =
     (if entry = 0 \<or> plane = [] \<or> length plane > 128 then (0, s) else iokit_get_child_iter K reply entry plane s)"

definition props_request :: "u8 list option \<Rightarrow> (u32 \<times> u8 list) option" where
  "props_request name =
     (case name of
        None \<Rightarrow> Some (24, replicate 256 0)
      | Some nm \<Rightarrow>
          if nm = [] \<or> length nm > 128 then None
          else Some (of_nat (52 + pad4 (length nm) + 4),
                 buf_put 52 nm (buf_put 48 (le_bytes 4 (of_nat (length nm) :: u32))
                   (buf_put 36 (le_bytes 4 (1 :: u32)) (replicate 256 0)))))"

definition iokit_get_props_inner ::
  "'s mach_msg \<Rightarrow> u32 \<Rightarrow> u32 \<Rightarrow> u32 \<Rightarrow> u8 list option \<Rightarrow> 's \<Rightarrow> (u64 \<times> u32) option \<times> 's" where
  "iokit_get_props_inner K reply msgh_id entry name s =
     (if reply = 0 then (None, s)
      else case props_request name of
        None \<Rightarrow> (None, s)
      | Some (req_size, buf) \<Rightarrow>
          (case K s (msg_args msgh_id entry reply req_size 128) (put_msg_header msgh_id entry reply req_size buf) of
             ((kr, buf1), s1) \<Rightarrow> (if kr \<noteq> 0 then None else parse_ool_reply (take 128 buf1), s1)))"

definition io_registry_entry_get_properties_bin ::
  "'s mach_msg \<Rightarrow> u32 \<Rightarrow> u32 \<Rightarrow> 's \<Rightarrow> (u64 \<times> u32) option \<times> 's" where
  "io_registry_entry_get_properties_bin K reply entry s =
     (if entry = 0 then (None, s) else iokit_get_props_inner K reply 2878 entry None s)"

definition io_registry_entry_get_property_bin ::
  "'s mach_msg \<Rightarrow> u32 \<Rightarrow> u32 \<Rightarrow> u8 list \<Rightarrow> 's \<Rightarrow> (u64 \<times> u32) option \<times> 's" where
  "io_registry_entry_get_property_bin K reply entry name s =
     (if entry = 0 \<or> name = [] \<or> length name > 128 then (None, s)
      else iokit_get_props_inner K reply 2879 entry (Some name) s)"

subsection \<open>Ports\<close>

text \<open>The message structs: the header, then \<open>n\<close> bytes of body and trailer.\<close>

definition msg_struct :: "u32 \<Rightarrow> u32 \<Rightarrow> u32 \<Rightarrow> u32 \<Rightarrow> u8 list \<Rightarrow> u8 list" where
  "msg_struct msgh_id remote reply req_size rest =
     le_bytes 4 MSGH_BITS @ le_bytes 4 req_size @ le_bytes 4 remote @ le_bytes 4 reply @
     le_bytes 4 (0 :: u32) @ le_bytes 4 msgh_id @ rest"

definition host_get_io_master_uncached :: "'s mach_msg \<Rightarrow> u32 \<Rightarrow> u32 \<Rightarrow> 's \<Rightarrow> u32 \<times> 's" where
  "host_get_io_master_uncached K host reply s =
     (if host = 0 \<or> reply = 0 then (0, s)
      else case K s (msg_args 205 host reply 24 72) (msg_struct 205 host reply 24 (replicate 48 0)) of
             ((kr, buf1), s1) \<Rightarrow> (if kr \<noteq> 0 then 0 else port_reply buf1, s1))"

definition io_master_port :: "'s mach_msg \<Rightarrow> u32 \<Rightarrow> u32 \<Rightarrow> u32 \<Rightarrow> 's \<Rightarrow> u32 \<times> 's" where
  "io_master_port K host reply cached s =
     (if cached \<noteq> 0 then (cached, s) else host_get_io_master_uncached K host reply s)"

definition mach_port_deallocate :: "'s mach_msg \<Rightarrow> u32 \<Rightarrow> u32 \<Rightarrow> u32 \<Rightarrow> 's \<Rightarrow> i32 \<times> 's" where
  "mach_port_deallocate K reply task port s =
     (if port = 0 then (0, s)
      else if reply = 0 then (- 1, s)
      else case K s (msg_args 3206 task reply 36 68)
             (msg_struct 3206 task reply 36 (NDR_LE @ le_bytes 4 port @ replicate 36 0)) of
             ((kr, buf1), s1) \<Rightarrow> (if kr \<noteq> 0 then kr else buf_u32 32 buf1, s1))"

definition vm_statistics64 :: "'s mach_msg \<Rightarrow> u32 \<Rightarrow> u32 \<Rightarrow> 's \<Rightarrow> u32 list option \<times> 's" where
  "vm_statistics64 K host reply s =
     (if host = 0 \<or> reply = 0 then (None, s)
      else case K s (msg_args 219 host reply 40 224)
             (msg_struct 219 host reply 40
               (NDR_LE @ le_bytes 4 (4 :: u32) @ le_bytes 4 (38 :: u32) @ replicate (38 * 4) 0 @ replicate 32 0)) of
             ((kr, buf1), s1) \<Rightarrow>
               (if kr \<noteq> 0 \<or> buf_u32 32 buf1 \<noteq> 0 then None
                else Some (List.map (\<lambda>i. buf_u32 (40 + 4 * i) buf1) [0 ..< 38]), s1))"

subsection \<open>The matching dictionary\<close>

definition AGX_MATCHING_BLOB :: "u8 list" where
  "AGX_MATCHING_BLOB =
    [0xd3, 0x00, 0x00, 0x00,
     0x01, 0x00, 0x00, 0x01,
     0x10, 0x00, 0x00, 0x08] @
    List.map byte_of ''IOProviderClass'' @ [0x00] @
    [0x0e, 0x00, 0x00, 0x89] @
    List.map byte_of ''AGXAccelerator'' @ [0x00, 0x00]"

subsection \<open>proc_info and sysctl\<close>

text \<open>\<open>proc_info\<close> gives a byte count, or a negative error; the wrappers a count of pids.\<close>

definition proc_listallpids :: "int \<Rightarrow> int" where
  "proc_listallpids bytes = (if bytes < 0 then bytes else bytes div 4)"

definition PBI_NAME_OFFSET :: nat where "PBI_NAME_OFFSET = 64"
definition PBI_NAME_MAX :: nat where "PBI_NAME_MAX = 32"

text \<open>The length copied, and the caller's buffer after it. The first argument is what the BSD info call
  returned and the 232 bytes it filled.\<close>

definition proc_name_into :: "int \<times> u8 list \<Rightarrow> u8 list \<Rightarrow> nat \<times> u8 list" where
  "proc_name_into info buf =
     (case info of (n, bsd) \<Rightarrow>
        if n < int (PBI_NAME_OFFSET + PBI_NAME_MAX) then (0, buf)
        else let name = buf_get PBI_NAME_OFFSET PBI_NAME_MAX bsd;
                 len = length (takeWhile (\<lambda>b. b \<noteq> 0) name);
                 copy = min len (length buf - 1);
                 buf1 = buf_put 0 (take copy name) buf
             in (copy, if copy < length buf then buf1[copy := 0] else buf1))"

definition hw_pagesize :: "int \<Rightarrow> int \<Rightarrow> int" where
  "hw_pagesize ret n = (if ret = 0 \<and> n > 0 then n else 16384)"

definition hw_activecpu :: "int \<Rightarrow> int \<Rightarrow> int" where
  "hw_activecpu ret n = (if ret = 0 \<and> n > 0 then n else 1)"

definition hw_memsize_mib :: "int \<Rightarrow> u64 \<Rightarrow> u64" where
  "hw_memsize_mib r bytes = (if r \<noteq> 0 then 0 else drop_bit 20 bytes)"

definition vm_loadavg :: "int \<Rightarrow> u32 \<times> u32 \<times> u32 \<Rightarrow> int \<Rightarrow> (f64 \<times> f64 \<times> f64) option" where
  "vm_loadavg ret ldavg fscale =
     (if ret \<noteq> 0 \<or> fscale \<le> 0 then None
      else case ldavg of (a, b, c) \<Rightarrow>
        let scale = f64_of_nat (nat fscale); share = (\<lambda>x. f64_div (f64_of_nat (unat x)) scale)
        in Some (share a, share b, share c))"

subsection \<open>Address ranges\<close>

record region =
  rg_address :: u64
  rg_size :: u64

definition region_end :: "region \<Rightarrow> u64" where "region_end r = rg_address r + rg_size r"

text \<open>The region holding an address, not the next one above a hole.\<close>

definition region_containing :: "region option \<Rightarrow> u64 \<Rightarrow> (u64 \<times> u64) option" where
  "region_containing info addr =
     (case info of None \<Rightarrow> None
      | Some r \<Rightarrow> if addr < rg_address r \<or> addr \<ge> region_end r then None else Some (rg_address r, region_end r))"

record anchors =
  an_arena_lo :: u64
  an_arena_hi :: u64
  an_code :: u64
  an_stack :: u64

definition region_holds :: "region \<Rightarrow> u64 \<Rightarrow> bool" where
  "region_holds r a \<longleftrightarrow> rg_address r \<le> a \<and> a < region_end r"

definition region_overlaps :: "region \<Rightarrow> u64 \<Rightarrow> u64 \<Rightarrow> bool" where
  "region_overlaps r lo hi \<longleftrightarrow> lo < region_end r \<and> rg_address r < hi"

definition keep_region :: "anchors \<Rightarrow> region \<Rightarrow> bool" where
  "keep_region an r \<longleftrightarrow>
     region_overlaps r (an_arena_lo an) (an_arena_hi an) \<or> region_holds r (an_code an) \<or>
     region_holds r (an_stack an) \<or> rg_size r \<ge> 32 * 1024 * 1024"

text \<open>
  The pass: at most \<open>n\<close> queries. What the kernel says of an address may depend on the ranges already handed back,
  with the answers it gave to that; they are the history \<open>h\<close>.
\<close>

fun unmap_loop ::
  "nat \<Rightarrow> anchors \<Rightarrow> ((u64 \<times> u64 \<times> i32) list \<Rightarrow> u64 \<Rightarrow> region option) \<Rightarrow>
   ((u64 \<times> u64 \<times> i32) list \<Rightarrow> u64 \<Rightarrow> u64 \<Rightarrow> i32) \<Rightarrow> u64 \<Rightarrow> u64 \<Rightarrow> (u64 \<times> u64 \<times> i32) list \<Rightarrow>
   u64 \<times> (u64 \<times> u64 \<times> i32) list" where
  "unmap_loop 0 an query dealloc addr tot h = (tot, h)"
| "unmap_loop (Suc n) an query dealloc addr tot h =
     (case query h addr of
        None \<Rightarrow> (tot, h)
      | Some r \<Rightarrow>
          if keep_region an r then unmap_loop n an query dealloc (region_end r) tot h
          else let kr = dealloc h (rg_address r) (rg_size r)
               in unmap_loop n an query dealloc (region_end r) (if kr = 0 then tot + rg_size r else tot)
                    (h @ [(rg_address r, rg_size r, kr)]))"

definition unmap_idle_state ::
  "anchors \<Rightarrow> ((u64 \<times> u64 \<times> i32) list \<Rightarrow> u64 \<Rightarrow> region option) \<Rightarrow>
   ((u64 \<times> u64 \<times> i32) list \<Rightarrow> u64 \<Rightarrow> u64 \<Rightarrow> i32) \<Rightarrow> u64 \<times> (u64 \<times> u64 \<times> i32) list" where
  "unmap_idle_state an query dealloc = unmap_loop 256 an query dealloc 0 0 []"

subsection \<open>What the regions handed back do not hold\<close>

definition spared :: "anchors \<Rightarrow> u64 \<times> u64 \<times> i32 \<Rightarrow> bool" where
  "spared an = (\<lambda>(p, n, kr). \<forall>x. p \<le> x \<and> unat x < unat p + unat n \<longrightarrow>
     x \<noteq> an_code an \<and> x \<noteq> an_stack an \<and> \<not> (an_arena_lo an \<le> x \<and> x < an_arena_hi an))"

lemma spared_unless_kept:
  assumes "\<not> keep_region an r" "unat (rg_address r) + unat (rg_size r) < 2 ^ 64"
  shows "spared an (rg_address r, rg_size r, kr)"
proof -
  have e: "unat (region_end r) = unat (rg_address r) + unat (rg_size r)"
    using assms(2) by (simp add: region_end_def unat_add_lem [THEN iffD1])
  have "x < region_end r" if "unat x < unat (rg_address r) + unat (rg_size r)" for x
    using that by (simp add: word_less_nat_alt e)
  with assms(1) show ?thesis
    by (auto simp: spared_def keep_region_def region_holds_def region_overlaps_def) (meson le_less_trans less_le_trans)+
qed

definition freed_size :: "(u64 \<times> u64 \<times> i32) list \<Rightarrow> u64" where
  "freed_size h = sum_list (List.map (\<lambda>(p, n, kr). if kr = 0 then n else 0) h)"

lemma unmap_loop_spares:
  assumes "\<And>h addr r. query h addr = Some r \<Longrightarrow> unat (rg_address r) + unat (rg_size r) < 2 ^ 64"
    and "\<forall>e \<in> set h. spared an e" "tot = freed_size h"
  shows "(\<forall>e \<in> set (snd (unmap_loop n an query dealloc addr tot h)). spared an e)
    \<and> fst (unmap_loop n an query dealloc addr tot h) = freed_size (snd (unmap_loop n an query dealloc addr tot h))"
  using assms(2,3)
proof (induction n arbitrary: addr tot h)
  case (Suc n)
  show ?case
  proof (cases "query h addr")
    case (Some r)
    show ?thesis
    proof (cases "keep_region an r")
      case True
      then show ?thesis using Suc.IH [OF Suc.prems] Some by simp
    next
      case False
      let ?kr = "dealloc h (rg_address r) (rg_size r)"
      have "\<forall>e \<in> set (h @ [(rg_address r, rg_size r, ?kr)]). spared an e"
        using Suc.prems(1) spared_unless_kept [OF False assms(1) [OF Some]] by simp
      moreover have "(if ?kr = 0 then tot + rg_size r else tot) = freed_size (h @ [(rg_address r, rg_size r, ?kr)])"
        using Suc.prems(2) by (simp add: freed_size_def)
      moreover have "unmap_loop (Suc n) an query dealloc addr tot h =
          unmap_loop n an query dealloc (region_end r) (if ?kr = 0 then tot + rg_size r else tot)
            (h @ [(rg_address r, rg_size r, ?kr)])"
        using Some False by (simp add: Let_def)
      ultimately show ?thesis using Suc.IH by presburger
    qed
  qed (use Suc.prems in simp)
qed simp

text \<open>C32: handing the idle address ranges of the macOS process back never touches what the program lives in: no
  range given to \<open>vm_deallocate\<close> holds the address of its code, of its active stack frame, or any byte of the arena,
  whatever regions the kernel lists and in whatever order (as long as none ends past the address space); and the
  sum returned is that of the ranges the kernel took back.\<close>

theorem unmap_spares_program:
  assumes "\<And>h addr r. query h addr = Some r \<Longrightarrow> unat (rg_address r) + unat (rg_size r) < 2 ^ 64"
  shows "(\<forall>e \<in> set (snd (unmap_idle_state an query dealloc)). spared an e)
    \<and> fst (unmap_idle_state an query dealloc) = freed_size (snd (unmap_idle_state an query dealloc))"
  unfolding unmap_idle_state_def by (rule unmap_loop_spares [OF assms]) (simp_all add: freed_size_def)

definition sample_query :: "(u64 \<times> u64 \<times> i32) list \<Rightarrow> u64 \<Rightarrow> region option" where
  "sample_query h addr =
     (if addr < 0x4000 then Some \<lparr>rg_address = 0x1000, rg_size = 0x3000\<rparr>
      else if addr < 0x9000 then Some \<lparr>rg_address = 0x4000, rg_size = 0x5000\<rparr> else None)"

theorem unmap_spares_program_witness:
  "snd (unmap_idle_state \<lparr>an_arena_lo = 0x20000, an_arena_hi = 0x30000, an_code = 0x5000, an_stack = 0x40000\<rparr>
      sample_query (\<lambda>_ _ _. 0)) = [(0x1000, 0x3000, 0)]
    \<and> spared \<lparr>an_arena_lo = 0x20000, an_arena_hi = 0x30000, an_code = 0x5000, an_stack = 0x40000\<rparr> (0x1000, 0x3000, 0)"
proof -
  let ?an = "\<lparr>an_arena_lo = 0x20000, an_arena_hi = 0x30000, an_code = 0x5000, an_stack = 0x40000\<rparr>"
  have "unmap_idle_state ?an sample_query (\<lambda>_ _ _. 0) = (0x3000, [(0x1000, 0x3000, 0)])"
  proof -
    have n: "256 = Suc (Suc (Suc 253))" by simp
    show ?thesis
      unfolding unmap_idle_state_def n unmap_loop.simps
      by (simp add: sample_query_def keep_region_def region_overlaps_def region_holds_def region_end_def)
  qed
  moreover have "\<forall>e \<in> set (snd (unmap_idle_state ?an sample_query (\<lambda>_ _ _. 0))). spared ?an e"
    by (rule conjunct1 [OF unmap_spares_program]) (auto simp: sample_query_def split: if_splits)
  ultimately show ?thesis by simp
qed

subsection \<open>What the matching dictionary says\<close>

lemma matching_tags:
  "read_tag AGX_MATCHING_BLOB 4 = Some \<lparr>tg_ty = 1, tg_operand = 1\<rparr>"
  "read_tag AGX_MATCHING_BLOB 8 = Some \<lparr>tg_ty = 8, tg_operand = 16\<rparr>"
  "read_tag AGX_MATCHING_BLOB 28 = Some \<lparr>tg_ty = 9, tg_operand = 14\<rparr>"
  by (simp_all add: read_tag_def AGX_MATCHING_BLOB_def u32_le_def)

lemma matching_slices:
  "length AGX_MATCHING_BLOB = 48" "take 4 AGX_MATCHING_BLOB = MAGIC"
  "take 15 (drop 12 AGX_MATCHING_BLOB) = List.map byte_of ''IOProviderClass''"
  "take 14 (drop 32 AGX_MATCHING_BLOB) = List.map byte_of ''AGXAccelerator''"
  by (simp_all add: AGX_MATCHING_BLOB_def MAGIC_def)

lemma matching_parse:
  "parse_blob AGX_MATCHING_BLOB = Some \<lparr>ob_blob = AGX_MATCHING_BLOB, ob_ckpts = [4, 8, 28], ob_stride = 1, ob_count = 3\<rparr>"
proof -
  have w: "walk AGX_MATCHING_BLOB 4 (Some \<lparr>ck_buf = x # y # z # rest, ck_n = 0, ck_stride = 1\<rparr>)
      = Some (48, 3, Some \<lparr>ck_buf = 4 # 8 # 28 # rest, ck_n = 3, ck_stride = 1\<rparr>)" for x y z rest
    by (simp add: walk_def walk_loop.simps matching_tags matching_slices type_defs scalar_step_def owed_def
        is_container_def ck_record_def)
  have n: "OSBIN_CKPTS = Suc (Suc (Suc 509))" by (simp add: OSBIN_CKPTS_def)
  have r: "replicate OSBIN_CKPTS 0 = (0 :: nat) # 0 # 0 # replicate 509 0" unfolding n replicate_Suc ..
  show ?thesis unfolding parse_blob_def os_parse_def r w by (simp add: matching_slices)
qed

text \<open>The matching dictionary sent to IOKit, written out byte by byte, is what it is meant to be: the program's own
  decoder accepts it and finds in it the key \<open>IOProviderClass\<close> with the string \<open>AGXAccelerator\<close>.\<close>

theorem matching_blob_decodes:
  "Option.bind (parse_blob AGX_MATCHING_BLOB) (\<lambda>bin. Option.bind (os_root bin) (\<lambda>rt.
      Option.bind (find_dict bin rt (List.map byte_of ''IOProviderClass'')) (as_string bin)))
    = Some (List.map byte_of ''AGXAccelerator'')"
proof -
  let ?b = "\<lparr>ob_blob = AGX_MATCHING_BLOB, ob_ckpts = [4, 8, 28], ob_stride = 1, ob_count = 3\<rparr>"
  have key: "symbol_bytes ?b 8 = Some (List.map byte_of ''IOProviderClass'')"
    by (simp add: symbol_bytes_def target_def resolve_def matching_tags matching_slices type_defs del: list.map)
  have "item_len ?b 8 = Some 20" "item_len ?b 28 = Some 20"
    by (simp_all add: item_len_def walk_def walk_loop.simps matching_tags matching_slices type_defs scalar_step_def owed_def
        is_container_def)
  then have "find_dict ?b 4 (List.map byte_of ''IOProviderClass'') = Some 28"
    using key by (simp add: find_dict_def target_def resolve_def matching_tags type_defs del: list.map)
  moreover have "as_string ?b 28 = Some (List.map byte_of ''AGXAccelerator'')"
    by (simp add: as_string_def target_def resolve_def matching_tags matching_slices type_defs del: list.map)
  ultimately show ?thesis by (simp add: matching_parse os_root_def del: list.map)
qed

end
