(* ===== verification/Iokit.thy ===== *)
theory Iokit
  imports Mach
begin

unbundle bit_operations_syntax

text \<open>
  The walk over the IOKit registry (\<open>init\<close> and the first phase of \<open>populate\<close> in src/gpu/agx.rs), with every
  message it sends and every right and buffer it holds. The kernel is an argument. What it promises is stated
  apart from the code: the wire format of the requests and replies, and a state machine of what the objects behind
  the port names are. Against any such kernel the walk returns what the registry holds and gives everything back.
\<close>

subsection \<open>The walk\<close>

record 's io_kernel =
  ik_msg :: "'s mach_msg"
  ik_free :: "'s \<Rightarrow> u64 \<Rightarrow> u64 \<Rightarrow> i32 \<times> 's"
  ik_mem :: "'s \<Rightarrow> u64 \<Rightarrow> u32 \<Rightarrow> u8 list"

text \<open>The end of an \<open>OolBuffer\<close>.\<close>

definition drop_ool :: "'s io_kernel \<Rightarrow> u64 \<times> u32 \<Rightarrow> 's \<Rightarrow> 's" where
  "drop_ool K b s = (if fst b \<noteq> 0 \<and> snd b \<noteq> 0 then snd (ik_free K s (fst b) (ucast (snd b))) else s)"

text \<open>The bytes of a fetched property, read before its buffer goes.\<close>

definition take_blob :: "'s io_kernel \<Rightarrow> (u64 \<times> u32) option \<times> 's \<Rightarrow> u8 list option \<times> 's" where
  "take_blob K r =
     (case r of
        (None, s) \<Rightarrow> (None, s)
      | (Some b, s) \<Rightarrow> (Some (ik_mem K s (fst b) (snd b)), drop_ool K b s))"

definition perf_name :: "u8 list" where "perf_name = List.map byte_of ''PerformanceStatistics'' @ [0]"
definition service_plane :: "u8 list" where "service_plane = List.map byte_of ''IOService'' @ [0]"

definition release :: "'s io_kernel \<Rightarrow> u32 \<Rightarrow> u32 \<Rightarrow> u32 \<Rightarrow> 's \<Rightarrow> 's" where
  "release K reply task port s = snd (mach_port_deallocate (ik_msg K) reply task port s)"

partial_function (option) child_loop ::
  "'s io_kernel \<Rightarrow> u32 \<Rightarrow> u32 \<Rightarrow> u32 \<Rightarrow> u8 list option list \<Rightarrow> 's \<Rightarrow> (u8 list option list \<times> 's) option" where
  "child_loop K reply task child_iter acc s =
     (case io_iterator_next (ik_msg K) reply child_iter s of
        (child, s1) \<Rightarrow>
          if child = 0 then Some (acc, s1)
          else case take_blob K (io_registry_entry_get_properties_bin (ik_msg K) reply child s1) of
            (blob, s2) \<Rightarrow> child_loop K reply task child_iter (acc @ [blob]) (release K reply task child s2))"

definition accel_children :: "'s io_kernel \<Rightarrow> u32 \<Rightarrow> u32 \<Rightarrow> u32 \<Rightarrow> 's \<Rightarrow> (u8 list option list \<times> 's) option" where
  "accel_children K reply task agx s =
     (case io_registry_entry_get_child_iterator (ik_msg K) reply agx service_plane s of
        (child_iter, s1) \<Rightarrow>
          if child_iter \<noteq> 0 then
            Option.bind (child_loop K reply task child_iter [] s1)
              (\<lambda>(kids, s2). Some (kids, release K reply task child_iter s2))
          else Some ([], s1))"

partial_function (option) accel_loop ::
  "'s io_kernel \<Rightarrow> u32 \<Rightarrow> u32 \<Rightarrow> u32 \<Rightarrow> agx_accel list \<Rightarrow> 's \<Rightarrow> (agx_accel list \<times> 's) option" where
  "accel_loop K reply task it acc s =
     (case io_iterator_next (ik_msg K) reply it s of
        (agx, s1) \<Rightarrow>
          if agx = 0 then Some (acc, s1)
          else case take_blob K (io_registry_entry_get_property_bin (ik_msg K) reply agx perf_name s1) of
            (perf, s2) \<Rightarrow>
              Option.bind (accel_children K reply task agx s2) (\<lambda>(kids, s3).
                accel_loop K reply task it (acc @ [\<lparr>aa_perf = perf, aa_children = kids\<rparr>]) (release K reply task agx s3)))"

text \<open>\<open>cached\<close> is the master port of an earlier call, 0 when there was none.\<close>

definition agx_walk ::
  "'s io_kernel \<Rightarrow> u32 \<Rightarrow> u32 \<Rightarrow> u32 \<Rightarrow> u32 \<Rightarrow> 's \<Rightarrow> (agx_accel list option \<times> 's) option" where
  "agx_walk K host reply task cached s =
     (case io_master_port (ik_msg K) host reply cached s of
        (master, s1) \<Rightarrow>
          if master = 0 then Some (None, s1)
          else case io_service_get_matching_services_bin (ik_msg K) reply master AGX_MATCHING_BLOB s1 of
            (it, s2) \<Rightarrow>
              if it = 0 then Some (None, s2)
              else Option.bind (accel_loop K reply task it [] s2)
                     (\<lambda>(accels, s3). Some (Some accels, release K reply task it s3)))"

partial_function (option) count_loop :: "'s io_kernel \<Rightarrow> u32 \<Rightarrow> u32 \<Rightarrow> u32 \<Rightarrow> nat \<Rightarrow> 's \<Rightarrow> (nat \<times> 's) option" where
  "count_loop K reply task it n s =
     (case io_iterator_next (ik_msg K) reply it s of
        (svc, s1) \<Rightarrow>
          if svc = 0 then Some (n, s1)
          else count_loop K reply task it (n + 1) (release K reply task svc s1))"

definition count_agx_devices :: "'s io_kernel \<Rightarrow> u32 \<Rightarrow> u32 \<Rightarrow> u32 \<Rightarrow> u32 \<Rightarrow> 's \<Rightarrow> (nat \<times> 's) option" where
  "count_agx_devices K host reply task cached s =
     (case io_master_port (ik_msg K) host reply cached s of
        (master, s1) \<Rightarrow>
          if master = 0 then Some (0, s1)
          else case io_service_get_matching_services_bin (ik_msg K) reply master AGX_MATCHING_BLOB s1 of
            (it, s2) \<Rightarrow>
              if it = 0 then Some (0, s2)
              else Option.bind (count_loop K reply task it 0 s2)
                     (\<lambda>(n, s3). Some (n, release K reply task it s3)))"

text \<open>\<open>init\<close> and \<open>populate\<close>.\<close>

definition agx_init :: "'s io_kernel \<Rightarrow> u32 \<Rightarrow> u32 \<Rightarrow> u32 \<Rightarrow> u32 \<Rightarrow> u64 \<Rightarrow> 's \<Rightarrow> ((u32 \<times> u64) \<times> 's) option" where
  "agx_init K host reply task cached memsize_mib s =
     Option.bind (count_agx_devices K host reply task cached s)
       (\<lambda>(n, s1). let n_gpus = of_nat n :: u32 in Some ((n_gpus, if n_gpus > 0 then memsize_mib else 0), s1))"

definition agx_populate_io ::
  "'s io_kernel \<Rightarrow> u32 \<Rightarrow> u32 \<Rightarrow> u32 \<Rightarrow> u32 \<Rightarrow> u32 \<Rightarrow> u64 \<Rightarrow> (u32 \<times> u64) list \<Rightarrow> u64 \<Rightarrow> 's \<Rightarrow>
   (((u32 \<times> gpu_proc) list \<times> (u32 \<times> u64) list \<times> (u32 \<times> u32 \<times> u64 \<times> u64)) \<times> 's) option" where
  "agx_populate_io K host reply task cached n_gpus total_m prev dt_ns s =
     (if n_gpus = 0 \<or> dt_ns = 0 then Some (([], [], (0, 0, 0, total_m)), s)
      else Option.bind (agx_walk K host reply task cached s)
             (\<lambda>(accels, s1). Some (agx_populate n_gpus total_m prev accels dt_ns, s1)))"

subsection \<open>The wire format\<close>

text \<open>
  What a kernel reads out of a message. The header in the buffer agrees with the packed arguments, the sizes are
  multiples of 4 inside the buffer, the reply port is where the answer goes.
\<close>

datatype io_request = Matching "u8 list" | NextOf | ChildrenOf "u8 list" | AllProps | OneProp "u8 list" | Dealloc u32

definition low32 :: "u64 \<Rightarrow> u32" where "low32 w = ucast w"
definition high32 :: "u64 \<Rightarrow> u32" where "high32 w = ucast (drop_bit 32 w)"

definition wire_header :: "mach_args \<Rightarrow> u8 list \<Rightarrow> bool" where
  "wire_header a buf \<longleftrightarrow>
     ma_options a = 0x8000000200000003 \<and>
     buf_u32 0 buf = 0x1513 \<and> low32 (ma_bits_and_size a) = 0x1513 \<and>
     buf_u32 4 buf = high32 (ma_bits_and_size a) \<and>
     buf_u32 8 buf = low32 (ma_ports a) \<and> buf_u32 12 buf = high32 (ma_ports a) \<and>
     buf_u32 16 buf = 0 \<and> low32 (ma_voucher_and_id a) = 0 \<and> buf_u32 20 buf = high32 (ma_voucher_and_id a) \<and>
     low32 (ma_desc_and_rcv_name a) = 0 \<and> high32 (ma_desc_and_rcv_name a) = high32 (ma_ports a) \<and>
     high32 (ma_ports a) \<noteq> 0 \<and>
     4 dvd unat (buf_u32 4 buf) \<and> unat (buf_u32 4 buf) \<le> length buf \<and> unat (ma_rcv_size a) \<le> length buf"

definition wire_request :: "mach_args \<Rightarrow> u8 list \<Rightarrow> (u32 \<times> io_request) option" where
  "wire_request a buf =
     (if \<not> wire_header a buf then None
      else let msgh_id = buf_u32 20 buf; tgt = buf_u32 8 buf; sz = unat (buf_u32 4 buf) in
        if msgh_id = 2802 \<and> sz = 24 then Some (tgt, NextOf)
        else if msgh_id = 2878 \<and> sz = 24 then Some (tgt, AllProps)
        else if msgh_id = 2881 \<and> sz = 36 + pad4 (unat (buf_u32 32 buf)) then
          Some (tgt, Matching (buf_get 36 (unat (buf_u32 32 buf)) buf))
        else if msgh_id = 2813 \<and> sz = 40 + pad4 (unat (buf_u32 36 buf)) \<and> buf_u32 32 buf = 0 then
          Some (tgt, ChildrenOf (buf_get 40 (unat (buf_u32 36 buf)) buf))
        else if msgh_id = 2879 \<and> sz = 52 + pad4 (unat (buf_u32 48 buf)) + 4 \<and>
            buf_u32 32 buf = 0 \<and> buf_u32 36 buf = 1 \<and> buf_u32 40 buf = 0 \<and> buf_u32 44 buf = 0 \<and>
            buf_u32 (52 + pad4 (unat (buf_u32 48 buf))) buf = 0 then
          Some (tgt, OneProp (buf_get 52 (unat (buf_u32 48 buf)) buf))
        else if msgh_id = 3206 \<and> sz = 36 then Some (tgt, Dealloc (buf_u32 32 buf))
        else None)"

datatype io_answer = Fails | Port u32 | Ool u64 u32 "u8 list" | Released

definition wire_answer :: "io_answer \<Rightarrow> i32 \<Rightarrow> u8 list \<Rightarrow> (u64 \<Rightarrow> u32 \<Rightarrow> u8 list) \<Rightarrow> bool" where
  "wire_answer r kr buf mem \<longleftrightarrow>
     (case r of
        Fails \<Rightarrow> kr \<noteq> 0 \<or> \<not> bit (buf_u32 0 buf) 31
      | Port n \<Rightarrow> kr = 0 \<and> bit (buf_u32 0 buf) 31 \<and> buf_u32 24 buf = 1 \<and> buf_u32 28 buf = n
      | Ool addr sz bytes \<Rightarrow> kr = 0 \<and> 128 \<le> length buf \<and> bit (buf_u32 0 buf) 31 \<and> buf_u32 24 buf = 1 \<and>
          buf_u64 28 buf = addr \<and> buf ! 39 = 1 \<and> buf_u32 40 buf = sz \<and> mem addr sz = bytes
      | Released \<Rightarrow> kr = 0 \<and> buf_u32 32 buf = 0)"

subsection \<open>The requests on the wire\<close>

lemma half_words [simp]:
  "low32 (pack2 a b) = a" "high32 (pack2 a b) = b"
  "low32 (push_bit 32 w) = 0" "high32 (push_bit 32 (ucast b)) = b"
  unfolding low32_def high32_def pack2_def
  by (rule bit_word_eqI; auto simp: bit_simps dest: bit_imp_le_length)+

lemma buf_u32_zeros [buf_fields]: "o' + 4 \<le> m \<Longrightarrow> buf_u32 o' (replicate m 0) = 0"
  by (simp add: buf_u32_def buf_fields u32_le_def numeral_eq_Suc)

lemma put_msg_header_fields [buf_fields]:
  assumes "24 \<le> length buf"
  shows "buf_u32 0 (put_msg_header i tgt reply sz buf) = MSGH_BITS"
    "buf_u32 4 (put_msg_header i tgt reply sz buf) = sz"
    "buf_u32 8 (put_msg_header i tgt reply sz buf) = tgt"
    "buf_u32 12 (put_msg_header i tgt reply sz buf) = reply"
    "buf_u32 16 (put_msg_header i tgt reply sz buf) = buf_u32 16 buf"
    "buf_u32 20 (put_msg_header i tgt reply sz buf) = i"
    "length (put_msg_header i tgt reply sz buf) = length buf"
    "24 \<le> o' \<Longrightarrow> buf_u32 o' (put_msg_header i tgt reply sz buf) = buf_u32 o' buf"
    "24 \<le> o' \<Longrightarrow> buf_get o' n (put_msg_header i tgt reply sz buf) = buf_get o' n buf"
  using assms by (simp_all add: put_msg_header_def buf_fields)

lemma msgh_bits_value: "MSGH_BITS = 0x1513" by code_simp

lemma msg_args_halves:
  "ma_options (msg_args i tgt reply sz rcv) = 0x8000000200000003"
  "low32 (ma_bits_and_size (msg_args i tgt reply sz rcv)) = 0x1513"
  "high32 (ma_bits_and_size (msg_args i tgt reply sz rcv)) = sz"
  "low32 (ma_ports (msg_args i tgt reply sz rcv)) = tgt"
  "high32 (ma_ports (msg_args i tgt reply sz rcv)) = reply"
  "low32 (ma_voucher_and_id (msg_args i tgt reply sz rcv)) = 0"
  "high32 (ma_voucher_and_id (msg_args i tgt reply sz rcv)) = i"
  "low32 (ma_desc_and_rcv_name (msg_args i tgt reply sz rcv)) = 0"
  "high32 (ma_desc_and_rcv_name (msg_args i tgt reply sz rcv)) = reply"
  "ma_rcv_size (msg_args i tgt reply sz rcv) = rcv"
proof -
  show "ma_options (msg_args i tgt reply sz rcv) = 0x8000000200000003"
    unfolding msg_args_def mach_args.select_convs by code_simp
qed (simp_all add: msg_args_def msgh_bits_value)

lemma wire_header_put:
  assumes "24 \<le> length buf" "buf_u32 16 buf = 0" "reply \<noteq> 0" "4 dvd unat sz" "unat sz \<le> length buf" "unat rcv \<le> length buf"
  shows "wire_header (msg_args i tgt reply sz rcv) (put_msg_header i tgt reply sz buf)"
  using assms by (simp add: wire_header_def msg_args_halves buf_fields msgh_bits_value)

lemma pad4_bounds: "4 dvd pad4 n" "n \<le> pad4 n" "pad4 n < n + 4" by (simp_all add: pad4_def)

lemma unat_size: "n < 2 ^ 32 \<Longrightarrow> unat (of_nat n :: u32) = n" by (simp add: unsigned_of_nat take_bit_nat_eq_self)

lemma wire_next:
  assumes "reply \<noteq> 0"
  shows "wire_request (msg_args 2802 tgt reply 24 (of_nat iter_buf_size)) (put_msg_header 2802 tgt reply 24 (replicate iter_buf_size 0))
    = Some (tgt, NextOf)"
proof -
  have "wire_header (msg_args 2802 tgt reply 24 (of_nat iter_buf_size)) (put_msg_header 2802 tgt reply 24 (replicate iter_buf_size 0))"
    using assms by (intro wire_header_put) (simp_all add: iter_buf_size_def buf_fields)
  then show ?thesis by (simp add: wire_request_def buf_fields iter_buf_size_def Let_def)
qed

lemma wire_all_props:
  assumes "reply \<noteq> 0"
  shows "wire_request (msg_args 2878 tgt reply 24 128) (put_msg_header 2878 tgt reply 24 (replicate 256 0)) = Some (tgt, AllProps)"
proof -
  have "wire_header (msg_args 2878 tgt reply 24 128) (put_msg_header 2878 tgt reply 24 (replicate 256 0))"
    using assms by (intro wire_header_put) (simp_all add: buf_fields)
  then show ?thesis by (simp add: wire_request_def buf_fields Let_def)
qed

lemma wire_matching:
  assumes "reply \<noteq> 0" "iter_request (Some d) = Some (sz, buf)"
  shows "wire_request (msg_args 2881 tgt reply sz (of_nat iter_buf_size)) (put_msg_header 2881 tgt reply sz buf) = Some (tgt, Matching d)"
proof -
  let ?n = "length d" and ?len = "le_bytes 4 (of_nat (length d) :: u32)" and ?zeros = "replicate iter_buf_size (0 :: u8)"
  have small: "36 + pad4 ?n \<le> iter_buf_size" and sz: "sz = of_nat (36 + pad4 ?n)"
    and buf: "buf = buf_put 36 d (buf_put 32 ?len ?zeros)"
    using assms(2) by (auto simp: iter_request_def Let_def split: if_splits)
  have n: "36 + ?n \<le> iter_buf_size" using small pad4_bounds(2) [of ?n] by linarith
  have us: "unat sz = 36 + pad4 ?n" unfolding sz by (rule unat_size) (use small in \<open>simp add: iter_buf_size_def\<close>)
  have l: "length buf = iter_buf_size" using n by (simp add: buf iter_buf_size_def)
  have f: "buf_u32 16 buf = 0" "buf_u32 32 buf = of_nat ?n" "buf_get 36 ?n buf = d"
    using n unfolding buf by (simp_all add: buf_fields iter_buf_size_def)
  have un: "unat (of_nat ?n :: u32) = ?n" by (rule unat_size) (use n in \<open>simp add: iter_buf_size_def\<close>)
  have "wire_header (msg_args 2881 tgt reply sz (of_nat iter_buf_size)) (put_msg_header 2881 tgt reply sz buf)"
    by (rule wire_header_put) (use assms(1) small l f us pad4_bounds(1) [of ?n] in \<open>simp_all add: iter_buf_size_def\<close>)
  then show ?thesis using l f us un by (simp add: wire_request_def buf_fields iter_buf_size_def Let_def)
qed

lemma wire_children:
  assumes "reply \<noteq> 0" "length plane \<le> 128" "child_request plane = (sz, buf)"
  shows "wire_request (msg_args 2813 tgt reply sz 256) (put_msg_header 2813 tgt reply sz buf) = Some (tgt, ChildrenOf plane)"
proof -
  let ?n = "length plane" and ?len = "le_bytes 4 (of_nat (length plane) :: u32)" and ?zeros = "replicate 256 (0 :: u8)"
  have sz: "sz = of_nat (40 + pad4 ?n)" and buf: "buf = buf_put 36 ?len (buf_put 40 plane ?zeros)"
    using assms(3) by (auto simp: child_request_def)
  have p: "pad4 ?n < 132" using pad4_bounds(3) [of ?n] assms(2) by linarith
  have us: "unat sz = 40 + pad4 ?n" unfolding sz by (rule unat_size) (use p in simp)
  have l: "length buf = 256" using assms(2) by (simp add: buf)
  have f: "buf_u32 16 buf = 0" "buf_u32 36 buf = of_nat ?n" "buf_u32 32 buf = 0" "buf_get 40 ?n buf = plane"
    using assms(2) unfolding buf by (simp_all add: buf_fields)
  have un: "unat (of_nat ?n :: u32) = ?n" by (rule unat_size) (use assms(2) in simp)
  have "wire_header (msg_args 2813 tgt reply sz 256) (put_msg_header 2813 tgt reply sz buf)"
    by (rule wire_header_put) (use assms(1) p l f us pad4_bounds(1) [of ?n] in simp_all)
  then show ?thesis using l f us un by (simp add: wire_request_def buf_fields Let_def)
qed

lemma wire_one_prop:
  assumes "reply \<noteq> 0" "props_request (Some nm) = Some (sz, buf)"
  shows "wire_request (msg_args 2879 tgt reply sz 128) (put_msg_header 2879 tgt reply sz buf) = Some (tgt, OneProp nm)"
proof -
  let ?n = "length nm" and ?len = "le_bytes 4 (of_nat (length nm) :: u32)" and ?zeros = "replicate 256 (0 :: u8)"
  have n: "?n \<le> 128" and sz: "sz = of_nat (52 + pad4 ?n + 4)"
    and buf: "buf = buf_put 52 nm (buf_put 48 ?len (buf_put 36 (le_bytes 4 (1 :: u32)) ?zeros))"
    using assms(2) by (auto simp: props_request_def split: if_splits)
  have p: "pad4 ?n < 132" "?n \<le> pad4 ?n" using pad4_bounds [of ?n] n by linarith+
  have us: "unat sz = 52 + pad4 ?n + 4" unfolding sz by (rule unat_size) (use p in simp)
  have l: "length buf = 256" using n by (simp add: buf)
  have f: "buf_u32 16 buf = 0" "buf_u32 32 buf = 0" "buf_u32 36 buf = 1" "buf_u32 40 buf = 0" "buf_u32 44 buf = 0"
    "buf_u32 48 buf = of_nat ?n" "buf_u32 (52 + pad4 ?n) buf = 0" "buf_get 52 ?n buf = nm"
    using n p unfolding buf by (simp_all add: buf_fields)
  have un: "unat (of_nat ?n :: u32) = ?n" by (rule unat_size) (use n in simp)
  have d: "4 dvd unat sz" unfolding us using pad4_bounds(1) [of ?n] by (intro dvd_add) simp_all
  have "wire_header (msg_args 2879 tgt reply sz 128) (put_msg_header 2879 tgt reply sz buf)"
    by (rule wire_header_put) (use assms(1) p l f us d in simp_all)
  then show ?thesis using l f us un by (simp add: wire_request_def buf_fields Let_def)
qed

lemma wire_dealloc:
  assumes "reply \<noteq> 0"
  shows "wire_request (msg_args 3206 task reply 36 68)
      (msg_struct 3206 task reply 36 (NDR_LE @ le_bytes 4 port @ replicate 36 0)) = Some (task, Dealloc port)"
proof -
  let ?m = "msg_struct 3206 task reply 36 (NDR_LE @ le_bytes 4 port @ replicate 36 0)"
  have f: "buf_u32 0 ?m = MSGH_BITS" "buf_u32 4 ?m = 36" "buf_u32 8 ?m = task" "buf_u32 12 ?m = reply" "buf_u32 16 ?m = 0"
    "buf_u32 20 ?m = 3206" "buf_u32 32 ?m = port" "length ?m = 72"
    by (simp_all add: msg_struct_def buf_u32_def buf_get_def NDR_LE_def word_nat)
  have "wire_header (msg_args 3206 task reply 36 68) ?m"
    using assms f by (simp add: wire_header_def msg_args_halves msgh_bits_value)
  then show ?thesis using f by (simp add: wire_request_def Let_def)
qed

subsection \<open>What the kernel does\<close>

text \<open>
  The objects behind the port names the client holds, and the buffers mapped for it. An iterator holds what it has
  yet to give out.
\<close>

datatype io_obj = Iter "io_obj list" | Accel agx_accel | Kid "u8 list option"

record io_view =
  iv_ports :: "u32 \<Rightarrow> io_obj option"
  iv_bufs :: "(u64 \<times> u32) multiset"

definition set_port :: "u32 \<Rightarrow> io_obj option \<Rightarrow> io_view \<Rightarrow> io_view" where
  "set_port n x v = v\<lparr>iv_ports := (iv_ports v)(n := x)\<rparr>"

definition fresh :: "u32 \<Rightarrow> io_view \<Rightarrow> bool" where "fresh n v \<longleftrightarrow> n \<noteq> 0 \<and> iv_ports v n = None"

definition room :: "nat \<Rightarrow> io_view \<Rightarrow> bool" where "room k v \<longleftrightarrow> k \<le> card {n. fresh n v}"

text \<open>A fetched property: its bytes appear at some address, as a buffer of the client.\<close>

inductive prop_step :: "io_view \<Rightarrow> u8 list option \<Rightarrow> io_answer \<Rightarrow> io_view \<Rightarrow> bool" where
  has_prop: "addr \<noteq> 0 \<Longrightarrow> prop_step v (Some bytes) (Ool addr (of_nat (length bytes)) bytes)
      (v\<lparr>iv_bufs := add_mset (addr, of_nat (length bytes)) (iv_bufs v)\<rparr>)"
| no_prop: "prop_step v None Fails v"

text \<open>Only the matching may fail for reasons of its own; an entry without children may have no iterator for them.\<close>

inductive io_step :: "agx_accel list \<Rightarrow> io_view \<Rightarrow> u32 \<times> io_request \<Rightarrow> io_answer \<Rightarrow> io_view \<Rightarrow> bool"
  for reg :: "agx_accel list" where
  matched: "fresh n v \<Longrightarrow> io_step reg v (master, Matching AGX_MATCHING_BLOB) (Port n) (set_port n (Some (Iter (List.map Accel reg))) v)"
| unmatched: "io_step reg v (master, Matching blob) Fails v"
| next_obj: "iv_ports v it = Some (Iter (x # xs)) \<Longrightarrow> fresh n v \<Longrightarrow>
      io_step reg v (it, NextOf) (Port n) (set_port n (Some x) (set_port it (Some (Iter xs)) v))"
| no_next: "iv_ports v it = Some (Iter []) \<Longrightarrow> io_step reg v (it, NextOf) Fails v"
| children: "iv_ports v e = Some (Accel a) \<Longrightarrow> fresh n v \<Longrightarrow>
      io_step reg v (e, ChildrenOf service_plane) (Port n) (set_port n (Some (Iter (List.map Kid (aa_children a)))) v)"
| no_children: "iv_ports v e = Some (Accel a) \<Longrightarrow> aa_children a = [] \<Longrightarrow> io_step reg v (e, ChildrenOf service_plane) Fails v"
| all_props: "iv_ports v e = Some (Kid b) \<Longrightarrow> prop_step v b r v1 \<Longrightarrow> io_step reg v (e, AllProps) r v1"
| one_prop: "iv_ports v e = Some (Accel a) \<Longrightarrow> prop_step v (aa_perf a) r v1 \<Longrightarrow> io_step reg v (e, OneProp perf_name) r v1"
| dealloc: "iv_ports v p \<noteq> None \<Longrightarrow> io_step reg v (task, Dealloc p) Released (set_port p None v)"

inductive_simps matching_step: "io_step reg v (master, Matching b) r v1"
inductive_simps next_step: "io_step reg v (it, NextOf) r v1"
inductive_simps children_step: "io_step reg v (e, ChildrenOf pl) r v1"
inductive_simps all_props_step: "io_step reg v (e, AllProps) r v1"
inductive_simps one_prop_step: "io_step reg v (e, OneProp nm) r v1"
inductive_simps dealloc_step: "io_step reg v (task, Dealloc p) r v1"

definition blob_ok :: "u8 list option \<Rightarrow> bool" where
  "blob_ok b \<longleftrightarrow> (case b of None \<Rightarrow> True | Some bytes \<Rightarrow> bytes \<noteq> [] \<and> length bytes < 2 ^ 32)"

text \<open>The requests the kernel answers by these steps.\<close>

definition understood :: "u32 \<Rightarrow> u32 \<Rightarrow> io_view \<Rightarrow> u32 \<times> io_request \<Rightarrow> bool" where
  "understood master task v m \<longleftrightarrow>
     (case m of (tgt, req) \<Rightarrow>
        (case req of
           Matching b \<Rightarrow> tgt = master \<and> b = AGX_MATCHING_BLOB \<and> room 1 v
         | NextOf \<Rightarrow> (\<exists>xs. iv_ports v tgt = Some (Iter xs)) \<and> room 1 v
         | ChildrenOf pl \<Rightarrow> (\<exists>a. iv_ports v tgt = Some (Accel a)) \<and> pl = service_plane \<and> room 1 v
         | AllProps \<Rightarrow> (\<exists>b. iv_ports v tgt = Some (Kid b) \<and> blob_ok b)
         | OneProp nm \<Rightarrow> (\<exists>a. iv_ports v tgt = Some (Accel a) \<and> blob_ok (aa_perf a)) \<and> nm = perf_name
         | Dealloc p \<Rightarrow> tgt = task \<and> iv_ports v p \<noteq> None))"

definition serves :: "'s io_kernel \<Rightarrow> ('s \<Rightarrow> io_view) \<Rightarrow> agx_accel list \<Rightarrow> u32 \<Rightarrow> u32 \<Rightarrow> bool" where
  "serves K view reg master task \<longleftrightarrow>
     (\<forall>s a buf m. wire_request a buf = Some m \<and> understood master task (view s) m \<longrightarrow>
        (\<exists>kr buf1 s1 r. ik_msg K s a buf = ((kr, buf1), s1) \<and> io_step reg (view s) m r (view s1) \<and>
           wire_answer r kr buf1 (ik_mem K s1))) \<and>
     (\<forall>s addr n. (addr, n) \<in># iv_bufs (view s) \<longrightarrow>
        view (snd (ik_free K s addr (ucast n))) = (view s)\<lparr>iv_bufs := iv_bufs (view s) - {#(addr, n)#}\<rparr>)"

subsection \<open>Names and room\<close>

lemma set_port_simps [simp]:
  "iv_ports (set_port n x v) = (iv_ports v)(n := x)" "iv_bufs (set_port n x v) = iv_bufs v"
  "set_port n x (set_port n y v) = set_port n x v"
  by (simp_all add: set_port_def)

lemma set_port_swap: "n \<noteq> k \<Longrightarrow> set_port n x (set_port k y v) = set_port k y (set_port n x v)"
  by (simp add: set_port_def fun_upd_twist)

lemma set_port_id: "iv_ports v n = x \<Longrightarrow> set_port n x v = v"
  by (simp add: set_port_def fun_upd_idem)

lemma fresh_live: "fresh n v \<Longrightarrow> iv_ports v k \<noteq> None \<Longrightarrow> n \<noteq> k" by (auto simp: fresh_def)

lemma room_live [simp]: "iv_ports v n \<noteq> None \<Longrightarrow> room k (set_port n (Some x) v) = room k v"
proof -
  assume "iv_ports v n \<noteq> None"
  then have "{k. fresh k (set_port n (Some x) v)} = {k. fresh k v}" by (auto simp: fresh_def)
  then show ?thesis by (simp add: room_def)
qed

lemma room_fresh: "fresh n v \<Longrightarrow> room (Suc k) v \<Longrightarrow> room k (set_port n (Some x) v)"
proof -
  assume "fresh n v" "room (Suc k) v"
  moreover have "{k. fresh k (set_port n (Some x) v)} = {k. fresh k v} - {n}" by (auto simp: fresh_def)
  ultimately show ?thesis by (simp add: room_def)
qed

lemma room_le: "room k v \<Longrightarrow> j \<le> k \<Longrightarrow> room j v" by (simp add: room_def)

subsection \<open>One call\<close>

lemma bit_complex: "bit MACH_MSGH_BITS_COMPLEX n \<longleftrightarrow> n = 31"
proof -
  have e: "MACH_MSGH_BITS_COMPLEX = push_bit 31 1" by code_simp
  show ?thesis unfolding e by (simp only: bit_push_bit_iff bit_1_iff) auto
qed

lemma complex_bit: "(w AND MACH_MSGH_BITS_COMPLEX = 0) \<longleftrightarrow> \<not> bit (w :: u32) 31"
proof -
  have "w AND MACH_MSGH_BITS_COMPLEX = (if bit w 31 then MACH_MSGH_BITS_COMPLEX else 0)"
    by (rule bit_word_eqI) (auto simp: bit_complex bit_and_iff)
  moreover have "MACH_MSGH_BITS_COMPLEX \<noteq> 0" using bit_complex [of 31] by auto
  ultimately show ?thesis by simp
qed

definition answer_port :: "io_answer \<Rightarrow> u32" where "answer_port r = (case r of Port n \<Rightarrow> n | _ \<Rightarrow> 0)"

lemma wire_answer_port:
  assumes "wire_answer r kr buf mem" "r = Fails \<or> (\<exists>n. r = Port n)"
  shows "(if kr \<noteq> 0 then 0 else port_reply buf) = answer_port r"
  using assms by (auto simp: wire_answer_def port_reply_def complex_bit answer_port_def)

lemma serves_call:
  assumes "serves K view reg master task" "wire_request a buf = Some m" "understood master task (view s) m"
  obtains kr buf1 s1 r where "ik_msg K s a buf = ((kr, buf1), s1)" "io_step reg (view s) m r (view s1)"
    "wire_answer r kr buf1 (ik_mem K s1)"
  using assms unfolding serves_def by blast

lemma next_ok:
  assumes "serves K view reg master task" "reply \<noteq> 0" "it \<noteq> 0" "iv_ports (view s) it = Some (Iter xs)" "room 1 (view s)"
  shows "case xs of
      [] \<Rightarrow> \<exists>s1. io_iterator_next (ik_msg K) reply it s = (0, s1) \<and> view s1 = view s
    | x # ys \<Rightarrow> \<exists>n s1. io_iterator_next (ik_msg K) reply it s = (n, s1) \<and> fresh n (view s) \<and>
        view s1 = set_port n (Some x) (set_port it (Some (Iter ys)) (view s))"
proof -
  have "understood master task (view s) (it, NextOf)" using assms(4,5) by (simp add: understood_def)
  then obtain kr buf1 s1 r where c:
    "ik_msg K s (msg_args 2802 it reply 24 (of_nat iter_buf_size)) (put_msg_header 2802 it reply 24 (replicate iter_buf_size 0)) = ((kr, buf1), s1)"
    "io_step reg (view s) (it, NextOf) r (view s1)" "wire_answer r kr buf1 (ik_mem K s1)"
    using serves_call [OF assms(1) wire_next [OF assms(2)]] by blast
  have "io_iterator_next (ik_msg K) reply it s = (if kr \<noteq> 0 then 0 else port_reply buf1, s1)"
    using assms(2,3) c(1) by (simp add: io_iterator_next_def iokit_iter_call_def iter_request_def Let_def)
  also have "(if kr \<noteq> 0 then 0 else port_reply buf1) = answer_port r"
    by (rule wire_answer_port [OF c(3)]) (use c(2) in \<open>auto simp: next_step\<close>)
  finally show ?thesis using c(2) assms(4) by (cases xs) (auto simp: next_step answer_port_def)
qed

lemma release_ok:
  assumes "serves K view reg master task" "reply \<noteq> 0" "p \<noteq> 0" "iv_ports (view s) p \<noteq> None"
  shows "view (release K reply task p s) = set_port p None (view s)"
proof -
  have u: "understood master task (view s) (task, Dealloc p)" using assms(4) by (simp add: understood_def)
  obtain kr buf1 s1 r where c:
    "ik_msg K s (msg_args 3206 task reply 36 68) (msg_struct 3206 task reply 36 (NDR_LE @ le_bytes 4 p @ replicate 36 0)) = ((kr, buf1), s1)"
    "io_step reg (view s) (task, Dealloc p) r (view s1)"
    by (rule serves_call [OF assms(1) wire_dealloc [OF assms(2)] u])
  have "snd (mach_port_deallocate (ik_msg K) reply task p s) = s1"
    unfolding mach_port_deallocate_def c(1) using assms(2,3) by simp
  then show ?thesis using c(2) by (simp add: release_def dealloc_step)
qed

lemma children_ok:
  assumes "serves K view reg master task" "reply \<noteq> 0" "e \<noteq> 0" "iv_ports (view s) e = Some (Accel a)" "room 1 (view s)"
  obtains (iterator) n s1 where "io_registry_entry_get_child_iterator (ik_msg K) reply e service_plane s = (n, s1)"
      "fresh n (view s)" "view s1 = set_port n (Some (Iter (List.map Kid (aa_children a)))) (view s)"
    | (no_iterator) s1 where "io_registry_entry_get_child_iterator (ik_msg K) reply e service_plane s = (0, s1)"
      "aa_children a = []" "view s1 = view s"
proof -
  have l: "length service_plane \<le> 128" "service_plane \<noteq> []" by (simp_all add: service_plane_def)
  obtain sz buf where rq: "child_request service_plane = (sz, buf)" by (cases "child_request service_plane") auto
  have "understood master task (view s) (e, ChildrenOf service_plane)" using assms(4,5) by (simp add: understood_def)
  then obtain kr buf1 s1 r where c:
    "ik_msg K s (msg_args 2813 e reply sz 256) (put_msg_header 2813 e reply sz buf) = ((kr, buf1), s1)"
    "io_step reg (view s) (e, ChildrenOf service_plane) r (view s1)" "wire_answer r kr buf1 (ik_mem K s1)"
    using serves_call [OF assms(1) wire_children [OF assms(2) l(1) rq]] by blast
  have "io_registry_entry_get_child_iterator (ik_msg K) reply e service_plane s = (if kr \<noteq> 0 then 0 else port_reply buf1, s1)"
    using assms(2,3) l c(1) rq by (simp add: io_registry_entry_get_child_iterator_def iokit_get_child_iter_def)
  also have "(if kr \<noteq> 0 then 0 else port_reply buf1) = answer_port r"
    by (rule wire_answer_port [OF c(3)]) (use c(2) in \<open>auto simp: children_step\<close>)
  finally show thesis using c(2) assms(4) that by (auto simp: children_step answer_port_def)
qed

subsection \<open>A fetched property\<close>

lemma buf_u32_take: "o' + 4 \<le> n \<Longrightarrow> buf_u32 o' (take n buf) = buf_u32 o' buf"
  by (simp add: buf_u32_def buf_get_def drop_take min_absorb1)

lemma buf_u64_take: "o' + 8 \<le> n \<Longrightarrow> buf_u64 o' (take n buf) = buf_u64 o' buf"
  by (simp add: buf_u64_def buf_u32_take)

lemma ool_answer:
  assumes "wire_answer r kr buf1 (ik_mem K s1)" "prop_step v b r (view s1)" "blob_ok b"
    and "\<And>s addr n. (addr, n) \<in># iv_bufs (view s) \<Longrightarrow>
      view (snd (ik_free K s addr (ucast n))) = (view s)\<lparr>iv_bufs := iv_bufs (view s) - {#(addr, n)#}\<rparr>"
  shows "\<exists>s2. take_blob K (if kr \<noteq> 0 then None else parse_ool_reply (take 128 buf1), s1) = (b, s2) \<and> view s2 = v"
  using assms(2)
proof cases
  case (has_prop addr bytes)
  let ?n = "of_nat (length bytes) :: u32"
  have "0 < length bytes" "length bytes < 2 ^ 32" using assms(3) has_prop(1) by (simp_all add: blob_ok_def)
  then have "unat ?n \<noteq> 0" using unat_size [of "length bytes"] by simp
  then have n: "?n \<noteq> 0" by auto
  have a: "kr = 0" "128 \<le> length buf1" "bit (buf_u32 0 buf1) 31" "buf_u32 24 buf1 = 1" "buf_u64 28 buf1 = addr"
    "buf1 ! 39 = 1" "buf_u32 40 buf1 = ?n" "ik_mem K s1 addr ?n = bytes"
    using assms(1) has_prop(2) by (simp_all add: wire_answer_def)
  have "parse_ool_reply (take 128 buf1) = Some (addr, ?n)"
    using a n has_prop(4) by (simp add: parse_ool_reply_def buf_u32_take buf_u64_take complex_bit)
  moreover have "view (snd (ik_free K s1 addr (ucast ?n))) = v"
    using assms(4) [of addr ?n s1] by (simp add: has_prop(3))
  ultimately show ?thesis using a(1,8) n has_prop(1,4) by (simp add: take_blob_def drop_ool_def)
next
  case no_prop
  then show ?thesis using assms(1) by (auto simp: wire_answer_def take_blob_def parse_ool_reply_def buf_u32_take complex_bit)
qed

lemma serves_free:
  "serves K view reg master task \<Longrightarrow> (addr, n) \<in># iv_bufs (view s) \<Longrightarrow>
   view (snd (ik_free K s addr (ucast n))) = (view s)\<lparr>iv_bufs := iv_bufs (view s) - {#(addr, n)#}\<rparr>"
  by (simp add: serves_def)

lemma kid_blob_ok:
  assumes "serves K view reg master task" "reply \<noteq> 0" "e \<noteq> 0" "iv_ports (view s) e = Some (Kid b)" "blob_ok b"
  shows "\<exists>s2. take_blob K (io_registry_entry_get_properties_bin (ik_msg K) reply e s) = (b, s2) \<and> view s2 = view s"
proof -
  have u: "understood master task (view s) (e, AllProps)" using assms(4,5) by (simp add: understood_def)
  obtain kr buf1 s1 r where c:
    "ik_msg K s (msg_args 2878 e reply 24 128) (put_msg_header 2878 e reply 24 (replicate 256 0)) = ((kr, buf1), s1)"
    "io_step reg (view s) (e, AllProps) r (view s1)" "wire_answer r kr buf1 (ik_mem K s1)"
    by (rule serves_call [OF assms(1) wire_all_props [OF assms(2)] u])
  have "prop_step (view s) b r (view s1)" using c(2) assms(4) by (auto simp: all_props_step)
  from ool_answer [OF c(3) this assms(5) serves_free [OF assms(1)]] show ?thesis
    using assms(2,3) c(1)
    by (simp add: io_registry_entry_get_properties_bin_def iokit_get_props_inner_def props_request_def)
qed

lemma perf_blob_ok:
  assumes "serves K view reg master task" "reply \<noteq> 0" "e \<noteq> 0" "iv_ports (view s) e = Some (Accel a)" "blob_ok (aa_perf a)"
  shows "\<exists>s2. take_blob K (io_registry_entry_get_property_bin (ik_msg K) reply e perf_name s) = (aa_perf a, s2) \<and> view s2 = view s"
proof -
  have l: "length perf_name \<le> 128" "perf_name \<noteq> []" by (simp_all add: perf_name_def)
  then obtain sz buf where rq: "props_request (Some perf_name) = Some (sz, buf)"
    unfolding props_request_def by simp
  have u: "understood master task (view s) (e, OneProp perf_name)" using assms(4,5) by (simp add: understood_def)
  obtain kr buf1 s1 r where c:
    "ik_msg K s (msg_args 2879 e reply sz 128) (put_msg_header 2879 e reply sz buf) = ((kr, buf1), s1)"
    "io_step reg (view s) (e, OneProp perf_name) r (view s1)" "wire_answer r kr buf1 (ik_mem K s1)"
    by (rule serves_call [OF assms(1) wire_one_prop [OF assms(2) rq] u])
  have "prop_step (view s) (aa_perf a) r (view s1)" using c(2) assms(4) by (auto simp: one_prop_step)
  from ool_answer [OF c(3) this assms(5) serves_free [OF assms(1)]] show ?thesis
    using assms(2,3) c(1) l rq by (simp add: io_registry_entry_get_property_bin_def iokit_get_props_inner_def)
qed

subsection \<open>The loops\<close>

definition accel_ok :: "agx_accel \<Rightarrow> bool" where
  "accel_ok a \<longleftrightarrow> blob_ok (aa_perf a) \<and> (\<forall>b \<in> set (aa_children a). blob_ok b)"

lemma child_loop_ok:
  assumes K: "serves K view reg master task" "reply \<noteq> 0" "it \<noteq> 0"
    and "iv_ports (view s) it = Some (Iter (List.map Kid ks))" "room 1 (view s)" "\<forall>b \<in> set ks. blob_ok b"
  shows "\<exists>s1. child_loop K reply task it acc s = Some (acc @ ks, s1) \<and> view s1 = set_port it (Some (Iter [])) (view s)"
  using assms(4-)
proof (induction ks arbitrary: acc s)
  case Nil
  then show ?case using next_ok [OF K Nil(1,2)]
    by (subst child_loop.simps) (auto simp: set_port_id)
next
  case (Cons b ks)
  obtain n s1 where s1: "io_iterator_next (ik_msg K) reply it s = (n, s1)" "fresh n (view s)"
    "view s1 = set_port n (Some (Kid b)) (set_port it (Some (Iter (List.map Kid ks))) (view s))"
    using next_ok [OF K Cons.prems(1,2)] by auto
  have n: "n \<noteq> 0" "n \<noteq> it" using s1(2) Cons.prems(1) by (auto simp: fresh_def)
  obtain s2 where s2: "take_blob K (io_registry_entry_get_properties_bin (ik_msg K) reply n s1) = (b, s2)" "view s2 = view s1"
    using kid_blob_ok [OF K(1,2) n(1), of s1 b] s1(3) Cons.prems(3) by auto
  let ?s3 = "release K reply task n s2"
  have "view ?s3 = set_port n None (view s2)" by (rule release_ok [OF K(1,2) n(1)]) (simp add: s2 s1)
  also have "\<dots> = set_port it (Some (Iter (List.map Kid ks))) (view s)"
    using s1(2) n by (simp add: s2 s1(3) set_port_swap [of n it] set_port_id fresh_def)
  finally have s3: "view ?s3 = set_port it (Some (Iter (List.map Kid ks))) (view s)" .
  obtain s4 where "child_loop K reply task it (acc @ [b]) ?s3 = Some ((acc @ [b]) @ ks, s4)"
    "view s4 = set_port it (Some (Iter [])) (view ?s3)"
    using Cons.IH [of ?s3 "acc @ [b]"] Cons.prems s3 by auto
  then show ?case using s1(1) s2(1) n(1) s3 by (subst child_loop.simps) simp
qed

lemma accel_children_ok:
  assumes K: "serves K view reg master task" "reply \<noteq> 0" "e \<noteq> 0"
    and v: "iv_ports (view s) e = Some (Accel a)" "room 2 (view s)" "accel_ok a"
  shows "\<exists>s1. accel_children K reply task e s = Some (aa_children a, s1) \<and> view s1 = view s"
proof -
  have r1: "room 1 (view s)" using v(2) by (rule room_le) simp
  show ?thesis
  proof (rule children_ok [OF K v(1) r1])
    fix n s1
    assume iterator: "io_registry_entry_get_child_iterator (ik_msg K) reply e service_plane s = (n, s1)"
      "fresh n (view s)" "view s1 = set_port n (Some (Iter (List.map Kid (aa_children a)))) (view s)"
    have n: "n \<noteq> 0" using iterator(2) by (simp add: fresh_def)
    have "room 1 (view s1)" unfolding iterator(3) by (rule room_fresh [OF iterator(2)]) (use v(2) in \<open>simp add: numeral_2_eq_2\<close>)
    moreover have "iv_ports (view s1) n = Some (Iter (List.map Kid (aa_children a)))" by (simp add: iterator(3))
    ultimately obtain s2 where s2: "child_loop K reply task n [] s1 = Some (aa_children a, s2)"
      "view s2 = set_port n (Some (Iter [])) (view s1)"
      using child_loop_ok [OF K(1,2) n, of s1 "aa_children a" "[]"] v(3) by (auto simp: accel_ok_def)
    have "view (release K reply task n s2) = set_port n None (view s2)"
      by (rule release_ok [OF K(1,2) n]) (simp add: s2)
    also have "\<dots> = view s" using iterator(2) by (simp add: s2 iterator(3) set_port_id fresh_def)
    finally show ?thesis using iterator(1) s2(1) n by (simp add: accel_children_def)
  next
    fix s1
    assume "io_registry_entry_get_child_iterator (ik_msg K) reply e service_plane s = (0, s1)"
      "aa_children a = []" "view s1 = view s"
    then show ?thesis by (simp add: accel_children_def)
  qed
qed

lemma accel_loop_ok:
  assumes K: "serves K view reg master task" "reply \<noteq> 0" "it \<noteq> 0"
    and "iv_ports (view s) it = Some (Iter (List.map Accel as))" "room 3 (view s)" "\<forall>a \<in> set as. accel_ok a"
  shows "\<exists>s1. accel_loop K reply task it acc s = Some (acc @ as, s1) \<and> view s1 = set_port it (Some (Iter [])) (view s)"
  using assms(4-)
proof (induction as arbitrary: acc s)
  case Nil
  have "room 1 (view s)" using Nil(2) by (rule room_le) simp
  then show ?case using next_ok [OF K Nil(1)] Nil(1) by (subst accel_loop.simps) (auto simp: set_port_id)
next
  case (Cons a as)
  have r1: "room 1 (view s)" using Cons.prems(2) by (rule room_le) simp
  obtain n s1 where s1: "io_iterator_next (ik_msg K) reply it s = (n, s1)" "fresh n (view s)"
    "view s1 = set_port n (Some (Accel a)) (set_port it (Some (Iter (List.map Accel as))) (view s))"
    using next_ok [OF K Cons.prems(1) r1] by auto
  have n: "n \<noteq> 0" "n \<noteq> it" using s1(2) Cons.prems(1) by (auto simp: fresh_def)
  obtain s2 where s2: "take_blob K (io_registry_entry_get_property_bin (ik_msg K) reply n perf_name s1) = (aa_perf a, s2)"
    "view s2 = view s1"
    using perf_blob_ok [OF K(1,2) n(1), of s1 a] s1(3) Cons.prems(3) by (auto simp: accel_ok_def)
  have f: "fresh n (set_port it (Some (Iter (List.map Accel as))) (view s))" using s1(2) n by (simp add: fresh_def)
  have "room 2 (view s2)" unfolding s2 s1(3)
    by (rule room_fresh [OF f]) (use Cons.prems(1,2) in \<open>simp add: numeral_3_eq_3 numeral_2_eq_2\<close>)
  then obtain s3 where s3: "accel_children K reply task n s2 = Some (aa_children a, s3)" "view s3 = view s2"
    using accel_children_ok [OF K(1,2) n(1), of s2 a] s2 s1(3) Cons.prems(3) by auto
  let ?s4 = "release K reply task n s3"
  have "view ?s4 = set_port n None (view s3)" by (rule release_ok [OF K(1,2) n(1)]) (simp add: s3 s2 s1)
  also have "\<dots> = set_port it (Some (Iter (List.map Accel as))) (view s)"
    using f by (simp add: s3 s2 s1(3) set_port_id fresh_def)
  finally have s4: "view ?s4 = set_port it (Some (Iter (List.map Accel as))) (view s)" .
  obtain s5 where "accel_loop K reply task it (acc @ [a]) ?s4 = Some ((acc @ [a]) @ as, s5)"
    "view s5 = set_port it (Some (Iter [])) (view ?s4)"
    using Cons.IH [of ?s4 "acc @ [a]"] Cons.prems s4 by auto
  moreover have "accel_loop K reply task it acc s = accel_loop K reply task it (acc @ [a]) ?s4"
    using s1(1) s2(1) s3(1) n(1) by (subst accel_loop.simps) (cases a; simp)
  ultimately show ?case using s4 by simp
qed

lemma matching_ok:
  assumes "serves K view reg master task" "reply \<noteq> 0" "master \<noteq> 0" "room 1 (view s)"
  shows "\<exists>n s1. io_service_get_matching_services_bin (ik_msg K) reply master AGX_MATCHING_BLOB s = (n, s1) \<and>
    (n = 0 \<and> view s1 = view s \<or> fresh n (view s) \<and> view s1 = set_port n (Some (Iter (List.map Accel reg))) (view s))"
proof -
  obtain sz buf where rq: "iter_request (Some AGX_MATCHING_BLOB) = Some (sz, buf)"
    by (simp add: iter_request_def Let_def matching_slices(1) pad4_def iter_buf_size_def)
  have u: "understood master task (view s) (master, Matching AGX_MATCHING_BLOB)" using assms(4) by (simp add: understood_def)
  obtain kr buf1 s1 r where c:
    "ik_msg K s (msg_args 2881 master reply sz (of_nat iter_buf_size)) (put_msg_header 2881 master reply sz buf) = ((kr, buf1), s1)"
    "io_step reg (view s) (master, Matching AGX_MATCHING_BLOB) r (view s1)" "wire_answer r kr buf1 (ik_mem K s1)"
    by (rule serves_call [OF assms(1) wire_matching [OF assms(2) rq] u])
  have "io_service_get_matching_services_bin (ik_msg K) reply master AGX_MATCHING_BLOB s =
      (if kr \<noteq> 0 then 0 else port_reply buf1, s1)"
    using assms(2,3) c(1) rq
    by (simp add: io_service_get_matching_services_bin_def iokit_iter_call_def matching_slices(1))
  also have "(if kr \<noteq> 0 then 0 else port_reply buf1) = answer_port r"
    by (rule wire_answer_port [OF c(3)]) (use c(2) in \<open>auto simp: matching_step\<close>)
  finally show ?thesis using c(2) by (auto simp: matching_step answer_port_def)
qed

lemma count_loop_ok:
  assumes K: "serves K view reg master task" "reply \<noteq> 0" "it \<noteq> 0"
    and "iv_ports (view s) it = Some (Iter xs)" "room 1 (view s)"
  shows "\<exists>s1. count_loop K reply task it n s = Some (n + length xs, s1) \<and> view s1 = set_port it (Some (Iter [])) (view s)"
  using assms(4-)
proof (induction xs arbitrary: n s)
  case Nil
  then show ?case using next_ok [OF K Nil(1,2)] by (subst count_loop.simps) (auto simp: set_port_id)
next
  case (Cons x xs)
  obtain p s1 where s1: "io_iterator_next (ik_msg K) reply it s = (p, s1)" "fresh p (view s)"
    "view s1 = set_port p (Some x) (set_port it (Some (Iter xs)) (view s))"
    using next_ok [OF K Cons.prems(1,2)] by auto
  have p: "p \<noteq> 0" "p \<noteq> it" using s1(2) Cons.prems(1) by (auto simp: fresh_def)
  let ?s2 = "release K reply task p s1"
  have "view ?s2 = set_port p None (view s1)" by (rule release_ok [OF K(1,2) p(1)]) (simp add: s1)
  also have "\<dots> = set_port it (Some (Iter xs)) (view s)"
    using s1(2) p by (simp add: s1(3) set_port_swap [of p it] set_port_id fresh_def)
  finally have s2: "view ?s2 = set_port it (Some (Iter xs)) (view s)" .
  obtain s3 where "count_loop K reply task it (n + 1) ?s2 = Some (n + 1 + length xs, s3)"
    "view s3 = set_port it (Some (Iter [])) (view ?s2)"
    using Cons.IH [of ?s2 "n + 1"] Cons.prems s2 by auto
  then show ?case using s1(1) p(1) s2 by (subst count_loop.simps) simp
qed

lemma release_iterator:
  assumes "serves K view reg master task" "reply \<noteq> 0" "fresh it v" "view s = set_port it (Some x) v"
  shows "view (release K reply task it s) = v"
proof -
  have "view (release K reply task it s) = set_port it None (view s)"
    by (rule release_ok [OF assms(1,2)]) (use assms(3,4) in \<open>simp_all add: fresh_def\<close>)
  also have "\<dots> = v" using assms(3,4) by (simp add: set_port_id fresh_def)
  finally show ?thesis .
qed

lemma agx_walk_ok:
  assumes K: "serves K view reg master task" "reply \<noteq> 0" "master \<noteq> 0"
    and "room 4 (view s)" "\<forall>a \<in> set reg. accel_ok a"
  shows "\<exists>s1. agx_walk K host reply task master s =
      Some (if fst (io_service_get_matching_services_bin (ik_msg K) reply master AGX_MATCHING_BLOB s) = 0 then None else Some reg, s1)
    \<and> view s1 = view s"
proof -
  have "room 1 (view s)" using assms(4) by (rule room_le) simp
  then obtain it s1 where m: "io_service_get_matching_services_bin (ik_msg K) reply master AGX_MATCHING_BLOB s = (it, s1)"
    "it = 0 \<and> view s1 = view s \<or> fresh it (view s) \<and> view s1 = set_port it (Some (Iter (List.map Accel reg))) (view s)"
    using matching_ok [OF K] by blast
  show ?thesis
  proof (cases "it = 0")
    case True
    then show ?thesis using m K(3) by (auto simp: agx_walk_def io_master_port_def fresh_def)
  next
    case False
    then have f: "fresh it (view s)" "view s1 = set_port it (Some (Iter (List.map Accel reg))) (view s)" using m(2) by auto
    have "room 3 (view s1)" unfolding f(2) by (rule room_fresh [OF f(1)]) (use assms(4) in \<open>simp add: eval_nat_numeral\<close>)
    then obtain s2 where s2: "accel_loop K reply task it [] s1 = Some (reg, s2)" "view s2 = set_port it (Some (Iter [])) (view s1)"
      using accel_loop_ok [OF K(1,2) False, of s1 reg "[]"] f assms(5) by auto
    have "view (release K reply task it s2) = view s"
      by (rule release_iterator [OF K(1,2) f(1)]) (simp add: s2 f)
    then show ?thesis using m(1) s2(1) K(3) False by (simp add: agx_walk_def io_master_port_def)
  qed
qed

lemma count_ok:
  assumes K: "serves K view reg master task" "reply \<noteq> 0" "master \<noteq> 0" and "room 2 (view s)"
  shows "\<exists>s1. count_agx_devices K host reply task master s =
      Some (if fst (io_service_get_matching_services_bin (ik_msg K) reply master AGX_MATCHING_BLOB s) = 0 then 0 else length reg, s1)
    \<and> view s1 = view s"
proof -
  have "room 1 (view s)" using assms(4) by (rule room_le) simp
  then obtain it s1 where m: "io_service_get_matching_services_bin (ik_msg K) reply master AGX_MATCHING_BLOB s = (it, s1)"
    "it = 0 \<and> view s1 = view s \<or> fresh it (view s) \<and> view s1 = set_port it (Some (Iter (List.map Accel reg))) (view s)"
    using matching_ok [OF K] by blast
  show ?thesis
  proof (cases "it = 0")
    case True
    then show ?thesis using m K(3) by (auto simp: count_agx_devices_def io_master_port_def fresh_def)
  next
    case False
    then have f: "fresh it (view s)" "view s1 = set_port it (Some (Iter (List.map Accel reg))) (view s)" using m(2) by auto
    have "room 1 (view s1)" unfolding f(2) by (rule room_fresh [OF f(1)]) (use assms(4) in \<open>simp add: eval_nat_numeral\<close>)
    then obtain s2 where s2: "count_loop K reply task it 0 s1 = Some (length reg, s2)" "view s2 = set_port it (Some (Iter [])) (view s1)"
      using count_loop_ok [OF K(1,2) False, of s1 "List.map Accel reg" 0] f by auto
    have "view (release K reply task it s2) = view s"
      by (rule release_iterator [OF K(1,2) f(1)]) (simp add: s2 f)
    then show ?thesis using m(1) s2(1) K(3) False by (simp add: count_agx_devices_def io_master_port_def)
  qed
qed

subsection \<open>A kernel\<close>

text \<open>
  An implementation of these steps: names are given out in order, a property appears at a fixed address, and is
  remembered for the read that follows.
\<close>

definition next_name :: "io_view \<Rightarrow> u32" where
  "next_name v = (case List.find (\<lambda>k. iv_ports v (of_nat k) = None) [1 ..< 2 ^ 32] of Some k \<Rightarrow> of_nat k | None \<Rightarrow> 0)"

definition port_bytes :: "u32 \<Rightarrow> u8 list" where
  "port_bytes n = le_bytes 4 MACH_MSGH_BITS_COMPLEX @ replicate 20 0 @ le_bytes 4 (1 :: u32) @ le_bytes 4 n"

definition ool_bytes :: "u32 \<Rightarrow> u8 list" where
  "ool_bytes n = le_bytes 4 MACH_MSGH_BITS_COMPLEX @ replicate 20 0 @ le_bytes 4 (1 :: u32) @
     le_bytes 4 (0x10000 :: u32) @ le_bytes 4 (0 :: u32) @ [0, 0, 0, 1] @ le_bytes 4 n @ replicate 84 0"

type_synonym demo = "io_view \<times> u8 list"

definition demo_port :: "io_obj \<Rightarrow> io_view \<Rightarrow> u8 list \<Rightarrow> (i32 \<times> u8 list) \<times> demo" where
  "demo_port x v mem = ((0, port_bytes (next_name v)), (set_port (next_name v) (Some x) v, mem))"

definition demo_prop :: "u8 list option \<Rightarrow> io_view \<Rightarrow> u8 list \<Rightarrow> (i32 \<times> u8 list) \<times> demo" where
  "demo_prop b v mem =
     (case b of None \<Rightarrow> ((1, []), (v, mem))
      | Some bytes \<Rightarrow> ((0, ool_bytes (of_nat (length bytes))),
          (v\<lparr>iv_bufs := add_mset (0x10000, of_nat (length bytes)) (iv_bufs v)\<rparr>, bytes)))"

definition demo_msg :: "agx_accel list \<Rightarrow> demo mach_msg" where
  "demo_msg reg s a buf =
     (case s of (v, mem) \<Rightarrow>
        (case wire_request a buf of
           Some (tgt, Matching b) \<Rightarrow> demo_port (Iter (List.map Accel reg)) v mem
         | Some (tgt, NextOf) \<Rightarrow>
             (case iv_ports v tgt of
                Some (Iter (x # xs)) \<Rightarrow>
                  ((0, port_bytes (next_name v)), (set_port (next_name v) (Some x) (set_port tgt (Some (Iter xs)) v), mem))
              | _ \<Rightarrow> ((1, []), s))
         | Some (tgt, ChildrenOf pl) \<Rightarrow>
             (case iv_ports v tgt of
                Some (Accel x) \<Rightarrow> demo_port (Iter (List.map Kid (aa_children x))) v mem
              | _ \<Rightarrow> ((1, []), s))
         | Some (tgt, AllProps) \<Rightarrow> (case iv_ports v tgt of Some (Kid b) \<Rightarrow> demo_prop b v mem | _ \<Rightarrow> ((1, []), s))
         | Some (tgt, OneProp nm) \<Rightarrow> (case iv_ports v tgt of Some (Accel x) \<Rightarrow> demo_prop (aa_perf x) v mem | _ \<Rightarrow> ((1, []), s))
         | Some (tgt, Dealloc p) \<Rightarrow> ((0, replicate 36 0), (set_port p None v, mem))
         | None \<Rightarrow> ((1, []), s)))"

definition demo_kernel :: "agx_accel list \<Rightarrow> demo io_kernel" where
  "demo_kernel reg =
     \<lparr>ik_msg = demo_msg reg,
      ik_free = (\<lambda>s addr n. (0, ((fst s)\<lparr>iv_bufs := iv_bufs (fst s) - {#(addr, ucast n)#}\<rparr>, snd s))),
      ik_mem = (\<lambda>s addr n. snd s)\<rparr>"

lemma next_name_fresh:
  assumes "room 1 v"
  shows "fresh (next_name v) v"
proof -
  have "{n. fresh n v} \<noteq> {}" using assms by (auto simp: room_def simp del: Collect_empty_eq)
  then obtain n where n: "n \<noteq> 0" "iv_ports v n = None" by (auto simp: fresh_def)
  then have "unat n \<in> set [1 ..< 2 ^ 32]" using unat_u32 [of n] by (simp add: unat_gt_0 Suc_le_eq)
  moreover have "iv_ports v (of_nat (unat n)) = None" using n by simp
  ultimately obtain k where k: "List.find (\<lambda>k. iv_ports v (of_nat k) = None) [1 ..< 2 ^ 32] = Some k"
    by (cases "List.find (\<lambda>k. iv_ports v (of_nat k) = None) [1 ..< 2 ^ 32]") (auto simp: find_None_iff)
  then have "1 \<le> k" "k < 2 ^ 32" "iv_ports v (of_nat k) = None" by (auto simp: find_Some_iff)
  moreover have "(of_nat k :: u32) \<noteq> 0"
  proof
    assume "(of_nat k :: u32) = 0"
    then have "unat (of_nat k :: u32) = 0" by simp
    then show False using unat_size [of k] \<open>1 \<le> k\<close> \<open>k < 2 ^ 32\<close> by simp
  qed
  moreover have "next_name v = of_nat k" unfolding next_name_def k by simp
  ultimately show ?thesis by (simp add: fresh_def)
qed

lemma bit_complex_word: "bit MACH_MSGH_BITS_COMPLEX 31" by (simp add: bit_complex)

lemma port_bytes_answer: "wire_answer (Port n) 0 (port_bytes n) mem"
  by (simp add: wire_answer_def port_bytes_def buf_u32_def buf_get_def word_nat bit_complex_word)

lemma prop_answer:
  assumes "blob_ok b" "demo_prop b v mem = ((kr, buf1), s1)"
  shows "\<exists>r. prop_step v b r (fst s1) \<and> wire_answer r kr buf1 (\<lambda>_ _. snd s1)"
proof (cases b)
  case None
  then show ?thesis using assms(2) by (auto simp: demo_prop_def wire_answer_def intro!: prop_step.no_prop)
next
  case (Some bytes)
  have "buf_u64 28 (ool_bytes n) = 0x10000" for n
    by (simp add: ool_bytes_def buf_u64_def buf_u32_def buf_get_def word_nat)
  moreover have "ool_bytes n ! 39 = 1" for n by (simp add: ool_bytes_def nth_append)
  moreover have "buf_u32 0 (ool_bytes n) = MACH_MSGH_BITS_COMPLEX" "buf_u32 24 (ool_bytes n) = 1"
    "buf_u32 40 (ool_bytes n) = n" "length (ool_bytes n) = 128" for n
    by (simp_all add: ool_bytes_def buf_u32_def buf_get_def word_nat)
  ultimately have "wire_answer (Ool 0x10000 (of_nat (length bytes)) bytes) 0 (ool_bytes (of_nat (length bytes))) (\<lambda>_ _. bytes)"
    by (simp add: wire_answer_def bit_complex_word)
  moreover have "prop_step v (Some bytes) (Ool 0x10000 (of_nat (length bytes)) bytes)
      (v\<lparr>iv_bufs := add_mset (0x10000, of_nat (length bytes)) (iv_bufs v)\<rparr>)"
    by (rule prop_step.has_prop) simp
  ultimately show ?thesis using assms(2) Some by (auto simp: demo_prop_def)
qed

lemma demo_answers:
  assumes "wire_request a buf = Some m" "understood master task (fst s) m"
  shows "\<exists>kr buf1 s1 r. demo_msg reg s a buf = ((kr, buf1), s1) \<and> io_step reg (fst s) m r (fst s1) \<and>
    wire_answer r kr buf1 (\<lambda>_ _. snd s1)"
proof -
  obtain v mem where s: "s = (v, mem)" by (cases s)
  obtain tgt req where m: "m = (tgt, req)" by (cases m)
  have u: "understood master task v (tgt, req)" using assms(2) by (simp add: s m)
  have w: "wire_request a buf = Some (tgt, req)" using assms(1) by (simp add: m)
  have fails: "wire_answer Fails 1 bs f" for bs f by (simp add: wire_answer_def)
  show ?thesis
  proof (cases req)
    case (Matching b)
    then have "b = AGX_MATCHING_BLOB" "fresh (next_name v) v" using u next_name_fresh by (auto simp: understood_def)
    then show ?thesis
      using w Matching by (auto simp: demo_msg_def demo_port_def s m intro!: exI io_step.matched port_bytes_answer)
  next
    case NextOf
    then obtain xs where xs: "iv_ports v tgt = Some (Iter xs)" "fresh (next_name v) v"
      using u next_name_fresh by (auto simp: understood_def)
    then show ?thesis
      using w NextOf
      by (cases xs) (auto simp: demo_msg_def s m intro!: exI io_step.no_next io_step.next_obj port_bytes_answer fails)
  next
    case (ChildrenOf pl)
    then obtain x where "iv_ports v tgt = Some (Accel x)" "fresh (next_name v) v" "pl = service_plane"
      using u next_name_fresh by (auto simp: understood_def)
    then show ?thesis
      using w ChildrenOf by (auto simp: demo_msg_def demo_port_def s m intro!: exI io_step.children port_bytes_answer)
  next
    case AllProps
    then obtain b where b: "iv_ports v tgt = Some (Kid b)" "blob_ok b" using u by (auto simp: understood_def)
    obtain kr buf1 s1 where d: "demo_prop b v mem = ((kr, buf1), s1)" by (metis prod.exhaust)
    then obtain r where "prop_step v b r (fst s1)" "wire_answer r kr buf1 (\<lambda>_ _. snd s1)" using prop_answer [OF b(2)] by blast
    then show ?thesis using w AllProps b(1) d by (auto simp: demo_msg_def s m intro: io_step.all_props)
  next
    case (OneProp nm)
    then obtain x where x: "iv_ports v tgt = Some (Accel x)" "blob_ok (aa_perf x)" "nm = perf_name"
      using u by (auto simp: understood_def)
    obtain kr buf1 s1 where d: "demo_prop (aa_perf x) v mem = ((kr, buf1), s1)" by (metis prod.exhaust)
    then obtain r where "prop_step v (aa_perf x) r (fst s1)" "wire_answer r kr buf1 (\<lambda>_ _. snd s1)"
      using prop_answer [OF x(2)] by blast
    then show ?thesis using w OneProp x(1,3) d by (auto simp: demo_msg_def s m intro: io_step.one_prop)
  next
    case (Dealloc p)
    then have "iv_ports v p \<noteq> None" using u by (simp add: understood_def)
    moreover have "wire_answer Released 0 (replicate 36 0) f" for f by (simp add: wire_answer_def buf_fields)
    ultimately show ?thesis using w Dealloc by (auto simp: demo_msg_def s m intro!: exI io_step.dealloc)
  qed
qed

lemma demo_serves: "serves (demo_kernel reg) fst reg master task"
proof -
  have "(ucast (ucast (n :: u32) :: u64) :: u32) = n" for n by (rule low_words)
  then have free: "fst (snd (ik_free (demo_kernel reg) s addr (ucast n))) = (fst s)\<lparr>iv_bufs := iv_bufs (fst s) - {#(addr, n)#}\<rparr>"
    for s addr n by (simp add: demo_kernel_def)
  have msg: "ik_msg (demo_kernel reg) = demo_msg reg" "ik_mem (demo_kernel reg) s1 = (\<lambda>_ _. snd s1)" for s1
    by (simp_all add: demo_kernel_def fun_eq_iff)
  show ?thesis unfolding serves_def free msg using demo_answers [where reg = reg and master = master and task = task] by blast
qed

subsection \<open>The walk against any such kernel\<close>


definition sample_registry :: "agx_accel list" where
  "sample_registry = [\<lparr>aa_perf = Some [1, 2, 3, 4], aa_children = [None, Some [7]]\<rparr>]"

definition no_ports :: io_view where "no_ports = \<lparr>iv_ports = (\<lambda>_. None), iv_bufs = {#}\<rparr>"

lemma no_ports_room: "k < 2 ^ 32 \<Longrightarrow> room k no_ports"
proof -
  assume "k < 2 ^ 32"
  moreover have "{n. fresh n no_ports} = UNIV - {0}" by (auto simp: fresh_def no_ports_def)
  then have "card {n. fresh n no_ports} = 2 ^ 32 - 1" by (simp add: card_word)
  ultimately show ?thesis by (simp add: room_def)
qed

lemma sample_matching:
  "fst (io_service_get_matching_services_bin (ik_msg (demo_kernel sample_registry)) 7 5 AGX_MATCHING_BLOB (no_ports, [])) \<noteq> 0"
proof -
  obtain sz buf where rq: "iter_request (Some AGX_MATCHING_BLOB) = Some (sz, buf)"
    by (simp add: iter_request_def Let_def matching_slices(1) pad4_def iter_buf_size_def)
  have "fresh (next_name no_ports) no_ports" by (rule next_name_fresh) (simp add: no_ports_room)
  then have "port_reply (port_bytes (next_name no_ports)) \<noteq> 0"
    using wire_answer_port [OF port_bytes_answer [of "next_name no_ports"]] by (simp add: answer_port_def fresh_def)
  then show ?thesis
    using rq wire_matching [OF _ rq, of 7 5]
    by (simp add: io_service_get_matching_services_bin_def iokit_iter_call_def matching_slices(1) demo_kernel_def demo_msg_def demo_port_def)
qed


text \<open>What a turn shows of the Apple GPUs is what the reader computes from the registry itself: through all the
  messages, the percentages, the memory and the snapshot kept are those of the registry's contents, or those of no
  answer when the matching fails, and none is asked for without a GPU or without elapsed time.\<close>

theorem agx_populate_io_correct:
  assumes "serves K view reg master task" "reply \<noteq> 0" "master \<noteq> 0" "room 4 (view s)" "\<forall>a \<in> set reg. accel_ok a"
  shows "\<exists>s1. agx_populate_io K host reply task master gpus mem prev dt s = Some (agx_populate gpus mem prev
      (if fst (io_service_get_matching_services_bin (ik_msg K) reply master AGX_MATCHING_BLOB s) = 0 then None else Some reg) dt, s1)
    \<and> view s1 = view s"
proof (cases "gpus = 0 \<or> dt = 0")
  case True
  then show ?thesis by (auto simp: agx_populate_io_def agx_populate_def)
next
  case False
  obtain s1 where "agx_walk K host reply task master s =
      Some (if fst (io_service_get_matching_services_bin (ik_msg K) reply master AGX_MATCHING_BLOB s) = 0 then None else Some reg, s1)"
    "view s1 = view s"
    using agx_walk_ok [OF assms, where host = host] by blast
  then show ?thesis using False by (simp add: agx_populate_io_def)
qed

theorem agx_populate_io_correct_witness:
  "\<exists>s1. agx_populate_io (demo_kernel sample_registry) 9 7 6 5 1 8192 [] 1000 (no_ports, []) =
      Some (agx_populate 1 8192 [] (Some sample_registry) 1000, s1) \<and> fst s1 = no_ports"
proof -
  have "room 4 (fst (no_ports, []))" by (simp add: no_ports_room)
  moreover have "\<forall>a \<in> set sample_registry. accel_ok a" by (simp add: sample_registry_def accel_ok_def blob_ok_def)
  ultimately show ?thesis
    using agx_populate_io_correct [OF demo_serves [of sample_registry 5 6], of 7 "(no_ports, [])" 9 1 8192 "[]" 1000] sample_matching by simp
qed

end
