(* ===== verification/Macho.thy ===== *)
theory Macho
  imports Mach "HOL-Library.Monad_Syntax"
begin

unbundle bit_operations_syntax

text \<open>
  The Mach-O packer (src/tools/mac-pack/src/main.rs), which the macOS build runs on the linked program: it drops
  one page of the \<open>__TEXT\<close> segment, rewrites the load commands and signs the result anew. A file is its list of
  bytes; SHA-256 is an argument. \<open>None\<close> is a stop with a nonzero status, by \<open>die\<close> or by a panic, before any output
  is written. The tool is built with \<open>--release\<close>, so its \<open>u64\<close> arithmetic wraps and its \<open>debug_assert\<close>s are void;
  \<open>i64\<close> sums and differences are those of \<open>u64\<close> in two's complement. Offsets of load commands are \<open>nat\<close>: one outside
  the buffer stops at the first read, so none gets near \<open>2 ^ 64\<close>.
\<close>

subsection \<open>Reading and writing with Rust's bounds checks\<close>

definition subslice :: "u8 list \<Rightarrow> nat \<Rightarrow> nat \<Rightarrow> u8 list option" where
  "subslice buf a b = (if a \<le> b \<and> b \<le> length buf then Some (buf_get a (b - a) buf) else None)"

definition copy_into :: "u8 list \<Rightarrow> nat \<Rightarrow> nat \<Rightarrow> u8 list \<Rightarrow> u8 list option" where
  "copy_into out a b src =
     (if a \<le> b \<and> b \<le> length out \<and> length src = b - a then Some (buf_put a src out) else None)"

definition r_u32 :: "u8 list \<Rightarrow> nat \<Rightarrow> u32 option" where
  "r_u32 buf off = (if off + 4 \<le> length buf then Some (buf_u32 off buf) else None)"

definition r_u64 :: "u8 list \<Rightarrow> nat \<Rightarrow> u64 option" where
  "r_u64 buf off = (if off + 8 \<le> length buf then Some (buf_u64 off buf) else None)"

definition w_u32 :: "u8 list \<Rightarrow> nat \<Rightarrow> u32 \<Rightarrow> u8 list option" where
  "w_u32 buf off v = (if off + 4 \<le> length buf then Some (buf_put off (le_bytes 4 v) buf) else None)"

definition w_u64 :: "u8 list \<Rightarrow> nat \<Rightarrow> u64 \<Rightarrow> u8 list option" where
  "w_u64 buf off v = (if off + 8 \<le> length buf then Some (buf_put off (le_bytes 8 v) buf) else None)"

definition be_u32 :: "u32 \<Rightarrow> u8 list" where "be_u32 v = rev (le_bytes 4 v)"

definition be_u64 :: "u64 \<Rightarrow> u8 list" where "be_u64 v = rev (le_bytes 8 v)"

subsection \<open>Segments and sections\<close>

definition MH_MAGIC_64 :: u32 where "MH_MAGIC_64 = 0xfeedfacf"
definition LC_SEGMENT_64 :: u32 where "LC_SEGMENT_64 = 0x19"
definition LC_SYMTAB :: u32 where "LC_SYMTAB = 0x2"
definition LC_DYSYMTAB :: u32 where "LC_DYSYMTAB = 0xb"
definition LC_DYLD_INFO_ONLY :: u32 where "LC_DYLD_INFO_ONLY = 0x80000022"
definition LC_MAIN :: u32 where "LC_MAIN = 0x80000028"
definition LC_CODE_SIGNATURE :: u32 where "LC_CODE_SIGNATURE = 0x1d"
definition LC_FUNCTION_STARTS :: u32 where "LC_FUNCTION_STARTS = 0x26"
definition LC_DATA_IN_CODE :: u32 where "LC_DATA_IN_CODE = 0x29"
definition LC_DYLD_EXPORTS_TRIE :: u32 where "LC_DYLD_EXPORTS_TRIE = 0x80000033"
definition LC_DYLD_CHAINED_FIXUPS :: u32 where "LC_DYLD_CHAINED_FIXUPS = 0x80000034"
definition PAGE :: u64 where "PAGE = 0x4000"
definition SHIFT :: u64 where "SHIFT = PAGE"

lemmas lc_defs = LC_SEGMENT_64_def LC_SYMTAB_def LC_DYSYMTAB_def LC_DYLD_INFO_ONLY_def LC_MAIN_def
  LC_CODE_SIGNATURE_def LC_FUNCTION_STARTS_def LC_DATA_IN_CODE_def LC_DYLD_EXPORTS_TRIE_def
  LC_DYLD_CHAINED_FIXUPS_def

record segment =
  sg_lc_off :: nat
  sg_name :: "u8 list"
  sg_vmaddr :: u64
  sg_vmsize :: u64
  sg_fileoff :: u64
  sg_filesize :: u64
  sg_nsects :: u32
  sg_sect_offs :: "nat list"

definition seg_is :: "u8 list \<Rightarrow> segment \<Rightarrow> bool" where
  "seg_is n s \<longleftrightarrow> takeWhile (\<lambda>b. b \<noteq> 0) (sg_name s) = n"

definition read_segment :: "u8 list \<Rightarrow> nat \<Rightarrow> segment option" where
  "read_segment buf off = do {
     name \<leftarrow> subslice buf (off + 8) (off + 24);
     nsects \<leftarrow> r_u32 buf (off + 64);
     vmaddr \<leftarrow> r_u64 buf (off + 24);
     vmsize \<leftarrow> r_u64 buf (off + 32);
     fileoff \<leftarrow> r_u64 buf (off + 40);
     filesize \<leftarrow> r_u64 buf (off + 48);
     Some \<lparr>sg_lc_off = off, sg_name = name, sg_vmaddr = vmaddr, sg_vmsize = vmsize, sg_fileoff = fileoff,
           sg_filesize = filesize, sg_nsects = nsects,
           sg_sect_offs = List.map (\<lambda>i. off + 72 + i * 80) [0..<unat nsects]\<rparr> }"

text \<open>The walk over the load commands: at most \<open>ncmds\<close> of them, up to \<open>sizeofcmds\<close>.\<close>

fun parse_loop :: "u8 list \<Rightarrow> nat \<Rightarrow> nat \<Rightarrow> nat \<Rightarrow> segment list option" where
  "parse_loop buf lc_end 0 off = Some []"
| "parse_loop buf lc_end (Suc n) off =
     (if off + 8 > lc_end then Some []
      else do {
        cmd \<leftarrow> r_u32 buf off;
        cmdsize \<leftarrow> r_u32 buf (off + 4);
        segs \<leftarrow> (if cmd = LC_SEGMENT_64 then map_option (\<lambda>s. [s]) (read_segment buf off) else Some []);
        rest \<leftarrow> parse_loop buf lc_end n (off + unat cmdsize);
        Some (segs @ rest) })"

definition parse_segments :: "u8 list \<Rightarrow> segment list option" where
  "parse_segments buf = do {
     magic \<leftarrow> r_u32 buf 0;
     if magic \<noteq> MH_MAGIC_64 then None
     else do {
       ncmds \<leftarrow> r_u32 buf 16;
       sizeofcmds \<leftarrow> r_u32 buf 20;
       parse_loop buf (32 + unat sizeofcmds) (unat ncmds) 32 } }"

text \<open>\<open>segment_mut_idx\<close> gives the position of the first segment of a name; here the segment at it.\<close>

definition segment_named :: "segment list \<Rightarrow> u8 list \<Rightarrow> segment option" where
  "segment_named segs name = find (seg_is name) segs"

definition TEXT_NAME :: "u8 list" where "TEXT_NAME = List.map byte_of ''__TEXT''"
definition DATA_NAME :: "u8 list" where "DATA_NAME = List.map byte_of ''__DATA''"
definition LINKEDIT_NAME :: "u8 list" where "LINKEDIT_NAME = List.map byte_of ''__LINKEDIT''"

record section_read =
  sr_addr :: u64
  sr_size :: u64
  sr_offset :: u32
  sr_align :: u32

definition read_section :: "u8 list \<Rightarrow> nat \<Rightarrow> section_read option" where
  "read_section buf hdr_off = do {
     addr \<leftarrow> r_u64 buf (hdr_off + 32);
     sz \<leftarrow> r_u64 buf (hdr_off + 40);
     off \<leftarrow> r_u32 buf (hdr_off + 48);
     align \<leftarrow> r_u32 buf (hdr_off + 52);
     Some \<lparr>sr_addr = addr, sr_size = sz, sr_offset = off, sr_align = align\<rparr> }"

definition write_section :: "u8 list \<Rightarrow> nat \<Rightarrow> u64 \<Rightarrow> u32 \<Rightarrow> u8 list option" where
  "write_section buf hdr_off addr off = do {
     buf1 \<leftarrow> w_u64 buf (hdr_off + 32) addr;
     w_u32 buf1 (hdr_off + 48) off }"

subsection \<open>The signature\<close>

definition CSMAGIC_EMBEDDED_SIGNATURE :: u32 where "CSMAGIC_EMBEDDED_SIGNATURE = 0xfade0cc0"
definition CSMAGIC_CODEDIRECTORY :: u32 where "CSMAGIC_CODEDIRECTORY = 0xfade0c02"
definition CSSLOT_CODEDIRECTORY :: u32 where "CSSLOT_CODEDIRECTORY = 0"
definition CS_HASHTYPE_SHA256 :: u8 where "CS_HASHTYPE_SHA256 = 2"
definition CS_EXECSEG_MAIN_BINARY :: u64 where "CS_EXECSEG_MAIN_BINARY = 1"
definition CS_PAGE_SIZE_BITS :: u8 where "CS_PAGE_SIZE_BITS = 12"
definition CS_PAGE_SIZE :: nat where "CS_PAGE_SIZE = 4096"
definition CS_HASH_SIZE :: nat where "CS_HASH_SIZE = 32"
definition CD_FIXED :: nat where "CD_FIXED = 88"

definition n_hashes :: "u64 \<Rightarrow> nat" where
  "n_hashes code_size = unat (code_size + of_nat CS_PAGE_SIZE - 1) div CS_PAGE_SIZE"

definition hash_off :: "u8 list \<Rightarrow> nat" where "hash_off idn = CD_FIXED + length idn + 1"

definition cdir_size :: "u64 \<Rightarrow> u8 list \<Rightarrow> nat" where
  "cdir_size code_size idn = hash_off idn + n_hashes code_size * CS_HASH_SIZE"

definition sig_size :: "u64 \<Rightarrow> u8 list \<Rightarrow> nat" where
  "sig_size code_size idn = 12 + 8 + cdir_size code_size idn"

type_synonym sha = "u8 list \<Rightarrow> u8 list"

definition super_blob :: "u64 \<Rightarrow> u8 list \<Rightarrow> u8 list" where
  "super_blob code_size idn =
     be_u32 CSMAGIC_EMBEDDED_SIGNATURE @ be_u32 (of_nat (sig_size code_size idn)) @ be_u32 1 @
     be_u32 CSSLOT_CODEDIRECTORY @ be_u32 20"

definition code_directory :: "u64 \<Rightarrow> u8 list \<Rightarrow> u64 \<Rightarrow> u64 \<Rightarrow> u8 list" where
  "code_directory code_size idn text_off text_size =
     be_u32 CSMAGIC_CODEDIRECTORY @ be_u32 (of_nat (cdir_size code_size idn)) @
     be_u32 0x00020400 @ be_u32 0x00020002 @
     be_u32 (of_nat (hash_off idn)) @ be_u32 (of_nat CD_FIXED) @ be_u32 0 @
     be_u32 (of_nat (n_hashes code_size)) @ be_u32 (ucast code_size) @
     [of_nat CS_HASH_SIZE, CS_HASHTYPE_SHA256, 0, CS_PAGE_SIZE_BITS] @
     be_u32 0 @ be_u32 0 @ be_u32 0 @ be_u32 0 @ be_u64 0 @
     be_u64 text_off @ be_u64 text_size @ be_u64 CS_EXECSEG_MAIN_BINARY"

fun page_hashes :: "sha \<Rightarrow> u8 list \<Rightarrow> nat \<Rightarrow> nat list \<Rightarrow> u8 list option" where
  "page_hashes sha data code_size [] = Some []"
| "page_hashes sha data code_size (i # is) = do {
     slice \<leftarrow> subslice data (i * CS_PAGE_SIZE) (min (i * CS_PAGE_SIZE + CS_PAGE_SIZE) code_size);
     rest \<leftarrow> page_hashes sha data code_size is;
     Some (sha slice @ rest) }"

definition sign_adhoc :: "sha \<Rightarrow> u8 list \<Rightarrow> u8 list \<Rightarrow> u64 \<Rightarrow> u64 \<Rightarrow> u64 \<Rightarrow> u8 list option" where
  "sign_adhoc sha data idn code_size text_off text_size = do {
     hashes \<leftarrow> page_hashes sha data (unat code_size) [0..<n_hashes code_size];
     Some (super_blob code_size idn @ code_directory code_size idn text_off text_size @ idn @ [0] @ hashes) }"

subsection \<open>The new layout\<close>

text \<open>What \<open>main\<close> has computed when it starts to build the output; \<open>Keep\<close> is the pass-through.\<close>

record plan =
  pl_text :: segment
  pl_data :: segment
  pl_le :: segment
  pl_text_sect :: section_read
  pl_const_sect :: section_read
  pl_in_page2 :: bool
  pl_header :: u64
  pl_codesig :: nat
  pl_codesig_dataoff :: u64

datatype decision = Keep | Repack plan

definition moved_off :: "bool \<Rightarrow> u32 \<Rightarrow> u64" where
  "moved_off in_page2 off = (if in_page2 then ucast off - SHIFT else ucast off)"

definition new_text_off :: "plan \<Rightarrow> u64" where
  "new_text_off p = moved_off (pl_in_page2 p) (sr_offset (pl_text_sect p))"

definition new_const_off :: "plan \<Rightarrow> u64" where
  "new_const_off p = moved_off (pl_in_page2 p) (sr_offset (pl_const_sect p))"

definition text_content_end :: "plan \<Rightarrow> u64" where
  "text_content_end p = new_const_off p + sr_size (pl_const_sect p)"

definition new_le_fileoff :: "plan \<Rightarrow> u64" where
  "new_le_fileoff p = PAGE + sg_filesize (pl_data p)"

definition le_prefix_len :: "plan \<Rightarrow> u64" where
  "le_prefix_len p = pl_codesig_dataoff p - sg_fileoff (pl_le p)"

definition code_limit :: "plan \<Rightarrow> u64" where
  "code_limit p = new_le_fileoff p + le_prefix_len p"

definition le_shift :: "plan \<Rightarrow> u64" where
  "le_shift p = new_le_fileoff p - sg_fileoff (pl_le p)"

fun find_codesig :: "u8 list \<Rightarrow> nat \<Rightarrow> nat \<Rightarrow> (nat \<times> u64) option" where
  "find_codesig buf 0 off = None"
| "find_codesig buf (Suc n) off = do {
     cmd \<leftarrow> r_u32 buf off;
     cmdsize \<leftarrow> r_u32 buf (off + 4);
     if cmd = LC_CODE_SIGNATURE then do { dataoff \<leftarrow> r_u32 buf (off + 8); Some (off, ucast dataoff) }
     else find_codesig buf n (off + unat cmdsize) }"

definition decide :: "u8 list \<Rightarrow> decision option" where
  "decide buf = do {
     segs \<leftarrow> parse_segments buf;
     t \<leftarrow> segment_named segs TEXT_NAME;
     d \<leftarrow> segment_named segs DATA_NAME;
     le \<leftarrow> segment_named segs LINKEDIT_NAME;
     if sg_vmsize t = PAGE \<and> sg_filesize t = PAGE then Some Keep
     else if sg_vmsize t \<noteq> 2 * PAGE \<or> sg_filesize t \<noteq> 2 * PAGE then None
     else if sg_nsects t \<noteq> 2 then Some Keep
     else do {
       ts \<leftarrow> read_section buf (sg_sect_offs t ! 0);
       cs \<leftarrow> read_section buf (sg_sect_offs t ! 1);
       sizeofcmds \<leftarrow> r_u32 buf 20;
       let p = \<lparr>pl_text = t, pl_data = d, pl_le = le, pl_text_sect = ts, pl_const_sect = cs,
                pl_in_page2 = ucast (sr_offset ts) \<ge> SHIFT, pl_header = 32 + ucast sizeofcmds,
                pl_codesig = 0, pl_codesig_dataoff = 0\<rparr>;
       if new_text_off p < pl_header p then None
       else if text_content_end p > PAGE then Some Keep
       else do {
         ncmds \<leftarrow> r_u32 buf 16;
         (cs_at, dataoff) \<leftarrow> find_codesig buf (unat ncmds) 32;
         Some (Repack (p\<lparr>pl_codesig := cs_at, pl_codesig_dataoff := dataoff\<rparr>)) } } }"

subsection \<open>The output\<close>

text \<open>\<open>out[new..new + size].copy_from_slice(&buf[old..old + size])\<close>.\<close>

definition paste :: "u8 list \<Rightarrow> u64 \<Rightarrow> section_read \<Rightarrow> u8 list \<Rightarrow> u8 list option" where
  "paste buf new sec out = do {
     src \<leftarrow> subslice buf (unat (sr_offset sec)) (unat (ucast (sr_offset sec) + sr_size sec :: u64));
     copy_into out (unat new) (unat (new + sr_size sec)) src }"

definition build_image :: "u8 list \<Rightarrow> plan \<Rightarrow> u8 list option" where
  "build_image buf p =
     (if unat (new_le_fileoff p) \<ge> 2 ^ 63 then None
      else do {
        head \<leftarrow> subslice buf 0 (unat (pl_header p));
        out1 \<leftarrow> copy_into (replicate (unat (new_le_fileoff p)) 0) 0 (unat (pl_header p)) head;
        out2 \<leftarrow> paste buf (new_text_off p) (pl_text_sect p) out1;
        out3 \<leftarrow> paste buf (new_const_off p) (pl_const_sect p) out2;
        prefix \<leftarrow> subslice buf (unat (sg_fileoff (pl_le p))) (unat (sg_fileoff (pl_le p) + le_prefix_len p));
        Some (out3 @ prefix) })"

definition rewrite_text :: "plan \<Rightarrow> u8 list \<Rightarrow> u8 list option" where
  "rewrite_text p out = (let s = pl_text p in do {
     out1 \<leftarrow> w_u64 out (sg_lc_off s + 32) PAGE;
     out2 \<leftarrow> w_u64 out1 (sg_lc_off s + 48) (text_content_end p);
     out3 \<leftarrow> write_section out2 (sg_sect_offs s ! 0) (sg_vmaddr s + new_text_off p) (ucast (new_text_off p));
     write_section out3 (sg_sect_offs s ! 1) (sg_vmaddr s + new_const_off p) (ucast (new_const_off p)) })"

fun move_sections :: "u8 list \<Rightarrow> nat list \<Rightarrow> u8 list \<Rightarrow> u8 list option" where
  "move_sections buf [] out = Some out"
| "move_sections buf (so # sos) out = do {
     sec \<leftarrow> read_section buf so;
     out1 \<leftarrow> write_section out so (sr_addr sec - SHIFT) (sr_offset sec);
     move_sections buf sos out1 }"

definition rewrite_data :: "u8 list \<Rightarrow> plan \<Rightarrow> u8 list \<Rightarrow> u8 list option" where
  "rewrite_data buf p out = (let s = pl_data p in do {
     out1 \<leftarrow> w_u64 out (sg_lc_off s + 24) (sg_vmaddr s - SHIFT);
     out2 \<leftarrow> w_u64 out1 (sg_lc_off s + 40) PAGE;
     move_sections buf (sg_sect_offs s) out2 })"

definition rewrite_linkedit :: "plan \<Rightarrow> u8 list \<Rightarrow> u8 list option" where
  "rewrite_linkedit p out = (let s = pl_le p in do {
     out1 \<leftarrow> w_u64 out (sg_lc_off s + 24) (sg_vmaddr s - SHIFT);
     w_u64 out1 (sg_lc_off s + 40) (new_le_fileoff p) })"

text \<open>A field that holds a file offset into \<open>__LINKEDIT\<close>; 0 stands for absent.\<close>

definition shifted :: "u64 \<Rightarrow> u32 \<Rightarrow> u32" where "shifted sh v = ucast (ucast v + sh)"

fun shift_fields :: "u64 \<Rightarrow> nat \<Rightarrow> nat list \<Rightarrow> u8 list \<Rightarrow> u8 list option" where
  "shift_fields sh off [] out = Some out"
| "shift_fields sh off (f # fs) out = do {
     v \<leftarrow> r_u32 out (off + f);
     out1 \<leftarrow> (if v \<noteq> 0 then w_u32 out (off + f) (shifted sh v) else Some out);
     shift_fields sh off fs out1 }"

definition rewrite_command :: "bool \<Rightarrow> u64 \<Rightarrow> u32 \<Rightarrow> nat \<Rightarrow> u8 list \<Rightarrow> u8 list option" where
  "rewrite_command in_page2 sh cmd off out =
     (if cmd = LC_SYMTAB then do {
        symoff \<leftarrow> r_u32 out (off + 8);
        stroff \<leftarrow> r_u32 out (off + 16);
        out1 \<leftarrow> w_u32 out (off + 8) (shifted sh symoff);
        w_u32 out1 (off + 16) (shifted sh stroff) }
      else if cmd = LC_DYSYMTAB then shift_fields sh off [32, 40, 48, 56, 64, 72] out
      else if cmd = LC_DYLD_INFO_ONLY then shift_fields sh off [8, 16, 24, 32, 40] out
      else if cmd = LC_MAIN then
        (if in_page2 then do { entryoff \<leftarrow> r_u64 out (off + 8); w_u64 out (off + 8) (entryoff - SHIFT) }
         else Some out)
      else if cmd \<in> {LC_FUNCTION_STARTS, LC_DATA_IN_CODE, LC_DYLD_EXPORTS_TRIE, LC_DYLD_CHAINED_FIXUPS}
      then shift_fields sh off [8] out
      else Some out)"

fun rewrite_loop :: "bool \<Rightarrow> u64 \<Rightarrow> nat \<Rightarrow> nat \<Rightarrow> u8 list \<Rightarrow> u8 list option" where
  "rewrite_loop in_page2 sh 0 off out = Some out"
| "rewrite_loop in_page2 sh (Suc n) off out = do {
     cmd \<leftarrow> r_u32 out off;
     cmdsize \<leftarrow> r_u32 out (off + 4);
     out1 \<leftarrow> rewrite_command in_page2 sh cmd off out;
     rewrite_loop in_page2 sh n (off + unat cmdsize) out1 }"

definition rewrite_signature :: "plan \<Rightarrow> u8 list \<Rightarrow> u8 list \<Rightarrow> u8 list option" where
  "rewrite_signature p idn out = (let sig_len = sig_size (code_limit p) idn in do {
     out1 \<leftarrow> w_u32 out (pl_codesig p + 8) (ucast (code_limit p));
     out2 \<leftarrow> w_u32 out1 (pl_codesig p + 12) (of_nat sig_len);
     w_u64 out2 (sg_lc_off (pl_le p) + 48) (code_limit p - new_le_fileoff p + of_nat sig_len) })"

definition rewrite_commands :: "u8 list \<Rightarrow> plan \<Rightarrow> u8 list \<Rightarrow> u8 list \<Rightarrow> u8 list option" where
  "rewrite_commands buf p idn out = do {
     out1 \<leftarrow> rewrite_text p out;
     out2 \<leftarrow> rewrite_data buf p out1;
     out3 \<leftarrow> rewrite_linkedit p out2;
     ncmds \<leftarrow> r_u32 out3 16;
     out4 \<leftarrow> rewrite_loop (pl_in_page2 p) (le_shift p) (unat ncmds) 32 out3;
     rewrite_signature p idn out4 }"

definition IDENT :: "u8 list" where "IDENT = List.map byte_of ''ltop''"

datatype packed = Copied | Packed "u8 list"

definition pack :: "sha \<Rightarrow> u8 list \<Rightarrow> packed option" where
  "pack sha buf = do {
     d \<leftarrow> decide buf;
     case d of
       Keep \<Rightarrow> Some Copied
     | Repack p \<Rightarrow> do {
         img \<leftarrow> build_image buf p;
         out \<leftarrow> rewrite_commands buf p IDENT img;
         if of_nat (length out) \<noteq> code_limit p then None
         else do {
           sg \<leftarrow> sign_adhoc sha out IDENT (code_limit p) 0 (text_content_end p);
           if length sg \<noteq> sig_size (code_limit p) IDENT then None else Some (Packed (out @ sg)) } } }"

subsection \<open>The signature verifies\<close>

text \<open>Big-endian fields, as the code-signing structures have them.\<close>

definition be32 :: "nat \<Rightarrow> u8 list \<Rightarrow> u32" where "be32 off bs = u32_le (rev (buf_get off 4 bs))"

definition be64 :: "nat \<Rightarrow> u8 list \<Rightarrow> u64" where
  "be64 off bs = push_bit 32 (ucast (be32 off bs)) OR ucast (be32 (off + 4) bs)"

text \<open>The 4 KB page \<open>i\<close> of an image; the last one is as long as the image has it.\<close>

definition code_page :: "u8 list \<Rightarrow> nat \<Rightarrow> u8 list" where
  "code_page img i = buf_get (i * 4096) (min 4096 (length img - i * 4096)) img"

text \<open>
  What the kernel asks of an ad-hoc signature of an image: one code directory, of the length it states; a code limit
  that is the whole image; one SHA-256 slot for every page, each holding the hash of the page; an identifier that
  ends before the hashes; and an executable segment.
\<close>

definition sig_accepts :: "sha \<Rightarrow> u8 list \<Rightarrow> u64 \<Rightarrow> u8 list \<Rightarrow> bool" where
  "sig_accepts sha img text_size sg \<longleftrightarrow>
     be32 0 sg = 0xfade0cc0 \<and> unat (be32 4 sg) = length sg \<and> be32 8 sg = 1 \<and> be32 12 sg = 0 \<and>
     (let cd = drop (unat (be32 16 sg)) sg; idents = unat (be32 20 cd); hashes = unat (be32 16 cd); n = unat (be32 28 cd)
      in be32 0 cd = 0xfade0c02 \<and> unat (be32 4 cd) = length cd \<and> unat (be32 32 cd) = length img \<and>
         be32 24 cd = 0 \<and> cd ! 36 = 32 \<and> cd ! 37 = 2 \<and> cd ! 39 = 12 \<and>
         be64 64 cd = 0 \<and> be64 72 cd = text_size \<and> be64 80 cd = 1 \<and>
         0 \<in> set (buf_get idents (hashes - idents) cd) \<and>
         n = (length img + 4095) div 4096 \<and> hashes + n * 32 \<le> length cd \<and>
         list_all (\<lambda>i. buf_get (hashes + i * 32) 32 cd = sha (code_page img i)) [0..<n])"

lemma length_be [simp]: "length (be_u32 v) = 4" "length (be_u64 w) = 8"
  by (simp_all add: be_u32_def be_u64_def)

lemma be32_at: "buf_get off 4 bs = be_u32 v \<Longrightarrow> be32 off bs = v"
  by (simp add: be32_def be_u32_def u32_le_bytes)

lemma be64_at:
  assumes "buf_get off 8 bs = be_u64 w"
  shows "be64 off bs = w"
proof -
  have "buf_get off 4 bs = take 4 (buf_get off 8 bs)" "buf_get (off + 4) 4 bs = drop 4 (buf_get off 8 bs)"
    by (simp_all add: buf_get_def drop_take add.commute)
  moreover have "take 4 (be_u64 w) = rev (le_bytes 4 (drop_bit 32 w))" "drop 4 (be_u64 w) = rev (le_bytes 4 w)"
    by (simp_all add: be_u64_def take_rev drop_rev take_le_bytes drop_le_bytes)
  ultimately show ?thesis using assms by (simp add: be64_def be32_def u32_le_bytes split_u64)
qed

lemma buf_get_append:
  "buf_get o' n (xs @ ys) = (if o' + n \<le> length xs then buf_get o' n xs
     else if length xs \<le> o' then buf_get (o' - length xs) n ys
     else drop o' xs @ take (o' + n - length xs) ys)"
  by (simp add: buf_get_def add.commute)

lemma page_hashes_eq:
  "length data = cs \<Longrightarrow> \<forall>i\<in>set is. i * 4096 < cs \<Longrightarrow>
   page_hashes sha data cs is = Some (concat (List.map (\<lambda>i. sha (code_page data i)) is))"
proof (induction "is")
  case (Cons i "is")
  have "subslice data (i * CS_PAGE_SIZE) (min (i * CS_PAGE_SIZE + CS_PAGE_SIZE) cs) = Some (code_page data i)"
    using Cons.prems by (auto simp: subslice_def code_page_def CS_PAGE_SIZE_def min_def)
  then show ?case using Cons by simp
qed simp

lemma buf_get_concat:
  assumes "\<forall>x\<in>set xs. length (f x) = w" "i < length xs"
  shows "buf_get (i * w) w (concat (List.map f xs)) = f (xs ! i)"
  using assms
proof (induction xs arbitrary: i)
  case (Cons x xs)
  then show ?case by (cases i) (simp_all add: buf_get_def)
qed simp


lemma n_hashes_eq: "unat cs < 2 ^ 32 \<Longrightarrow> n_hashes cs = (unat cs + 4095) div 4096"
proof -
  assume l: "unat cs < 2 ^ 32"
  have "cs + of_nat CS_PAGE_SIZE - 1 = cs + 4095" by (simp add: CS_PAGE_SIZE_def)
  moreover have "unat (cs + 4095) = unat cs + 4095" using l by (subst unat_add_lem [THEN iffD1]) simp_all
  ultimately show ?thesis by (simp add: n_hashes_def CS_PAGE_SIZE_def add.commute)
qed

text \<open>The fields of a code directory, in front of any rest.\<close>

lemma code_directory_fields:
  fixes rest idn :: "u8 list" and cs off sz :: u64
  defines "cd \<equiv> code_directory cs idn off sz @ rest"
  shows "be32 0 cd = 0xfade0c02" "be32 4 cd = of_nat (cdir_size cs idn)" "be32 16 cd = of_nat (hash_off idn)"
    "be32 20 cd = 88" "be32 24 cd = 0" "be32 28 cd = of_nat (n_hashes cs)" "be32 32 cd = ucast cs"
    "cd ! 36 = 32" "cd ! 37 = 2" "cd ! 39 = 12" "be64 64 cd = off" "be64 72 cd = sz" "be64 80 cd = 1"
proof -
  note d = cd_def code_directory_def buf_get_append CSMAGIC_CODEDIRECTORY_def CD_FIXED_def CS_HASHTYPE_SHA256_def
    CS_PAGE_SIZE_BITS_def CS_HASH_SIZE_def CS_EXECSEG_MAIN_BINARY_def
  show "be32 0 cd = 0xfade0c02" by (rule be32_at) (simp add: d, simp add: buf_get_def)
  show "be32 4 cd = of_nat (cdir_size cs idn)" by (rule be32_at) (simp add: d, simp add: buf_get_def)
  show "be32 16 cd = of_nat (hash_off idn)" by (rule be32_at) (simp add: d, simp add: buf_get_def)
  show "be32 20 cd = 88" by (rule be32_at) (simp add: d, simp add: buf_get_def)
  show "be32 24 cd = 0" by (rule be32_at) (simp add: d, simp add: buf_get_def)
  show "be32 28 cd = of_nat (n_hashes cs)" by (rule be32_at) (simp add: d, simp add: buf_get_def)
  show "be32 32 cd = ucast cs" by (rule be32_at) (simp add: d, simp add: buf_get_def)
  show "cd ! 36 = 32" "cd ! 37 = 2" "cd ! 39 = 12" by (simp_all add: d nth_append)
  show "be64 64 cd = off" by (rule be64_at) (simp add: d, simp add: buf_get_def)
  show "be64 72 cd = sz" by (rule be64_at) (simp add: d, simp add: buf_get_def)
  show "be64 80 cd = 1" by (rule be64_at) (simp add: d, simp add: buf_get_def)
qed

lemma super_blob_fields:
  fixes rest idn :: "u8 list" and cs :: u64
  defines "sb \<equiv> super_blob cs idn @ rest"
  shows "be32 0 sb = 0xfade0cc0" "be32 4 sb = of_nat (sig_size cs idn)" "be32 8 sb = 1" "be32 12 sb = 0"
    "be32 16 sb = 20"
proof -
  note d = sb_def super_blob_def buf_get_append CSMAGIC_EMBEDDED_SIGNATURE_def CSSLOT_CODEDIRECTORY_def
  show "be32 0 sb = 0xfade0cc0" by (rule be32_at) (simp add: d, simp add: buf_get_def)
  show "be32 4 sb = of_nat (sig_size cs idn)" by (rule be32_at) (simp add: d, simp add: buf_get_def)
  show "be32 8 sb = 1" by (rule be32_at) (simp add: d, simp add: buf_get_def)
  show "be32 12 sb = 0" by (rule be32_at) (simp add: d, simp add: buf_get_def)
  show "be32 16 sb = 20" by (rule be32_at) (simp add: d, simp add: buf_get_def)
qed

lemma length_blobs [simp]:
  "length (super_blob cs idn) = 20" "length (code_directory cs idn off sz) = 88"
  by (simp_all add: super_blob_def code_directory_def)

lemma sign_adhoc_accepted:
  assumes sha: "\<forall>x. length (sha x) = 32" and len: "length data = unat cs"
    and small: "sig_size cs idn < 2 ^ 32" "unat cs < 2 ^ 32"
  shows "\<exists>sg. sign_adhoc sha data idn cs 0 sz = Some sg \<and> length sg = sig_size cs idn \<and> sig_accepts sha data sz sg"
proof -
  let ?n = "n_hashes cs" and ?h = "\<lambda>i. sha (code_page data i)"
  let ?hs = "concat (List.map ?h [0..<?n])"
  let ?cd = "code_directory cs idn 0 sz @ idn @ [0] @ ?hs"
  let ?sg = "super_blob cs idn @ ?cd"
  have n: "?n = (length data + 4095) div 4096" by (simp add: n_hashes_eq [OF small(2)] len)
  have "\<forall>i\<in>set [0..<?n]. i * 4096 < unat cs" using n len by auto
  then have sign: "sign_adhoc sha data idn cs 0 sz = Some ?sg"
    using page_hashes_eq [OF len] by (simp add: sign_adhoc_def)
  have hl: "length ?hs = ?n * 32" by (simp add: length_concat o_def sha sum_list_triv)
  have lcd: "length ?cd = cdir_size cs idn" using hl by (simp add: cdir_size_def hash_off_def CD_FIXED_def CS_HASH_SIZE_def)
  have lsg: "length ?sg = sig_size cs idn" using lcd by (simp add: sig_size_def)
  have ho: "hash_off idn = length (code_directory cs idn 0 sz @ idn @ [0])"
    by (simp add: hash_off_def CD_FIXED_def)
  have bounds: "hash_off idn < 2 ^ 32" "?n < 2 ^ 32" "cdir_size cs idn < 2 ^ 32"
    using small by (simp_all add: sig_size_def cdir_size_def CS_HASH_SIZE_def)
  have hash: "buf_get (hash_off idn + i * 32) 32 ?cd = ?h i" if "i < ?n" for i
  proof -
    have "buf_get (hash_off idn + i * 32) 32 ?cd = buf_get (i * 32) 32 ?hs"
      by (simp add: ho buf_get_def)
    also have "\<dots> = ?h ([0..<?n] ! i)" by (rule buf_get_concat) (use sha that in auto)
    finally show ?thesis using that by simp
  qed
  have ident: "0 \<in> set (buf_get 88 (hash_off idn - 88) ?cd)"
    by (simp add: buf_get_def hash_off_def CD_FIXED_def)
  have cs32: "unat (ucast cs :: u32) = length data"
    using small(2) len by (simp add: unsigned_ucast_eq take_bit_nat_eq_self)
  have "sig_accepts sha data sz ?sg"
    unfolding sig_accepts_def Let_def super_blob_fields
    using hash ident lcd lsg small bounds n hl
    by (simp add: code_directory_fields unat_of_nat32 cs32 list_all_iff del: append_assoc)
      (simp add: cdir_size_def CS_HASH_SIZE_def)
  then show ?thesis using sign lsg by blast
qed

end
