(* ===== verification/Repack.thy ===== *)
theory Repack
  imports Macho
begin

text \<open>
  What the packer makes of a well-formed program: the rewriting of the load commands is a list of patches that
  pairwise lie apart, each inside the one load command that owns it. From this follow the table of segments of the
  output, its contents, and the place and validity of its signature.
\<close>

subsection \<open>Patches\<close>

type_synonym patch = "nat \<times> u8 list"

definition puts :: "patch list \<Rightarrow> u8 list \<Rightarrow> u8 list" where
  "puts ws out = fold (\<lambda>(k, bs). buf_put k bs) ws out"

definition fits :: "nat \<Rightarrow> patch \<Rightarrow> bool" where "fits n w \<longleftrightarrow> fst w + length (snd w) \<le> n"

definition clear_of :: "nat \<Rightarrow> nat \<Rightarrow> patch \<Rightarrow> bool" where
  "clear_of k n w \<longleftrightarrow> k + n \<le> fst w \<or> fst w + length (snd w) \<le> k"

definition apart :: "patch \<Rightarrow> patch \<Rightarrow> bool" where "apart w v \<longleftrightarrow> clear_of (fst v) (length (snd v)) w"

lemma puts_simps [simp]:
  "puts [] out = out" "puts (w # ws) out = puts ws (buf_put (fst w) (snd w) out)"
  "puts (ws @ vs) out = puts vs (puts ws out)"
  by (simp_all add: puts_def split_beta)

lemma length_puts [simp]: "\<forall>w\<in>set ws. fits (length out) w \<Longrightarrow> length (puts ws out) = length out"
  by (induction ws arbitrary: out) (simp_all add: fits_def)

lemma get_puts_clear:
  "\<forall>w\<in>set ws. fits (length out) w \<and> clear_of k n w \<Longrightarrow> buf_get k n (puts ws out) = buf_get k n out"
proof (induction ws arbitrary: out)
  case (Cons w ws)
  then have "buf_get k n (buf_put (fst w) (snd w) out) = buf_get k n out"
    by (intro buf_get_put_other) (auto simp: fits_def clear_of_def)
  moreover have "length (buf_put (fst w) (snd w) out) = length out" using Cons.prems by (simp add: fits_def)
  ultimately show ?case using Cons by simp
qed simp

lemma get_puts_mem:
  "\<forall>w\<in>set ws. fits (length out) w \<Longrightarrow> sorted_wrt apart ws \<Longrightarrow> (k, bs) \<in> set ws \<Longrightarrow>
   buf_get k (length bs) (puts ws out) = bs"
proof (induction ws arbitrary: out)
  case (Cons w ws)
  have len: "length (buf_put (fst w) (snd w) out) = length out" using Cons.prems(1) by (simp add: fits_def)
  show ?case
  proof (cases "(k, bs) \<in> set ws")
    case True
    then show ?thesis using Cons.IH [OF _ _ True] Cons.prems len by simp
  next
    case False
    then have w: "w = (k, bs)" using Cons.prems(3) by auto
    then have "\<forall>v\<in>set ws. clear_of k (length bs) v"
      using Cons.prems(2) by (auto simp: apart_def clear_of_def)
    then have "buf_get k (length bs) (puts ws (buf_put k bs out)) = buf_get k (length bs) (buf_put k bs out)"
      using Cons.prems(1) len w by (intro get_puts_clear) simp
    also have "\<dots> = bs" using Cons.prems(1) w by (intro buf_get_put_same) (simp_all add: fits_def)
    finally show ?thesis by (simp add: w)
  qed
qed simp

lemma u32_puts_clear:
  "\<forall>w\<in>set ws. fits (length out) w \<and> clear_of k 4 w \<Longrightarrow> buf_u32 k (puts ws out) = buf_u32 k out"
  by (simp add: buf_u32_def get_puts_clear)

lemma u64_puts_clear:
  "\<forall>w\<in>set ws. fits (length out) w \<and> clear_of k 8 w \<Longrightarrow> buf_u64 k (puts ws out) = buf_u64 k out"
  by (rule buf_u64_get) (simp add: get_puts_clear)

lemma u32_puts_mem:
  "\<forall>w\<in>set ws. fits (length out) w \<Longrightarrow> sorted_wrt apart ws \<Longrightarrow> (k, le_bytes 4 v) \<in> set ws \<Longrightarrow>
   buf_u32 k (puts ws out) = (v :: u32)"
  using get_puts_mem [of ws out k "le_bytes 4 v"] by (simp add: buf_u32_def u32_le_bytes)

lemma u64_puts_mem:
  "\<forall>w\<in>set ws. fits (length out) w \<Longrightarrow> sorted_wrt apart ws \<Longrightarrow> (k, le_bytes 8 v) \<in> set ws \<Longrightarrow>
   buf_u64 k (puts ws out) = (v :: u64)"
  using get_puts_mem [of ws out k "le_bytes 8 v"] by (intro buf_u64_le_bytes) simp

lemma w_puts:
  "k + 4 \<le> length out \<Longrightarrow> w_u32 out k v = Some (puts [(k, le_bytes 4 v)] out)"
  "k + 8 \<le> length out \<Longrightarrow> w_u64 out k x = Some (puts [(k, le_bytes 8 x)] out)"
  by (simp_all add: w_u32_def w_u64_def)

subsection \<open>The table of load commands\<close>

text \<open>The offset, the command and the size of each load command from \<open>off\<close> on.\<close>

type_synonym lc = "nat \<times> u32 \<times> nat"

fun lc_list :: "u8 list \<Rightarrow> nat \<Rightarrow> nat \<Rightarrow> lc list" where
  "lc_list buf 0 off = []"
| "lc_list buf (Suc n) off =
     (off, buf_u32 off buf, unat (buf_u32 (off + 4) buf)) # lc_list buf n (off + unat (buf_u32 (off + 4) buf))"

definition lcs :: "u8 list \<Rightarrow> lc list" where "lcs buf = lc_list buf (unat (buf_u32 16 buf)) 32"

definition in_cmd :: "lc \<Rightarrow> patch \<Rightarrow> bool" where
  "in_cmd e w \<longleftrightarrow> (case e of (at_off, c, sz) \<Rightarrow> at_off + 8 \<le> fst w \<and> fst w + length (snd w) \<le> at_off + sz)"

lemma lc_list_from: "e \<in> set (lc_list buf n off) \<Longrightarrow> off \<le> fst e"
proof (induction n arbitrary: off)
  case (Suc n)
  have "off \<le> fst e" if "e \<in> set (lc_list buf n (off + unat (buf_u32 (off + 4) buf)))"
    using Suc.IH [OF that] by linarith
  then show ?case using Suc.prems by auto
qed simp

lemma lc_list_same: "(\<And>k. off \<le> k \<Longrightarrow> buf_u32 k a = buf_u32 k b) \<Longrightarrow> lc_list a n off = lc_list b n off"
  by (induction n arbitrary: off) simp_all

lemma lc_list_cong:
  "(\<And>k. off \<le> k \<Longrightarrow> k + 4 \<le> e \<Longrightarrow> buf_u32 k a = buf_u32 k b) \<Longrightarrow>
   \<forall>(k, c, sz)\<in>set (lc_list b n off). k + 8 \<le> e \<Longrightarrow> lc_list a n off = lc_list b n off"
proof (induction n arbitrary: off)
  case (Suc n)
  have "buf_u32 off a = buf_u32 off b" "buf_u32 (off + 4) a = buf_u32 (off + 4) b"
    using Suc.prems(2) by (auto intro!: Suc.prems(1))
  then show ?case using Suc by auto
qed simp

text \<open>Two entries either are the same or lie apart.\<close>

lemma lc_list_apart:
  "(k, c, sz) \<in> set (lc_list buf n off) \<Longrightarrow> (k', c', sz') \<in> set (lc_list buf n off) \<Longrightarrow> k < k' \<Longrightarrow> k + sz \<le> k'"
proof (induction n arbitrary: off)
  case (Suc n)
  let ?o = "off + unat (buf_u32 (off + 4) buf)"
  show ?case
  proof (cases "(k, c, sz) \<in> set (lc_list buf n ?o)")
    case True
    then have "(k', c', sz') \<noteq> (off, buf_u32 off buf, unat (buf_u32 (off + 4) buf))"
      using lc_list_from [OF True] Suc.prems(3) by auto
    then show ?thesis using Suc.IH [OF True] Suc.prems(2,3) by auto
  next
    case False
    then have "k = off" "sz = unat (buf_u32 (off + 4) buf)" using Suc.prems(1) by auto
    moreover have "(k', c', sz') \<in> set (lc_list buf n ?o)" using Suc.prems(2,3) calculation by auto
    ultimately show ?thesis using lc_list_from by fastforce
  qed
qed simp

lemma lc_list_before:
  "\<forall>w\<in>set ws. fits (length out) w \<and> fst w + length (snd w) \<le> off \<Longrightarrow> lc_list (puts ws out) n off = lc_list out n off"
  by (rule lc_list_same, rule u32_puts_clear) (auto simp: clear_of_def)

lemma lc_list_put:
  "\<forall>(k, c, sz)\<in>set (lc_list out n off). 8 \<le> sz \<Longrightarrow> e \<in> set (lc_list out n off) \<Longrightarrow> in_cmd e w \<Longrightarrow> fits (length out) w \<Longrightarrow>
   lc_list (puts [w] out) n off = lc_list out n off"
proof (induction n arbitrary: off)
  case (Suc n)
  let ?o = "off + unat (buf_u32 (off + 4) out)"
  have off: "off + 8 \<le> fst w"
  proof (cases "e \<in> set (lc_list out n ?o)")
    case True
    then have "?o \<le> fst e" by (rule lc_list_from)
    then show ?thesis using Suc.prems(1,3) by (cases e) (simp add: in_cmd_def)
  next
    case False
    then show ?thesis using Suc.prems(2,3) by (simp add: in_cmd_def)
  qed
  have hd: "buf_u32 off (puts [w] out) = buf_u32 off out" "buf_u32 (off + 4) (puts [w] out) = buf_u32 (off + 4) out"
    using off Suc.prems(4) by (auto intro!: u32_puts_clear simp: clear_of_def simp del: puts_simps)
  have "lc_list (puts [w] out) n ?o = lc_list out n ?o"
  proof (cases "e \<in> set (lc_list out n ?o)")
    case True
    then show ?thesis using Suc.IH Suc.prems by simp
  next
    case False
    then have "in_cmd (off, buf_u32 off out, unat (buf_u32 (off + 4) out)) w" using Suc.prems(2,3) by simp
    then show ?thesis using Suc.prems(4) by (intro lc_list_before) (simp add: in_cmd_def)
  qed
  then show ?case unfolding lc_list.simps hd by simp
qed simp

lemma lc_list_puts:
  "\<forall>(k, c, sz)\<in>set (lc_list out n off). 8 \<le> sz \<Longrightarrow>
   \<forall>w\<in>set ws. fits (length out) w \<and> (\<exists>e\<in>set (lc_list out n off). in_cmd e w) \<Longrightarrow>
   lc_list (puts ws out) n off = lc_list out n off"
proof (induction ws arbitrary: out)
  case (Cons w ws)
  obtain e where e: "e \<in> set (lc_list out n off)" "in_cmd e w" "fits (length out) w" using Cons.prems(2) by auto
  have hd: "lc_list (puts [w] out) n off = lc_list out n off" by (rule lc_list_put [OF Cons.prems(1) e])
  have "length (puts [w] out) = length out" using e(3) by (intro length_puts) simp
  then have "lc_list (puts ws (puts [w] out)) n off = lc_list (puts [w] out) n off"
    using Cons.prems hd by (intro Cons.IH) auto
  then show ?case using hd by simp
qed simp

subsection \<open>The rewriting as patches\<close>

text \<open>The fields of a command that hold an offset into \<open>__LINKEDIT\<close>, and the least size of a command.\<close>

definition link_fields :: "u32 \<Rightarrow> nat list" where
  "link_fields c =
     (if c = LC_SYMTAB then [8, 16]
      else if c = LC_DYSYMTAB then [32, 40, 48, 56, 64, 72]
      else if c = LC_DYLD_INFO_ONLY then [8, 16, 24, 32, 40]
      else if c \<in> {LC_FUNCTION_STARTS, LC_DATA_IN_CODE, LC_DYLD_EXPORTS_TRIE, LC_DYLD_CHAINED_FIXUPS} then [8]
      else [])"

definition lc_least :: "u32 \<Rightarrow> nat" where
  "lc_least c =
     (if c = LC_SEGMENT_64 then 72 else if c = LC_SYMTAB then 24 else if c = LC_DYSYMTAB then 80
      else if c = LC_DYLD_INFO_ONLY then 48 else if c = LC_MAIN then 24
      else if c \<in> {LC_FUNCTION_STARTS, LC_DATA_IN_CODE, LC_DYLD_EXPORTS_TRIE, LC_DYLD_CHAINED_FIXUPS, LC_CODE_SIGNATURE}
      then 16 else 8)"

definition cmd_patches :: "bool \<Rightarrow> u64 \<Rightarrow> u8 list \<Rightarrow> lc \<Rightarrow> patch list" where
  "cmd_patches in_page2 sh buf e = (case e of (off, c, sz) \<Rightarrow>
     if c = LC_MAIN then (if in_page2 then [(off + 8, le_bytes 8 (buf_u64 (off + 8) buf - SHIFT))] else [])
     else map (\<lambda>f. (off + f, le_bytes 4 (shifted sh (buf_u32 (off + f) buf))))
            (filter (\<lambda>f. c = LC_SYMTAB \<or> buf_u32 (off + f) buf \<noteq> 0) (link_fields c)))"

lemma link_fields_bounds: "f \<in> set (link_fields c) \<Longrightarrow> 8 \<le> f \<and> f + 4 \<le> lc_least c"
  by (auto simp: link_fields_def lc_least_def lc_defs split: if_splits)

lemma link_fields_apart: "sorted_wrt (\<lambda>f g. f + 4 \<le> g) (link_fields c)"
  by (simp add: link_fields_def)

lemma lc_least_ge_8: "8 \<le> lc_least c" by (simp add: lc_least_def)

lemma lc_least_MAIN: "lc_least LC_MAIN = 24"
  by (simp add: lc_least_def lc_defs)

lemma cmd_patches_in: "lc_least c \<le> sz \<Longrightarrow> w \<in> set (cmd_patches in2 sh buf (off, c, sz)) \<Longrightarrow> in_cmd (off, c, sz) w"
  by (auto simp: cmd_patches_def in_cmd_def lc_least_MAIN split: if_splits dest!: link_fields_bounds)

lemma cmd_patches_apart: "sorted_wrt apart (cmd_patches in2 sh buf (off, c, sz))"
proof -
  have "sorted_wrt (\<lambda>f g. f + 4 \<le> g) (filter P (link_fields c))" for P
    by (rule sorted_wrt_filter [OF link_fields_apart])
  then show ?thesis
    by (auto simp: cmd_patches_def sorted_wrt_map apart_def clear_of_def intro: sorted_wrt_mono_rel [rotated])
qed

lemma cmd_patches_cong:
  "(\<And>k. off + 8 \<le> k \<Longrightarrow> k + 4 \<le> off + sz \<Longrightarrow> buf_u32 k a = buf_u32 k b) \<Longrightarrow> lc_least c \<le> sz \<Longrightarrow>
   cmd_patches in2 sh a (off, c, sz) = cmd_patches in2 sh b (off, c, sz)"
proof -
  assume same: "\<And>k. off + 8 \<le> k \<Longrightarrow> k + 4 \<le> off + sz \<Longrightarrow> buf_u32 k a = buf_u32 k b" and sz: "lc_least c \<le> sz"
  have "buf_u32 (off + f) a = buf_u32 (off + f) b" if "f \<in> set (link_fields c)" for f
    using link_fields_bounds [OF that] sz by (intro same) auto
  then have "filter (\<lambda>f. c = LC_SYMTAB \<or> buf_u32 (off + f) a \<noteq> 0) (link_fields c) =
      filter (\<lambda>f. c = LC_SYMTAB \<or> buf_u32 (off + f) b \<noteq> 0) (link_fields c)"
    "\<forall>f\<in>set (link_fields c). buf_u32 (off + f) a = buf_u32 (off + f) b"
    by (auto intro: filter_cong)
  moreover have "buf_u64 (off + 8) a = buf_u64 (off + 8) b" if "c = LC_MAIN"
    using sz that same [of "off + 8"] same [of "off + 8 + 4"] by (simp add: buf_u64_def lc_least_def lc_defs)
  ultimately show ?thesis by (simp add: cmd_patches_def)
qed

lemma shift_fields_patches:
  "sorted_wrt (\<lambda>f g. f + 4 \<le> g) fs \<Longrightarrow> \<forall>f\<in>set fs. off + f + 4 \<le> length out \<Longrightarrow>
   shift_fields sh off fs out =
     Some (puts (map (\<lambda>f. (off + f, le_bytes 4 (shifted sh (buf_u32 (off + f) out))))
                   (filter (\<lambda>f. buf_u32 (off + f) out \<noteq> 0) fs)) out)"
proof (induction fs arbitrary: out)
  case (Cons f fs)
  let ?w = "(off + f, le_bytes 4 (shifted sh (buf_u32 (off + f) out)))"
  show ?case
  proof (cases "buf_u32 (off + f) out = 0")
    case True
    then show ?thesis using Cons by (simp add: r_u32_def)
  next
    case False
    have same: "buf_u32 (off + g) (puts [?w] out) = buf_u32 (off + g) out" if "g \<in> set fs" for g
      using Cons.prems that by (intro u32_puts_clear) (auto simp: clear_of_def fits_def)
    have "length (puts [?w] out) = length out" using Cons.prems by (intro length_puts) (simp add: fits_def)
    then have "shift_fields sh off fs (puts [?w] out) =
        Some (puts (map (\<lambda>f. (off + f, le_bytes 4 (shifted sh (buf_u32 (off + f) (puts [?w] out)))))
                   (filter (\<lambda>f. buf_u32 (off + f) (puts [?w] out) \<noteq> 0) fs)) (puts [?w] out))"
      using Cons.prems by (intro Cons.IH) simp_all
    also have "filter (\<lambda>f. buf_u32 (off + f) (puts [?w] out) \<noteq> 0) fs = filter (\<lambda>f. buf_u32 (off + f) out \<noteq> 0) fs"
      by (rule filter_cong) (simp_all only: same)
    also have "map (\<lambda>f. (off + f, le_bytes 4 (shifted sh (buf_u32 (off + f) (puts [?w] out)))))
        (filter (\<lambda>f. buf_u32 (off + f) out \<noteq> 0) fs) =
      map (\<lambda>f. (off + f, le_bytes 4 (shifted sh (buf_u32 (off + f) out)))) (filter (\<lambda>f. buf_u32 (off + f) out \<noteq> 0) fs)"
      by (rule map_cong) (simp_all only: same set_filter mem_Collect_eq)
    finally show ?thesis using False Cons.prems by (simp add: r_u32_def w_puts)
  qed
qed simp

lemma rewrite_command_patches:
  assumes sz: "lc_least c \<le> sz" "off + sz \<le> length out"
  shows "rewrite_command in2 sh c off out = Some (puts (cmd_patches in2 sh out (off, c, sz)) out)"
proof -
  have fs: "\<forall>f\<in>set (link_fields c). off + f + 4 \<le> length out" using link_fields_bounds [of _ c] sz by fastforce
  consider (symtab) "c = LC_SYMTAB" | (entry) "c = LC_MAIN" | (fields) "c \<noteq> LC_SYMTAB" "c \<noteq> LC_MAIN" by blast
  then show ?thesis
  proof cases
    case symtab
    have "buf_u32 (off + 16) (puts [(off + 8, le_bytes 4 v)] out) = buf_u32 (off + 16) out" for v :: u32
      using sz symtab by (intro u32_puts_clear) (simp add: clear_of_def fits_def lc_least_def lc_defs)
    then show ?thesis
      using symtab sz by (simp add: rewrite_command_def cmd_patches_def link_fields_def lc_least_def r_u32_def w_u32_def lc_defs)
  next
    case entry
    then show ?thesis
      using sz by (simp add: rewrite_command_def cmd_patches_def lc_least_MAIN r_u64_def w_u64_def)
        (simp add: lc_defs)
  next
    case fields
    then have "rewrite_command in2 sh c off out = shift_fields sh off (link_fields c) out"
      by (simp add: rewrite_command_def link_fields_def)
    also have "\<dots> = Some (puts (cmd_patches in2 sh out (off, c, sz)) out)"
      using fields by (simp add: shift_fields_patches [OF link_fields_apart fs] cmd_patches_def)
    finally show ?thesis .
  qed
qed

lemma rewrite_loop_patches:
  "\<forall>(k, c, sz)\<in>set (lc_list out n off). lc_least c \<le> sz \<and> k + sz \<le> length out \<Longrightarrow>
   rewrite_loop in2 sh n off out = Some (puts (concat (map (cmd_patches in2 sh out) (lc_list out n off))) out)"
proof (induction n arbitrary: off out)
  case (Suc n)
  let ?c = "buf_u32 off out" and ?sz = "unat (buf_u32 (off + 4) out)"
  let ?ws = "cmd_patches in2 sh out (off, ?c, ?sz)" and ?rest = "lc_list out n (off + ?sz)"
  let ?out1 = "puts ?ws out"
  have sz: "lc_least ?c \<le> ?sz" "off + ?sz \<le> length out" using Suc.prems by auto
  have bounds: "off + 8 \<le> length out" using sz lc_least_ge_8 [of ?c] by simp
  have ws: "\<forall>w\<in>set ?ws. fits (length out) w \<and> fst w + length (snd w) \<le> off + ?sz"
    using cmd_patches_in [OF sz(1)] sz(2) by (fastforce simp: in_cmd_def fits_def)
  have len: "length ?out1 = length out" using ws by simp
  have rest: "lc_list ?out1 n (off + ?sz) = ?rest" by (rule lc_list_before [OF ws])
  have same: "cmd_patches in2 sh ?out1 e = cmd_patches in2 sh out e" if e: "e \<in> set ?rest" for e
  proof -
    obtain k c sz' where e': "e = (k, c, sz')" by (cases e)
    have "lc_least c \<le> sz'" using Suc.prems e e' by auto
    moreover have "off + ?sz \<le> k" using lc_list_from [OF e] e' by simp
    then have "buf_u32 j ?out1 = buf_u32 j out" if "k + 8 \<le> j" for j
      using ws that by (intro u32_puts_clear) (auto simp: clear_of_def)
    ultimately show ?thesis unfolding e' by (intro cmd_patches_cong) simp_all
  qed
  have "rewrite_loop in2 sh n (off + ?sz) ?out1 =
      Some (puts (concat (map (cmd_patches in2 sh ?out1) (lc_list ?out1 n (off + ?sz)))) ?out1)"
    using Suc.prems len by (intro Suc.IH) (auto simp: rest)
  also have "map (cmd_patches in2 sh ?out1) (lc_list ?out1 n (off + ?sz)) = map (cmd_patches in2 sh out) ?rest"
    unfolding rest by (rule map_cong) (simp_all add: same)
  finally show ?case using bounds rewrite_command_patches [OF sz] by (simp add: r_u32_def)
qed simp


subsection \<open>What the packer finds in the input\<close>

lemma lc_list_entry: "(k, c, sz) \<in> set (lc_list buf n off) \<Longrightarrow> c = buf_u32 k buf \<and> sz = unat (buf_u32 (k + 4) buf)"
  by (induction n arbitrary: off) auto

lemma lcs_apart:
  assumes "e \<in> set (lcs buf)" "e' \<in> set (lcs buf)" "fst e \<noteq> fst e'" "in_cmd e' w" "fst e \<le> j" "j + n \<le> fst e + snd (snd e)"
  shows "clear_of j n w"
proof -
  obtain k c sz k' c' sz' where e: "e = (k, c, sz)" "e' = (k', c', sz')" by (cases e, cases e')
  have "k + sz \<le> k' \<or> k' + sz' \<le> k"
    using assms(1-3) lc_list_apart [of k c sz buf _ _ k' c' sz'] lc_list_apart [of k' c' sz' buf _ _ k c sz]
    unfolding lcs_def e by (cases "k < k'") auto
  then show ?thesis using assms(4-6) unfolding e by (auto simp: in_cmd_def clear_of_def)
qed

lemma patches_apart:
  assumes "e \<in> set (lcs buf)" "e' \<in> set (lcs buf)" "fst e \<noteq> fst e'" "in_cmd e w" "in_cmd e' v"
  shows "apart w v" "apart v w"
proof -
  obtain k c sz where e: "e = (k, c, sz)" by (cases e)
  have "clear_of (fst w) (length (snd w)) v"
    using assms(4) by (intro lcs_apart [OF assms(1-3,5)]) (auto simp: e in_cmd_def)
  then show "apart w v" "apart v w" by (auto simp: apart_def clear_of_def)
qed

lemma read_segment_fields:
  assumes "read_segment buf k = Some s"
  shows "sg_lc_off s = k" "sg_name s = buf_get (k + 8) 16 buf" "sg_vmaddr s = buf_u64 (k + 24) buf"
    "sg_vmsize s = buf_u64 (k + 32) buf" "sg_fileoff s = buf_u64 (k + 40) buf" "sg_filesize s = buf_u64 (k + 48) buf"
    "sg_nsects s = buf_u32 (k + 64) buf" "sg_sect_offs s = map (\<lambda>i. k + 72 + i * 80) [0..<unat (buf_u32 (k + 64) buf)]"
  using assms by (auto simp: read_segment_def bind_eq_Some_conv r_u32_def r_u64_def subslice_def split: if_splits)

lemma parse_loop_entry:
  "parse_loop buf lc_end n off = Some segs \<Longrightarrow> s \<in> set segs \<Longrightarrow>
   \<exists>sz. (sg_lc_off s, LC_SEGMENT_64, sz) \<in> set (lc_list buf n off) \<and> read_segment buf (sg_lc_off s) = Some s"
proof (induction n arbitrary: off segs)
  case (Suc n)
  show ?case
  proof (cases "off + 8 > lc_end")
    case True
    then show ?thesis using Suc.prems by simp
  next
    case False
    then obtain cs rest where segs: "segs = cs @ rest" "r_u32 buf off \<noteq> None" "r_u32 buf (off + 4) \<noteq> None"
      and rest: "parse_loop buf lc_end n (off + unat (buf_u32 (off + 4) buf)) = Some rest"
      and cs: "(if buf_u32 off buf = LC_SEGMENT_64 then map_option (\<lambda>s. [s]) (read_segment buf off) else Some []) = Some cs"
      using Suc.prems(1) by (auto simp: bind_eq_Some_conv r_u32_def split: if_splits)
    show ?thesis
    proof (cases "s \<in> set cs")
      case True
      then have "buf_u32 off buf = LC_SEGMENT_64" "read_segment buf off = Some s" using cs by (auto split: if_splits)
      then show ?thesis using read_segment_fields(1) [of buf off s] by auto
    next
      case False
      then show ?thesis using Suc.IH [OF rest] Suc.prems(2) segs(1) by auto
    qed
  qed
qed simp

lemma find_codesig_entry:
  "find_codesig buf n off = Some (k, d) \<Longrightarrow>
   d = ucast (buf_u32 (k + 8) buf) \<and> (\<exists>sz. (k, LC_CODE_SIGNATURE, sz) \<in> set (lc_list buf n off))"
proof (induction n arbitrary: off)
  case (Suc n)
  show ?case
  proof (cases "buf_u32 off buf = LC_CODE_SIGNATURE")
    case True
    then show ?thesis using Suc.prems by (auto simp: bind_eq_Some_conv r_u32_def split: if_splits)
  next
    case False
    then have "find_codesig buf n (off + unat (buf_u32 (off + 4) buf)) = Some (k, d)"
      using Suc.prems by (auto simp: bind_eq_Some_conv r_u32_def split: if_splits)
    then show ?thesis using Suc.IH by auto
  qed
qed simp

lemma decide_Repack:
  assumes "decide buf = Some (Repack p)"
  shows "\<exists>segs. parse_segments buf = Some segs \<and> segment_named segs TEXT_NAME = Some (pl_text p) \<and>
      segment_named segs DATA_NAME = Some (pl_data p) \<and> segment_named segs LINKEDIT_NAME = Some (pl_le p)"
    "sg_vmsize (pl_text p) = 2 * PAGE" "sg_filesize (pl_text p) = 2 * PAGE" "sg_nsects (pl_text p) = 2"
    "read_section buf (sg_sect_offs (pl_text p) ! 0) = Some (pl_text_sect p)"
    "read_section buf (sg_sect_offs (pl_text p) ! 1) = Some (pl_const_sect p)"
    "pl_in_page2 p \<longleftrightarrow> ucast (sr_offset (pl_text_sect p)) \<ge> SHIFT"
    "pl_header p = 32 + ucast (buf_u32 20 buf)" "pl_header p \<le> new_text_off p" "text_content_end p \<le> PAGE"
    "find_codesig buf (unat (buf_u32 16 buf)) 32 = Some (pl_codesig p, pl_codesig_dataoff p)"
  using assms
  by (auto simp: decide_def bind_eq_Some_conv Let_def r_u32_def new_text_off_def new_const_off_def text_content_end_def
      split: if_splits)


text \<open>
  A well-formed input: the load commands have their least sizes and end where the header says; \<open>__const\<close> comes
  after \<open>__text\<close>, both inside the file; the signature starts inside \<open>__LINKEDIT\<close>; and the file is under 1 GB.
\<close>

definition commands_end :: "u8 list \<Rightarrow> nat" where "commands_end buf = 32 + unat (buf_u32 20 buf)"

definition commands_ok :: "u8 list \<Rightarrow> bool" where
  "commands_ok buf \<longleftrightarrow> commands_end buf \<le> length buf \<and>
     list_all (\<lambda>(k, c, sz). lc_least c \<le> sz \<and> k + sz \<le> commands_end buf \<and>
       (c = LC_SEGMENT_64 \<longrightarrow> 72 + 80 * unat (buf_u32 (k + 64) buf) \<le> sz)) (lcs buf)"

definition contents_ok :: "u8 list \<Rightarrow> plan \<Rightarrow> bool" where
  "contents_ok buf p \<longleftrightarrow>
     unat (sr_offset (pl_text_sect p)) + unat (sr_size (pl_text_sect p)) \<le> unat (sr_offset (pl_const_sect p)) \<and>
     unat (sr_offset (pl_const_sect p)) + unat (sr_size (pl_const_sect p)) \<le> length buf \<and>
     unat (sg_fileoff (pl_le p)) \<le> unat (pl_codesig_dataoff p) \<and> unat (pl_codesig_dataoff p) \<le> length buf \<and>
     length buf < 2 ^ 30 \<and> unat (sg_filesize (pl_data p)) < 2 ^ 30"

definition packable :: "u8 list \<Rightarrow> plan \<Rightarrow> bool" where
  "packable buf p \<longleftrightarrow> decide buf = Some (Repack p) \<and> commands_ok buf \<and> contents_ok buf p"

lemma lcs_ok:
  assumes "commands_ok buf" "(k, c, sz) \<in> set (lcs buf)"
  shows "lc_least c \<le> sz" "8 \<le> sz" "k + sz \<le> commands_end buf" "32 \<le> k"
    "c = buf_u32 k buf" "sz = unat (buf_u32 (k + 4) buf)"
    "c = LC_SEGMENT_64 \<Longrightarrow> 72 + 80 * unat (buf_u32 (k + 64) buf) \<le> sz"
  using assms lc_least_ge_8 [of c] lc_list_entry [of k c sz] lc_list_from [of "(k, c, sz)"]
  by (auto simp: commands_ok_def list_all_iff lcs_def)

lemma segment_entry:
  assumes ok: "commands_ok buf" and segs: "parse_segments buf = Some segs" "segment_named segs name = Some s"
  shows "\<exists>sz. (sg_lc_off s, LC_SEGMENT_64, sz) \<in> set (lcs buf) \<and> 72 + 80 * unat (sg_nsects s) \<le> sz \<and>
    sg_lc_off s + sz \<le> commands_end buf" "read_segment buf (sg_lc_off s) = Some s" "seg_is name s"
    "sg_sect_offs s = map (\<lambda>i. sg_lc_off s + 72 + i * 80) [0..<unat (sg_nsects s)]"
proof -
  have s: "s \<in> set segs" and nm: "seg_is name s"
    using segs(2) by (auto simp: segment_named_def find_Some_iff)
  show "seg_is name s" by (rule nm)
  obtain lc_end where "parse_loop buf lc_end (unat (buf_u32 16 buf)) 32 = Some segs"
    using segs(1) by (auto simp: parse_segments_def bind_eq_Some_conv r_u32_def split: if_splits)
  then obtain sz where e: "(sg_lc_off s, LC_SEGMENT_64, sz) \<in> set (lcs buf)" and r: "read_segment buf (sg_lc_off s) = Some s"
    using parse_loop_entry [OF _ s] unfolding lcs_def by blast
  show "read_segment buf (sg_lc_off s) = Some s" by (rule r)
  show "\<exists>sz. (sg_lc_off s, LC_SEGMENT_64, sz) \<in> set (lcs buf) \<and> 72 + 80 * unat (sg_nsects s) \<le> sz \<and>
      sg_lc_off s + sz \<le> commands_end buf"
    using e lcs_ok [OF ok e] read_segment_fields(7) [OF r] by auto
  show "sg_sect_offs s = map (\<lambda>i. sg_lc_off s + 72 + i * 80) [0..<unat (sg_nsects s)]"
    using read_segment_fields(7,8) [OF r] by simp
qed

subsection \<open>The patches of a packed program\<close>

definition text_patches :: "plan \<Rightarrow> patch list" where
  "text_patches p = (let s = pl_text p in
     [(sg_lc_off s + 32, le_bytes 8 PAGE), (sg_lc_off s + 48, le_bytes 8 (text_content_end p)),
      (sg_sect_offs s ! 0 + 32, le_bytes 8 (sg_vmaddr s + new_text_off p)),
      (sg_sect_offs s ! 0 + 48, le_bytes 4 (ucast (new_text_off p) :: u32)),
      (sg_sect_offs s ! 1 + 32, le_bytes 8 (sg_vmaddr s + new_const_off p)),
      (sg_sect_offs s ! 1 + 48, le_bytes 4 (ucast (new_const_off p) :: u32))])"

definition sec_patches :: "u8 list \<Rightarrow> nat \<Rightarrow> patch list" where
  "sec_patches buf so = [(so + 32, le_bytes 8 (buf_u64 (so + 32) buf - SHIFT)), (so + 48, le_bytes 4 (buf_u32 (so + 48) buf))]"

definition data_patches :: "u8 list \<Rightarrow> plan \<Rightarrow> patch list" where
  "data_patches buf p = (let s = pl_data p in
     [(sg_lc_off s + 24, le_bytes 8 (sg_vmaddr s - SHIFT)), (sg_lc_off s + 40, le_bytes 8 PAGE)] @
     concat (map (sec_patches buf) (sg_sect_offs s)))"

definition le_patches :: "plan \<Rightarrow> patch list" where
  "le_patches p = (let s = pl_le p in
     [(sg_lc_off s + 24, le_bytes 8 (sg_vmaddr s - SHIFT)), (sg_lc_off s + 40, le_bytes 8 (new_le_fileoff p))])"

definition link_patches :: "u8 list \<Rightarrow> plan \<Rightarrow> patch list" where
  "link_patches buf p = concat (map (cmd_patches (pl_in_page2 p) (le_shift p) buf) (lcs buf))"

definition sig_patches :: "plan \<Rightarrow> u8 list \<Rightarrow> patch list" where
  "sig_patches p idn =
     [(pl_codesig p + 8, le_bytes 4 (ucast (code_limit p) :: u32)),
      (pl_codesig p + 12, le_bytes 4 (of_nat (sig_size (code_limit p) idn) :: u32)),
      (sg_lc_off (pl_le p) + 48,
       le_bytes 8 (code_limit p - new_le_fileoff p + of_nat (sig_size (code_limit p) idn)))]"

definition all_patches :: "u8 list \<Rightarrow> plan \<Rightarrow> u8 list \<Rightarrow> patch list" where
  "all_patches buf p idn = text_patches p @ data_patches buf p @ le_patches p @ link_patches buf p @ sig_patches p idn"

lemma rewrite_text_patches:
  "sg_lc_off (pl_text p) + 56 \<le> length out \<Longrightarrow> sg_sect_offs (pl_text p) ! 0 + 80 \<le> length out \<Longrightarrow>
   sg_sect_offs (pl_text p) ! 1 + 80 \<le> length out \<Longrightarrow> rewrite_text p out = Some (puts (text_patches p) out)"
  by (simp add: rewrite_text_def text_patches_def Let_def write_section_def w_u64_def w_u32_def)

lemma move_sections_patches:
  "\<forall>so\<in>set sos. so + 80 \<le> length out \<and> so + 80 \<le> length buf \<Longrightarrow>
   move_sections buf sos out = Some (puts (concat (map (sec_patches buf) sos)) out)"
  by (induction sos arbitrary: out)
    (simp_all add: sec_patches_def read_section_def write_section_def w_u64_def w_u32_def r_u64_def r_u32_def)

lemma rewrite_data_patches:
  "sg_lc_off (pl_data p) + 56 \<le> length out \<Longrightarrow>
   \<forall>so\<in>set (sg_sect_offs (pl_data p)). so + 80 \<le> length out \<and> so + 80 \<le> length buf \<Longrightarrow>
   rewrite_data buf p out = Some (puts (data_patches buf p) out)"
  by (simp add: rewrite_data_def data_patches_def Let_def w_u64_def move_sections_patches)

lemma rewrite_linkedit_patches:
  "sg_lc_off (pl_le p) + 56 \<le> length out \<Longrightarrow> rewrite_linkedit p out = Some (puts (le_patches p) out)"
  by (simp add: rewrite_linkedit_def le_patches_def Let_def w_u64_def)

lemma rewrite_signature_patches:
  "sg_lc_off (pl_le p) + 56 \<le> length out \<Longrightarrow> pl_codesig p + 16 \<le> length out \<Longrightarrow>
   rewrite_signature p idn out = Some (puts (sig_patches p idn) out)"
  by (simp add: rewrite_signature_def sig_patches_def Let_def w_u64_def w_u32_def)


text \<open>Each patch lies inside one load command, which owns it.\<close>

definition owned :: "u8 list \<Rightarrow> nat \<Rightarrow> patch \<Rightarrow> bool" where
  "owned buf k w \<longleftrightarrow> (\<exists>c sz. (k, c, sz) \<in> set (lcs buf) \<and> in_cmd (k, c, sz) w)"

lemma owned_apart: "owned buf k w \<Longrightarrow> owned buf k' v \<Longrightarrow> k \<noteq> k' \<Longrightarrow> apart w v"
proof -
  assume "owned buf k w" "owned buf k' v" and ne: "k \<noteq> k'"
  then obtain c sz c' sz' where "(k, c, sz) \<in> set (lcs buf)" "(k', c', sz') \<in> set (lcs buf)"
    "in_cmd (k, c, sz) w" "in_cmd (k', c', sz') v"
    unfolding owned_def by blast
  then show ?thesis using ne by (intro patches_apart(1)) simp_all
qed

lemma owned_clear:
  "owned buf k' w \<Longrightarrow> (k, c, sz) \<in> set (lcs buf) \<Longrightarrow> k \<noteq> k' \<Longrightarrow> k \<le> j \<Longrightarrow> j + n \<le> k + sz \<Longrightarrow> clear_of j n w"
proof -
  assume "owned buf k' w" and e: "(k, c, sz) \<in> set (lcs buf)" "k \<noteq> k'" "k \<le> j" "j + n \<le> k + sz"
  then obtain c' sz' where "(k', c', sz') \<in> set (lcs buf)" "in_cmd (k', c', sz') w" unfolding owned_def by blast
  then show ?thesis using e by (intro lcs_apart [of "(k, c, sz)" buf "(k', c', sz')"]) simp_all
qed

lemma owned_fits: "commands_ok buf \<Longrightarrow> owned buf k w \<Longrightarrow> fits (commands_end buf) w \<and> 40 \<le> fst w"
proof -
  assume ok: "commands_ok buf" and "owned buf k w"
  then obtain c sz where e: "(k, c, sz) \<in> set (lcs buf)" "in_cmd (k, c, sz) w" unfolding owned_def by blast
  then show ?thesis using lcs_ok(3,4) [OF ok e(1)] by (auto simp: in_cmd_def fits_def)
qed

lemma packable_segment:
  assumes "packable buf p" "s \<in> {pl_text p, pl_data p, pl_le p}"
  shows "\<exists>sz. (sg_lc_off s, LC_SEGMENT_64, sz) \<in> set (lcs buf) \<and> 72 + 80 * unat (sg_nsects s) \<le> sz \<and>
      sg_lc_off s + sz \<le> commands_end buf" (is ?entry)
    "read_segment buf (sg_lc_off s) = Some s" (is ?rd)
    "sg_sect_offs s = map (\<lambda>i. sg_lc_off s + 72 + i * 80) [0..<unat (sg_nsects s)]" (is ?sects)
proof -
  have ok: "commands_ok buf" and d: "decide buf = Some (Repack p)" using assms(1) by (auto simp: packable_def)
  obtain segs where segs: "parse_segments buf = Some segs" "segment_named segs TEXT_NAME = Some (pl_text p)"
    "segment_named segs DATA_NAME = Some (pl_data p)" "segment_named segs LINKEDIT_NAME = Some (pl_le p)"
    using decide_Repack(1) [OF d] by blast
  note e = segment_entry [OF ok segs(1)]
  from assms(2) consider "s = pl_text p" | "s = pl_data p" | "s = pl_le p" by blast
  then have "?entry \<and> ?rd \<and> ?sects"
    using e(1,2,4) [OF segs(2)] e(1,2,4) [OF segs(3)] e(1,2,4) [OF segs(4)] by cases simp_all
  then show ?entry ?rd ?sects by blast+
qed

lemma packable_distinct:
  assumes "packable buf p"
  shows "sg_lc_off (pl_text p) \<noteq> sg_lc_off (pl_data p)" "sg_lc_off (pl_text p) \<noteq> sg_lc_off (pl_le p)"
    "sg_lc_off (pl_data p) \<noteq> sg_lc_off (pl_le p)"
proof -
  have ok: "commands_ok buf" and d: "decide buf = Some (Repack p)" using assms(1) by (auto simp: packable_def)
  obtain segs where segs: "parse_segments buf = Some segs" "segment_named segs TEXT_NAME = Some (pl_text p)"
    "segment_named segs DATA_NAME = Some (pl_data p)" "segment_named segs LINKEDIT_NAME = Some (pl_le p)"
    using decide_Repack(1) [OF d] by blast
  note e = segment_entry [OF ok segs(1)]
  have nm: "seg_is TEXT_NAME (pl_text p)" "seg_is DATA_NAME (pl_data p)" "seg_is LINKEDIT_NAME (pl_le p)"
    using e(3) segs by blast+
  have "TEXT_NAME \<noteq> DATA_NAME" "TEXT_NAME \<noteq> LINKEDIT_NAME" "DATA_NAME \<noteq> LINKEDIT_NAME"
    by (simp_all add: TEXT_NAME_def DATA_NAME_def LINKEDIT_NAME_def byte_of_def)
  then have ne: "pl_text p \<noteq> pl_data p" "pl_text p \<noteq> pl_le p" "pl_data p \<noteq> pl_le p" using nm by (auto simp: seg_is_def)
  have rd: "read_segment buf (sg_lc_off (pl_text p)) = Some (pl_text p)"
    "read_segment buf (sg_lc_off (pl_data p)) = Some (pl_data p)" "read_segment buf (sg_lc_off (pl_le p)) = Some (pl_le p)"
    using e(2) segs by blast+
  show "sg_lc_off (pl_text p) \<noteq> sg_lc_off (pl_data p)" "sg_lc_off (pl_text p) \<noteq> sg_lc_off (pl_le p)"
    "sg_lc_off (pl_data p) \<noteq> sg_lc_off (pl_le p)"
    using rd ne by auto
qed

lemma packable_codesig:
  assumes "packable buf p"
  shows "\<exists>sz. (pl_codesig p, LC_CODE_SIGNATURE, sz) \<in> set (lcs buf) \<and> 16 \<le> sz \<and> pl_codesig p + sz \<le> commands_end buf"
    "pl_codesig_dataoff p = ucast (buf_u32 (pl_codesig p + 8) buf)"
proof -
  have ok: "commands_ok buf" and d: "decide buf = Some (Repack p)" using assms(1) by (auto simp: packable_def)
  obtain sz where e: "(pl_codesig p, LC_CODE_SIGNATURE, sz) \<in> set (lcs buf)"
    and off: "pl_codesig_dataoff p = ucast (buf_u32 (pl_codesig p + 8) buf)"
    using find_codesig_entry [OF decide_Repack(11) [OF d]] unfolding lcs_def by blast
  have "lc_least LC_CODE_SIGNATURE = 16" by (simp add: lc_least_def lc_defs)
  then show "\<exists>sz. (pl_codesig p, LC_CODE_SIGNATURE, sz) \<in> set (lcs buf) \<and> 16 \<le> sz \<and> pl_codesig p + sz \<le> commands_end buf"
    using e lcs_ok(1,3) [OF ok e] by auto
  show "pl_codesig_dataoff p = ucast (buf_u32 (pl_codesig p + 8) buf)" by (rule off)
qed

lemma packable_text_sects:
  assumes "packable buf p"
  shows "sg_sect_offs (pl_text p) ! 0 = sg_lc_off (pl_text p) + 72" "sg_sect_offs (pl_text p) ! 1 = sg_lc_off (pl_text p) + 152"
    "sg_nsects (pl_text p) = 2"
proof -
  have n: "sg_nsects (pl_text p) = 2" using assms decide_Repack(4) by (auto simp: packable_def)
  then show "sg_nsects (pl_text p) = 2" .
  show "sg_sect_offs (pl_text p) ! 0 = sg_lc_off (pl_text p) + 72" "sg_sect_offs (pl_text p) ! 1 = sg_lc_off (pl_text p) + 152"
    using packable_segment(3) [OF assms, of "pl_text p"] n by (simp_all add: upt_rec [of _ 2])
qed

lemma seg_not_link: "cmd_patches in2 sh buf (k, LC_SEGMENT_64, sz) = []" "cmd_patches in2 sh buf (k, LC_CODE_SIGNATURE, sz) = []"
  by (simp_all add: cmd_patches_def link_fields_def lc_defs)

lemma patches_owned:
  assumes p: "packable buf p"
  shows "w \<in> set (text_patches p) \<Longrightarrow> owned buf (sg_lc_off (pl_text p)) w"
    "w \<in> set (data_patches buf p) \<Longrightarrow> owned buf (sg_lc_off (pl_data p)) w"
    "w \<in> set (le_patches p) \<Longrightarrow> owned buf (sg_lc_off (pl_le p)) w"
    "w \<in> set (link_patches buf p) \<Longrightarrow> \<exists>k c sz. (k, c, sz) \<in> set (lcs buf) \<and> c \<notin> {LC_SEGMENT_64, LC_CODE_SIGNATURE} \<and>
        w \<in> set (cmd_patches (pl_in_page2 p) (le_shift p) buf (k, c, sz)) \<and> owned buf k w"
    "w \<in> set (sig_patches p idn) \<Longrightarrow> owned buf (pl_codesig p) w \<or>
        owned buf (sg_lc_off (pl_le p)) w \<and> fst w = sg_lc_off (pl_le p) + 48"
proof -
  have ok: "commands_ok buf" using p by (simp add: packable_def)
  note ts = packable_text_sects [OF p]
  show "owned buf (sg_lc_off (pl_text p)) w" if w: "w \<in> set (text_patches p)"
  proof -
    obtain sz where e: "(sg_lc_off (pl_text p), LC_SEGMENT_64, sz) \<in> set (lcs buf)" and sz: "232 \<le> sz"
      using packable_segment(1) [OF p, of "pl_text p"] ts(3) by auto
    have "in_cmd (sg_lc_off (pl_text p), LC_SEGMENT_64, sz) w"
      using w sz by (auto simp: text_patches_def Let_def in_cmd_def ts(1,2) simp del: One_nat_def)
    then show ?thesis using e by (auto simp: owned_def)
  qed
  show "owned buf (sg_lc_off (pl_le p)) w" if w: "w \<in> set (le_patches p)"
  proof -
    obtain sz where e: "(sg_lc_off (pl_le p), LC_SEGMENT_64, sz) \<in> set (lcs buf)" and sz: "72 \<le> sz"
      using packable_segment(1) [OF p, of "pl_le p"] by auto
    have "in_cmd (sg_lc_off (pl_le p), LC_SEGMENT_64, sz) w"
      using w sz by (auto simp: le_patches_def Let_def in_cmd_def)
    then show ?thesis using e by (auto simp: owned_def)
  qed
  show "owned buf (sg_lc_off (pl_data p)) w" if w: "w \<in> set (data_patches buf p)"
  proof -
    obtain sz where e: "(sg_lc_off (pl_data p), LC_SEGMENT_64, sz) \<in> set (lcs buf)"
      and sz: "72 + 80 * unat (sg_nsects (pl_data p)) \<le> sz"
      using packable_segment(1) [OF p, of "pl_data p"] by auto
    have "in_cmd (sg_lc_off (pl_data p), LC_SEGMENT_64, sz) w"
      using w sz by (auto simp: data_patches_def sec_patches_def Let_def in_cmd_def packable_segment(3) [OF p, of "pl_data p"])
    then show ?thesis using e by (auto simp: owned_def)
  qed
  show "owned buf (pl_codesig p) w \<or> owned buf (sg_lc_off (pl_le p)) w \<and> fst w = sg_lc_off (pl_le p) + 48"
    if "w \<in> set (sig_patches p idn)"
  proof -
    obtain sz where l: "(sg_lc_off (pl_le p), LC_SEGMENT_64, sz) \<in> set (lcs buf)" "72 \<le> sz"
      using packable_segment(1) [OF p, of "pl_le p"] by auto
    obtain sz' where c: "(pl_codesig p, LC_CODE_SIGNATURE, sz') \<in> set (lcs buf)" "16 \<le> sz'"
      using packable_codesig(1) [OF p] by blast
    have "in_cmd (pl_codesig p, LC_CODE_SIGNATURE, sz') w \<or>
        in_cmd (sg_lc_off (pl_le p), LC_SEGMENT_64, sz) w \<and> fst w = sg_lc_off (pl_le p) + 48"
      using that l(2) c(2) by (auto simp: sig_patches_def in_cmd_def)
    then show ?thesis using l(1) c(1) unfolding owned_def by blast
  qed
  show "\<exists>k c sz. (k, c, sz) \<in> set (lcs buf) \<and> c \<notin> {LC_SEGMENT_64, LC_CODE_SIGNATURE} \<and>
      w \<in> set (cmd_patches (pl_in_page2 p) (le_shift p) buf (k, c, sz)) \<and> owned buf k w"
    if w: "w \<in> set (link_patches buf p)"
  proof -
    obtain k c sz where e: "(k, c, sz) \<in> set (lcs buf)"
      and w: "w \<in> set (cmd_patches (pl_in_page2 p) (le_shift p) buf (k, c, sz))"
      using w by (auto simp: link_patches_def)
    have "c \<notin> {LC_SEGMENT_64, LC_CODE_SIGNATURE}" using w seg_not_link by auto
    then show ?thesis using e w cmd_patches_in [OF lcs_ok(1) [OF ok e] w] unfolding owned_def by blast
  qed
qed


lemma patches_fit:
  assumes p: "packable buf p" and w: "w \<in> set (all_patches buf p idn)"
  shows "fits (commands_end buf) w" "40 \<le> fst w" "\<exists>e\<in>set (lcs buf). in_cmd e w"
proof -
  have "\<exists>k. owned buf k w"
    using w patches_owned [OF p, of w] unfolding all_patches_def by (auto simp: Un_iff)
  then obtain k where k: "owned buf k w" ..
  then show "\<exists>e\<in>set (lcs buf). in_cmd e w" unfolding owned_def by blast
  have "commands_ok buf" using p by (simp add: packable_def)
  then show "fits (commands_end buf) w" "40 \<le> fst w" using owned_fits k by blast+
qed

text \<open>No two patches touch the same byte.\<close>

lemma sorted_wrt_concat:
  "(\<And>x. x \<in> set xs \<Longrightarrow> sorted_wrt R (f x)) \<Longrightarrow> sorted_wrt (\<lambda>x y. \<forall>a\<in>set (f x). \<forall>b\<in>set (f y). R a b) xs \<Longrightarrow>
   sorted_wrt R (concat (map f xs))"
  by (induction xs) (auto simp: sorted_wrt_append)

lemma data_patches_apart: "packable buf p \<Longrightarrow> sorted_wrt apart (data_patches buf p)"
proof -
  assume p: "packable buf p"
  let ?k = "sg_lc_off (pl_data p)" and ?n = "unat (sg_nsects (pl_data p))"
  have sects: "sg_sect_offs (pl_data p) = map (\<lambda>i. ?k + 72 + i * 80) [0..<?n]"
    by (rule packable_segment(3) [OF p]) simp
  have "sorted_wrt (\<lambda>x y. x + 80 \<le> y) (sg_sect_offs (pl_data p))"
    unfolding sects sorted_wrt_map by (rule sorted_wrt_mono_rel [OF _ sorted_wrt_upt]) auto
  then have "sorted_wrt (\<lambda>x y. \<forall>a\<in>set (sec_patches buf x). \<forall>b\<in>set (sec_patches buf y). apart a b) (sg_sect_offs (pl_data p))"
    by (rule sorted_wrt_mono_rel [rotated]) (auto simp: sec_patches_def apart_def clear_of_def)
  moreover have "sorted_wrt apart (sec_patches buf so)" for so
    by (simp add: sec_patches_def apart_def clear_of_def)
  ultimately have "sorted_wrt apart (concat (map (sec_patches buf) (sg_sect_offs (pl_data p))))"
    by (intro sorted_wrt_concat)
  moreover have "?k + 72 \<le> fst w" if "w \<in> set (concat (map (sec_patches buf) (sg_sect_offs (pl_data p))))" for w
    using that by (auto simp: sects sec_patches_def)
  ultimately show ?thesis
    by (auto simp: data_patches_def Let_def apart_def clear_of_def) fastforce+
qed

lemma lc_list_sorted:
  "\<forall>(k, c, sz)\<in>set (lc_list buf n off). 8 \<le> sz \<Longrightarrow> sorted_wrt (\<lambda>e e'. fst e < fst e') (lc_list buf n off)"
proof (induction n arbitrary: off)
  case (Suc n)
  have "off < fst e" if "e \<in> set (lc_list buf n (off + unat (buf_u32 (off + 4) buf)))" for e
    using lc_list_from [OF that] Suc.prems by auto
  then show ?case using Suc by auto
qed simp

lemma link_patches_apart: "packable buf p \<Longrightarrow> sorted_wrt apart (link_patches buf p)"
proof -
  assume p: "packable buf p"
  then have ok: "commands_ok buf" by (simp add: packable_def)
  let ?f = "cmd_patches (pl_in_page2 p) (le_shift p) buf"
  have own: "owned buf (fst e) w" if "e \<in> set (lcs buf)" "w \<in> set (?f e)" for e w
  proof -
    obtain k c sz where e: "e = (k, c, sz)" by (cases e)
    then show ?thesis using that cmd_patches_in [OF lcs_ok(1) [OF ok]] unfolding owned_def by fastforce
  qed
  have "sorted_wrt (\<lambda>e e'. fst e < fst e') (lcs buf)"
    unfolding lcs_def by (rule lc_list_sorted) (use lcs_ok(2) [OF ok] in \<open>auto simp: lcs_def\<close>)
  then have "sorted_wrt (\<lambda>x y. \<forall>a\<in>set (?f x). \<forall>b\<in>set (?f y). apart a b) (lcs buf)"
  proof (rule sorted_wrt_mono_rel [rotated], intro ballI)
    fix x y a b
    assume "x \<in> set (lcs buf)" "y \<in> set (lcs buf)" "fst x < fst y" "a \<in> set (?f x)" "b \<in> set (?f y)"
    then show "apart a b" using own [of x a] own [of y b] owned_apart [of buf "fst x" a "fst y" b] by simp
  qed
  moreover have "sorted_wrt apart (?f e)" for e by (cases e) (simp add: cmd_patches_apart)
  ultimately show ?thesis unfolding link_patches_def by (intro sorted_wrt_concat)
qed

text \<open>The commands other than the three segments.\<close>

lemma packable_cmds:
  assumes p: "packable buf p"
  shows "buf_u32 (sg_lc_off (pl_text p)) buf = LC_SEGMENT_64" "buf_u32 (sg_lc_off (pl_data p)) buf = LC_SEGMENT_64"
    "buf_u32 (sg_lc_off (pl_le p)) buf = LC_SEGMENT_64" "buf_u32 (pl_codesig p) buf = LC_CODE_SIGNATURE"
proof -
  have ok: "commands_ok buf" using p by (simp add: packable_def)
  have sg: "buf_u32 (sg_lc_off s) buf = LC_SEGMENT_64" if m: "s \<in> {pl_text p, pl_data p, pl_le p}" for s
  proof -
    obtain sz where "(sg_lc_off s, LC_SEGMENT_64, sz) \<in> set (lcs buf)" using packable_segment(1) [OF p m] by blast
    then show ?thesis by (rule lcs_ok(5) [OF ok, symmetric])
  qed
  show "buf_u32 (sg_lc_off (pl_text p)) buf = LC_SEGMENT_64" "buf_u32 (sg_lc_off (pl_data p)) buf = LC_SEGMENT_64"
    "buf_u32 (sg_lc_off (pl_le p)) buf = LC_SEGMENT_64"
    by (simp_all add: sg)
  obtain sz where "(pl_codesig p, LC_CODE_SIGNATURE, sz) \<in> set (lcs buf)" using packable_codesig(1) [OF p] by blast
  then show "buf_u32 (pl_codesig p) buf = LC_CODE_SIGNATURE" by (rule lcs_ok(5) [OF ok, symmetric])
qed

lemma codesig_ne:
  "packable buf p \<Longrightarrow> pl_codesig p \<notin> {sg_lc_off (pl_text p), sg_lc_off (pl_data p), sg_lc_off (pl_le p)}"
  using packable_cmds [of buf p] by (auto simp: lc_defs)

lemma link_owner:
  assumes p: "packable buf p" and w: "w \<in> set (link_patches buf p)"
  shows "\<exists>k. owned buf k w \<and> k \<notin> {sg_lc_off (pl_text p), sg_lc_off (pl_data p), sg_lc_off (pl_le p), pl_codesig p}"
proof -
  have ok: "commands_ok buf" using p by (simp add: packable_def)
  obtain k c sz where k: "(k, c, sz) \<in> set (lcs buf)" "c \<notin> {LC_SEGMENT_64, LC_CODE_SIGNATURE}" "owned buf k w"
    using patches_owned(4) [OF p w] by blast
  moreover have "c = buf_u32 k buf" by (rule lcs_ok(5) [OF ok k(1)])
  ultimately have "k \<notin> {sg_lc_off (pl_text p), sg_lc_off (pl_data p), sg_lc_off (pl_le p), pl_codesig p}"
    using packable_cmds [OF p] by auto
  then show ?thesis using k(3) by blast
qed

lemma late_owner:
  assumes p: "packable buf p" and v: "v \<in> set (le_patches p @ link_patches buf p @ sig_patches p idn)"
  shows "\<exists>k. owned buf k v \<and> k \<noteq> sg_lc_off (pl_text p) \<and> k \<noteq> sg_lc_off (pl_data p)"
proof -
  note ne = packable_distinct [OF p]
  consider "v \<in> set (le_patches p)" | "v \<in> set (link_patches buf p)" | "v \<in> set (sig_patches p idn)" using v by auto
  then show ?thesis
  proof cases
    case 1
    then show ?thesis using patches_owned(3) [OF p 1] ne(2,3) by (intro exI [of _ "sg_lc_off (pl_le p)"]) simp
  next
    case 2
    obtain k where "owned buf k v" "k \<notin> {sg_lc_off (pl_text p), sg_lc_off (pl_data p), sg_lc_off (pl_le p), pl_codesig p}"
      using link_owner [OF p 2] by blast
    then show ?thesis by (intro exI [of _ k]) simp
  next
    case 3
    show ?thesis
      using patches_owned(5) [OF p 3]
    proof
      assume "owned buf (pl_codesig p) v"
      then show ?thesis using codesig_ne [OF p] by (intro exI [of _ "pl_codesig p"]) simp
    next
      assume "owned buf (sg_lc_off (pl_le p)) v \<and> fst v = sg_lc_off (pl_le p) + 48"
      then show ?thesis using ne(2,3) by (intro exI [of _ "sg_lc_off (pl_le p)"]) simp
    qed
  qed
qed

lemma all_patches_apart:
  assumes p: "packable buf p"
  shows "sorted_wrt apart (all_patches buf p idn)"
proof -
  note own = patches_owned [OF p]
  note ne = packable_distinct [OF p]
  note csne = codesig_ne [OF p]
  note linkk = link_owner [OF p]
  note late = late_owner [OF p]
  have tx: "sorted_wrt apart (text_patches p)"
    by (simp add: text_patches_def Let_def packable_text_sects [OF p] apart_def clear_of_def del: One_nat_def)
  have le: "sorted_wrt apart (le_patches p)" by (simp add: le_patches_def Let_def apart_def clear_of_def)
  have "apart (pl_codesig p + d, b) v" if d: "d = 8 \<or> d = 12" "length b = 4" and v: "owned buf (sg_lc_off (pl_le p)) v" for b d v
  proof -
    obtain sz where e: "(pl_codesig p, LC_CODE_SIGNATURE, sz) \<in> set (lcs buf)" "16 \<le> sz"
      using packable_codesig(1) [OF p] by blast
    then have "in_cmd (pl_codesig p, LC_CODE_SIGNATURE, sz) (pl_codesig p + d, b)"
      using d by (auto simp: in_cmd_def)
    then have "owned buf (pl_codesig p) (pl_codesig p + d, b)" using e(1) unfolding owned_def by blast
    from owned_apart [OF this v] show ?thesis using csne by simp
  qed
  moreover have "owned buf (sg_lc_off (pl_le p)) (sg_lc_off (pl_le p) + 48, b)" if b: "length b = 8" for b
  proof -
    obtain sz where e: "(sg_lc_off (pl_le p), LC_SEGMENT_64, sz) \<in> set (lcs buf)" and sz: "72 \<le> sz"
      using packable_segment(1) [OF p, of "pl_le p"] by auto
    have "in_cmd (sg_lc_off (pl_le p), LC_SEGMENT_64, sz) (sg_lc_off (pl_le p) + 48, b)"
      using b sz by (simp add: in_cmd_def)
    then show ?thesis using e unfolding owned_def by blast
  qed
  ultimately have sp: "sorted_wrt apart (sig_patches p idn)"
    by (simp add: sig_patches_def) (simp add: apart_def clear_of_def)
  have x1: "apart w v" if w: "w \<in> set (text_patches p)" and
    v: "v \<in> set (data_patches buf p) \<or> v \<in> set (le_patches p @ link_patches buf p @ sig_patches p idn)" for w v
    using v
  proof
    assume "v \<in> set (data_patches buf p)"
    from owned_apart [OF own(1) [OF w] own(2) [OF this]] show ?thesis using ne(1) by simp
  next
    assume "v \<in> set (le_patches p @ link_patches buf p @ sig_patches p idn)"
    then obtain k where k: "owned buf k v" "k \<noteq> sg_lc_off (pl_text p)" using late by blast
    from owned_apart [OF own(1) [OF w] k(1)] show ?thesis using k(2) by simp
  qed
  have x2: "apart w v" if w: "w \<in> set (data_patches buf p)" and
    v: "v \<in> set (le_patches p @ link_patches buf p @ sig_patches p idn)" for w v
  proof -
    obtain k where k: "owned buf k v" "k \<noteq> sg_lc_off (pl_data p)" using late [OF v] by blast
    from owned_apart [OF own(2) [OF w] k(1)] show ?thesis using k(2) by simp
  qed
  have x3: "apart w v" if w: "w \<in> set (le_patches p)" and v: "v \<in> set (link_patches buf p)" for w v
  proof -
    obtain k where k: "owned buf k v" "k \<noteq> sg_lc_off (pl_le p)" using linkk [OF v] by blast
    from owned_apart [OF own(3) [OF w] k(1)] show ?thesis using k(2) by simp
  qed
  have x4: "apart w v" if w: "w \<in> set (le_patches p)" and v: "v \<in> set (sig_patches p idn)" for w v
    using own(5) [OF v]
  proof
    assume "owned buf (pl_codesig p) v"
    from owned_apart [OF own(3) [OF w] this] show ?thesis using csne by simp
  next
    assume "owned buf (sg_lc_off (pl_le p)) v \<and> fst v = sg_lc_off (pl_le p) + 48"
    then show ?thesis using w by (auto simp: le_patches_def Let_def apart_def clear_of_def)
  qed
  have x5: "apart w v" if w: "w \<in> set (link_patches buf p)" and v: "v \<in> set (sig_patches p idn)" for w v
  proof -
    obtain k where k: "owned buf k w" "k \<notin> {sg_lc_off (pl_le p), pl_codesig p}" using linkk [OF w] by blast
    from own(5) [OF v] show ?thesis
    proof
      assume "owned buf (pl_codesig p) v"
      from owned_apart [OF k(1) this] show ?thesis using k(2) by simp
    next
      assume "owned buf (sg_lc_off (pl_le p)) v \<and> fst v = sg_lc_off (pl_le p) + 48"
      then have "owned buf (sg_lc_off (pl_le p)) v" ..
      from owned_apart [OF k(1) this] show ?thesis using k(2) by simp
    qed
  qed
  show ?thesis
    unfolding all_patches_def
    using tx data_patches_apart [OF p] le link_patches_apart [OF p] sp x1 x2 x3 x4 x5
    by (simp add: sorted_wrt_append ball_Un)
qed


lemma agree_below:
  "take e a = take e b \<Longrightarrow> k + n \<le> e \<Longrightarrow> buf_get k n a = buf_get k n b"
proof -
  assume t: "take e a = take e b" and kn: "k + n \<le> e"
  have "buf_get k n c = take n (drop k (take e c))" for c :: "u8 list"
    using kn by (simp add: buf_get_def drop_take min_def)
  then show ?thesis using t by simp
qed

lemma lcs_agree:
  assumes ok: "commands_ok buf" and same: "take (commands_end buf) img = take (commands_end buf) buf"
  shows "lc_list img (unat (buf_u32 16 buf)) 32 = lcs buf"
  unfolding lcs_def
proof (rule lc_list_cong [where e = "commands_end buf"])
  show "buf_u32 k img = buf_u32 k buf" if "k + 4 \<le> commands_end buf" for k
    using agree_below [OF same that] by (simp add: buf_u32_def)
  show "\<forall>(k, c, sz)\<in>set (lc_list buf (unat (buf_u32 16 buf)) 32). k + 8 \<le> commands_end buf"
    using lcs_ok(2,3) [OF ok] unfolding lcs_def by fastforce
qed

lemma link_patches_after:
  assumes p: "packable buf p" and len: "commands_end buf \<le> length img"
    and same: "take (commands_end buf) img = take (commands_end buf) buf"
    and ws: "ws = text_patches p @ data_patches buf p @ le_patches p"
  shows "lc_list (puts ws img) (unat (buf_u32 16 buf)) 32 = lcs buf"
    "map (cmd_patches in2 sh (puts ws img)) (lcs buf) = map (cmd_patches in2 sh buf) (lcs buf)"
    "buf_u32 16 (puts ws img) = buf_u32 16 buf" "\<forall>w\<in>set ws. fits (length img) w"
proof -
  have ok: "commands_ok buf" using p by (simp add: packable_def)
  have sub: "set ws \<subseteq> set (all_patches buf p [])" by (auto simp: ws all_patches_def)
  have fit: "fits (length img) w" "40 \<le> fst w" "\<exists>e\<in>set (lcs buf). in_cmd e w" if "w \<in> set ws" for w
  proof -
    have m: "w \<in> set (all_patches buf p [])" using sub that by blast
    show "fits (length img) w" using patches_fit(1) [OF p m] len by (simp add: fits_def)
    show "40 \<le> fst w" "\<exists>e\<in>set (lcs buf). in_cmd e w" by (rule patches_fit(2,3) [OF p m])+
  qed
  then show "\<forall>w\<in>set ws. fits (length img) w" by blast
  have u32: "buf_u32 k img = buf_u32 k buf" if "k + 4 \<le> commands_end buf" for k
    using agree_below [OF same that] by (simp add: buf_u32_def)
  have "buf_u32 16 (puts ws img) = buf_u32 16 img"
    by (intro u32_puts_clear ballI conjI fit(1)) (use fit(2) in \<open>fastforce simp: clear_of_def\<close>)+
  then show "buf_u32 16 (puts ws img) = buf_u32 16 buf" using u32 [of 16] by (simp add: commands_end_def)
  have "lc_list (puts ws img) (unat (buf_u32 16 buf)) 32 = lc_list img (unat (buf_u32 16 buf)) 32"
    using lcs_ok(2) [OF ok] fit by (intro lc_list_puts) (auto simp: lcs_agree [OF ok same])
  then show "lc_list (puts ws img) (unat (buf_u32 16 buf)) 32 = lcs buf" by (simp add: lcs_agree [OF ok same])
  show "map (cmd_patches in2 sh (puts ws img)) (lcs buf) = map (cmd_patches in2 sh buf) (lcs buf)"
  proof (rule map_cong [OF refl])
    fix e
    assume e: "e \<in> set (lcs buf)"
    obtain k c sz where k: "e = (k, c, sz)" by (cases e)
    note e' = e [unfolded k]
    show "cmd_patches in2 sh (puts ws img) e = cmd_patches in2 sh buf e"
    proof (cases "c = LC_SEGMENT_64")
      case True
      then show ?thesis by (simp add: k seg_not_link)
    next
      case False
      have clear: "clear_of j 4 w" if w: "w \<in> set ws" and j: "k + 8 \<le> j" "j + 4 \<le> k + sz" for w j
      proof -
        obtain s where s: "s \<in> {pl_text p, pl_data p, pl_le p}" and own: "owned buf (sg_lc_off s) w"
          using w patches_owned(1-3) [OF p, of w] unfolding ws by auto
        obtain sz' where "(sg_lc_off s, LC_SEGMENT_64, sz') \<in> set (lcs buf)" using packable_segment(1) [OF p s] by blast
        then have "buf_u32 (sg_lc_off s) buf = LC_SEGMENT_64" by (rule lcs_ok(5) [OF ok, symmetric])
        moreover have "buf_u32 k buf = c" by (rule lcs_ok(5) [OF ok e', symmetric])
        ultimately have "k \<noteq> sg_lc_off s" using False by auto
        then show ?thesis using j by (intro owned_clear [OF own e']) simp_all
      qed
      have "buf_u32 j (puts ws img) = buf_u32 j buf" if "k + 8 \<le> j" "j + 4 \<le> k + sz" for j
      proof -
        have "buf_u32 j (puts ws img) = buf_u32 j img" using clear fit that by (intro u32_puts_clear) blast
        then show ?thesis using u32 [of j] that lcs_ok(3) [OF ok e'] by simp
      qed
      then show ?thesis unfolding k by (intro cmd_patches_cong lcs_ok(1) [OF ok e']) simp_all
    qed
  qed
qed

text \<open>The rewriting of the load commands never fails on a well-formed input, and is the list of patches.\<close>

lemma rewrite_commands_patches:
  assumes p: "packable buf p" and len: "commands_end buf \<le> length img"
    and same: "take (commands_end buf) img = take (commands_end buf) buf"
  shows "rewrite_commands buf p idn img = Some (puts (all_patches buf p idn) img)"
proof -
  have ok: "commands_ok buf" using p by (simp add: packable_def)
  let ?ws = "text_patches p @ data_patches buf p @ le_patches p"
  note after = link_patches_after [OF p len same refl]
  have in_buf: "commands_end buf \<le> length buf" using ok by (simp add: commands_ok_def)
  have segs: "sg_lc_off s + 72 \<le> length img"
    "\<forall>so\<in>set (sg_sect_offs s). so + 80 \<le> length img \<and> so + 80 \<le> length buf" if s: "s \<in> {pl_text p, pl_data p, pl_le p}" for s
  proof -
    obtain sz where "72 + 80 * unat (sg_nsects s) \<le> sz" "sg_lc_off s + sz \<le> commands_end buf"
      using packable_segment(1) [OF p s] by blast
    then show "sg_lc_off s + 72 \<le> length img"
      "\<forall>so\<in>set (sg_sect_offs s). so + 80 \<le> length img \<and> so + 80 \<le> length buf"
      using len in_buf unfolding packable_segment(3) [OF p s] by auto
  qed
  have tsect: "sg_lc_off (pl_text p) + 232 \<le> length img"
    using segs(2) [of "pl_text p"] packable_text_sects(3) [OF p] packable_segment(3) [OF p, of "pl_text p"]
    by (simp add: upt_rec [of _ 2])
  have "\<forall>w\<in>set (text_patches p). fits (length img) w" "\<forall>w\<in>set (data_patches buf p). fits (length img) w"
    using after(4) by simp_all
  then have l: "length (puts (text_patches p) img) = length img"
    "length (puts (data_patches buf p) (puts (text_patches p) img)) = length img"
    by simp_all
  have l3: "length (puts ?ws img) = length img" by (rule length_puts [OF after(4)])
  have 1: "rewrite_text p img = Some (puts (text_patches p) img)"
    using tsect by (intro rewrite_text_patches) (simp_all add: packable_text_sects [OF p] del: One_nat_def)
  have 2: "rewrite_data buf p (puts (text_patches p) img) = Some (puts (data_patches buf p) (puts (text_patches p) img))"
    using segs [of "pl_data p"] by (intro rewrite_data_patches) (simp_all add: l)
  have 3: "rewrite_linkedit p (puts (data_patches buf p) (puts (text_patches p) img)) = Some (puts ?ws img)"
    using segs(1) [of "pl_le p"] by (subst rewrite_linkedit_patches) (simp_all add: l)
  have "\<forall>(k, c, sz)\<in>set (lcs buf). lc_least c \<le> sz \<and> k + sz \<le> length img"
    using lcs_ok(1,3) [OF ok] len by fastforce
  then have 4: "rewrite_loop (pl_in_page2 p) (le_shift p) (unat (buf_u32 16 buf)) 32 (puts ?ws img) =
      Some (puts (link_patches buf p) (puts ?ws img))"
    unfolding link_patches_def
    by (subst rewrite_loop_patches) (simp_all add: after(1,2) l3 del: puts_simps)
  have "\<forall>w\<in>set (link_patches buf p). fits (length img) w"
    using patches_fit(1) [OF p, of _ idn] len by (fastforce simp: all_patches_def fits_def)
  then have l4: "length (puts (link_patches buf p) (puts ?ws img)) = length img" using l3 by (simp del: puts_simps)
  obtain sz where "16 \<le> sz" "pl_codesig p + sz \<le> commands_end buf" using packable_codesig(1) [OF p] by blast
  then have 5: "rewrite_signature p idn (puts (link_patches buf p) (puts ?ws img)) =
      Some (puts (sig_patches p idn) (puts (link_patches buf p) (puts ?ws img)))"
    using segs(1) [of "pl_le p"] len l4 by (intro rewrite_signature_patches) simp_all
  have 6: "r_u32 (puts ?ws img) 16 = Some (buf_u32 16 buf)"
    using len l3 after(3) by (simp add: r_u32_def commands_end_def del: puts_simps)
  show ?thesis
    unfolding rewrite_commands_def 1 2 3 4 5 6 Option.bind.bind_lunit all_patches_def by simp
qed


subsection \<open>The new layout in numbers\<close>

lemma unat_up32: "unat (ucast (w :: u32) :: u64) = unat w"
proof -
  have "unat w < 2 ^ LENGTH(32)" by (rule unsigned_less)
  then show ?thesis by (simp add: unsigned_ucast_eq take_bit_nat_eq_self)
qed

definition page_shift :: "plan \<Rightarrow> nat" where "page_shift p = (if pl_in_page2 p then 0x4000 else 0)"

lemma moved_off_nat:
  "(pl_in_page2 p \<Longrightarrow> 0x4000 \<le> unat off) \<Longrightarrow> unat (moved_off (pl_in_page2 p) off) + page_shift p = unat (off :: u32)"
proof -
  assume a: "pl_in_page2 p \<Longrightarrow> 0x4000 \<le> unat off"
  note u = unat_up32 [of off]
  show ?thesis
  proof (cases "pl_in_page2 p")
    case True
    then have "(0x4000 :: u64) \<le> ucast off" using a by (simp add: word_le_nat_alt u)
    then have "unat (ucast off - 0x4000 :: u64) = unat off - 0x4000" by (simp add: unat_sub u)
    then show ?thesis using True a by (simp add: moved_off_def page_shift_def SHIFT_def PAGE_def)
  qed (simp add: moved_off_def page_shift_def u)
qed

lemma layout_nat:
  assumes p: "packable buf p"
  shows "unat (pl_header p) = commands_end buf"
    "unat (new_text_off p) + page_shift p = unat (sr_offset (pl_text_sect p))"
    "unat (new_const_off p) + page_shift p = unat (sr_offset (pl_const_sect p))"
    "commands_end buf \<le> unat (new_text_off p)"
    "unat (new_text_off p) + unat (sr_size (pl_text_sect p)) \<le> unat (new_const_off p)"
    "unat (text_content_end p) = unat (new_const_off p) + unat (sr_size (pl_const_sect p))"
    "unat (text_content_end p) \<le> 0x4000"
    "unat (new_le_fileoff p) = 0x4000 + unat (sg_filesize (pl_data p))"
    "unat (le_prefix_len p) = unat (pl_codesig_dataoff p) - unat (sg_fileoff (pl_le p))"
    "unat (code_limit p) = unat (new_le_fileoff p) + unat (le_prefix_len p)"
    "unat (code_limit p) < 2 ^ 32 - 2 ^ 26"
proof -
  have c: "contents_ok buf p" and ok: "commands_ok buf" and d: "decide buf = Some (Repack p)"
    using p by (simp_all add: packable_def)
  note dec = decide_Repack [OF d]
  let ?t = "pl_text_sect p" and ?c = "pl_const_sect p"
  have t: "unat (sr_offset ?t) + unat (sr_size ?t) \<le> unat (sr_offset ?c)"
    and cc: "unat (sr_offset ?c) + unat (sr_size ?c) \<le> length buf" "length buf < 2 ^ 30"
    and le: "unat (sg_fileoff (pl_le p)) \<le> unat (pl_codesig_dataoff p)" "unat (pl_codesig_dataoff p) \<le> length buf"
    and fs: "unat (sg_filesize (pl_data p)) < 2 ^ 30"
    using c by (simp_all add: contents_ok_def)
  note uc = unat_up32
  have e: "commands_end buf < 2 ^ 30" using ok cc(2) by (simp add: commands_ok_def)
  have "unat (32 + ucast (buf_u32 20 buf) :: u64) = commands_end buf"
    using e by (subst unat_add_lem [THEN iffD1]) (simp_all add: commands_end_def uc)
  then show h: "unat (pl_header p) = commands_end buf" by (simp add: dec(8))
  have in2: "0x4000 \<le> unat (sr_offset ?t)" if "pl_in_page2 p"
    using that dec(7) by (simp add: SHIFT_def PAGE_def word_le_nat_alt uc)
  show nt: "unat (new_text_off p) + page_shift p = unat (sr_offset ?t)"
    unfolding new_text_off_def by (rule moved_off_nat [OF in2])
  have in2': "0x4000 \<le> unat (sr_offset ?c)" if "pl_in_page2 p" using in2 [OF that] t by simp
  show nc: "unat (new_const_off p) + page_shift p = unat (sr_offset ?c)"
    unfolding new_const_off_def by (rule moved_off_nat [OF in2'])
  show "commands_end buf \<le> unat (new_text_off p)" using dec(9) h by (simp add: word_le_nat_alt)
  show "unat (new_text_off p) + unat (sr_size ?t) \<le> unat (new_const_off p)" using nt nc t by linarith
  show ce: "unat (text_content_end p) = unat (new_const_off p) + unat (sr_size ?c)"
    unfolding text_content_end_def using nc cc by (subst unat_add_lem [THEN iffD1]) simp_all
  show "unat (text_content_end p) \<le> 0x4000" using dec(10) by (simp add: word_le_nat_alt PAGE_def)
  show lf: "unat (new_le_fileoff p) = 0x4000 + unat (sg_filesize (pl_data p))"
    unfolding new_le_fileoff_def PAGE_def using fs by (subst unat_add_lem [THEN iffD1]) simp_all
  have "sg_fileoff (pl_le p) \<le> pl_codesig_dataoff p" using le(1) by (simp add: word_le_nat_alt)
  then show pl: "unat (le_prefix_len p) = unat (pl_codesig_dataoff p) - unat (sg_fileoff (pl_le p))"
    by (simp add: le_prefix_len_def unat_sub)
  have sum: "unat (new_le_fileoff p) + unat (le_prefix_len p) < 2 ^ 32 - 2 ^ 26" using lf pl le(2) cc(2) fs by simp
  show cl: "unat (code_limit p) = unat (new_le_fileoff p) + unat (le_prefix_len p)"
    unfolding code_limit_def using sum by (subst unat_add_lem [THEN iffD1]) simp_all
  show "unat (code_limit p) < 2 ^ 32 - 2 ^ 26" using sum cl by simp
qed

subsection \<open>The image\<close>

definition src_bytes :: "u8 list \<Rightarrow> section_read \<Rightarrow> u8 list" where
  "src_bytes buf sec = buf_get (unat (sr_offset sec)) (unat (sr_size sec)) buf"

lemma paste_eq:
  assumes src: "unat (sr_offset sec) + unat (sr_size sec) \<le> length buf" "length buf < 2 ^ 30"
    and out: "unat new + unat (sr_size sec) \<le> length out" "length out < 2 ^ 32"
  shows "paste buf new sec out = Some (buf_put (unat new) (src_bytes buf sec) out)"
proof -
  note uc = unat_up32
  have 1: "unat (ucast (sr_offset sec) + sr_size sec :: u64) = unat (sr_offset sec) + unat (sr_size sec)"
    using src by (subst unat_add_lem [THEN iffD1]) (simp_all add: uc)
  have 2: "unat (new + sr_size sec) = unat new + unat (sr_size sec)"
    using out by (subst unat_add_lem [THEN iffD1]) simp_all
  show ?thesis using src out by (simp add: paste_def subslice_def copy_into_def 1 2 src_bytes_def length_buf_get)
qed

definition image :: "u8 list \<Rightarrow> plan \<Rightarrow> u8 list" where
  "image buf p =
     buf_put (unat (new_const_off p)) (src_bytes buf (pl_const_sect p))
       (buf_put (unat (new_text_off p)) (src_bytes buf (pl_text_sect p))
         (buf_put 0 (take (commands_end buf) buf) (replicate (unat (new_le_fileoff p)) 0))) @
     buf_get (unat (sg_fileoff (pl_le p))) (unat (le_prefix_len p)) buf"

lemma image_correct:
  assumes p: "packable buf p"
  shows "build_image buf p = Some (image buf p)" "length (image buf p) = unat (code_limit p)"
    "take (commands_end buf) (image buf p) = take (commands_end buf) buf"
    "buf_get (unat (new_text_off p)) (unat (sr_size (pl_text_sect p))) (image buf p) = src_bytes buf (pl_text_sect p)"
    "buf_get (unat (new_const_off p)) (unat (sr_size (pl_const_sect p))) (image buf p) = src_bytes buf (pl_const_sect p)"
    "buf_get 0x4000 (unat (sg_filesize (pl_data p))) (image buf p) = replicate (unat (sg_filesize (pl_data p))) 0"
    "buf_get (unat (new_le_fileoff p)) (unat (le_prefix_len p)) (image buf p) =
       buf_get (unat (sg_fileoff (pl_le p))) (unat (le_prefix_len p)) buf"
proof -
  note n = layout_nat [OF p]
  have c: "contents_ok buf p" and ok: "commands_ok buf" using p by (simp_all add: packable_def)
  let ?t = "pl_text_sect p" and ?c = "pl_const_sect p"
  let ?out0 = "replicate (unat (new_le_fileoff p)) (0 :: u8)"
  let ?out1 = "buf_put 0 (take (commands_end buf) buf) ?out0"
  let ?out2 = "buf_put (unat (new_text_off p)) (src_bytes buf ?t) ?out1"
  let ?out3 = "buf_put (unat (new_const_off p)) (src_bytes buf ?c) ?out2"
  let ?pre = "buf_get (unat (sg_fileoff (pl_le p))) (unat (le_prefix_len p)) buf"
  have cc: "unat (sr_offset ?t) + unat (sr_size ?t) \<le> length buf" "unat (sr_offset ?c) + unat (sr_size ?c) \<le> length buf"
    "length buf < 2 ^ 30" "unat (sg_fileoff (pl_le p)) + unat (le_prefix_len p) \<le> length buf" "unat (sg_filesize (pl_data p)) < 2 ^ 30"
    using c n(9) by (auto simp: contents_ok_def)
  have e: "commands_end buf \<le> length buf" using ok by (simp add: commands_ok_def)
  have lt: "length (src_bytes buf ?t) = unat (sr_size ?t)" and lc: "length (src_bytes buf ?c) = unat (sr_size ?c)"
    using cc by (simp_all add: src_bytes_def length_buf_get)
  have b: "commands_end buf \<le> unat (new_le_fileoff p)" "unat (new_text_off p) + unat (sr_size ?t) \<le> unat (new_le_fileoff p)"
    "unat (new_const_off p) + unat (sr_size ?c) \<le> unat (new_le_fileoff p)" "unat (new_le_fileoff p) < 2 ^ 32"
    using n cc by linarith+
  have l1: "length ?out1 = unat (new_le_fileoff p)" using b e by simp
  then have l2: "length ?out2 = unat (new_le_fileoff p)" using b lt by simp
  then have l3: "length ?out3 = unat (new_le_fileoff p)" using b lc by simp
  have lp: "length ?pre = unat (le_prefix_len p)" using cc(4) by (rule length_buf_get)
  have "unat (sg_fileoff (pl_le p) + le_prefix_len p) = unat (sg_fileoff (pl_le p)) + unat (le_prefix_len p)"
    using cc by (subst unat_add_lem [THEN iffD1]) simp_all
  then show "build_image buf p = Some (image buf p)"
    using cc b e l1 l2
    by (simp add: build_image_def n(1) paste_eq image_def) (simp add: subslice_def copy_into_def buf_get_def paste_eq)
  show "length (image buf p) = unat (code_limit p)" unfolding image_def length_append l3 lp n(10) ..
  have get: "buf_get k m (image buf p) = buf_get k m ?out3" if "k + m \<le> unat (new_le_fileoff p)" for k m
    using that l3 by (simp add: image_def buf_get_append)
  have "take (commands_end buf) (image buf p) = buf_get 0 (commands_end buf) ?out3"
    using get [of 0] b by (simp add: buf_get_def)
  also have "\<dots> = buf_get 0 (commands_end buf) ?out1"
    using n b l1 l2 lt lc by (simp add: buf_fields)
  also have "\<dots> = take (commands_end buf) buf" using e b by (simp add: buf_fields)
  finally show "take (commands_end buf) (image buf p) = take (commands_end buf) buf" .
  show "buf_get (unat (new_text_off p)) (unat (sr_size ?t)) (image buf p) = src_bytes buf ?t"
    using get n b l1 l2 lt lc by (simp add: buf_fields)
  show "buf_get (unat (new_const_off p)) (unat (sr_size ?c)) (image buf p) = src_bytes buf ?c"
    using get n b l2 lc by (simp add: buf_fields)
  have "buf_get 0x4000 (unat (sg_filesize (pl_data p))) (image buf p) = buf_get 0x4000 (unat (sg_filesize (pl_data p))) ?out0"
    using get n b l1 l2 lt lc e by (simp add: buf_fields)
  then show "buf_get 0x4000 (unat (sg_filesize (pl_data p))) (image buf p) = replicate (unat (sg_filesize (pl_data p))) 0"
    using n(8) by (simp add: buf_fields)
  show "buf_get (unat (new_le_fileoff p)) (unat (le_prefix_len p)) (image buf p) = ?pre"
    using l3 lp by (simp add: image_def buf_get_append) (simp add: buf_get_def)
qed


subsection \<open>The packed program\<close>

definition packed_code :: "u8 list \<Rightarrow> plan \<Rightarrow> u8 list" where
  "packed_code buf p = puts (all_patches buf p IDENT) (image buf p)"

lemma code_bounds:
  assumes p: "packable buf p"
  shows "\<forall>w\<in>set (all_patches buf p IDENT). fits (length (image buf p)) w" "length (packed_code buf p) = unat (code_limit p)"
    "commands_end buf \<le> unat (code_limit p)"
proof -
  note n = layout_nat [OF p]
  show e: "commands_end buf \<le> unat (code_limit p)" using n by linarith
  show f: "\<forall>w\<in>set (all_patches buf p IDENT). fits (length (image buf p)) w"
    using patches_fit(1) [OF p, of _ IDENT] e image_correct(2) [OF p] by (fastforce simp: fits_def)
  show "length (packed_code buf p) = unat (code_limit p)"
    using length_puts [OF f] image_correct(2) [OF p] by (simp add: packed_code_def)
qed

lemma pack_packed:
  assumes p: "packable buf p" and sha: "\<forall>x. length (sha x) = 32"
  shows "\<exists>sg. pack sha buf = Some (Packed (packed_code buf p @ sg)) \<and> length sg = sig_size (code_limit p) IDENT \<and>
    sig_size (code_limit p) IDENT < 2 ^ 32 \<and> sig_accepts sha (packed_code buf p) (text_content_end p) sg"
proof -
  note n = layout_nat [OF p] and b = code_bounds [OF p] and im = image_correct [OF p]
  have d: "decide buf = Some (Repack p)" using p by (simp add: packable_def)
  have "n_hashes (code_limit p) = (unat (code_limit p) + 4095) div 4096" using n(11) by (intro n_hashes_eq) simp
  then have sz: "sig_size (code_limit p) IDENT < 2 ^ 32"
    using n(11) by (simp add: sig_size_def cdir_size_def hash_off_def CD_FIXED_def CS_HASH_SIZE_def IDENT_def)
  obtain sg where sg: "sign_adhoc sha (packed_code buf p) IDENT (code_limit p) 0 (text_content_end p) = Some sg"
    "length sg = sig_size (code_limit p) IDENT" "sig_accepts sha (packed_code buf p) (text_content_end p) sg"
    using sign_adhoc_accepted [OF sha b(2) sz, of "text_content_end p"] n(11) by auto
  have rw: "rewrite_commands buf p IDENT (image buf p) = Some (packed_code buf p)"
    unfolding packed_code_def using im(2,3) b(3) by (intro rewrite_commands_patches [OF p]) simp_all
  have "of_nat (length (packed_code buf p)) = code_limit p" by (simp add: b(2))
  then have "pack sha buf = Some (Packed (packed_code buf p @ sg))"
    using d im(1) rw sg(1,2) by (simp add: pack_def)
  then show ?thesis using sg sz by blast
qed

text \<open>Reading the packed code: a patched field has its new value, what no patch touches its old one.\<close>

lemma code_u32: "packable buf p \<Longrightarrow> (k, le_bytes 4 v) \<in> set (all_patches buf p IDENT) \<Longrightarrow> buf_u32 k (packed_code buf p) = v"
  unfolding packed_code_def by (rule u32_puts_mem [OF code_bounds(1) all_patches_apart])

lemma code_u64: "packable buf p \<Longrightarrow> (k, le_bytes 8 v) \<in> set (all_patches buf p IDENT) \<Longrightarrow> buf_u64 k (packed_code buf p) = v"
  unfolding packed_code_def by (rule u64_puts_mem [OF code_bounds(1) all_patches_apart])

lemma code_past:
  assumes p: "packable buf p" and k: "commands_end buf \<le> k"
  shows "buf_get k m (packed_code buf p) = buf_get k m (image buf p)"
  unfolding packed_code_def
proof (rule get_puts_clear, intro ballI conjI)
  fix w assume w: "w \<in> set (all_patches buf p IDENT)"
  show "fits (length (image buf p)) w" using code_bounds(1) [OF p] w by blast
  show "clear_of k m w" using patches_fit(1) [OF p w] k by (simp add: fits_def clear_of_def)
qed

lemma code_clear:
  assumes p: "packable buf p" and clear: "\<forall>w\<in>set (all_patches buf p IDENT). clear_of k m w" and k: "k + m \<le> commands_end buf"
  shows "buf_get k m (packed_code buf p) = buf_get k m buf"
proof -
  have "buf_get k m (packed_code buf p) = buf_get k m (image buf p)"
    unfolding packed_code_def using clear code_bounds(1) [OF p] by (intro get_puts_clear) blast
  also have "\<dots> = buf_get k m buf" by (rule agree_below [OF image_correct(3) [OF p] k])
  finally show ?thesis .
qed

lemma code_lcs:
  assumes p: "packable buf p"
  shows "lcs (packed_code buf p @ sg) = lcs buf"
proof -
  have ok: "commands_ok buf" using p by (simp add: packable_def)
  note b = code_bounds [OF p]
  have "clear_of 16 4 w" if "w \<in> set (all_patches buf p IDENT)" for w
    using patches_fit(2) [OF p that] by (simp add: clear_of_def)
  then have "buf_get 16 4 (packed_code buf p) = buf_get 16 4 buf"
    by (intro code_clear [OF p]) (simp_all add: commands_end_def)
  then have n: "buf_u32 16 (packed_code buf p @ sg) = buf_u32 16 buf"
    using b(2,3) by (simp add: buf_u32_def buf_get_append commands_end_def)
  have code: "lc_list (packed_code buf p) (unat (buf_u32 16 buf)) 32 = lcs buf"
    unfolding packed_code_def
    using lcs_ok(2) [OF ok] b(1) patches_fit(3) [OF p]
    by (subst lc_list_puts) (auto simp: lcs_agree [OF ok image_correct(3) [OF p]])
  have "lc_list (packed_code buf p @ sg) (unat (buf_u32 16 buf)) 32 = lc_list (packed_code buf p) (unat (buf_u32 16 buf)) 32"
  proof (rule lc_list_cong [where e = "unat (code_limit p)"])
    show "buf_u32 k (packed_code buf p @ sg) = buf_u32 k (packed_code buf p)" if "k + 4 \<le> unat (code_limit p)" for k
      using that b(2) by (simp add: buf_u32_def buf_get_append)
    show "\<forall>(k, c, sz)\<in>set (lc_list (packed_code buf p) (unat (buf_u32 16 buf)) 32). k + 8 \<le> unat (code_limit p)"
      unfolding code using lcs_ok(2,3) [OF ok] b(3) by fastforce
  qed
  then show ?thesis unfolding n lcs_def [of "packed_code buf p @ sg"] by (simp add: code)
qed

lemma find_codesig_lcs:
  "find_codesig buf n off = Some (k, d) \<Longrightarrow> lc_list f n off = lc_list buf n off \<Longrightarrow> k + 12 \<le> length f \<Longrightarrow>
   find_codesig f n off = Some (k, ucast (buf_u32 (k + 8) f))"
proof (induction n arbitrary: off)
  case (Suc n)
  have same: "buf_u32 off f = buf_u32 off buf" "unat (buf_u32 (off + 4) f) = unat (buf_u32 (off + 4) buf)"
    "lc_list f n (off + unat (buf_u32 (off + 4) f)) = lc_list buf n (off + unat (buf_u32 (off + 4) f))"
    using Suc.prems(2) by auto
  show ?case
  proof (cases "buf_u32 off buf = LC_CODE_SIGNATURE")
    case True
    then have "k = off" using Suc.prems(1) by (auto simp: bind_eq_Some_conv r_u32_def split: if_splits)
    then show ?thesis using True Suc.prems(3) same by (simp add: r_u32_def)
  next
    case False
    then have rest: "find_codesig buf n (off + unat (buf_u32 (off + 4) f)) = Some (k, d)"
      using Suc.prems(1) same(2) by (auto simp: bind_eq_Some_conv r_u32_def split: if_splits)
    then have "off + unat (buf_u32 (off + 4) f) \<le> k"
      using find_codesig_entry [OF rest] lc_list_from [of "(k, LC_CODE_SIGNATURE, _)"] by fastforce
    then have "off + 8 \<le> length f" using Suc.prems(3) by simp
    then show ?thesis using False same Suc.IH [OF rest same(3) Suc.prems(3)] by (simp add: r_u32_def)
  qed
qed simp


text \<open>The signature command and the length of the whole file.\<close>

lemma packed_signature:
  assumes p: "packable buf p" and sg: "length sg = sig_size (code_limit p) IDENT" "sig_size (code_limit p) IDENT < 2 ^ 32"
  defines "f \<equiv> packed_code buf p @ sg"
  shows "find_codesig f (unat (buf_u32 16 f)) 32 = Some (pl_codesig p, code_limit p)"
    "unat (code_limit p) + unat (buf_u32 (pl_codesig p + 12) f) = length f"
    "take (unat (code_limit p)) f = packed_code buf p" "drop (unat (code_limit p)) f = sg"
proof -
  note b = code_bounds [OF p] and n = layout_nat [OF p]
  have d: "decide buf = Some (Repack p)" using p by (simp add: packable_def)
  obtain sz where e: "16 \<le> sz" "pl_codesig p + sz \<le> commands_end buf" using packable_codesig(1) [OF p] by blast
  have rd: "buf_u32 k f = buf_u32 k (packed_code buf p)" if "k + 4 \<le> unat (code_limit p)" for k
    using that b(2) by (simp add: f_def buf_u32_def buf_get_append)
  have "buf_u32 (pl_codesig p + 8) (packed_code buf p) = ucast (code_limit p)"
    by (rule code_u32 [OF p]) (simp add: all_patches_def sig_patches_def)
  then have off: "buf_u32 (pl_codesig p + 8) f = ucast (code_limit p)" using rd e b(3) by simp
  have "buf_u32 (pl_codesig p + 12) (packed_code buf p) = of_nat (sig_size (code_limit p) IDENT)"
    by (rule code_u32 [OF p]) (simp add: all_patches_def sig_patches_def)
  then have "buf_u32 (pl_codesig p + 12) f = of_nat (sig_size (code_limit p) IDENT)" using rd e b(3) by simp
  then show "unat (code_limit p) + unat (buf_u32 (pl_codesig p + 12) f) = length f"
    using sg b(2) by (simp add: f_def unat_of_nat32)
  show "take (unat (code_limit p)) f = packed_code buf p" "drop (unat (code_limit p)) f = sg"
    using b(2) by (simp_all add: f_def)
  have n16: "buf_u32 16 f = buf_u32 16 buf" and lc: "lc_list f (unat (buf_u32 16 buf)) 32 = lc_list buf (unat (buf_u32 16 buf)) 32"
  proof -
    have "clear_of 16 4 w" if "w \<in> set (all_patches buf p IDENT)" for w
      using patches_fit(2) [OF p that] by (simp add: clear_of_def)
    then have "buf_get 16 4 (packed_code buf p) = buf_get 16 4 buf"
      by (intro code_clear [OF p]) (simp_all add: commands_end_def)
    then show "buf_u32 16 f = buf_u32 16 buf" using rd [of 16] b(3) by (simp add: buf_u32_def commands_end_def)
    then show "lc_list f (unat (buf_u32 16 buf)) 32 = lc_list buf (unat (buf_u32 16 buf)) 32"
      using code_lcs [OF p, of sg] by (simp add: lcs_def f_def)
  qed
  have "ucast (ucast (code_limit p) :: u32) = code_limit p"
  proof (subst word_unat_eq_iff)
    show "unat (ucast (ucast (code_limit p) :: u32) :: u64) = unat (code_limit p)"
      using n(11) by (simp add: unat_up32) (simp add: unsigned_ucast_eq take_bit_nat_eq_self)
  qed
  moreover have "find_codesig f (unat (buf_u32 16 buf)) 32 = Some (pl_codesig p, ucast (buf_u32 (pl_codesig p + 8) f))"
    using e b by (intro find_codesig_lcs [OF decide_Repack(11) [OF d] lc]) (simp add: f_def)
  ultimately show "find_codesig f (unat (buf_u32 16 f)) 32 = Some (pl_codesig p, code_limit p)"
    unfolding n16 off by simp
qed

subsection \<open>Properties\<close>


lemma buf_get_shift:
  "buf_get a n x = buf_get b n y \<Longrightarrow> i + m \<le> n \<Longrightarrow> buf_get (a + i) m x = buf_get (b + i) m y"
proof -
  assume e: "buf_get a n x = buf_get b n y" and i: "i + m \<le> n"
  have "buf_get (k + i) m z = take m (drop i (buf_get k n z))" for k and z :: "u8 list"
    using i by (simp add: buf_get_def drop_take add.commute min_def)
  then show ?thesis using e by simp
qed

lemma shifted_nat:
  assumes p: "packable buf p" and v: "unat (sg_fileoff (pl_le p)) \<le> unat v" "unat v \<le> unat (pl_codesig_dataoff p)"
  shows "unat (shifted (le_shift p) v) = unat (new_le_fileoff p) + (unat v - unat (sg_fileoff (pl_le p)))"
proof -
  note n = layout_nat [OF p]
  have le: "sg_fileoff (pl_le p) \<le> ucast v" using v(1) by (simp add: word_le_nat_alt unat_up32)
  have eq: "ucast v + le_shift p = new_le_fileoff p + (ucast v - sg_fileoff (pl_le p))" by (simp add: le_shift_def)
  have "unat (ucast v - sg_fileoff (pl_le p) :: u64) = unat v - unat (sg_fileoff (pl_le p))"
    using le by (simp add: unat_sub unat_up32)
  moreover have sum: "unat (new_le_fileoff p) + (unat v - unat (sg_fileoff (pl_le p))) < 2 ^ 32"
    using n(9,10,11) v by linarith
  ultimately have "unat (ucast v + le_shift p :: u64) = unat (new_le_fileoff p) + (unat v - unat (sg_fileoff (pl_le p)))"
    unfolding eq by (subst unat_add_lem [THEN iffD1]) simp_all
  then show ?thesis using sum by (simp add: shifted_def unsigned_ucast_eq take_bit_nat_eq_self)
qed


lemma link_patch_mem:
  assumes e: "(k, c, sz) \<in> set (lcs buf)" and f: "fd \<in> set (link_fields c)" and v: "buf_u32 (k + fd) buf \<noteq> 0"
  shows "(k + fd, le_bytes 4 (shifted (le_shift p) (buf_u32 (k + fd) buf))) \<in> set (all_patches buf p idn)"
proof -
  have "c \<noteq> LC_MAIN" using f by (auto simp: link_fields_def lc_defs split: if_splits)
  then have "(k + fd, le_bytes 4 (shifted (le_shift p) (buf_u32 (k + fd) buf)))
      \<in> set (cmd_patches (pl_in_page2 p) (le_shift p) buf (k, c, sz))"
    using f v by (auto simp: cmd_patches_def)
  then show ?thesis using e by (auto simp: all_patches_def link_patches_def)
qed

text \<open>C34: what the packer keeps and what it loses. The two sections of \<open>__TEXT\<close> and \<open>__LINKEDIT\<close> up to the signature are
  the input's bytes at their new offsets, and a field of a load command that names an offset into \<open>__LINKEDIT\<close>
  names the same bytes as before. The bytes at the new offset of \<open>__DATA\<close>, however, are zero, whatever the
  input has there.\<close>

theorem packed_contents:
  assumes "packable buf p" "\<forall>x. length (sha x) = 32"
  shows "\<exists>f. pack sha buf = Some (Packed f) \<and>
    buf_get (unat (new_text_off p)) (unat (sr_size (pl_text_sect p))) f = src_bytes buf (pl_text_sect p) \<and>
    buf_get (unat (new_const_off p)) (unat (sr_size (pl_const_sect p))) f = src_bytes buf (pl_const_sect p) \<and>
    buf_get (unat (new_le_fileoff p)) (unat (le_prefix_len p)) f =
      buf_get (unat (sg_fileoff (pl_le p))) (unat (le_prefix_len p)) buf \<and>
    (\<forall>(k, c, sz)\<in>set (lcs buf). \<forall>fd\<in>set (link_fields c). \<forall>m.
       let v = buf_u32 (k + fd) buf in
       v \<noteq> 0 \<and> unat (sg_fileoff (pl_le p)) \<le> unat v \<and> unat v + m \<le> unat (pl_codesig_dataoff p) \<longrightarrow>
       buf_get (unat (buf_u32 (k + fd) f)) m f = buf_get (unat v) m buf) \<and>
    buf_get 0x4000 (unat (sg_filesize (pl_data p))) f = replicate (unat (sg_filesize (pl_data p))) 0"
proof -
  note p = assms(1)
  note n = layout_nat [OF p] and im = image_correct [OF p] and b = code_bounds [OF p]
  have ok: "commands_ok buf" using p by (simp add: packable_def)
  obtain sg where sg: "pack sha buf = Some (Packed (packed_code buf p @ sg))" using pack_packed [OF assms] by blast
  let ?f = "packed_code buf p @ sg"
  have rd: "buf_get k m ?f = buf_get k m (image buf p)" if "commands_end buf \<le> k" "k + m \<le> unat (code_limit p)" for k m
    using that b(2) code_past [OF p that(1)] by (simp add: buf_get_append)
  have le: "buf_get (unat (new_le_fileoff p)) (unat (le_prefix_len p)) ?f =
      buf_get (unat (sg_fileoff (pl_le p))) (unat (le_prefix_len p)) buf"
    using n im(7) by (subst rd) linarith+
  have link: "buf_get (unat (buf_u32 (k + fd) ?f)) m ?f = buf_get (unat v) m buf"
    if e: "(k, c, sz) \<in> set (lcs buf)" "fd \<in> set (link_fields c)" and v: "v = buf_u32 (k + fd) buf" "v \<noteq> 0"
      "unat (sg_fileoff (pl_le p)) \<le> unat v" "unat v + m \<le> unat (pl_codesig_dataoff p)" for k c sz fd m v
  proof -
    have "k + fd + 4 \<le> length (packed_code buf p)"
      using link_fields_bounds [OF e(2)] lcs_ok(1,3) [OF ok e(1)] b(2,3) by linarith
    then have "buf_u32 (k + fd) ?f = buf_u32 (k + fd) (packed_code buf p)" by (simp add: buf_u32_def buf_get_append)
    also have "\<dots> = shifted (le_shift p) v"
      unfolding v(1) by (rule code_u32 [OF p link_patch_mem [OF e]]) (use v in simp)
    finally have "unat (buf_u32 (k + fd) ?f) = unat (new_le_fileoff p) + (unat v - unat (sg_fileoff (pl_le p)))"
      using shifted_nat [OF p v(3)] v(4) by simp
    moreover have "buf_get (unat (new_le_fileoff p) + (unat v - unat (sg_fileoff (pl_le p)))) m ?f =
        buf_get (unat (sg_fileoff (pl_le p)) + (unat v - unat (sg_fileoff (pl_le p)))) m buf"
      by (rule buf_get_shift [OF le]) (use n(9) v in linarith)
    ultimately show ?thesis using v(3) by simp
  qed
  have "buf_get (unat (new_text_off p)) (unat (sr_size (pl_text_sect p))) ?f = src_bytes buf (pl_text_sect p)"
    using n im(4) by (subst rd) linarith+
  moreover have "buf_get (unat (new_const_off p)) (unat (sr_size (pl_const_sect p))) ?f = src_bytes buf (pl_const_sect p)"
    using n im(5) by (subst rd) linarith+
  moreover have "buf_get 0x4000 (unat (sg_filesize (pl_data p))) ?f = replicate (unat (sg_filesize (pl_data p))) 0"
    using n im(6) by (subst rd) linarith+
  ultimately show ?thesis using sg le link by (intro exI [of _ ?f]) (auto simp: Let_def split_beta)
qed

lemma read_segment_code:
  assumes p: "packable buf p" and s: "s \<in> {pl_text p, pl_data p, pl_le p}"
  shows "read_segment (packed_code buf p) (sg_lc_off s) =
    Some \<lparr>sg_lc_off = sg_lc_off s, sg_name = buf_get (sg_lc_off s + 8) 16 (packed_code buf p),
          sg_vmaddr = buf_u64 (sg_lc_off s + 24) (packed_code buf p), sg_vmsize = buf_u64 (sg_lc_off s + 32) (packed_code buf p),
          sg_fileoff = buf_u64 (sg_lc_off s + 40) (packed_code buf p), sg_filesize = buf_u64 (sg_lc_off s + 48) (packed_code buf p),
          sg_nsects = buf_u32 (sg_lc_off s + 64) (packed_code buf p),
          sg_sect_offs = map (\<lambda>i. sg_lc_off s + 72 + i * 80) [0..<unat (buf_u32 (sg_lc_off s + 64) (packed_code buf p))]\<rparr>"
proof -
  obtain sz where "72 + 80 * unat (sg_nsects s) \<le> sz" "sg_lc_off s + sz \<le> commands_end buf"
    using packable_segment(1) [OF p s] by blast
  then have "sg_lc_off s + 72 \<le> length (packed_code buf p)" using code_bounds(2,3) [OF p] by linarith
  then show ?thesis by (simp add: read_segment_def subslice_def r_u32_def r_u64_def)
qed


text \<open>What the rewriting leaves of a segment's command, and its tables after it.\<close>

lemma seg_keep:
  assumes p: "packable buf p" and s: "s \<in> {pl_text p, pl_data p, pl_le p}"
    and G: "\<And>w. w \<in> set (all_patches buf p IDENT) \<Longrightarrow> w \<in> set G \<or> (\<exists>k. k \<noteq> sg_lc_off s \<and> owned buf k w)"
    and clear: "\<forall>w\<in>set G. clear_of j m w"
    and j: "sg_lc_off s \<le> j" "j + m \<le> sg_lc_off s + 72 + 80 * unat (sg_nsects s)"
  shows "buf_get j m (packed_code buf p) = buf_get j m buf"
proof -
  obtain sz where e: "(sg_lc_off s, LC_SEGMENT_64, sz) \<in> set (lcs buf)" and
    sz: "72 + 80 * unat (sg_nsects s) \<le> sz" "sg_lc_off s + sz \<le> commands_end buf"
    using packable_segment(1) [OF p s] by blast
  show ?thesis
  proof (rule code_clear [OF p], rule ballI)
    fix w assume w: "w \<in> set (all_patches buf p IDENT)"
    from G [OF w] show "clear_of j m w"
    proof
      assume "\<exists>k. k \<noteq> sg_lc_off s \<and> owned buf k w"
      then obtain k where k: "k \<noteq> sg_lc_off s" "owned buf k w" by blast
      show ?thesis by (rule owned_clear [OF k(2) e k(1) [symmetric] j(1)]) (use j sz in linarith)
    qed (use clear in blast)
  qed (use j sz in linarith)
qed

lemma seg_groups:
  assumes p: "packable buf p" and w: "w \<in> set (all_patches buf p idn)"
  shows "w \<in> set (text_patches p) \<or> (\<exists>k. k \<noteq> sg_lc_off (pl_text p) \<and> owned buf k w)"
    "w \<in> set (data_patches buf p) \<or> (\<exists>k. k \<noteq> sg_lc_off (pl_data p) \<and> owned buf k w)"
    "w \<in> set (le_patches p @ [sig_patches p idn ! 2]) \<or> (\<exists>k. k \<noteq> sg_lc_off (pl_le p) \<and> owned buf k w)"
proof -
  note own = patches_owned [OF p, of w] and ne = packable_distinct [OF p]
  have ok: "commands_ok buf" using p by (simp add: packable_def)
  consider (t) "w \<in> set (text_patches p)" | (d) "w \<in> set (data_patches buf p)" | (l) "w \<in> set (le_patches p)" |
    (k) "w \<in> set (link_patches buf p)" | (s) "w \<in> set (sig_patches p idn)"
    using w by (auto simp: all_patches_def)
  note cases = this
  have late: "\<exists>k. k \<noteq> sg_lc_off (pl_text p) \<and> k \<noteq> sg_lc_off (pl_data p) \<and> owned buf k w"
    if "w \<in> set (le_patches p @ link_patches buf p @ sig_patches p idn)"
    using late_owner [OF p that] by blast
  have split: "w \<in> set (text_patches p) \<or> w \<in> set (data_patches buf p) \<or>
      w \<in> set (le_patches p @ link_patches buf p @ sig_patches p idn)"
    using w by (auto simp: all_patches_def)
  show "w \<in> set (text_patches p) \<or> (\<exists>k. k \<noteq> sg_lc_off (pl_text p) \<and> owned buf k w)"
    using split
  proof (elim disjE)
    assume "w \<in> set (data_patches buf p)"
    then show ?thesis using own(2) ne(1) by metis
  qed (use late in blast)+
  show "w \<in> set (data_patches buf p) \<or> (\<exists>k. k \<noteq> sg_lc_off (pl_data p) \<and> owned buf k w)"
    using split
  proof (elim disjE)
    assume "w \<in> set (text_patches p)"
    then show ?thesis using own(1) ne(1) by metis
  qed (use late in blast)+
  show "w \<in> set (le_patches p @ [sig_patches p idn ! 2]) \<or> (\<exists>k. k \<noteq> sg_lc_off (pl_le p) \<and> owned buf k w)"
    using cases
  proof cases
    case t
    then show ?thesis using own(1) ne(2) by metis
  next
    case d
    then show ?thesis using own(2) ne(3) by metis
  next
    case k
    then show ?thesis using link_owner [OF p k] by blast
  next
    case s
    obtain sz where e: "(pl_codesig p, LC_CODE_SIGNATURE, sz) \<in> set (lcs buf)" and sz: "16 \<le> sz"
      using packable_codesig(1) [OF p] by blast
    have "in_cmd (pl_codesig p, LC_CODE_SIGNATURE, sz) w \<or> w = sig_patches p idn ! 2"
      using s sz by (auto simp: sig_patches_def in_cmd_def)
    then have "owned buf (pl_codesig p) w \<or> w = sig_patches p idn ! 2" using e unfolding owned_def by blast
    then show ?thesis using codesig_ne [OF p] by auto
  qed simp
qed

lemma read_segment_upd:
  assumes p: "packable buf p" and s: "s \<in> {pl_text p, pl_data p, pl_le p}"
    and keep: "buf_get (sg_lc_off s + 8) 16 (packed_code buf p) = buf_get (sg_lc_off s + 8) 16 buf"
      "buf_get (sg_lc_off s + 64) 4 (packed_code buf p) = buf_get (sg_lc_off s + 64) 4 buf"
  shows "read_segment (packed_code buf p) (sg_lc_off s) =
    Some (s\<lparr>sg_vmaddr := buf_u64 (sg_lc_off s + 24) (packed_code buf p), sg_vmsize := buf_u64 (sg_lc_off s + 32) (packed_code buf p),
            sg_fileoff := buf_u64 (sg_lc_off s + 40) (packed_code buf p), sg_filesize := buf_u64 (sg_lc_off s + 48) (packed_code buf p)\<rparr>)"
  unfolding read_segment_code [OF p s]
  using keep read_segment_fields [OF packable_segment(2) [OF p s]]
  by (intro arg_cong [where f = Some] segment.equality) (simp_all add: buf_u32_def)


lemma buf_u64_keep: "buf_get k 8 a = buf_get k 8 b \<Longrightarrow> buf_u64 k a = buf_u64 k b" by (rule buf_u64_get)

lemma buf_u32_keep: "buf_get k 4 a = buf_get k 4 b \<Longrightarrow> buf_u32 k a = buf_u32 k b" by (simp add: buf_u32_def)

lemma read_section_fields:
  assumes "read_section buf k = Some s"
  shows "sr_addr s = buf_u64 (k + 32) buf" "sr_size s = buf_u64 (k + 40) buf" "sr_offset s = buf_u32 (k + 48) buf"
    "sr_align s = buf_u32 (k + 52) buf"
  using assms by (auto simp: read_section_def bind_eq_Some_conv r_u64_def r_u32_def split: if_splits)

lemma text_table:
  assumes p: "packable buf p"
  shows "read_segment (packed_code buf p) (sg_lc_off (pl_text p)) =
      Some ((pl_text p)\<lparr>sg_vmsize := PAGE, sg_filesize := text_content_end p\<rparr>)"
    "read_section (packed_code buf p) (sg_lc_off (pl_text p) + 72) =
      Some ((pl_text_sect p)\<lparr>sr_addr := sg_vmaddr (pl_text p) + new_text_off p, sr_offset := ucast (new_text_off p)\<rparr>)"
    "read_section (packed_code buf p) (sg_lc_off (pl_text p) + 152) =
      Some ((pl_const_sect p)\<lparr>sr_addr := sg_vmaddr (pl_text p) + new_const_off p, sr_offset := ucast (new_const_off p)\<rparr>)"
proof -
  let ?k = "sg_lc_off (pl_text p)" and ?s = "pl_text p" and ?code = "packed_code buf p"
  note ts = packable_text_sects [OF p] and d = decide_Repack [of buf p]
  have dec: "decide buf = Some (Repack p)" using p by (simp add: packable_def)
  have tp: "text_patches p = [(?k + 32, le_bytes 8 PAGE), (?k + 48, le_bytes 8 (text_content_end p)),
      (?k + 72 + 32, le_bytes 8 (sg_vmaddr ?s + new_text_off p)), (?k + 72 + 48, le_bytes 4 (ucast (new_text_off p) :: u32)),
      (?k + 152 + 32, le_bytes 8 (sg_vmaddr ?s + new_const_off p)), (?k + 152 + 48, le_bytes 4 (ucast (new_const_off p) :: u32))]"
    unfolding text_patches_def Let_def ts(1,2) ..
  have mem: "w \<in> set (all_patches buf p IDENT)" if "w \<in> set (text_patches p)" for w
    using that by (simp add: all_patches_def)
  have keep: "buf_get j m ?code = buf_get j m buf"
    if "\<forall>w\<in>set (text_patches p). clear_of j m w" "?k \<le> j" "j + m \<le> ?k + 232" for j m
    using that ts(3) by (intro seg_keep [OF p, of ?s "text_patches p"] seg_groups(1) [OF p]) simp_all
  have k8: "buf_get (?k + 8) 16 ?code = buf_get (?k + 8) 16 buf" "buf_get (?k + 64) 4 ?code = buf_get (?k + 64) 4 buf"
    "buf_get (?k + 24) 8 ?code = buf_get (?k + 24) 8 buf" "buf_get (?k + 40) 8 ?code = buf_get (?k + 40) 8 buf"
    "buf_get (?k + 72 + 40) 8 ?code = buf_get (?k + 72 + 40) 8 buf" "buf_get (?k + 72 + 52) 4 ?code = buf_get (?k + 72 + 52) 4 buf"
    "buf_get (?k + 152 + 40) 8 ?code = buf_get (?k + 152 + 40) 8 buf" "buf_get (?k + 152 + 52) 4 ?code = buf_get (?k + 152 + 52) 4 buf"
    by (rule keep; simp add: tp clear_of_def)+
  have new: "buf_u64 (?k + 32) ?code = PAGE" "buf_u64 (?k + 48) ?code = text_content_end p"
    "buf_u64 (?k + 72 + 32) ?code = sg_vmaddr ?s + new_text_off p" "buf_u32 (?k + 72 + 48) ?code = ucast (new_text_off p)"
    "buf_u64 (?k + 152 + 32) ?code = sg_vmaddr ?s + new_const_off p" "buf_u32 (?k + 152 + 48) ?code = ucast (new_const_off p)"
    by ((rule code_u64 [OF p mem] | rule code_u32 [OF p mem]), simp add: tp)+
  note rs = read_segment_fields [OF packable_segment(2) [OF p, of ?s]]
  show "read_segment ?code ?k = Some (?s\<lparr>sg_vmsize := PAGE, sg_filesize := text_content_end p\<rparr>)"
  proof -
    have "buf_u64 (?k + 24) ?code = sg_vmaddr ?s" "buf_u64 (?k + 40) ?code = sg_fileoff ?s"
      using rs(3,5) buf_u64_keep [OF k8(3)] buf_u64_keep [OF k8(4)] by simp_all
    then show ?thesis
      unfolding read_segment_upd [OF p _ k8(1,2), simplified] new(1,2)
      by (intro arg_cong [where f = Some] segment.equality) simp_all
  qed
  obtain sz where "232 \<le> sz" "?k + sz \<le> commands_end buf"
    using packable_segment(1) [OF p, of ?s] ts(3) by auto
  then have len: "?k + 232 \<le> length ?code" using code_bounds(2,3) [OF p] by linarith
  have t: "sr_size (pl_text_sect p) = buf_u64 (?k + 72 + 40) buf" "sr_align (pl_text_sect p) = buf_u32 (?k + 72 + 52) buf"
    using read_section_fields(2,4) [OF decide_Repack(5) [OF dec]] unfolding ts(1) by simp_all
  have c: "sr_size (pl_const_sect p) = buf_u64 (?k + 152 + 40) buf" "sr_align (pl_const_sect p) = buf_u32 (?k + 152 + 52) buf"
    using read_section_fields(2,4) [OF decide_Repack(6) [OF dec]] unfolding ts(2) by simp_all
  show "read_section ?code (?k + 72) =
      Some ((pl_text_sect p)\<lparr>sr_addr := sg_vmaddr ?s + new_text_off p, sr_offset := ucast (new_text_off p)\<rparr>)"
    using len new(3,4) t buf_u64_keep [OF k8(5)] buf_u32_keep [OF k8(6)]
    by (simp add: read_section_def r_u64_def r_u32_def)
  show "read_section ?code (?k + 152) =
      Some ((pl_const_sect p)\<lparr>sr_addr := sg_vmaddr ?s + new_const_off p, sr_offset := ucast (new_const_off p)\<rparr>)"
    using len new(5,6) c buf_u64_keep [OF k8(7)] buf_u32_keep [OF k8(8)]
    by (simp add: read_section_def r_u64_def r_u32_def)
qed

lemma le_table:
  assumes p: "packable buf p"
  shows "read_segment (packed_code buf p) (sg_lc_off (pl_le p)) =
    Some ((pl_le p)\<lparr>sg_vmaddr := sg_vmaddr (pl_le p) - SHIFT, sg_fileoff := new_le_fileoff p,
      sg_filesize := code_limit p - new_le_fileoff p + of_nat (sig_size (code_limit p) IDENT)\<rparr>)"
proof -
  let ?k = "sg_lc_off (pl_le p)" and ?s = "pl_le p" and ?code = "packed_code buf p"
  let ?G = "le_patches p @ [sig_patches p IDENT ! 2]"
  have mem: "w \<in> set (all_patches buf p IDENT)" if "w \<in> set ?G" for w
    using that by (auto simp: all_patches_def sig_patches_def)
  have keep: "buf_get j m ?code = buf_get j m buf"
    if "\<forall>w\<in>set ?G. clear_of j m w" "?k \<le> j" "j + m \<le> ?k + 72" for j m
    using that by (intro seg_keep [OF p, of ?s ?G] seg_groups(3) [OF p]) simp_all
  have k8: "buf_get (?k + 8) 16 ?code = buf_get (?k + 8) 16 buf" "buf_get (?k + 64) 4 ?code = buf_get (?k + 64) 4 buf"
    "buf_get (?k + 32) 8 ?code = buf_get (?k + 32) 8 buf"
    by (rule keep; simp add: le_patches_def Let_def sig_patches_def clear_of_def)+
  have new: "buf_u64 (?k + 24) ?code = sg_vmaddr ?s - SHIFT" "buf_u64 (?k + 40) ?code = new_le_fileoff p"
    "buf_u64 (?k + 48) ?code = code_limit p - new_le_fileoff p + of_nat (sig_size (code_limit p) IDENT)"
    by (rule code_u64 [OF p mem], simp add: le_patches_def Let_def sig_patches_def)+
  show ?thesis
  proof -
    have "buf_u64 (?k + 32) ?code = sg_vmsize ?s"
      using read_segment_fields(4) [OF packable_segment(2) [OF p, of ?s]] buf_u64_keep [OF k8(3)] by simp
    then show ?thesis
      unfolding read_segment_upd [OF p _ k8(1,2), simplified] new
      by (intro arg_cong [where f = Some] segment.equality) simp_all
  qed
qed


lemma data_table:
  assumes p: "packable buf p"
  shows "read_segment (packed_code buf p) (sg_lc_off (pl_data p)) =
      Some ((pl_data p)\<lparr>sg_vmaddr := sg_vmaddr (pl_data p) - SHIFT, sg_fileoff := PAGE\<rparr>)"
    "so \<in> set (sg_sect_offs (pl_data p)) \<Longrightarrow>
      read_section (packed_code buf p) so = map_option (\<lambda>s. s\<lparr>sr_addr := sr_addr s - SHIFT\<rparr>) (read_section buf so)"
proof -
  let ?k = "sg_lc_off (pl_data p)" and ?s = "pl_data p" and ?code = "packed_code buf p"
  have ok: "commands_ok buf" using p by (simp add: packable_def)
  have sects: "sg_sect_offs ?s = map (\<lambda>i. ?k + 72 + i * 80) [0..<unat (sg_nsects ?s)]"
    by (rule packable_segment(3) [OF p]) simp
  have mem: "w \<in> set (all_patches buf p IDENT)" if "w \<in> set (data_patches buf p)" for w
    using that by (simp add: all_patches_def)
  have keep: "buf_get j m ?code = buf_get j m buf"
    if "\<forall>w\<in>set (data_patches buf p). clear_of j m w" "?k \<le> j" "j + m \<le> ?k + 72 + 80 * unat (sg_nsects ?s)" for j m
    using that by (intro seg_keep [OF p, of ?s "data_patches buf p"] seg_groups(2) [OF p]) simp_all
  have k8: "buf_get (?k + 8) 16 ?code = buf_get (?k + 8) 16 buf" "buf_get (?k + 64) 4 ?code = buf_get (?k + 64) 4 buf"
    "buf_get (?k + 32) 8 ?code = buf_get (?k + 32) 8 buf" "buf_get (?k + 48) 8 ?code = buf_get (?k + 48) 8 buf"
    by (rule keep; auto simp: data_patches_def Let_def sects sec_patches_def clear_of_def)+
  have new: "buf_u64 (?k + 24) ?code = sg_vmaddr ?s - SHIFT" "buf_u64 (?k + 40) ?code = PAGE"
    by (rule code_u64 [OF p mem], simp add: data_patches_def Let_def)+
  show "read_segment ?code ?k = Some (?s\<lparr>sg_vmaddr := sg_vmaddr ?s - SHIFT, sg_fileoff := PAGE\<rparr>)"
  proof -
    have "buf_u64 (?k + 32) ?code = sg_vmsize ?s" "buf_u64 (?k + 48) ?code = sg_filesize ?s"
      using read_segment_fields(4,6) [OF packable_segment(2) [OF p, of ?s]] buf_u64_keep [OF k8(3)] buf_u64_keep [OF k8(4)]
      by simp_all
    then show ?thesis
      unfolding read_segment_upd [OF p _ k8(1,2), simplified] new
      by (intro arg_cong [where f = Some] segment.equality) simp_all
  qed
  assume so: "so \<in> set (sg_sect_offs ?s)"
  then obtain i where i: "i < unat (sg_nsects ?s)" "so = ?k + 72 + i * 80" by (auto simp: sects)
  have sp: "w \<in> set (data_patches buf p)" if "w \<in> set (sec_patches buf so)" for w
    using that so by (auto simp: data_patches_def Let_def)
  have "clear_of (so + 40) 8 w \<and> clear_of (so + 52) 4 w"
    if w: "w \<in> set (sec_patches buf so')" and so': "so' \<in> set (sg_sect_offs ?s)" for w so'
  proof -
    obtain i' where i': "so' = ?k + 72 + i' * 80" using so' by (auto simp: sects)
    have "i' < i \<or> i' = i \<or> i < i'" by linarith
    then have "so' + 80 \<le> so \<or> so' = so \<or> so + 80 \<le> so'" unfolding i(2) i' by (elim disjE) auto
    then show ?thesis using w by (auto simp: sec_patches_def clear_of_def)
  qed
  then have "\<forall>w\<in>set (data_patches buf p). clear_of (so + 40) 8 w" "\<forall>w\<in>set (data_patches buf p). clear_of (so + 52) 4 w"
    using i by (auto simp: data_patches_def Let_def clear_of_def)
  then have kept: "buf_get (so + 40) 8 ?code = buf_get (so + 40) 8 buf" "buf_get (so + 52) 4 ?code = buf_get (so + 52) 4 buf"
    using i by (auto intro!: keep)
  have patched: "buf_u64 (so + 32) ?code = buf_u64 (so + 32) buf - SHIFT" "buf_u32 (so + 48) ?code = buf_u32 (so + 48) buf"
    by ((rule code_u64 [OF p mem [OF sp]] | rule code_u32 [OF p mem [OF sp]]), simp add: sec_patches_def)+
  obtain sz where "72 + 80 * unat (sg_nsects ?s) \<le> sz" "?k + sz \<le> commands_end buf"
    using packable_segment(1) [OF p, of ?s] by auto
  then have "so + 80 \<le> commands_end buf" using i by linarith
  then have "so + 80 \<le> length ?code" "so + 80 \<le> length buf"
    using code_bounds(2,3) [OF p] ok by (simp_all add: commands_ok_def)
  then show "read_section ?code so = map_option (\<lambda>s. s\<lparr>sr_addr := sr_addr s - SHIFT\<rparr>) (read_section buf so)"
    using patched buf_u64_keep [OF kept(1)] buf_u32_keep [OF kept(2)]
    by (simp add: read_section_def r_u64_def r_u32_def)
qed

lemma read_append:
  "k + 72 \<le> length a \<Longrightarrow> read_segment (a @ b) k = read_segment a k"
  "k + 80 \<le> length a \<Longrightarrow> read_section (a @ b) k = read_section a k"
  by (simp_all add: read_segment_def read_section_def subslice_def r_u32_def r_u64_def buf_u64_def buf_u32_def buf_get_append)


lemma packed_reads:
  assumes p: "packable buf p"
  shows "s \<in> {pl_text p, pl_data p, pl_le p} \<Longrightarrow>
      read_segment (packed_code buf p @ sg) (sg_lc_off s) = read_segment (packed_code buf p) (sg_lc_off s)"
    "so \<in> set (sg_sect_offs (pl_data p)) \<Longrightarrow> read_section (packed_code buf p @ sg) so = read_section (packed_code buf p) so"
    "d = 72 \<or> d = 152 \<Longrightarrow>
      read_section (packed_code buf p @ sg) (sg_lc_off (pl_text p) + d) = read_section (packed_code buf p) (sg_lc_off (pl_text p) + d)"
proof -
  have len: "sg_lc_off s + 72 + 80 * unat (sg_nsects s) \<le> length (packed_code buf p)"
    if s: "s \<in> {pl_text p, pl_data p, pl_le p}" for s
  proof -
    obtain sz where "72 + 80 * unat (sg_nsects s) \<le> sz" "sg_lc_off s + sz \<le> commands_end buf"
      using packable_segment(1) [OF p s] by blast
    then show ?thesis using code_bounds(2,3) [OF p] by linarith
  qed
  show "read_segment (packed_code buf p @ sg) (sg_lc_off s) = read_segment (packed_code buf p) (sg_lc_off s)"
    if s: "s \<in> {pl_text p, pl_data p, pl_le p}" for s
    using len [OF s] by (intro read_append(1)) linarith
  show "read_section (packed_code buf p @ sg) so = read_section (packed_code buf p) so" if so: "so \<in> set (sg_sect_offs (pl_data p))"
    using so len [of "pl_data p"] unfolding packable_segment(3) [OF p, of "pl_data p", simplified]
    by (intro read_append(2)) auto
  show "read_section (packed_code buf p @ sg) (sg_lc_off (pl_text p) + d) = read_section (packed_code buf p) (sg_lc_off (pl_text p) + d)"
    if d: "d = 72 \<or> d = 152"
    using d len [of "pl_text p"] packable_text_sects(3) [OF p] by (intro read_append(2)) auto
qed

text \<open>The table of segments: only the fields meant to move do, and \<open>__LINKEDIT\<close> ends with the file.\<close>

theorem packed_segments:
  assumes "packable buf p" "\<forall>x. length (sha x) = 32"
  shows "\<exists>f. pack sha buf = Some (Packed f) \<and>
    read_segment f (sg_lc_off (pl_text p)) = Some ((pl_text p)\<lparr>sg_vmsize := PAGE, sg_filesize := text_content_end p\<rparr>) \<and>
    read_section f (sg_lc_off (pl_text p) + 72) =
      Some ((pl_text_sect p)\<lparr>sr_addr := sg_vmaddr (pl_text p) + new_text_off p, sr_offset := ucast (new_text_off p)\<rparr>) \<and>
    read_section f (sg_lc_off (pl_text p) + 152) =
      Some ((pl_const_sect p)\<lparr>sr_addr := sg_vmaddr (pl_text p) + new_const_off p, sr_offset := ucast (new_const_off p)\<rparr>) \<and>
    read_segment f (sg_lc_off (pl_data p)) = Some ((pl_data p)\<lparr>sg_vmaddr := sg_vmaddr (pl_data p) - SHIFT, sg_fileoff := PAGE\<rparr>) \<and>
    (\<forall>so\<in>set (sg_sect_offs (pl_data p)).
       read_section f so = map_option (\<lambda>s. s\<lparr>sr_addr := sr_addr s - SHIFT\<rparr>) (read_section buf so)) \<and>
    read_segment f (sg_lc_off (pl_le p)) =
      Some ((pl_le p)\<lparr>sg_vmaddr := sg_vmaddr (pl_le p) - SHIFT, sg_fileoff := new_le_fileoff p,
        sg_filesize := of_nat (length f) - new_le_fileoff p\<rparr>)"
proof -
  note p = assms(1)
  obtain sg where sg: "pack sha buf = Some (Packed (packed_code buf p @ sg))" "length sg = sig_size (code_limit p) IDENT"
    using pack_packed [OF assms] by blast
  let ?f = "packed_code buf p @ sg"
  have "of_nat (length ?f) - new_le_fileoff p = code_limit p - new_le_fileoff p + of_nat (sig_size (code_limit p) IDENT)"
    using code_bounds(2) [OF p] sg(2) by simp
  then show ?thesis
    using sg(1) text_table [OF p] data_table [OF p] le_table [OF p]
    by (intro exI [of _ ?f]) (simp add: packed_reads [OF p] del: of_nat_add length_append)
qed

text \<open>C35: the distance from an instruction to its data, which \<open>adrp\<close> encodes. When the linker has put the sections into
  the second page, \<open>__text\<close> and the sections of \<open>__DATA\<close> move by the same page and every distance stays, as the
  packer intends. When they are in the first page, \<open>__text\<close> stays and \<open>__DATA\<close> moves, so that every
  reference is off by a page.\<close>

theorem packed_distances:
  assumes "packable buf p" "\<forall>x. length (sha x) = 32"
    and "sr_addr (pl_text_sect p) = sg_vmaddr (pl_text p) + ucast (sr_offset (pl_text_sect p))"
    and "so \<in> set (sg_sect_offs (pl_data p))" "read_section buf so = Some ds"
  shows "\<exists>f ts' ds'. pack sha buf = Some (Packed f) \<and>
    read_section f (sg_lc_off (pl_text p) + 72) = Some ts' \<and> read_section f so = Some ds' \<and>
    sr_addr ts' - sr_addr ds' = sr_addr (pl_text_sect p) - sr_addr ds + (if pl_in_page2 p then 0 else 0x4000)"
proof -
  note p = assms(1)
  obtain sg where sg: "pack sha buf = Some (Packed (packed_code buf p @ sg))" using pack_packed [OF assms(1,2)] by blast
  have "new_text_off p = ucast (sr_offset (pl_text_sect p)) - (if pl_in_page2 p then 0x4000 else 0)"
    by (simp add: new_text_off_def moved_off_def SHIFT_def PAGE_def)
  then have "sg_vmaddr (pl_text p) + new_text_off p - (sr_addr ds - SHIFT) =
      sr_addr (pl_text_sect p) - sr_addr ds + (if pl_in_page2 p then 0 else 0x4000)"
    by (simp add: assms(3) SHIFT_def PAGE_def)
  moreover have "read_section (packed_code buf p @ sg) so = Some (ds\<lparr>sr_addr := sr_addr ds - SHIFT\<rparr>)"
    using data_table(2) [OF p assms(4)] assms(5) by (simp add: packed_reads(2) [OF p assms(4)])
  moreover have "read_section (packed_code buf p @ sg) (sg_lc_off (pl_text p) + 72) =
      Some ((pl_text_sect p)\<lparr>sr_addr := sg_vmaddr (pl_text p) + new_text_off p, sr_offset := ucast (new_text_off p)\<rparr>)"
    by (simp add: packed_reads(3) [OF p] text_table(2) [OF p])
  ultimately show ?thesis using sg by (intro exI conjI) (assumption | simp)+
qed

definition demo_program :: "u8 list" where
  "demo_program = [0xcf, 0xfa, 0xed, 0xfe] @ replicate 12 0 @ [5, 0, 0, 0, 0xf0, 1, 0, 0] @ replicate 8 0 @
     ([0x19, 0, 0, 0, 232, 0, 0, 0] @ TEXT_NAME @ replicate 10 0 @ [0, 0, 0, 0, 1, 0, 0, 0] @ [0, 0x80, 0, 0, 0, 0, 0, 0] @
      replicate 8 0 @ [0, 0x80, 0, 0, 0, 0, 0, 0] @ replicate 8 0 @ [2, 0, 0, 0] @ replicate 4 0 @
      (replicate 32 0 @ [0x10, 2, 0, 0, 1, 0, 0, 0] @ [4, 0, 0, 0, 0, 0, 0, 0] @ [0x10, 2, 0, 0] @ replicate 28 0) @
      (replicate 32 0 @ [0x14, 2, 0, 0, 1, 0, 0, 0] @ [4, 0, 0, 0, 0, 0, 0, 0] @ [0x14, 2, 0, 0] @ replicate 28 0)) @
     ([0x19, 0, 0, 0, 152, 0, 0, 0] @ DATA_NAME @ replicate 10 0 @ [0, 0x80, 0, 0, 1, 0, 0, 0] @ [0, 0x40, 0, 0, 0, 0, 0, 0] @
      [0x18, 2, 0, 0, 0, 0, 0, 0] @ [4, 0, 0, 0, 0, 0, 0, 0] @ replicate 8 0 @ [1, 0, 0, 0] @ replicate 4 0 @
      (replicate 32 0 @ [0, 0x80, 0, 0, 1, 0, 0, 0] @ [4, 0, 0, 0, 0, 0, 0, 0] @ [0x18, 2, 0, 0] @ replicate 28 0)) @
     ([0x19, 0, 0, 0, 72, 0, 0, 0] @ LINKEDIT_NAME @ replicate 6 0 @ [0, 0xc0, 0, 0, 1, 0, 0, 0] @ [0, 0x40, 0, 0, 0, 0, 0, 0] @
      [0x1c, 2, 0, 0, 0, 0, 0, 0] @ [12, 0, 0, 0, 0, 0, 0, 0] @ replicate 16 0) @
     [2, 0, 0, 0, 24, 0, 0, 0, 0x1c, 2, 0, 0, 1, 0, 0, 0, 0x20, 2, 0, 0, 4, 0, 0, 0] @
     [0x1d, 0, 0, 0, 16, 0, 0, 0, 0x24, 2, 0, 0, 4, 0, 0, 0] @
     [1, 2, 3, 4] @ [5, 6, 7, 8] @ [9, 10, 11, 12] @ [13, 14, 15, 16] @ [17, 18, 19, 20] @ [21, 22, 23, 24]"

lemma len_demo: "length demo_program = 552" by (simp add: demo_program_def TEXT_NAME_def DATA_NAME_def LINKEDIT_NAME_def)

definition demo_plan :: plan where
  "demo_plan =
     \<lparr>pl_text = \<lparr>sg_lc_off = 32, sg_name = TEXT_NAME @ replicate 10 0, sg_vmaddr = 0x100000000, sg_vmsize = 0x8000, sg_fileoff = 0,
        sg_filesize = 0x8000, sg_nsects = 2, sg_sect_offs = [104, 184]\<rparr>,
      pl_data = \<lparr>sg_lc_off = 264, sg_name = DATA_NAME @ replicate 10 0, sg_vmaddr = 0x100008000, sg_vmsize = 0x4000,
        sg_fileoff = 0x218, sg_filesize = 4, sg_nsects = 1, sg_sect_offs = [336]\<rparr>,
      pl_le = \<lparr>sg_lc_off = 416, sg_name = LINKEDIT_NAME @ replicate 6 0, sg_vmaddr = 0x10000c000, sg_vmsize = 0x4000,
        sg_fileoff = 0x21c, sg_filesize = 12, sg_nsects = 0, sg_sect_offs = []\<rparr>,
      pl_text_sect = \<lparr>sr_addr = 0x100000210, sr_size = 4, sr_offset = 0x210, sr_align = 0\<rparr>,
      pl_const_sect = \<lparr>sr_addr = 0x100000214, sr_size = 4, sr_offset = 0x214, sr_align = 0\<rparr>,
      pl_in_page2 = False, pl_header = 0x210, pl_codesig = 512, pl_codesig_dataoff = 0x224\<rparr>"

lemma demo_reads:
  shows "buf_u32 0 demo_program = 0xfeedfacf" "buf_u32 16 demo_program = 0x5" "buf_u32 20 demo_program = 0x1f0" "buf_u32 32 demo_program = 0x19"
    "buf_u32 36 demo_program = 0xe8" "buf_u32 96 demo_program = 0x2" "buf_u32 152 demo_program = 0x210" "buf_u32 156 demo_program = 0x0"
    "buf_u32 232 demo_program = 0x214" "buf_u32 236 demo_program = 0x0" "buf_u32 264 demo_program = 0x19" "buf_u32 268 demo_program = 0x98"
    "buf_u32 328 demo_program = 0x1" "buf_u32 384 demo_program = 0x218" "buf_u32 388 demo_program = 0x0" "buf_u32 416 demo_program = 0x19"
    "buf_u32 420 demo_program = 0x48" "buf_u32 480 demo_program = 0x0" "buf_u32 488 demo_program = 0x2" "buf_u32 492 demo_program = 0x18"
    "buf_u32 496 demo_program = 0x21c" "buf_u32 504 demo_program = 0x220" "buf_u32 512 demo_program = 0x1d" "buf_u32 516 demo_program = 0x10"
    "buf_u32 520 demo_program = 0x224" "buf_u64 56 demo_program = 0x100000000" "buf_u64 64 demo_program = 0x8000" "buf_u64 72 demo_program = 0x0"
    "buf_u64 80 demo_program = 0x8000" "buf_u64 136 demo_program = 0x100000210" "buf_u64 144 demo_program = 0x4"
    "buf_u64 216 demo_program = 0x100000214" "buf_u64 224 demo_program = 0x4" "buf_u64 288 demo_program = 0x100008000"
    "buf_u64 296 demo_program = 0x4000" "buf_u64 304 demo_program = 0x218" "buf_u64 312 demo_program = 0x4"
    "buf_u64 368 demo_program = 0x100008000" "buf_u64 376 demo_program = 0x4" "buf_u64 440 demo_program = 0x10000c000"
    "buf_u64 448 demo_program = 0x4000" "buf_u64 456 demo_program = 0x21c" "buf_u64 464 demo_program = 0xc"
  by (simp_all add: buf_u64_def buf_u32_def buf_get_def demo_program_def TEXT_NAME_def DATA_NAME_def LINKEDIT_NAME_def u32_le_def)
    (simp_all add: numeral_eq_Suc)

lemma demo_names:
  "buf_get 40 16 demo_program = TEXT_NAME @ replicate 10 0" "buf_get 272 16 demo_program = DATA_NAME @ replicate 10 0"
  "buf_get 424 16 demo_program = LINKEDIT_NAME @ replicate 6 0"
  by (simp_all add: buf_get_def demo_program_def TEXT_NAME_def DATA_NAME_def LINKEDIT_NAME_def)


lemma demo_lcs:
  "lcs demo_program = [(32, 0x19, 232), (264, 0x19, 152), (416, 0x19, 72), (488, 2, 24), (512, 0x1d, 16)]"
proof -
  have n5: "(5 :: nat) = Suc (Suc (Suc (Suc (Suc 0))))" by simp
  have n: "unat (buf_u32 16 demo_program) = 5" by (simp add: demo_reads)
  show ?thesis unfolding lcs_def n unfolding n5 by (simp add: demo_reads)
qed

lemma demo_segments:
  "parse_segments demo_program = Some [pl_text demo_plan, pl_data demo_plan, pl_le demo_plan]"
proof -
  have n5: "(5 :: nat) = Suc (Suc (Suc (Suc (Suc 0))))" by simp
  show ?thesis
    unfolding parse_segments_def r_u32_def
    by (simp add: demo_reads len_demo MH_MAGIC_64_def)
      (simp add: n5 demo_reads len_demo r_u32_def r_u64_def read_segment_def subslice_def demo_names demo_plan_def
        LC_SEGMENT_64_def upt_rec)
qed

lemma demo_decide: "decide demo_program = Some (Repack demo_plan)"
proof -
  have n5: "(5 :: nat) = Suc (Suc (Suc (Suc (Suc 0))))" by simp
  have names: "segment_named [pl_text demo_plan, pl_data demo_plan, pl_le demo_plan] TEXT_NAME = Some (pl_text demo_plan)"
    "segment_named [pl_text demo_plan, pl_data demo_plan, pl_le demo_plan] DATA_NAME = Some (pl_data demo_plan)"
    "segment_named [pl_text demo_plan, pl_data demo_plan, pl_le demo_plan] LINKEDIT_NAME = Some (pl_le demo_plan)"
    by (simp_all add: segment_named_def seg_is_def demo_plan_def TEXT_NAME_def DATA_NAME_def LINKEDIT_NAME_def byte_of_def)
  have cs: "find_codesig demo_program 5 32 = Some (512, 0x224)"
    by (simp add: n5 demo_reads len_demo r_u32_def LC_CODE_SIGNATURE_def)
  show ?thesis
    unfolding decide_def demo_segments
    by (simp add: names) (simp add: demo_plan_def read_section_def r_u32_def r_u64_def demo_reads len_demo PAGE_def SHIFT_def
        new_text_off_def new_const_off_def text_content_end_def moved_off_def cs)
qed

lemma demo_packable: "packable demo_program demo_plan"
proof -
  have "commands_ok demo_program"
    by (simp add: commands_ok_def commands_end_def demo_lcs demo_reads len_demo lc_least_def lc_defs)
  moreover have "contents_ok demo_program demo_plan" by (simp add: contents_ok_def demo_plan_def len_demo)
  ultimately show ?thesis by (simp add: packable_def demo_decide)
qed


subsection \<open>Witnesses\<close>


theorem packed_contents_witness:
  "\<exists>f. pack (\<lambda>x. replicate 32 0) demo_program = Some (Packed f) \<and> buf_get 0x210 4 f = [1, 2, 3, 4] \<and>
     buf_get 0x4000 4 f = replicate 4 0 \<and> buf_get 0x218 4 demo_program = [9, 10, 11, 12]"
proof -
  have src: "buf_get 0x210 4 demo_program = [1, 2, 3, 4]" "buf_get 0x218 4 demo_program = [9, 10, 11, 12]"
    by (simp_all add: buf_get_def demo_program_def TEXT_NAME_def DATA_NAME_def LINKEDIT_NAME_def)
  have n: "unat (new_text_off demo_plan) = 0x210" "unat (sr_size (pl_text_sect demo_plan)) = 4"
    "unat (sg_filesize (pl_data demo_plan)) = 4" "src_bytes demo_program (pl_text_sect demo_plan) = [1, 2, 3, 4]"
    using src(1) by (simp_all add: new_text_off_def moved_off_def demo_plan_def src_bytes_def)
  have sha: "\<forall>x. length ((\<lambda>x :: u8 list. replicate 32 (0 :: u8)) x) = 32" by simp
  from packed_contents [OF demo_packable sha, unfolded n] src(2) show ?thesis
    by (elim exE conjE) (intro exI conjI, assumption+)
qed

theorem packed_distances_witness:
  "\<exists>f ts' ds'. pack (\<lambda>x. replicate 32 0) demo_program = Some (Packed f) \<and> read_section f 104 = Some ts' \<and>
     read_section f 336 = Some ds' \<and> sr_addr ts' - sr_addr ds' = - 0x3df0 \<and>
     map_option sr_addr (read_section demo_program 336) = Some (0x100000210 + 0x7df0)"
proof -
  have "read_section demo_program 336 = Some \<lparr>sr_addr = 0x100008000, sr_size = 4, sr_offset = 0x218, sr_align = 0\<rparr>"
    by (simp add: read_section_def r_u64_def r_u32_def demo_reads len_demo)
  then show ?thesis
    using packed_distances [OF demo_packable, of "\<lambda>x. replicate 32 0" 336] by (auto simp: demo_plan_def)
qed

end
