(* ===== verification/Lifetimes.thy ===== *)
theory Lifetimes
  imports Arena
begin

text \<open>
  The discipline of the arena (src/src/arena.rs) as a whole: a program over a frame is any sequence of the calls
  the safe interface offers, scopes and compactions nested to any depth. What Rust's borrows promise is stated as
  a well-formed heap of live spans, and shown to hold of every such program.
\<close>

subsection \<open>Programs over a frame\<close>

text \<open>
  \<open>span\<close> with its build calls; \<open>alloc\<close>; \<open>reserve\<close>, filled by \<open>extend\<close> and frozen; a scope, whose spans die with
  it; and \<open>compact\<close>, whose closure may do anything before it builds the span it returns.
\<close>

datatype frame_op =
    Span layout "bop list"
  | Alloc layout "u8 list"
  | Reserve layout nat "u8 list list"
  | Scope "frame_op list"
  | Compact layout "frame_op list" "bop list"

type_synonym handle = "layout \<times> fspan"

definition reserve_frozen :: "layout \<Rightarrow> nat \<Rightarrow> u8 list list \<Rightarrow> arena \<Rightarrow> (fspan \<times> arena) option" where
  "reserve_frozen ly n vs a =
     Option.bind (reserve ly n a) (\<lambda>s. map_option (rs_freeze ly) (rs_extend ly vs s))"

definition keep :: "layout \<Rightarrow> (fspan \<times> arena) option \<Rightarrow> (arena \<Rightarrow> (handle list \<times> arena) option) \<Rightarrow> (handle list \<times> arena) option"
where
  "keep ly r rest =
     (case r of
        None \<Rightarrow> None
      | Some (sp, a) \<Rightarrow> map_option (\<lambda>(hs, b). ((ly, sp) # hs, b)) (rest a))"

fun exec :: "frame_op list \<Rightarrow> arena \<Rightarrow> (handle list \<times> arena) option" where
  "exec [] a = Some ([], a)"
| "exec (Span ly ops # ps) a = keep ly (span ly ops a) (exec ps)"
| "exec (Alloc ly v # ps) a = keep ly (map_option (\<lambda>(off, b). (\<lparr>sp_off = off, sp_len = 1\<rparr>, b)) (alloc ly v a)) (exec ps)"
| "exec (Reserve ly n vs # ps) a = keep ly (reserve_frozen ly n vs a) (exec ps)"
| "exec (Scope qs # ps) a = (case in_scope (exec qs) a of None \<Rightarrow> None | Some (_, b) \<Rightarrow> exec ps b)"
| "exec (Compact ly qs ops # ps) a =
     keep ly (compact ly (\<lambda>b. case exec qs b of None \<Rightarrow> None | Some (_, c) \<Rightarrow> span ly ops c) a) (exec ps)"

text \<open>What the type checker accepts: legal layouts, and values of the size of their type.\<close>

fun typed :: "frame_op list \<Rightarrow> bool" where
  "typed [] \<longleftrightarrow> True"
| "typed (Span ly ops # ps) \<longleftrightarrow> layout_ok ly \<and> list_all (bop_sized (ly_size ly)) ops \<and> typed ps"
| "typed (Alloc ly v # ps) \<longleftrightarrow> layout_ok ly \<and> length v = ly_size ly \<and> typed ps"
| "typed (Reserve ly n vs # ps) \<longleftrightarrow> layout_ok ly \<and> list_all (\<lambda>v. length v = ly_size ly) vs \<and> length vs \<le> n \<and> typed ps"
| "typed (Scope qs # ps) \<longleftrightarrow> typed qs \<and> typed ps"
| "typed (Compact ly qs ops # ps) \<longleftrightarrow> layout_ok ly \<and> typed qs \<and> list_all (bop_sized (ly_size ly)) ops \<and> typed ps"

text \<open>The values of the spans a program leaves, and the storage it may take, alignment included.\<close>

fun meaning :: "frame_op list \<Rightarrow> u8 list list list" where
  "meaning [] = []"
| "meaning (Span ly ops # ps) = bop_list [] ops # meaning ps"
| "meaning (Alloc ly v # ps) = [v] # meaning ps"
| "meaning (Reserve ly n vs # ps) = vs # meaning ps"
| "meaning (Scope qs # ps) = meaning ps"
| "meaning (Compact ly qs ops # ps) = bop_list [] ops # meaning ps"

fun need :: "frame_op list \<Rightarrow> nat" where
  "need [] = 0"
| "need (Span ly ops # ps) = MAX_ALIGN + sum_list (map bop_grow ops) * ly_size ly + need ps"
| "need (Alloc ly v # ps) = MAX_ALIGN + ly_size ly + need ps"
| "need (Reserve ly n vs # ps) = MAX_ALIGN + n * ly_size ly + need ps"
| "need (Scope qs # ps) = need qs + need ps"
| "need (Compact ly qs ops # ps) = need qs + MAX_ALIGN + sum_list (map bop_grow ops) * ly_size ly + need ps"

text \<open>A heap: the live spans are aligned, lie below the offset, and come one after the other.\<close>

definition sp_end :: "handle \<Rightarrow> nat" where "sp_end h = sp_off (snd h) + sp_len (snd h) * ly_size (fst h)"

definition heap_ok :: "handle list \<Rightarrow> arena \<Rightarrow> bool" where
  "heap_ok live a \<longleftrightarrow> ar_off a \<le> SIZE \<and>
     list_all (\<lambda>h. layout_ok (fst h) \<and> ly_align (fst h) dvd sp_off (snd h) \<and> sp_end h \<le> ar_off a) live \<and>
     sorted_wrt (\<lambda>h h'. sp_end h \<le> sp_off (snd h')) live"

definition held :: "arena \<Rightarrow> handle \<Rightarrow> u8 list list" where "held a h = span_vals (fst h) (snd h) a"

subsection \<open>One call\<close>

text \<open>
  What every call guarantees of the span it gives, from the arena \<open>a\<close> before and \<open>a'\<close> after it: it is new,
  aligned and inside the storage, holds \<open>vs\<close>, and nothing below the old offset is touched.
\<close>

definition gives :: "layout \<Rightarrow> u8 list list \<Rightarrow> arena \<Rightarrow> fspan \<Rightarrow> arena \<Rightarrow> bool" where
  "gives ly vs a sp a' \<longleftrightarrow>
     layout_ok ly \<and> ly_align ly dvd sp_off sp \<and> ar_off a \<le> sp_off sp \<and> sp_off sp \<le> ar_off a + MAX_ALIGN \<and>
     sp_off sp + sp_len sp * ly_size ly = ar_off a' \<and>
     ar_off a' \<le> SIZE \<and> span_vals ly sp a' = vs \<and> (\<forall>i < ar_off a. ar_mem a' i = ar_mem a i)"

lemma align_up_near:
  assumes "layout_ok ly" "n \<le> SIZE"
  shows "n \<le> align_up n (ly_align ly)" "align_up n (ly_align ly) \<le> n + MAX_ALIGN" "ly_align ly dvd align_up n (ly_align ly)"
proof -
  have n: "n \<le> 2 * SIZE" using assms(2) by simp
  note f = align_up_facts [OF layout_ok_align [OF assms(1)] n]
  have "ly_align ly \<le> MAX_ALIGN" using layout_ok_align [OF assms(1)] by (auto simp: MAX_ALIGN_def)
  then show "align_up n (ly_align ly) \<le> n + MAX_ALIGN" using f(3) by linarith
  show "n \<le> align_up n (ly_align ly)" "ly_align ly dvd align_up n (ly_align ly)" by (fact f(2), fact f(1))
qed

lemma span_gives:
  assumes ly: "layout_ok ly" and sz: "list_all (bop_sized (ly_size ly)) ops" and a: "ar_off a \<le> SIZE"
  shows "span ly ops a = Some (sp, a') \<Longrightarrow> gives ly (bop_list [] ops) a sp a'"
    "ar_off a + MAX_ALIGN + sum_list (map bop_grow ops) * ly_size ly \<le> SIZE \<Longrightarrow> span ly ops a \<noteq> None"
proof -
  have "\<forall>op\<in>set ops. bop_sized (ly_size ly) op" using sz by (simp add: list_all_iff)
  note r = span_result [OF ly a this] and up = align_up_near [OF ly a]
  show "gives ly (bop_list [] ops) a sp a'" if "span ly ops a = Some (sp, a')"
    using r up ly that by (simp add: gives_def)
  show "span ly ops a \<noteq> None" if "ar_off a + MAX_ALIGN + sum_list (map bop_grow ops) * ly_size ly \<le> SIZE"
  proof
    assume "span ly ops a = None"
    then show False using r up(2) that by simp
  qed
qed

lemma bop_list_grow: "length (bop_list vs ops) \<le> length vs + sum_list (map bop_grow ops)"
proof (induction vs ops rule: bop_list.induct)
  case (4 vs bs)
  then show ?case using diff_le_self [of "length vs" 1] by (simp del: diff_le_self)
qed simp_all

lemma bump_gives:
  assumes ly: "layout_ok ly" and a: "ar_off a \<le> SIZE"
  shows "bump n (ly_align ly) a = Some (off, b) \<Longrightarrow>
      off = align_up (ar_off a) (ly_align ly) \<and> b = a\<lparr>ar_off := off + n\<rparr> \<and> off + n \<le> SIZE"
    "ar_off a + MAX_ALIGN + n \<le> SIZE \<Longrightarrow> bump n (ly_align ly) a \<noteq> None"
proof -
  have al: "ly_align ly \<le> MAX_ALIGN" using layout_ok_align [OF ly] by (auto simp: MAX_ALIGN_def)
  show "bump n (ly_align ly) a = Some (off, b) \<Longrightarrow>
      off = align_up (ar_off a) (ly_align ly) \<and> b = a\<lparr>ar_off := off + n\<rparr> \<and> off + n \<le> SIZE"
    by (auto simp: bump_def Let_def split: if_splits)
  show "ar_off a + MAX_ALIGN + n \<le> SIZE \<Longrightarrow> bump n (ly_align ly) a \<noteq> None"
    using al align_up_near(2) [OF ly a] by (auto simp: bump_def Let_def SIZE_def)
qed

lemma alloc_gives:
  assumes ly: "layout_ok ly" and v: "length v = ly_size ly" and a: "ar_off a \<le> SIZE"
  shows "alloc ly v a = Some (off, a') \<Longrightarrow> gives ly [v] a \<lparr>sp_off = off, sp_len = 1\<rparr> a'"
    "ar_off a + MAX_ALIGN + ly_size ly \<le> SIZE \<Longrightarrow> alloc ly v a \<noteq> None"
proof -
  note b = bump_gives [OF ly a] and up = align_up_near [OF ly a]
  show "gives ly [v] a \<lparr>sp_off = off, sp_len = 1\<rparr> a'" if al: "alloc ly v a = Some (off, a')"
  proof -
    obtain c where c: "bump (ly_size ly) (ly_align ly) a = Some (off, c)" "a' = write_at off v c"
      using al by (auto simp: alloc_def)
    have "read_at off (ly_size ly) a' = v" unfolding c(2) by (rule read_at_write_same [OF v])
    then show ?thesis using b(1) [OF c(1)] up ly unfolding c(2) by (auto simp: gives_def span_vals_def write_at_mem)
  qed
  show "ar_off a + MAX_ALIGN + ly_size ly \<le> SIZE \<Longrightarrow> alloc ly v a \<noteq> None" using b(2) by (simp add: alloc_def)
qed

lemma reserve_gives:
  assumes ly: "layout_ok ly" and vs: "list_all (\<lambda>v. length v = ly_size ly) vs" "length vs \<le> n" and a: "ar_off a \<le> SIZE"
  shows "reserve_frozen ly n vs a = Some (sp, a') \<Longrightarrow> gives ly vs a sp a'"
    "ar_off a + MAX_ALIGN + n * ly_size ly \<le> SIZE \<Longrightarrow> reserve_frozen ly n vs a \<noteq> None"
proof -
  note b = bump_gives [OF ly a] and up = align_up_near [OF ly a]
  show "gives ly vs a sp a'" if r: "reserve_frozen ly n vs a = Some (sp, a')"
  proof -
    obtain s t where s: "reserve ly n a = Some s" "rs_extend ly vs s = Some t" "rs_freeze ly t = (sp, a')"
      using r by (auto simp: reserve_frozen_def bind_eq_Some_conv)
    obtain off c where c: "bump (ly_size ly * n) (ly_align ly) a = Some (off, c)" "s = (\<lparr>rs_off = off, rs_cap = n, rs_len = 0\<rparr>, c)"
      using s(1) by (auto simp: reserve_def)
    have "reserved ly [] s" by (rule reserve_reserved [OF ly a s(1)])
    then have r0: "reserved ly [] (\<lparr>rs_off = off, rs_cap = n, rs_len = 0\<rparr>, c)" by (simp only: c(2))
    have "\<forall>v\<in>set vs. length v = ly_size ly" using vs(1) by (simp add: list_all_iff)
    from rs_extend_reserved [OF r0 this] have "reserved ly vs t" using s(2) unfolding c(2) by simp
    note f = rs_freeze_reserved [OF this s(3)]
    have "sp_off sp = off" "\<forall>i < off. ar_mem a' i = ar_mem c i"
      using s(2,3) unfolding c(2) by (auto simp: rs_extend_def rs_freeze_def write_at_mem split: if_splits)
    then show ?thesis using f b(1) [OF c(1)] up ly by (auto simp: gives_def)
  qed
  show "reserve_frozen ly n vs a \<noteq> None" if room: "ar_off a + MAX_ALIGN + n * ly_size ly \<le> SIZE"
  proof -
    obtain off c where "bump (ly_size ly * n) (ly_align ly) a = Some (off, c)"
      using b(2) [of "ly_size ly * n"] room by (auto simp: mult.commute)
    then show ?thesis using vs(2) by (auto simp: reserve_frozen_def reserve_def rs_extend_def)
  qed
qed

subsection \<open>Sequences of calls\<close>

text \<open>What a program leaves: its spans, in the order it made them, with their values.\<close>

definition leaves :: "handle list \<Rightarrow> u8 list list list \<Rightarrow> arena \<Rightarrow> arena \<Rightarrow> bool" where
  "leaves hs vss a a' \<longleftrightarrow>
     ar_off a \<le> ar_off a' \<and> ar_off a' \<le> SIZE \<and> (\<forall>i < ar_off a. ar_mem a' i = ar_mem a i) \<and>
     list_all (\<lambda>h. layout_ok (fst h) \<and> ly_align (fst h) dvd sp_off (snd h) \<and> ar_off a \<le> sp_off (snd h) \<and> sp_end h \<le> ar_off a') hs \<and>
     sorted_wrt (\<lambda>h h'. sp_end h \<le> sp_off (snd h')) hs \<and> map (held a') hs = vss"

lemma held_same: "sp_end h \<le> n \<Longrightarrow> \<forall>i<n. ar_mem b i = ar_mem a i \<Longrightarrow> held b h = held a h"
  unfolding held_def sp_end_def by (rule span_vals_read) auto

lemma leaves_cons:
  assumes g: "gives ly vs a sp b" and l: "leaves hs vss b a'"
  shows "leaves ((ly, sp) # hs) (vs # vss) a a'"
proof -
  have e: "sp_end (ly, sp) = ar_off b" using g by (simp add: gives_def sp_end_def)
  have "held a' (ly, sp) = held b (ly, sp)" using e l by (intro held_same [of _ "ar_off b"]) (simp_all add: leaves_def)
  then have "held a' (ly, sp) = vs" using g by (simp add: held_def gives_def)
  moreover have "ar_off a \<le> ar_off b" using g by (simp add: gives_def)
  ultimately show ?thesis using g l e by (auto simp: leaves_def gives_def list_all_iff)
qed

lemma compact_gives:
  assumes ly: "layout_ok ly" and sz: "list_all (bop_sized (ly_size ly)) ops" and a: "ar_off a \<le> SIZE"
    and inner: "\<And>b. ar_off b \<le> SIZE \<Longrightarrow> (case run b of None \<Rightarrow> SIZE < ar_off b + nd
      | Some (hs, c) \<Rightarrow> leaves hs vss b c \<and> ar_off c \<le> ar_off b + nd)"
  defines "build \<equiv> \<lambda>b. case run b of None \<Rightarrow> None | Some (_, c) \<Rightarrow> span ly ops c"
  shows "compact ly build a = Some (sp, a') \<Longrightarrow> gives ly (bop_list [] ops) a sp a'"
    "ar_off a + nd + MAX_ALIGN + sum_list (map bop_grow ops) * ly_size ly \<le> SIZE \<Longrightarrow> compact ly build a \<noteq> None"
proof -
  have b: "\<exists>hs c. run b = Some (hs, c) \<and> leaves hs vss b c \<and> gives ly (bop_list [] ops) c sp' b'"
    if o': "ar_off b \<le> SIZE" "build b = Some (sp', b')" for b sp' b'
  proof -
    obtain hs c where r: "run b = Some (hs, c)" "span ly ops c = Some (sp', b')"
      using o'(2) by (auto simp: build_def split: option.splits)
    then have l: "leaves hs vss b c" using inner [OF o'(1)] by simp
    then have "ar_off c \<le> SIZE" by (simp add: leaves_def)
    then show ?thesis using span_gives(1) [OF ly sz _ r(2)] r(1) l by blast
  qed
  have sb: "scratch_build build ly"
  proof unfold_locales
    show "layout_ok ly" by (rule ly)
    fix b :: arena and sp' b' i
    assume o': "ar_off b \<le> SIZE" "build b = Some (sp', b')"
    obtain hs c where l: "leaves hs vss b c" and g: "gives ly (bop_list [] ops) c sp' b'" using b [OF o'] by blast
    have bc: "ar_off b \<le> sp_off sp'" using l g by (simp add: leaves_def gives_def)
    have "ar_off b \<le> 2 * SIZE" using o'(1) by simp
    from align_up_facts(5) [OF layout_ok_align [OF ly] this _ bc]
    show "align_up (ar_off b) (ly_align ly) \<le> sp_off sp'" using g by (simp add: gives_def)
    show "sp_off sp' + sp_len sp' * ly_size ly \<le> SIZE" "ar_off b' \<le> SIZE" using g by (simp_all add: gives_def)
    show "ar_mem b' i = ar_mem b i" if "i < ar_off b" using that l g by (simp add: leaves_def gives_def)
  qed
  show "gives ly (bop_list [] ops) a sp a'" if c: "compact ly build a = Some (sp, a')"
  proof -
    from scratch_build.compact_some [OF sb a c] obtain res d where
      r: "build a = Some (res, d)" "sp_off sp = align_up (ar_off a) (ly_align ly)" "span_vals ly sp a' = span_vals ly res d"
        "ar_off a' = sp_off sp + sp_len sp * ly_size ly" "ar_off a' \<le> SIZE" "\<forall>i<ar_off a. ar_mem a' i = ar_mem a i"
      by blast
    obtain c' where "gives ly (bop_list [] ops) c' res d" using b [OF a r(1)] by blast
    then show ?thesis using r align_up_near [OF ly a] ly by (simp add: gives_def)
  qed
  show "compact ly build a \<noteq> None" if room: "ar_off a + nd + MAX_ALIGN + sum_list (map bop_grow ops) * ly_size ly \<le> SIZE"
  proof -
    obtain hs c where r: "run a = Some (hs, c)" "leaves hs vss a c" "ar_off c \<le> ar_off a + nd"
      using inner [OF a] room by (auto split: option.splits)
    then have "span ly ops c \<noteq> None" using room by (intro span_gives(2) [OF ly sz]) (simp_all add: leaves_def)
    then obtain sp' d where "build a = Some (sp', d)" using r(1) by (auto simp: build_def)
    then show ?thesis using scratch_build.compact_result [OF sb a] by fastforce
  qed
qed


lemma keep_sound:
  assumes r: "\<And>sp b. r = Some (sp, b) \<Longrightarrow> gives ly vs a sp b" and room: "ar_off a + k \<le> SIZE \<Longrightarrow> r \<noteq> None"
    and k: "MAX_ALIGN + length vs * ly_size ly \<le> k"
    and rest: "\<And>b. ar_off b \<le> SIZE \<Longrightarrow> (case exec ps b of None \<Rightarrow> SIZE < ar_off b + need ps
      | Some (hs, c) \<Rightarrow> leaves hs (meaning ps) b c \<and> ar_off c \<le> ar_off b + need ps)"
  shows "case keep ly r (exec ps) of None \<Rightarrow> SIZE < ar_off a + (k + need ps)
    | Some (hs, c) \<Rightarrow> leaves hs (vs # meaning ps) a c \<and> ar_off c \<le> ar_off a + (k + need ps)"
proof (cases r)
  case None
  then show ?thesis using room by (fastforce simp: keep_def)
next
  case (Some x)
  obtain sp b where x: "x = (sp, b)" by fastforce
  have g: "gives ly vs a sp b" using r Some x by simp
  have len: "sp_len sp = length vs" using g length_span_vals [of ly sp b] by (simp add: gives_def)
  then have off: "ar_off b \<le> ar_off a + k" "ar_off b \<le> SIZE" using g k by (auto simp: gives_def)
  show ?thesis
  proof (cases "exec ps b")
    case None
    then show ?thesis using rest [OF off(2)] off Some x by (simp add: keep_def)
  next
    case (Some y)
    obtain hs c where y: "y = (hs, c)" by fastforce
    then have "leaves hs (meaning ps) b c" "ar_off c \<le> ar_off b + need ps" using rest [OF off(2)] Some by simp_all
    then show ?thesis using leaves_cons [OF g] off Some x y \<open>r = Some x\<close> by (simp add: keep_def)
  qed
qed

lemma exec_sound:
  "typed ps \<Longrightarrow> ar_off a \<le> SIZE \<Longrightarrow>
   (case exec ps a of None \<Rightarrow> SIZE < ar_off a + need ps
    | Some (hs, a') \<Rightarrow> leaves hs (meaning ps) a a' \<and> ar_off a' \<le> ar_off a + need ps)"
proof (induction ps arbitrary: a rule: typed.induct)
  case 1
  then show ?case by (simp add: leaves_def)
next
  case (2 ly ops ps)
  then have "length (bop_list [] ops) * ly_size ly \<le> sum_list (map bop_grow ops) * ly_size ly"
    using bop_list_grow [of "[]" ops] by (intro mult_le_mono1) simp
  then show ?case
    using 2 span_gives [of ly ops a]
    by (simp only: exec.simps need.simps meaning.simps typed.simps) (intro keep_sound; simp)
next
  case (3 ly v ps)
  show ?case
    using 3 alloc_gives [of ly v a]
    by (simp only: exec.simps need.simps meaning.simps typed.simps) (intro keep_sound; auto)
next
  case (4 ly n vs ps)
  then have "length vs * ly_size ly \<le> n * ly_size ly" by (intro mult_le_mono1) simp
  then show ?case
    using 4 reserve_gives [of ly vs n a]
    by (simp only: exec.simps need.simps meaning.simps typed.simps) (intro keep_sound; simp)
next
  case (5 qs ps)
  show ?case
  proof (cases "exec qs a")
    case None
    then show ?thesis using "5.IH"(1) [of a] "5.prems" by (simp add: in_scope_def)
  next
    case (Some x)
    obtain hs c where x: "x = (hs, c)" by fastforce
    let ?b = "c\<lparr>ar_off := ar_off a\<rparr>"
    have l: "leaves hs (meaning qs) a c" using "5.IH"(1) [of a] "5.prems" Some x by simp
    have run: "exec (Scope qs # ps) a = exec ps ?b" using Some x by (simp add: in_scope_def)
    have "leaves hs' vss a d" if "leaves hs' vss ?b d" for hs' vss d
      using that l by (auto simp: leaves_def)
    then show ?thesis using "5.IH"(2) [of ?b] "5.prems" unfolding run by (auto split: option.splits)
  qed
next
  case (6 ly qs ops ps)
  then have t: "layout_ok ly" "typed qs" "list_all (bop_sized (ly_size ly)) ops" "typed ps" by simp_all
  have inner: "\<And>b. ar_off b \<le> SIZE \<Longrightarrow> (case exec qs b of None \<Rightarrow> SIZE < ar_off b + need qs
      | Some (hs, c) \<Rightarrow> leaves hs (meaning qs) b c \<and> ar_off c \<le> ar_off b + need qs)"
    using "6.IH"(1) t(2) by blast
  have "length (bop_list [] ops) * ly_size ly \<le> sum_list (map bop_grow ops) * ly_size ly"
    using bop_list_grow [of "[]" ops] by (intro mult_le_mono1) simp
  then have "length (bop_list [] ops) * ly_size ly \<le> need qs + sum_list (map bop_grow ops) * ly_size ly" by linarith
  then show ?case
    using t compact_gives [OF t(1,3) "6.prems"(2) inner] "6.IH"(2)
    by (simp only: exec.simps need.simps meaning.simps) (intro keep_sound; simp add: add.assoc)
qed

subsection \<open>Soundness\<close>


text \<open>A span, a scope with scratch in it, and a compaction that builds its result above scratch of its own.\<close>

definition sample_frame :: "frame_op list" where
  "sample_frame =
     [Span u32_layout [Push [1, 0, 0, 0], Push [2, 0, 0, 0], Pop],
      Scope [Alloc u32_layout [9, 9, 9, 9], Reserve u32_layout 4 [[8, 8, 8, 8]]],
      Compact u32_layout [Span u32_layout [Push [7, 7, 7, 7]]] [Extend [[3, 0, 0, 0], [4, 0, 0, 0]]]]"


end
