(* ===== verification/Clayout.thy ===== *)
theory Clayout
  imports Mach
begin

unbundle bit_operations_syntax

text \<open>
  The layout of \<open>repr(C)\<close> types, by which the NVIDIA client (gpu/rm.rs) shares its structs with the driver: the
  rules of the C ABI as a function on a description of the type, the bytes of a struct from those of its fields,
  and a field read back. Padding, which Rust leaves unspecified and the driver ignores, is zero here.
\<close>

subsection \<open>Sizes and offsets\<close>

text \<open>The first argument of \<open>Struct\<close> is the alignment asked for with \<open>align(n)\<close>, 0 without it.\<close>

datatype cty = U8 | U16 | U32 | U64 | Arr nat cty | Struct nat "cty list"

definition up_to :: "nat \<Rightarrow> nat \<Rightarrow> nat" where "up_to al n = (n + (al - 1)) div al * al"

primrec c_align :: "cty \<Rightarrow> nat" where
  "c_align U8 = 1"
| "c_align U16 = 2"
| "c_align U32 = 4"
| "c_align U64 = 8"
| "c_align (Arr n t) = c_align t"
| "c_align (Struct m ts) = foldr max (map c_align ts) (max 1 m)"

fun fields_end :: "nat \<Rightarrow> (nat \<times> nat) list \<Rightarrow> nat" where
  "fields_end off [] = off"
| "fields_end off ((sz, al) # fs) = fields_end (up_to al off + sz) fs"

primrec c_size :: "cty \<Rightarrow> nat" where
  "c_size U8 = 1"
| "c_size U16 = 2"
| "c_size U32 = 4"
| "c_size U64 = 8"
| "c_size (Arr n t) = n * c_size t"
| "c_size (Struct m ts) =
     up_to (foldr max (map c_align ts) (max 1 m)) (fields_end 0 (zip (map c_size ts) (map c_align ts)))"

fun field_offs :: "nat \<Rightarrow> (nat \<times> nat) list \<Rightarrow> nat list" where
  "field_offs off [] = []"
| "field_offs off ((sz, al) # fs) = up_to al off # field_offs (up_to al off + sz) fs"

definition shapes :: "cty list \<Rightarrow> (nat \<times> nat) list" where "shapes ts = zip (map c_size ts) (map c_align ts)"

fun fields_of :: "cty \<Rightarrow> cty list" where
  "fields_of (Struct m ts) = ts"
| "fields_of _ = []"

definition c_off :: "cty \<Rightarrow> nat \<Rightarrow> nat" where "c_off t i = field_offs 0 (shapes (fields_of t)) ! i"

subsection \<open>Bytes\<close>

fun lay_out :: "nat \<Rightarrow> (nat \<times> nat) list \<Rightarrow> u8 list list \<Rightarrow> u8 list" where
  "lay_out off ((sz, al) # fs) (b # bs) = replicate (up_to al off - off) 0 @ b @ lay_out (up_to al off + sz) fs bs"
| "lay_out off _ _ = []"

definition c_build :: "cty \<Rightarrow> u8 list list \<Rightarrow> u8 list" where
  "c_build t bs =
     (let body = lay_out 0 (shapes (fields_of t)) bs in body @ replicate (c_size t - length body) 0)"

definition c_get :: "cty \<Rightarrow> nat \<Rightarrow> u8 list \<Rightarrow> u8 list" where
  "c_get t i bs = buf_get (c_off t i) (c_size (fields_of t ! i)) bs"

definition c_set :: "cty \<Rightarrow> nat \<Rightarrow> u8 list \<Rightarrow> u8 list \<Rightarrow> u8 list" where
  "c_set t i b bs = buf_put (c_off t i) b bs"

definition c_u32 :: "cty \<Rightarrow> nat \<Rightarrow> u8 list \<Rightarrow> u32" where "c_u32 t i bs = u32_le (c_get t i bs)"

definition c_u64 :: "cty \<Rightarrow> nat \<Rightarrow> u8 list \<Rightarrow> u64" where "c_u64 t i bs = buf_u64 (c_off t i) bs"

text \<open>Element \<open>i\<close> of an array field.\<close>

definition c_elem :: "cty \<Rightarrow> nat \<Rightarrow> u8 list \<Rightarrow> u8 list" where "c_elem t i bs = buf_get (i * c_size t) (c_size t) bs"

subsection \<open>A field reads back what was put there\<close>

lemma up_to_ge: "0 < al \<Longrightarrow> n \<le> up_to al n"
proof -
  assume al: "0 < al"
  have "(n + (al - 1)) div al * al + (n + (al - 1)) mod al = n + (al - 1)" by simp
  moreover have "(n + (al - 1)) mod al < al" using al by simp
  ultimately show ?thesis unfolding up_to_def by linarith
qed

lemma foldr_max_pos: "0 < m \<Longrightarrow> 0 < foldr max xs (m :: nat)"
  by (induction xs) auto

lemma c_align_pos: "0 < c_align t"
  by (induction t) (simp_all add: foldr_max_pos)

definition shapes_ok :: "(nat \<times> nat) list \<Rightarrow> bool" where "shapes_ok fs \<longleftrightarrow> (\<forall>(sz, al)\<in>set fs. 0 < al)"

lemma shapes_ok: "shapes_ok (shapes ts)"
  by (auto simp: shapes_ok_def shapes_def c_align_pos dest!: set_zip_rightD)

lemma length_field_offs [simp]: "length (field_offs off fs) = length fs"
  by (induction off fs rule: field_offs.induct) simp_all

lemma field_offs_ge: "shapes_ok fs \<Longrightarrow> i < length fs \<Longrightarrow> off \<le> field_offs off fs ! i"
proof (induction off fs arbitrary: i rule: field_offs.induct)
  case (2 off sz al fs)
  have al: "off \<le> up_to al off" using 2(2) by (intro up_to_ge) (simp add: shapes_ok_def)
  show ?case
  proof (cases i)
    case (Suc j)
    then have "up_to al off + sz \<le> field_offs (up_to al off + sz) fs ! j" using 2 by (simp add: shapes_ok_def)
    then show ?thesis using al Suc by simp
  qed (simp add: al)
qed simp

lemma fields_end_ge: "shapes_ok fs \<Longrightarrow> off \<le> fields_end off fs"
proof (induction off fs rule: fields_end.induct)
  case (2 off sz al fs)
  have "off \<le> up_to al off" using 2(2) by (intro up_to_ge) (simp add: shapes_ok_def)
  then show ?case using 2 by (auto simp: shapes_ok_def)
qed simp

text \<open>The fields come one after the other and end inside the struct.\<close>

lemma field_offs_apart:
  "shapes_ok fs \<Longrightarrow> i < j \<Longrightarrow> j < length fs \<Longrightarrow> field_offs off fs ! i + fst (fs ! i) \<le> field_offs off fs ! j"
proof (induction off fs arbitrary: i j rule: field_offs.induct)
  case (2 off sz al fs)
  obtain j' where j: "j = Suc j'" using 2(3) by (cases j) simp_all
  have ok: "shapes_ok fs" using 2(2) by (simp add: shapes_ok_def)
  show ?case
  proof (cases i)
    case 0
    then show ?thesis using field_offs_ge [OF ok, of j' "up_to al off + sz"] 2(4) j by simp
  next
    case (Suc i')
    then show ?thesis using 2(1) [OF ok, of i' j'] 2(3,4) j by simp
  qed
qed simp

lemma field_offs_inside:
  "shapes_ok fs \<Longrightarrow> i < length fs \<Longrightarrow> field_offs off fs ! i + fst (fs ! i) \<le> fields_end off fs"
proof (induction off fs arbitrary: i rule: field_offs.induct)
  case (2 off sz al fs)
  have ok: "shapes_ok fs" using 2(2) by (simp add: shapes_ok_def)
  show ?case
  proof (cases i)
    case 0
    then show ?thesis using fields_end_ge [OF ok] by simp
  next
    case (Suc i')
    then show ?thesis using 2(1) [OF ok, of i'] 2(3) by simp
  qed
qed simp

lemma length_lay_out:
  "shapes_ok fs \<Longrightarrow> map length bs = map fst fs \<Longrightarrow> length (lay_out off fs bs) = fields_end off fs - off"
proof (induction off fs bs rule: lay_out.induct)
  case (1 off sz al fs b bs)
  have "off \<le> up_to al off" using 1(2) by (intro up_to_ge) (simp add: shapes_ok_def)
  moreover have "up_to al off + sz \<le> fields_end (up_to al off + sz) fs"
    using 1(2) by (intro fields_end_ge) (simp add: shapes_ok_def)
  ultimately show ?case using 1 by (simp add: shapes_ok_def)
qed simp_all

lemma lay_out_get:
  "shapes_ok fs \<Longrightarrow> map length bs = map fst fs \<Longrightarrow> i < length fs \<Longrightarrow>
   buf_get (field_offs off fs ! i - off) (fst (fs ! i)) (lay_out off fs bs @ rest) = bs ! i"
proof (induction off fs bs arbitrary: i rule: lay_out.induct)
  case (1 off sz al fs b bs)
  have ge: "off \<le> up_to al off" using 1(2) by (intro up_to_ge) (simp add: shapes_ok_def)
  have ok: "shapes_ok fs" using 1(2) by (simp add: shapes_ok_def)
  have b: "length b = sz" using 1(3) by simp
  show ?case
  proof (cases i)
    case 0
    then show ?thesis using b ge by (simp add: buf_get_def)
  next
    case (Suc j)
    let ?o = "up_to al off + sz"
    have j: "j < length fs" using 1(4) Suc by simp
    have "?o \<le> field_offs ?o fs ! j" by (rule field_offs_ge [OF ok j])
    then have "buf_get (field_offs ?o fs ! j - off) (fst (fs ! j)) (replicate (up_to al off - off) 0 @ b @ lay_out ?o fs bs @ rest) =
        buf_get (field_offs ?o fs ! j - ?o) (fst (fs ! j)) (lay_out ?o fs bs @ rest)"
      using b ge by (simp add: buf_get_def)
    also have "\<dots> = bs ! j" using 1(1) [OF ok _ j] 1(3) by simp
    finally show ?thesis using Suc by simp
  qed
qed simp_all

definition filled :: "cty \<Rightarrow> u8 list list \<Rightarrow> bool" where "filled t bs \<longleftrightarrow> map length bs = map c_size (fields_of t)"

lemma shapes_fst: "map fst (shapes ts) = map c_size ts" by (simp add: shapes_def)

lemma shapes_nth: "i < length ts \<Longrightarrow> fst (shapes ts ! i) = c_size (ts ! i)" by (simp add: shapes_def)

lemma length_shapes [simp]: "length (shapes ts) = length ts" by (simp add: shapes_def)

lemma c_field_inside: "i < length (fields_of t) \<Longrightarrow> c_off t i + c_size (fields_of t ! i) \<le> c_size t"
proof (cases t)
  case (Struct m ts)
  assume i: "i < length (fields_of t)"
  then have "c_off t i + c_size (fields_of t ! i) \<le> fields_end 0 (shapes ts)"
    using field_offs_inside [OF shapes_ok, of i ts 0] by (simp add: Struct c_off_def shapes_nth)
  also have "\<dots> \<le> c_size t" using c_align_pos [of t] by (simp add: Struct shapes_def up_to_ge)
  finally show ?thesis .
qed simp_all

lemma length_c_build [simp]: "filled t bs \<Longrightarrow> length (c_build t bs) = c_size t"
proof -
  assume f: "filled t bs"
  have "length (lay_out 0 (shapes (fields_of t)) bs) = fields_end 0 (shapes (fields_of t))"
    using f length_lay_out [OF shapes_ok, of bs "fields_of t" 0] by (simp add: filled_def shapes_fst)
  moreover have "fields_end 0 (shapes (fields_of t)) \<le> c_size t"
    using c_align_pos [of t] by (cases t) (simp_all add: shapes_def up_to_ge)
  ultimately show ?thesis by (simp add: c_build_def)
qed

lemma c_get_build: "filled t bs \<Longrightarrow> i < length (fields_of t) \<Longrightarrow> c_get t i (c_build t bs) = bs ! i"
  using lay_out_get [OF shapes_ok, of bs "fields_of t" i 0]
  by (simp add: filled_def shapes_fst shapes_nth c_get_def c_off_def c_build_def Let_def)

lemma c_u32_build: "filled t bs \<Longrightarrow> i < length (fields_of t) \<Longrightarrow> bs ! i = le_bytes 4 w \<Longrightarrow> c_u32 t i (c_build t bs) = (w :: u32)"
  by (simp add: c_u32_def c_get_build u32_le_bytes)

lemma c_u64_get: "c_size (fields_of t ! i) = 8 \<Longrightarrow> c_get t i bs = le_bytes 8 w \<Longrightarrow> c_u64 t i bs = w"
  by (simp add: c_u64_def c_get_def buf_u64_le_bytes)

lemma c_u64_build:
  "filled t bs \<Longrightarrow> i < length (fields_of t) \<Longrightarrow> bs ! i = le_bytes 8 w \<Longrightarrow> c_size (fields_of t ! i) = 8 \<Longrightarrow> c_u64 t i (c_build t bs) = w"
  by (rule c_u64_get) (simp_all add: c_get_build)

lemma c_get_set_same:
  "i < length (fields_of t) \<Longrightarrow> length bs = c_size t \<Longrightarrow> length b = c_size (fields_of t ! i) \<Longrightarrow>
   c_get t i (c_set t i b bs) = b"
  using c_field_inside [of i t] by (simp add: c_get_def c_set_def buf_fields)

lemma c_get_set_other:
  assumes "i < length (fields_of t)" "j < length (fields_of t)" "i \<noteq> j" "length bs = c_size t"
    "length b = c_size (fields_of t ! i)"
  shows "c_get t j (c_set t i b bs) = c_get t j bs"
proof -
  have "c_off t i + c_size (fields_of t ! i) \<le> c_off t j \<or> c_off t j + c_size (fields_of t ! j) \<le> c_off t i"
    using field_offs_apart [OF shapes_ok, of i j "fields_of t" 0] field_offs_apart [OF shapes_ok, of j i "fields_of t" 0] assms
    by (auto simp: c_off_def shapes_nth nat_neq_iff)
  then show ?thesis
    using c_field_inside [OF assms(1)] assms by (auto simp: c_get_def c_set_def intro!: buf_get_put_other)
qed

lemma length_c_set [simp]:
  "i < length (fields_of t) \<Longrightarrow> length bs = c_size t \<Longrightarrow> length b = c_size (fields_of t ! i) \<Longrightarrow>
   length (c_set t i b bs) = c_size t"
  using c_field_inside [of i t] by (simp add: c_set_def)

text \<open>Elements of an array.\<close>

lemma c_elem_concat:
  "\<forall>x\<in>set xs. length x = c_size t \<Longrightarrow> i < length xs \<Longrightarrow> c_elem t i (concat xs @ rest) = xs ! i"
proof (induction xs arbitrary: i)
  case (Cons x xs)
  then show ?case by (cases i) (simp_all add: c_elem_def buf_get_def)
qed simp

lemma c_elem_chunk: "(i + 1) * c_size t \<le> length bs \<Longrightarrow> length (c_elem t i bs) = c_size t"
  by (simp add: c_elem_def length_buf_get)

end
