(* ===== verification/Ioctls.thy ===== *)
theory Ioctls
  imports Clayout Gpu
begin

unbundle bit_operations_syntax

text \<open>
  The NVIDIA client at the level of its ioctls (gpu/rm.rs): the structs it shares with the driver, the requests it
  builds, and what it reads out of the replies, over any driver. Theory Gpu has the same client over the driver's
  answers; here it is shown that the bytes carry those answers.
\<close>

subsection \<open>The structs\<close>

definition NvIoctlRmApiVersion :: cty where "NvIoctlRmApiVersion = Struct 0 [U32, U32, Arr 64 U8]"
definition NvPciInfo :: cty where "NvPciInfo = Struct 0 [U32, U8, U8, U8, U16, U16]"
definition NvIoctlCardInfo :: cty where
  "NvIoctlCardInfo = Struct 0 [U8, NvPciInfo, U32, U16, U64, U64, U64, U64, U32, Arr 10 U8]"
definition Nvos21Parameters :: cty where "Nvos21Parameters = Struct 0 [U32, U32, U32, U32, U64, U32, U32]"
definition Nv0000AllocParameters :: cty where "Nv0000AllocParameters = Struct 0 [U32, U32, Arr 100 U8, U64]"
definition Nvos54Parameters :: cty where "Nvos54Parameters = Struct 0 [U32, U32, U32, U32, U64, U32, U32]"
definition Nv0080AllocParameters :: cty where
  "Nv0080AllocParameters = Struct 0 [U32, U32, U32, U32, U32, U64, U64, U64, U32]"
definition Nv2080AllocParameters :: cty where "Nv2080AllocParameters = Struct 0 [U32]"
definition NvFbInfo :: cty where "NvFbInfo = Struct 0 [U32, U32]"
definition NvGpumonSample :: cty where "NvGpumonSample = Struct 8 [U64]"
definition NvEngineUtilSample :: cty where "NvEngineUtilSample = Struct 8 [U32, U32, U32, U32, Arr 100 U8, U64]"
definition NvPerfmonUtilSample :: cty where
  "NvPerfmonUtilSample = Struct 8 [NvGpumonSample, NvEngineUtilSample, NvEngineUtilSample, NvEngineUtilSample,
     NvEngineUtilSample, NvEngineUtilSample, NvEngineUtilSample]"
definition NvGetPidsParams :: cty where "NvGetPidsParams = Struct 0 [U32, U32, U32, Arr 950 U32]"
definition NvVideoMemoryUsageData :: cty where "NvVideoMemoryUsageData = Struct 8 [U64, U64, U64, U64, U64, U64]"
definition NvSmcSubscriptionInfo :: cty where "NvSmcSubscriptionInfo = Struct 0 [U32, U32]"
definition NvPidInfo :: cty where
  "NvPidInfo = Struct 8 [U32, U32, U32, NvVideoMemoryUsageData, NvSmcSubscriptionInfo]"
definition NvGetPidInfoParams :: cty where "NvGetPidInfoParams = Struct 0 [U32, Arr 200 NvPidInfo]"
definition NvPerfmonUtilParams :: cty where
  "NvPerfmonUtilParams = Struct 0 [U8, U32, U32, U32, Arr 72 NvPerfmonUtilSample]"
definition Nv2080CtrlFbGetInfoParams :: cty where "Nv2080CtrlFbGetInfoParams = Struct 0 [U32, U64]"

lemmas nv_structs = NvIoctlRmApiVersion_def NvPciInfo_def NvIoctlCardInfo_def Nvos21Parameters_def
  Nv0000AllocParameters_def Nvos54Parameters_def Nv0080AllocParameters_def Nv2080AllocParameters_def NvFbInfo_def
  NvGpumonSample_def NvEngineUtilSample_def NvPerfmonUtilSample_def NvGetPidsParams_def NvVideoMemoryUsageData_def
  NvSmcSubscriptionInfo_def NvPidInfo_def NvGetPidInfoParams_def NvPerfmonUtilParams_def Nv2080CtrlFbGetInfoParams_def

text \<open>The sizes the comments and the driver's headers state.\<close>

theorem struct_sizes:
  "c_size NvIoctlRmApiVersion = 72" "c_size NvIoctlCardInfo = 72" "c_size Nvos21Parameters = 32"
  "c_size Nv0000AllocParameters = 120" "c_size Nvos54Parameters = 32" "c_size Nv0080AllocParameters = 56"
  "c_size Nv2080AllocParameters = 4" "c_size NvFbInfo = 8" "c_size NvEngineUtilSample = 128"
  "c_size NvPerfmonUtilSample = 776" "c_size NvGetPidsParams = 3812" "c_size NvVideoMemoryUsageData = 48"
  "c_size NvPidInfo = 72" "c_size NvGetPidInfoParams = 14408" "c_size NvPerfmonUtilParams = 55888"
  "c_size Nv2080CtrlFbGetInfoParams = 16"
  by (simp_all add: nv_structs up_to_def)


subsection \<open>Requests\<close>

text \<open>
  An ioctl passes a descriptor, a request number, the bytes of its argument, and the blocks the argument's pointers
  lead to, each with its address; the driver returns a code and writes to the argument and to the blocks.
\<close>

type_synonym block = "u64 \<times> u8 list"
type_synonym 's nv_kernel = "'s \<Rightarrow> int \<Rightarrow> u64 \<Rightarrow> u8 list \<Rightarrow> block list \<Rightarrow> (int \<times> u8 list \<times> u8 list list) \<times> 's"

abbreviation le4 :: "u32 \<Rightarrow> u8 list" where "le4 \<equiv> le_bytes 4"
abbreviation zeros :: "nat \<Rightarrow> u8 list" where "zeros n \<equiv> replicate n 0"

definition NV_MAX_DEVICES :: nat where "NV_MAX_DEVICES = 32"
definition NV01_ROOT :: u32 where "NV01_ROOT = 0"
definition NV01_DEVICE_0 :: u32 where "NV01_DEVICE_0 = 0x80"
definition NV20_SUBDEVICE_0 :: u32 where "NV20_SUBDEVICE_0 = 0x2080"
definition CMD_FB_GET_INFO :: u32 where "CMD_FB_GET_INFO = 0x20801301"
definition INDEX_TOTAL_RAM_SIZE :: u32 where "INDEX_TOTAL_RAM_SIZE = 0x08"
definition INDEX_HEAP_FREE :: u32 where "INDEX_HEAP_FREE = 0x16"
definition CMD_PERFMON_UTIL_SAMPLES_V2 :: u32 where "CMD_PERFMON_UTIL_SAMPLES_V2 = 0x20802096"
definition CMD_GPU_GET_PIDS :: u32 where "CMD_GPU_GET_PIDS = 0x2080018d"
definition GET_PIDS_ID_TYPE_CLASS :: u32 where "GET_PIDS_ID_TYPE_CLASS = 0"
definition CMD_GPU_GET_PID_INFO :: u32 where "CMD_GPU_GET_PID_INFO = 0x2080018e"
definition INDEX_VIDEO_MEMORY_USAGE :: u32 where "INDEX_VIDEO_MEMORY_USAGE = 0"
definition NV_RM_API_VERSION_CMD_STRICT :: u32 where "NV_RM_API_VERSION_CMD_STRICT = 0"

definition req_size :: "u32 \<Rightarrow> nat \<Rightarrow> u64" where "req_size esc n = iowr NV_IOCTL_MAGIC esc (of_nat n)"

definition nvos21 :: "u32 \<Rightarrow> u32 \<Rightarrow> u32 \<Rightarrow> u32 \<Rightarrow> block \<Rightarrow> u8 list" where
  "nvos21 h_root h_parent h_new cls blk =
     c_build Nvos21Parameters
       [le4 h_root, le4 h_parent, le4 h_new, le4 cls, le_bytes 8 (fst blk), le4 (of_nat (length (snd blk))), le4 0]"

definition rm_alloc :: "'s nv_kernel \<Rightarrow> int \<Rightarrow> u32 \<Rightarrow> u32 \<Rightarrow> u32 \<Rightarrow> u32 \<Rightarrow> block \<Rightarrow> 's \<Rightarrow> u32 option \<times> 's" where
  "rm_alloc K fd h_root h_parent h_new cls blk s =
     (case K s fd (req_size NV_ESC_RM_ALLOC (c_size Nvos21Parameters)) (nvos21 h_root h_parent h_new cls blk) [blk] of
        ((ret, p, _), s') \<Rightarrow>
          (if ret \<noteq> 0 \<or> c_u32 Nvos21Parameters 6 p \<noteq> 0 then None else Some (c_u32 Nvos21Parameters 2 p), s'))"

definition nvos54 :: "u32 \<Rightarrow> u32 \<Rightarrow> u32 \<Rightarrow> block \<Rightarrow> u8 list" where
  "nvos54 h_client h_object cmd blk =
     c_build Nvos54Parameters
       [le4 h_client, le4 h_object, le4 cmd, le4 0, le_bytes 8 (fst blk), le4 (of_nat (length (snd blk))), le4 0]"

text \<open>The parameter block, the first one, comes with those it points to; the result is what is in them afterwards.\<close>

definition rm_control :: "'s nv_kernel \<Rightarrow> int \<Rightarrow> u32 \<Rightarrow> u32 \<Rightarrow> u32 \<Rightarrow> block \<Rightarrow> block list \<Rightarrow> 's \<Rightarrow> u8 list list option \<times> 's" where
  "rm_control K fd h_client h_object cmd blk blks s =
     (case K s fd (req_size NV_ESC_RM_CONTROL (c_size Nvos54Parameters)) (nvos54 h_client h_object cmd blk) (blk # blks) of
        ((ret, p, mem), s') \<Rightarrow> (if ret \<noteq> 0 \<or> c_u32 Nvos54Parameters 6 p \<noteq> 0 then None else Some mem, s'))"

subsection \<open>Opening the driver\<close>

definition version_request :: "string \<Rightarrow> u8 list" where
  "version_request v =
     c_build NvIoctlRmApiVersion [le4 NV_RM_API_VERSION_CMD_STRICT, le4 0, List.map byte_of v @ zeros (64 - length v)]"

definition check_version_io :: "'s nv_kernel \<Rightarrow> (string \<Rightarrow> string option) \<Rightarrow> int \<Rightarrow> 's \<Rightarrow> bool \<times> 's" where
  "check_version_io K files fd s =
     (case read_small_file files ''/proc/driver/nvidia/version'' 256 of
        None \<Rightarrow> (False, s)
      | Some content \<Rightarrow>
          (case driver_version content of
             None \<Rightarrow> (False, s)
           | Some v \<Rightarrow>
               (case K s fd (req_size NV_ESC_CHECK_VERSION_STR (c_size NvIoctlRmApiVersion)) (version_request (take (64 - 1) v)) [] of
                  ((ret, _, _), s') \<Rightarrow> (ret = 0, s'))))"

definition card_entry :: "u8 list \<Rightarrow> nat \<Rightarrow> u8 \<times> u32" where
  "card_entry reply i =
     (let c = c_elem NvIoctlCardInfo i reply in (hd (c_get NvIoctlCardInfo 0 c), c_u32 NvIoctlCardInfo 8 c))"

definition attached_gpu_minors_io :: "'s nv_kernel \<Rightarrow> int \<Rightarrow> 's \<Rightarrow> u32 list option \<times> 's" where
  "attached_gpu_minors_io K fd s =
     (case K s fd (req_size NV_ESC_CARD_INFO (NV_MAX_DEVICES * c_size NvIoctlCardInfo))
             (zeros (NV_MAX_DEVICES * c_size NvIoctlCardInfo)) [] of
        ((ret, reply, _), s') \<Rightarrow>
          (if ret \<noteq> 0 then None
           else Some (attached_gpu_minors (List.map (card_entry reply) [0..<NV_MAX_DEVICES])), s'))"

definition root_params :: "u32 \<Rightarrow> u8 list" where
  "root_params me = c_build Nv0000AllocParameters [le4 0, le4 me, List.map byte_of ''ltop'' @ zeros 96, zeros 8]"

definition device_params :: "u32 \<Rightarrow> u8 list" where
  "device_params idx =
     c_build Nv0080AllocParameters [le4 idx, le4 0, le4 0, le4 0, le4 0, zeros 8, zeros 8, zeros 8, le4 0]"

definition subdevice_params :: "u8 list" where "subdevice_params = c_build Nv2080AllocParameters [le4 0]"

definition alloc_root :: "'s nv_kernel \<Rightarrow> int \<Rightarrow> u32 \<Rightarrow> u64 \<Rightarrow> 's \<Rightarrow> u32 option \<times> 's" where
  "alloc_root K fd me adr s = rm_alloc K fd 0 0 0 NV01_ROOT (adr, root_params me) s"

definition alloc_device :: "'s nv_kernel \<Rightarrow> int \<Rightarrow> u32 \<Rightarrow> u32 \<Rightarrow> u64 \<Rightarrow> 's \<Rightarrow> u32 option \<times> 's" where
  "alloc_device K fd client idx adr s =
     rm_alloc K fd client client (device_handle idx) NV01_DEVICE_0 (adr, device_params idx) s"

definition alloc_subdevice :: "'s nv_kernel \<Rightarrow> int \<Rightarrow> u32 \<Rightarrow> u32 \<Rightarrow> u64 \<Rightarrow> 's \<Rightarrow> u32 option \<times> 's" where
  "alloc_subdevice K fd client idx adr s =
     rm_alloc K fd client (device_handle idx) (subdevice_handle idx) NV20_SUBDEVICE_0 (adr, subdevice_params) s"

fun open_gpus_io ::
  "'s nv_kernel \<Rightarrow> (string \<Rightarrow> int) \<Rightarrow> int \<Rightarrow> u32 \<Rightarrow> u64 \<Rightarrow> nat \<Rightarrow> u32 list \<Rightarrow> (int \<times> u32) list \<Rightarrow> 's \<Rightarrow>
   (int list + (int \<times> u32) list) \<times> 's" where
  "open_gpus_io K op fd client adr i [] gpus s = (Inr gpus, s)"
| "open_gpus_io K op fd client adr i (minor # minors) gpus s =
     (let dev_fd = op (device_path minor) in
      if dev_fd < 0 then (Inl (rev (List.map fst gpus)), s)
      else case alloc_device K fd client (of_nat i) adr s of
        (None, s1) \<Rightarrow> (Inl (dev_fd # rev (List.map fst gpus)), s1)
      | (Some _, s1) \<Rightarrow>
          (case alloc_subdevice K fd client (of_nat i) adr s1 of
             (None, s2) \<Rightarrow> (Inl (dev_fd # rev (List.map fst gpus)), s2)
           | (Some _, s2) \<Rightarrow>
               open_gpus_io K op fd client adr (i + 1) minors (gpus @ [(dev_fd, subdevice_handle (of_nat i))]) s2))"

text \<open>\<open>init\<close>: the state, what it closed on the way, and the driver after it.\<close>

definition rm_init_io ::
  "'s nv_kernel \<Rightarrow> (string \<Rightarrow> int) \<Rightarrow> (string \<Rightarrow> string option) \<Rightarrow> u32 \<Rightarrow> u64 \<Rightarrow> 's \<Rightarrow> (rm_state \<times> int list) \<times> 's" where
  "rm_init_io K op files me adr s =
     (let fd = op ''/dev/nvidiactl'' in
      if fd < 0 then ((rm_no_gpu, []), s)
      else case check_version_io K files fd s of
        (False, s1) \<Rightarrow> ((rm_no_gpu, [fd]), s1)
      | (True, s1) \<Rightarrow>
          (case attached_gpu_minors_io K fd s1 of
             (None, s2) \<Rightarrow> ((rm_no_gpu, [fd]), s2)
           | (Some minors, s2) \<Rightarrow>
               (case alloc_root K fd me adr s2 of
                  (None, s3) \<Rightarrow> ((rm_no_gpu, [fd]), s3)
                | (Some client, s3) \<Rightarrow>
                    (case open_gpus_io K op fd client adr 0 minors [] s3 of
                       (Inl fds, s4) \<Rightarrow> ((rm_no_gpu, fds @ [fd]), s4)
                     | (Inr gpus, s4) \<Rightarrow> ((\<lparr>rs_ctl_fd = Some fd, rs_client = client, rs_gpus = gpus\<rparr>, []), s4)))))"

subsection \<open>One tick\<close>

text \<open>The addresses of a parameter block and of the list it points to.\<close>

definition fb_info :: "u32 \<Rightarrow> u8 list" where "fb_info idx = c_build NvFbInfo [le4 idx, le4 0]"

definition fb_memory_io :: "'s nv_kernel \<Rightarrow> int \<Rightarrow> u32 \<Rightarrow> u32 \<Rightarrow> u64 \<Rightarrow> u64 \<Rightarrow> 's \<Rightarrow> (u64 \<times> u64) option \<times> 's" where
  "fb_memory_io K fd client sub adr adr' s =
     (let lst = fb_info INDEX_TOTAL_RAM_SIZE @ fb_info INDEX_HEAP_FREE
      in case rm_control K fd client sub CMD_FB_GET_INFO
                (adr, c_build Nv2080CtrlFbGetInfoParams [le4 2, le_bytes 8 adr']) [(adr', lst)] s of
           (None, s') \<Rightarrow> (None, s')
         | (Some mem, s') \<Rightarrow>
             (let lst' = mem ! 1;
                  total_kib = ucast (c_u32 NvFbInfo 1 (c_elem NvFbInfo 0 lst'));
                  free_kib = ucast (c_u32 NvFbInfo 1 (c_elem NvFbInfo 1 lst'))
              in (Some (drop_bit 10 (sat_sub64 total_kib free_kib), drop_bit 10 total_kib), s')))"

definition perfmon_request :: "u8 list" where
  "perfmon_request =
     c_build NvPerfmonUtilParams
       [[0], le4 (of_nat (c_size NvPerfmonUtilSample * RING)), le4 (of_nat RING), le4 0, zeros (RING * c_size NvPerfmonUtilSample)]"

definition perfmon_util_io :: "'s nv_kernel \<Rightarrow> int \<Rightarrow> u32 \<Rightarrow> u32 \<Rightarrow> u64 \<Rightarrow> 's \<Rightarrow> (u32 \<times> (u32 \<times> u32) option) \<times> 's" where
  "perfmon_util_io K fd client sub adr s =
     (case rm_control K fd client sub CMD_PERFMON_UTIL_SAMPLES_V2 (adr, perfmon_request) [] s of
        (None, s') \<Rightarrow> ((0, None), s')
      | (Some mem, s') \<Rightarrow>
          (let buf = hd mem; n = min (unat (c_u32 NvPerfmonUtilParams 2 buf)) RING
           in if n = 0 then ((0, None), s')
              else let gr = c_get NvPerfmonUtilSample 2 (c_elem NvPerfmonUtilSample (n - 1) (c_get NvPerfmonUtilParams 4 buf));
                       pct = c_u32 NvEngineUtilSample 0 gr div 100;
                       proc_id = c_u32 NvEngineUtilSample 2 gr
                   in ((pct, if proc_id \<noteq> 0 then Some (proc_id, pct) else None), s')))"

definition pid_info :: "u32 \<Rightarrow> u8 list" where
  "pid_info me = c_build NvPidInfo [le4 me, le4 INDEX_VIDEO_MEMORY_USAGE, le4 0, zeros 48, zeros 8]"

definition pid_info_request :: "u32 list \<Rightarrow> u8 list" where
  "pid_info_request pids =
     c_build NvGetPidInfoParams
       [le4 (of_nat (length pids)), concat (List.map pid_info pids) @ zeros ((PID_INFO_MAX_COUNT - length pids) * c_size NvPidInfo)]"

definition pid_result :: "u8 list \<Rightarrow> nat \<Rightarrow> u32 \<times> u64" where
  "pid_result buf i =
     (let e = c_elem NvPidInfo i (c_get NvGetPidInfoParams 1 buf)
      in (c_u32 NvPidInfo 0 e, c_u64 NvVideoMemoryUsageData 1 (c_get NvPidInfo 3 e)))"

definition proc_memory_io :: "'s nv_kernel \<Rightarrow> int \<Rightarrow> u32 \<Rightarrow> u32 \<Rightarrow> u64 \<Rightarrow> 's \<Rightarrow> (u32 \<times> gpu_proc) list \<times> 's" where
  "proc_memory_io K fd client sub adr s =
     (case rm_control K fd client sub CMD_GPU_GET_PIDS
             (adr, c_build NvGetPidsParams [le4 GET_PIDS_ID_TYPE_CLASS, le4 NV20_SUBDEVICE_0, le4 0, zeros 3800]) [] s of
        (None, s1) \<Rightarrow> ([], s1)
      | (Some mem, s1) \<Rightarrow>
          (let pids = hd mem; n = min (unat (c_u32 NvGetPidsParams 2 pids)) PID_INFO_MAX_COUNT
           in if n = 0 then ([], s1)
              else case rm_control K fd client sub CMD_GPU_GET_PID_INFO
                     (adr, pid_info_request (List.map (\<lambda>i. u32_le (c_elem U32 i (c_get NvGetPidsParams 3 pids))) [0..<n])) [] s1 of
                  (None, s2) \<Rightarrow> ([], s2)
                | (Some mem2, s2) \<Rightarrow>
                    (List.map (\<lambda>(p, bytes). (p, \<lparr>gp_sm_pct = 0, gp_mem_mib = ucast (drop_bit 20 bytes)\<rparr>))
                       (List.filter (\<lambda>(p, bytes). (ucast (drop_bit 20 bytes) :: u32) > 0)
                         (List.map (pid_result (hd mem2)) [0..<n])), s2)))"

text \<open>Phase 1: per GPU its memory, utilisation and sample, or \<open>None\<close> when the memory query failed; phase 2: the processes.\<close>

type_synonym gpu_sample = "(u64 \<times> u64) \<times> (u32 \<times> (u32 \<times> u32) option)"

fun phase1 :: "'s nv_kernel \<Rightarrow> int \<Rightarrow> u32 \<Rightarrow> u64 \<Rightarrow> u64 \<Rightarrow> (int \<times> u32) list \<Rightarrow> 's \<Rightarrow> gpu_sample option list \<times> 's" where
  "phase1 K fd client adr adr' [] s = ([], s)"
| "phase1 K fd client adr adr' ((_, sub) # gpus) s =
     (case fb_memory_io K fd client sub adr adr' s of
        (None, s1) \<Rightarrow> (case phase1 K fd client adr adr' gpus s1 of (rs, s2) \<Rightarrow> (None # rs, s2))
      | (Some fb, s1) \<Rightarrow>
          (case perfmon_util_io K fd client sub adr s1 of
             (u, s2) \<Rightarrow> (case phase1 K fd client adr adr' gpus s2 of (rs, s3) \<Rightarrow> (Some (fb, u) # rs, s3))))"

fun phase2 ::
  "'s nv_kernel \<Rightarrow> int \<Rightarrow> u32 \<Rightarrow> u64 \<Rightarrow> ((int \<times> u32) \<times> gpu_sample option) list \<Rightarrow> (u32 \<times> gpu_proc) fvec \<Rightarrow> 's \<Rightarrow>
   (u32 \<times> gpu_proc) fvec \<times> 's" where
  "phase2 K fd client adr [] buf s = (buf, s)"
| "phase2 K fd client adr (((_, sub), r) # gpus) buf s =
     (if r = None then phase2 K fd client adr gpus buf s
      else case proc_memory_io K fd client sub adr s of
        (ps, s1) \<Rightarrow> phase2 K fd client adr gpus (push_all ps buf) s1)"

definition rm_populate_io ::
  "'s nv_kernel \<Rightarrow> rm_state \<Rightarrow> u64 \<Rightarrow> u64 \<Rightarrow> 's \<Rightarrow> ((u32 \<times> gpu_proc) list \<times> (u32 \<times> u32 \<times> u64 \<times> u64)) \<times> 's" where
  "rm_populate_io K st adr adr' s =
     (case rs_ctl_fd st of
        None \<Rightarrow> (([], (0, 0, 0, 0)), s)
      | Some fd \<Rightarrow>
          (case phase1 K fd (rs_client st) adr adr' (rs_gpus st) s of
             (rs, s1) \<Rightarrow>
               (let good = List.map_filter id rs;
                    used = foldl (\<lambda>t ((u, _), _). t + u) 0 good;
                    total_m = foldl (\<lambda>t ((_, m), _). t + m) 0 good;
                    util = foldl (\<lambda>t (_, (u, _)). t + u) 0 good;
                    n_gpus = length good;
                    buf = fvec_new (n_gpus * MAX_PROCS_PER_GPU);
                    buf = push_all (List.map (\<lambda>(p, pct). (p, \<lparr>gp_sm_pct = pct, gp_mem_mib = 0\<rparr>))
                            (List.map_filter (\<lambda>(_, (_, smp)). smp) good)) buf
                in case phase2 K fd (rs_client st) adr (zip (rs_gpus st) rs) buf s1 of
                     (buf, s2) \<Rightarrow> ((freeze_map merge_gpu (fv_elems buf), (of_nat n_gpus, util, used, total_m)), s2))))"

end
