(* ===== verification/Driver.thy ===== *)
theory Driver
  imports Ioctls
begin

text \<open>
  What the NVIDIA driver does with the requests, decoded from their bytes, and that the client of theory Ioctls,
  talking to any driver that does so, is the client of theory Gpu over the driver's answers.
\<close>

subsection \<open>The driver\<close>

text \<open>The objects a driver has made: clients, devices of a client, subdevices of a client, with the GPU of each.\<close>

record nv_objects =
  no_clients :: "u32 set"
  no_devs :: "u32 \<times> u32 \<Rightarrow> u32 option"
  no_subs :: "u32 \<times> u32 \<Rightarrow> u32 option"

text \<open>An allocation request: root, par, the handle asked for, the class and its parameters.\<close>

definition nv_make :: "rm_kernel \<Rightarrow> nv_objects \<Rightarrow> u32 \<Rightarrow> u32 \<Rightarrow> u32 \<Rightarrow> u32 \<Rightarrow> u8 list \<Rightarrow> (u32 \<times> nv_objects) option" where
  "nv_make k ob rt par new cls params =
     (if cls = NV01_ROOT \<and> length params = c_size Nv0000AllocParameters
      then map_option (\<lambda>c. (c, ob\<lparr>no_clients := insert c (no_clients ob)\<rparr>)) (rk_root k)
      else if cls = NV01_DEVICE_0 \<and> length params = c_size Nv0080AllocParameters
      then (let inst = c_u32 Nv0080AllocParameters 0 params
            in if rt \<in> no_clients ob \<and> par = rt \<and> rk_device k inst
               then Some (new, ob\<lparr>no_devs := (no_devs ob)((rt, new) := Some inst)\<rparr>) else None)
      else if cls = NV20_SUBDEVICE_0 \<and> length params = c_size Nv2080AllocParameters
      then (case no_devs ob (rt, par) of
              None \<Rightarrow> None
            | Some inst \<Rightarrow>
                if c_u32 Nv2080AllocParameters 0 params = 0 \<and> rk_subdevice k inst
                then Some (new, ob\<lparr>no_subs := (no_subs ob)((rt, new) := Some inst)\<rparr>) else None)
      else None)"

text \<open>The answers to the four queries, as relations between the parameter blocks and the reply; \<open>None\<close> is a refusal.\<close>

definition fb_value :: "u32 \<times> u32 \<Rightarrow> u32 \<Rightarrow> u32 \<Rightarrow> bool" where
  "fb_value fb idx v \<longleftrightarrow> (idx = INDEX_TOTAL_RAM_SIZE \<longrightarrow> v = fst fb) \<and> (idx = INDEX_HEAP_FREE \<longrightarrow> v = snd fb)"

definition answers_fb :: "rm_gpu \<Rightarrow> block list \<Rightarrow> u8 list list option \<Rightarrow> bool" where
  "answers_fb g blks r \<longleftrightarrow>
     (\<forall>params lst. List.map snd blks = [params, lst] \<longrightarrow> fst (blks ! 1) = c_u64 Nv2080CtrlFbGetInfoParams 1 params \<longrightarrow>
        length lst = unat (c_u32 Nv2080CtrlFbGetInfoParams 0 params) * c_size NvFbInfo \<longrightarrow>
        (case rg_fb g of
           None \<Rightarrow> r = None
         | Some fb \<Rightarrow>
             \<exists>params' lst'. r = Some [params', lst'] \<and>
               (\<forall>j < unat (c_u32 Nv2080CtrlFbGetInfoParams 0 params).
                  fb_value fb (c_u32 NvFbInfo 0 (c_elem NvFbInfo j lst)) (c_u32 NvFbInfo 1 (c_elem NvFbInfo j lst')))))"

text \<open>The graphics engine's part of a sample of the ring.\<close>

definition gr_sample :: "u8 list \<Rightarrow> nat \<Rightarrow> u8 list" where
  "gr_sample buf j = c_get NvPerfmonUtilSample 2 (c_elem NvPerfmonUtilSample j (c_get NvPerfmonUtilParams 4 buf))"

definition answers_util :: "rm_gpu \<Rightarrow> block list \<Rightarrow> u8 list list option \<Rightarrow> bool" where
  "answers_util g blks r \<longleftrightarrow>
     (\<forall>buf. List.map snd blks = [buf] \<longrightarrow> c_u32 NvPerfmonUtilParams 1 buf = of_nat (RING * c_size NvPerfmonUtilSample) \<longrightarrow>
        c_u32 NvPerfmonUtilParams 2 buf = of_nat RING \<longrightarrow>
        (case rg_util g of
           None \<Rightarrow> r = None
         | Some (cnt, samples) \<Rightarrow>
             \<exists>buf'. r = Some [buf'] \<and> c_u32 NvPerfmonUtilParams 2 buf' = cnt \<and>
               (\<forall>j < min (unat cnt) RING.
                  samples ! j = (c_u32 NvEngineUtilSample 2 (gr_sample buf' j), c_u32 NvEngineUtilSample 0 (gr_sample buf' j)))))"

definition pid_of_table :: "u8 list \<Rightarrow> nat \<Rightarrow> u32" where
  "pid_of_table buf j = u32_le (c_elem U32 j (c_get NvGetPidsParams 3 buf))"

definition answers_pids :: "rm_gpu \<Rightarrow> block list \<Rightarrow> u8 list list option \<Rightarrow> bool" where
  "answers_pids g blks r \<longleftrightarrow>
     (\<forall>buf. List.map snd blks = [buf] \<longrightarrow> c_u32 NvGetPidsParams 0 buf = GET_PIDS_ID_TYPE_CLASS \<longrightarrow>
        c_u32 NvGetPidsParams 1 buf = NV20_SUBDEVICE_0 \<longrightarrow>
        (case rg_pids g of
           None \<Rightarrow> r = None
         | Some (cnt, tbl) \<Rightarrow>
             \<exists>buf'. r = Some [buf'] \<and> c_u32 NvGetPidsParams 2 buf' = cnt \<and>
               (\<forall>j < min (unat cnt) (length tbl). pid_of_table buf' j = tbl ! j)))"

definition info_entry :: "u8 list \<Rightarrow> nat \<Rightarrow> u8 list" where
  "info_entry buf j = c_elem NvPidInfo j (c_get NvGetPidInfoParams 1 buf)"

definition answers_info :: "rm_gpu \<Rightarrow> block list \<Rightarrow> u8 list list option \<Rightarrow> bool" where
  "answers_info g blks r \<longleftrightarrow>
     (\<forall>buf n. List.map snd blks = [buf] \<longrightarrow> n = unat (c_u32 NvGetPidInfoParams 0 buf) \<longrightarrow> n \<le> PID_INFO_MAX_COUNT \<longrightarrow>
        (\<forall>j < n. c_u32 NvPidInfo 1 (info_entry buf j) = INDEX_VIDEO_MEMORY_USAGE) \<longrightarrow>
        (case rg_mem g (List.map (\<lambda>j. c_u32 NvPidInfo 0 (info_entry buf j)) [0..<n]) of
           None \<Rightarrow> r = None
         | Some owned \<Rightarrow>
             \<exists>buf'. r = Some [buf'] \<and>
               (\<forall>j < n. c_u32 NvPidInfo 0 (info_entry buf' j) = c_u32 NvPidInfo 0 (info_entry buf j) \<and>
                  c_u64 NvVideoMemoryUsageData 1 (c_get NvPidInfo 3 (info_entry buf' j)) = owned ! j)))"

definition nv_answers :: "rm_gpu \<Rightarrow> u32 \<Rightarrow> block list \<Rightarrow> u8 list list option \<Rightarrow> bool" where
  "nv_answers g cmd blks r \<longleftrightarrow>
     (cmd = CMD_FB_GET_INFO \<longrightarrow> answers_fb g blks r) \<and>
     (cmd = CMD_PERFMON_UTIL_SAMPLES_V2 \<longrightarrow> answers_util g blks r) \<and>
     (cmd = CMD_GPU_GET_PIDS \<longrightarrow> answers_pids g blks r) \<and>
     (cmd = CMD_GPU_GET_PID_INFO \<longrightarrow> answers_info g blks r)"

text \<open>The first block is the parameter block the request points to, with its size.\<close>

definition points_to :: "u64 \<Rightarrow> u32 \<Rightarrow> block list \<Rightarrow> bool" where
  "points_to adr sz blks \<longleftrightarrow>
     (case blks of [] \<Rightarrow> False | b # _ \<Rightarrow> adr = fst b \<and> unat sz = length (snd b))"

definition c_string :: "u8 list \<Rightarrow> string" where "c_string bs = List.map char_of_u8 (takeWhile (\<lambda>b. b \<noteq> 0) bs)"

text \<open>A driver whose answers are those of \<open>k\<close> and, for GPU \<open>i\<close>, \<open>tele i\<close>; \<open>view\<close> gives the objects of its state.\<close>

definition serves_version :: "'s nv_kernel \<Rightarrow> ('s \<Rightarrow> nv_objects) \<Rightarrow> rm_kernel \<Rightarrow> bool" where
  "serves_version K view k \<longleftrightarrow>
     (\<forall>v. rk_version_ok k v = rk_version_ok k (takeWhile (\<lambda>c. c \<noteq> CHR 0x00) v)) \<and>
     (\<forall>s fd p. length p = c_size NvIoctlRmApiVersion \<longrightarrow> c_u32 NvIoctlRmApiVersion 0 p = NV_RM_API_VERSION_CMD_STRICT \<longrightarrow>
        (case K s fd (req_size NV_ESC_CHECK_VERSION_STR (c_size NvIoctlRmApiVersion)) p [] of
           ((ret, _, _), s') \<Rightarrow> (ret = 0 \<longleftrightarrow> rk_version_ok k (c_string (c_get NvIoctlRmApiVersion 2 p))) \<and> view s' = view s))"

definition serves_cards :: "'s nv_kernel \<Rightarrow> ('s \<Rightarrow> nv_objects) \<Rightarrow> rm_kernel \<Rightarrow> bool" where
  "serves_cards K view k \<longleftrightarrow>
     (\<forall>s fd p. length p = NV_MAX_DEVICES * c_size NvIoctlCardInfo \<longrightarrow>
        (case K s fd (req_size NV_ESC_CARD_INFO (NV_MAX_DEVICES * c_size NvIoctlCardInfo)) p [] of
           ((ret, reply, _), s') \<Rightarrow> view s' = view s \<and>
             (case rk_cards k of
                None \<Rightarrow> ret \<noteq> 0
              | Some cards \<Rightarrow> ret = 0 \<and> length cards = NV_MAX_DEVICES \<and>
                  (\<forall>i < NV_MAX_DEVICES. c_get NvIoctlCardInfo 0 (c_elem NvIoctlCardInfo i reply) = [fst (cards ! i)] \<and>
                     c_u32 NvIoctlCardInfo 8 (c_elem NvIoctlCardInfo i reply) = snd (cards ! i)))))"

definition serves_alloc :: "'s nv_kernel \<Rightarrow> ('s \<Rightarrow> nv_objects) \<Rightarrow> rm_kernel \<Rightarrow> bool" where
  "serves_alloc K view k \<longleftrightarrow>
     (\<forall>s fd p blk. length p = c_size Nvos21Parameters \<longrightarrow> points_to (c_u64 Nvos21Parameters 4 p) (c_u32 Nvos21Parameters 5 p) [blk] \<longrightarrow>
        (case K s fd (req_size NV_ESC_RM_ALLOC (c_size Nvos21Parameters)) p [blk] of
           ((ret, p', _), s') \<Rightarrow>
             (case nv_make k (view s) (c_u32 Nvos21Parameters 0 p) (c_u32 Nvos21Parameters 1 p) (c_u32 Nvos21Parameters 2 p)
                     (c_u32 Nvos21Parameters 3 p) (snd blk) of
                None \<Rightarrow> (ret \<noteq> 0 \<or> c_u32 Nvos21Parameters 6 p' \<noteq> 0) \<and> view s' = view s
              | Some (h, ob) \<Rightarrow> ret = 0 \<and> c_u32 Nvos21Parameters 6 p' = 0 \<and> c_u32 Nvos21Parameters 2 p' = h \<and> view s' = ob)))"

definition serves_control :: "'s nv_kernel \<Rightarrow> ('s \<Rightarrow> nv_objects) \<Rightarrow> (u32 \<Rightarrow> rm_gpu) \<Rightarrow> bool" where
  "serves_control K view tele \<longleftrightarrow>
     (\<forall>s fd p blks inst. length p = c_size Nvos54Parameters \<longrightarrow>
        points_to (c_u64 Nvos54Parameters 4 p) (c_u32 Nvos54Parameters 5 p) blks \<longrightarrow>
        no_subs (view s) (c_u32 Nvos54Parameters 0 p, c_u32 Nvos54Parameters 1 p) = Some inst \<longrightarrow>
        (case K s fd (req_size NV_ESC_RM_CONTROL (c_size Nvos54Parameters)) p blks of
           ((ret, p', mem), s') \<Rightarrow> view s' = view s \<and>
             nv_answers (tele inst) (c_u32 Nvos54Parameters 2 p) blks
               (if ret \<noteq> 0 \<or> c_u32 Nvos54Parameters 6 p' \<noteq> 0 then None else Some mem)))"

definition nv_serves :: "'s nv_kernel \<Rightarrow> ('s \<Rightarrow> nv_objects) \<Rightarrow> rm_kernel \<Rightarrow> (u32 \<Rightarrow> rm_gpu) \<Rightarrow> bool" where
  "nv_serves K view k tele \<longleftrightarrow>
     serves_version K view k \<and> serves_cards K view k \<and> serves_alloc K view k \<and> serves_control K view tele"

text \<open>The tables in the answers have the lengths the structs give them.\<close>

definition tele_ok :: "rm_gpu \<Rightarrow> bool" where
  "tele_ok g \<longleftrightarrow>
     (\<forall>cnt tbl. rg_pids g = Some (cnt, tbl) \<longrightarrow> length tbl = 950) \<and>
     (\<forall>ps owned. rg_mem g ps = Some owned \<longrightarrow> length owned = length ps)"

subsection \<open>Requests carry what they are built from\<close>

lemma nvos21_fields:
  "length (nvos21 rt par new cls blk) = c_size Nvos21Parameters"
  "c_u32 Nvos21Parameters 0 (nvos21 rt par new cls blk) = rt"
  "c_u32 Nvos21Parameters 1 (nvos21 rt par new cls blk) = par"
  "c_u32 Nvos21Parameters 2 (nvos21 rt par new cls blk) = new"
  "c_u32 Nvos21Parameters 3 (nvos21 rt par new cls blk) = cls"
  "c_u64 Nvos21Parameters 4 (nvos21 rt par new cls blk) = fst blk"
  "c_u32 Nvos21Parameters 5 (nvos21 rt par new cls blk) = of_nat (length (snd blk))"
proof -
  let ?b = "[le4 rt, le4 par, le4 new, le4 cls, le_bytes 8 (fst blk), le4 (of_nat (length (snd blk))), le4 0]"
  have f: "filled Nvos21Parameters ?b" by (simp add: filled_def Nvos21Parameters_def)
  have n: "length (fields_of Nvos21Parameters) = 7" "fields_of Nvos21Parameters ! 4 = U64"
    by (simp_all add: Nvos21Parameters_def)
  show "length (nvos21 rt par new cls blk) = c_size Nvos21Parameters" by (simp add: nvos21_def length_c_build [OF f])
  show "c_u32 Nvos21Parameters 0 (nvos21 rt par new cls blk) = rt"
    "c_u32 Nvos21Parameters 1 (nvos21 rt par new cls blk) = par"
    "c_u32 Nvos21Parameters 2 (nvos21 rt par new cls blk) = new"
    "c_u32 Nvos21Parameters 3 (nvos21 rt par new cls blk) = cls"
    "c_u32 Nvos21Parameters 5 (nvos21 rt par new cls blk) = of_nat (length (snd blk))"
    unfolding nvos21_def by (rule c_u32_build [OF f], simp_all add: n)+
  show "c_u64 Nvos21Parameters 4 (nvos21 rt par new cls blk) = fst blk"
    unfolding nvos21_def by (rule c_u64_build [OF f]) (simp_all add: n)
qed

lemma nvos54_fields:
  "length (nvos54 client obj cmd blk) = c_size Nvos54Parameters"
  "c_u32 Nvos54Parameters 0 (nvos54 client obj cmd blk) = client"
  "c_u32 Nvos54Parameters 1 (nvos54 client obj cmd blk) = obj"
  "c_u32 Nvos54Parameters 2 (nvos54 client obj cmd blk) = cmd"
  "c_u64 Nvos54Parameters 4 (nvos54 client obj cmd blk) = fst blk"
  "c_u32 Nvos54Parameters 5 (nvos54 client obj cmd blk) = of_nat (length (snd blk))"
proof -
  let ?b = "[le4 client, le4 obj, le4 cmd, le4 0, le_bytes 8 (fst blk), le4 (of_nat (length (snd blk))), le4 0]"
  have f: "filled Nvos54Parameters ?b" by (simp add: filled_def Nvos54Parameters_def)
  have n: "length (fields_of Nvos54Parameters) = 7" "fields_of Nvos54Parameters ! 4 = U64"
    by (simp_all add: Nvos54Parameters_def)
  show "length (nvos54 client obj cmd blk) = c_size Nvos54Parameters" by (simp add: nvos54_def length_c_build [OF f])
  show "c_u32 Nvos54Parameters 0 (nvos54 client obj cmd blk) = client"
    "c_u32 Nvos54Parameters 1 (nvos54 client obj cmd blk) = obj"
    "c_u32 Nvos54Parameters 2 (nvos54 client obj cmd blk) = cmd"
    "c_u32 Nvos54Parameters 5 (nvos54 client obj cmd blk) = of_nat (length (snd blk))"
    unfolding nvos54_def by (rule c_u32_build [OF f], simp_all add: n)+
  show "c_u64 Nvos54Parameters 4 (nvos54 client obj cmd blk) = fst blk"
    unfolding nvos54_def by (rule c_u64_build [OF f]) (simp_all add: n)
qed

lemma rm_alloc_serves:
  assumes "serves_alloc K view k" "length (snd blk) < 2 ^ 32"
  shows "case rm_alloc K fd rt par new cls blk s of (r, s') \<Rightarrow>
    (case nv_make k (view s) rt par new cls (snd blk) of
       None \<Rightarrow> r = None \<and> view s' = view s
     | Some (h, ob) \<Rightarrow> r = Some h \<and> view s' = ob)"
proof -
  let ?p = "nvos21 rt par new cls blk"
  have "points_to (c_u64 Nvos21Parameters 4 ?p) (c_u32 Nvos21Parameters 5 ?p) [blk]"
    using assms(2) by (simp add: points_to_def nvos21_fields unat_of_nat32)
  then have "case K s fd (req_size NV_ESC_RM_ALLOC (c_size Nvos21Parameters)) ?p [blk] of ((ret, p', _), s') \<Rightarrow>
      (case nv_make k (view s) rt par new cls (snd blk) of
         None \<Rightarrow> (ret \<noteq> 0 \<or> c_u32 Nvos21Parameters 6 p' \<noteq> 0) \<and> view s' = view s
       | Some (h, ob) \<Rightarrow> ret = 0 \<and> c_u32 Nvos21Parameters 6 p' = 0 \<and> c_u32 Nvos21Parameters 2 p' = h \<and> view s' = ob)"
    using assms(1) [unfolded serves_alloc_def, rule_format, of ?p blk s fd] by (simp only: nvos21_fields)
  then show ?thesis
    by (auto simp: rm_alloc_def split: prod.splits option.splits)
qed

lemma rm_control_serves:
  assumes "serves_control K view tele" "length (snd blk) < 2 ^ 32" "no_subs (view s) (client, obj) = Some inst"
  obtains r s' where "rm_control K fd client obj cmd blk blks s = (r, s')" "view s' = view s"
    "nv_answers (tele inst) cmd (blk # blks) r"
proof -
  let ?p = "nvos54 client obj cmd blk"
  have "points_to (c_u64 Nvos54Parameters 4 ?p) (c_u32 Nvos54Parameters 5 ?p) (blk # blks)"
    using assms(2) by (simp add: points_to_def nvos54_fields unat_of_nat32)
  then have "case K s fd (req_size NV_ESC_RM_CONTROL (c_size Nvos54Parameters)) ?p (blk # blks) of
      ((ret, p', mem), s') \<Rightarrow> view s' = view s \<and>
        nv_answers (tele inst) cmd (blk # blks) (if ret \<noteq> 0 \<or> c_u32 Nvos54Parameters 6 p' \<noteq> 0 then None else Some mem)"
    using assms(1) [unfolded serves_control_def, rule_format, of ?p "blk # blks" s inst fd] assms(3)
    by (simp only: nvos54_fields)
  with that show thesis
    by (cases "K s fd (req_size NV_ESC_RM_CONTROL (c_size Nvos54Parameters)) ?p (blk # blks)")
      (auto simp: rm_control_def split: prod.splits)
qed

subsection \<open>The queries\<close>

lemma c_arr: "c_size (Arr n t) = n * c_size t" by simp

lemma fb_info_facts:
  "length (fb_info i) = c_size NvFbInfo" "c_u32 NvFbInfo 0 (fb_info i) = i"
proof -
  have f: "filled NvFbInfo [le4 i, le4 0]" by (simp add: filled_def NvFbInfo_def)
  show "length (fb_info i) = c_size NvFbInfo" unfolding fb_info_def by (rule length_c_build [OF f])
  show "c_u32 NvFbInfo 0 (fb_info i) = i" unfolding fb_info_def
    by (rule c_u32_build [OF f]) (simp_all add: NvFbInfo_def)
qed

lemma fb_params_facts:
  fixes adr' :: u64
  shows "c_u32 Nv2080CtrlFbGetInfoParams 0 (c_build Nv2080CtrlFbGetInfoParams [le4 2, le_bytes 8 adr']) = 2"
    "c_u64 Nv2080CtrlFbGetInfoParams 1 (c_build Nv2080CtrlFbGetInfoParams [le4 2, le_bytes 8 adr']) = adr'"
    "length (c_build Nv2080CtrlFbGetInfoParams [le4 2, le_bytes 8 adr']) = 16"
proof -
  have f: "filled Nv2080CtrlFbGetInfoParams [le4 2, le_bytes 8 adr']"
    by (simp add: filled_def Nv2080CtrlFbGetInfoParams_def)
  show "c_u32 Nv2080CtrlFbGetInfoParams 0 (c_build Nv2080CtrlFbGetInfoParams [le4 2, le_bytes 8 adr']) = 2"
    by (rule c_u32_build [OF f]) (simp_all add: Nv2080CtrlFbGetInfoParams_def)
  show "c_u64 Nv2080CtrlFbGetInfoParams 1 (c_build Nv2080CtrlFbGetInfoParams [le4 2, le_bytes 8 adr']) = adr'"
    by (rule c_u64_build [OF f]) (simp_all add: Nv2080CtrlFbGetInfoParams_def)
  show "length (c_build Nv2080CtrlFbGetInfoParams [le4 2, le_bytes 8 adr']) = 16"
    by (simp add: length_c_build [OF f] struct_sizes)
qed

lemma answers_fb_two:
  "answers_fb g [(a, ps), (a', l)] r \<Longrightarrow> a' = c_u64 Nv2080CtrlFbGetInfoParams 1 ps \<Longrightarrow>
   unat (c_u32 Nv2080CtrlFbGetInfoParams 0 ps) = n \<Longrightarrow> length l = n * c_size NvFbInfo \<Longrightarrow>
   (case rg_fb g of None \<Rightarrow> r = None
    | Some fb \<Rightarrow> \<exists>params' lst'. r = Some [params', lst'] \<and>
        (\<forall>j < n. fb_value fb (c_u32 NvFbInfo 0 (c_elem NvFbInfo j l)) (c_u32 NvFbInfo 1 (c_elem NvFbInfo j lst'))))"
  by (auto simp: answers_fb_def)

lemma fb_memory_serves:
  assumes sv: "serves_control K view tele" and sub: "no_subs (view s) (client, sub) = Some inst"
  shows "\<exists>s'. fb_memory_io K fd client sub adr adr' s = (fb_memory (tele inst), s') \<and> view s' = view s"
proof -
  let ?ps = "c_build Nv2080CtrlFbGetInfoParams [le4 2, le_bytes 8 adr']"
  let ?l = "fb_info INDEX_TOTAL_RAM_SIZE @ fb_info INDEX_HEAP_FREE"
  have e: "c_elem NvFbInfo 0 ?l = fb_info INDEX_TOTAL_RAM_SIZE" "c_elem NvFbInfo 1 ?l = fb_info INDEX_HEAP_FREE"
    using c_elem_concat [of "[fb_info INDEX_TOTAL_RAM_SIZE, fb_info INDEX_HEAP_FREE]" NvFbInfo 0 "[]"]
      c_elem_concat [of "[fb_info INDEX_TOTAL_RAM_SIZE, fb_info INDEX_HEAP_FREE]" NvFbInfo 1 "[]"]
    by (simp_all add: fb_info_facts)
  have l: "length ?l = 2 * c_size NvFbInfo" and unat_two: "unat (2 :: u32) = 2" by (simp_all add: fb_info_facts)
  obtain r s' where c: "rm_control K fd client sub CMD_FB_GET_INFO (adr, ?ps) [(adr', ?l)] s = (r, s')" "view s' = view s"
    and a: "nv_answers (tele inst) CMD_FB_GET_INFO [(adr, ?ps), (adr', ?l)] r"
    by (rule rm_control_serves [where blk = "(adr, ?ps)", OF sv _ sub]) (simp add: fb_params_facts, rule that)
  have "answers_fb (tele inst) [(adr, ?ps), (adr', ?l)] r" using a by (simp add: nv_answers_def)
  then have a: "case rg_fb (tele inst) of None \<Rightarrow> r = None
    | Some fb \<Rightarrow> \<exists>params' lst'. r = Some [params', lst'] \<and>
        (\<forall>j < 2. fb_value fb (c_u32 NvFbInfo 0 (c_elem NvFbInfo j ?l)) (c_u32 NvFbInfo 1 (c_elem NvFbInfo j lst')))"
    by (rule answers_fb_two) (simp_all only: fb_params_facts l unat_two)
  show ?thesis
  proof (cases "rg_fb (tele inst)")
    case None
    with a c show ?thesis by (simp add: fb_memory_io_def Let_def fb_memory_def)
  next
    case (Some fb)
    with a obtain p' l' where r: "r = Some [p', l']"
      and v: "\<forall>j < 2. fb_value fb (c_u32 NvFbInfo 0 (c_elem NvFbInfo j ?l)) (c_u32 NvFbInfo 1 (c_elem NvFbInfo j l'))" by auto
    have "c_u32 NvFbInfo 1 (c_elem NvFbInfo 0 l') = fst fb" "c_u32 NvFbInfo 1 (c_elem NvFbInfo 1 l') = snd fb"
      using v [rule_format, of 0] v [rule_format, of 1] e by (simp_all add: fb_value_def fb_info_facts)
    with c r Some show ?thesis by (cases fb) (simp add: fb_memory_io_def Let_def fb_memory_def)
  qed
qed

lemma perfmon_request_facts:
  "length perfmon_request = c_size NvPerfmonUtilParams"
  "c_u32 NvPerfmonUtilParams 1 perfmon_request = of_nat (RING * c_size NvPerfmonUtilSample)"
  "c_u32 NvPerfmonUtilParams 2 perfmon_request = of_nat RING"
proof -
  have f: "filled NvPerfmonUtilParams [[0], le4 (of_nat (c_size NvPerfmonUtilSample * RING)), le4 (of_nat RING), le4 0,
      zeros (RING * c_size NvPerfmonUtilSample)]"
    by (simp add: filled_def NvPerfmonUtilParams_def RING_def struct_sizes)
  show "length perfmon_request = c_size NvPerfmonUtilParams" unfolding perfmon_request_def by (rule length_c_build [OF f])
  show "c_u32 NvPerfmonUtilParams 1 perfmon_request = of_nat (RING * c_size NvPerfmonUtilSample)"
    unfolding perfmon_request_def by (rule c_u32_build [OF f]) (simp_all add: NvPerfmonUtilParams_def mult.commute)
  show "c_u32 NvPerfmonUtilParams 2 perfmon_request = of_nat RING"
    unfolding perfmon_request_def by (rule c_u32_build [OF f]) (simp_all add: NvPerfmonUtilParams_def)
qed

lemma perfmon_util_serves:
  assumes sv: "serves_control K view tele" and sub: "no_subs (view s) (client, sub) = Some inst"
  shows "\<exists>s'. perfmon_util_io K fd client sub adr s = (perfmon_util (tele inst), s') \<and> view s' = view s"
proof -
  obtain r s' where c: "rm_control K fd client sub CMD_PERFMON_UTIL_SAMPLES_V2 (adr, perfmon_request) [] s = (r, s')"
    "view s' = view s" and a: "nv_answers (tele inst) CMD_PERFMON_UTIL_SAMPLES_V2 [(adr, perfmon_request)] r"
    by (rule rm_control_serves [where blk = "(adr, perfmon_request)", OF sv _ sub])
      (simp add: perfmon_request_facts struct_sizes, rule that)
  have a: "answers_util (tele inst) [(adr, perfmon_request)] r" using a by (simp add: nv_answers_def)
  have a: "case rg_util (tele inst) of None \<Rightarrow> r = None
    | Some (cnt, samples) \<Rightarrow> \<exists>buf'. r = Some [buf'] \<and> c_u32 NvPerfmonUtilParams 2 buf' = cnt \<and>
        (\<forall>j < min (unat cnt) RING.
           samples ! j = (c_u32 NvEngineUtilSample 2 (gr_sample buf' j), c_u32 NvEngineUtilSample 0 (gr_sample buf' j)))"
    using a [unfolded answers_util_def, rule_format, of perfmon_request]
    by (simp only: perfmon_request_facts list.map snd_conv simp_thms)
  show ?thesis
  proof (cases "rg_util (tele inst)")
    case None
    with a c show ?thesis by (simp add: perfmon_util_io_def perfmon_util_def)
  next
    case (Some u)
    obtain cnt samples where u: "u = (cnt, samples)" by (cases u)
    with a Some obtain b where r: "r = Some [b]" "c_u32 NvPerfmonUtilParams 2 b = cnt"
      and v: "\<forall>j < min (unat cnt) RING.
        samples ! j = (c_u32 NvEngineUtilSample 2 (gr_sample b j), c_u32 NvEngineUtilSample 0 (gr_sample b j))" by auto
    define m where "m = min (unat cnt) RING"
    have v: "m \<noteq> 0 \<Longrightarrow> samples ! (m - 1) =
        (c_u32 NvEngineUtilSample 2 (gr_sample b (m - 1)), c_u32 NvEngineUtilSample 0 (gr_sample b (m - 1)))"
      using v by (simp add: m_def [symmetric])
    show ?thesis
      using c r(1) Some u v by (simp add: perfmon_util_io_def perfmon_util_def Let_def gr_sample_def r(2) m_def [symmetric])
  qed
qed

lemma pids_request_facts:
  "length (c_build NvGetPidsParams [le4 GET_PIDS_ID_TYPE_CLASS, le4 NV20_SUBDEVICE_0, le4 0, zeros 3800]) = c_size NvGetPidsParams"
  "c_u32 NvGetPidsParams 0 (c_build NvGetPidsParams [le4 GET_PIDS_ID_TYPE_CLASS, le4 NV20_SUBDEVICE_0, le4 0, zeros 3800]) = GET_PIDS_ID_TYPE_CLASS"
  "c_u32 NvGetPidsParams 1 (c_build NvGetPidsParams [le4 GET_PIDS_ID_TYPE_CLASS, le4 NV20_SUBDEVICE_0, le4 0, zeros 3800]) = NV20_SUBDEVICE_0"
proof -
  have f: "filled NvGetPidsParams [le4 GET_PIDS_ID_TYPE_CLASS, le4 NV20_SUBDEVICE_0, le4 0, zeros 3800]"
    by (simp add: filled_def NvGetPidsParams_def)
  have n: "length (fields_of NvGetPidsParams) = 4" by (simp add: NvGetPidsParams_def)
  show "length (c_build NvGetPidsParams [le4 GET_PIDS_ID_TYPE_CLASS, le4 NV20_SUBDEVICE_0, le4 0, zeros 3800]) = c_size NvGetPidsParams"
    by (rule length_c_build [OF f])
  show "c_u32 NvGetPidsParams 0 (c_build NvGetPidsParams [le4 GET_PIDS_ID_TYPE_CLASS, le4 NV20_SUBDEVICE_0, le4 0, zeros 3800]) = GET_PIDS_ID_TYPE_CLASS"
    by (rule c_u32_build [OF f]) (simp_all add: n)
  show "c_u32 NvGetPidsParams 1 (c_build NvGetPidsParams [le4 GET_PIDS_ID_TYPE_CLASS, le4 NV20_SUBDEVICE_0, le4 0, zeros 3800]) = NV20_SUBDEVICE_0"
    by (rule c_u32_build [OF f]) (simp_all add: n)
qed

lemma pid_info_facts:
  "length (pid_info p) = c_size NvPidInfo" "c_u32 NvPidInfo 0 (pid_info p) = p"
  "c_u32 NvPidInfo 1 (pid_info p) = INDEX_VIDEO_MEMORY_USAGE"
proof -
  have f: "filled NvPidInfo [le4 p, le4 INDEX_VIDEO_MEMORY_USAGE, le4 0, zeros 48, zeros 8]"
    by (simp add: filled_def NvPidInfo_def struct_sizes) (simp add: nv_structs up_to_def)
  have n: "length (fields_of NvPidInfo) = 5" by (simp add: NvPidInfo_def)
  show "length (pid_info p) = c_size NvPidInfo" unfolding pid_info_def by (rule length_c_build [OF f])
  show "c_u32 NvPidInfo 0 (pid_info p) = p" unfolding pid_info_def by (rule c_u32_build [OF f]) (simp_all add: n)
  show "c_u32 NvPidInfo 1 (pid_info p) = INDEX_VIDEO_MEMORY_USAGE"
    unfolding pid_info_def by (rule c_u32_build [OF f]) (simp_all add: n)
qed

lemma pid_info_request_facts:
  assumes "length ps \<le> PID_INFO_MAX_COUNT"
  shows "length (pid_info_request ps) = c_size NvGetPidInfoParams"
    "unat (c_u32 NvGetPidInfoParams 0 (pid_info_request ps)) = length ps"
    "j < length ps \<Longrightarrow> info_entry (pid_info_request ps) j = pid_info (ps ! j)"
proof -
  let ?es = "concat (List.map pid_info ps) @ zeros ((PID_INFO_MAX_COUNT - length ps) * c_size NvPidInfo)"
  have "length (concat (List.map pid_info ps)) = length ps * c_size NvPidInfo"
    by (induction ps) (simp_all add: pid_info_facts)
  then have "length ?es = PID_INFO_MAX_COUNT * c_size NvPidInfo"
    using assms by (simp flip: distrib_right)
  then have f: "filled NvGetPidInfoParams [le4 (of_nat (length ps)), ?es]"
    by (simp add: filled_def NvGetPidInfoParams_def PID_INFO_MAX_COUNT_def)
  have n: "length (fields_of NvGetPidInfoParams) = 2" by (simp add: NvGetPidInfoParams_def)
  show "length (pid_info_request ps) = c_size NvGetPidInfoParams" unfolding pid_info_request_def by (rule length_c_build [OF f])
  have "c_u32 NvGetPidInfoParams 0 (pid_info_request ps) = of_nat (length ps)"
    unfolding pid_info_request_def by (rule c_u32_build [OF f]) (simp_all add: n)
  then show "unat (c_u32 NvGetPidInfoParams 0 (pid_info_request ps)) = length ps"
    using assms unat_of_nat32 [of "length ps"] by (simp add: PID_INFO_MAX_COUNT_def)
  assume j: "j < length ps"
  have "c_get NvGetPidInfoParams 1 (pid_info_request ps) = ?es"
    using c_get_build [OF f, of 1] by (simp add: n pid_info_request_def)
  then show "info_entry (pid_info_request ps) j = pid_info (ps ! j)"
    using j c_elem_concat [of "List.map pid_info ps" NvPidInfo j] by (simp add: info_entry_def pid_info_facts)
qed

lemma answers_pids_one:
  "answers_pids g [(a, buf)] r \<Longrightarrow> c_u32 NvGetPidsParams 0 buf = GET_PIDS_ID_TYPE_CLASS \<Longrightarrow>
   c_u32 NvGetPidsParams 1 buf = NV20_SUBDEVICE_0 \<Longrightarrow>
   (case rg_pids g of None \<Rightarrow> r = None
    | Some (cnt, tbl) \<Rightarrow> \<exists>buf'. r = Some [buf'] \<and> c_u32 NvGetPidsParams 2 buf' = cnt \<and>
        (\<forall>j < min (unat cnt) (length tbl). pid_of_table buf' j = tbl ! j))"
  by (simp add: answers_pids_def)

lemma answers_info_one:
  "answers_info g [(a, buf)] r \<Longrightarrow> unat (c_u32 NvGetPidInfoParams 0 buf) = length ps \<Longrightarrow> length ps \<le> PID_INFO_MAX_COUNT \<Longrightarrow>
   \<forall>j < length ps. c_u32 NvPidInfo 1 (info_entry buf j) = INDEX_VIDEO_MEMORY_USAGE \<and> c_u32 NvPidInfo 0 (info_entry buf j) = ps ! j \<Longrightarrow>
   (case rg_mem g ps of None \<Rightarrow> r = None
    | Some owned \<Rightarrow> \<exists>buf'. r = Some [buf'] \<and> (\<forall>j < length ps. pid_result buf' j = (ps ! j, owned ! j)))"
proof -
  assume a: "answers_info g [(a, buf)] r" "unat (c_u32 NvGetPidInfoParams 0 buf) = length ps" "length ps \<le> PID_INFO_MAX_COUNT"
    and e: "\<forall>j < length ps. c_u32 NvPidInfo 1 (info_entry buf j) = INDEX_VIDEO_MEMORY_USAGE \<and> c_u32 NvPidInfo 0 (info_entry buf j) = ps ! j"
  have "List.map (\<lambda>j. c_u32 NvPidInfo 0 (info_entry buf j)) [0..<length ps] = ps"
    using e by (intro nth_equalityI) simp_all
  with a e have "case rg_mem g ps of None \<Rightarrow> r = None
    | Some owned \<Rightarrow> \<exists>buf'. r = Some [buf'] \<and>
        (\<forall>j < length ps. c_u32 NvPidInfo 0 (info_entry buf' j) = c_u32 NvPidInfo 0 (info_entry buf j) \<and>
           c_u64 NvVideoMemoryUsageData 1 (c_get NvPidInfo 3 (info_entry buf' j)) = owned ! j)"
    by (simp add: answers_info_def split: option.splits)
  with e show ?thesis by (auto simp: pid_result_def info_entry_def Let_def split: option.splits)
qed

lemma proc_memory_serves:
  assumes sv: "serves_control K view tele" and sub: "no_subs (view s) (client, sub) = Some inst" and ok: "tele_ok (tele inst)"
  shows "\<exists>s'. proc_memory_io K fd client sub adr s = (proc_memory (tele inst), s') \<and> view s' = view s"
proof -
  let ?g = "tele inst"
  let ?b = "c_build NvGetPidsParams [le4 GET_PIDS_ID_TYPE_CLASS, le4 NV20_SUBDEVICE_0, le4 0, zeros 3800]"
  obtain r1 s1 where c1: "rm_control K fd client sub CMD_GPU_GET_PIDS (adr, ?b) [] s = (r1, s1)"
    and v1: "view s1 = view s" and a1: "nv_answers ?g CMD_GPU_GET_PIDS [(adr, ?b)] r1"
    by (rule rm_control_serves [where blk = "(adr, ?b)", OF sv _ sub]) (simp add: pids_request_facts struct_sizes, rule that)
  have "answers_pids ?g [(adr, ?b)] r1" using a1 by (simp add: nv_answers_def)
  note a1 = answers_pids_one [OF this pids_request_facts(2,3)]
  show ?thesis
  proof (cases "rg_pids ?g")
    case None
    with a1 c1 v1 show ?thesis by (simp add: proc_memory_io_def proc_memory_def)
  next
    case (Some u)
    obtain cnt tbl where u: "u = (cnt, tbl)" by (cases u)
    from a1 Some u obtain b1 where r1: "r1 = Some [b1]" "c_u32 NvGetPidsParams 2 b1 = cnt"
      and t: "\<forall>j < min (unat cnt) (length tbl). pid_of_table b1 j = tbl ! j" by auto
    define n where "n = min (unat cnt) PID_INFO_MAX_COUNT"
    have tbl: "length tbl = 950" using ok Some u by (simp add: tele_ok_def)
    have ps: "List.map (pid_of_table b1) [0..<n] = take n tbl"
      using t tbl by (intro nth_equalityI) (simp_all add: n_def PID_INFO_MAX_COUNT_def)
    show ?thesis
    proof (cases "n = 0")
      case True
      with c1 v1 r1 Some u show ?thesis by (simp add: proc_memory_io_def proc_memory_def Let_def n_def [symmetric])
    next
      case False
      let ?ps = "take n tbl"
      have len: "length ?ps = n" "length ?ps \<le> PID_INFO_MAX_COUNT" using tbl by (simp_all add: n_def PID_INFO_MAX_COUNT_def)
      note q = pid_info_request_facts [OF len(2)]
      have sub1: "no_subs (view s1) (client, sub) = Some inst" using sub v1 by simp
      obtain r2 s2 where c2: "rm_control K fd client sub CMD_GPU_GET_PID_INFO (adr, pid_info_request ?ps) [] s1 = (r2, s2)"
        and v2: "view s2 = view s1" and a2: "nv_answers ?g CMD_GPU_GET_PID_INFO [(adr, pid_info_request ?ps)] r2"
        by (rule rm_control_serves [where blk = "(adr, pid_info_request ?ps)", OF sv _ sub1])
          (simp add: q struct_sizes, rule that)
      have "answers_info ?g [(adr, pid_info_request ?ps)] r2" using a2 by (simp add: nv_answers_def)
      moreover have "\<forall>j < length ?ps. c_u32 NvPidInfo 1 (info_entry (pid_info_request ?ps) j) = INDEX_VIDEO_MEMORY_USAGE \<and>
          c_u32 NvPidInfo 0 (info_entry (pid_info_request ?ps) j) = ?ps ! j"
        by (simp add: q(3) pid_info_facts pid_info_facts [simplified])
      ultimately
      have a2: "case rg_mem ?g ?ps of None \<Rightarrow> r2 = None
        | Some owned \<Rightarrow> \<exists>buf'. r2 = Some [buf'] \<and> (\<forall>j < length ?ps. pid_result buf' j = (?ps ! j, owned ! j))"
        by (rule answers_info_one [OF _ q(2) len(2)])
      have ps1: "List.map (\<lambda>i. u32_le (c_elem U32 i (c_get NvGetPidsParams 3 b1))) [0..<n] = ?ps"
        using ps by (simp only: pid_of_table_def [abs_def])
      have n1: "min (unat (c_u32 NvGetPidsParams 2 b1)) PID_INFO_MAX_COUNT = n" by (simp add: n_def r1(2))
      have io: "proc_memory_io K fd client sub adr s =
        (case rm_control K fd client sub CMD_GPU_GET_PID_INFO (adr, pid_info_request ?ps) [] s1 of
           (None, s2) \<Rightarrow> ([], s2)
         | (Some mem2, s2) \<Rightarrow>
             (List.map (\<lambda>(p, bytes). (p, \<lparr>gp_sm_pct = 0, gp_mem_mib = ucast (drop_bit 20 bytes)\<rparr>))
                (List.filter (\<lambda>(p, bytes). (ucast (drop_bit 20 bytes) :: u32) > 0)
                  (List.map (pid_result (hd mem2)) [0..<n])), s2))"
        using False unfolding proc_memory_io_def Let_def c1 r1(1) prod.case option.case list.sel n1 ps1 by simp
      show ?thesis
      proof (cases "rg_mem ?g ?ps")
        case None
        with a2 c2 v1 v2 False io Some u show ?thesis by (simp add: proc_memory_def Let_def n_def [symmetric])
      next
        case (Some owned)
        then have o: "length owned = n" using ok len by (simp add: tele_ok_def)
        from a2 Some obtain b2 where r2: "r2 = Some [b2]" "\<forall>j < length ?ps. pid_result b2 j = (?ps ! j, owned ! j)" by auto
        have "List.map (pid_result b2) [0..<n] = zip ?ps owned"
          using r2(2) len o by (intro nth_equalityI) simp_all
        with c2 v1 v2 r2(1) False io Some u \<open>rg_pids ?g = Some u\<close> show ?thesis
          by (simp add: proc_memory_def Let_def n_def [symmetric])
      qed
    qed
  qed
qed

subsection \<open>A tick\<close>

definition subs_ok :: "nv_objects \<Rightarrow> u32 \<Rightarrow> (int \<times> u32) list \<Rightarrow> u32 list \<Rightarrow> bool" where
  "subs_ok ob client gpus insts \<longleftrightarrow>
     length insts = length gpus \<and> (\<forall>i < length gpus. no_subs ob (client, snd (gpus ! i)) = Some (insts ! i))"

lemma subs_ok_Cons:
  "subs_ok ob client (g # gpus) insts \<longleftrightarrow>
   (\<exists>i insts'. insts = i # insts' \<and> no_subs ob (client, snd g) = Some i \<and> subs_ok ob client gpus insts')"
  by (cases insts) (auto simp: subs_ok_def nth_Cons split: nat.splits)

definition sample_of :: "rm_gpu \<Rightarrow> gpu_sample option" where
  "sample_of g = map_option (\<lambda>fb. (fb, perfmon_util g)) (fb_memory g)"

lemma phase1_serves:
  assumes sv: "serves_control K view tele"
  shows "subs_ok (view s) client gpus insts \<Longrightarrow>
    \<exists>s'. phase1 K fd client adr adr' gpus s = (List.map (sample_of \<circ> tele) insts, s') \<and> view s' = view s"
proof (induction gpus arbitrary: insts s)
  case Nil
  then show ?case by (simp add: subs_ok_def)
next
  case (Cons g gpus)
  obtain dev sub where g: "g = (dev, sub)" by (cases g)
  from Cons.prems obtain i insts' where i: "insts = i # insts'" and sub: "no_subs (view s) (client, sub) = Some i"
    and rest: "subs_ok (view s) client gpus insts'" by (auto simp: subs_ok_Cons g)
  obtain s1 where fb: "fb_memory_io K fd client sub adr adr' s = (fb_memory (tele i), s1)" and v1: "view s1 = view s"
    using fb_memory_serves [OF sv sub] by blast
  show ?case
  proof (cases "fb_memory (tele i)")
    case None
    with Cons.IH [of s1 insts'] rest v1 fb show ?thesis by (auto simp: g i sample_of_def)
  next
    case (Some f)
    have "no_subs (view s1) (client, sub) = Some i" using sub v1 by simp
    then obtain s2 where u: "perfmon_util_io K fd client sub adr s1 = (perfmon_util (tele i), s2)" and v2: "view s2 = view s1"
      using perfmon_util_serves [OF sv] by blast
    from Cons.IH [of s2 insts'] rest v1 v2 fb u Some show ?thesis by (auto simp: g i sample_of_def)
  qed
qed

lemma phase2_serves:
  assumes sv: "serves_control K view tele"
  shows "subs_ok (view s) client gpus insts \<Longrightarrow> \<forall>i \<in> set insts. tele_ok (tele i) \<Longrightarrow>
    \<exists>s'. phase2 K fd client adr (zip gpus (List.map (sample_of \<circ> tele) insts)) buf s =
        (foldl (\<lambda>b g. push_all (proc_memory g) b) buf (List.filter (\<lambda>g. fb_memory g \<noteq> None) (List.map tele insts)), s') \<and>
      view s' = view s"
proof (induction gpus arbitrary: insts s buf)
  case Nil
  then show ?case by (simp add: subs_ok_def)
next
  case (Cons g gpus)
  obtain dev sub where g: "g = (dev, sub)" by (cases g)
  from Cons.prems obtain i insts' where i: "insts = i # insts'" and sub: "no_subs (view s) (client, sub) = Some i"
    and rest: "subs_ok (view s) client gpus insts'" by (auto simp: subs_ok_Cons g)
  show ?case
  proof (cases "fb_memory (tele i)")
    case None
    with Cons.IH [of s insts' buf] rest Cons.prems(2) show ?thesis by (simp add: g i sample_of_def)
  next
    case (Some f)
    have "tele_ok (tele i)" using Cons.prems(2) i by simp
    then obtain s1 where p: "proc_memory_io K fd client sub adr s = (proc_memory (tele i), s1)" and v1: "view s1 = view s"
      using proc_memory_serves [OF sv sub] by blast
    from Cons.IH [of s1 insts' "push_all (proc_memory (tele i)) buf"] rest v1 Cons.prems(2) p Some show ?thesis
      by (simp add: g i sample_of_def)
  qed
qed

lemma map_filter_map: "List.map_filter f (List.map g xs) = List.map_filter (f \<circ> g) xs"
  by (simp add: List.map_filter_def filter_map comp_def)

lemma good_samples:
  "List.map_filter id (List.map sample_of gs) =
     List.map (\<lambda>g. (the (fb_memory g), perfmon_util g)) (List.filter (\<lambda>g. fb_memory g \<noteq> None) gs)"
  by (induction gs) (auto simp: List.map_filter_def sample_of_def)

lemma fb_figures: "List.map_filter fb_memory gs = List.map (\<lambda>g. the (fb_memory g)) (List.filter (\<lambda>g. fb_memory g \<noteq> None) gs)"
  by (simp add: List.map_filter_def comp_def)

lemma rm_populate_serves:
  assumes sv: "serves_control K view tele" and subs: "subs_ok (view s) (rs_client st) (rs_gpus st) insts"
    and ok: "\<forall>i \<in> set insts. tele_ok (tele i)"
  shows "\<exists>s'. rm_populate_io K st adr adr' s = (rm_populate st (List.map tele insts), s') \<and> view s' = view s"
proof (cases "rs_ctl_fd st")
  case None
  then show ?thesis by (simp add: rm_populate_io_def rm_populate_def)
next
  case (Some fd)
  obtain s1 where p1: "phase1 K fd (rs_client st) adr adr' (rs_gpus st) s = (List.map (sample_of \<circ> tele) insts, s1)"
    and v1: "view s1 = view s" using phase1_serves [OF sv subs] by blast
  have subs1: "subs_ok (view s1) (rs_client st) (rs_gpus st) insts" using subs v1 by simp
  obtain v where v: "List.filter (\<lambda>g. fb_memory g \<noteq> None) (List.map tele insts) = v" by blast
  have good: "List.map_filter id (List.map (sample_of \<circ> tele) insts) = List.map (\<lambda>g. (the (fb_memory g), perfmon_util g)) v"
    using good_samples [of "List.map tele insts"] by (simp only: v map_map)
  have fbs: "List.map_filter fb_memory (List.map tele insts) = List.map (\<lambda>g. the (fb_memory g)) v"
    by (simp only: fb_figures v)
  have smp: "List.map_filter (\<lambda>(_, (_, smp)). smp) (List.map (\<lambda>g. (the (fb_memory g), perfmon_util g)) v) =
      List.map_filter (\<lambda>g. snd (perfmon_util g)) v"
    by (simp add: map_filter_map comp_def case_prod_beta)
  obtain buf where buf: "push_all (List.map (\<lambda>(p, pct). (p, \<lparr>gp_sm_pct = pct, gp_mem_mib = 0\<rparr>))
      (List.map_filter (\<lambda>g. snd (perfmon_util g)) v)) (fvec_new (length v * MAX_PROCS_PER_GPU)) = buf" by blast
  obtain s2 where p2: "phase2 K fd (rs_client st) adr (zip (rs_gpus st) (List.map (sample_of \<circ> tele) insts)) buf s1 =
      (foldl (\<lambda>b g. push_all (proc_memory g) b) buf v, s2)" and v2: "view s2 = view s1"
    using phase2_serves [OF sv subs1 ok] unfolding v by blast
  have "rm_populate_io K st adr adr' s = (rm_populate st (List.map tele insts), s2)"
    unfolding rm_populate_io_def rm_populate_def Some p1 option.case prod.case Let_def good fbs smp v length_map buf p2
    by (simp add: foldl_map case_prod_beta)
  with v1 v2 show ?thesis by simp
qed

subsection \<open>Opening\<close>

lemma handles_differ: "i < 256 \<Longrightarrow> j < 256 \<Longrightarrow> subdevice_handle (of_nat i) = subdevice_handle (of_nat j) \<longleftrightarrow> i = j"
proof -
  assume "i < 256" "j < 256"
  moreover have "unat (subdevice_handle (of_nat n) AND 0xff) = n" if "n < 256" for n
  proof -
    have "subdevice_handle (of_nat n) AND 0xff = of_nat n AND 0xff"
      unfolding subdevice_handle_def by (simp add: bit.conj_disj_distrib2)
    moreover have "x AND 255 = x mod 256" for x :: nat
      using take_bit_eq_mask [of 8 x] by (simp add: mask_eq_exp_minus_1 take_bit_eq_mod)
    then have "unat (of_nat n AND 0xff :: u32) = n"
      using that unat_of_nat32 [of n] by (simp add: word_nat unsigned_and_eq)
    ultimately show ?thesis by simp
  qed
  ultimately show ?thesis by metis
qed

lemma alloc_facts:
  "length (device_params idx) = c_size Nv0080AllocParameters" "c_u32 Nv0080AllocParameters 0 (device_params idx) = idx"
  "length subdevice_params = c_size Nv2080AllocParameters" "c_u32 Nv2080AllocParameters 0 subdevice_params = 0"
  "length (root_params me) = c_size Nv0000AllocParameters"
proof -
  have f: "filled Nv0080AllocParameters [le4 idx, le4 0, le4 0, le4 0, le4 0, zeros 8, zeros 8, zeros 8, le4 0]"
    "filled Nv2080AllocParameters [le4 0]"
    "filled Nv0000AllocParameters [le4 0, le4 me, List.map byte_of ''ltop'' @ zeros 96, zeros 8]"
    by (simp_all add: filled_def Nv0080AllocParameters_def Nv2080AllocParameters_def Nv0000AllocParameters_def)
  have n: "length (fields_of Nv0080AllocParameters) = 9" "length (fields_of Nv2080AllocParameters) = 1"
    by (simp_all add: Nv0080AllocParameters_def Nv2080AllocParameters_def)
  show "length (device_params idx) = c_size Nv0080AllocParameters" unfolding device_params_def by (rule length_c_build [OF f(1)])
  show "c_u32 Nv0080AllocParameters 0 (device_params idx) = idx" unfolding device_params_def
    by (rule c_u32_build [OF f(1)]) (simp_all add: n)
  show "length subdevice_params = c_size Nv2080AllocParameters" unfolding subdevice_params_def by (rule length_c_build [OF f(2)])
  show "c_u32 Nv2080AllocParameters 0 subdevice_params = 0" unfolding subdevice_params_def
    by (rule c_u32_build [OF f(2)]) (simp_all add: n)
  show "length (root_params me) = c_size Nv0000AllocParameters" unfolding root_params_def by (rule length_c_build [OF f(3)])
qed

lemmas nv_classes = NV01_ROOT_def NV01_DEVICE_0_def NV20_SUBDEVICE_0_def

lemma alloc_root_serves:
  assumes "serves_alloc K view k"
  shows "\<exists>s'. alloc_root K fd me adr s = (rk_root k, s') \<and>
    (\<forall>c. rk_root k = Some c \<longrightarrow> c \<in> no_clients (view s') \<and> no_subs (view s') = no_subs (view s))"
proof -
  let ?b = "(adr, root_params me)"
  have "length (snd ?b) < 2 ^ 32" by (simp only: alloc_facts snd_conv struct_sizes) simp
  from rm_alloc_serves [OF assms this, where fd = fd and rt = 0 and par = 0 and new = 0 and cls = NV01_ROOT and s = s] show ?thesis
    by (cases "rk_root k") (auto simp: alloc_root_def nv_make_def alloc_facts split: prod.splits)
qed

lemma alloc_device_serves:
  assumes "serves_alloc K view k" "client \<in> no_clients (view s)"
  shows "\<exists>s'. alloc_device K fd client idx adr s = (if rk_device k idx then Some (device_handle idx) else None, s') \<and>
    view s' = (if rk_device k idx then (view s)\<lparr>no_devs := (no_devs (view s))((client, device_handle idx) := Some idx)\<rparr> else view s)"
proof -
  let ?b = "(adr, device_params idx)"
  have "length (snd ?b) < 2 ^ 32" by (simp only: alloc_facts snd_conv struct_sizes) simp
  from rm_alloc_serves [OF assms(1) this, where fd = fd and rt = client and par = client and new = "device_handle idx"
      and cls = NV01_DEVICE_0 and s = s] assms(2) show ?thesis
    by (auto simp: alloc_device_def nv_make_def alloc_facts nv_classes Let_def split: prod.splits if_splits)
qed

lemma alloc_subdevice_serves:
  assumes "serves_alloc K view k" "no_devs (view s) (client, device_handle idx) = Some idx"
  shows "\<exists>s'. alloc_subdevice K fd client idx adr s = (if rk_subdevice k idx then Some (subdevice_handle idx) else None, s') \<and>
    view s' = (if rk_subdevice k idx then (view s)\<lparr>no_subs := (no_subs (view s))((client, subdevice_handle idx) := Some idx)\<rparr> else view s)"
proof -
  let ?b = "(adr, subdevice_params)"
  have "length (snd ?b) < 2 ^ 32" by (simp only: alloc_facts snd_conv struct_sizes) simp
  from rm_alloc_serves [OF assms(1) this, where fd = fd and rt = client and par = "device_handle idx"
      and new = "subdevice_handle idx" and cls = NV20_SUBDEVICE_0 and s = s] assms(2)
  show ?thesis
    by (auto simp: alloc_subdevice_def nv_make_def alloc_facts nv_classes split: prod.splits if_splits)
qed

lemma open_gpus_serves:
  assumes sv: "serves_alloc K view k"
  shows "client \<in> no_clients (view s) \<Longrightarrow> subs_ok (view s) client gpus (List.map of_nat [0..<i]) \<Longrightarrow>
    \<forall>j < i. snd (gpus ! j) = subdevice_handle (of_nat j) \<Longrightarrow> i + length minors \<le> 256 \<Longrightarrow>
    (case open_gpus_io K (rk_open k) fd client adr i minors gpus s of
       (r, s') \<Rightarrow> r = open_gpus k i minors gpus \<and>
         (\<forall>gs. r = Inr gs \<longrightarrow> subs_ok (view s') client gs (List.map of_nat [0..<length gs])))"
proof (induction minors arbitrary: i gpus s)
  case Nil
  then show ?case by (simp add: subs_ok_def)
next
  case (Cons minor minors)
  let ?i = "of_nat i :: u32"
  show ?case
  proof (cases "rk_open k (device_path minor) < 0")
    case True
    then show ?thesis by simp
  next
    case fd: False
    obtain s1 where d: "alloc_device K fd client ?i adr s = (if rk_device k ?i then Some (device_handle ?i) else None, s1)"
      and v1: "view s1 = (if rk_device k ?i then (view s)\<lparr>no_devs := (no_devs (view s))((client, device_handle ?i) := Some ?i)\<rparr> else view s)"
      using alloc_device_serves [OF sv Cons.prems(1)] by blast
    show ?thesis
    proof (cases "rk_device k ?i")
      case False
      with fd d show ?thesis by simp
    next
      case dev: True
      have "no_devs (view s1) (client, device_handle ?i) = Some ?i" using v1 dev by simp
      then obtain s2 where u: "alloc_subdevice K fd client ?i adr s1 = (if rk_subdevice k ?i then Some (subdevice_handle ?i) else None, s2)"
        and v2: "view s2 = (if rk_subdevice k ?i then (view s1)\<lparr>no_subs := (no_subs (view s1))((client, subdevice_handle ?i) := Some ?i)\<rparr> else view s1)"
        using alloc_subdevice_serves [OF sv] by blast
      show ?thesis
      proof (cases "rk_subdevice k ?i")
        case False
        with fd d dev u show ?thesis by simp
      next
        case sub: True
        let ?gs = "gpus @ [(rk_open k (device_path minor), subdevice_handle ?i)]"
        have len: "length gpus = i" using Cons.prems(2) by (simp add: subs_ok_def)
        have "\<forall>j < i. subdevice_handle (of_nat j) \<noteq> subdevice_handle ?i"
          using Cons.prems(4) handles_differ by fastforce
        then have "subs_ok (view s2) client ?gs (List.map of_nat [0..<i + 1])"
          using Cons.prems(2,3) v1 v2 dev sub len by (auto simp: subs_ok_def nth_append less_Suc_eq)
        moreover have "client \<in> no_clients (view s2)" using v1 v2 dev sub Cons.prems(1) by simp
        moreover have "\<forall>j < i + 1. snd (?gs ! j) = subdevice_handle (of_nat j)"
          using Cons.prems(3) len by (auto simp: nth_append less_Suc_eq)
        ultimately show ?thesis
          using Cons.IH [of s2 ?gs "i + 1"] Cons.prems(4) fd d dev u sub by simp
      qed
    qed
  qed
qed

lemma c_string_bytes: "0 < m \<Longrightarrow> c_string (List.map byte_of v @ zeros m) = takeWhile (\<lambda>c. c \<noteq> CHR 0x00) v"
proof (induction v)
  case Nil
  then show ?case by (cases m) (simp_all add: c_string_def)
next
  case (Cons c v)
  have "byte_of c = of_nat (of_char c)" unfolding byte_of_def by (rule of_nat_of_char [symmetric])
  then have n: "unat (byte_of c) = of_char c" by (simp only: unat_of_nat) simp
  have "byte_of c = 0 \<longleftrightarrow> of_char c = (0 :: nat)" using n unsigned_eq_0_iff [of "byte_of c", where ?'a = nat] by simp
  also have "\<dots> \<longleftrightarrow> c = CHR 0x00" using of_char_eq_iff [where 'a = nat, of c "CHR 0x00"] by simp
  finally show ?case using Cons n by (simp add: c_string_def char_of_u8_def)
qed

lemma version_request_facts:
  assumes "length v \<le> 63"
  shows "length (version_request v) = c_size NvIoctlRmApiVersion"
    "c_u32 NvIoctlRmApiVersion 0 (version_request v) = NV_RM_API_VERSION_CMD_STRICT"
    "c_string (c_get NvIoctlRmApiVersion 2 (version_request v)) = takeWhile (\<lambda>c. c \<noteq> CHR 0x00) v"
proof -
  have f: "filled NvIoctlRmApiVersion [le4 NV_RM_API_VERSION_CMD_STRICT, le4 0, List.map byte_of v @ zeros (64 - length v)]"
    using assms by (simp add: filled_def NvIoctlRmApiVersion_def)
  have n: "length (fields_of NvIoctlRmApiVersion) = 3" by (simp add: NvIoctlRmApiVersion_def)
  show "length (version_request v) = c_size NvIoctlRmApiVersion" unfolding version_request_def by (rule length_c_build [OF f])
  show "c_u32 NvIoctlRmApiVersion 0 (version_request v) = NV_RM_API_VERSION_CMD_STRICT"
    unfolding version_request_def by (rule c_u32_build [OF f]) (simp_all add: n)
  show "c_string (c_get NvIoctlRmApiVersion 2 (version_request v)) = takeWhile (\<lambda>c. c \<noteq> CHR 0x00) v"
    using c_get_build [OF f, of 2] assms by (simp add: n version_request_def c_string_bytes)
qed

lemma check_version_serves:
  assumes "serves_version K view k"
  shows "\<exists>s'. check_version_io K (rk_files k) fd s = (check_version (rk_files k) (rk_version_ok k), s') \<and> view s' = view s"
proof (cases "Option.bind (read_small_file (rk_files k) ''/proc/driver/nvidia/version'' 256) driver_version")
  case None
  then show ?thesis by (auto simp: check_version_io_def check_version_def split: option.splits bind_splits)
next
  case (Some v)
  then obtain content where c: "read_small_file (rk_files k) ''/proc/driver/nvidia/version'' 256 = Some content"
    "driver_version content = Some v" by (auto simp: bind_eq_Some_conv)
  let ?p = "version_request (take (64 - 1) v)"
  have len: "length (take (64 - 1) v) \<le> 63" by simp
  have nul: "rk_version_ok k (takeWhile (\<lambda>c. c \<noteq> CHR 0x00) u) = rk_version_ok k u" for u
    using assms by (simp add: serves_version_def)
  obtain ret p' mem s' where K: "K s fd (req_size NV_ESC_CHECK_VERSION_STR (c_size NvIoctlRmApiVersion)) ?p [] = ((ret, p', mem), s')"
    by (metis prod.collapse)
  have "(ret = 0 \<longleftrightarrow> rk_version_ok k (take (64 - 1) v)) \<and> view s' = view s"
    using assms [unfolded serves_version_def, THEN conjunct2, rule_format, of ?p s fd,
      OF version_request_facts(1) [OF len] version_request_facts(2) [OF len]]
    by (simp only: K prod.case version_request_facts(3) [OF len] nul)
  with c K show ?thesis by (auto simp: check_version_io_def check_version_def)
qed

lemma cards_serves:
  assumes "serves_cards K view k"
  shows "\<exists>s'. attached_gpu_minors_io K fd s = (map_option attached_gpu_minors (rk_cards k), s') \<and> view s' = view s \<and>
    (\<forall>cards. rk_cards k = Some cards \<longrightarrow> length cards = NV_MAX_DEVICES)"
proof -
  let ?n = "NV_MAX_DEVICES * c_size NvIoctlCardInfo"
  obtain ret reply mem s' where K: "K s fd (req_size NV_ESC_CARD_INFO ?n) (zeros ?n) [] = ((ret, reply, mem), s')"
    by (metis prod.collapse)
  have a: "view s' = view s \<and>
     (case rk_cards k of None \<Rightarrow> ret \<noteq> 0
      | Some cards \<Rightarrow> ret = 0 \<and> length cards = NV_MAX_DEVICES \<and>
          (\<forall>i < NV_MAX_DEVICES. c_get NvIoctlCardInfo 0 (c_elem NvIoctlCardInfo i reply) = [fst (cards ! i)] \<and>
             c_u32 NvIoctlCardInfo 8 (c_elem NvIoctlCardInfo i reply) = snd (cards ! i)))"
    using assms [unfolded serves_cards_def, rule_format, of "zeros ?n" s fd] K by simp
  show ?thesis
  proof (cases "rk_cards k")
    case None
    with a K show ?thesis by (simp add: attached_gpu_minors_io_def)
  next
    case (Some cards)
    have "List.map (card_entry reply) [0..<NV_MAX_DEVICES] = cards"
      using a Some by (intro nth_equalityI) (simp_all add: card_entry_def Let_def)
    with a K Some show ?thesis by (simp add: attached_gpu_minors_io_def)
  qed
qed

lemma length_attached: "length (attached_gpu_minors cards) \<le> length cards"
  by (induction cards rule: attached_gpu_minors.induct) auto

lemma rm_init_serves:
  assumes "nv_serves K view k tele"
  shows "case rm_init_io K (rk_open k) (rk_files k) me adr s of
    (r, s') \<Rightarrow> r = rm_init k \<and>
      subs_ok (view s') (rs_client (fst r)) (rs_gpus (fst r)) (List.map of_nat [0..<length (rs_gpus (fst r))])"
proof -
  have sv: "serves_version K view k" "serves_cards K view k" "serves_alloc K view k"
    using assms by (simp_all add: nv_serves_def)
  have none: "subs_ok (view s') (rs_client rm_no_gpu) (rs_gpus rm_no_gpu) (List.map of_nat [0..<length (rs_gpus rm_no_gpu)])" for s'
    by (simp add: subs_ok_def rm_no_gpu_def)
  let ?fd = "rk_open k ''/dev/nvidiactl''"
  obtain s1 where c: "check_version_io K (rk_files k) ?fd s = (check_version (rk_files k) (rk_version_ok k), s1)"
    using check_version_serves [OF sv(1)] by blast
  obtain s2 where m: "attached_gpu_minors_io K ?fd s1 = (map_option attached_gpu_minors (rk_cards k), s2)"
    and len: "\<forall>cards. rk_cards k = Some cards \<longrightarrow> length cards = NV_MAX_DEVICES"
    using cards_serves [OF sv(2)] by blast
  obtain s3 where a: "alloc_root K ?fd me adr s2 = (rk_root k, s3)"
    and cl: "\<forall>c. rk_root k = Some c \<longrightarrow> c \<in> no_clients (view s3)"
    using alloc_root_serves [OF sv(3)] by blast
  show ?thesis
  proof (cases "?fd < 0 \<or> \<not> check_version (rk_files k) (rk_version_ok k) \<or> rk_cards k = None \<or> rk_root k = None")
    case True
    then show ?thesis using c m a none by (auto simp: rm_init_io_def rm_init_def Let_def split: option.splits bool.splits)
  next
    case False
    then obtain cards client where k: "rk_cards k = Some cards" "rk_root k = Some client"
      "\<not> ?fd < 0" "check_version (rk_files k) (rk_version_ok k)" by auto
    have "length (attached_gpu_minors cards) \<le> 256"
      using len k(1) length_attached [of cards] by (simp add: NV_MAX_DEVICES_def)
    moreover have "subs_ok (view s3) client [] (List.map of_nat [0..<0])" by (simp add: subs_ok_def)
    moreover have "client \<in> no_clients (view s3)" using cl k(2) by simp
    ultimately have o: "case open_gpus_io K (rk_open k) ?fd client adr 0 (attached_gpu_minors cards) [] s3 of
       (r, s') \<Rightarrow> r = open_gpus k 0 (attached_gpu_minors cards) [] \<and>
         (\<forall>gs. r = Inr gs \<longrightarrow> subs_ok (view s') client gs (List.map of_nat [0..<length gs]))"
      by (intro open_gpus_serves [OF sv(3)]) simp_all
    then show ?thesis
      using k c m a none by (auto simp: rm_init_io_def rm_init_def Let_def split: prod.splits sum.splits)
  qed
qed

subsection \<open>The client over the bytes is the client over the answers\<close>


subsection \<open>A driver\<close>

text \<open>The driver that does what \<open>nv_serves\<close> says and nothing else.\<close>

definition fb_reply :: "u32 \<times> u32 \<Rightarrow> u8 list \<Rightarrow> nat \<Rightarrow> u8 list" where
  "fb_reply fb lst j =
     (let idx = c_u32 NvFbInfo 0 (c_elem NvFbInfo j lst)
      in c_build NvFbInfo [le4 idx, le4 (if idx = INDEX_TOTAL_RAM_SIZE then fst fb else snd fb)])"

definition util_reply :: "u32 \<times> u32 \<Rightarrow> u8 list" where
  "util_reply smp =
     c_build NvPerfmonUtilSample
       [zeros 8, zeros 128, c_build NvEngineUtilSample [le4 (snd smp), le4 0, le4 (fst smp), le4 0, zeros 100, zeros 8],
        zeros 128, zeros 128, zeros 128, zeros 128]"

definition info_reply :: "u32 \<Rightarrow> u64 \<Rightarrow> u8 list" where
  "info_reply p owned =
     c_build NvPidInfo
       [le4 p, le4 0, le4 0,
        c_build NvVideoMemoryUsageData [zeros 8, le_bytes 8 owned, zeros 8, zeros 8, zeros 8, zeros 8], zeros 8]"

definition nv_reply :: "rm_gpu \<Rightarrow> u32 \<Rightarrow> u8 list list \<Rightarrow> u8 list list option" where
  "nv_reply g cmd mems =
     (if cmd = CMD_FB_GET_INFO
      then map_option (\<lambda>fb. [hd mems, concat (List.map (fb_reply fb (mems ! 1))
             [0..<unat (c_u32 Nv2080CtrlFbGetInfoParams 0 (hd mems))])]) (rg_fb g)
      else if cmd = CMD_PERFMON_UTIL_SAMPLES_V2
      then map_option (\<lambda>(cnt, samples). [c_build NvPerfmonUtilParams
             [[0], le4 0, le4 cnt, le4 0, concat (List.map (\<lambda>j. util_reply (samples ! j)) [0..<RING])]]) (rg_util g)
      else if cmd = CMD_GPU_GET_PIDS
      then map_option (\<lambda>(cnt, tbl). [c_build NvGetPidsParams [le4 0, le4 0, le4 cnt, concat (List.map le4 tbl)]]) (rg_pids g)
      else if cmd = CMD_GPU_GET_PID_INFO
      then (let ps = List.map (\<lambda>j. c_u32 NvPidInfo 0 (info_entry (hd mems) j))
                  [0..<unat (c_u32 NvGetPidInfoParams 0 (hd mems))]
            in map_option (\<lambda>owned. [c_build NvGetPidInfoParams [le4 (of_nat (length ps)),
                 concat (List.map (\<lambda>j. info_reply (ps ! j) (owned ! j)) [0..<length ps]) @
                 zeros ((PID_INFO_MAX_COUNT - length ps) * c_size NvPidInfo)]]) (rg_mem g ps))
      else None)"

definition nv_driver :: "rm_kernel \<Rightarrow> (u32 \<Rightarrow> rm_gpu) \<Rightarrow> nv_objects nv_kernel" where
  "nv_driver k tele ob fd rq p blks =
     (if rq = req_size NV_ESC_CHECK_VERSION_STR (c_size NvIoctlRmApiVersion)
      then ((if rk_version_ok k (c_string (c_get NvIoctlRmApiVersion 2 p)) then 0 else - 22, p, []), ob)
      else if rq = req_size NV_ESC_CARD_INFO (NV_MAX_DEVICES * c_size NvIoctlCardInfo)
      then (case rk_cards k of
              None \<Rightarrow> ((- 5, p, []), ob)
            | Some cards \<Rightarrow>
                ((0, concat (List.map (\<lambda>(valid, minor). c_build NvIoctlCardInfo
                   [[valid], zeros 12, zeros 4, zeros 2, zeros 8, zeros 8, zeros 8, zeros 8, le4 minor, zeros 10]) cards), []), ob))
      else if rq = req_size NV_ESC_RM_ALLOC (c_size Nvos21Parameters)
      then (case nv_make k ob (c_u32 Nvos21Parameters 0 p) (c_u32 Nvos21Parameters 1 p) (c_u32 Nvos21Parameters 2 p)
                   (c_u32 Nvos21Parameters 3 p) (snd (hd blks)) of
              None \<Rightarrow> ((0, c_set Nvos21Parameters 6 (le4 0x1f) p, List.map snd blks), ob)
            | Some (h, ob') \<Rightarrow>
                ((0, c_set Nvos21Parameters 2 (le4 h) (c_set Nvos21Parameters 6 (le4 0) p), List.map snd blks), ob'))
      else if rq = req_size NV_ESC_RM_CONTROL (c_size Nvos54Parameters)
      then (case Option.bind (no_subs ob (c_u32 Nvos54Parameters 0 p, c_u32 Nvos54Parameters 1 p))
                   (\<lambda>inst. nv_reply (tele inst) (c_u32 Nvos54Parameters 2 p) (List.map snd blks)) of
              None \<Rightarrow> ((0, c_set Nvos54Parameters 6 (le4 0x57) p, List.map snd blks), ob)
            | Some mem \<Rightarrow> ((0, c_set Nvos54Parameters 6 (le4 0) p, mem), ob))
      else ((- 25, p, List.map snd blks), ob))"

lemma concat_len: "\<forall>x \<in> set xs. length x = n \<Longrightarrow> length (concat xs) = length xs * n"
  by (induction xs) simp_all

lemma fb_reply_facts:
  "length (fb_reply fb lst j) = c_size NvFbInfo"
  "fb_value fb (c_u32 NvFbInfo 0 (c_elem NvFbInfo j lst)) (c_u32 NvFbInfo 1 (fb_reply fb lst j))"
proof -
  have f: "filled NvFbInfo [le4 a, le4 b]" for a b by (simp add: filled_def NvFbInfo_def)
  show "length (fb_reply fb lst j) = c_size NvFbInfo" unfolding fb_reply_def Let_def by (rule length_c_build [OF f])
  have "c_u32 NvFbInfo 1 (c_build NvFbInfo [le4 a, le4 b]) = b" for a b
    by (rule c_u32_build [OF f]) (simp_all add: NvFbInfo_def)
  then show "fb_value fb (c_u32 NvFbInfo 0 (c_elem NvFbInfo j lst)) (c_u32 NvFbInfo 1 (fb_reply fb lst j))"
    unfolding fb_reply_def Let_def by (simp add: fb_value_def INDEX_TOTAL_RAM_SIZE_def INDEX_HEAP_FREE_def)
qed

lemma reply_fb: "answers_fb g blks (nv_reply g CMD_FB_GET_INFO (List.map snd blks))"
proof (cases "rg_fb g")
  case (Some fb)
  have "c_elem NvFbInfo j (concat (List.map (fb_reply fb l) [0..<n])) = fb_reply fb l j" if "j < n" for j n l
    using that c_elem_concat [of "List.map (fb_reply fb l) [0..<n]" NvFbInfo j "[]"] by (simp add: fb_reply_facts)
  then show ?thesis
    by (auto simp: answers_fb_def nv_reply_def Some fb_reply_facts fb_reply_facts(2) [unfolded One_nat_def])
qed (simp add: answers_fb_def nv_reply_def)

lemma util_reply_facts:
  "length (util_reply smp) = c_size NvPerfmonUtilSample"
  "c_u32 NvEngineUtilSample 0 (c_get NvPerfmonUtilSample 2 (util_reply smp)) = snd smp"
  "c_u32 NvEngineUtilSample 2 (c_get NvPerfmonUtilSample 2 (util_reply smp)) = fst smp"
proof -
  let ?e = "[le4 (snd smp), le4 0, le4 (fst smp), le4 0, zeros 100, zeros 8]"
  have e: "filled NvEngineUtilSample ?e" by (simp add: filled_def NvEngineUtilSample_def)
  have f: "filled NvPerfmonUtilSample [zeros 8, zeros 128, c_build NvEngineUtilSample ?e, zeros 128, zeros 128, zeros 128, zeros 128]"
    using length_c_build [OF e] by (simp add: filled_def NvPerfmonUtilSample_def struct_sizes) (simp add: NvGpumonSample_def up_to_def)
  have n: "length (fields_of NvPerfmonUtilSample) = 7" "length (fields_of NvEngineUtilSample) = 6"
    by (simp_all add: NvPerfmonUtilSample_def NvEngineUtilSample_def)
  show "length (util_reply smp) = c_size NvPerfmonUtilSample" unfolding util_reply_def by (rule length_c_build [OF f])
  have g: "c_get NvPerfmonUtilSample 2 (util_reply smp) = c_build NvEngineUtilSample ?e"
    using c_get_build [OF f, of 2] by (simp add: n util_reply_def)
  show "c_u32 NvEngineUtilSample 0 (c_get NvPerfmonUtilSample 2 (util_reply smp)) = snd smp"
    "c_u32 NvEngineUtilSample 2 (c_get NvPerfmonUtilSample 2 (util_reply smp)) = fst smp"
    unfolding g by (rule c_u32_build [OF e], simp_all add: n)+
qed

lemma reply_util: "answers_util g blks (nv_reply g CMD_PERFMON_UTIL_SAMPLES_V2 (List.map snd blks))"
proof (cases "rg_util g")
  case (Some u)
  obtain cnt samples where u: "u = (cnt, samples)" by (cases u)
  let ?rs = "concat (List.map (\<lambda>j. util_reply (samples ! j)) [0..<RING])"
  have "length ?rs = RING * c_size NvPerfmonUtilSample"
    using concat_len [of "List.map (\<lambda>j. util_reply (samples ! j)) [0..<RING]"] by (simp add: util_reply_facts)
  then have f: "filled NvPerfmonUtilParams [[0], le4 0, le4 cnt, le4 0, ?rs]"
    by (simp add: filled_def NvPerfmonUtilParams_def RING_def)
  have n: "length (fields_of NvPerfmonUtilParams) = 5" by (simp add: NvPerfmonUtilParams_def)
  let ?b = "c_build NvPerfmonUtilParams [[0], le4 0, le4 cnt, le4 0, ?rs]"
  have c: "c_u32 NvPerfmonUtilParams 2 ?b = cnt" by (rule c_u32_build [OF f]) (simp_all add: n)
  have "c_get NvPerfmonUtilParams 4 ?b = ?rs" using c_get_build [OF f, of 4] by (simp add: n)
  then have "gr_sample ?b j = c_get NvPerfmonUtilSample 2 (util_reply (samples ! j))" if "j < RING" for j
    using that c_elem_concat [of "List.map (\<lambda>j. util_reply (samples ! j)) [0..<RING]" NvPerfmonUtilSample j "[]"]
    by (simp add: gr_sample_def util_reply_facts)
  then have "\<forall>j < min (unat cnt) RING. samples ! j = (c_u32 NvEngineUtilSample 2 (gr_sample ?b j), c_u32 NvEngineUtilSample 0 (gr_sample ?b j))"
    by (simp add: util_reply_facts)
  moreover have "nv_reply g CMD_PERFMON_UTIL_SAMPLES_V2 (List.map snd blks) = Some [?b]"
    by (simp add: nv_reply_def Some u CMD_PERFMON_UTIL_SAMPLES_V2_def CMD_FB_GET_INFO_def)
  ultimately show ?thesis using c by (simp add: answers_util_def Some u)
qed (simp add: answers_util_def nv_reply_def CMD_PERFMON_UTIL_SAMPLES_V2_def CMD_FB_GET_INFO_def)

lemma reply_pids:
  assumes "tele_ok g"
  shows "answers_pids g blks (nv_reply g CMD_GPU_GET_PIDS (List.map snd blks))"
proof (cases "rg_pids g")
  case (Some u)
  obtain cnt tbl where u: "u = (cnt, tbl)" by (cases u)
  have tbl: "length tbl = 950" using assms Some u by (simp add: tele_ok_def)
  have "length (concat (List.map le4 tbl)) = 950 * 4" using concat_len [of "List.map le4 tbl" 4] tbl by simp
  then have f: "filled NvGetPidsParams [le4 0, le4 0, le4 cnt, concat (List.map le4 tbl)]"
    by (simp add: filled_def NvGetPidsParams_def)
  have n: "length (fields_of NvGetPidsParams) = 4" by (simp add: NvGetPidsParams_def)
  let ?b = "c_build NvGetPidsParams [le4 0, le4 0, le4 cnt, concat (List.map le4 tbl)]"
  have c: "c_u32 NvGetPidsParams 2 ?b = cnt" by (rule c_u32_build [OF f]) (simp_all add: n)
  have "c_get NvGetPidsParams 3 ?b = concat (List.map le4 tbl)" using c_get_build [OF f, of 3] by (simp add: n)
  then have "pid_of_table ?b j = tbl ! j" if "j < length tbl" for j
    using that c_elem_concat [of "List.map le4 tbl" U32 j "[]"] by (simp add: pid_of_table_def u32_le_bytes)
  moreover have "nv_reply g CMD_GPU_GET_PIDS (List.map snd blks) = Some [?b]"
    by (simp add: nv_reply_def Some u CMD_PERFMON_UTIL_SAMPLES_V2_def CMD_FB_GET_INFO_def CMD_GPU_GET_PIDS_def)
  ultimately show ?thesis using c by (simp add: answers_pids_def Some u)
qed (simp add: answers_pids_def nv_reply_def CMD_PERFMON_UTIL_SAMPLES_V2_def CMD_FB_GET_INFO_def CMD_GPU_GET_PIDS_def)

lemma info_reply_facts:
  "length (info_reply p owned) = c_size NvPidInfo" "c_u32 NvPidInfo 0 (info_reply p owned) = p"
  "c_u64 NvVideoMemoryUsageData 1 (c_get NvPidInfo 3 (info_reply p owned)) = owned"
proof -
  let ?v = "[zeros 8, le_bytes 8 owned, zeros 8, zeros 8, zeros 8, zeros 8]"
  have v: "filled NvVideoMemoryUsageData ?v" by (simp add: filled_def NvVideoMemoryUsageData_def)
  have f: "filled NvPidInfo [le4 p, le4 0, le4 0, c_build NvVideoMemoryUsageData ?v, zeros 8]"
    using length_c_build [OF v] by (simp add: filled_def NvPidInfo_def struct_sizes) (simp add: NvSmcSubscriptionInfo_def up_to_def)
  have n: "length (fields_of NvPidInfo) = 5" "length (fields_of NvVideoMemoryUsageData) = 6"
    "fields_of NvVideoMemoryUsageData ! 1 = U64"
    by (simp_all add: NvPidInfo_def NvVideoMemoryUsageData_def)
  show "length (info_reply p owned) = c_size NvPidInfo" unfolding info_reply_def by (rule length_c_build [OF f])
  show "c_u32 NvPidInfo 0 (info_reply p owned) = p" unfolding info_reply_def by (rule c_u32_build [OF f]) (simp_all add: n)
  have "c_get NvPidInfo 3 (info_reply p owned) = c_build NvVideoMemoryUsageData ?v"
    using c_get_build [OF f, of 3] by (simp add: n info_reply_def)
  moreover have "c_u64 NvVideoMemoryUsageData 1 (c_build NvVideoMemoryUsageData ?v) = owned"
    by (rule c_u64_build [OF v]) (use n in simp_all)
  ultimately show "c_u64 NvVideoMemoryUsageData 1 (c_get NvPidInfo 3 (info_reply p owned)) = owned" by simp
qed

lemma reply_info:
  assumes "tele_ok g"
  shows "answers_info g blks (nv_reply g CMD_GPU_GET_PID_INFO (List.map snd blks))"
  unfolding answers_info_def
proof (intro allI impI)
  fix buf n
  assume b: "List.map snd blks = [buf]" and n: "n = unat (c_u32 NvGetPidInfoParams 0 buf)" "n \<le> PID_INFO_MAX_COUNT"
  let ?ps = "List.map (\<lambda>j. c_u32 NvPidInfo 0 (info_entry buf j)) [0..<n]"
  have r: "nv_reply g CMD_GPU_GET_PID_INFO (List.map snd blks) =
      map_option (\<lambda>owned. [c_build NvGetPidInfoParams [le4 (of_nat n),
        concat (List.map (\<lambda>j. info_reply (?ps ! j) (owned ! j)) [0..<n]) @ zeros ((PID_INFO_MAX_COUNT - n) * c_size NvPidInfo)]]) (rg_mem g ?ps)"
    by (simp add: nv_reply_def b n(1) Let_def CMD_PERFMON_UTIL_SAMPLES_V2_def CMD_FB_GET_INFO_def CMD_GPU_GET_PIDS_def CMD_GPU_GET_PID_INFO_def)
  show "case rg_mem g ?ps of None \<Rightarrow> nv_reply g CMD_GPU_GET_PID_INFO (List.map snd blks) = None
    | Some owned \<Rightarrow> \<exists>buf'. nv_reply g CMD_GPU_GET_PID_INFO (List.map snd blks) = Some [buf'] \<and>
        (\<forall>j < n. c_u32 NvPidInfo 0 (info_entry buf' j) = c_u32 NvPidInfo 0 (info_entry buf j) \<and>
           c_u64 NvVideoMemoryUsageData 1 (c_get NvPidInfo 3 (info_entry buf' j)) = owned ! j)"
  proof (cases "rg_mem g ?ps")
    case None
    then show ?thesis by (simp add: r)
  next
    case (Some owned)
    let ?xs = "List.map (\<lambda>j. info_reply (?ps ! j) (owned ! j)) [0..<n]"
    let ?es = "concat ?xs @ zeros ((PID_INFO_MAX_COUNT - n) * c_size NvPidInfo)"
    have "length (concat ?xs) = n * c_size NvPidInfo" using concat_len [of ?xs "c_size NvPidInfo"] by (simp add: info_reply_facts)
    then have "length ?es = PID_INFO_MAX_COUNT * c_size NvPidInfo" using n(2) by (simp flip: distrib_right)
    then have f: "filled NvGetPidInfoParams [le4 (of_nat n), ?es]"
      by (simp add: filled_def NvGetPidInfoParams_def PID_INFO_MAX_COUNT_def)
    have k: "length (fields_of NvGetPidInfoParams) = 2" by (simp add: NvGetPidInfoParams_def)
    let ?b = "c_build NvGetPidInfoParams [le4 (of_nat n), ?es]"
    have g1: "c_get NvGetPidInfoParams 1 ?b = ?es" using c_get_build [OF f, of 1] by (simp add: k)
    have "info_entry ?b j = info_reply (c_u32 NvPidInfo 0 (info_entry buf j)) (owned ! j)" if j: "j < n" for j
    proof -
      have "info_entry ?b j = c_elem NvPidInfo j ?es" by (subst info_entry_def) (simp only: g1)
      also have "\<dots> = ?xs ! j" by (rule c_elem_concat) (use j in \<open>simp_all add: info_reply_facts\<close>)
      finally show ?thesis using j by simp
    qed
    then show ?thesis using Some r by (auto simp: info_reply_facts info_reply_facts(3) [unfolded One_nat_def] intro!: exI [of _ ?b])
  qed
qed

lemma nv_answers_reply: "tele_ok g \<Longrightarrow> nv_answers g cmd blks (nv_reply g cmd (List.map snd blks))"
  by (auto simp: nv_answers_def reply_fb reply_util reply_pids reply_info)

lemma requests:
  "req_size NV_ESC_CHECK_VERSION_STR (c_size NvIoctlRmApiVersion) = 0xC04846D2"
  "req_size NV_ESC_CARD_INFO (NV_MAX_DEVICES * c_size NvIoctlCardInfo) = 0xC90046C8"
  "req_size NV_ESC_RM_ALLOC (c_size Nvos21Parameters) = 0xC020462B"
  "req_size NV_ESC_RM_CONTROL (c_size Nvos54Parameters) = 0xC020462A"
  by code_simp+

lemma requests_differ:
  "distinct [req_size NV_ESC_CHECK_VERSION_STR (c_size NvIoctlRmApiVersion),
     req_size NV_ESC_CARD_INFO (NV_MAX_DEVICES * c_size NvIoctlCardInfo),
     req_size NV_ESC_RM_ALLOC (c_size Nvos21Parameters), req_size NV_ESC_RM_CONTROL (c_size Nvos54Parameters)]"
  by (simp only: requests) simp

lemma card_facts:
  fixes c :: "u8 \<times> u32"
  defines "b \<equiv> (\<lambda>(valid, minor). c_build NvIoctlCardInfo
     [[valid], zeros 12, zeros 4, zeros 2, zeros 8, zeros 8, zeros 8, zeros 8, le4 minor, zeros 10]) c"
  shows "length b = c_size NvIoctlCardInfo" "c_get NvIoctlCardInfo 0 b = [fst c]" "c_u32 NvIoctlCardInfo 8 b = snd c"
proof -
  let ?f = "[[fst c], zeros 12, zeros 4, zeros 2, zeros 8, zeros 8, zeros 8, zeros 8, le4 (snd c), zeros 10]"
  have f: "filled NvIoctlCardInfo ?f" by (simp add: filled_def NvIoctlCardInfo_def NvPciInfo_def up_to_def)
  have n: "length (fields_of NvIoctlCardInfo) = 10" by (simp add: NvIoctlCardInfo_def)
  have b: "b = c_build NvIoctlCardInfo ?f" by (simp add: b_def case_prod_beta)
  show "length b = c_size NvIoctlCardInfo" unfolding b by (rule length_c_build [OF f])
  show "c_get NvIoctlCardInfo 0 b = [fst c]" using c_get_build [OF f, of 0] by (simp add: n b)
  show "c_u32 NvIoctlCardInfo 8 b = snd c" unfolding b by (rule c_u32_build [OF f]) (simp_all add: n)
qed

lemma nv21_set:
  assumes "length p = c_size Nvos21Parameters"
  shows "c_u32 Nvos21Parameters 6 (c_set Nvos21Parameters 6 (le4 w) p) = w"
    "c_u32 Nvos21Parameters 6 (c_set Nvos21Parameters 2 (le4 h) (c_set Nvos21Parameters 6 (le4 w) p)) = w"
    "c_u32 Nvos21Parameters 2 (c_set Nvos21Parameters 2 (le4 h) (c_set Nvos21Parameters 6 (le4 w) p)) = h"
proof -
  have n: "length (fields_of Nvos21Parameters) = 7" "fields_of Nvos21Parameters ! 6 = U32" "fields_of Nvos21Parameters ! 2 = U32"
    by (simp_all add: Nvos21Parameters_def)
  show "c_u32 Nvos21Parameters 6 (c_set Nvos21Parameters 6 (le4 w) p) = w"
    using assms by (simp add: c_u32_def c_get_set_same n u32_le_bytes)
  show "c_u32 Nvos21Parameters 6 (c_set Nvos21Parameters 2 (le4 h) (c_set Nvos21Parameters 6 (le4 w) p)) = w"
    using assms by (simp add: c_u32_def c_get_set_same c_get_set_other n u32_le_bytes)
  show "c_u32 Nvos21Parameters 2 (c_set Nvos21Parameters 2 (le4 h) (c_set Nvos21Parameters 6 (le4 w) p)) = h"
    using assms by (simp add: c_u32_def c_get_set_same n u32_le_bytes)
qed

lemma nv54_set: "length p = c_size Nvos54Parameters \<Longrightarrow> c_u32 Nvos54Parameters 6 (c_set Nvos54Parameters 6 (le4 w) p) = w"
proof -
  have n: "length (fields_of Nvos54Parameters) = 7" "fields_of Nvos54Parameters ! 6 = U32"
    by (simp_all add: Nvos54Parameters_def)
  assume "length p = c_size Nvos54Parameters"
  then show ?thesis by (simp add: c_u32_def c_get_set_same n u32_le_bytes)
qed

text \<open>What the kernel \<open>k\<close> has to be like for there to be such a driver.\<close>

definition rm_kernel_ok :: "rm_kernel \<Rightarrow> bool" where
  "rm_kernel_ok k \<longleftrightarrow>
     (\<forall>v. rk_version_ok k v = rk_version_ok k (takeWhile (\<lambda>c. c \<noteq> CHR 0x00) v)) \<and>
     (\<forall>cards. rk_cards k = Some cards \<longrightarrow> length cards = NV_MAX_DEVICES)"

lemma nv_driver_version: "rm_kernel_ok k \<Longrightarrow> serves_version (nv_driver k tele) id k"
  by (simp add: serves_version_def nv_driver_def rm_kernel_ok_def)

lemma nv_driver_cards:
  assumes "rm_kernel_ok k"
  shows "serves_cards (nv_driver k tele) id k"
proof (cases "rk_cards k")
  case None
  then show ?thesis using requests_differ by (auto simp: serves_cards_def nv_driver_def)
next
  case (Some cards)
  let ?f = "\<lambda>(valid, minor). c_build NvIoctlCardInfo
     [[valid], zeros 12, zeros 4, zeros 2, zeros 8, zeros 8, zeros 8, zeros 8, le4 minor, zeros 10]"
  have len: "length cards = NV_MAX_DEVICES" using assms Some by (simp add: rm_kernel_ok_def)
  have e: "c_elem NvIoctlCardInfo i (concat (List.map ?f cards)) = ?f (cards ! i)" if "i < NV_MAX_DEVICES" for i
    using that len c_elem_concat [of "List.map ?f cards" NvIoctlCardInfo i "[]"] by (simp add: card_facts)
  have d: "nv_driver k tele s fd (req_size NV_ESC_CARD_INFO (NV_MAX_DEVICES * c_size NvIoctlCardInfo)) p [] =
      ((0, concat (List.map ?f cards), []), s)" for s fd p
    using requests_differ Some by (auto simp: nv_driver_def)
  show ?thesis
    unfolding serves_cards_def d using Some len by (simp add: e card_facts)
qed

lemma nv_driver_alloc: "serves_alloc (nv_driver k tele) id k"
  unfolding serves_alloc_def
proof (intro allI impI)
  fix s :: nv_objects and fd :: int and p :: "u8 list" and blk :: block
  assume p: "length p = c_size Nvos21Parameters"
  have d: "nv_driver k tele s fd (req_size NV_ESC_RM_ALLOC (c_size Nvos21Parameters)) p [blk] =
     (case nv_make k s (c_u32 Nvos21Parameters 0 p) (c_u32 Nvos21Parameters 1 p) (c_u32 Nvos21Parameters 2 p)
             (c_u32 Nvos21Parameters 3 p) (snd blk) of
        None \<Rightarrow> ((0, c_set Nvos21Parameters 6 (le4 0x1f) p, [snd blk]), s)
      | Some (h, ob') \<Rightarrow> ((0, c_set Nvos21Parameters 2 (le4 h) (c_set Nvos21Parameters 6 (le4 0) p), [snd blk]), ob'))"
    using requests_differ by (auto simp: nv_driver_def split: option.split)
  show "case nv_driver k tele s fd (req_size NV_ESC_RM_ALLOC (c_size Nvos21Parameters)) p [blk] of
     ((ret, p', _), s') \<Rightarrow>
       (case nv_make k (id s) (c_u32 Nvos21Parameters 0 p) (c_u32 Nvos21Parameters 1 p) (c_u32 Nvos21Parameters 2 p)
               (c_u32 Nvos21Parameters 3 p) (snd blk) of
          None \<Rightarrow> (ret \<noteq> 0 \<or> c_u32 Nvos21Parameters 6 p' \<noteq> 0) \<and> id s' = id s
        | Some (h, ob) \<Rightarrow> ret = 0 \<and> c_u32 Nvos21Parameters 6 p' = 0 \<and> c_u32 Nvos21Parameters 2 p' = h \<and> id s' = ob)"
    unfolding d by (auto simp: nv21_set [OF p] split: option.splits)
qed

lemma nv_driver_control:
  assumes "\<forall>i. tele_ok (tele i)"
  shows "serves_control (nv_driver k tele) id tele"
  unfolding serves_control_def
proof (intro allI impI)
  fix s :: nv_objects and fd :: int and p :: "u8 list" and blks :: "block list" and inst
  assume p: "length p = c_size Nvos54Parameters"
    and o: "no_subs (id s) (c_u32 Nvos54Parameters 0 p, c_u32 Nvos54Parameters 1 p) = Some inst"
  let ?r = "nv_reply (tele inst) (c_u32 Nvos54Parameters 2 p) (List.map snd blks)"
  have d: "nv_driver k tele s fd (req_size NV_ESC_RM_CONTROL (c_size Nvos54Parameters)) p blks =
     (case ?r of
        None \<Rightarrow> ((0, c_set Nvos54Parameters 6 (le4 0x57) p, List.map snd blks), s)
      | Some mem \<Rightarrow> ((0, c_set Nvos54Parameters 6 (le4 0) p, mem), s))"
    using requests_differ o by (auto simp: nv_driver_def)
  have a: "nv_answers (tele inst) (c_u32 Nvos54Parameters 2 p) blks ?r" using assms by (intro nv_answers_reply) simp
  show "case nv_driver k tele s fd (req_size NV_ESC_RM_CONTROL (c_size Nvos54Parameters)) p blks of
     ((ret, p', mem), s') \<Rightarrow> id s' = id s \<and>
       nv_answers (tele inst) (c_u32 Nvos54Parameters 2 p) blks
         (if ret \<noteq> 0 \<or> c_u32 Nvos54Parameters 6 p' \<noteq> 0 then None else Some mem)"
    using a by (cases ?r) (simp_all add: d nv54_set [OF p])
qed

lemma nv_driver_serves: "rm_kernel_ok k \<Longrightarrow> \<forall>i. tele_ok (tele i) \<Longrightarrow> nv_serves (nv_driver k tele) id k tele"
  by (simp add: nv_serves_def nv_driver_version nv_driver_cards nv_driver_alloc nv_driver_control)

definition demo_rm :: rm_kernel where
  "demo_rm = \<lparr>rk_open = (\<lambda>p. if p = ''/dev/nvidiactl'' then 3 else if p = ''/dev/nvidia1'' then 4 else 5),
     rk_files = (\<lambda>_. Some ''NVRM version: 570.211.01''), rk_version_ok = (\<lambda>v. takeWhile (\<lambda>c. c \<noteq> CHR 0x00) v = ''570.211.01''),
     rk_cards = Some ([(1, 1), (0, 0), (1, 2)] @ replicate 29 (0, 0)), rk_root = Some 0xc1d00001,
     rk_device = (\<lambda>_. True), rk_subdevice = (\<lambda>_. True)\<rparr>"

definition demo_tele :: "u32 \<Rightarrow> rm_gpu" where
  "demo_tele i =
     (if i = 0
      then \<lparr>rg_fb = Some (4194304, 1048576), rg_util = Some (1, [(7, 7200)]), rg_pids = Some (1, 7 # replicate 949 0),
            rg_mem = (\<lambda>ps. Some (List.map (\<lambda>_. 2097152) ps))\<rparr>
      else \<lparr>rg_fb = None, rg_util = None, rg_pids = None, rg_mem = (\<lambda>_. None)\<rparr>)"


end
