(* ===== verification/Trace.thy ===== *)
theory Trace
  imports Platform
begin

text \<open>
  The arena's event log (module \<open>trace\<close> of src/arena.rs, builds with the \<open>arena-trace\<close> feature): the line each
  event writes, assembled in a fixed buffer on the stack, and the file it goes to, opened by the first event.
  A write past a buffer is a panic, \<open>None\<close>.
\<close>

datatype trace_event = AllocAt string u32 | RewindTo u32 | UncommitAt u32

subsection \<open>Lines\<close>

text \<open>\<open>push\<close>: \<open>buf[pos..end].copy_from_slice(bytes)\<close>, returning the end.\<close>

definition tr_push :: "string \<times> nat \<Rightarrow> string \<Rightarrow> (string \<times> nat) option" where
  "tr_push bp bytes =
     (case bp of (buf, pos) \<Rightarrow>
        let stop = pos + length bytes
        in if stop \<le> length buf then Some (take pos buf @ bytes @ drop stop buf, stop) else None)"

text \<open>\<open>push_u32\<close>: the digits, lowest first, into an array of ten, then backwards into the buffer.\<close>

fun tr_digits :: "nat \<Rightarrow> string \<Rightarrow> nat \<Rightarrow> (string \<times> nat) option" where
  "tr_digits n digits k =
     (if n = 0 then Some (digits, k)
      else if k < length digits then tr_digits (n div 10) (digits[k := digit_char (n mod 10)]) (k + 1)
      else None)"

declare tr_digits.simps [simp del]

fun tr_copy :: "string \<Rightarrow> nat \<Rightarrow> string \<times> nat \<Rightarrow> (string \<times> nat) option" where
  "tr_copy digits 0 bp = Some bp"
| "tr_copy digits (Suc k) (buf, pos) =
     (if pos < length buf then tr_copy digits k (buf[pos := digits ! k], pos + 1) else None)"

definition tr_push_u32 :: "string \<times> nat \<Rightarrow> u32 \<Rightarrow> (string \<times> nat) option" where
  "tr_push_u32 bp n =
     (let digits = replicate 10 (CHR 0x00)
      in case (if n = 0 then Some (digits[0 := CHR ''0''], 1) else tr_digits (unat n) digits 0) of
           None \<Rightarrow> None
         | Some (digits, k) \<Rightarrow> tr_copy digits k bp)"

definition tr_line :: "string \<times> nat \<Rightarrow> string" where "tr_line bp = take (snd bp) (fst bp)"

definition tr_alloc :: "string \<Rightarrow> u32 \<Rightarrow> string option" where
  "tr_alloc label new_offset =
     map_option tr_line
       (Option.bind (tr_push (replicate 256 (CHR 0x00), 0) ''A '') (\<lambda>b.
        Option.bind (tr_push_u32 b new_offset) (\<lambda>b.
        Option.bind (tr_push b '' '') (\<lambda>b.
        Option.bind (tr_push b (if length label > 240 then take 240 label else label)) (\<lambda>b.
        tr_push b [CHR 0x0A])))))"

definition tr_rewind :: "u32 \<Rightarrow> string option" where
  "tr_rewind new_offset =
     map_option tr_line
       (Option.bind (tr_push (replicate 32 (CHR 0x00), 0) ''R '') (\<lambda>b.
        Option.bind (tr_push_u32 b new_offset) (\<lambda>b. tr_push b [CHR 0x0A])))"

definition tr_uncommit :: "u32 \<Rightarrow> string option" where
  "tr_uncommit new_offset =
     map_option tr_line
       (Option.bind (tr_push (replicate 32 (CHR 0x00), 0) ''U '') (\<lambda>b.
        Option.bind (tr_push_u32 b new_offset) (\<lambda>b. tr_push b [CHR 0x0A])))"

fun event_line :: "trace_event \<Rightarrow> string option" where
  "event_line (AllocAt label n) = tr_alloc label n"
| "event_line (RewindTo n) = tr_rewind n"
| "event_line (UncommitAt n) = tr_uncommit n"

subsection \<open>The file\<close>

text \<open>The descriptor is -1 before the first event and -2 when opening the file failed; \<open>opened\<close> is what \<open>open\<close>
  returns. The text of the file grows by whole lines: the code does not look at the result of the write.\<close>

definition tr_fd :: "int \<Rightarrow> int \<Rightarrow> int" where
  "tr_fd opened cur = (if cur \<noteq> -1 then cur else if opened < 0 then -2 else opened)"

definition tr_write_line :: "int \<Rightarrow> int \<times> string \<Rightarrow> string \<Rightarrow> int \<times> string" where
  "tr_write_line opened st line =
     (case st of (cur, wrote) \<Rightarrow> let fd = tr_fd opened cur in (fd, if fd < 0 then wrote else wrote @ line))"

fun trace_run :: "int \<Rightarrow> int \<times> string \<Rightarrow> trace_event list \<Rightarrow> (int \<times> string) option" where
  "trace_run opened st [] = Some st"
| "trace_run opened st (e # es) =
     (case event_line e of None \<Rightarrow> None | Some line \<Rightarrow> trace_run opened (tr_write_line opened st line) es)"

subsection \<open>What a line holds\<close>

definition holds :: "string \<times> nat \<Rightarrow> string \<Rightarrow> nat \<Rightarrow> bool" where
  "holds bp s n \<longleftrightarrow> length (fst bp) = n \<and> snd bp = length s \<and> take (length s) (fst bp) = s"

lemma tr_push_holds:
  "holds bp s n \<Longrightarrow> length s + length t \<le> n \<Longrightarrow> \<exists>bp'. tr_push bp t = Some bp' \<and> holds bp' (s @ t) n"
  by (cases bp) (auto simp: holds_def tr_push_def Let_def)

lemma tr_digits_decimal:
  "0 < n \<Longrightarrow> k + length (decimal n) \<le> length digits \<Longrightarrow>
   \<exists>digits'. tr_digits n digits k = Some (digits', k + length (decimal n)) \<and> length digits' = length digits \<and>
     take k digits' = take k digits \<and> take (length (decimal n)) (drop k digits') = rev (decimal n)"
proof (induction n arbitrary: k digits rule: decimal.induct)
  case (1 n)
  let ?ds = "digits[k := digit_char (n mod 10)]"
  have k: "k < length digits" using "1.prems"(2) decimal_nonempty [of n] by (cases "decimal n") auto
  show ?case
  proof (cases "n < 10")
    case True
    then have d: "decimal n = [digit_char n]" by (subst decimal.simps) simp
    have "tr_digits n digits k = Some (?ds, k + 1)"
      using "1.prems"(1) k True by (subst tr_digits.simps, subst tr_digits.simps) simp
    then show ?thesis using k True by (auto simp: d take_Suc_conv_app_nth Cons_nth_drop_Suc [symmetric] drop_update_swap)
  next
    case False
    then have d: "decimal n = decimal (n div 10) @ [digit_char (n mod 10)]" by (subst decimal.simps) simp
    have "0 < n div 10" using False by simp
    moreover have "k + 1 + length (decimal (n div 10)) \<le> length ?ds" using "1.prems"(2) d by simp
    ultimately obtain ds' where r: "tr_digits (n div 10) ?ds (k + 1) = Some (ds', k + 1 + length (decimal (n div 10)))"
      and l: "length ds' = length digits" and t: "take (k + 1) ds' = take (k + 1) ?ds"
      and m: "take (length (decimal (n div 10))) (drop (k + 1) ds') = rev (decimal (n div 10))"
      using "1.IH" [OF False] by fastforce
    have kd: "ds' ! k = digit_char (n mod 10)"
      using arg_cong [OF t, of "\<lambda>xs. xs ! k"] k by simp
    have "take k ds' = take k digits"
      using arg_cong [OF t, of "take k"] by (simp add: min_absorb1)
    moreover have "drop k ds' = digit_char (n mod 10) # drop (k + 1) ds'"
      using k l kd by (metis Cons_nth_drop_Suc Suc_eq_plus1)
    ultimately show ?thesis using r l m k False d by (subst tr_digits.simps) simp
  qed
qed

lemma tr_copy_holds:
  "holds bp s n \<Longrightarrow> k \<le> length digits \<Longrightarrow> length s + k \<le> n \<Longrightarrow>
   \<exists>bp'. tr_copy digits k bp = Some bp' \<and> holds bp' (s @ rev (take k digits)) n"
proof (induction k arbitrary: bp s)
  case (Suc k)
  obtain buf where bp: "bp = (buf, length s)" "length buf = n" "take (length s) buf = s"
    using Suc.prems(1) by (cases bp) (auto simp: holds_def)
  let ?b = "(buf[length s := digits ! k], Suc (length s))"
  have "holds ?b (s @ [digits ! k]) n"
    using bp Suc.prems(3) by (simp add: holds_def take_Suc_conv_app_nth)
  then obtain bp' where "tr_copy digits k ?b = Some bp'" "holds bp' ((s @ [digits ! k]) @ rev (take k digits)) n"
    using Suc.IH [of ?b "s @ [digits ! k]"] Suc.prems(2,3) by auto
  moreover have "s @ rev (take (Suc k) digits) = (s @ [digits ! k]) @ rev (take k digits)"
    using Suc.prems(2) by (simp add: take_Suc_conv_app_nth)
  ultimately show ?case using bp Suc.prems(3) by simp
qed (auto simp: holds_def)

lemma tr_push_u32_holds:
  assumes "holds bp s n" "length s + 10 \<le> n"
  shows "\<exists>bp'. tr_push_u32 bp w = Some bp' \<and> holds bp' (s @ decimal (unat w)) n"
proof -
  let ?z = "replicate 10 (CHR 0x00)"
  let ?d = "decimal (unat w)"
  have len: "length ?d \<le> 10" using unat_u32 [of w] by (intro length_decimal_le) simp_all
  have "\<exists>ds. (if w = 0 then Some (?z[0 := CHR ''0''], 1) else tr_digits (unat w) ?z 0) = Some (ds, length ?d) \<and>
      length ds = 10 \<and> take (length ?d) ds = rev ?d"
  proof (cases "w = 0")
    case True
    then have "?d = [CHR ''0'']" by (subst decimal.simps) (simp add: digit_char_0)
    moreover have "?z[0 := CHR ''0''] = CHR ''0'' # replicate 9 (CHR 0x00)" by (simp add: eval_nat_numeral)
    ultimately show ?thesis using True by simp
  next
    case False
    then have "0 < unat w" by (simp add: unat_gt_0)
    from tr_digits_decimal [OF this, of 0 ?z] len False show ?thesis by auto
  qed
  then obtain ds where ds: "(if w = 0 then Some (?z[0 := CHR ''0''], 1) else tr_digits (unat w) ?z 0) = Some (ds, length ?d)"
    "length ds = 10" "take (length ?d) ds = rev ?d" by blast
  from tr_copy_holds [OF assms(1), of "length ?d" ds] ds len assms(2) show ?thesis
    unfolding tr_push_u32_def Let_def ds(1) by simp
qed

lemma tr_line_holds: "holds bp s n \<Longrightarrow> tr_line bp = s"
  by (cases bp) (simp add: holds_def tr_line_def)

lemma holds_start: "holds (replicate n (CHR 0x00), 0) [] n"
  by (simp add: holds_def)

fun shown :: "trace_event \<Rightarrow> string" where
  "shown (AllocAt label n) = ''A '' @ decimal (unat n) @ '' '' @ take 240 label @ [CHR 0x0A]"
| "shown (RewindTo n) = ''R '' @ decimal (unat n) @ [CHR 0x0A]"
| "shown (UncommitAt n) = ''U '' @ decimal (unat n) @ [CHR 0x0A]"

lemma length_u32: "length (decimal (unat (w :: u32))) \<le> 10"
  using unat_u32 [of w] by (intro length_decimal_le) simp_all

lemma short_line:
  assumes k: "length kind = 2"
  shows "map_option tr_line
     (Option.bind (tr_push (replicate 32 (CHR 0x00), 0) kind) (\<lambda>b.
      Option.bind (tr_push_u32 b w) (\<lambda>b. tr_push b [CHR 0x0A]))) = Some (kind @ decimal (unat w) @ [CHR 0x0A])"
proof -
  note len = length_u32 [of w]
  obtain b1 where b1: "tr_push (replicate 32 (CHR 0x00), 0) kind = Some b1" "holds b1 kind 32"
    using tr_push_holds [OF holds_start, of kind 32] k by auto
  obtain b2 where b2: "tr_push_u32 b1 w = Some b2" "holds b2 (kind @ decimal (unat w)) 32"
    using tr_push_u32_holds [OF b1(2), of w] k by auto
  obtain b3 where b3: "tr_push b2 [CHR 0x0A] = Some b3" "holds b3 (kind @ decimal (unat w) @ [CHR 0x0A]) 32"
    using tr_push_holds [OF b2(2), of "[CHR 0x0A]"] k len by auto
  show ?thesis by (simp add: b1(1) b2(1) b3(1) tr_line_holds [OF b3(2)])
qed

lemma alloc_line: "tr_alloc label w = Some (''A '' @ decimal (unat w) @ '' '' @ take 240 label @ [CHR 0x0A])"
proof -
  note len = length_u32 [of w]
  let ?l = "take 240 label" and ?d = "decimal (unat w)"
  have l: "(if length label > 240 then take 240 label else label) = ?l" by simp
  obtain b1 where b1: "tr_push (replicate 256 (CHR 0x00), 0) ''A '' = Some b1" "holds b1 ''A '' 256"
    using tr_push_holds [OF holds_start, of "''A ''" 256] by auto
  obtain b2 where b2: "tr_push_u32 b1 w = Some b2" "holds b2 (''A '' @ ?d) 256"
    using tr_push_u32_holds [OF b1(2), of w] by auto
  obtain b3 where b3: "tr_push b2 '' '' = Some b3" "holds b3 (''A '' @ ?d @ '' '') 256"
    using tr_push_holds [OF b2(2), of "'' ''"] len by auto
  obtain b4 where b4: "tr_push b3 ?l = Some b4" "holds b4 (''A '' @ ?d @ '' '' @ ?l) 256"
    using tr_push_holds [OF b3(2), of ?l] len min.cobounded2 [of "length label" 240] by auto
  obtain b5 where b5: "tr_push b4 [CHR 0x0A] = Some b5" "holds b5 (''A '' @ ?d @ '' '' @ ?l @ [CHR 0x0A]) 256"
    using tr_push_holds [OF b4(2), of "[CHR 0x0A]"] len min.cobounded2 [of "length label" 240] by auto
  show ?thesis
    unfolding tr_alloc_def l by (simp only: b1(1) b2(1) b3(1) b4(1) b5(1) bind.simps option.map tr_line_holds [OF b5(2)])
qed

lemma event_line: "event_line e = Some (shown e)"
  by (cases e) (simp_all add: alloc_line tr_rewind_def tr_uncommit_def short_line)

text \<open>The buffers always suffice; the file holds the line of every event, or nothing when it could not be opened.\<close>

lemma trace_run_opened:
  "0 \<le> opened \<Longrightarrow> trace_run opened (-1, []) es = Some (if es = [] then -1 else opened, concat (map shown es))"
proof -
  assume o: "0 \<le> opened"
  have run: "trace_run opened (opened, s) es = Some (opened, s @ concat (map shown es))" for s and es
    using o by (induction es arbitrary: s) (simp_all add: event_line tr_write_line_def tr_fd_def)
  show ?thesis using o by (cases es) (simp_all add: event_line tr_write_line_def tr_fd_def run)
qed

lemma trace_run_failed:
  "opened < 0 \<Longrightarrow> trace_run opened (-1, []) es = Some (if es = [] then -1 else -2, [])"
proof -
  assume o: "opened < 0"
  have run: "trace_run opened (-2, s) es = Some (-2, s)" for s and es
    by (induction es arbitrary: s) (simp_all add: event_line tr_write_line_def tr_fd_def)
  show ?thesis using o by (cases es) (simp_all add: event_line tr_write_line_def tr_fd_def run)
qed

end
