(* ===== verification/Timeline.thy ===== *)
theory Timeline
  imports Trace
begin

unbundle bit_operations_syntax

text \<open>
  arena-svg (tools/arena-svg, which draws the log of theory Trace): the parser of the log, the rectangles it makes of
  the events and their place on the x axis. Strings are the ASCII texts the tracer writes. The hash map is a
  function; the SVG text itself is not modelled.
\<close>

subsection \<open>Parsing\<close>

text \<open>\<open>str::lines\<close>, \<open>trim_end\<close>, \<open>split_once\<close> and \<open>str::parse\<close> for \<open>u32\<close>.\<close>

definition strip_cr :: "string \<Rightarrow> string" where
  "strip_cr s = (if s \<noteq> [] \<and> List.last s = CHR 0x0D then butlast s else s)"

fun str_lines :: "string \<Rightarrow> string \<Rightarrow> string list" where
  "str_lines cur [] = (if cur = [] then [] else [cur])"
| "str_lines cur (c # cs) = (if c = CHR 0x0A then strip_cr cur # str_lines [] cs else str_lines (cur @ [c]) cs)"

definition is_whitespace :: "char \<Rightarrow> bool" where
  "is_whitespace c \<longleftrightarrow> c \<in> {CHR 0x09, CHR 0x0A, CHR 0x0B, CHR 0x0C, CHR 0x0D, CHR '' ''}"

definition trim_end :: "string \<Rightarrow> string" where "trim_end s = rev (dropWhile is_whitespace (rev s))"

fun split_once :: "char \<Rightarrow> string \<Rightarrow> (string \<times> string) option" where
  "split_once d [] = None"
| "split_once d (c # cs) = (if c = d then Some ([], cs) else map_option (\<lambda>(a, b). (c # a, b)) (split_once d cs))"

definition parse_u32 :: "string \<Rightarrow> u32 option" where
  "parse_u32 s =
     (let ds = (case s of c # cs \<Rightarrow> if c = CHR ''+'' \<and> cs \<noteq> [] then cs else s | [] \<Rightarrow> [])
      in if ds = [] then None
         else case parse_digits 0 ds of None \<Rightarrow> None | Some n \<Rightarrow> if n < 2 ^ 32 then Some (of_nat n) else None)"

definition parse_line :: "string \<Rightarrow> trace_event option" where
  "parse_line l =
     (let line = trim_end l
      in if line = [] then None
         else case split_once (CHR '' '') line of
           None \<Rightarrow> None
         | Some (kind, rest) \<Rightarrow>
             (if kind = ''A''
              then (let (off, label) = (case split_once (CHR '' '') rest of Some p \<Rightarrow> p | None \<Rightarrow> (rest, []))
                    in map_option (AllocAt label) (parse_u32 off))
              else if kind = ''R'' then map_option RewindTo (parse_u32 rest)
              else if kind = ''U'' then map_option UncommitAt (parse_u32 rest)
              else None))"

definition parse_log :: "string \<Rightarrow> trace_event list" where
  "parse_log src = List.map_filter parse_line (str_lines [] src)"

subsection \<open>Rectangles\<close>

record live_span =
  lv_start :: u32
  lv_lo :: u32
  lv_hi :: u32
  lv_label :: string

record svg_rect = live_span +
  rc_end :: u32

definition rect_of :: "live_span \<Rightarrow> u32 \<Rightarrow> svg_rect" where
  "rect_of l e = \<lparr>lv_start = lv_start l, lv_lo = lv_lo l, lv_hi = lv_hi l, lv_label = lv_label l, rc_end = e\<rparr>"

text \<open>The stack of live allocations has its top first. The loop of a rewind: the warning of its third branch is output only.\<close>

fun reclaim :: "u32 \<Rightarrow> u32 \<Rightarrow> live_span list \<Rightarrow> svg_rect list \<Rightarrow> live_span list \<times> svg_rect list" where
  "reclaim i new_offset [] rects = ([], rects)"
| "reclaim i new_offset (l # ls) rects =
     (if lv_lo l \<ge> new_offset then reclaim i new_offset ls (rects @ [rect_of l i])
      else if lv_hi l \<le> new_offset then (l # ls, rects)
      else (l # ls, rects))"

record svg_state =
  sv_live :: "live_span list"
  sv_cur :: u32
  sv_peak :: u32
  sv_rects :: "svg_rect list"
  sv_uncommits :: "(u32 \<times> u32) list"

fun svg_step :: "svg_state \<Rightarrow> u32 \<times> trace_event \<Rightarrow> svg_state" where
  "svg_step st (i, AllocAt label n) =
     st\<lparr>sv_cur := n, sv_peak := (if n > sv_peak st then n else sv_peak st),
        sv_live := (if n > sv_cur st
          then \<lparr>lv_start = i, lv_lo = sv_cur st, lv_hi = n, lv_label = label\<rparr> # sv_live st else sv_live st)\<rparr>"
| "svg_step st (i, RewindTo n) =
     (case reclaim i n (sv_live st) (sv_rects st) of (live, rects) \<Rightarrow> st\<lparr>sv_live := live, sv_rects := rects, sv_cur := n\<rparr>)"
| "svg_step st (i, UncommitAt n) = st\<lparr>sv_uncommits := sv_uncommits st @ [(i, n)], sv_cur := n\<rparr>"

definition svg_start :: svg_state where
  "svg_start = \<lparr>sv_live = [], sv_cur = 0, sv_peak = 0, sv_rects = [], sv_uncommits = []\<rparr>"

definition build_rects :: "trace_event list \<Rightarrow> svg_rect list \<times> (u32 \<times> u32) list \<times> u32" where
  "build_rects evs =
     (let st = foldl (\<lambda>st (i, e). svg_step st (of_nat i, e)) svg_start (List.enumerate 0 evs)
      in (sv_rects st @ List.map (\<lambda>l. rect_of l (of_nat (length evs))) (rev (sv_live st)), sv_uncommits st, sv_peak st))"

subsection \<open>The x axis\<close>

definition EVENT_X_MIN_STEP :: u64 where "EVENT_X_MIN_STEP = 16"
definition BUDGET_PER_LABEL :: u64 where "BUDGET_PER_LABEL = 32 * 1024"

fun alloc_label :: "trace_event \<Rightarrow> string option" where
  "alloc_label (AllocAt label n) = Some label"
| "alloc_label _ = None"

definition label_count :: "trace_event list \<Rightarrow> string \<Rightarrow> nat" where
  "label_count evs label = length (List.filter (\<lambda>e. alloc_label e = Some label) evs)"

fun x_delta :: "(string \<Rightarrow> nat) \<Rightarrow> trace_event \<Rightarrow> u64" where
  "x_delta counts (AllocAt label n) = max (BUDGET_PER_LABEL div of_nat (max (counts label) 1)) EVENT_X_MIN_STEP"
| "x_delta counts _ = EVENT_X_MIN_STEP"

fun x_scan :: "(string \<Rightarrow> nat) \<Rightarrow> u64 \<Rightarrow> trace_event list \<Rightarrow> u64 list" where
  "x_scan counts x [] = [x]"
| "x_scan counts x (e # es) = x # x_scan counts (x + x_delta counts e) es"

definition compute_event_x :: "trace_event list \<Rightarrow> u64 list \<times> u64" where
  "compute_event_x evs = (let xs = x_scan (label_count evs) 0 evs in (xs, List.last xs))"

subsection \<open>Colours and text\<close>

definition hash_label :: "string \<Rightarrow> u32" where
  "hash_label label = foldl (\<lambda>h b. (h XOR of_char b) * 0x01000193) 0x811c9dc5 label"

definition label_hue :: "string \<Rightarrow> u32" where "label_hue label = hash_label label mod 360"

fun xml_escape :: "string \<Rightarrow> string" where
  "xml_escape [] = []"
| "xml_escape (c # cs) =
     (if c = CHR ''<'' then ''&lt;'' else if c = CHR ''>'' then ''&gt;'' else if c = CHR ''&'' then ''&amp;'' else [c]) @ xml_escape cs"

subsection \<open>The parser reads what the tracer writes\<close>

text \<open>A label the log can carry: printable, and not ending in a space where the tracer cuts it.\<close>

definition printable :: "char \<Rightarrow> bool" where
  "printable c \<longleftrightarrow> 32 \<le> (of_char c :: nat) \<and> (of_char c :: nat) < 127"

definition label_ok :: "string \<Rightarrow> bool" where
  "label_ok s \<longleftrightarrow> list_all printable s \<and> (let t = take 240 s in t = [] \<or> List.last t \<noteq> CHR '' '')"

fun event_ok :: "trace_event \<Rightarrow> bool" where
  "event_ok (AllocAt label n) = label_ok label"
| "event_ok _ = True"

fun cut_label :: "trace_event \<Rightarrow> trace_event" where
  "cut_label (AllocAt label n) = AllocAt (take 240 label) n"
| "cut_label e = e"

lemma digit_code: "d < 10 \<Longrightarrow> (of_char (digit_char d) :: nat) = 48 + d"
  by (simp add: digit_char_def)

lemma decimal_codes: "c \<in> set (decimal n) \<Longrightarrow> 48 \<le> (of_char c :: nat) \<and> (of_char c :: nat) < 58"
  using decimal_chars [of c n] digit_code by force

lemma printable_not: "printable c \<Longrightarrow> c \<noteq> CHR 0x0A \<and> c \<noteq> CHR 0x0D \<and> (c \<noteq> CHR '' '' \<longrightarrow> \<not> is_whitespace c)"
  by (auto simp: printable_def is_whitespace_def)

lemma decimal_plain: "c \<in> set (decimal n) \<Longrightarrow> printable c \<and> c \<noteq> CHR '' '' \<and> c \<noteq> CHR ''+''"
  using decimal_codes [of c n] by (auto simp: printable_def)

lemma str_lines_line:
  "CHR 0x0A \<notin> set l \<Longrightarrow> str_lines cur (l @ CHR 0x0A # s) = strip_cr (cur @ l) # str_lines [] s"
  by (induction l arbitrary: cur) auto

lemma trim_end_same: "s \<noteq> [] \<Longrightarrow> \<not> is_whitespace (List.last s) \<Longrightarrow> trim_end s = s"
  by (cases s rule: rev_cases) (simp_all add: trim_end_def)

lemma trim_end_space: "trim_end (s @ '' '') = trim_end s"
  by (simp add: trim_end_def is_whitespace_def)

lemma split_once_found: "d \<notin> set a \<Longrightarrow> split_once d (a @ d # b) = Some (a, b)"
  by (induction a) auto

lemma split_once_absent: "d \<notin> set a \<Longrightarrow> split_once d a = None"
  by (induction a) auto

lemma parse_u32_decimal: "parse_u32 (decimal (unat w)) = Some w"
proof -
  obtain c cs where d: "decimal (unat w) = c # cs" using decimal_nonempty by (cases "decimal (unat w)") auto
  then have "c \<noteq> CHR ''+''" using decimal_plain [of c "unat w"] by simp
  then have "(case decimal (unat w) of c # cs \<Rightarrow> if c = CHR ''+'' \<and> cs \<noteq> [] then cs else decimal (unat w) | [] \<Rightarrow> []) = decimal (unat w)"
    by (simp add: d)
  then show ?thesis
    using unat_u32 [of w] by (simp add: parse_u32_def Let_def decimal_nonempty parse_digits_decimal)
qed

fun line_body :: "trace_event \<Rightarrow> string" where
  "line_body (AllocAt label n) = ''A '' @ decimal (unat n) @ '' '' @ take 240 label"
| "line_body (RewindTo n) = ''R '' @ decimal (unat n)"
| "line_body (UncommitAt n) = ''U '' @ decimal (unat n)"

lemma shown_body: "shown e = line_body e @ [CHR 0x0A]" by (cases e) simp_all

lemma line_body_printable: "event_ok e \<Longrightarrow> c \<in> set (line_body e) \<Longrightarrow> printable c"
proof -
  have k: "printable (CHR ''A'')" "printable (CHR ''R'')" "printable (CHR ''U'')" "printable (CHR '' '')"
    by (simp_all add: printable_def)
  assume "event_ok e" "c \<in> set (line_body e)"
  then show ?thesis
    using k by (cases e) (auto simp: label_ok_def list_all_iff dest: decimal_plain in_set_takeD)
qed

lemma decimal_last: "\<not> is_whitespace (List.last (decimal n))"
proof -
  have "List.last (decimal n) \<in> set (decimal n)" using decimal_nonempty by simp
  then show ?thesis using decimal_plain printable_not by blast
qed

lemma parse_line_body: "event_ok e \<Longrightarrow> parse_line (line_body e) = Some (cut_label e)"
proof (cases e)
  case (AllocAt label n)
  assume ok: "event_ok e"
  let ?d = "decimal (unat n)" and ?l = "take 240 label"
  have d: "CHR '' '' \<notin> set ?d" using decimal_plain by blast
  show ?thesis
  proof (cases "?l = []")
    case True
    have t: "trim_end (''A '' @ ?d @ '' '') = ''A '' @ ?d"
      using trim_end_space [of "''A '' @ ?d"] trim_end_same [of "''A '' @ ?d"] decimal_last decimal_nonempty by simp
    show ?thesis
      using True t split_once_found [of "CHR '' ''" "''A''" ?d] split_once_absent [OF d]
      by (simp add: AllocAt parse_line_def Let_def parse_u32_decimal)
  next
    case False
    have "List.last ?l \<in> set label" using False by (meson in_set_takeD last_in_set)
    then have "\<not> is_whitespace (List.last ?l)"
      using ok False printable_not by (auto simp: AllocAt label_ok_def Let_def list_all_iff)
    then have t: "trim_end (''A '' @ ?d @ '' '' @ ?l) = ''A '' @ ?d @ '' '' @ ?l"
      using False by (intro trim_end_same) simp_all
    show ?thesis
      using t split_once_found [of "CHR '' ''" "''A''" "?d @ '' '' @ ?l"] split_once_found [OF d, of ?l]
      by (simp add: AllocAt parse_line_def Let_def parse_u32_decimal)
  qed
next
  case (RewindTo n)
  have "trim_end (''R '' @ decimal (unat n)) = ''R '' @ decimal (unat n)"
    using decimal_last decimal_nonempty by (intro trim_end_same) simp_all
  then show ?thesis
    using split_once_found [of "CHR '' ''" "''R''" "decimal (unat n)"]
    by (simp add: RewindTo parse_line_def Let_def parse_u32_decimal)
next
  case (UncommitAt n)
  have "trim_end (''U '' @ decimal (unat n)) = ''U '' @ decimal (unat n)"
    using decimal_last decimal_nonempty by (intro trim_end_same) simp_all
  then show ?thesis
    using split_once_found [of "CHR '' ''" "''U''" "decimal (unat n)"]
    by (simp add: UncommitAt parse_line_def Let_def parse_u32_decimal)
qed

lemma parse_shown: "list_all event_ok es \<Longrightarrow> parse_log (concat (List.map shown es)) = List.map cut_label es"
proof (induction es)
  case (Cons e es)
  have nl: "CHR 0x0A \<notin> set (line_body e)" and cr: "CHR 0x0D \<notin> set (line_body e)"
    using Cons.prems line_body_printable printable_not by fastforce+
  have "line_body e \<noteq> []" by (cases e) simp_all
  with cr have "strip_cr (line_body e) = line_body e" by (auto simp: strip_cr_def dest: last_in_set)
  then have "str_lines [] (concat (List.map shown (e # es))) = line_body e # str_lines [] (concat (List.map shown es))"
    using str_lines_line [OF nl, of "[]"] by (simp add: shown_body)
  then show ?case
    using Cons parse_line_body [of e] by (simp add: parse_log_def List.map_filter_simps)
qed (simp add: parse_log_def List.map_filter_simps)


subsection \<open>What the drawing shows\<close>

text \<open>The offset only falls at a rewind, as the arena keeps it.\<close>

fun rising :: "u32 \<Rightarrow> trace_event list \<Rightarrow> bool" where
  "rising cur [] = True"
| "rising cur (AllocAt label n # es) = (cur \<le> n \<and> rising n es)"
| "rising cur (RewindTo n # es) = rising n es"
| "rising cur (UncommitAt n # es) = (cur \<le> n \<and> rising n es)"

text \<open>How many of the events a block starting at \<open>lo\<close> outlives: the first rewind to \<open>lo\<close> or below frees it.\<close>

fun outlives :: "u32 \<Rightarrow> trace_event list \<Rightarrow> nat" where
  "outlives lo [] = 0"
| "outlives lo (RewindTo n # es) = (if n \<le> lo then 0 else Suc (outlives lo es))"
| "outlives lo (e # es) = Suc (outlives lo es)"

text \<open>The rectangles the events stand for: one for each allocation that moves the offset up.\<close>

fun blocks :: "nat \<Rightarrow> u32 \<Rightarrow> trace_event list \<Rightarrow> svg_rect list" where
  "blocks i cur [] = []"
| "blocks i cur (AllocAt label n # es) =
     (if cur < n
      then [\<lparr>lv_start = of_nat i, lv_lo = cur, lv_hi = n, lv_label = label, rc_end = of_nat (Suc i + outlives cur es)\<rparr>]
      else []) @ blocks (Suc i) n es"
| "blocks i cur (RewindTo n # es) = blocks (Suc i) n es"
| "blocks i cur (UncommitAt n # es) = blocks (Suc i) n es"

text \<open>No rewind ends inside a block that is still there.\<close>

fun spares :: "u32 \<Rightarrow> u32 \<Rightarrow> trace_event list \<Rightarrow> bool" where
  "spares lo hi [] = True"
| "spares lo hi (RewindTo n # es) = (n \<le> lo \<or> hi \<le> n \<and> spares lo hi es)"
| "spares lo hi (e # es) = spares lo hi es"

fun tidy :: "u32 \<Rightarrow> trace_event list \<Rightarrow> bool" where
  "tidy cur [] = True"
| "tidy cur (AllocAt label n # es) = (spares cur n es \<and> tidy n es)"
| "tidy cur (RewindTo n # es) = tidy n es"
| "tidy cur (UncommitAt n # es) = tidy n es"

definition apart :: "svg_rect \<Rightarrow> svg_rect \<Rightarrow> bool" where
  "apart a b \<longleftrightarrow> rc_end a \<le> lv_start b \<or> rc_end b \<le> lv_start a \<or> lv_hi a \<le> lv_lo b \<or> lv_hi b \<le> lv_lo a"

definition svg_run :: "nat \<Rightarrow> svg_state \<Rightarrow> trace_event list \<Rightarrow> svg_state" where
  "svg_run i st es = foldl (\<lambda>st (i, e). svg_step st (of_nat i, e)) st (List.enumerate i es)"

lemma svg_run_simps [simp]:
  "svg_run i st [] = st" "svg_run i st (e # es) = svg_run (Suc i) (svg_step st (of_nat i, e)) es"
  by (simp_all add: svg_run_def)

definition stacked :: "svg_state \<Rightarrow> bool" where
  "stacked st \<longleftrightarrow> sorted_wrt (\<lambda>a b. lv_lo b \<le> lv_lo a) (sv_live st) \<and> (\<forall>l \<in> set (sv_live st). lv_lo l \<le> sv_cur st)"

lemma reclaim_split:
  "sorted_wrt (\<lambda>a b. lv_lo b \<le> lv_lo a) ls \<Longrightarrow>
   reclaim i n ls rs = (List.filter (\<lambda>l. lv_lo l < n) ls, rs @ List.map (\<lambda>l. rect_of l i) (List.filter (\<lambda>l. n \<le> lv_lo l) ls))"
proof (induction ls arbitrary: rs)
  case (Cons l ls)
  show ?case
  proof (cases "n \<le> lv_lo l")
    case True
    then show ?thesis using Cons by auto
  next
    case False
    then have "\<forall>m \<in> set ls. lv_lo m < n" using Cons.prems by (auto intro: order_le_less_trans)
    then have "List.filter (\<lambda>l. lv_lo l < n) ls = ls" "List.filter (\<lambda>l. n \<le> lv_lo l) ls = []"
      by (auto intro: filter_True simp: filter_empty_conv not_le)
    then show ?thesis using False by auto
  qed
qed simp

lemma mset_cases: "mset (List.filter P xs) + mset (List.filter (\<lambda>x. \<not> P x) xs) = mset xs"
  by (induction xs) auto

text \<open>The rectangles drawn so far, the ones of the live blocks and the ones of the events to come.\<close>

definition picture :: "nat \<Rightarrow> svg_state \<Rightarrow> trace_event list \<Rightarrow> svg_rect multiset" where
  "picture i st es = mset (sv_rects st) + image_mset (\<lambda>l. rect_of l (of_nat (i + outlives (lv_lo l) es))) (mset (sv_live st))
     + mset (blocks i (sv_cur st) es)"

lemma svg_step_stacked: "stacked st \<Longrightarrow> rising (sv_cur st) (e # es) \<Longrightarrow> stacked (svg_step st (i, e))"
  by (cases e) (auto simp: stacked_def reclaim_split sorted_wrt_filter dest: order_trans)

lemma svg_step_cur: "stacked st \<Longrightarrow> sv_cur (svg_step st (i, e)) = (case e of AllocAt label n \<Rightarrow> n | RewindTo n \<Rightarrow> n | UncommitAt n \<Rightarrow> n)"
  by (cases e) (auto simp: stacked_def reclaim_split)

lemma svg_step_picture:
  assumes "stacked st"
  shows "picture (Suc i) (svg_step st (of_nat i, e)) es = picture i st (e # es)"
proof (cases e)
  case (RewindTo n)
  let ?dead = "List.filter (\<lambda>l. n \<le> lv_lo l) (sv_live st)" and ?live = "List.filter (\<lambda>l. lv_lo l < n) (sv_live st)"
  have step: "svg_step st (of_nat i, e) = st\<lparr>sv_live := ?live, sv_rects := sv_rects st @ List.map (\<lambda>l. rect_of l (of_nat i)) ?dead, sv_cur := n\<rparr>"
    using assms by (simp add: RewindTo stacked_def reclaim_split)
  let ?f = "\<lambda>l. rect_of l (of_nat (i + outlives (lv_lo l) (e # es)))"
  have "mset (sv_live st) = mset ?dead + mset ?live"
    using mset_cases [of "\<lambda>l. n \<le> lv_lo l" "sv_live st"] by (simp add: not_le)
  then have "image_mset ?f (mset (sv_live st)) = image_mset ?f (mset ?dead) + image_mset ?f (mset ?live)"
    by (simp only: image_mset_union)
  moreover have "image_mset ?f (mset ?dead) = image_mset (\<lambda>l. rect_of l (of_nat i)) (mset ?dead)"
    by (rule image_mset_cong) (simp add: RewindTo)
  moreover have "image_mset ?f (mset ?live) = image_mset (\<lambda>l. rect_of l (of_nat (Suc i + outlives (lv_lo l) es))) (mset ?live)"
    by (rule image_mset_cong) (auto simp: RewindTo not_le algebra_simps)
  ultimately show ?thesis
    unfolding picture_def step by (simp add: RewindTo del: mset_filter of_nat_add of_nat_Suc)
qed (simp_all add: picture_def rect_of_def)

lemma svg_run_picture:
  "stacked st \<Longrightarrow> rising (sv_cur st) es \<Longrightarrow> picture (i + length es) (svg_run i st es) [] = picture i st es"
proof (induction es arbitrary: i st)
  case (Cons e es)
  have "rising (sv_cur (svg_step st (of_nat i, e))) es"
    using Cons.prems by (cases e) (simp_all add: svg_step_cur del: svg_step.simps)
  with Cons.IH [of "svg_step st (of_nat i, e)" "Suc i"] show ?case
    using svg_step_stacked [OF Cons.prems] svg_step_picture [OF Cons.prems(1)] by simp
qed simp

lemma build_rects_blocks:
  assumes "rising 0 evs"
  shows "mset (fst (build_rects evs)) = mset (blocks 0 0 evs)"
proof -
  have "stacked svg_start" "sv_cur svg_start = 0" "picture 0 svg_start evs = mset (blocks 0 0 evs)"
    by (simp_all add: stacked_def svg_start_def picture_def)
  moreover have "mset (fst (build_rects evs)) = picture (length evs) (svg_run 0 svg_start evs) []"
    by (simp add: build_rects_def Let_def picture_def svg_run_def)
  ultimately show ?thesis using svg_run_picture [of svg_start evs 0] assms by simp
qed

lemma blocks_start:
  "r \<in> set (blocks i cur es) \<Longrightarrow> i + length es < 2 ^ 32 \<Longrightarrow> i \<le> unat (lv_start r) \<and> unat (lv_start r) < i + length es"
proof (induction es arbitrary: i cur)
  case (Cons e es)
  have "i < 2 ^ 32" using Cons.prems(2) by simp
  then have "unat (of_nat i :: u32) = i" by (simp add: unat_of_nat32)
  moreover have "r \<in> set (blocks (Suc i) c es) \<Longrightarrow> Suc i \<le> unat (lv_start r) \<and> unat (lv_start r) < Suc i + length es" for c
    using Cons.IH [of "Suc i" c] Cons.prems(2) by simp
  ultimately show ?case
    using Cons.prems(1) by (cases e) (fastforce split: if_splits)+
qed simp

lemma outlives_le: "outlives lo es \<le> length es"
  by (induction lo es rule: outlives.induct) simp_all

text \<open>While a block is there, later ones lie above it.\<close>

lemma blocks_above:
  "r \<in> set (blocks i cur es) \<Longrightarrow> i + length es < 2 ^ 32 \<Longrightarrow> spares lo hi es \<Longrightarrow> rising cur es \<Longrightarrow> hi \<le> cur \<Longrightarrow>
   unat (lv_start r) < i + outlives lo es \<Longrightarrow> hi \<le> lv_lo r"
proof (induction es arbitrary: i cur)
  case (Cons e es)
  have step: "hi \<le> lv_lo r"
    if "r \<in> set (blocks (Suc i) c es)" "spares lo hi es" "rising c es" "hi \<le> c" "unat (lv_start r) < Suc i + outlives lo es" for c
    using Cons.IH [of "Suc i" c] Cons.prems(2) that by simp
  show ?case
  proof (cases e)
    case (AllocAt label n)
    have "hi \<le> n" using Cons.prems(4,5) by (auto simp: AllocAt intro: order_trans)
    then have "r \<in> set (blocks (Suc i) n es) \<Longrightarrow> hi \<le> lv_lo r"
      using step [of n] Cons.prems by (simp add: AllocAt)
    then show ?thesis using Cons.prems(1,5) by (auto simp: AllocAt split: if_splits)
  next
    case (RewindTo n)
    have "\<not> n \<le> lo"
    proof
      assume "n \<le> lo"
      then have "unat (lv_start r) < i" using Cons.prems(6) by (simp add: RewindTo)
      moreover have "Suc i \<le> unat (lv_start r)" using blocks_start [of r "Suc i" n es] Cons.prems(1,2) by (simp add: RewindTo)
      ultimately show False by simp
    qed
    then show ?thesis using step [of n] Cons.prems by (simp add: RewindTo)
  next
    case (UncommitAt n)
    then have "hi \<le> n" using Cons.prems(4,5) by (auto intro: order_trans)
    then show ?thesis using step [of n] Cons.prems by (simp add: UncommitAt)
  qed
qed simp

lemma blocks_apart:
  "a \<in> set (blocks i cur es) \<Longrightarrow> b \<in> set (blocks i cur es) \<Longrightarrow> a \<noteq> b \<Longrightarrow> i + length es < 2 ^ 32 \<Longrightarrow> rising cur es \<Longrightarrow>
   tidy cur es \<Longrightarrow> apart a b"
proof (induction es arbitrary: i cur)
  case (Cons e es)
  show ?case
  proof (cases e)
    case (AllocAt label n)
    let ?r = "\<lparr>lv_start = of_nat i, lv_lo = cur, lv_hi = n, lv_label = label, rc_end = of_nat (Suc i + outlives cur es)\<rparr>"
    have fin: "unat (rc_end ?r) = Suc i + outlives cur es"
      using Cons.prems(4) outlives_le [of cur es] by (simp del: of_nat_Suc of_nat_add add: unat_of_nat32)
    have late: "apart ?r x \<and> apart x ?r" if x: "x \<in> set (blocks (Suc i) n es)" for x
    proof (cases "unat (lv_start x) < Suc i + outlives cur es")
      case True
      then have "n \<le> lv_lo x" using blocks_above [OF x, of cur n] Cons.prems(4,5,6) by (simp add: AllocAt)
      then show ?thesis by (simp add: apart_def)
    next
      case False
      then have "rc_end ?r \<le> lv_start x" using fin by (simp add: word_le_nat_alt)
      then show ?thesis by (simp only: apart_def) simp
    qed
    have "a = ?r \<or> a \<in> set (blocks (Suc i) n es)" "b = ?r \<or> b \<in> set (blocks (Suc i) n es)"
      using Cons.prems(1,2) by (auto simp: AllocAt split: if_splits)
    then show ?thesis
      using late Cons.IH [of "Suc i" n] Cons.prems(3-6) by (auto simp: AllocAt)
  next
    case (RewindTo n)
    then show ?thesis using Cons.IH [of "Suc i" n] Cons.prems by simp
  next
    case (UncommitAt n)
    then show ?thesis using Cons.IH [of "Suc i" n] Cons.prems by simp
  qed
qed simp

fun alloc_offset :: "trace_event \<Rightarrow> u32" where
  "alloc_offset (AllocAt label n) = n"
| "alloc_offset _ = 0"

lemma svg_run_peak: "sv_peak (svg_run i st es) = foldl max (sv_peak st) (List.map alloc_offset es)"
proof (induction es arbitrary: i st)
  case (Cons e es)
  have "sv_peak (svg_step st (of_nat i, e)) = max (sv_peak st) (alloc_offset e)"
    by (cases e) (auto split: prod.splits simp: max_def)
  then show ?case using Cons [of "Suc i" "svg_step st (of_nat i, e)"] by simp
qed simp

lemma svg_run_uncommits:
  "List.map snd (sv_uncommits (svg_run i st es)) = List.map snd (sv_uncommits st) @
     List.map_filter (\<lambda>e. case e of UncommitAt n \<Rightarrow> Some n | _ \<Rightarrow> None) es"
proof (induction es arbitrary: i st)
  case (Cons e es)
  from Cons [of "Suc i" "svg_step st (of_nat i, e)"] show ?case
    by (cases e) (auto simp: List.map_filter_simps split: prod.splits)
qed (simp add: List.map_filter_simps)

lemma build_rects_peak: "snd (snd (build_rects evs)) = foldl max 0 (List.map alloc_offset evs)"
  using svg_run_peak [of 0 svg_start evs] by (simp add: build_rects_def Let_def svg_run_def svg_start_def)

lemma cut_keeps:
  "rising cur (List.map cut_label evs) = rising cur evs" "tidy cur (List.map cut_label evs) = tidy cur evs"
  "alloc_offset \<circ> cut_label = alloc_offset"
proof -
  have sp: "spares lo hi (List.map cut_label es) = spares lo hi es" for lo hi es
    by (induction lo hi es rule: spares.induct) simp_all
  show "rising cur (List.map cut_label evs) = rising cur evs"
    by (induction cur evs rule: rising.induct) simp_all
  show "tidy cur (List.map cut_label evs) = tidy cur evs"
    by (induction cur evs rule: tidy.induct) (simp_all add: sp)
  have "alloc_offset (cut_label e) = alloc_offset e" for e by (cases e) simp_all
  then show "alloc_offset \<circ> cut_label = alloc_offset" by (simp add: fun_eq_iff)
qed

subsection \<open>Escaped text\<close>

text \<open>What an XML reader makes of the three entities.\<close>

fun xml_unescape :: "string \<Rightarrow> string" where
  "xml_unescape [] = []"
| "xml_unescape (c # cs) =
     (if take 4 (c # cs) = ''&lt;'' then CHR ''<'' # xml_unescape (drop 3 cs)
      else if take 4 (c # cs) = ''&gt;'' then CHR ''>'' # xml_unescape (drop 3 cs)
      else if take 5 (c # cs) = ''&amp;'' then CHR ''&'' # xml_unescape (drop 4 cs)
      else c # xml_unescape cs)"

text \<open>Escaped text has no markup character and is read back as it was.\<close>

lemma xml_escape_plain: "c \<in> set (xml_escape s) \<Longrightarrow> c \<noteq> CHR ''<'' \<and> c \<noteq> CHR ''>''"
  by (induction s) (auto split: if_splits)

lemma xml_unescape_escape: "xml_unescape (xml_escape s) = s"
proof (induction s)
  case (Cons c cs)
  have "xml_unescape (c # xml_escape cs) = c # xml_unescape (xml_escape cs)" if "c \<noteq> CHR ''&''"
    using that by simp
  then show ?case using Cons by simp
qed simp

lemma label_hue_bounded: "label_hue label < 360"
  by (simp add: label_hue_def word_less_nat_alt unat_mod)

subsection \<open>Widths\<close>

lemma x_scan_last: "List.last (x_scan counts x es) = x + sum_list (List.map (x_delta counts) es)"
proof (induction es arbitrary: x)
  case (Cons e es)
  have "x_scan counts (x + x_delta counts e) es \<noteq> []" by (cases es) simp_all
  then show ?case using Cons by (simp add: add.assoc)
qed simp

text \<open>The axis is as long as the widths of the events together, and the events of a label take its count times their
  common width: 32768 when the count divides that and is at most 2048, otherwise less or more.\<close>

lemma axis_length: "snd (compute_event_x evs) = sum_list (List.map (x_delta (label_count evs)) evs)"
  by (simp add: compute_event_x_def Let_def x_scan_last)

lemma label_width:
  "sum_list (List.map (x_delta counts) (List.filter (\<lambda>e. alloc_label e = Some label) evs))
     = of_nat (label_count evs label) * max (BUDGET_PER_LABEL div of_nat (max (counts label) 1)) EVENT_X_MIN_STEP"
proof (induction evs)
  case (Cons e es)
  then show ?case by (cases e) (simp_all add: label_count_def algebra_simps)
qed (simp add: label_count_def)

subsection \<open>The property\<close>

text \<open>C36: the arena's log is drawn as it was: for any events whose labels are printable and whose offset falls only at
  rewinds, the tracer never runs out of a buffer, the tool parses from the log exactly the events that were traced
  (labels cut at 240 characters), and its rectangles are the blocks allocated, each from the event that made it to the
  first later rewind at or below its start; the peak is the highest offset allocated, and when no rewind ends inside a
  block, two rectangles never overlap in both time and space.\<close>

theorem trace_drawn:
  assumes "0 \<le> opened" and "evs \<noteq> []" and "list_all event_ok evs" and "rising 0 evs"
  shows "\<exists>wrote. trace_run opened (-1, []) evs = Some (opened, wrote) \<and>
    parse_log wrote = List.map cut_label evs \<and>
    mset (fst (build_rects (parse_log wrote))) = mset (blocks 0 0 (List.map cut_label evs)) \<and>
    snd (snd (build_rects (parse_log wrote))) = foldl max 0 (List.map alloc_offset evs) \<and>
    (length evs < 2 ^ 32 \<and> tidy 0 evs \<longrightarrow>
      (\<forall>a \<in> set (fst (build_rects (parse_log wrote))). \<forall>b \<in> set (fst (build_rects (parse_log wrote))). a \<noteq> b \<longrightarrow> apart a b))"
proof -
  let ?es = "List.map cut_label evs"
  have rects: "mset (fst (build_rects ?es)) = mset (blocks 0 0 ?es)"
    using assms(4) by (intro build_rects_blocks) (simp add: cut_keeps)
  have "apart a b"
    if "length evs < 2 ^ 32" "tidy 0 evs" "a \<in> set (fst (build_rects ?es))" "b \<in> set (fst (build_rects ?es))" "a \<noteq> b" for a b
    using that assms(4) blocks_apart [of a 0 0 ?es b] mset_eq_setD [OF rects] by (simp add: cut_keeps)
  then show ?thesis
    using trace_run_opened [OF assms(1), of evs] assms(2) parse_shown [OF assms(3)] rects
    by (simp add: build_rects_peak cut_keeps)
qed

theorem trace_drawn_witness:
  "\<exists>wrote. trace_run 3 (-1, []) [AllocAt ''procs'' 64, AllocAt ''stat raw'' 96, RewindTo 64, AllocAt ''rows'' 80, UncommitAt 128]
      = Some (3, wrote) \<and>
    mset (fst (build_rects (parse_log wrote))) =
      {#\<lparr>lv_start = 0, lv_lo = 0, lv_hi = 64, lv_label = ''procs'', rc_end = 5\<rparr>,
        \<lparr>lv_start = 1, lv_lo = 64, lv_hi = 96, lv_label = ''stat raw'', rc_end = 2\<rparr>,
        \<lparr>lv_start = 3, lv_lo = 64, lv_hi = 80, lv_label = ''rows'', rc_end = 5\<rparr>#}"
proof -
  let ?evs = "[AllocAt ''procs'' 64, AllocAt ''stat raw'' 96, RewindTo 64, AllocAt ''rows'' 80, UncommitAt 128]"
  have "list_all event_ok ?evs" by (simp add: label_ok_def printable_def)
  moreover have "rising 0 ?evs" by simp
  moreover have "blocks 0 0 (List.map cut_label ?evs) =
      [\<lparr>lv_start = 0, lv_lo = 0, lv_hi = 64, lv_label = ''procs'', rc_end = 5\<rparr>,
        \<lparr>lv_start = 1, lv_lo = 64, lv_hi = 96, lv_label = ''stat raw'', rc_end = 2\<rparr>,
        \<lparr>lv_start = 3, lv_lo = 64, lv_hi = 80, lv_label = ''rows'', rc_end = 5\<rparr>]"
    by simp
  ultimately show ?thesis using trace_drawn [of 3 ?evs] by (auto simp del: blocks.simps)
qed

end
