(* ===== verification/Stackwalk.thy ===== *)
theory Stackwalk
  imports Timeline
begin

text \<open>
  stack-svg (tools/stack-svg), the static stack analysis: the deep-first walk over the call graph as a stream of
  events, the rectangles made of it with their peak, the positions on the x axis and the command line. The tables it
  reads (call graph, frame sizes, inlined calls) are arguments; theories Dwarf and Stackread have their readers. The
  profiles of the workspace compile without overflow checks, so \<open>u64\<close> and \<open>i64\<close> arithmetic wraps; event indices
  cannot leave their range and are plain numbers. \<open>None\<close> is a panic.
\<close>

subsection \<open>The walk\<close>

record frame_table =
  stack_by_name :: "string \<rightharpoonup> nat"
  addr_by_name :: "string \<rightharpoonup> u64"

record bound_table =
  bd_map :: "string \<rightharpoonup> u32"
  bd_default :: u32

datatype inlined_call = InlinedCall string int int "inlined_call list"

datatype stack_event =
    PushE string nat
  | PopE
  | InlinedPush string int int
  | InlinedPop
  | LoopE string
  | UnknownE string

text \<open>What \<open>walk_r\<close> hands on unchanged.\<close>

record walk_env =
  we_calls :: "string \<rightharpoonup> string list"
  we_frames :: frame_table
  we_bounds :: bound_table
  we_inlines :: "u64 \<rightharpoonup> inlined_call list"

definition MAX_DEPTH :: nat where "MAX_DEPTH = 64"
definition MAX_EVENTS :: nat where "MAX_EVENTS = 200000"
definition INLINED_MIN_BYTES :: int where "INLINED_MIN_BYTES = 4"

definition wrap_i64 :: "int \<Rightarrow> int" where "wrap_i64 z = (z + 2 ^ 63) mod 2 ^ 64 - 2 ^ 63"

lemma wrap_i64_same: "- (2 ^ 63) \<le> z \<Longrightarrow> z < 2 ^ 63 \<Longrightarrow> wrap_i64 z = z"
  by (simp add: wrap_i64_def)

fun emit_inlined :: "inlined_call \<Rightarrow> stack_event list \<Rightarrow> stack_event list"
  and emit_each :: "inlined_call list \<Rightarrow> stack_event list \<Rightarrow> stack_event list" where
  "emit_inlined (InlinedCall nm frame_lo frame_hi children) ev =
     (if length ev \<ge> MAX_EVENTS then ev
      else let visible = wrap_i64 (frame_hi - frame_lo) \<ge> INLINED_MIN_BYTES;
               ev = emit_each children (if visible then ev @ [InlinedPush nm frame_lo frame_hi] else ev)
           in if visible then ev @ [InlinedPop] else ev)"
| "emit_each [] ev = ev"
| "emit_each (c # cs) ev = emit_each cs (emit_inlined c ev)"

definition bound_of :: "walk_env \<Rightarrow> string \<Rightarrow> u32" where
  "bound_of E nm = (case bd_map (we_bounds E) nm of Some b \<Rightarrow> b | None \<Rightarrow> bd_default (we_bounds E))"

definition path_count :: "(string \<rightharpoonup> nat) \<Rightarrow> string \<Rightarrow> nat" where
  "path_count on_path nm = (case on_path nm of Some c \<Rightarrow> c | None \<Rightarrow> 0)"

definition targets_of :: "walk_env \<Rightarrow> string \<Rightarrow> string list" where
  "targets_of E nm = (case we_calls E nm of Some ts \<Rightarrow> ts | None \<Rightarrow> [])"

definition inlines_of :: "walk_env \<Rightarrow> string \<Rightarrow> inlined_call list" where
  "inlines_of E nm =
     (case addr_by_name (we_frames E) nm of None \<Rightarrow> []
      | Some addr \<Rightarrow> (case we_inlines E addr of None \<Rightarrow> [] | Some ics \<Rightarrow> ics))"

text \<open>\<open>*on_path.get_mut(name).unwrap() -= 1\<close> and the removal of an entry that has become zero. Counts stay below the
  length of the path, so only the step down from zero could wrap.\<close>

definition leave_path :: "string \<Rightarrow> (string \<rightharpoonup> nat) \<Rightarrow> (string \<rightharpoonup> nat) option" where
  "leave_path nm on_path =
     (case on_path nm of None \<Rightarrow> None
      | Some c \<Rightarrow> let d = (if c = 0 then 2 ^ 32 - 1 else c - 1) in Some (on_path(nm := (if d = 0 then None else Some d))))"

function (sequential) walk_r ::
    "walk_env \<Rightarrow> string \<Rightarrow> (string \<rightharpoonup> nat) \<Rightarrow> stack_event list \<Rightarrow> nat \<Rightarrow> ((string \<rightharpoonup> nat) \<times> stack_event list) option"
  and walk_each ::
    "walk_env \<Rightarrow> string list \<Rightarrow> (string \<rightharpoonup> nat) \<Rightarrow> stack_event list \<Rightarrow> nat \<Rightarrow> ((string \<rightharpoonup> nat) \<times> stack_event list) option" where
  "walk_r E nm on_path ev deep =
     (if length ev \<ge> MAX_EVENTS \<or> deep > MAX_DEPTH then Some (on_path, ev)
      else if path_count on_path nm \<ge> max (unat (bound_of E nm)) 1 \<and> path_count on_path nm > 0
        then Some (on_path, ev @ [LoopE nm])
      else case stack_by_name (we_frames E) nm of
             None \<Rightarrow> Some (on_path, ev @ [UnknownE nm])
           | Some sz \<Rightarrow>
               Option.bind (walk_each E (targets_of E nm) (on_path(nm \<mapsto> path_count on_path nm + 1))
                 (emit_each (inlines_of E nm) (ev @ [PushE nm sz])) (deep + 1)) (\<lambda>(on_path, ev).
               map_option (\<lambda>on_path. (on_path, ev @ [PopE])) (leave_path nm on_path)))"
| "walk_each E [] on_path ev deep = Some (on_path, ev)"
| "walk_each E (t # ts) on_path ev deep =
     Option.bind (walk_r E t on_path ev deep) (\<lambda>(on_path, ev). walk_each E ts on_path ev deep)"
  by pat_completeness auto
termination
  by (relation "inv_image (less_than <*lex*> less_than)
      (case_sum (\<lambda>(E, nm, p, ev, d). (MAX_DEPTH + 1 - d, 0)) (\<lambda>(E, ts, p, ev, d). (MAX_DEPTH + 1 - d, length ts + 1)))")
    auto

declare walk_r.simps [simp del]

definition walk_events :: "walk_env \<Rightarrow> string \<Rightarrow> stack_event list option" where
  "walk_events E entry = map_option snd (walk_r E entry Map.empty [] 0)"

subsection \<open>Rectangles\<close>

datatype rect_kind = RealRect | InlinedRect

record frame_rect =
  fb_name :: string
  fb_start :: nat
  fb_end :: nat
  fb_lo :: nat
  fb_hi :: nat
  fb_kind :: rect_kind

datatype marker_kind = LoopMark | UnknownMark

record frame_marker =
  fm_name :: string
  fm_at :: nat
  fm_offset :: nat
  fm_kind :: marker_kind

text \<open>The two stacks have their top first.\<close>

record rect_state =
  sk_real :: "(nat \<times> nat \<times> nat \<times> string) list"
  sk_inlined :: "(nat \<times> nat \<times> nat \<times> string) list"
  sk_cur :: nat
  sk_peak :: nat
  sk_rects :: "frame_rect list"
  sk_markers :: "frame_marker list"

definition closed_rect :: "rect_kind \<Rightarrow> nat \<Rightarrow> nat \<times> nat \<times> nat \<times> string \<Rightarrow> frame_rect" where
  "closed_rect k i r = (case r of (start, lo, hi, nm) \<Rightarrow>
     \<lparr>fb_name = nm, fb_start = start, fb_end = i, fb_lo = lo, fb_hi = hi, fb_kind = k\<rparr>)"

definition as_i64 :: "nat \<Rightarrow> int" where "as_i64 n = (if n < 2 ^ 63 then int n else int n - 2 ^ 64)"
definition as_u64 :: "int \<Rightarrow> nat" where "as_u64 z = nat (z mod 2 ^ 64)"

definition parent_lo :: "rect_state \<Rightarrow> nat" where
  "parent_lo st = (case sk_real st of [] \<Rightarrow> 0 | (_, lo, _, _) # _ \<Rightarrow> lo)"

definition parent_hi :: "rect_state \<Rightarrow> nat" where
  "parent_hi st = (case sk_real st of [] \<Rightarrow> 2 ^ 64 - 1 | (_, _, hi, _) # _ \<Rightarrow> hi)"

definition inlined_range :: "rect_state \<Rightarrow> int \<Rightarrow> int \<Rightarrow> nat \<times> nat" where
  "inlined_range st frame_lo frame_hi =
     (let base = as_i64 (parent_lo st);
          lo = as_u64 (max (wrap_i64 (base + frame_lo)) base);
          hi = as_u64 (max (wrap_i64 (base + frame_hi)) (wrap_i64 (as_i64 lo + 1)))
      in (lo, min hi (parent_hi st)))"

fun rect_step :: "nat \<Rightarrow> rect_state \<Rightarrow> stack_event \<Rightarrow> rect_state" where
  "rect_step i st (PushE nm sz) =
     (let hi = (sk_cur st + sz) mod 2 ^ 64
      in st\<lparr>sk_cur := hi, sk_peak := max (sk_peak st) hi, sk_real := (i, sk_cur st, hi, nm) # sk_real st\<rparr>)"
| "rect_step i st PopE =
     (case sk_real st of [] \<Rightarrow> st
      | r # rs \<Rightarrow> st\<lparr>sk_real := rs, sk_rects := sk_rects st @ [closed_rect RealRect i r], sk_cur := fst (snd r)\<rparr>)"
| "rect_step i st (InlinedPush nm frame_lo frame_hi) =
     (case inlined_range st frame_lo frame_hi of (lo, hi) \<Rightarrow> st\<lparr>sk_inlined := (i, lo, hi, nm) # sk_inlined st\<rparr>)"
| "rect_step i st InlinedPop =
     (case sk_inlined st of [] \<Rightarrow> st
      | r # rs \<Rightarrow> st\<lparr>sk_inlined := rs, sk_rects := sk_rects st @ [closed_rect InlinedRect i r]\<rparr>)"
| "rect_step i st (LoopE nm) =
     st\<lparr>sk_markers := sk_markers st @ [\<lparr>fm_name = nm, fm_at = i, fm_offset = sk_cur st, fm_kind = LoopMark\<rparr>]\<rparr>"
| "rect_step i st (UnknownE nm) =
     st\<lparr>sk_markers := sk_markers st @ [\<lparr>fm_name = nm, fm_at = i, fm_offset = sk_cur st, fm_kind = UnknownMark\<rparr>]\<rparr>"

fun rect_run :: "nat \<Rightarrow> rect_state \<Rightarrow> stack_event list \<Rightarrow> rect_state" where
  "rect_run i st [] = st"
| "rect_run i st (e # es) = rect_run (Suc i) (rect_step i st e) es"

definition rect_start :: rect_state where
  "rect_start = \<lparr>sk_real = [], sk_inlined = [], sk_cur = 0, sk_peak = 0, sk_rects = [], sk_markers = []\<rparr>"

definition stack_rects :: "stack_event list \<Rightarrow> frame_rect list \<times> frame_marker list \<times> nat" where
  "stack_rects events =
     (let st = rect_run 0 rect_start events
      in (sk_rects st @ List.map (closed_rect RealRect (length events)) (sk_real st)
         @ List.map (closed_rect InlinedRect (length events)) (sk_inlined st), sk_markers st, sk_peak st))"

subsection \<open>The x axis\<close>

definition STEP_MIN :: u64 where "STEP_MIN = 16"
definition STEP_MAX :: u64 where "STEP_MAX = 32 * 1024"

definition clamp_step :: "u64 \<Rightarrow> u64" where
  "clamp_step w = (if w < STEP_MIN then STEP_MIN else if w > STEP_MAX then STEP_MAX else w)"

fun x_step :: "stack_event \<Rightarrow> u64" where
  "x_step (PushE nm sz) = clamp_step (of_nat sz)"
| "x_step (InlinedPush nm frame_lo frame_hi) = clamp_step (of_int (max (wrap_i64 (frame_hi - frame_lo)) 0))"
| "x_step _ = STEP_MIN"

fun x_positions :: "u64 \<Rightarrow> stack_event list \<Rightarrow> u64 list" where
  "x_positions x [] = [x]"
| "x_positions x (e # es) = x # x_positions (x + x_step e) es"

definition stack_event_x :: "stack_event list \<Rightarrow> u64 list \<times> u64" where
  "stack_event_x events = (let xs = x_positions 0 events in (xs, List.last xs))"

subsection \<open>The command line\<close>

fun parse_bounds_from :: "bound_table \<times> string option \<times> string list \<Rightarrow> string list \<Rightarrow> bound_table \<times> string option \<times> string list" where
  "parse_bounds_from r [] = r"
| "parse_bounds_from (b, entry, pos) [a] = (b, entry, pos @ [a])"
| "parse_bounds_from (b, entry, pos) (a # v # args) =
     (if a = ''--bound''
      then parse_bounds_from
        (case split_once (CHR ''='') v of None \<Rightarrow> b
         | Some (fname, n) \<Rightarrow> (case parse_u32 n of None \<Rightarrow> b | Some n \<Rightarrow> b\<lparr>bd_map := (bd_map b)(fname \<mapsto> n)\<rparr>), entry, pos) args
      else if a = ''--bound-default''
      then parse_bounds_from (case parse_u32 v of None \<Rightarrow> b | Some n \<Rightarrow> b\<lparr>bd_default := n\<rparr>, entry, pos) args
      else if a = ''--entry'' then parse_bounds_from (b, Some v, pos) args
      else parse_bounds_from (b, entry, pos @ [a]) (v # args))"

definition parse_bounds :: "string list \<Rightarrow> bound_table \<times> string option \<times> string list" where
  "parse_bounds args = parse_bounds_from (\<lparr>bd_map = Map.empty, bd_default = 1\<rparr>, None, []) args"

subsection \<open>Call paths\<close>

definition frame_size :: "walk_env \<Rightarrow> string \<Rightarrow> nat" where
  "frame_size E nm = (case stack_by_name (we_frames E) nm of Some s \<Rightarrow> s | None \<Rightarrow> 0)"

definition path_bytes :: "walk_env \<Rightarrow> string list \<Rightarrow> nat" where
  "path_bytes E ns = sum_list (List.map (frame_size E) ns)"

text \<open>A chain of calls from the first to the last of the names, each with a known frame, none more often than its bound.\<close>

definition call_path :: "walk_env \<Rightarrow> string list \<Rightarrow> bool" where
  "call_path E ns \<longleftrightarrow> ns \<noteq> [] \<and> successively (\<lambda>a b. b \<in> set (targets_of E a)) ns \<and>
     (\<forall>n \<in> set ns. stack_by_name (we_frames E) n \<noteq> None \<and> count_list ns n \<le> max (unat (bound_of E n)) 1)"

definition admits :: "walk_env \<Rightarrow> (string \<Rightarrow> nat) \<Rightarrow> string \<Rightarrow> bool" where
  "admits E c n \<longleftrightarrow> stack_by_name (we_frames E) n \<noteq> None \<and> c n < max (unat (bound_of E n)) 1"

fun goes :: "walk_env \<Rightarrow> (string \<Rightarrow> nat) \<Rightarrow> string list \<Rightarrow> bool" where
  "goes E c [] = False"
| "goes E c (n # ns) = (admits E c n \<and> (ns = [] \<or> hd ns \<in> set (targets_of E n) \<and> goes E (c(n := Suc (c n))) ns))"

lemma goes_iff:
  "goes E c ns \<longleftrightarrow> ns \<noteq> [] \<and> successively (\<lambda>a b. b \<in> set (targets_of E a)) ns \<and>
     (\<forall>n \<in> set ns. stack_by_name (we_frames E) n \<noteq> None \<and> c n + count_list ns n \<le> max (unat (bound_of E n)) 1)"
proof (induction ns arbitrary: c)
  case (Cons n ns)
  show ?case
  proof (cases ns)
    case Nil
    then show ?thesis by (auto simp: admits_def)
  next
    case (Cons m ms)
    then have hd: "ns \<noteq> []" "hd ns = m" by simp_all
    then have "goes E c (n # ns) \<longleftrightarrow> admits E c n \<and> hd ns \<in> set (targets_of E n) \<and> goes E (c(n := Suc (c n))) ns"
      by simp
    also have "\<dots> \<longleftrightarrow> admits E c n \<and> m \<in> set (targets_of E n) \<and> successively (\<lambda>a b. b \<in> set (targets_of E a)) ns \<and>
        (\<forall>k \<in> set ns. stack_by_name (we_frames E) k \<noteq> None \<and> (c(n := Suc (c n))) k + count_list ns k \<le> max (unat (bound_of E k)) 1)"
      using hd unfolding Cons.IH by simp
    also have "\<dots> \<longleftrightarrow> successively (\<lambda>a b. b \<in> set (targets_of E a)) (n # ns) \<and>
        (\<forall>k \<in> set (n # ns). stack_by_name (we_frames E) k \<noteq> None \<and> c k + count_list (n # ns) k \<le> max (unat (bound_of E k)) 1)"
      by (auto simp: Cons admits_def Suc_le_eq)
    finally show ?thesis by simp
  qed
qed simp

text \<open>The frames of the paths from a name, above \<open>cur\<close> bytes of stack, as name, low and high offset.\<close>

definition places :: "walk_env \<Rightarrow> (string \<Rightarrow> nat) \<Rightarrow> string \<Rightarrow> nat \<Rightarrow> nat \<Rightarrow> (string \<times> nat \<times> nat) set" where
  "places E c nm cur d =
     {(List.last ns, cur + path_bytes E (butlast ns), cur + path_bytes E ns) | ns.
        goes E c ns \<and> hd ns = nm \<and> length ns \<le> MAX_DEPTH + 1 - d}"

lemma path_bytes_simps [simp]: "path_bytes E [] = 0" "path_bytes E (n # ns) = frame_size E n + path_bytes E ns"
  by (simp_all add: path_bytes_def)

lemma places_stop: "\<not> admits E c nm \<or> MAX_DEPTH < d \<Longrightarrow> places E c nm cur d = {}"
proof -
  assume a: "\<not> admits E c nm \<or> MAX_DEPTH < d"
  have "\<not> (goes E c ns \<and> hd ns = nm \<and> length ns \<le> MAX_DEPTH + 1 - d)" for ns
    using a by (cases ns) auto
  then show ?thesis by (simp add: places_def)
qed

lemma places_step:
  assumes "admits E c nm" "d \<le> MAX_DEPTH"
  shows "places E c nm cur d = insert (nm, cur, cur + frame_size E nm)
    (\<Union>t \<in> set (targets_of E nm). places E (c(nm := Suc (c nm))) t (cur + frame_size E nm) (Suc d))" (is "?l = ?r")
proof (intro subset_antisym subsetI)
  fix x assume "x \<in> ?l"
  then obtain ms where ms: "goes E c ms" "hd ms = nm" "length ms \<le> MAX_DEPTH + 1 - d"
    "x = (List.last ms, cur + path_bytes E (butlast ms), cur + path_bytes E ms)"
    by (auto simp: places_def)
  then obtain ns where [simp]: "ms = nm # ns" by (cases ms) auto
  have ns: "goes E c (nm # ns)" "length ns \<le> MAX_DEPTH - d"
    "x = (List.last (nm # ns), cur + path_bytes E (butlast (nm # ns)), cur + path_bytes E (nm # ns))"
    using ms by simp_all
  show "x \<in> ?r"
  proof (cases "ns = []")
    case False
    then have "hd ns \<in> set (targets_of E nm)" "goes E (c(nm := Suc (c nm))) ns" using ns(1) by simp_all
    moreover have "x = (List.last ns, cur + frame_size E nm + path_bytes E (butlast ns), cur + frame_size E nm + path_bytes E ns)"
      using ns(3) False by (simp add: add.assoc)
    ultimately show ?thesis using ns(2) by (auto simp: places_def)
  qed (use ns in simp)
next
  fix x assume "x \<in> ?r"
  then consider "x = (nm, cur, cur + frame_size E nm)"
    | t ns where "t \<in> set (targets_of E nm)" "goes E (c(nm := Suc (c nm))) ns" "hd ns = t" "length ns \<le> MAX_DEPTH - d"
      "x = (List.last ns, cur + frame_size E nm + path_bytes E (butlast ns), cur + frame_size E nm + path_bytes E ns)"
    by (auto simp: places_def)
  then show "x \<in> ?l"
  proof cases
    case 1
    then show ?thesis using assms by (auto simp: places_def intro!: exI [of _ "[nm]"])
  next
    case (2 t ns)
    then have "ns \<noteq> []" by auto
    then show ?thesis using 2 assms by (auto simp: places_def add.assoc Suc_diff_le intro!: exI [of _ "nm # ns"])
  qed
qed

subsection \<open>What a stretch of events draws\<close>

definition reals :: "frame_rect list \<Rightarrow> (string \<times> nat \<times> nat) set" where
  "reals rs = (\<lambda>r. (fb_name r, fb_lo r, fb_hi r)) ` {r \<in> set rs. fb_kind r = RealRect}"

definition tops :: "(string \<times> nat \<times> nat) set \<Rightarrow> nat set" where "tops X = (\<lambda>(n, lo, hi). hi) ` X"

lemma reals_simps [simp]:
  "reals [] = {}" "reals (xs @ ys) = reals xs \<union> reals ys"
  "reals (r # rs) = (if fb_kind r = RealRect then insert (fb_name r, fb_lo r, fb_hi r) (reals rs) else reals rs)"
  by (auto simp: reals_def)

lemma finite_reals [simp]: "finite (reals rs)" by (simp add: reals_def)

lemma tops_simps [simp]: "tops {} = {}" "tops (X \<union> Y) = tops X \<union> tops Y" "tops (insert (n, lo, hi) X) = insert hi (tops X)"
  by (simp_all add: tops_def image_Un)

lemma finite_tops: "finite X \<Longrightarrow> finite (tops X)" by (simp add: tops_def)

text \<open>Played from a state whose stack ends at \<open>cur\<close>, the events add rectangles with the real ones \<open>X\<close> and leave the stack as it was.\<close>

definition grown :: "rect_state \<Rightarrow> frame_rect list \<Rightarrow> frame_marker list \<Rightarrow> (string \<times> nat \<times> nat) set \<Rightarrow> rect_state" where
  "grown st rs ms X = st\<lparr>sk_rects := sk_rects st @ rs, sk_markers := sk_markers st @ ms,
     sk_peak := Max (insert (sk_peak st) (tops X))\<rparr>"

definition draws :: "nat \<Rightarrow> stack_event list \<Rightarrow> (string \<times> nat \<times> nat) set \<Rightarrow> bool" where
  "draws cur es X \<longleftrightarrow> finite X \<and> (\<forall>i st. sk_cur st = cur \<and> parent_lo st \<le> cur \<longrightarrow>
     (\<exists>rs ms. rect_run i st es = grown st rs ms X \<and> reals rs = X))"

lemma drawsI:
  "finite X \<Longrightarrow> (\<And>i st. sk_cur st = cur \<Longrightarrow> parent_lo st \<le> cur \<Longrightarrow>
     \<exists>rs ms. rect_run i st es = grown st rs ms X \<and> reals rs = X) \<Longrightarrow> draws cur es X"
  by (simp add: draws_def)

lemma draws_run:
  "draws cur es X \<Longrightarrow> sk_cur st = cur \<Longrightarrow> parent_lo st \<le> cur \<Longrightarrow>
   \<exists>rs ms. rect_run i st es = grown st rs ms X \<and> reals rs = X"
  by (simp add: draws_def)

lemma draws_finite: "draws cur es X \<Longrightarrow> finite X" by (simp add: draws_def)

lemma grown_simps [simp]:
  "sk_cur (grown st rs ms X) = sk_cur st" "sk_real (grown st rs ms X) = sk_real st"
  "sk_inlined (grown st rs ms X) = sk_inlined st" "parent_lo (grown st rs ms X) = parent_lo st"
  "grown st [] [] {} = st"
  by (simp_all add: grown_def parent_lo_def)

lemma grown_grown:
  assumes "finite X" "finite Y"
  shows "grown (grown st rs ms X) rs' ms' Y = grown st (rs @ rs') (ms @ ms') (X \<union> Y)"
proof -
  have "Max (insert (Max (insert (sk_peak st) (tops X))) (tops Y)) = Max (insert (sk_peak st) (tops X) \<union> tops Y)"
    using finite_tops [OF assms(1)] finite_tops [OF assms(2)]
    by (cases "tops Y = {}") (simp_all del: Un_insert_left add: Max_Un)
  then show ?thesis by (simp add: grown_def)
qed

lemma rect_run_append: "rect_run i st (es @ fs) = rect_run (i + length es) (rect_run i st es) fs"
  by (induction es arbitrary: i st) simp_all

lemma draws_nil: "draws cur [] {}"
  by (rule drawsI) (auto intro!: exI [of _ "[]"])

lemma draws_append:
  assumes "draws cur es X" "draws cur fs Y"
  shows "draws cur (es @ fs) (X \<union> Y)"
proof (rule drawsI)
  fix i st
  assume st: "sk_cur st = cur" "parent_lo st \<le> cur"
  obtain rs ms where 1: "rect_run i st es = grown st rs ms X" "reals rs = X"
    using draws_run [OF assms(1) st] by blast
  obtain rs' ms' where 2: "rect_run (i + length es) (grown st rs ms X) fs = grown (grown st rs ms X) rs' ms' Y" "reals rs' = Y"
    using draws_run [OF assms(2), of "grown st rs ms X" "i + length es"] st by auto
  have "rect_run i st (es @ fs) = grown st (rs @ rs') (ms @ ms') (X \<union> Y)"
    using 1 2 grown_grown draws_finite [OF assms(1)] draws_finite [OF assms(2)] by (simp add: rect_run_append)
  then show "\<exists>rs ms. rect_run i st (es @ fs) = grown st rs ms (X \<union> Y) \<and> reals rs = X \<union> Y"
    using 1(2) 2(2) by (intro exI [of _ "rs @ rs'"] exI [of _ "ms @ ms'"]) simp
qed (use draws_finite assms in blast)

lemma grown_mark: "st\<lparr>sk_markers := sk_markers st @ ms\<rparr> = grown st [] ms {}"
  by (simp add: grown_def)

lemma draws_mark: "draws cur [LoopE nm] {}" "draws cur [UnknownE nm] {}"
  by (auto simp: draws_def grown_mark)

lemma draws_frame:
  assumes d: "draws (cur + sz) es X" and sz: "cur + sz < 2 ^ 64"
  shows "draws cur (PushE nm sz # es @ [PopE]) (insert (nm, cur, cur + sz) X)"
proof (rule drawsI)
  fix i st
  assume st: "sk_cur st = cur" "parent_lo st \<le> cur"
  let ?st = "st\<lparr>sk_cur := cur + sz, sk_peak := max (sk_peak st) (cur + sz), sk_real := (i, cur, cur + sz, nm) # sk_real st\<rparr>"
  let ?r = "closed_rect RealRect (Suc i + length es) (i, cur, cur + sz, nm)"
  have push: "rect_step i st (PushE nm sz) = ?st" using st sz by (simp add: Let_def)
  obtain rs ms where r: "rect_run (Suc i) ?st es = grown ?st rs ms X" "reals rs = X"
    using draws_run [OF d, of ?st "Suc i"] by (auto simp: parent_lo_def)
  have "Max (insert (max (sk_peak st) (cur + sz)) (tops X)) = Max (insert (sk_peak st) (insert (cur + sz) (tops X)))"
    using finite_tops [OF draws_finite [OF d]] by (cases "tops X = {}") (simp_all add: ac_simps)
  then have pop: "rect_step (Suc i + length es) (grown ?st rs ms X) PopE = grown st (rs @ [?r]) ms (insert (nm, cur, cur + sz) X)"
    using st by (simp add: grown_def)
  have "rect_run i st (PushE nm sz # es @ [PopE]) = grown st (rs @ [?r]) ms (insert (nm, cur, cur + sz) X)"
    using push r(1) pop by (simp del: rect_step.simps add: rect_run_append)
  moreover have "reals (rs @ [?r]) = insert (nm, cur, cur + sz) X" using r(2) by (simp add: closed_rect_def)
  ultimately show "\<exists>rs ms. rect_run i st (PushE nm sz # es @ [PopE]) = grown st rs ms (insert (nm, cur, cur + sz) X) \<and>
      reals rs = insert (nm, cur, cur + sz) X"
    by blast
qed (use draws_finite d in simp)

lemma draws_inlined:
  assumes d: "draws cur es {}"
  shows "draws cur (InlinedPush nm a b # es @ [InlinedPop]) {}"
proof (rule drawsI)
  fix i st
  assume st: "sk_cur st = cur" "parent_lo st \<le> cur"
  obtain lo hi where lh: "inlined_range st a b = (lo, hi)" by fastforce
  let ?st = "st\<lparr>sk_inlined := (i, lo, hi, nm) # sk_inlined st\<rparr>"
  let ?r = "closed_rect InlinedRect (Suc i + length es) (i, lo, hi, nm)"
  have push: "rect_step i st (InlinedPush nm a b) = ?st" by (simp add: lh)
  obtain rs ms where r: "rect_run (Suc i) ?st es = grown ?st rs ms {}" "reals rs = {}"
    using draws_run [OF d, of ?st "Suc i"] st by (auto simp: parent_lo_def)
  have pop: "rect_step (Suc i + length es) (grown ?st rs ms {}) InlinedPop = grown st (rs @ [?r]) ms {}"
    by (simp add: grown_def)
  have "rect_run i st (InlinedPush nm a b # es @ [InlinedPop]) = grown st (rs @ [?r]) ms {}"
    using push r(1) pop by (simp del: rect_step.simps add: rect_run_append)
  moreover have "reals (rs @ [?r]) = {}" using r(2) by (simp add: closed_rect_def)
  ultimately show "\<exists>rs ms. rect_run i st (InlinedPush nm a b # es @ [InlinedPop]) = grown st rs ms {} \<and> reals rs = {}"
    by blast
qed simp

lemma emit_draws:
  "\<exists>es. emit_inlined ic ev = ev @ es \<and> (\<forall>cur. draws cur es {})"
  "\<exists>es. emit_each ics ev = ev @ es \<and> (\<forall>cur. draws cur es {})"
proof (induction ic ev and ics ev rule: emit_inlined_emit_each.induct)
  case (1 nm a b children ev)
  show ?case
  proof (cases "length ev \<ge> MAX_EVENTS")
    case True
    then show ?thesis by (simp add: draws_nil)
  next
    case False
    let ?v = "wrap_i64 (b - a) \<ge> INLINED_MIN_BYTES"
    obtain es where es: "emit_each children (if ?v then ev @ [InlinedPush nm a b] else ev)
        = (if ?v then ev @ [InlinedPush nm a b] else ev) @ es" "\<forall>cur. draws cur es {}"
      using "1.IH" [OF False refl] by blast
    let ?es = "if ?v then InlinedPush nm a b # es @ [InlinedPop] else es"
    have "emit_inlined (InlinedCall nm a b children) ev = ev @ ?es"
      using es(1) False by (cases ?v) (simp_all add: Let_def)
    moreover have "\<forall>cur. draws cur ?es {}" using es(2) draws_inlined by simp
    ultimately show ?thesis by blast
  qed
next
  case (2 ev)
  then show ?case by (simp add: draws_nil)
next
  case (3 c cs ev)
  obtain es where es: "emit_inlined c ev = ev @ es" "\<forall>cur. draws cur es {}" using 3 by auto
  obtain fs where fs: "emit_each cs (ev @ es) = (ev @ es) @ fs" "\<forall>cur. draws cur fs {}"
    using "3.IH"(2) es(1) by auto
  have "\<forall>cur. draws cur (es @ fs) {}" using es(2) fs(2) draws_append [of _ es "{}" fs "{}"] by simp
  then show ?case using es(1) fs(1) by auto
qed

definition no_zero :: "(string \<rightharpoonup> nat) \<Rightarrow> bool" where "no_zero p \<longleftrightarrow> (\<forall>n. p n \<noteq> Some 0)"

lemma path_count_upd [simp]: "path_count (p(nm \<mapsto> k)) = (path_count p)(nm := k)"
  by (simp add: fun_eq_iff path_count_def)

lemma leave_entered: "no_zero p \<Longrightarrow> leave_path nm (p(nm \<mapsto> Suc (path_count p nm))) = Some p"
  by (cases "p nm") (auto simp: leave_path_def path_count_def no_zero_def fun_eq_iff intro!: gr0I)

definition stays_low :: "(string \<times> nat \<times> nat) set \<Rightarrow> bool" where
  "stays_low X \<longleftrightarrow> (\<forall>(n, lo, hi) \<in> X. hi < 2 ^ 64)"

lemma stays_low_simps [simp]:
  "stays_low {}" "stays_low (X \<union> Y) \<longleftrightarrow> stays_low X \<and> stays_low Y"
  "stays_low (insert (n, lo, hi) X) \<longleftrightarrow> hi < 2 ^ 64 \<and> stays_low X"
  by (simp_all add: stays_low_def ball_Un)

lemma walk_draws:
  "no_zero p \<Longrightarrow> \<exists>es. walk_r E nm p ev d = Some (p, ev @ es) \<and>
     (length (ev @ es) < MAX_EVENTS \<longrightarrow> (\<forall>cur. stays_low (places E (path_count p) nm cur d) \<longrightarrow>
        draws cur es (places E (path_count p) nm cur d)))"
  "no_zero p \<Longrightarrow> \<exists>es. walk_each E ts p ev d = Some (p, ev @ es) \<and>
     (length (ev @ es) < MAX_EVENTS \<longrightarrow> (\<forall>cur. stays_low (\<Union>t \<in> set ts. places E (path_count p) t cur d) \<longrightarrow>
        draws cur es (\<Union>t \<in> set ts. places E (path_count p) t cur d)))"
proof (induction E nm p ev d and E ts p ev d rule: walk_r_walk_each.induct)
  case (1 E nm p ev d)
  let ?c = "path_count p"
  show ?case
  proof (cases "length ev \<ge> MAX_EVENTS \<or> d > MAX_DEPTH")
    case True
    then show ?thesis by (subst walk_r.simps) (auto simp: draws_nil places_stop)
  next
    case go: False
    show ?thesis
    proof (cases "?c nm \<ge> max (unat (bound_of E nm)) 1 \<and> ?c nm > 0")
      case True
      then have "\<not> admits E ?c nm" by (simp add: admits_def not_less)
      then show ?thesis using go True by (subst walk_r.simps) (simp add: draws_mark places_stop)
    next
      case free: False
      show ?thesis
      proof (cases "stack_by_name (we_frames E) nm")
        case None
        then have "\<not> admits E ?c nm" by (simp add: admits_def)
        then show ?thesis using go free None by (subst walk_r.simps) (auto simp: draws_mark places_stop)
      next
        case (Some sz)
        have adm: "admits E ?c nm" "frame_size E nm = sz" using free Some by (auto simp: admits_def frame_size_def)
        let ?ev = "ev @ [PushE nm sz]" and ?p = "p(nm \<mapsto> Suc (?c nm))"
        obtain ins where is1: "emit_each (inlines_of E nm) ?ev = ?ev @ ins" "\<forall>cur. draws cur ins {}"
          using emit_draws(2) by blast
        have nz: "no_zero ?p" using "1.prems" by (simp add: no_zero_def)
        let ?X = "\<lambda>cur. \<Union>t \<in> set (targets_of E nm). places E (?c(nm := Suc (?c nm))) t cur (Suc d)"
        obtain es where es: "walk_each E (targets_of E nm) ?p (?ev @ ins) (Suc d) = Some (?p, (?ev @ ins) @ es)"
          "length ((?ev @ ins) @ es) < MAX_EVENTS \<longrightarrow> (\<forall>cur. stays_low (?X cur) \<longrightarrow> draws cur es (?X cur))"
          using "1.IH" [OF go free Some] nz unfolding is1(1) Suc_eq_plus1 path_count_upd by blast
        let ?es = "PushE nm sz # (ins @ es) @ [PopE]"
        have "walk_r E nm p ev d = Some (p, ev @ ?es)"
          using go free Some is1(1) es(1) leave_entered [OF "1.prems", of nm]
          by (subst walk_r.simps) simp
        moreover have "draws cur ?es (places E ?c nm cur d)"
          if len: "length (ev @ ?es) < MAX_EVENTS" and low: "stays_low (places E ?c nm cur d)" for cur
        proof -
          have pl: "places E ?c nm cur d = insert (nm, cur, cur + sz) (?X (cur + sz))"
            using places_step [OF adm(1), of d cur] go adm(2) by simp
          with low have top: "cur + sz < 2 ^ 64" "stays_low (?X (cur + sz))" by simp_all
          have "draws (cur + sz) ins {}" using is1(2) by simp
          moreover have "draws (cur + sz) es (?X (cur + sz))" using es(2) len top by simp
          ultimately have "draws (cur + sz) (ins @ es) (?X (cur + sz))" using draws_append by fastforce
          then show ?thesis unfolding pl using top(1) by (intro draws_frame) simp_all
        qed
        ultimately show ?thesis by blast
      qed
    qed
  qed
next
  case (2 E p ev d)
  then show ?case by (simp add: draws_nil)
next
  case (3 E t ts p ev d)
  obtain es where es: "walk_r E t p ev d = Some (p, ev @ es)"
    "length (ev @ es) < MAX_EVENTS \<longrightarrow> (\<forall>cur. stays_low (places E (path_count p) t cur d) \<longrightarrow>
        draws cur es (places E (path_count p) t cur d))"
    using "3.IH"(1) "3.prems" by blast
  obtain fs where fs: "walk_each E ts p (ev @ es) d = Some (p, (ev @ es) @ fs)"
    "length ((ev @ es) @ fs) < MAX_EVENTS \<longrightarrow> (\<forall>cur. stays_low (\<Union>t \<in> set ts. places E (path_count p) t cur d) \<longrightarrow>
        draws cur fs (\<Union>t \<in> set ts. places E (path_count p) t cur d))"
    using "3.IH"(2) [OF es(1) refl] "3.prems" by blast
  have "draws cur (es @ fs) (\<Union>u \<in> set (t # ts). places E (path_count p) u cur d)"
    if "length (ev @ es @ fs) < MAX_EVENTS" "stays_low (\<Union>u \<in> set (t # ts). places E (path_count p) u cur d)" for cur
    using that es(2) fs(2) draws_append by simp
  then show ?case using es(1) fs(1) by (intro exI [of _ "es @ fs"]) simp
qed

subsection \<open>The property\<close>

lemma rect_run_reals:
  assumes "draws 0 es X"
  shows "\<exists>rects markers. stack_rects es = (rects, markers, Max (insert 0 (tops X))) \<and> reals rects = X"
proof -
  have "sk_cur rect_start = 0" "parent_lo rect_start \<le> 0" by (simp_all add: rect_start_def parent_lo_def)
  from draws_run [OF assms this] obtain rs ms where "rect_run 0 rect_start es = grown rect_start rs ms X" "reals rs = X"
    by blast
  then show ?thesis by (simp add: stack_rects_def grown_def rect_start_def Let_def)
qed

lemma places_entry:
  "places E (\<lambda>n. 0) nm 0 0 = {(List.last ns, path_bytes E (butlast ns), path_bytes E ns) | ns.
     call_path E ns \<and> hd ns = nm \<and> length ns \<le> MAX_DEPTH + 1}"
  by (auto simp: places_def goes_iff call_path_def)

text \<open>C37: stack-svg draws the call paths. As long as it stays below its limit on events, the walk from the entry
  returns, and the rectangles of real frames are exactly the frames at the ends of the call paths of at most 65
  functions (each function at most as often as its bound) with the bytes of stack below and including them; the peak is
  the largest sum of frames along such a path. The sums are those of 64 bits, and nothing is asked of the inlined calls.\<close>

theorem stack_paths_drawn:
  assumes low: "\<And>ns. call_path E ns \<Longrightarrow> hd ns = entry \<Longrightarrow> length ns \<le> MAX_DEPTH + 1 \<Longrightarrow> path_bytes E ns < 2 ^ 64"
  shows "\<exists>ev. walk_events E entry = Some ev \<and> (length ev < MAX_EVENTS \<longrightarrow>
    (\<exists>rects markers peak. stack_rects ev = (rects, markers, peak) \<and>
       reals rects = {(List.last ns, path_bytes E (butlast ns), path_bytes E ns) | ns.
         call_path E ns \<and> hd ns = entry \<and> length ns \<le> MAX_DEPTH + 1} \<and>
       (\<forall>ns. call_path E ns \<and> hd ns = entry \<and> length ns \<le> MAX_DEPTH + 1 \<longrightarrow> path_bytes E ns \<le> peak) \<and>
       (peak = 0 \<or> (\<exists>ns. call_path E ns \<and> hd ns = entry \<and> length ns \<le> MAX_DEPTH + 1 \<and> path_bytes E ns = peak))))"
proof -
  let ?X = "places E (\<lambda>n. 0) entry 0 0"
  have "path_count Map.empty = (\<lambda>n. 0)" "no_zero Map.empty" by (simp_all add: fun_eq_iff path_count_def no_zero_def)
  then obtain es where es: "walk_r E entry Map.empty [] 0 = Some (Map.empty, es)"
    "length es < MAX_EVENTS \<longrightarrow> stays_low ?X \<longrightarrow> draws 0 es ?X"
    using walk_draws(1) [of Map.empty E entry "[]" 0] by auto
  have "stays_low ?X" using low by (auto simp: stays_low_def places_entry)
  have peak: "\<exists>rects markers peak. stack_rects es = (rects, markers, peak) \<and> reals rects = ?X \<and>
      (\<forall>ns. call_path E ns \<and> hd ns = entry \<and> length ns \<le> MAX_DEPTH + 1 \<longrightarrow> path_bytes E ns \<le> peak) \<and>
      (peak = 0 \<or> (\<exists>ns. call_path E ns \<and> hd ns = entry \<and> length ns \<le> MAX_DEPTH + 1 \<and> path_bytes E ns = peak))"
    if "length es < MAX_EVENTS"
  proof -
    have d: "draws 0 es ?X" using es(2) that \<open>stays_low ?X\<close> by blast
    then have fin: "finite (tops ?X)" using draws_finite finite_tops by blast
    obtain rects markers where r: "stack_rects es = (rects, markers, Max (insert 0 (tops ?X)))" "reals rects = ?X"
      using rect_run_reals [OF d] by blast
    have t: "path_bytes E ns \<in> tops ?X" if "call_path E ns" "hd ns = entry" "length ns \<le> MAX_DEPTH + 1" for ns
      using that by (force simp: tops_def places_entry)
    have "path_bytes E ns \<le> Max (insert 0 (tops ?X))" if "call_path E ns \<and> hd ns = entry \<and> length ns \<le> MAX_DEPTH + 1" for ns
      using t [of ns] that fin by simp
    moreover have "\<exists>ns. call_path E ns \<and> hd ns = entry \<and> length ns \<le> MAX_DEPTH + 1 \<and> path_bytes E ns = h" if "h \<in> tops ?X" for h
      using that by (auto simp: tops_def places_entry)
    moreover have "Max (insert 0 (tops ?X)) = 0 \<or> Max (insert 0 (tops ?X)) \<in> tops ?X"
      using Max_in [of "insert 0 (tops ?X)"] fin by simp
    ultimately show ?thesis
      using r by (intro exI [of _ rects] exI [of _ markers] exI [of _ "Max (insert 0 (tops ?X))"]) blast
  qed
  have "walk_events E entry = Some es" using es(1) by (simp add: walk_events_def)
  then show ?thesis
    by (rule exI [of _ es, OF conjI, OF _ impI]) (rule peak [unfolded places_entry])
qed

definition small_program :: walk_env where
  "small_program =
     \<lparr>we_calls = [''main'' \<mapsto> [''f'', ''g''], ''f'' \<mapsto> [''f'', ''ext'']],
      we_frames = \<lparr>stack_by_name = [''main'' \<mapsto> 96, ''f'' \<mapsto> 32, ''g'' \<mapsto> 64], addr_by_name = [''main'' \<mapsto> 4096]\<rparr>,
      we_bounds = \<lparr>bd_map = [''f'' \<mapsto> 2], bd_default = 1\<rparr>,
      we_inlines = [4096 \<mapsto> [InlinedCall ''inner'' 8 24 [InlinedCall ''reg'' 0 1 []]]]\<rparr>"

theorem stack_paths_drawn_witness:
  "\<exists>ev rects markers peak. walk_events small_program ''main'' = Some ev \<and> stack_rects ev = (rects, markers, peak) \<and>
     path_bytes small_program [''main'', ''f'', ''f''] \<le> peak \<and> (''g'', 96, 160) \<in> reals rects"
proof -
  let ?E = small_program
  have sizes: "frame_size ?E n \<le> 96" for n by (simp add: frame_size_def small_program_def)
  have "path_bytes ?E ns \<le> 96 * length ns" for ns
  proof (induction ns)
    case (Cons n ns)
    then show ?case using sizes [of n] by simp
  qed simp
  then have low: "path_bytes ?E ns < 2 ^ 64" if "length ns \<le> MAX_DEPTH + 1" for ns
    using that order_le_less_trans [of "path_bytes ?E ns" "96 * length ns" "2 ^ 64"] by (simp add: MAX_DEPTH_def)
  have walk: "walk_events ?E ''main'' = Some
      [PushE ''main'' 96, InlinedPush ''inner'' 8 24, InlinedPop, PushE ''f'' 32, PushE ''f'' 32, LoopE ''f'', UnknownE ''ext'',
       PopE, UnknownE ''ext'', PopE, PushE ''g'' 64, PopE, PopE]" (is "_ = Some ?ev")
    by (simp add: walk_events_def walk_r.simps small_program_def path_count_def bound_of_def inlines_of_def targets_of_def
        leave_path_def wrap_i64_def INLINED_MIN_BYTES_def MAX_DEPTH_def MAX_EVENTS_def)
  have "length ?ev < MAX_EVENTS" by (simp add: MAX_EVENTS_def)
  then obtain rects markers peak where r: "stack_rects ?ev = (rects, markers, peak)"
    "reals rects = {(List.last ns, path_bytes ?E (butlast ns), path_bytes ?E ns) | ns.
         call_path ?E ns \<and> hd ns = ''main'' \<and> length ns \<le> MAX_DEPTH + 1}"
    "\<forall>ns. call_path ?E ns \<and> hd ns = ''main'' \<and> length ns \<le> MAX_DEPTH + 1 \<longrightarrow> path_bytes ?E ns \<le> peak"
    using stack_paths_drawn [of ?E "''main''"] low walk by auto
  have c: "call_path ?E [''main'', ''f'', ''f'']" "call_path ?E [''main'', ''g'']"
    by (simp_all add: call_path_def small_program_def targets_of_def bound_of_def)
  have "(''g'', path_bytes ?E [''main''], path_bytes ?E [''main'', ''g'']) \<in> reals rects"
    unfolding r(2) using c(2) by (intro CollectI exI [of _ "[''main'', ''g'']"]) (simp add: MAX_DEPTH_def)
  moreover have "path_bytes ?E [''main''] = 96" "path_bytes ?E [''main'', ''g''] = 160"
    by (simp_all add: frame_size_def small_program_def)
  moreover have "path_bytes ?E [''main'', ''f'', ''f''] \<le> peak"
    using r(3) c(1) by (simp add: MAX_DEPTH_def del: path_bytes_simps)
  ultimately show ?thesis using walk r(1) by auto
qed

end
