(* ===== verification/Dwarf.thy ===== *)
theory Dwarf
  imports Stackwalk
begin

text \<open>
  The debug information of the linked program as stack-svg and inline-bytes (tools/stack-svg, tools/inline-bytes) use
  it. The gimli crate decodes it; what it hands out is data here: for each unit the tree of its entries (DIEs) with
  their attributes, and what it computes of single attributes. A tree is one that gimli walks to its end. This theory
  has the name map and the inlined calls of stack-svg, the table that theory Stackwalk takes.
\<close>

subsection \<open>What gimli hands out\<close>

datatype die_tag =
    Subprogram | InlinedSubroutine | LexicalBlock | VariableTag | FormalParameter
  | Namespace | StructureType | ClassType | UnionType | EnumerationType
  | Typedef | ConstType | VolatileType | RestrictType | AtomicType
  | PointerType | ReferenceType | RvalueReferenceType | ArrayType | SubrangeType | OtherTag

datatype die_attr =
    AtName | AtLinkageName | AtLowPc | AtHighPc | AtRanges | AtAbstractOrigin
  | AtLocation | AtType | AtByteSize | AtCount | AtUpperBound

text \<open>The operations of a location, up to the first that does not decode.\<close>

datatype frame_op = FrameOffset int | OtherOp | BadOp

datatype attr_val =
    Addr u64 | DebugAddrIndex nat | Udata u64 | Data1 u8 | Data2 u16 | Data4 u32 | Data8 u64
  | UnitRef nat | DebugInfoRef nat | Exprloc "frame_op list" | OtherVal nat

text \<open>An entry: tag, offset in its unit, attributes (\<open>None\<close> does not decode, \<open>Some None\<close> is absent), children.\<close>

datatype die = Die die_tag nat "die_attr \<Rightarrow> attr_val option option" "die list"

fun tag_of :: "die \<Rightarrow> die_tag" where "tag_of (Die t off av ks) = t"
fun off_of :: "die \<Rightarrow> nat" where "off_of (Die t off av ks) = off"
fun attrs_of :: "die \<Rightarrow> die_attr \<Rightarrow> attr_val option option" where "attrs_of (Die t off av ks) = av"
fun die_kids :: "die \<Rightarrow> die list" where "die_kids (Die t off av ks) = ks"

text \<open>A unit: its offset in \<open>.debug_info\<close> (if it is in that section), its length, its tree, and gimli's \<open>attr_string\<close>
  (strict and lossy), \<open>udata_value\<close>, \<open>address\<close> and \<open>die_ranges\<close>, the last as the ranges up to the first error.\<close>

record dwarf_unit =
  du_base :: "nat option"
  du_len :: nat
  du_root :: die
  du_text :: "attr_val \<Rightarrow> string option"
  du_lossy :: "attr_val \<Rightarrow> string option"
  du_udata :: "attr_val \<Rightarrow> u64 option"
  du_address :: "nat \<Rightarrow> u64 option"
  du_ranges :: "die \<Rightarrow> (u64 \<times> u64) list option"

text \<open>An error of gimli ends the pass; a chain of types that never ends overflows the stack.\<close>

datatype dwarf_error = GimliError | StackOverflow

fun attempt :: "('e + 'a) \<Rightarrow> ('a \<Rightarrow> 'e + 'b) \<Rightarrow> 'e + 'b" where
  "attempt (Inl e) f = Inl e"
| "attempt (Inr a) f = f a"

lemma attempt_cong [fundef_cong]: "m = m' \<Longrightarrow> (\<And>a. m' = Inr a \<Longrightarrow> f a = f' a) \<Longrightarrow> attempt m f = attempt m' f'"
  by (cases m') simp_all

lemma attempt_Inr: "attempt m f = Inr b \<longleftrightarrow> (\<exists>a. m = Inr a \<and> f a = Inr b)"
  by (cases m) simp_all

text \<open>\<open>attr_value(..).ok().flatten()\<close>; an entry looked up by its offset.\<close>

definition got :: "die \<Rightarrow> die_attr \<Rightarrow> attr_val option" where
  "got d a = (case attrs_of d a of None \<Rightarrow> None | Some v \<Rightarrow> v)"

fun find_die :: "nat \<Rightarrow> die \<Rightarrow> die option"
  and find_dies :: "nat \<Rightarrow> die list \<Rightarrow> die option" where
  "find_die p (Die t off av ks) = (if off = p then Some (Die t off av ks) else find_dies p ks)"
| "find_dies p [] = None"
| "find_dies p (d # ds) = (case find_die p d of Some e \<Rightarrow> Some e | None \<Rightarrow> find_dies p ds)"

definition entry_at :: "dwarf_unit \<Rightarrow> nat \<Rightarrow> die option" where "entry_at U p = find_die p (du_root U)"

subsection \<open>Names\<close>

definition read_attr_string :: "dwarf_unit \<Rightarrow> die \<Rightarrow> die_attr \<Rightarrow> string option" where
  "read_attr_string U d a = Option.bind (got d a) (du_lossy U)"

fun join_path :: "string list \<Rightarrow> string" where
  "join_path [] = []"
| "join_path [n] = n"
| "join_path (n # ns) = n @ ''::'' @ join_path ns"

definition full_name :: "string list \<Rightarrow> string \<Rightarrow> string" where
  "full_name prefix n = (if prefix = [] then n else join_path prefix @ ''::'' @ n)"

definition scope_tag :: "die_tag \<Rightarrow> bool" where
  "scope_tag t \<longleftrightarrow> t \<in> {Namespace, Subprogram, StructureType, ClassType, UnionType, EnumerationType}"

fun walk_names :: "dwarf_unit \<Rightarrow> nat \<Rightarrow> string list \<Rightarrow> die \<Rightarrow> (nat \<rightharpoonup> string) \<Rightarrow> (nat \<rightharpoonup> string)"
  and walk_names_each :: "dwarf_unit \<Rightarrow> nat \<Rightarrow> string list \<Rightarrow> die list \<Rightarrow> (nat \<rightharpoonup> string) \<Rightarrow> (nat \<rightharpoonup> string)" where
  "walk_names U base prefix (Die t off av ks) out =
     (let nm = read_attr_string U (Die t off av ks) AtName;
          out = (case nm of None \<Rightarrow> out | Some n \<Rightarrow> out(base + off \<mapsto> full_name prefix n));
          prefix = (case nm of None \<Rightarrow> prefix | Some n \<Rightarrow> if scope_tag t then prefix @ [n] else prefix)
      in walk_names_each U base prefix ks out)"
| "walk_names_each U base prefix [] out = out"
| "walk_names_each U base prefix (d # ds) out = walk_names_each U base prefix ds (walk_names U base prefix d out)"

definition unit_names :: "(nat \<rightharpoonup> string) \<Rightarrow> dwarf_unit \<Rightarrow> (nat \<rightharpoonup> string)" where
  "unit_names out U = (case du_base U of None \<Rightarrow> out | Some b \<Rightarrow> walk_names U b [] (du_root U) out)"

definition build_name_map :: "dwarf_unit list \<Rightarrow> (nat \<rightharpoonup> string)" where
  "build_name_map units = foldl unit_names Map.empty units"

definition resolve_bare_name :: "dwarf_unit list \<Rightarrow> dwarf_unit \<Rightarrow> attr_val \<Rightarrow> string option" where
  "resolve_bare_name units U v =
     (case v of
        UnitRef p \<Rightarrow> Option.bind (entry_at U p) (\<lambda>e. read_attr_string U e AtName)
      | DebugInfoRef q \<Rightarrow>
          (case find (\<lambda>V. case du_base V of None \<Rightarrow> False | Some h \<Rightarrow> h \<le> q \<and> q < h + du_len V) units of
             None \<Rightarrow> None
           | Some V \<Rightarrow> Option.bind (entry_at V (q - the (du_base V))) (\<lambda>e. read_attr_string V e AtName))
      | _ \<Rightarrow> None)"

definition abs_offset :: "dwarf_unit \<Rightarrow> attr_val \<Rightarrow> nat option" where
  "abs_offset U v =
     (case v of UnitRef p \<Rightarrow> map_option (\<lambda>b. b + p) (du_base U) | DebugInfoRef q \<Rightarrow> Some q | _ \<Rightarrow> None)"

definition resolve_origin_name :: "dwarf_unit list \<Rightarrow> dwarf_unit \<Rightarrow> (nat \<rightharpoonup> string) \<Rightarrow> attr_val \<Rightarrow> string option" where
  "resolve_origin_name units U names v =
     (case abs_offset U v of None \<Rightarrow> None
      | Some q \<Rightarrow> (case names q of Some n \<Rightarrow> Some n | None \<Rightarrow> resolve_bare_name units U v))"

subsection \<open>Sizes of types\<close>

definition die_udata :: "dwarf_unit \<Rightarrow> die \<Rightarrow> die_attr \<Rightarrow> u64 option" where
  "die_udata U d a = Option.bind (got d a) (du_udata U)"

definition array_size :: "dwarf_unit \<Rightarrow> u64 \<Rightarrow> die list \<Rightarrow> u64 option" where
  "array_size U elem ks =
     (case find (\<lambda>k. tag_of k = SubrangeType) ks of None \<Rightarrow> None
      | Some k \<Rightarrow> map_option (\<lambda>c. elem * c)
          (case die_udata U k AtCount of Some c \<Rightarrow> Some c | None \<Rightarrow> map_option (\<lambda>u. u + 1) (die_udata U k AtUpperBound)))"

definition type_ref :: "die \<Rightarrow> nat option" where
  "type_ref d = (case got d AtType of Some (UnitRef p) \<Rightarrow> Some p | _ \<Rightarrow> None)"

definition modifier_tag :: "die_tag \<Rightarrow> bool" where
  "modifier_tag t \<longleftrightarrow> t \<in> {Typedef, ConstType, VolatileType, RestrictType, AtomicType}"

definition pointer_tag :: "die_tag \<Rightarrow> bool" where
  "pointer_tag t \<longleftrightarrow> t \<in> {PointerType, ReferenceType, RvalueReferenceType}"

text \<open>The recursion follows references, which may form a circle; the fuel is the depth of the stack.\<close>

fun byte_size_of :: "dwarf_unit \<Rightarrow> nat \<Rightarrow> nat \<Rightarrow> dwarf_error + u64 option" where
  "byte_size_of U 0 p = Inl StackOverflow"
| "byte_size_of U (Suc n) p =
     (case entry_at U p of None \<Rightarrow> Inr None
      | Some d \<Rightarrow>
          (case die_udata U d AtByteSize of Some w \<Rightarrow> Inr (Some w)
           | None \<Rightarrow>
               if modifier_tag (tag_of d)
               then (case type_ref d of None \<Rightarrow> Inr None | Some q \<Rightarrow> byte_size_of U n q)
               else if pointer_tag (tag_of d) then Inr (Some 8)
               else if tag_of d = ArrayType
               then (case type_ref d of None \<Rightarrow> Inr None
                     | Some q \<Rightarrow> attempt (byte_size_of U n q)
                         (\<lambda>r. Inr (case r of None \<Rightarrow> None | Some elem \<Rightarrow> array_size U elem (die_kids d))))
               else Inr None))"

fun die_count :: "die \<Rightarrow> nat" where "die_count (Die t off av ks) = Suc (sum_list (List.map die_count ks))"

definition size_fuel :: "dwarf_unit \<Rightarrow> nat" where "size_fuel U = Suc (die_count (du_root U))"

subsection \<open>Frame ranges of locals\<close>

fun first_fbreg :: "frame_op list \<Rightarrow> dwarf_error + int option" where
  "first_fbreg [] = Inr None"
| "first_fbreg (FrameOffset z # ops) = Inr (Some z)"
| "first_fbreg (OtherOp # ops) = first_fbreg ops"
| "first_fbreg (BadOp # ops) = Inl GimliError"

definition local_frame_range :: "dwarf_unit \<Rightarrow> die \<Rightarrow> dwarf_error + (int \<times> int) option" where
  "local_frame_range U d =
     (case attrs_of d AtLocation of
        None \<Rightarrow> Inl GimliError
      | Some (Some (Exprloc ops)) \<Rightarrow> attempt (first_fbreg ops) (\<lambda>r.
          (case r of None \<Rightarrow> Inr None
           | Some z \<Rightarrow>
               (case attrs_of d AtType of None \<Rightarrow> Inl GimliError
                | Some t \<Rightarrow> attempt (case t of Some (UnitRef p) \<Rightarrow> byte_size_of U (size_fuel U) p | _ \<Rightarrow> Inr None)
                    (\<lambda>s. Inr (Some (z, wrap_i64 (z + sint (case s of None \<Rightarrow> 8 | Some w \<Rightarrow> w))))))))
      | Some _ \<Rightarrow> Inr None)"

subsection \<open>Inlined calls\<close>

type_synonym range_acc = "int option \<times> int option \<times> inlined_call list"

definition widen_lo :: "int option \<Rightarrow> int \<Rightarrow> int option" where
  "widen_lo a z = Some (case a of None \<Rightarrow> z | Some x \<Rightarrow> min x z)"

definition widen_hi :: "int option \<Rightarrow> int \<Rightarrow> int option" where
  "widen_hi a z = Some (case a of None \<Rightarrow> z | Some x \<Rightarrow> max x z)"

definition absorb :: "range_acc \<Rightarrow> range_acc \<Rightarrow> range_acc" where
  "absorb acc sub =
     (case acc of (lo, hi, calls) \<Rightarrow> case sub of (l, h, inner) \<Rightarrow>
        (case l of None \<Rightarrow> lo | Some l \<Rightarrow> widen_lo lo l, case h of None \<Rightarrow> hi | Some h \<Rightarrow> widen_hi hi h, calls @ inner))"

definition call_frame :: "int option \<Rightarrow> int option \<Rightarrow> int \<times> int" where
  "call_frame lo hi = (case lo of Some l \<Rightarrow> (case hi of Some h \<Rightarrow> if h > l then (l, h) else (0, 1) | None \<Rightarrow> (0, 1)) | None \<Rightarrow> (0, 1))"

text \<open>The loops of \<open>build_inlined\<close> and \<open>build_inlined_block_range\<close> over the children have the same arms.\<close>

fun build_inlined :: "dwarf_unit list \<Rightarrow> dwarf_unit \<Rightarrow> (nat \<rightharpoonup> string) \<Rightarrow> die \<Rightarrow> dwarf_error + inlined_call option"
  and scan_kid :: "dwarf_unit list \<Rightarrow> dwarf_unit \<Rightarrow> (nat \<rightharpoonup> string) \<Rightarrow> die \<Rightarrow> range_acc \<Rightarrow> dwarf_error + range_acc"
  and scan_kids :: "dwarf_unit list \<Rightarrow> dwarf_unit \<Rightarrow> (nat \<rightharpoonup> string) \<Rightarrow> die list \<Rightarrow> range_acc \<Rightarrow> dwarf_error + range_acc" where
  "build_inlined units U names (Die t off av ks) =
     (case av AtAbstractOrigin of None \<Rightarrow> Inl GimliError
      | Some v \<Rightarrow>
          (case Option.bind v (resolve_origin_name units U names) of None \<Rightarrow> Inr None
           | Some nm \<Rightarrow> attempt (scan_kids units U names ks (None, None, [])) (\<lambda>(lo, hi, nested).
               Inr (Some (case call_frame lo hi of (l, h) \<Rightarrow> InlinedCall nm l h nested)))))"
| "scan_kid units U names (Die t off av ks) acc =
     (if t = VariableTag \<or> t = FormalParameter
      then attempt (local_frame_range U (Die t off av ks)) (\<lambda>r.
        Inr (case r of None \<Rightarrow> acc | Some (l, h) \<Rightarrow> absorb acc (Some l, Some h, [])))
      else if t = InlinedSubroutine
      then attempt (build_inlined units U names (Die t off av ks)) (\<lambda>r.
        Inr (case r of None \<Rightarrow> acc | Some ic \<Rightarrow> absorb acc (None, None, [ic])))
      else if t = LexicalBlock
      then attempt (scan_kids units U names ks (None, None, [])) (\<lambda>sub. Inr (if ks = [] then acc else absorb acc sub))
      else Inr acc)"
| "scan_kids units U names [] acc = Inr acc"
| "scan_kids units U names (d # ds) acc = attempt (scan_kid units U names d acc) (scan_kids units U names ds)"

fun collect_inlined :: "dwarf_unit list \<Rightarrow> dwarf_unit \<Rightarrow> (nat \<rightharpoonup> string) \<Rightarrow> die list \<Rightarrow> dwarf_error + inlined_call list" where
  "collect_inlined units U names [] = Inr []"
| "collect_inlined units U names (Die t off av ks # ds) =
     attempt
       (if t = InlinedSubroutine
        then attempt (build_inlined units U names (Die t off av ks)) (\<lambda>r. Inr (case r of None \<Rightarrow> [] | Some ic \<Rightarrow> [ic]))
        else if t = LexicalBlock then collect_inlined units U names ks else Inr [])
       (\<lambda>sub. attempt (collect_inlined units U names ds) (\<lambda>rest. Inr (sub @ rest)))"

definition get_low_pc :: "die \<Rightarrow> u64 option" where
  "get_low_pc d = (case got d AtLowPc of Some (Addr a) \<Rightarrow> Some a | _ \<Rightarrow> None)"

fun process_top_level :: "dwarf_unit list \<Rightarrow> dwarf_unit \<Rightarrow> (nat \<rightharpoonup> string) \<Rightarrow> die \<Rightarrow> (u64 \<rightharpoonup> inlined_call list) \<Rightarrow>
      dwarf_error + (u64 \<rightharpoonup> inlined_call list)"
  and process_each :: "dwarf_unit list \<Rightarrow> dwarf_unit \<Rightarrow> (nat \<rightharpoonup> string) \<Rightarrow> die list \<Rightarrow> (u64 \<rightharpoonup> inlined_call list) \<Rightarrow>
      dwarf_error + (u64 \<rightharpoonup> inlined_call list)" where
  "process_top_level units U names (Die t off av ks) out =
     (if t = Subprogram
      then (case get_low_pc (Die t off av ks) of None \<Rightarrow> Inr out
            | Some addr \<Rightarrow> attempt (collect_inlined units U names ks) (\<lambda>calls.
                Inr (if calls = [] then out else out(addr \<mapsto> calls))))
      else process_each units U names ks out)"
| "process_each units U names [] out = Inr out"
| "process_each units U names (d # ds) out =
     attempt (process_top_level units U names d out) (process_each units U names ds)"

fun walk_units :: "dwarf_unit list \<Rightarrow> (nat \<rightharpoonup> string) \<Rightarrow> dwarf_unit list \<Rightarrow> (u64 \<rightharpoonup> inlined_call list) \<Rightarrow>
      dwarf_error + (u64 \<rightharpoonup> inlined_call list)" where
  "walk_units units names [] out = Inr out"
| "walk_units units names (U # Us) out =
     attempt (process_each units U names (die_kids (du_root U)) out) (walk_units units names Us)"

definition parse_inlines :: "dwarf_unit list \<Rightarrow> dwarf_error + (u64 \<rightharpoonup> inlined_call list)" where
  "parse_inlines units = walk_units units (build_name_map units) units Map.empty"

text \<open>What \<open>run\<close> makes of it: an error of gimli costs the decomposition only.\<close>

definition inlines_of_units :: "dwarf_unit list \<Rightarrow> (u64 \<rightharpoonup> inlined_call list) option" where
  "inlines_of_units units =
     (case parse_inlines units of Inr m \<Rightarrow> Some m | Inl GimliError \<Rightarrow> Some Map.empty | Inl StackOverflow \<Rightarrow> None)"


subsection \<open>The fuel is enough\<close>

text \<open>The type that the size of another is taken from.\<close>

definition next_type :: "dwarf_unit \<Rightarrow> nat \<Rightarrow> nat option" where
  "next_type U p =
     (case entry_at U p of None \<Rightarrow> None
      | Some d \<Rightarrow>
          if die_udata U d AtByteSize = None \<and> (modifier_tag (tag_of d) \<or> \<not> pointer_tag (tag_of d) \<and> tag_of d = ArrayType)
          then type_ref d else None)"

fun type_steps :: "dwarf_unit \<Rightarrow> nat \<Rightarrow> nat \<Rightarrow> nat option" where
  "type_steps U 0 p = Some p"
| "type_steps U (Suc n) p = Option.bind (next_type U p) (type_steps U n)"

lemma attempt_overflow: "attempt m (\<lambda>r. Inr (f r)) = Inl e \<longleftrightarrow> m = Inl e"
  by (cases m) simp_all

lemma byte_size_step: "byte_size_of U (Suc n) p = Inl e \<longleftrightarrow> (\<exists>q. next_type U p = Some q \<and> byte_size_of U n q = Inl e)"
proof (cases "entry_at U p")
  case (Some d)
  show ?thesis
  proof (cases "die_udata U d AtByteSize")
    case None
    then show ?thesis
      by (cases "type_ref d"; cases "modifier_tag (tag_of d)"; cases "pointer_tag (tag_of d)"; cases "tag_of d = ArrayType")
        (simp_all add: Some next_type_def attempt_overflow)
  qed (simp add: Some next_type_def)
qed (simp add: next_type_def)

lemma overflow_iff: "byte_size_of U n p = Inl e \<longleftrightarrow> e = StackOverflow \<and> type_steps U n p \<noteq> None"
proof (induction n arbitrary: p)
  case (Suc n)
  show ?case by (cases "next_type U p") (simp_all add: byte_size_step Suc del: byte_size_of.simps)
qed auto

lemma type_steps_add: "type_steps U (m + n) p = Option.bind (type_steps U m p) (type_steps U n)"
proof (induction m arbitrary: p)
  case (Suc m)
  then show ?case by (cases "next_type U p") simp_all
qed simp

lemma find_die_some: "find_die p d = Some e \<Longrightarrow> off_of e = p" "find_dies p ds = Some e \<Longrightarrow> off_of e = p"
  by (induction p d and p ds rule: find_die_find_dies.induct) (auto split: if_splits option.splits)

fun die_offs :: "die \<Rightarrow> nat set" where "die_offs (Die t off av ks) = insert off (\<Union>k \<in> set ks. die_offs k)"

lemma find_die_offs:
  "find_die p d \<noteq> None \<Longrightarrow> p \<in> die_offs d"
  "find_dies p ds \<noteq> None \<Longrightarrow> p \<in> (\<Union>k \<in> set ds. die_offs k)"
  by (induction p d and p ds rule: find_die_find_dies.induct) (auto split: if_splits option.splits)

lemma card_Union_list: "(\<And>k. k \<in> set ks \<Longrightarrow> finite (f k) \<and> card (f k) \<le> g k) \<Longrightarrow>
    finite (\<Union>k \<in> set ks. f k) \<and> card (\<Union>k \<in> set ks. f k) \<le> sum_list (List.map g ks)"
proof (induction ks)
  case (Cons k ks)
  then show ?case using card_Un_le [of "f k" "\<Union>k \<in> set ks. f k"] by (fastforce intro: order_trans add_mono)
qed simp

lemma die_offs_card: "finite (die_offs d) \<and> card (die_offs d) \<le> die_count d"
proof (induction d)
  case (Die t off av ks)
  then have "finite (\<Union>k \<in> set ks. die_offs k) \<and> card (\<Union>k \<in> set ks. die_offs k) \<le> sum_list (List.map die_count ks)"
    by (rule card_Union_list)
  then show ?case by (simp add: card_insert_if)
qed

lemma type_steps_prefix: "type_steps U n p \<noteq> None \<Longrightarrow> m \<le> n \<Longrightarrow> type_steps U m p \<noteq> None"
  using type_steps_add [of U m "n - m" p] by (cases "type_steps U m p") simp_all

text \<open>More steps than entries go round in a circle, and a circle never ends.\<close>

lemma circle_never_ends:
  assumes "type_steps U n p \<noteq> None" and "die_count (du_root U) < n"
  shows "type_steps U m p \<noteq> None"
proof -
  let ?at = "\<lambda>i. the (type_steps U i p)"
  have at_eq: "type_steps U i p = Some (?at i)" if "i \<le> n" for i
    using type_steps_prefix [OF assms(1) that] by simp
  have "?at i \<in> die_offs (du_root U)" if lt: "i < n" for i
  proof -
    obtain y where y: "type_steps U i p = Some y" using at_eq [OF less_imp_le [OF lt]] by blast
    have "type_steps U (i + 1) p \<noteq> None" using type_steps_prefix [OF assms(1), of "i + 1"] lt by simp
    then have "next_type U (?at i) \<noteq> None"
      unfolding type_steps_add y by (cases "next_type U y") simp_all
    then show ?thesis using find_die_offs(1) by (fastforce simp: next_type_def entry_at_def split: option.splits)
  qed
  then have "?at ` {..<n} \<subseteq> die_offs (du_root U)" by blast
  then have "card (?at ` {..<n}) < card {..<n}"
    using die_offs_card [of "du_root U"] assms(2) card_mono by (metis card_lessThan order_le_less_trans order_trans)
  then obtain i j where ij: "i < j" "j < n" "?at i = ?at j"
    using pigeonhole [of ?at "{..<n}"] unfolding inj_on_def by (metis lessThan_iff linorder_neqE_nat)
  obtain y where y: "type_steps U i p = Some y" "type_steps U j p = Some y"
    using at_eq [of i] at_eq [of j] ij by fastforce
  then have circle: "type_steps U (j - i) y = Some y"
    using type_steps_add [of U i "j - i" p] ij(1) by simp
  then have "type_steps U (k * (j - i)) y = Some y" for k
    by (induction k) (simp_all add: type_steps_add)
  then have "type_steps U (i + m * (j - i)) p \<noteq> None" by (simp add: type_steps_add y)
  moreover have "m \<le> i + m * (j - i)" using ij by (cases "j - i") simp_all
  ultimately show ?thesis using type_steps_prefix by blast
qed

theorem size_fuel_enough:
  "byte_size_of U (size_fuel U) p = Inl StackOverflow \<longleftrightarrow> (\<forall>n. byte_size_of U n p = Inl StackOverflow)"
proof
  assume "byte_size_of U (size_fuel U) p = Inl StackOverflow"
  then have "type_steps U n p \<noteq> None" for n
    using circle_never_ends [of U "size_fuel U" p n] unfolding overflow_iff by (simp add: size_fuel_def del: type_steps.simps)
  then show "\<forall>n. byte_size_of U n p = Inl StackOverflow" by (simp add: overflow_iff)
qed blast

lemma byte_size_same: "byte_size_of U n p = Inr r \<Longrightarrow> byte_size_of U (n + k) p = Inr r"
proof (induction n arbitrary: p r)
  case (Suc n)
  show ?case
  proof (cases "entry_at U p")
    case (Some d)
    show ?thesis
      using Suc by (cases "die_udata U d AtByteSize"; cases "type_ref d"; cases "modifier_tag (tag_of d)") 
        (auto simp: Some attempt_Inr split: if_splits)
  qed (use Suc in simp)
qed simp


subsection \<open>What the passes find\<close>

text \<open>The entries of a body: the children, those of lexical blocks in their place.\<close>

fun body :: "die list \<Rightarrow> die list" where
  "body [] = []"
| "body (Die t off av ks # ds) = (if t = LexicalBlock then body ks else [Die t off av ks]) @ body ds"

definition local_ranges :: "dwarf_unit \<Rightarrow> die list \<Rightarrow> (int \<times> int) list" where
  "local_ranges U ds = List.map_filter (\<lambda>d.
     if tag_of d = VariableTag \<or> tag_of d = FormalParameter
     then (case local_frame_range U d of Inr r \<Rightarrow> r | Inl e \<Rightarrow> None) else None) ds"

definition calls_in :: "dwarf_unit list \<Rightarrow> dwarf_unit \<Rightarrow> (nat \<rightharpoonup> string) \<Rightarrow> die list \<Rightarrow> inlined_call list" where
  "calls_in units U names ds = List.map_filter (\<lambda>d.
     if tag_of d = InlinedSubroutine
     then (case build_inlined units U names d of Inr r \<Rightarrow> r | Inl e \<Rightarrow> None) else None) ds"

definition span_of :: "(int \<times> int) list \<Rightarrow> int \<times> int" where
  "span_of rs =
     (if rs \<noteq> [] \<and> Min (fst ` set rs) < Max (snd ` set rs) then (Min (fst ` set rs), Max (snd ` set rs)) else (0, 1))"

definition gather :: "dwarf_unit list \<Rightarrow> dwarf_unit \<Rightarrow> (nat \<rightharpoonup> string) \<Rightarrow> die list \<Rightarrow> range_acc \<Rightarrow> range_acc" where
  "gather units U names ds acc =
     (case acc of (lo, hi, calls) \<Rightarrow>
        (foldl widen_lo lo (List.map fst (local_ranges U ds)), foldl widen_hi hi (List.map snd (local_ranges U ds)),
         calls @ calls_in units U names ds))"

lemma map_filter_append: "List.map_filter f (xs @ ys) = List.map_filter f xs @ List.map_filter f ys"
  by (simp add: List.map_filter_def)

lemma gather_simps [simp]:
  "gather units U names [] acc = acc"
  "gather units U names (ds @ es) acc = gather units U names es (gather units U names ds acc)"
  by (cases acc; simp add: gather_def local_ranges_def calls_in_def map_filter_append List.map_filter_simps)+

lemma widen_lo_fold: "(case foldl widen_lo None xs of None \<Rightarrow> lo | Some l \<Rightarrow> widen_lo lo l) = foldl widen_lo lo xs"
proof (induction xs rule: rev_induct)
  case (snoc x xs)
  then show ?case by (auto simp: widen_lo_def min.assoc split: option.splits)
qed simp

lemma widen_hi_fold: "(case foldl widen_hi None xs of None \<Rightarrow> hi | Some h \<Rightarrow> widen_hi hi h) = foldl widen_hi hi xs"
proof (induction xs rule: rev_induct)
  case (snoc x xs)
  then show ?case by (auto simp: widen_hi_def max.assoc split: option.splits)
qed simp

lemma absorb_gather: "absorb acc (gather units U names ds (None, None, [])) = gather units U names ds acc"
  by (cases acc) (simp add: absorb_def gather_def widen_lo_fold widen_hi_fold)

lemma widen_lo_Min: "foldl widen_lo None xs = (if xs = [] then None else Some (Min (set xs)))"
proof (induction xs rule: rev_induct)
  case (snoc x xs)
  then show ?case by (cases "xs = []") (simp_all add: widen_lo_def min.commute)
qed simp

lemma widen_hi_Max: "foldl widen_hi None xs = (if xs = [] then None else Some (Max (set xs)))"
proof (induction xs rule: rev_induct)
  case (snoc x xs)
  then show ?case by (cases "xs = []") (simp_all add: widen_hi_def max.commute)
qed simp

lemma call_frame_span: "call_frame (foldl widen_lo None (List.map fst rs)) (foldl widen_hi None (List.map snd rs)) = span_of rs"
  by (simp add: widen_lo_Min widen_hi_Max call_frame_def span_of_def)

lemma scan_spec:
  "build_inlined units U names d = Inr r \<Longrightarrow> True"
  "scan_kid units U names d acc = Inr acc' \<Longrightarrow> acc' = gather units U names (body [d]) acc"
  "scan_kids units U names ds acc = Inr acc' \<Longrightarrow> acc' = gather units U names (body ds) acc"
proof (induction units U names d and units U names d acc and units U names ds acc
    arbitrary: r and acc' and acc' rule: build_inlined_scan_kid_scan_kids.induct)
  case (2 units U names t off av ks acc)
  let ?d = "Die t off av ks"
  consider "t = VariableTag \<or> t = FormalParameter" | "t = InlinedSubroutine" | "t = LexicalBlock"
    | "t \<notin> {VariableTag, FormalParameter, InlinedSubroutine, LexicalBlock}" by blast
  then show ?case
  proof cases
    case 1
    then show ?thesis
      using "2.prems" by (cases acc) (auto simp: attempt_Inr absorb_def gather_def local_ranges_def calls_in_def List.map_filter_simps split: option.splits prod.splits)
  next
    case 2
    then show ?thesis
      using "2.prems" by (cases acc) (auto simp: attempt_Inr absorb_def gather_def local_ranges_def calls_in_def List.map_filter_simps split: option.splits)
  next
    case 3
    then obtain sub where sub: "scan_kids units U names ks (None, None, []) = Inr sub" "acc' = (if ks = [] then acc else absorb acc sub)"
      using "2.prems" by (auto simp: attempt_Inr)
    then have "sub = gather units U names (body ks) (None, None, [])" using "2.IH"(2) 3 by simp
    then show ?thesis using 3 sub(2) by (simp add: absorb_gather)
  next
    case 4
    then show ?thesis
      using "2.prems" by (cases acc) (auto simp: gather_def local_ranges_def calls_in_def List.map_filter_simps)
  qed
next
  case (4 units U names d ds acc)
  obtain mid where mid: "scan_kid units U names d acc = Inr mid" "scan_kids units U names ds mid = Inr acc'"
    using "4.prems" by (auto simp: attempt_Inr)
  have b: "body (d # ds) = body [d] @ body ds" by (cases d) simp
  show ?case unfolding b using "4.IH"(1) [OF mid(1)] "4.IH"(2) [OF mid] by simp
qed simp_all

text \<open>An inlined call spans its own locals, and has the calls inlined into its body.\<close>

lemma build_inlined_spec:
  assumes "build_inlined units U names (Die t off av ks) = Inr (Some ic)"
  shows "\<exists>nm. ic = (case span_of (local_ranges U (body ks)) of (l, h) \<Rightarrow> InlinedCall nm l h (calls_in units U names (body ks)))"
proof -
  obtain nm lo hi nested where s: "scan_kids units U names ks (None, None, []) = Inr (lo, hi, nested)"
    "ic = (case call_frame lo hi of (l, h) \<Rightarrow> InlinedCall nm l h nested)"
    using assms by (auto simp: attempt_Inr split: option.splits)
  have "(lo, hi, nested) = gather units U names (body ks) (None, None, [])" using scan_spec(3) [OF s(1)] .
  then show ?thesis using s(2) by (auto simp: gather_def call_frame_span)
qed

lemma collect_spec: "collect_inlined units U names ds = Inr cs \<Longrightarrow> cs = calls_in units U names (body ds)"
proof (induction units U names ds arbitrary: cs rule: collect_inlined.induct)
  case (2 units U names t off av ks ds)
  then show ?case
    by (auto simp: attempt_Inr calls_in_def List.map_filter_simps map_filter_append split: if_splits option.splits)
qed (simp add: calls_in_def List.map_filter_simps)

text \<open>The outermost functions of a tree, and the entries they give to the table.\<close>

fun functions_in :: "die list \<Rightarrow> die list" where
  "functions_in [] = []"
| "functions_in (Die t off av ks # ds) = (if t = Subprogram then [Die t off av ks] else functions_in ks) @ functions_in ds"

definition function_entry ::
    "dwarf_unit list \<Rightarrow> dwarf_unit \<Rightarrow> (nat \<rightharpoonup> string) \<Rightarrow> die \<Rightarrow> (u64 \<times> inlined_call list) option" where
  "function_entry units U names f =
     (case get_low_pc f of None \<Rightarrow> None
      | Some addr \<Rightarrow> let cs = calls_in units U names (body (die_kids f)) in if cs = [] then None else Some (addr, cs))"

definition unit_entries :: "dwarf_unit list \<Rightarrow> (nat \<rightharpoonup> string) \<Rightarrow> dwarf_unit \<Rightarrow> (u64 \<times> inlined_call list) list" where
  "unit_entries units names U =
     List.map_filter (function_entry units U names) (functions_in (die_kids (du_root U)))"

definition put_all :: "('a \<times> 'b) list \<Rightarrow> ('a \<rightharpoonup> 'b) \<Rightarrow> ('a \<rightharpoonup> 'b)" where
  "put_all es m = m ++ map_of (rev es)"

lemma put_all_simps [simp]: "put_all [] m = m" "put_all (es @ fs) m = put_all fs (put_all es m)" "put_all [e] m = m(fst e \<mapsto> snd e)"
  by (simp_all add: put_all_def map_add_assoc)

lemma process_spec:
  "process_top_level units U names d out = Inr out' \<Longrightarrow>
   out' = put_all (List.map_filter (function_entry units U names) (functions_in [d])) out"
  "process_each units U names ds out = Inr out' \<Longrightarrow>
   out' = put_all (List.map_filter (function_entry units U names) (functions_in ds)) out"
proof (induction units U names d out and units U names ds out arbitrary: out' and out' rule: process_top_level_process_each.induct)
  case (1 units U names t off av ks out)
  show ?case
  proof (cases "t = Subprogram")
    case True
    then show ?thesis
      using "1.prems" collect_spec
      by (auto simp: attempt_Inr function_entry_def List.map_filter_simps Let_def split: option.splits)
  next
    case False
    then show ?thesis using 1 by simp
  qed
next
  case (3 units U names d ds out)
  obtain mid where mid: "process_top_level units U names d out = Inr mid" "process_each units U names ds mid = Inr out'"
    using "3.prems" by (auto simp: attempt_Inr)
  have b: "functions_in (d # ds) = functions_in [d] @ functions_in ds" by (cases d) simp
  show ?case unfolding b map_filter_append using "3.IH"(1) [OF mid(1)] "3.IH"(2) [OF mid] by simp
qed (simp_all add: List.map_filter_simps)

lemma walk_units_spec:
  "walk_units units names Us out = Inr m \<Longrightarrow> m = put_all (concat (List.map (unit_entries units names) Us)) out"
proof (induction Us arbitrary: out)
  case (Cons U Us)
  then obtain mid where mid: "process_each units U names (die_kids (du_root U)) out = Inr mid" "walk_units units names Us mid = Inr m"
    by (auto simp: attempt_Inr)
  show ?case using process_spec(2) [OF mid(1)] Cons.IH [OF mid(2)] by (simp add: unit_entries_def)
qed simp

text \<open>Every call in the table, at any depth, has a range that is not empty.\<close>

fun ranges_ok :: "inlined_call \<Rightarrow> bool" where
  "ranges_ok (InlinedCall nm l h cs) = (l < h \<and> list_all ranges_ok cs)"

lemma span_of_less: "span_of rs = (l, h) \<Longrightarrow> l < h"
  by (auto simp: span_of_def split: if_splits)

lemma die_size: "d \<in> set ks \<Longrightarrow> size d < Suc (size_list size ks)"
  by (induction ks) auto

lemma body_size: "e \<in> set (body ks) \<Longrightarrow> size e \<le> size_list size ks"
proof (induction ks rule: body.induct)
  case (2 t off av ks ds)
  then show ?case by (cases "t = LexicalBlock") fastforce+
qed simp

lemma built_ranges_ok: "build_inlined units U names d = Inr (Some ic) \<Longrightarrow> ranges_ok ic"
proof (induction d arbitrary: ic rule: measure_induct_rule [where f = size])
  case (less d)
  obtain t off av ks where d: "d = Die t off av ks" by (cases d)
  have "ranges_ok c" if c: "c \<in> set (calls_in units U names (body ks))" for c
  proof -
    obtain e where "e \<in> set (body ks)" "build_inlined units U names e = Inr (Some c)"
      using c by (auto simp: calls_in_def List.map_filter_def split: if_splits sum.splits)
    then show ?thesis using less.IH [of e c] body_size [of e ks] by (simp add: d)
  qed
  moreover obtain l h where sp: "span_of (local_ranges U (body ks)) = (l, h)" by fastforce
  ultimately show ?case
    using build_inlined_spec [OF less.prems [unfolded d]] span_of_less [OF sp] by (auto simp: sp list_all_iff)
qed

lemma unit_entries_ok: "(addr, cs) \<in> set (unit_entries units names U) \<Longrightarrow> cs \<noteq> [] \<and> list_all ranges_ok cs"
  using built_ranges_ok
  by (fastforce simp: unit_entries_def function_entry_def calls_in_def List.map_filter_def list_all_iff Let_def
      split: option.splits if_splits sum.splits)


subsection \<open>Circles\<close>

text \<open>Only a circle of types overflows the stack.\<close>

definition types_end :: "dwarf_unit \<Rightarrow> bool" where
  "types_end U \<longleftrightarrow> (\<forall>p. \<exists>n. type_steps U n p = None)"

lemma types_end_sizes: "types_end U \<Longrightarrow> byte_size_of U (size_fuel U) p \<noteq> Inl e"
proof
  assume U: "types_end U" and "byte_size_of U (size_fuel U) p = Inl e"
  then have "byte_size_of U n p = Inl StackOverflow" for n
    using size_fuel_enough [of U p] overflow_iff [of U "size_fuel U" p e] by simp
  moreover obtain n where "type_steps U n p = None" using U by (auto simp: types_end_def)
  ultimately show False using overflow_iff [of U n p StackOverflow] by simp
qed

lemma attempt_Inl: "attempt m f = Inl e \<longleftrightarrow> m = Inl e \<or> (\<exists>a. m = Inr a \<and> f a = Inl e)"
  by (cases m) simp_all

lemma fbreg_error: "first_fbreg ops \<noteq> Inl StackOverflow"
  by (induction ops rule: first_fbreg.induct) simp_all

lemma local_error: "types_end U \<Longrightarrow> local_frame_range U d \<noteq> Inl StackOverflow"
  using types_end_sizes fbreg_error
  by (auto simp: local_frame_range_def attempt_Inl split: option.splits attr_val.splits)

lemma build_error:
  "types_end U \<Longrightarrow> build_inlined units U names d \<noteq> Inl StackOverflow"
  "types_end U \<Longrightarrow> scan_kid units U names d acc \<noteq> Inl StackOverflow"
  "types_end U \<Longrightarrow> scan_kids units U names ds acc \<noteq> Inl StackOverflow"
  by (induction units U names d and units U names d acc and units U names ds acc rule: build_inlined_scan_kid_scan_kids.induct)
    (use local_error in \<open>auto simp: attempt_Inl split: option.splits if_splits\<close>)

lemma collect_error: "types_end U \<Longrightarrow> collect_inlined units U names ds \<noteq> Inl StackOverflow"
  by (induction units U names ds rule: collect_inlined.induct)
    (use build_error(1) in \<open>auto simp: attempt_Inl simp del: build_inlined.simps split: if_splits\<close>)

lemma process_error:
  "types_end U \<Longrightarrow> process_top_level units U names d out \<noteq> Inl StackOverflow"
  "types_end U \<Longrightarrow> process_each units U names ds out \<noteq> Inl StackOverflow"
  by (induction units U names d out and units U names ds out rule: process_top_level_process_each.induct)
    (use collect_error in \<open>auto simp: attempt_Inl split: option.splits if_splits\<close>)

lemma walk_error: "\<forall>U \<in> set Us. types_end U \<Longrightarrow> walk_units units names Us out \<noteq> Inl StackOverflow"
  by (induction Us arbitrary: out) (use process_error(2) in \<open>auto simp: attempt_Inl\<close>)

subsection \<open>The property\<close>


text \<open>A function with an inlined call whose local, an array in a lexical block, has a typedef for its type.\<close>

definition no_attrs :: "die_attr \<Rightarrow> attr_val option option" where "no_attrs = (\<lambda>a. Some None)"

definition one_unit :: dwarf_unit where
  "one_unit = \<lparr>du_base = Some 100, du_len = 500,
     du_root = Die OtherTag 11 no_attrs
       [Die Subprogram 20 (no_attrs(AtLowPc := Some (Some (Addr 4096))))
          [Die InlinedSubroutine 30 (no_attrs(AtAbstractOrigin := Some (Some (UnitRef 60))))
             [Die LexicalBlock 40 no_attrs
                [Die VariableTag 45 (no_attrs(AtLocation := Some (Some (Exprloc [OtherOp, FrameOffset 8])), AtType := Some (Some (UnitRef 70)))) []],
              Die InlinedSubroutine 50 (no_attrs(AtAbstractOrigin := Some (Some (DebugInfoRef 160)))) []]],
        Die Namespace 55 (no_attrs(AtName := Some (Some (OtherVal 0))))
          [Die Subprogram 60 (no_attrs(AtName := Some (Some (OtherVal 1)))) []],
        Die Typedef 70 (no_attrs(AtType := Some (Some (UnitRef 80)))) [],
        Die ArrayType 80 (no_attrs(AtType := Some (Some (UnitRef 90)))) [Die SubrangeType 85 (no_attrs(AtUpperBound := Some (Some (Udata 3)))) []],
        Die OtherTag 90 (no_attrs(AtByteSize := Some (Some (Data1 4)))) []],
     du_text = (\<lambda>v. None), du_lossy = (\<lambda>v. if v = OtherVal 0 then Some ''ltop'' else if v = OtherVal 1 then Some ''run'' else None),
     du_udata = (\<lambda>v. case v of Udata w \<Rightarrow> Some w | Data1 b \<Rightarrow> Some (ucast b) | _ \<Rightarrow> None),
     du_address = (\<lambda>i. None), du_ranges = (\<lambda>d. None)\<rparr>"

lemma one_unit_ends: "types_end one_unit"
proof -
  have n: "next_type one_unit p = (if p = 70 then Some 80 else if p = 80 then Some 90 else None)" for p
    by (simp add: next_type_def entry_at_def one_unit_def die_udata_def got_def no_attrs_def type_ref_def modifier_tag_def pointer_tag_def)
  then have "type_steps one_unit (Suc (Suc (Suc 0))) p = None" for p by simp
  then show ?thesis unfolding types_end_def by blast
qed

lemma one_unit_size: "byte_size_of one_unit (size_fuel one_unit) 70 = Inr (Some 16)"
proof -
  have "byte_size_of one_unit (Suc (Suc (Suc 0))) 70 = Inr (Some 16)"
    by (simp add: one_unit_def entry_at_def die_udata_def got_def no_attrs_def type_ref_def modifier_tag_def pointer_tag_def
        array_size_def)
  moreover have "size_fuel one_unit = Suc (Suc (Suc 0)) + 10" by (simp add: size_fuel_def one_unit_def)
  ultimately show ?thesis by (simp only: byte_size_same)
qed

lemma one_unit_name: "build_name_map [one_unit] 160 = Some ''ltop::run''"
  by (simp add: build_name_map_def unit_names_def one_unit_def read_attr_string_def got_def no_attrs_def full_name_def scope_tag_def)


end
