(* ===== verification/Stackread.thy ===== *)
theory Stackread
  imports Dwarf Macho
begin

unbundle bit_operations_syntax

text \<open>
  The readers of stack-svg (tools/stack-svg): sections, symbols and \<open>.stack_sizes\<close> of an ELF file, and the text that
  objdump prints of the disassembly and of the symbol table. File contents are bytes, texts are ASCII strings; what
  objdump prints is an argument, as is the order in which the hash maps are walked. An index out of range is a panic,
  \<open>None\<close>; sums wrap. The units of the debug information are those of theory Dwarf.
\<close>

subsection \<open>The file format\<close>

datatype bin_format = Elf | MachO

definition detect_format :: "u8 list \<Rightarrow> bin_format option" where
  "detect_format bytes =
     (if length bytes < 4 then None
      else if take 4 bytes = [0x7f, 0x45, 0x4c, 0x46] then Some Elf
      else if take 4 bytes = [0xcf, 0xfa, 0xed, 0xfe] then Some MachO
      else None)"

subsection \<open>ELF\<close>

definition r_u16 :: "u8 list \<Rightarrow> nat \<Rightarrow> u16 option" where
  "r_u16 b off = (if off + 2 \<le> length b then Some (ucast (b ! off) OR push_bit 8 (ucast (b ! (off + 1)))) else None)"

text \<open>\<open>str::from_utf8\<close> succeeds.\<close>

fun utf8_valid :: "nat list \<Rightarrow> bool" where
  "utf8_valid [] = True"
| "utf8_valid (a # bs) =
     (if a < 0x80 then utf8_valid bs
      else case bs of [] \<Rightarrow> False
      | b # bs1 \<Rightarrow>
        (if 0xC2 \<le> a \<and> a \<le> 0xDF then 0x80 \<le> b \<and> b \<le> 0xBF \<and> utf8_valid bs1
         else case bs1 of [] \<Rightarrow> False
         | c # bs2 \<Rightarrow>
           (if 0xE0 \<le> a \<and> a \<le> 0xEF
            then (if a = 0xE0 then 0xA0 else 0x80) \<le> b \<and> b \<le> (if a = 0xED then 0x9F else 0xBF) \<and>
              0x80 \<le> c \<and> c \<le> 0xBF \<and> utf8_valid bs2
            else case bs2 of [] \<Rightarrow> False
            | d # bs3 \<Rightarrow> 0xF0 \<le> a \<and> a \<le> 0xF4 \<and>
              (if a = 0xF0 then 0x90 else 0x80) \<le> b \<and> b \<le> (if a = 0xF4 then 0x8F else 0xBF) \<and>
              0x80 \<le> c \<and> c \<le> 0xBF \<and> 0x80 \<le> d \<and> d \<le> 0xBF \<and> utf8_valid bs3)))"

definition cstr :: "u8 list \<Rightarrow> nat \<Rightarrow> string" where
  "cstr strtab off =
     (if off \<ge> length strtab then []
      else let s = List.map unat (takeWhile (\<lambda>b. b \<noteq> 0) (drop off strtab))
           in if utf8_valid s then List.map (char_of :: nat \<Rightarrow> char) s else ''<invalid-utf8>'')"

record shdr =
  sh_name :: string
  sh_ty :: u32
  sh_link :: u32
  sh_data :: "u8 list"
  sh_entsize :: u64

datatype elf_error = NotElf | NotElf64 | BadShentsize nat

text \<open>\<open>read_shdr\<close>, without the fields that its callers drop: data, name offset, type, link, entry size.\<close>

definition read_shdr :: "u8 list \<Rightarrow> u64 \<Rightarrow> nat \<Rightarrow> nat \<Rightarrow> (u8 list \<times> nat \<times> u32 \<times> u32 \<times> u64) option" where
  "read_shdr elf e_shoff e_shentsize i = do {
     let o' = e_shoff + of_nat (i * e_shentsize);
     nm \<leftarrow> r_u32 elf (unat o');
     ty \<leftarrow> r_u32 elf (unat (o' + 4));
     off \<leftarrow> r_u64 elf (unat (o' + 0x18));
     sz \<leftarrow> r_u64 elf (unat (o' + 0x20));
     link \<leftarrow> r_u32 elf (unat (o' + 0x28));
     entsize \<leftarrow> r_u64 elf (unat (o' + 0x38));
     let lo = min (unat off) (length elf);
     let hi = min (min (unat off + unat sz) (2 ^ 64 - 1)) (length elf);
     Some (if ty = 8 then [] else take (hi - lo) (drop lo elf), unat nm, ty, link, entsize)
   }"

fun read_sections :: "u8 list \<Rightarrow> u64 \<Rightarrow> nat \<Rightarrow> u8 list \<Rightarrow> nat list \<Rightarrow> shdr list option" where
  "read_sections elf e_shoff e_shentsize shstrtab [] = Some []"
| "read_sections elf e_shoff e_shentsize shstrtab (i # is') = do {
     (d, nm, ty, link, entsize) \<leftarrow> read_shdr elf e_shoff e_shentsize i;
     rest \<leftarrow> read_sections elf e_shoff e_shentsize shstrtab is';
     Some (\<lparr>sh_name = cstr shstrtab nm, sh_ty = ty, sh_link = link, sh_data = d, sh_entsize = entsize\<rparr> # rest)
   }"

definition parse_sections :: "u8 list \<Rightarrow> (elf_error + shdr list) option" where
  "parse_sections elf =
     (if length elf < 64 \<or> take 4 elf \<noteq> [0x7f, 0x45, 0x4c, 0x46] then Some (Inl NotElf)
      else if elf ! 4 \<noteq> 2 \<or> elf ! 5 \<noteq> 1 then Some (Inl NotElf64)
      else do {
        shoff \<leftarrow> r_u64 elf 0x28;
        entsize \<leftarrow> r_u16 elf 0x3a;
        num \<leftarrow> r_u16 elf 0x3c;
        strndx \<leftarrow> r_u16 elf 0x3e;
        if unat entsize < 64 then Some (Inl (BadShentsize (unat entsize)))
        else do {
          (shstrtab, _) \<leftarrow> read_shdr elf shoff (unat entsize) (unat strndx);
          secs \<leftarrow> read_sections elf shoff (unat entsize) shstrtab [0..<unat num];
          Some (Inr secs)
        }
      })"

record elf_sym =
  sym_name :: string
  sym_addr :: u64
  sym_size :: u64

fun read_syms :: "u8 list \<Rightarrow> u8 list \<Rightarrow> nat \<Rightarrow> nat list \<Rightarrow> elf_sym list option" where
  "read_syms d strtab ent [] = Some []"
| "read_syms d strtab ent (i # is') = do {
     let o' = i * ent;
     st_name \<leftarrow> r_u32 d o';
     st_info \<leftarrow> (if o' + 4 < length d then Some (d ! (o' + 4)) else None);
     st_value \<leftarrow> r_u64 d (o' + 8);
     st_size \<leftarrow> r_u64 d (o' + 16);
     rest \<leftarrow> read_syms d strtab ent is';
     Some (if st_info AND 0xf = 2 \<and> st_value \<noteq> 0
       then \<lparr>sym_name = cstr strtab (unat st_name), sym_addr = st_value, sym_size = st_size\<rparr> # rest else rest)
   }"

definition parse_symbols :: "shdr list \<Rightarrow> elf_sym list option" where
  "parse_symbols sections =
     (case List.find (\<lambda>s. sh_ty s = 2) sections of None \<Rightarrow> Some []
      | Some symtab \<Rightarrow>
          if unat (sh_link symtab) < length sections
          then (let strtab = sh_data (sections ! unat (sh_link symtab)); ent = unat (sh_entsize symtab)
                in if ent = 0 then Some [] else read_syms (sh_data symtab) strtab ent [0..<length (sh_data symtab) div ent])
          else None)"

subsection \<open>Stack sizes\<close>

text \<open>A hash map whose emptiness is asked for is the list of its insertions, the last one first, read by \<open>map_of\<close>.
  The inner loop: the value, and the position after it; \<open>None\<close> is \<open>return out\<close>.\<close>

function uleb_loop :: "u8 list \<Rightarrow> nat \<Rightarrow> u64 \<Rightarrow> nat \<Rightarrow> (u64 \<times> nat) option" where
  "uleb_loop d i sz shift =
     (if i \<ge> length d then None
      else let b = d ! i; sz = sz OR push_bit shift (ucast (b AND 0x7f))
           in if b AND 0x80 = 0 then Some (sz, i + 1)
              else if shift + 7 \<ge> 64 then None
              else uleb_loop d (i + 1) sz (shift + 7))"
  by pat_completeness auto
termination by (relation "measure (\<lambda>(d, i, sz, shift). length d - i)") auto

declare uleb_loop.simps [simp del]

lemma uleb_loop_moves: "uleb_loop d i sz shift = Some (w, j) \<Longrightarrow> i < j"
proof (induction d i sz shift rule: uleb_loop.induct)
  case (1 d i sz shift)
  then show ?case
    using "1.IH" [OF _ refl refl] by (subst (asm) (2) uleb_loop.simps) (fastforce simp: Let_def split: if_splits)
qed

function sizes_loop :: "u8 list \<Rightarrow> nat \<Rightarrow> (u64 \<times> u64) list \<Rightarrow> (u64 \<times> u64) list" where
  "sizes_loop d i out =
     (if i + 8 \<le> length d
      then case uleb_loop d (i + 8) 0 0 of None \<Rightarrow> out
           | Some (sz, j) \<Rightarrow> sizes_loop d j ((buf_u64 i d, sz) # out)
      else out)"
  by pat_completeness auto
termination
  by (relation "measure (\<lambda>(d, i, out). length d - i)") (auto dest!: uleb_loop_moves)

declare sizes_loop.simps [simp del]

definition parse_stack_sizes :: "shdr list \<Rightarrow> (u64 \<times> u64) list" where
  "parse_stack_sizes sections =
     (case List.find (\<lambda>s. sh_name s = ''.stack_sizes'') sections of None \<Rightarrow> []
      | Some s \<Rightarrow> sizes_loop (sh_data s) 0 [])"

text \<open>What the compiler puts into the section: the address, and the size in base 128 with a continuation bit.\<close>

lemma bit_0x7f: "bit (0x7f :: int) n \<longleftrightarrow> n < 7"
proof -
  have "(0x7f :: int) = semiring_bit_operations_class.mask 7" by (simp add: mask_eq_exp_minus_1)
  then show ?thesis by (simp only: bit_mask_iff possible_bit_def) simp
qed

lemma bit_0x80: "bit (0x80 :: int) n \<longleftrightarrow> n = 7"
proof -
  have "(0x80 :: int) = push_bit 7 1" by (simp add: push_bit_eq_mult)
  then show ?thesis by (simp only: bit_push_bit_iff bit_1_iff) auto
qed

lemma drop_bit_less: "\<not> (w :: u64) < 128 \<Longrightarrow> unat (drop_bit 7 w) < unat w"
  by (simp add: drop_bit_eq_div unat_div word_less_nat_alt)

function uleb128 :: "u64 \<Rightarrow> u8 list" where
  "uleb128 w = (if w < 128 then [ucast w] else ((ucast w AND 0x7f) OR 0x80) # uleb128 (drop_bit 7 w))"
  by pat_completeness auto
termination by (relation "measure unat") (simp_all add: drop_bit_less)

declare uleb128.simps [simp del]

definition size_entry :: "u64 \<times> u64 \<Rightarrow> u8 list" where
  "size_entry e = le_bytes 8 (fst e) @ uleb128 (snd e)"

lemma bit_below_exp: "(w :: u64) < 2 ^ k \<Longrightarrow> bit w n \<Longrightarrow> n < k"
proof (rule ccontr)
  assume w: "w < 2 ^ k" "bit w n" and "\<not> n < k"
  have "drop_bit k w = 0" using w(1) by (simp add: drop_bit_eq_div div_word_less)
  then have "\<not> bit (drop_bit k w) (n - k)" by simp
  then show False using w(2) \<open>\<not> n < k\<close> by (simp add: bit_drop_bit_eq)
qed

lemma seven_bits: "(w :: u64) < 128 \<Longrightarrow> (ucast w :: u8) AND 0x80 = 0 \<and> ucast ((ucast w :: u8) AND 0x7f) = w"
proof -
  assume w: "w < 128"
  have b: "bit w n \<Longrightarrow> n < 7" for n using bit_below_exp [of w 7] w by simp
  have "(ucast w :: u8) AND 0x80 = 0"
    by (rule bit_word_eqI) (use b in \<open>auto simp: bit_simps bit_0x80\<close>)
  moreover have "ucast ((ucast w :: u8) AND 0x7f) = w"
    by (rule bit_word_eqI) (use b in \<open>force simp: bit_simps bit_0x7f\<close>)
  ultimately show ?thesis by simp
qed

lemma continued_byte:
  "((ucast w AND 0x7f) OR 0x80 :: u8) AND 0x80 \<noteq> 0" "((ucast w AND 0x7f) OR 0x80 :: u8) AND 0x7f = ucast w AND 0x7f"
proof -
  have "bit (((ucast w AND 0x7f) OR 0x80 :: u8) AND 0x80) 7" by (simp add: bit_simps bit_0x80)
  then show "((ucast w AND 0x7f) OR 0x80 :: u8) AND 0x80 \<noteq> 0" by (metis bit_0_eq bot_apply bot_bool_def)
  show "((ucast w AND 0x7f) OR 0x80 :: u8) AND 0x7f = ucast w AND 0x7f"
    by (rule bit_word_eqI) (auto simp: bit_simps bit_0x80 bit_0x7f)
qed

lemma seven_and_rest:
  "sh + 7 < 64 \<Longrightarrow> push_bit sh (ucast (ucast w AND 0x7f :: u8)) OR push_bit (sh + 7) (drop_bit 7 w) = push_bit sh (w :: u64)"
proof (rule bit_word_eqI)
  fix n assume "n < LENGTH(64)"
  then show "bit (push_bit sh (ucast (ucast w AND 0x7f :: u8)) OR push_bit (sh + 7) (drop_bit 7 w)) n \<longleftrightarrow> bit (push_bit sh w) n"
    by (cases "n < sh + 7") (auto simp: bit_simps bit_0x7f not_less le_iff_add)
qed

lemma uleb_read:
  "unat w < 2 ^ (64 - sh) \<Longrightarrow> sh < 64 \<Longrightarrow>
   uleb_loop (pre @ uleb128 w @ post) (length pre) acc sh = Some (acc OR push_bit sh w, length pre + length (uleb128 w))"
proof (induction w arbitrary: pre acc sh rule: uleb128.induct)
  case (1 w)
  show ?case
  proof (cases "w < 128")
    case True
    then show ?thesis
      using seven_bits [OF True] by (subst uleb_loop.simps) (simp add: uleb128.simps [of w] nth_append Let_def)
  next
    case False
    let ?b = "(ucast w AND 0x7f) OR 0x80 :: u8"
    have w: "128 \<le> unat w" using False by (simp add: word_less_nat_alt)
    have sh: "sh + 7 < 64"
    proof (rule ccontr)
      assume "\<not> sh + 7 < 64"
      then have "2 ^ (64 - sh) \<le> (2 ^ 7 :: nat)" by (intro power_increasing) simp_all
      then show False using "1.prems"(1) w by simp
    qed
    have "2 ^ (64 - sh) = (2 ^ (64 - (sh + 7)) * 128 :: nat)"
      using sh power_add [of "2 :: nat" "64 - (sh + 7)" 7] by simp
    then have "unat (drop_bit 7 w) < 2 ^ (64 - (sh + 7))"
      using "1.prems"(1) by (simp add: drop_bit_eq_div unat_div less_mult_imp_div_less)
    from "1.IH" [OF False this, of "pre @ [?b]" "acc OR push_bit sh (ucast (?b AND 0x7f))"] sh
    have "uleb_loop ((pre @ [?b]) @ uleb128 (drop_bit 7 w) @ post) (length (pre @ [?b])) (acc OR push_bit sh (ucast (?b AND 0x7f))) (sh + 7)
        = Some (acc OR push_bit sh w, length pre + length (uleb128 w))"
      using seven_and_rest [OF sh, of w] False
      by (simp add: continued_byte or.assoc uleb128.simps [of w])
    then show ?thesis
      using False sh continued_byte(1) [of w]
      by (subst uleb_loop.simps) (simp add: uleb128.simps [of w] nth_append Let_def)
  qed
qed

lemma sizes_loop_entries:
  "length d < 8 \<Longrightarrow> sizes_loop (pre @ concat (List.map size_entry es) @ d) (length pre) out
     = rev es @ out"
proof (induction es arbitrary: pre out)
  case Nil
  then show ?case by (subst sizes_loop.simps) simp
next
  case (Cons e es)
  let ?post = "concat (List.map size_entry es) @ d"
  have u: "uleb_loop ((pre @ le_bytes 8 (fst e)) @ uleb128 (snd e) @ ?post) (length (pre @ le_bytes 8 (fst e))) 0 0
      = Some (snd e, length (pre @ le_bytes 8 (fst e)) + length (uleb128 (snd e)))"
    using uleb_read [of "snd e" 0 "pre @ le_bytes 8 (fst e)" ?post 0] unsigned_less [of "snd e"] by simp
  have a: "buf_u64 (length pre) (pre @ le_bytes 8 (fst e) @ uleb128 (snd e) @ ?post) = fst e"
    by (rule buf_u64_le_bytes) (simp add: buf_get_def)
  have "sizes_loop (pre @ size_entry e @ ?post) (length pre) out
      = sizes_loop (pre @ size_entry e @ ?post) (length (pre @ size_entry e)) (e # out)"
    using u a by (subst sizes_loop.simps) (simp add: size_entry_def add.assoc)
  then show ?case using Cons.IH [of "pre @ size_entry e"] Cons.prems by simp
qed

lemma stack_sizes_read:
  assumes "List.find (\<lambda>s. sh_name s = ''.stack_sizes'') sections = Some s"
    and "sh_data s = concat (List.map size_entry es) @ d" and "length d < 8"
  shows "parse_stack_sizes sections = rev es"
  using sizes_loop_entries [OF assms(3), of "[]" es "[]"] assms(1,2)
  by (simp add: parse_stack_sizes_def)

subsection \<open>Text\<close>

text \<open>\<open>strip_suffix\<close>, \<open>strip_prefix\<close>, \<open>split_once\<close> and \<open>rsplit_once\<close> for a string, \<open>trim\<close>.\<close>

definition strip_end :: "char \<Rightarrow> string \<Rightarrow> string option" where
  "strip_end c s = (if s \<noteq> [] \<and> List.last s = c then Some (butlast s) else None)"

definition strip_start :: "string \<Rightarrow> string \<Rightarrow> string option" where
  "strip_start p s = (if take (length p) s = p then Some (drop (length p) s) else None)"

fun split_str :: "string \<Rightarrow> string \<Rightarrow> (string \<times> string) option" where
  "split_str p [] = None"
| "split_str p (c # cs) =
     (case strip_start p (c # cs) of Some r \<Rightarrow> Some ([], r)
      | None \<Rightarrow> map_option (\<lambda>(a, b). (c # a, b)) (split_str p cs))"

fun rsplit_str :: "string \<Rightarrow> string \<Rightarrow> (string \<times> string) option" where
  "rsplit_str p [] = None"
| "rsplit_str p (c # cs) =
     (case rsplit_str p cs of Some (a, b) \<Rightarrow> Some (c # a, b)
      | None \<Rightarrow> map_option (\<lambda>r. ([], r)) (strip_start p (c # cs)))"

definition trim_start :: "string \<Rightarrow> string" where "trim_start s = dropWhile is_whitespace s"
definition trim_both :: "string \<Rightarrow> string" where "trim_both s = trim_start (trim_end s)"

definition is_hexdigit :: "char \<Rightarrow> bool" where
  "is_hexdigit c \<longleftrightarrow> c \<in> set ''0123456789abcdefABCDEF''"

definition hex_value :: "char \<Rightarrow> nat" where
  "hex_value c = (let n = of_char c in if n < 58 then n - 48 else if n < 71 then n - 55 else n - 87)"

text \<open>\<open>u64::from_str_radix (_, 16)\<close> and \<open>str::parse\<close> for \<open>u64\<close>.\<close>

definition drop_plus :: "string \<Rightarrow> string" where
  "drop_plus s = (case s of c # cs \<Rightarrow> if c = CHR ''+'' \<and> cs \<noteq> [] then cs else s | [] \<Rightarrow> [])"

definition parse_hex :: "string \<Rightarrow> u64 option" where
  "parse_hex s =
     (let ds = drop_plus s; n = foldl (\<lambda>n c. n * 16 + hex_value c) 0 ds
      in if ds = [] \<or> \<not> list_all is_hexdigit ds \<or> n \<ge> 2 ^ 64 then None else Some (of_nat n))"

definition parse_u64 :: "string \<Rightarrow> u64 option" where
  "parse_u64 s = (let ds = drop_plus s in if ds = [] then None else map_option of_nat (parse_digits 0 ds))"

subsection \<open>The disassembly\<close>

text \<open>A function header, \<open><address> <<name>>:\<close>.\<close>

definition header_name :: "string \<Rightarrow> string option" where
  "header_name row = do {
     rest \<leftarrow> strip_end (CHR '':'') row;
     (addr_str, fname) \<leftarrow> split_str '' <'' rest;
     fname \<leftarrow> strip_end (CHR ''>'') fname;
     if list_all is_hexdigit addr_str then Some fname else None
   }"

definition is_branch :: "string \<Rightarrow> bool" where
  "is_branch t \<longleftrightarrow> t \<in> {''call'', ''callq'', ''jmp'', ''jmpq'', ''bl'', ''b''}"

text \<open>The name an instruction line calls or jumps to, if it is counted.\<close>

definition call_target :: "string \<Rightarrow> string option" where
  "call_target row = do {
     (pre, after) \<leftarrow> rsplit_str '' <'' row;
     callee \<leftarrow> strip_end (CHR ''>'') after;
     if \<not> list_ex is_branch (split_ascii_whitespace pre) then None
     else if split_once (CHR ''+'') callee \<noteq> None then None
     else Some callee
   }"

definition push_call :: "string \<Rightarrow> string \<Rightarrow> (string \<rightharpoonup> string list) \<Rightarrow> (string \<rightharpoonup> string list)" where
  "push_call cur callee calls = calls(cur \<mapsto> (case calls cur of Some ts \<Rightarrow> ts | None \<Rightarrow> []) @ [callee])"

definition calls_line :: "(string \<rightharpoonup> string list) \<times> string option \<Rightarrow> string \<Rightarrow> (string \<rightharpoonup> string list) \<times> string option" where
  "calls_line st row =
     (case st of (calls, current) \<Rightarrow>
        case header_name row of Some fname \<Rightarrow> (calls, Some fname)
        | None \<Rightarrow>
            (case current of None \<Rightarrow> (calls, None)
             | Some cur \<Rightarrow>
                 (case call_target row of None \<Rightarrow> (calls, current)
                  | Some callee \<Rightarrow> (push_call cur callee calls, current))))"

text \<open>\<open>retain(|n| seen.insert(n))\<close>.\<close>

fun first_seen :: "string set \<Rightarrow> string list \<Rightarrow> string list" where
  "first_seen S [] = []"
| "first_seen S (n # ns) = (if n \<in> S then first_seen S ns else n # first_seen (insert n S) ns)"

definition objdump_calls :: "string \<Rightarrow> (string \<rightharpoonup> string list)" where
  "objdump_calls txt' = (\<lambda>n. map_option (first_seen {}) (fst (foldl calls_line (Map.empty, None) (str_lines [] txt')) n))"

subsection \<open>The symbol table\<close>

definition symtab_line :: "string \<Rightarrow> (u64 \<times> string) option" where
  "symtab_line row = do {
     (head, after_f) \<leftarrow> split_str '' F '' row;
     addr \<leftarrow> parse_hex (case split_ascii_whitespace head of [] \<Rightarrow> [] | w # ws \<Rightarrow> w);
     rest \<leftarrow> (case dropWhile (\<lambda>c. \<not> is_whitespace c) after_f of [] \<Rightarrow> None | c # r \<Rightarrow> Some (trim_start r));
     let nm = (case split_once (CHR 0x09) rest of
         Some (maybe_size, name_tail) \<Rightarrow>
           (let s = trim_both maybe_size
            in if length s = 16 \<and> list_all is_hexdigit s then trim_both name_tail else rest)
       | None \<Rightarrow> trim_both rest);
     if nm = [] then None else Some (addr, nm)
   }"

definition objdump_symtab :: "string \<Rightarrow> (u64 \<rightharpoonup> string)" where
  "objdump_symtab txt' =
     foldl (\<lambda>m row. case symtab_line row of None \<Rightarrow> m | Some (addr, nm) \<Rightarrow> m(addr \<mapsto> nm)) Map.empty (str_lines [] txt')"

subsection \<open>Frame sizes from prologues\<close>

definition parse_imm :: "string \<Rightarrow> u64 option" where
  "parse_imm s =
     (let s = trim_both s
      in case strip_start ''0x'' s of Some hex \<Rightarrow> parse_hex hex | None \<Rightarrow> parse_u64 s)"

definition parse_aarch64_prologue :: "string \<Rightarrow> u64 option" where
  "parse_aarch64_prologue row =
     (let cols = split_on (\<lambda>c. c = CHR 0x09) row
      in if length cols < 2 then None
         else let mnemonic = trim_both (cols ! 1); operands = trim_both (if length cols > 2 then cols ! 2 else [])
         in if mnemonic = ''sub''
            then do {
              rest \<leftarrow> strip_start ''sp,'' operands;
              rest \<leftarrow> strip_start ''sp,'' (trim_start rest);
              imm \<leftarrow> strip_start ''#'' (trim_start rest);
              parse_imm (takeWhile (\<lambda>c. c \<notin> {CHR '','', CHR '' '', CHR '';''}) imm)
            }
            else if mnemonic = ''stp''
            then (if strip_start ''x29, x30, [sp, #-'' operands = None then None
                  else if split_str '']!'' operands = None then None
                  else do {
                    (_, rest) \<leftarrow> split_str ''#-'' operands;
                    let piece = (case split_str ''#-'' rest of None \<Rightarrow> rest | Some (a, _) \<Rightarrow> a);
                    parse_imm (takeWhile (\<lambda>c. c \<noteq> CHR '']'') piece)
                  })
            else None)"

record size_scan =
  ss_sizes :: "(string \<times> u64) list"
  ss_current :: "string option"
  ss_found :: bool

definition close_scan :: "size_scan \<Rightarrow> size_scan" where
  "close_scan st =
     (case ss_current st of None \<Rightarrow> st
      | Some prev \<Rightarrow> if ss_found st then st else st\<lparr>ss_sizes := (prev, 0) # ss_sizes st\<rparr>)"

definition sizes_line :: "size_scan \<Rightarrow> string \<Rightarrow> size_scan" where
  "sizes_line st row =
     (case header_name row of
        Some fname \<Rightarrow> (close_scan st)\<lparr>ss_current := Some fname, ss_found := False\<rparr>
      | None \<Rightarrow>
          if ss_found st then st
          else (case ss_current st of None \<Rightarrow> st
            | Some cur \<Rightarrow>
                (case parse_aarch64_prologue row of None \<Rightarrow> st
                 | Some sz \<Rightarrow> st\<lparr>ss_sizes := (cur, sz) # ss_sizes st, ss_found := True\<rparr>)))"

definition objdump_frame_sizes :: "string \<Rightarrow> (string \<times> u64) list" where
  "objdump_frame_sizes txt' =
     ss_sizes (close_scan (foldl sizes_line \<lparr>ss_sizes = [], ss_current = None, ss_found = False\<rparr> (str_lines [] txt')))"

subsection \<open>The join\<close>

definition join_demangled :: "(u64 \<rightharpoonup> u64) \<Rightarrow> frame_table \<Rightarrow> u64 \<times> string \<Rightarrow> frame_table" where
  "join_demangled sizes fr e =
     fr\<lparr>addr_by_name := (addr_by_name fr)(snd e \<mapsto> fst e),
        stack_by_name := (case sizes (fst e) of None \<Rightarrow> stack_by_name fr
          | Some sz \<Rightarrow> (stack_by_name fr)(snd e \<mapsto> unat sz))\<rparr>"

definition join_symbol :: "(u64 \<rightharpoonup> u64) \<Rightarrow> frame_table \<Rightarrow> elf_sym \<Rightarrow> frame_table" where
  "join_symbol sizes fr s =
     fr\<lparr>addr_by_name := (if addr_by_name fr (sym_name s) = None then (addr_by_name fr)(sym_name s \<mapsto> sym_addr s) else addr_by_name fr),
        stack_by_name := (if stack_by_name fr (sym_name s) = None
          then (case sizes (sym_addr s) of None \<Rightarrow> stack_by_name fr
                | Some sz \<Rightarrow> (stack_by_name fr)(sym_name s \<mapsto> unat sz))
          else stack_by_name fr)\<rparr>"

datatype tool_error = UnknownFormat | ElfError elf_error | NoStackSizes | NoPrologues | NoEntry

text \<open>The frames of an ELF file and of a Mach-O file; \<open>order\<close> lists the entries of the demangled symbol table.\<close>

definition elf_frames :: "u8 list \<Rightarrow> (u64 \<times> string) list \<Rightarrow> (tool_error + frame_table) option" where
  "elf_frames bytes order = do {
     r \<leftarrow> parse_sections bytes;
     (case r of Inl e \<Rightarrow> Some (Inl (ElfError e))
      | Inr sections \<Rightarrow> do {
          syms \<leftarrow> parse_symbols sections;
          let sizes = parse_stack_sizes sections;
          if sizes = [] then Some (Inl NoStackSizes)
          else Some (Inr (foldl (join_symbol (map_of sizes))
            (foldl (join_demangled (map_of sizes)) \<lparr>stack_by_name = Map.empty, addr_by_name = Map.empty\<rparr> order) syms))
        })
   }"

definition macho_frames :: "string \<Rightarrow> (u64 \<times> string) list \<Rightarrow> tool_error + frame_table" where
  "macho_frames disasm order =
     (let sizes = objdump_frame_sizes disasm
      in if sizes = [] then Inl NoPrologues
         else Inr \<lparr>stack_by_name = map_option unat \<circ> map_of sizes,
                   addr_by_name = foldl (\<lambda>m e. m(snd e \<mapsto> fst e)) Map.empty order\<rparr>)"

text \<open>\<open>run\<close> up to the drawing, on the file, what objdump printed, the debug information and the command line.\<close>

definition analyse ::
    "u8 list \<Rightarrow> string \<Rightarrow> (u64 \<times> string) list \<Rightarrow> dwarf_unit list \<Rightarrow> string list \<Rightarrow>
     (tool_error + (stack_event list \<times> frame_rect list \<times> frame_marker list \<times> nat)) option" where
  "analyse bytes disasm order units args =
     (case parse_bounds args of (bounds, entry_arg, _) \<Rightarrow>
        let entry = (case entry_arg of None \<Rightarrow> ''main'' | Some e \<Rightarrow> e)
        in case detect_format bytes of None \<Rightarrow> Some (Inl UnknownFormat)
           | Some format \<Rightarrow> do {
               r \<leftarrow> (case format of Elf \<Rightarrow> elf_frames bytes order | MachO \<Rightarrow> Some (macho_frames disasm order));
               (case r of Inl e \<Rightarrow> Some (Inl e)
                | Inr frames \<Rightarrow>
                    if addr_by_name frames entry = None then Some (Inl NoEntry)
                    else do {
                      inlines \<leftarrow> (case format of Elf \<Rightarrow> inlines_of_units units | MachO \<Rightarrow> Some Map.empty);
                      events \<leftarrow> walk_events
                        \<lparr>we_calls = objdump_calls disasm, we_frames = frames, we_bounds = bounds,
                         we_inlines = inlines\<rparr> entry;
                      let (rects, markers, peak) = stack_rects events;
                      Some (Inr (events, rects, markers, peak))
                    })
             })"

subsection \<open>The call graph of a listing\<close>

text \<open>A listing as objdump prints it: functions with their address, their name and their instructions, of which the
  calls and jumps end in the name of their target.\<close>

datatype asm_line = PlainLine string | BranchLine string string

type_synonym asm_function = "string \<times> string \<times> asm_line list"

fun asm_text :: "asm_line \<Rightarrow> string" where
  "asm_text (PlainLine s) = s"
| "asm_text (BranchLine pre callee) = pre @ '' <'' @ callee @ ''>''"

fun asm_callee :: "asm_line \<Rightarrow> string option" where
  "asm_callee (PlainLine s) = None"
| "asm_callee (BranchLine pre callee) = Some callee"

definition listing_lines :: "asm_function list \<Rightarrow> string list" where
  "listing_lines fs = concat (List.map (\<lambda>(addr, nm, is'). (addr @ '' <'' @ nm @ ''>:'') # List.map asm_text is') fs)"

definition listing :: "asm_function list \<Rightarrow> string" where
  "listing fs = concat (List.map (\<lambda>l. l @ [CHR 0x0A]) (listing_lines fs))"

definition callees :: "asm_function list \<Rightarrow> string \<Rightarrow> string list" where
  "callees fs n = concat (List.map (\<lambda>(addr, nm, is'). if nm = n then List.map_filter asm_callee is' else []) fs)"

definition plain_char :: "char \<Rightarrow> bool" where "plain_char c \<longleftrightarrow> c \<noteq> CHR 0x0A \<and> c \<noteq> CHR 0x0D"

text \<open>Names of targets have neither a plus sign nor a blank before an opening bracket.\<close>

fun asm_ok :: "asm_line \<Rightarrow> bool" where
  "asm_ok (PlainLine s) = (list_all plain_char s \<and> header_name s = None \<and> call_target s = None)"
| "asm_ok (BranchLine pre callee) =
     (list_all plain_char pre \<and> list_all plain_char callee \<and> list_ex is_branch (split_ascii_whitespace pre) \<and>
      CHR ''+'' \<notin> set callee \<and> rsplit_str '' <'' callee = None)"

definition function_ok :: "asm_function \<Rightarrow> bool" where
  "function_ok f = (case f of (addr, nm, is') \<Rightarrow> list_all is_hexdigit addr \<and> list_all plain_char nm \<and> list_all asm_ok is')"

lemma str_lines_lines:
  "list_all (list_all plain_char) ls \<Longrightarrow> str_lines [] (concat (List.map (\<lambda>l. l @ [CHR 0x0A]) ls)) = ls"
proof (induction ls)
  case (Cons l ls)
  then have l: "CHR 0x0A \<notin> set l" "CHR 0x0D \<notin> set l" by (auto simp: list_all_iff plain_char_def)
  then have "strip_cr l = l" using last_in_set [of l] by (metis strip_cr_def)
  then show ?case using str_lines_line [OF l(1), of "[]"] Cons by simp
qed simp

lemma rsplit_close: "rsplit_str '' <'' s = None \<Longrightarrow> rsplit_str '' <'' (s @ ''>'') = None"
proof (induction s)
  case (Cons c cs)
  then have "rsplit_str '' <'' cs = None" "strip_start '' <'' (c # cs) = None" by (auto split: option.splits)
  then show ?case using Cons.IH by (cases cs) (auto simp: strip_start_def split: if_splits)
qed (simp add: strip_start_def)

lemma rsplit_found: "rsplit_str '' <'' s = None \<Longrightarrow> rsplit_str '' <'' (pre @ '' <'' @ s) = Some (pre, s)"
  by (induction pre) (simp_all add: strip_start_def)

lemma split_found: "CHR '' '' \<notin> set addr \<Longrightarrow> split_str '' <'' (addr @ '' <'' @ s) = Some (addr, s)"
  by (induction addr) (auto simp: strip_start_def split: if_splits)

lemma strip_end_snoc [simp]: "strip_end c (s @ [c]) = Some s"
  by (simp add: strip_end_def)

lemma header_read:
  assumes a: "list_all is_hexdigit addr"
  shows "header_name (addr @ '' <'' @ nm @ ''>:'') = Some nm"
proof -
  have "\<not> is_hexdigit (CHR '' '')" by (simp add: is_hexdigit_def)
  then have "CHR '' '' \<notin> set addr" using a by (auto simp: list_all_iff)
  then have "split_str '' <'' (addr @ '' <'' @ nm @ ''>'') = Some (addr, nm @ ''>'')" by (rule split_found)
  moreover have "strip_end (CHR '':'') ((addr @ '' <'' @ nm @ ''>'') @ '':'') = Some (addr @ '' <'' @ nm @ ''>'')"
    by (rule strip_end_snoc)
  ultimately show ?thesis using a by (simp add: header_name_def)
qed

lemma asm_read: "asm_ok l \<Longrightarrow> header_name (asm_text l) = None \<and> call_target (asm_text l) = asm_callee l"
proof (cases l)
  case (BranchLine pre callee)
  assume ok: "asm_ok l"
  have "rsplit_str '' <'' (pre @ '' <'' @ callee @ ''>'') = Some (pre, callee @ ''>'')"
    using ok rsplit_found rsplit_close by (simp add: BranchLine)
  then show ?thesis
    using ok split_once_absent [of "CHR ''+''" callee]
    by (simp add: BranchLine header_name_def call_target_def strip_end_def)
qed simp

lemma calls_lines:
  "list_all asm_ok is' \<Longrightarrow> foldl calls_line (calls, Some cur) (List.map asm_text is')
     = (foldl (\<lambda>m t. push_call cur t m) calls (List.map_filter asm_callee is'), Some cur)"
proof (induction is' arbitrary: calls)
  case (Cons l ls)
  then show ?case using asm_read [of l]
    by (cases "asm_callee l") (simp_all add: calls_line_def List.map_filter_simps)
qed (simp add: List.map_filter_simps)

lemma push_calls:
  "foldl (\<lambda>m t. push_call cur t m) calls ts n
     = (if n = cur \<and> ts \<noteq> [] then Some ((case calls cur of Some xs \<Rightarrow> xs | None \<Rightarrow> []) @ ts) else calls n)"
  by (induction ts arbitrary: calls) (auto simp: push_call_def)

lemma calls_functions:
  "list_all function_ok fs \<Longrightarrow> fst (foldl calls_line (calls, c) (listing_lines fs)) n
     = (if callees fs n = [] then calls n else Some ((case calls n of Some xs \<Rightarrow> xs | None \<Rightarrow> []) @ callees fs n))"
proof (induction fs arbitrary: calls c)
  case (Cons f fs)
  obtain addr nm ls where f: "f = (addr, nm, ls)" by (cases f)
  let ?ts = "List.map_filter asm_callee ls"
  have ok: "list_all is_hexdigit addr" "list_all asm_ok ls" using Cons.prems by (simp_all add: f function_ok_def)
  have "calls_line (calls, c) (addr @ '' <'' @ nm @ ''>:'') = (calls, Some nm)"
    using header_read [OF ok(1)] by (simp add: calls_line_def)
  then have "foldl calls_line (calls, c) (listing_lines (f # fs))
      = foldl calls_line (foldl (\<lambda>m t. push_call nm t m) calls ?ts, Some nm) (listing_lines fs)"
    using calls_lines [OF ok(2)] by (simp add: listing_lines_def f)
  then show ?case
    using Cons by (auto simp: push_calls callees_def f)
qed (simp add: listing_lines_def callees_def)

lemma set_first_seen: "set (first_seen S ns) = set ns - S"
  by (induction ns arbitrary: S) auto

lemma distinct_first_seen: "distinct (first_seen S ns)"
  by (induction ns arbitrary: S) (auto simp: set_first_seen)

lemma objdump_calls_listing:
  assumes "list_all function_ok fs"
  shows "objdump_calls (listing fs) n = (if callees fs n = [] then None else Some (first_seen {} (callees fs n)))"
proof -
  have "list_all plain_char (asm_text l)" if "asm_ok l" for l
    using that by (cases l) (auto simp: plain_char_def)
  moreover have "is_hexdigit c \<Longrightarrow> plain_char c" for c by (auto simp: is_hexdigit_def plain_char_def)
  ultimately have "list_all (list_all plain_char) (listing_lines fs)"
    using assms by (fastforce simp: listing_lines_def list_all_iff function_ok_def plain_char_def split: prod.splits)
  then have "str_lines [] (listing fs) = listing_lines fs" by (simp add: listing_def str_lines_lines)
  then show ?thesis using calls_functions [OF assms, of Map.empty None n] by (simp add: objdump_calls_def)
qed

subsection \<open>The lines of the symbol table\<close>

text \<open>As the comment in the source gives them, for a global or a local function.\<close>

definition elf_symbol_line :: "string \<Rightarrow> char \<Rightarrow> string \<Rightarrow> string \<Rightarrow> string" where
  "elf_symbol_line addr scope sz nm = addr @ '' '' @ [scope] @ ''     F .text'' @ [CHR 0x09] @ sz @ '' '' @ nm"

definition macho_symbol_line :: "string \<Rightarrow> char \<Rightarrow> string \<Rightarrow> string" where
  "macho_symbol_line addr scope nm = addr @ '' '' @ [scope] @ ''     F __TEXT,__text '' @ nm"

lemma split_F:
  assumes "CHR '' '' \<notin> set addr" "scope \<noteq> CHR ''F''" "scope \<noteq> CHR '' ''"
  shows "split_str '' F '' (addr @ '' '' @ [scope] @ ''     F '' @ s) = Some (addr @ '' '' @ [scope] @ ''    '', s)"
  using assms by (induction addr) (auto simp: strip_start_def split: if_splits)

lemma hex_not_blank: "is_hexdigit c \<Longrightarrow> \<not> is_ascii_whitespace c \<and> \<not> is_whitespace c \<and> c \<noteq> CHR '' '' \<and> c \<noteq> CHR 0x09"
  by (auto simp: is_hexdigit_def is_ascii_whitespace_def is_whitespace_def)

lemma trim_both_same: "s \<noteq> [] \<Longrightarrow> \<not> is_whitespace (hd s) \<Longrightarrow> \<not> is_whitespace (List.last s) \<Longrightarrow> trim_both s = s"
  by (cases s) (simp_all add: trim_both_def trim_start_def trim_end_same)

lemma symtab_line_read:
  assumes addr: "addr \<noteq> []" "list_all is_hexdigit addr" "parse_hex addr = Some a" and scope: "scope \<in> {CHR ''g'', CHR ''l''}"
    and nm: "nm \<noteq> []" "CHR 0x09 \<notin> set nm" "\<not> is_whitespace (List.last nm)"
  shows "\<not> is_whitespace (hd nm) \<Longrightarrow> symtab_line (macho_symbol_line addr scope nm) = Some (a, nm)"
    and "sz \<noteq> [] \<Longrightarrow> list_all is_hexdigit sz \<Longrightarrow>
      symtab_line (elf_symbol_line addr scope sz nm) = Some (a, sz @ '' '' @ nm)"
proof -
  have sp: "CHR '' '' \<notin> set addr" using addr(2) hex_not_blank by (auto simp: list_all_iff)
  have "\<forall>c \<in> set addr. \<not> is_ascii_whitespace c" using addr(2) hex_not_blank by (auto simp: list_all_iff)
  then have tok: "split_ascii_whitespace (addr @ '' '' @ [scope] @ ''    '') = addr # split_ascii_whitespace ([scope] @ ''    '')"
    using split_ascii_whitespace_Cons [of addr "CHR '' ''" "[scope] @ ''    ''"] addr(1) by (simp add: is_ascii_whitespace_def)
  have sc: "scope \<noteq> CHR ''F''" "scope \<noteq> CHR '' ''" using scope by auto
  note fnd = split_F [OF sp sc]
  have ws: "is_whitespace (CHR '' '')" "is_whitespace (CHR 0x09)" by (simp_all add: is_whitespace_def)
  show "symtab_line (macho_symbol_line addr scope nm) = Some (a, nm)" if h: "\<not> is_whitespace (hd nm)"
  proof -
    have "dropWhile (\<lambda>c. \<not> is_whitespace c) (''__TEXT,__text '' @ nm) = CHR '' '' # nm"
      by (simp add: is_whitespace_def)
    moreover have "trim_start nm = nm" using h nm(1) by (cases nm) (simp_all add: trim_start_def)
    ultimately show ?thesis
      using fnd [of "''__TEXT,__text '' @ nm"] tok addr(3) nm h split_once_absent [OF nm(2)] trim_both_same [of nm]
      by (simp add: symtab_line_def macho_symbol_line_def)
  qed
  show "symtab_line (elf_symbol_line addr scope sz nm) = Some (a, sz @ '' '' @ nm)" if z: "sz \<noteq> []" "list_all is_hexdigit sz"
  proof -
    let ?r = "sz @ '' '' @ nm"
    have hz: "\<not> is_whitespace (hd ?r)" "CHR 0x09 \<notin> set ?r"
      using z nm(2) hex_not_blank by (cases sz; auto simp: list_all_iff)+
    have "dropWhile (\<lambda>c. \<not> is_whitespace c) (''.text'' @ [CHR 0x09] @ ?r) = CHR 0x09 # ?r"
      by (simp add: is_whitespace_def)
    moreover have "trim_start ?r = ?r" using hz(1) z(1) by (cases sz) (simp_all add: trim_start_def)
    moreover have "trim_both ?r = ?r" using hz(1) nm by (intro trim_both_same) simp_all
    ultimately show ?thesis
      using fnd [of "''.text'' @ [CHR 0x09] @ ?r"] tok addr(3) z split_once_absent [OF hz(2)]
      by (simp add: symtab_line_def elf_symbol_line_def)
  qed
qed

subsection \<open>The property\<close>

definition symbol_ok :: "string \<Rightarrow> u64 \<Rightarrow> char \<Rightarrow> string \<Rightarrow> string \<Rightarrow> bool" where
  "symbol_ok addr a scope sz nm \<longleftrightarrow>
     addr \<noteq> [] \<and> list_all is_hexdigit addr \<and> parse_hex addr = Some a \<and> scope \<in> {CHR ''g'', CHR ''l''} \<and>
     sz \<noteq> [] \<and> list_all is_hexdigit sz \<and>
     nm \<noteq> [] \<and> CHR 0x09 \<notin> set nm \<and> \<not> is_whitespace (hd nm) \<and> \<not> is_whitespace (List.last nm)"


definition two_functions :: "asm_function list" where
  "two_functions =
     [(''1000'', ''main'', [PlainLine ''1000: nop'', BranchLine ''1001: call 1010'' ''f'', BranchLine ''1005: jmp 1010'' ''f'']),
      (''1010'', ''f'', [PlainLine ''1010: ret''])]"


end
