(* ===== verification/Inlinebytes.thy ===== *)
theory Inlinebytes
  imports Stackread
begin

unbundle bit_operations_syntax

text \<open>
  inline-bytes (tools/inline-bytes), which attributes the bytes of each function of the linked program to the calls
  inlined into it: the sections handed to gimli, the tree of calls with their address ranges, the byte counts and the
  bounded report. The units are those of theory Dwarf; gimli's depth-first walk is the list of its steps. \<open>demangle\<close>
  is that of crate rustc-demangle. Writing to standard output is taken to succeed.
\<close>

subsection \<open>Sections\<close>

record raw_section =
  rw_name :: string
  rw_data :: "u8 list"

definition clamped :: "u8 list \<Rightarrow> nat \<Rightarrow> nat \<Rightarrow> u8 list" where
  "clamped buf off sz =
     (let lo = min off (length buf); hi = min (min (off + sz) (2 ^ 64 - 1)) (length buf) in take (hi - lo) (drop lo buf))"

definition elf_header :: "u8 list \<Rightarrow> u64 \<Rightarrow> nat \<Rightarrow> nat \<Rightarrow> (u8 list \<times> nat) option" where
  "elf_header elf shoff shentsize i = do {
     let o' = shoff + of_nat (i * shentsize);
     nm \<leftarrow> r_u32 elf (unat o');
     ty \<leftarrow> r_u32 elf (unat (o' + 4));
     off \<leftarrow> r_u64 elf (unat (o' + 0x18));
     sz \<leftarrow> r_u64 elf (unat (o' + 0x20));
     Some (if ty = 8 then [] else clamped elf (unat off) (unat sz), unat nm)
   }"

fun elf_headers :: "u8 list \<Rightarrow> u64 \<Rightarrow> nat \<Rightarrow> u8 list \<Rightarrow> nat list \<Rightarrow> raw_section list option" where
  "elf_headers elf shoff shentsize shstrtab [] = Some []"
| "elf_headers elf shoff shentsize shstrtab (i # is') = do {
     (d, nm) \<leftarrow> elf_header elf shoff shentsize i;
     rest \<leftarrow> elf_headers elf shoff shentsize shstrtab is';
     Some (\<lparr>rw_name = cstr shstrtab nm, rw_data = d\<rparr> # rest)
   }"

definition parse_elf64_le :: "u8 list \<Rightarrow> raw_section list option" where
  "parse_elf64_le elf = do {
     shoff \<leftarrow> r_u64 elf 0x28;
     shentsize \<leftarrow> r_u16 elf 0x3a;
     shnum \<leftarrow> r_u16 elf 0x3c;
     shstrndx \<leftarrow> r_u16 elf 0x3e;
     (shstrtab, _) \<leftarrow> elf_header elf shoff (unat shentsize) (unat shstrndx);
     elf_headers elf shoff (unat shentsize) shstrtab [0..<unat shnum]
   }"

definition cstr_fixed :: "u8 list \<Rightarrow> string" where
  "cstr_fixed b =
     (let s = List.map unat (takeWhile (\<lambda>c. c \<noteq> 0) b)
      in if utf8_valid s then List.map (char_of :: nat \<Rightarrow> char) s else ''<invalid-utf8>'')"

definition dotted :: "string \<Rightarrow> string" where
  "dotted sectname = (case strip_start ''__'' sectname of Some rest \<Rightarrow> ''.'' @ rest | None \<Rightarrow> sectname)"

fun macho_sections :: "u8 list \<Rightarrow> nat \<Rightarrow> nat \<Rightarrow> raw_section list" where
  "macho_sections buf s 0 = []"
| "macho_sections buf s (Suc n) =
     (if s + 80 > length buf then []
      else \<lparr>rw_name = dotted (cstr_fixed (take 16 (drop s buf))),
             rw_data = clamped buf (unat (buf_u32 (s + 0x30) buf)) (unat (buf_u64 (s + 0x28) buf))\<rparr>
           # macho_sections buf (s + 80) n)"

fun macho_commands :: "u8 list \<Rightarrow> nat \<Rightarrow> nat \<Rightarrow> raw_section list option" where
  "macho_commands buf p 0 = Some []"
| "macho_commands buf p (Suc n) =
     (if p + 8 > length buf then Some []
      else do {
        cmd \<leftarrow> r_u32 buf p;
        cmdsize \<leftarrow> r_u32 buf (p + 4);
        if cmdsize = 0 then Some []
        else do {
          here \<leftarrow> (if cmd = 0x19 then map_option (\<lambda>nsects. macho_sections buf (p + 72) (unat nsects)) (r_u32 buf (p + 0x40))
                   else Some []);
          rest \<leftarrow> macho_commands buf (p + unat cmdsize) n;
          Some (here @ rest)
        }
      })"

definition parse_macho64_le :: "u8 list \<Rightarrow> raw_section list option" where
  "parse_macho64_le buf = do { ncmds \<leftarrow> r_u32 buf 0x10; macho_commands buf 0x20 (unat ncmds) }"

text \<open>Outside: a panic. Inside, the refusal of the file.\<close>

definition raw_sections :: "u8 list \<Rightarrow> raw_section list option option" where
  "raw_sections buf =
     (if length buf \<ge> 64 \<and> take 4 buf = [0x7f, 0x45, 0x4c, 0x46] \<and> buf ! 4 = 2 \<and> buf ! 5 = 1
      then map_option Some (parse_elf64_le buf)
      else if length buf \<ge> 32 \<and> buf_u32 0 buf = 0xfeedfacf then map_option Some (parse_macho64_le buf)
      else Some None)"

definition section_data :: "raw_section list \<Rightarrow> string \<Rightarrow> u8 list" where
  "section_data secs nm = (case find (\<lambda>s. rw_name s = nm) secs of Some s \<Rightarrow> rw_data s | None \<Rightarrow> [])"

subsection \<open>Calls and their bytes\<close>

datatype call_entry = Entry string "(u64 \<times> u64) list" "call_entry list"

fun en_name :: "call_entry \<Rightarrow> string" where "en_name (Entry nm rs cs) = nm"
fun en_ranges :: "call_entry \<Rightarrow> (u64 \<times> u64) list" where "en_ranges (Entry nm rs cs) = rs"
fun en_children :: "call_entry \<Rightarrow> call_entry list" where "en_children (Entry nm rs cs) = cs"

definition total_bytes :: "call_entry \<Rightarrow> u64" where
  "total_bytes e = sum_list (List.map (\<lambda>(lo, hi). hi - lo) (en_ranges e))"

definition children_bytes :: "call_entry \<Rightarrow> u64" where
  "children_bytes e = sum_list (List.map total_bytes (en_children e))"

definition self_bytes :: "call_entry \<Rightarrow> u64" where
  "self_bytes e = (if children_bytes e \<le> total_bytes e then total_bytes e - children_bytes e else 0)"

subsection \<open>Names\<close>

text \<open>The steps of gimli's depth-first walk: how far the depth changes, and the entry.\<close>

fun preorder :: "int \<Rightarrow> die \<Rightarrow> (int \<times> die) list" where
  "preorder k (Die t off av ks) = (k, Die t off av ks) # concat (List.map (preorder (k + 1)) ks)"

fun deltas :: "int \<Rightarrow> (int \<times> die) list \<Rightarrow> (int \<times> die) list" where
  "deltas prev [] = []"
| "deltas prev ((k, d) # es) = (k - prev, d) # deltas k es"

definition dfs_steps :: "die \<Rightarrow> (int \<times> die) list" where "dfs_steps d = deltas 0 (preorder 0 d)"

definition subprogram_name :: "(string \<Rightarrow> string) \<Rightarrow> dwarf_unit \<Rightarrow> die \<Rightarrow> string option" where
  "subprogram_name demangle U d =
     (case Option.bind (got d AtLinkageName) (du_text U) of
        Some mangled \<Rightarrow> Some (demangle mangled)
      | None \<Rightarrow> Option.bind (got d AtName) (du_text U))"

definition name_step :: "(string \<Rightarrow> string) \<Rightarrow> dwarf_unit \<Rightarrow> nat \<Rightarrow> (nat \<rightharpoonup> string) \<Rightarrow> int \<times> die \<Rightarrow> (nat \<rightharpoonup> string)" where
  "name_step demangle U base out e =
     (if tag_of (snd e) \<noteq> Subprogram then out
      else (case subprogram_name demangle U (snd e) of None \<Rightarrow> out | Some n \<Rightarrow> out(base + off_of (snd e) \<mapsto> n)))"

definition names_of_unit :: "(string \<Rightarrow> string) \<Rightarrow> (nat \<rightharpoonup> string) \<Rightarrow> dwarf_unit \<Rightarrow> (nat \<rightharpoonup> string)" where
  "names_of_unit demangle out U =
     (case du_base U of None \<Rightarrow> out | Some base \<Rightarrow> foldl (name_step demangle U base) out (dfs_steps (du_root U)))"

definition subprogram_names :: "(string \<Rightarrow> string) \<Rightarrow> dwarf_unit list \<Rightarrow> (nat \<rightharpoonup> string)" where
  "subprogram_names demangle units = foldl (names_of_unit demangle) Map.empty units"

subsection \<open>Address ranges\<close>

definition dw_addr :: "dwarf_unit \<Rightarrow> die \<Rightarrow> die_attr \<Rightarrow> u64 option" where
  "dw_addr U d a = (case got d a of Some (Addr w) \<Rightarrow> Some w | Some (DebugAddrIndex i) \<Rightarrow> du_address U i | _ \<Rightarrow> None)"

definition high_pc :: "u64 \<Rightarrow> die \<Rightarrow> u64" where
  "high_pc low d =
     (case got d AtHighPc of
        Some (Addr a) \<Rightarrow> a
      | Some (Udata u) \<Rightarrow> low + u
      | Some (Data1 u) \<Rightarrow> low + ucast u
      | Some (Data2 u) \<Rightarrow> low + ucast u
      | Some (Data4 u) \<Rightarrow> low + ucast u
      | Some (Data8 u) \<Rightarrow> low + u
      | _ \<Rightarrow> low)"

definition pc_range :: "dwarf_unit \<Rightarrow> die \<Rightarrow> (u64 \<times> u64) list" where
  "pc_range U d =
     (case dw_addr U d AtLowPc of None \<Rightarrow> []
      | Some low \<Rightarrow> if low = 0 then [] else if high_pc low d > low then [(low, high_pc low d)] else [])"

definition entry_ranges :: "dwarf_unit \<Rightarrow> die \<Rightarrow> (u64 \<times> u64) list" where
  "entry_ranges U d =
     (case (got d AtRanges, du_ranges U d) of
        (Some v, Some rs) \<Rightarrow> List.filter (\<lambda>(b, e). b > 0 \<and> b < e) rs
      | _ \<Rightarrow> pc_range U d)"

subsection \<open>The walk\<close>

text \<open>The open calls, the innermost first, with the depth at which each was opened.\<close>

type_synonym walk_state = "(call_entry \<times> int) list \<times> call_entry list"

fun close_frames :: "int \<Rightarrow> (call_entry \<times> int) list \<Rightarrow> call_entry list \<Rightarrow> walk_state" where
  "close_frames k [] out = ([], out)"
| "close_frames k [(e, od)] out = (if od < k then ([(e, od)], out) else ([], out @ [e]))"
| "close_frames k ((e, od) # (Entry nm rs cs, od') # st) out =
     (if od < k then ((e, od) # (Entry nm rs cs, od') # st, out)
      else close_frames k ((Entry nm rs (cs @ [e]), od') # st) out)"

fun close_all :: "(call_entry \<times> int) list \<Rightarrow> call_entry list \<Rightarrow> call_entry list" where
  "close_all [] out = out"
| "close_all [(e, od)] out = out @ [e]"
| "close_all ((e, od) # (Entry nm rs cs, od') # st) out = close_all ((Entry nm rs (cs @ [e]), od') # st) out"

definition origin_name :: "dwarf_unit \<Rightarrow> (nat \<rightharpoonup> string) \<Rightarrow> die \<Rightarrow> string option" where
  "origin_name U names d = Option.bind (Option.bind (got d AtAbstractOrigin) (abs_offset U)) names"

text \<open>The call an entry opens, if any, given whether some call is open.\<close>

definition opened_call :: "dwarf_unit \<Rightarrow> nat \<Rightarrow> (nat \<rightharpoonup> string) \<Rightarrow> bool \<Rightarrow> die \<Rightarrow> (string \<times> (u64 \<times> u64) list) option" where
  "opened_call U base names inside d =
     (let ranges = entry_ranges U d
      in if tag_of d = Subprogram
         then (if ranges \<noteq> []
               then Some (case names (base + off_of d) of Some n \<Rightarrow> n | None \<Rightarrow> ''<unnamed-subprogram>'', ranges) else None)
         else if tag_of d = InlinedSubroutine
         then (if ranges \<noteq> [] \<and> inside
               then Some (case origin_name U names d of Some n \<Rightarrow> n | None \<Rightarrow> ''<unresolved-inline>'', ranges) else None)
         else None)"

definition visit_entry :: "dwarf_unit \<Rightarrow> nat \<Rightarrow> (nat \<rightharpoonup> string) \<Rightarrow> walk_state \<Rightarrow> int \<times> die \<Rightarrow> walk_state" where
  "visit_entry U base names s e =
     (case close_frames (fst e) (fst s) (snd s) of (st, out) \<Rightarrow>
        (case opened_call U base names (st \<noteq> []) (snd e) of None \<Rightarrow> (st, out)
         | Some (nm, rs) \<Rightarrow> ((Entry nm rs [], fst e) # st, out)))"

fun visit_steps :: "dwarf_unit \<Rightarrow> nat \<Rightarrow> (nat \<rightharpoonup> string) \<Rightarrow> int \<Rightarrow> walk_state \<Rightarrow> (int \<times> die) list \<Rightarrow> walk_state" where
  "visit_steps U base names k s [] = s"
| "visit_steps U base names k s ((delta, d) # es) =
     visit_steps U base names (k + delta) (visit_entry U base names s (k + delta, d)) es"

definition walk_unit :: "dwarf_unit \<Rightarrow> (nat \<rightharpoonup> string) \<Rightarrow> call_entry list \<Rightarrow> call_entry list" where
  "walk_unit U names out =
     (case du_base U of None \<Rightarrow> out
      | Some base \<Rightarrow> (case visit_steps U base names 0 ([], out) (dfs_steps (du_root U)) of (st, out) \<Rightarrow> close_all st out))"

definition all_calls :: "(string \<Rightarrow> string) \<Rightarrow> dwarf_unit list \<Rightarrow> call_entry list" where
  "all_calls demangle units =
     foldl (\<lambda>out U. walk_unit U (subprogram_names demangle units) out) [] units"

subsection \<open>The report\<close>

definition IB_MAX_DEPTH :: nat where "IB_MAX_DEPTH = 12"
definition MAX_CHILDREN_PER_LEVEL :: nat where "MAX_CHILDREN_PER_LEVEL = 20"
definition MAX_TOTAL_LINES :: nat where "MAX_TOTAL_LINES = 5000"
definition MIN_BYTES_AT_LEAF :: u64 where "MIN_BYTES_AT_LEAF = 8"
definition MAX_NEEDLE_HITS :: nat where "MAX_NEEDLE_HITS = 8"

text \<open>The printer: the lines written, those left, and whether it was cut off. A false result is an \<open>Err\<close>.\<close>

record line_printer =
  lp_lines :: "string list"
  lp_left :: nat
  lp_cut :: bool

definition put_line :: "line_printer \<Rightarrow> string \<Rightarrow> line_printer \<times> bool" where
  "put_line p s =
     (if lp_left p = 0 then (p\<lparr>lp_cut := True\<rparr>, False)
      else (p\<lparr>lp_left := lp_left p - 1, lp_lines := lp_lines p @ [s]\<rparr>, True))"

text \<open>The dash and the ellipsis of the report, in UTF-8.\<close>

definition EM_DASH :: string where "EM_DASH = [CHR 0xE2, CHR 0x80, CHR 0x94]"
definition ELLIPSIS :: string where "ELLIPSIS = [CHR 0xE2, CHR 0x80, CHR 0xA6]"

definition head_line :: "call_entry \<Rightarrow> nat \<Rightarrow> string" where
  "head_line e indent =
     (if indent = 0
      then en_name e @ '' '' @ EM_DASH @ '' total '' @ decimal (unat (total_bytes e)) @ '' B, self '' @
        decimal (unat (self_bytes e)) @ '' B''
      else replicate (indent * 2) (CHR '' '') @ en_name e @ '' '' @ EM_DASH @ '' '' @ decimal (unat (total_bytes e)) @ '' B'')"

definition more_line :: "nat \<Rightarrow> call_entry list \<Rightarrow> string" where
  "more_line indent rest =
     replicate ((indent + 1) * 2) (CHR '' '') @ ELLIPSIS @ '' '' @ decimal (length rest) @ '' more, '' @
       decimal (unat (sum_list (List.map total_bytes rest))) @ '' B total''"

text \<open>A stable sort, the largest first.\<close>

definition by_bytes :: "call_entry list \<Rightarrow> call_entry list" where
  "by_bytes es = sort_key (\<lambda>e. - int (unat (total_bytes e))) es"

definition big_kids :: "call_entry \<Rightarrow> call_entry list" where
  "big_kids e = by_bytes (List.filter (\<lambda>c. total_bytes c \<ge> MIN_BYTES_AT_LEAF) (en_children e))"

function put_tree :: "line_printer \<Rightarrow> call_entry \<Rightarrow> nat \<Rightarrow> line_printer \<times> bool"
  and put_trees :: "line_printer \<Rightarrow> call_entry list \<Rightarrow> nat \<Rightarrow> line_printer \<times> bool" where
  "put_tree p e indent =
     (case put_line p (head_line e indent) of (p, ok) \<Rightarrow>
        if \<not> ok then (p, False)
        else if indent + 1 > IB_MAX_DEPTH then (p, True)
        else (case put_trees p (take MAX_CHILDREN_PER_LEVEL (big_kids e)) (indent + 1) of (p, ok) \<Rightarrow>
          if \<not> ok then (p, False)
          else if length (big_kids e) > MAX_CHILDREN_PER_LEVEL
          then put_line p (more_line indent (drop MAX_CHILDREN_PER_LEVEL (big_kids e)))
          else (p, True)))"
| "put_trees p [] indent = (p, True)"
| "put_trees p (e # es) indent =
     (case put_tree p e indent of (p, ok) \<Rightarrow> if \<not> ok then (p, False) else put_trees p es indent)"
  by pat_completeness auto
termination
  by (relation "inv_image (less_than <*lex*> less_than)
      (case_sum (\<lambda>(p, e, d). (IB_MAX_DEPTH + 1 - d, 0)) (\<lambda>(p, es, d). (IB_MAX_DEPTH + 1 - d, length es + 1)))")
    auto

declare put_tree.simps [simp del]

fun put_hits :: "line_printer \<Rightarrow> call_entry list \<Rightarrow> line_printer" where
  "put_hits p [] = p"
| "put_hits p (e # es) =
     (case put_tree p e 0 of (p, ok) \<Rightarrow> if \<not> ok then p else put_hits (p\<lparr>lp_lines := lp_lines p @ [[]]\<rparr>) es)"

definition fresh_printer :: line_printer where
  "fresh_printer = \<lparr>lp_lines = [], lp_left = MAX_TOTAL_LINES, lp_cut = False\<rparr>"

text \<open>\<open>{:>n}\<close>.\<close>

definition right_aligned :: "nat \<Rightarrow> string \<Rightarrow> string" where
  "right_aligned n s = replicate (n - length s) (CHR '' '') @ s"

definition top_line :: "call_entry \<Rightarrow> string" where
  "top_line e = right_aligned 8 (decimal (unat (total_bytes e))) @ '' B  self '' @
     right_aligned 6 (decimal (unat (self_bytes e))) @ '' B  '' @ en_name e"

definition matched_line :: "nat \<Rightarrow> nat \<Rightarrow> string" where
  "matched_line hits top_n = ELLIPSIS @ '' '' @ decimal (hits - top_n) @ '' more subprograms matched (showing top '' @
     decimal top_n @ '' by bytes)''"

text \<open>What \<open>main\<close> prints; \<open>None\<close> is the exit with status 1 because nothing matches.\<close>

definition bytes_report :: "call_entry list \<Rightarrow> string option \<Rightarrow> line_printer option" where
  "bytes_report found needle =
     (case needle of
        Some n \<Rightarrow>
          (let hits = by_bytes (List.filter (\<lambda>e. str_contains n (en_name e)) found); top_n = min (length hits) MAX_NEEDLE_HITS
           in if hits = [] then None
              else let p = put_hits fresh_printer (take top_n hits)
                   in Some (if length hits > top_n then p\<lparr>lp_lines := lp_lines p @ [matched_line (length hits) top_n]\<rparr> else p))
      | None \<Rightarrow> Some (fresh_printer\<lparr>lp_lines := List.map top_line (take 30 (by_bytes found))\<rparr>))"


subsection \<open>The walk builds the tree of calls\<close>

text \<open>The calls of an entry and of all below it, those that open nothing being skipped.\<close>

fun calls_of :: "dwarf_unit \<Rightarrow> nat \<Rightarrow> (nat \<rightharpoonup> string) \<Rightarrow> bool \<Rightarrow> die \<Rightarrow> call_entry list" where
  "calls_of U base names inside (Die t off av ks) =
     (case opened_call U base names inside (Die t off av ks) of
        None \<Rightarrow> concat (List.map (calls_of U base names inside) ks)
      | Some (nm, rs) \<Rightarrow> [Entry nm rs (concat (List.map (calls_of U base names True) ks))])"

fun hang :: "call_entry list \<Rightarrow> walk_state \<Rightarrow> walk_state" where
  "hang es ([], out) = ([], out @ es)"
| "hang es ((Entry nm rs cs, od) # st, out) = ((Entry nm rs (cs @ es), od) # st, out)"

definition below :: "int \<Rightarrow> walk_state \<Rightarrow> bool" where
  "below k s \<longleftrightarrow> (case fst s of [] \<Rightarrow> True | (e, od) # st \<Rightarrow> od < k)"

definition shut :: "int \<Rightarrow> walk_state \<Rightarrow> walk_state" where
  "shut k s = close_frames k (fst s) (snd s)"

definition visit_list :: "dwarf_unit \<Rightarrow> nat \<Rightarrow> (nat \<rightharpoonup> string) \<Rightarrow> walk_state \<Rightarrow> (int \<times> die) list \<Rightarrow> walk_state" where
  "visit_list U base names s es = foldl (visit_entry U base names) s es"

lemma visit_steps_all: "visit_steps U base names k s (deltas k es) = visit_list U base names s es"
proof (induction es arbitrary: k s)
  case (Cons e es)
  then show ?case by (cases e) (simp add: visit_list_def)
qed (simp add: visit_list_def)

lemma walk_state_cases:
  obtains out where "s = ([], out)" | nm rs cs od st out where "s = ((Entry nm rs cs, od) # st, out)"
proof (cases s)
  case (Pair st out)
  then show ?thesis using that by (cases st; cases "fst (hd st)") auto
qed

lemma hang_simps [simp]: "hang [] s = s" "hang (es @ fs) s = hang fs (hang es s)"
  by (cases s rule: walk_state_cases; simp)+

lemma below_hang [simp]: "below k (hang es s) = below k s" "fst (hang es s) = [] \<longleftrightarrow> fst s = []"
  by (cases s rule: walk_state_cases; simp add: below_def)+

lemma shut_same: "below k s \<Longrightarrow> shut k s = s"
proof -
  have "below k (st, out) \<Longrightarrow> close_frames k st out = (st, out)" for st out
    by (cases "(k, st, out)" rule: close_frames.cases) (simp_all add: below_def)
  then show "below k s \<Longrightarrow> shut k s = s" by (cases s) (simp add: shut_def)
qed

lemma shut_below: "below k (shut k s)"
proof -
  have "below k (close_frames k st out)" for st out
    by (induction k st out rule: close_frames.induct) (simp_all add: below_def)
  then show ?thesis by (simp add: shut_def)
qed

lemma shut_shut: "j \<le> k \<Longrightarrow> shut j (shut k s) = shut j s"
proof -
  assume j: "j \<le> k"
  have "shut j (close_frames k st out) = shut j (st, out)" for st out
    using j by (induction k st out rule: close_frames.induct) (auto simp: shut_def)
  then show ?thesis by (simp add: shut_def)
qed

lemma shut_push: "below k s \<Longrightarrow> shut k ((e, k) # fst s, snd s) = hang [e] s"
  using shut_same [of k "hang [e] s"]
  by (cases s rule: walk_state_cases) (auto simp: below_def shut_def)

lemma visit_entry_shut: "visit_entry U base names (shut k s) (k, d) = visit_entry U base names s (k, d)"
  using shut_shut [of k k s] by (simp add: visit_entry_def shut_def)


lemma visit_list_simps [simp]:
  "visit_list U base names s [] = s"
  "visit_list U base names s (e # es) = visit_list U base names (visit_entry U base names s e) es"
  "visit_list U base names s (es @ fs) = visit_list U base names (visit_list U base names s es) fs"
  by (simp_all add: visit_list_def)

lemma visit_preorder:
  "below k s \<Longrightarrow> shut k (visit_list U base names s (preorder k d)) = hang (calls_of U base names (fst s \<noteq> []) d) s"
proof (induction d arbitrary: k s)
  case (Die t off av ks)
  let ?run = "visit_list U base names" and ?calls = "\<lambda>inside ds. concat (List.map (calls_of U base names inside) ds)"
  have kids: "set ds \<subseteq> set ks \<Longrightarrow> below j s \<Longrightarrow>
      shut j (?run s (concat (List.map (preorder j) ds))) = hang (?calls (fst s \<noteq> []) ds) s" for ds j s
  proof (induction ds arbitrary: s)
    case Nil
    then show ?case by (simp add: shut_same)
  next
    case (Cons d ds)
    let ?s = "?run s (preorder j d)" and ?rest = "concat (List.map (preorder j) ds)"
    have first: "shut j ?s = hang (calls_of U base names (fst s \<noteq> []) d) s"
      using Die.IH [of d j s] Cons.prems by simp
    have "shut j (?run ?s ?rest) = shut j (?run (shut j ?s) ?rest)"
    proof (cases ds)
      case Nil
      then show ?thesis using shut_shut by simp
    next
      case (Cons d' ds')
      then show ?thesis by (cases d') (simp add: visit_entry_shut)
    qed
    then show ?case using first Cons.IH [of "shut j ?s"] Cons.prems by (simp add: shut_below)
  qed
  have start: "visit_entry U base names s (k, Die t off av ks) =
      (case opened_call U base names (fst s \<noteq> []) (Die t off av ks) of None \<Rightarrow> s
       | Some (nm, rs) \<Rightarrow> ((Entry nm rs [], k) # fst s, snd s))"
    using shut_same [OF Die.prems] by (cases s) (auto simp: visit_entry_def shut_def split: option.splits)
  have up: "shut k x = shut k (shut (k + 1) x)" for x by (simp add: shut_shut)
  show ?case
  proof (cases "opened_call U base names (fst s \<noteq> []) (Die t off av ks)")
    case None
    have "below (k + 1) s" using Die.prems by (auto simp: below_def split: list.splits)
    then have "shut (k + 1) (?run s (concat (List.map (preorder (k + 1)) ks))) = hang (?calls (fst s \<noteq> []) ks) s"
      using kids by blast
    then show ?thesis using start None Die.prems by (simp add: up [of "?run s _"] shut_same)
  next
    case (Some o')
    obtain nm rs where o': "o' = (nm, rs)" by (cases o')
    let ?s = "((Entry nm rs [], k) # fst s, snd s)"
    have "shut (k + 1) (?run ?s (concat (List.map (preorder (k + 1)) ks))) = hang (?calls True ks) ?s"
      using kids [of ks "k + 1" ?s] by (simp add: below_def)
    then show ?thesis using start Some o' shut_push [OF Die.prems] by (simp add: up [of "?run ?s _"])
  qed
qed

lemma close_all_shut: "close_all st out = (case shut k (st, out) of (st, out) \<Rightarrow> close_all st out)"
proof -
  have "close_all st out = (case close_frames k st out of (st, out) \<Rightarrow> close_all st out)"
    by (induction k st out rule: close_frames.induct) auto
  then show ?thesis by (simp add: shut_def)
qed

lemma walk_unit_calls:
  "du_base U = Some base \<Longrightarrow> walk_unit U names out = out @ calls_of U base names False (du_root U)"
proof -
  assume b: "du_base U = Some base"
  obtain st o' where v: "visit_list U base names ([], out) (preorder 0 (du_root U)) = (st, o')" by fastforce
  have "shut 0 (st, o') = ([], out @ calls_of U base names False (du_root U))"
    using visit_preorder [of 0 "([], out)" U base names "du_root U"] v by (simp add: below_def)
  then show ?thesis
    using b v close_all_shut [of st o' 0] by (simp add: walk_unit_def dfs_steps_def visit_steps_all)
qed


subsection \<open>Every byte is attributed once\<close>

definition covered :: "(u64 \<times> u64) list \<Rightarrow> nat set" where
  "covered rs = (\<Union>(lo, hi) \<in> set rs. {unat lo..<unat hi})"

fun ranges_apart :: "(u64 \<times> u64) list \<Rightarrow> bool" where
  "ranges_apart [] = True"
| "ranges_apart ((lo, hi) # rs) = (lo < hi \<and> {unat lo..<unat hi} \<inter> covered rs = {} \<and> ranges_apart rs)"

fun entries_apart :: "call_entry list \<Rightarrow> bool" where
  "entries_apart [] = True"
| "entries_apart (e # es) =
     ((\<forall>c \<in> set es. covered (en_ranges e) \<inter> covered (en_ranges c) = {}) \<and> entries_apart es)"

text \<open>What the DWARF standard asks of the ranges: those of an entry do not overlap, and those of its inlined calls lie in
  them without overlapping each other.\<close>

fun well_nested :: "call_entry \<Rightarrow> bool" where
  "well_nested (Entry nm rs cs) =
     (ranges_apart rs \<and> entries_apart cs \<and> (\<forall>c \<in> set cs. covered (en_ranges c) \<subseteq> covered rs \<and> well_nested c))"

fun self_sum :: "call_entry \<Rightarrow> u64" where
  "self_sum (Entry nm rs cs) = self_bytes (Entry nm rs cs) + sum_list (List.map self_sum cs)"

lemma covered_simps [simp]: "covered [] = {}" "covered ((lo, hi) # rs) = {unat lo..<unat hi} \<union> covered rs"
  by (auto simp: covered_def)

lemma finite_covered [simp]: "finite (covered rs)" by (auto simp: covered_def)

lemma card_covered: "card (covered rs) < 2 ^ 64"
proof -
  have "covered rs \<subseteq> {..<2 ^ 64 - 1}"
  proof
    fix n assume "n \<in> covered rs"
    then obtain hi :: u64 where "n < unat hi" by (auto simp: covered_def)
    then show "n \<in> {..<2 ^ 64 - 1}" using unat_u64 [of hi] by simp
  qed
  then have "card (covered rs) \<le> 2 ^ 64 - 1" using card_mono [of "{..<2 ^ 64 - 1 :: nat}"] by fastforce
  then show ?thesis by simp
qed

lemma total_covered: "ranges_apart rs \<Longrightarrow> sum_list (List.map (\<lambda>(lo, hi). hi - lo) rs) = of_nat (card (covered rs))"
proof (induction rs rule: ranges_apart.induct)
  case (2 lo hi rs)
  have le: "unat lo \<le> unat hi" using "2.prems" by (simp add: word_less_nat_alt)
  have "card (covered ((lo, hi) # rs)) = unat hi - unat lo + card (covered rs)"
    using "2.prems" by (simp add: card_Un_disjoint)
  then show ?case using 2 le by simp
qed simp

lemma total_card: "well_nested e \<Longrightarrow> total_bytes e = of_nat (card (covered (en_ranges e)))"
  by (cases e) (simp add: total_bytes_def total_covered)

lemma unat_total: "well_nested e \<Longrightarrow> unat (total_bytes e) = card (covered (en_ranges e))"
  using card_covered by (simp add: total_card unsigned_of_nat take_bit_nat_eq_self)

lemma children_card:
  "entries_apart cs \<Longrightarrow> \<forall>c \<in> set cs. well_nested c \<Longrightarrow>
   sum_list (List.map total_bytes cs) = of_nat (card (\<Union>c \<in> set cs. covered (en_ranges c)))"
proof (induction cs)
  case (Cons c cs)
  then have "covered (en_ranges c) \<inter> (\<Union>c \<in> set cs. covered (en_ranges c)) = {}" by auto
  then have "card (\<Union>d \<in> set (c # cs). covered (en_ranges d))
      = card (covered (en_ranges c)) + card (\<Union>d \<in> set cs. covered (en_ranges d))"
    by (simp add: card_Un_disjoint)
  then show ?case using Cons by (simp add: total_card)
qed simp

lemma children_fit: "well_nested e \<Longrightarrow> children_bytes e \<le> total_bytes e"
proof (cases e)
  case (Entry nm rs cs)
  assume w: "well_nested e"
  let ?U = "\<Union>c \<in> set cs. covered (en_ranges c)"
  have "?U \<subseteq> covered rs" using w Entry by auto
  then have le: "card ?U \<le> card (covered rs)" by (intro card_mono) simp_all
  have "children_bytes e = of_nat (card ?U)" using w children_card [of cs] by (simp add: Entry children_bytes_def)
  then have "unat (children_bytes e) = card ?U"
    using le card_covered [of rs] by (simp add: unsigned_of_nat take_bit_nat_eq_self)
  then show ?thesis using le unat_total [OF w] by (simp add: word_le_nat_alt Entry)
qed

lemma self_sum_total: "well_nested e \<Longrightarrow> self_sum e = total_bytes e"
proof (induction e)
  case (Entry nm rs cs)
  then have "List.map self_sum cs = List.map total_bytes cs" by simp
  then have "sum_list (List.map self_sum cs) = sum_list (List.map total_bytes cs)" by (simp only:)
  then show ?case using children_fit [OF Entry.prems] by (simp add: self_bytes_def children_bytes_def)
qed

subsection \<open>The report is bounded\<close>

lemma put_line_count:
  "put_line p s = (p', ok) \<Longrightarrow> length (lp_lines p') + lp_left p' = length (lp_lines p) + lp_left p \<and>
     (\<not> ok \<longrightarrow> lp_left p' = 0) \<and> (lp_cut p' \<longrightarrow> lp_cut p \<or> \<not> ok)"
  by (auto simp: put_line_def split: if_splits)

lemma put_tree_count:
  "put_tree p e indent = (p', ok) \<Longrightarrow> length (lp_lines p') + lp_left p' = length (lp_lines p) + lp_left p \<and>
     (\<not> ok \<longrightarrow> lp_left p' = 0) \<and> (lp_cut p' \<longrightarrow> lp_cut p \<or> \<not> ok)"
  "put_trees p es indent = (p', ok) \<Longrightarrow> length (lp_lines p') + lp_left p' = length (lp_lines p) + lp_left p \<and>
     (\<not> ok \<longrightarrow> lp_left p' = 0) \<and> (lp_cut p' \<longrightarrow> lp_cut p \<or> \<not> ok)"
proof (induction p e indent and p es indent arbitrary: p' ok and p' ok rule: put_tree_put_trees.induct)
  case (1 p e indent)
  obtain p1 ok1 where l: "put_line p (head_line e indent) = (p1, ok1)" by fastforce
  show ?case
  proof (cases "\<not> ok1 \<or> indent + 1 > IB_MAX_DEPTH")
    case True
    then show ?thesis using put_line_count [OF l] l "1.prems" by (subst (asm) put_tree.simps) (auto split: if_splits)
  next
    case False
    obtain p2 ok2 where t: "put_trees p1 (take MAX_CHILDREN_PER_LEVEL (big_kids e)) (indent + 1) = (p2, ok2)" by fastforce
    have 2: "length (lp_lines p2) + lp_left p2 = length (lp_lines p1) + lp_left p1 \<and>
        (\<not> ok2 \<longrightarrow> lp_left p2 = 0) \<and> (lp_cut p2 \<longrightarrow> lp_cut p1 \<or> \<not> ok2)"
      using "1.IH" [OF l [symmetric] _ _ t] False by auto
    show ?thesis
      using put_line_count [OF l] 2 l t False "1.prems" put_line_count [of p2 "more_line indent (drop MAX_CHILDREN_PER_LEVEL (big_kids e))" p' ok]
      by (subst (asm) put_tree.simps) (auto split: if_splits)
  qed
next
  case (3 p e es indent)
  obtain p1 ok1 where t: "put_tree p e indent = (p1, ok1)" by fastforce
  then show ?case using "3.IH"(1) [OF t] "3.IH"(2) [OF t [symmetric]] "3.prems" by (auto split: if_splits)
qed simp

lemma put_hits_count:
  "length (lp_lines (put_hits p es)) + lp_left (put_hits p es) \<le> length (lp_lines p) + lp_left p + length es"
proof (induction es arbitrary: p)
  case (Cons e es)
  obtain p1 ok1 where t: "put_tree p e 0 = (p1, ok1)" by fastforce
  show ?case
    using put_tree_count(1) [OF t] Cons [of "p1\<lparr>lp_lines := lp_lines p1 @ [[]]\<rparr>"] t by auto
qed simp

lemma report_bounded: "bytes_report es needle = Some p \<Longrightarrow> length (lp_lines p) \<le> MAX_TOTAL_LINES + MAX_NEEDLE_HITS + 1"
proof (cases needle)
  case None
  assume "bytes_report es needle = Some p"
  then show ?thesis using None by (auto simp: bytes_report_def MAX_TOTAL_LINES_def)
next
  case (Some n)
  assume r: "bytes_report es needle = Some p"
  let ?hits = "by_bytes (List.filter (\<lambda>e. str_contains n (en_name e)) es)"
  let ?p = "put_hits fresh_printer (take (min (length ?hits) MAX_NEEDLE_HITS) ?hits)"
  have "length (lp_lines ?p) \<le> MAX_TOTAL_LINES + MAX_NEEDLE_HITS"
    using put_hits_count [of fresh_printer "take (min (length ?hits) MAX_NEEDLE_HITS) ?hits"]
    by (simp add: fresh_printer_def)
  then show ?thesis using r Some by (auto simp: bytes_report_def Let_def split: if_splits)
qed


subsection \<open>The property\<close>

lemma all_calls_spec:
  "all_calls demangle units = concat (List.map (\<lambda>U. case du_base U of None \<Rightarrow> []
     | Some base \<Rightarrow> calls_of U base (subprogram_names demangle units) False (du_root U)) units)"
proof -
  have "foldl (\<lambda>out U. walk_unit U names out) out Us = out @ concat (List.map (\<lambda>U. case du_base U of None \<Rightarrow> []
     | Some base \<Rightarrow> calls_of U base names False (du_root U)) Us)" for names out Us
  proof (induction Us arbitrary: out)
    case (Cons U Us)
    then show ?case by (cases "du_base U") (simp_all add: walk_unit_calls, simp add: walk_unit_def)
  qed simp
  then show ?thesis by (simp add: all_calls_def)
qed

text \<open>C40: inline-bytes attributes every byte once. The stack of open calls that the walk keeps over gimli's steps builds
  exactly the trees of calls of the entries, in their order; in a tree whose ranges nest as DWARF has it, the total of the
  function is the number of its addresses, and the bytes of the single calls, without those inlined into them, add up
  to it; and a report has at most 5009 lines.\<close>

theorem bytes_attributed:
  assumes "f \<in> set (all_calls demangle units)" and "well_nested f"
  shows "all_calls demangle units = concat (List.map (\<lambda>U. case du_base U of None \<Rightarrow> []
      | Some base \<Rightarrow> calls_of U base (subprogram_names demangle units) False (du_root U)) units) \<and>
    unat (total_bytes f) = card (covered (en_ranges f)) \<and> self_sum f = total_bytes f \<and>
    (\<forall>needle p. bytes_report (all_calls demangle units) needle = Some p \<longrightarrow>
       length (lp_lines p) \<le> MAX_TOTAL_LINES + MAX_NEEDLE_HITS + 1)"
  using all_calls_spec unat_total [OF assms(2)] self_sum_total [OF assms(2)] report_bounded by blast

definition two_ranges :: dwarf_unit where
  "two_ranges = one_unit\<lparr>
     du_root := Die OtherTag 11 no_attrs
       [Die Subprogram 20 (no_attrs(AtLinkageName := Some (Some (OtherVal 2)), AtRanges := Some (Some (OtherVal 3))))
          [Die LexicalBlock 30 no_attrs
             [Die InlinedSubroutine 40 (no_attrs(AtAbstractOrigin := Some (Some (UnitRef 60)),
                AtLowPc := Some (Some (Addr 4100)), AtHighPc := Some (Some (Data1 8)))) []]],
        Die Subprogram 60 (no_attrs(AtName := Some (Some (OtherVal 1)))) []],
     du_text := (\<lambda>v. if v = OtherVal 1 then Some ''run'' else if v = OtherVal 2 then Some ''_Rmain'' else None),
     du_ranges := (\<lambda>d. Some [(4096, 4128), (0, 16), (8192, 8200)])\<rparr>"

theorem bytes_attributed_witness:
  "\<exists>f. all_calls (drop 2) [two_ranges] = [f] \<and> en_name f = ''main'' \<and> total_bytes f = 40 \<and> self_sum f = 40"
proof -
  let ?names = "subprogram_names (drop 2) [two_ranges]"
  let ?f = "Entry ''main'' [(4096, 4128), (8192, 8200)] [Entry ''run'' [(4100, 4108)] []]"
  have nm: "?names 120 = Some ''main''" "?names 160 = Some ''run''"
    by (simp_all add: subprogram_names_def names_of_unit_def two_ranges_def one_unit_def dfs_steps_def name_step_def
        subprogram_name_def got_def no_attrs_def)
  have all: "all_calls (drop 2) [two_ranges] = [?f]"
    using nm unfolding all_calls_spec
    by (simp add: two_ranges_def one_unit_def opened_call_def entry_ranges_def pc_range_def dw_addr_def high_pc_def
        got_def no_attrs_def origin_name_def abs_offset_def)
  have "well_nested ?f" by auto
  then have "self_sum ?f = total_bytes ?f" using bytes_attributed [of ?f "drop 2" "[two_ranges]"] all by simp
  moreover have "total_bytes ?f = 40" by (simp add: total_bytes_def)
  ultimately show ?thesis using all by auto
qed

end
