(* ===== verification/Legend.thy ===== *)
theory Legend
  imports Stackread
begin

text \<open>
  The legends of arena-svg and stack-svg and the order in which stack-svg draws its rectangles: what the SVG text of
  either tool is made of besides positions. A map that is filled by name is a function; the order in which it is walked
  is an argument (a hash map in arena-svg, the order of the names in stack-svg).
\<close>

text \<open>A stable sort, largest first; sorting by the second key before the first is \<open>a.cmp(b).then(..)\<close>.\<close>

definition descending :: "('a \<Rightarrow> u64) \<Rightarrow> 'a list \<Rightarrow> 'a list" where
  "descending f xs = sort_key (\<lambda>x. - int (unat (f x))) xs"

lemma descending_set [simp]: "set (descending f xs) = set xs" "length (descending f xs) = length xs"
  "distinct (descending f xs) = distinct xs"
  by (simp_all add: descending_def)

lemma descending_sorted: "i < j \<Longrightarrow> j < length xs \<Longrightarrow> f (descending f xs ! j) \<le> f (descending f xs ! i)"
proof -
  assume ij: "i < j" "j < length xs"
  have "sorted (List.map (\<lambda>x. - int (unat (f x))) (descending f xs))" by (simp add: descending_def)
  from sorted_nth_mono [OF this, of i j] ij show ?thesis by (simp add: word_le_def)
qed

subsection \<open>arena-svg\<close>

record label_agg =
  la_max :: u64
  la_area :: u64
  la_num :: "128 word"

definition rect_bytes :: "svg_rect \<Rightarrow> u64" where "rect_bytes r = ucast (lv_hi r - lv_lo r)"

definition rect_area :: "svg_rect \<Rightarrow> u64" where
  "rect_area r = rect_bytes r * max (if lv_start r \<le> rc_end r then ucast (rc_end r - lv_start r) else 0) 1"

definition rect_mid :: "svg_rect \<Rightarrow> u64" where
  "rect_mid r = (ucast (lv_lo r) + ucast (lv_hi r)) div 2"

definition add_label :: "(string \<rightharpoonup> label_agg) \<Rightarrow> svg_rect \<Rightarrow> (string \<rightharpoonup> label_agg)" where
  "add_label m r =
     (let e = (case m (lv_label r) of Some e \<Rightarrow> e | None \<Rightarrow> \<lparr>la_max = 0, la_area = 0, la_num = 0\<rparr>)
      in m(lv_label r \<mapsto> \<lparr>la_max = (if rect_bytes r > la_max e then rect_bytes r else la_max e),
             la_area = la_area e + rect_area r, la_num = la_num e + ucast (rect_mid r) * ucast (rect_area r)\<rparr>))"

definition label_aggs :: "svg_rect list \<Rightarrow> (string \<rightharpoonup> label_agg)" where
  "label_aggs rects = foldl add_label Map.empty rects"

definition centroid :: "label_agg \<Rightarrow> u64" where
  "centroid a = (if la_area a > 0 then ucast (la_num a div ucast (la_area a)) else 0)"

definition arena_legend :: "string list \<Rightarrow> svg_rect list \<Rightarrow> (string \<times> u64 \<times> u64) list" where
  "arena_legend order rects =
     (let entries = List.map (\<lambda>l. case label_aggs rects l of Some a \<Rightarrow> (l, la_max a, centroid a) | None \<Rightarrow> (l, 0, 0)) order
      in take 40 (descending (\<lambda>e. snd (snd e)) (descending (\<lambda>e. fst (snd e)) entries)))"

lemma label_aggs_max:
  "label_aggs rects l = (if List.filter (\<lambda>r. lv_label r = l) rects = [] then None
     else Some (the (label_aggs rects l))) \<and>
   (\<forall>a. label_aggs rects l = Some a \<longrightarrow> la_max a = foldl max 0 (List.map rect_bytes (List.filter (\<lambda>r. lv_label r = l) rects)))"
proof (induction rects rule: rev_induct)
  case (snoc r rects)
  have s: "label_aggs (rects @ [r]) = add_label (label_aggs rects) r" by (simp add: label_aggs_def)
  show ?case
    using snoc by (cases "lv_label r = l") (auto simp: s add_label_def Let_def max_def word_gt_0 split: option.splits if_splits)
qed (simp add: label_aggs_def)

subsection \<open>stack-svg\<close>

definition frame_bytes_of :: "frame_rect \<Rightarrow> u64" where "frame_bytes_of r = of_nat (fb_hi r) - of_nat (fb_lo r)"

definition add_frame :: "(string \<rightharpoonup> u64 \<times> u64) \<Rightarrow> frame_rect \<Rightarrow> (string \<rightharpoonup> u64 \<times> u64)" where
  "add_frame m r =
     (let (most, span) = (case m (fb_name r) of Some e \<Rightarrow> e | None \<Rightarrow> (0, 0)); sz = frame_bytes_of r
      in m(fb_name r \<mapsto> (if sz > most then sz else most, span + of_nat (fb_end r - fb_start r) * max sz 1)))"

definition frame_aggs :: "frame_rect list \<Rightarrow> (string \<rightharpoonup> u64 \<times> u64)" where
  "frame_aggs rects = foldl add_frame Map.empty rects"

definition stack_legend :: "string list \<Rightarrow> frame_rect list \<Rightarrow> (string \<times> u64 \<times> u64) list" where
  "stack_legend order rects =
     (let legend = List.map (\<lambda>n. (n, case frame_aggs rects n of Some e \<Rightarrow> e | None \<Rightarrow> (0, 0))) order
      in take 42 (descending (\<lambda>e. fst (snd e)) (descending (\<lambda>e. snd (snd e)) legend)))"

definition drawn_order :: "frame_rect list \<Rightarrow> frame_rect list" where
  "drawn_order rects =
     descending frame_bytes_of (List.filter (\<lambda>r. fb_kind r = RealRect) rects) @ List.filter (\<lambda>r. fb_kind r = InlinedRect) rects"

text \<open>Every rectangle is drawn, and a frame only over frames that are at least as large.\<close>

lemma drawn_order_all: "mset (drawn_order rects) = mset rects"
proof -
  have "mset (List.filter (\<lambda>r. fb_kind r = RealRect) rects) + mset (List.filter (\<lambda>r. fb_kind r = InlinedRect) rects) = mset rects"
  proof (induction rects)
    case (Cons r rects)
    then show ?case by (cases "fb_kind r") simp_all
  qed simp
  then show ?thesis by (simp add: drawn_order_def descending_def)
qed

lemma drawn_order_large_first:
  assumes "i < j" "j < length (drawn_order rects)" "fb_kind (drawn_order rects ! j) = RealRect"
  shows "frame_bytes_of (drawn_order rects ! j) \<le> frame_bytes_of (drawn_order rects ! i)"
proof -
  let ?real = "List.filter (\<lambda>r. fb_kind r = RealRect) rects" and ?inl = "List.filter (\<lambda>r. fb_kind r = InlinedRect) rects"
  have "j < length ?real"
  proof (rule ccontr)
    assume j: "\<not> j < length ?real"
    then have "drawn_order rects ! j = ?inl ! (j - length ?real)" by (simp add: drawn_order_def nth_append)
    moreover have "?inl ! (j - length ?real) \<in> set ?inl"
      using j assms(2) by (intro nth_mem) (simp add: drawn_order_def)
    ultimately show False using assms(3) by simp
  qed
  then show ?thesis
    using assms(1) descending_sorted [of i j ?real frame_bytes_of] by (simp add: drawn_order_def nth_append)
qed

lemma stack_legend_sorted:
  "i < j \<Longrightarrow> j < length (stack_legend order rects) \<Longrightarrow>
   fst (snd (stack_legend order rects ! j)) \<le> fst (snd (stack_legend order rects ! i))"
proof -
  assume ij: "i < j" "j < length (stack_legend order rects)"
  obtain es where es: "stack_legend order rects = take 42 (descending (\<lambda>e. fst (snd e)) es)"
    by (simp add: stack_legend_def Let_def)
  have "j < length es" "j < 42" using ij(2) unfolding es by simp_all
  then show ?thesis using descending_sorted [of i j es "\<lambda>e. fst (snd e)"] ij(1) unfolding es by simp
qed

text \<open>\<open>shorten\<close>; a cut inside a character is a panic.\<close>

definition char_boundary :: "string \<Rightarrow> nat \<Rightarrow> bool" where
  "char_boundary s i \<longleftrightarrow> i = length s \<or> i < length s \<and> \<not> (0x80 \<le> (of_char (s ! i) :: nat) \<and> (of_char (s ! i) :: nat) \<le> 0xBF)"

definition shorten :: "string \<Rightarrow> string option" where
  "shorten name =
     (if length name \<le> 60 then Some name
      else if char_boundary name 30 \<and> char_boundary name (length name - 30)
      then Some (take 30 name @ [CHR 0xE2, CHR 0x80, CHR 0xA6] @ drop (length name - 30) name)
      else None)"

lemma shorten_ascii: "list_all printable name \<Longrightarrow> \<exists>s. shorten name = Some s \<and> length s \<le> 63"
proof -
  assume p: "list_all printable name"
  have "char_boundary name n" if "n \<le> length name" for n
  proof (cases "n = length name")
    case False
    then have "(of_char (name ! n) :: nat) < 127" using p that by (simp add: list_all_length printable_def)
    then show ?thesis using that False by (simp add: char_boundary_def)
  qed (simp add: char_boundary_def)
  then show ?thesis by (simp add: shorten_def)
qed

text \<open>The label of a tick: the last event at or before a position of the axis, a binary search over ascending positions.\<close>

definition tick_event :: "u64 list \<Rightarrow> u64 \<Rightarrow> nat" where
  "tick_event event_x target_x = min (length (takeWhile (\<lambda>x. x \<le> target_x) event_x) - 1) (length event_x - 1)"

lemma tick_event_at:
  assumes "sorted xs" "xs \<noteq> []" "hd xs \<le> t"
  shows "tick_event xs t < length xs \<and> xs ! tick_event xs t \<le> t \<and> (\<forall>i. tick_event xs t < i \<and> i < length xs \<longrightarrow> t < xs ! i)"
proof -
  let ?n = "length (takeWhile (\<lambda>x. x \<le> t) xs)"
  have n: "0 < ?n" "?n \<le> length xs" using assms(2,3) by (cases xs; simp add: length_takeWhile_le)+
  then have e: "tick_event xs t = ?n - 1" by (simp add: tick_event_def)
  have "xs ! (?n - 1) \<le> t"
    using n nth_mem [of "?n - 1" "takeWhile (\<lambda>x. x \<le> t) xs"] set_takeWhileD takeWhile_nth [of "?n - 1" "\<lambda>x. x \<le> t" xs] by fastforce
  moreover have "t < xs ! i" if "?n \<le> i" "i < length xs" for i
  proof -
    have "\<not> xs ! ?n \<le> t" using that by (intro nth_length_takeWhile) simp
    then show ?thesis using that assms(1) sorted_nth_mono [of xs ?n i] by simp
  qed
  moreover have "?n - 1 < length xs" using n by linarith
  ultimately show ?thesis by (auto simp: e)
qed

end
