(* ===== verification/Runtime.thy ===== *)
theory Runtime
  imports Prelude
begin

text \<open>
  Module rt of platform.rs: the allocator and the panic handler of the shipped binary, which both end the process, and
  the \<open>bzero\<close> of the macOS build. Memory is a function from addresses to bytes; a volatile write is a step of a list of
  stores, so that their widths and alignment can be seen. Addresses plus the length stay in the address space.
\<close>

subsection \<open>Ending the process\<close>

definition abort_now :: "'a option \<times> int" where "abort_now = (None, 134)"

text \<open>The methods of \<open>Abort\<close> and the panic handler return nothing, and leave the status of an abort.\<close>

definition abort_alloc :: "nat \<Rightarrow> nat option \<times> int" where "abort_alloc layout = abort_now"
definition abort_dealloc :: "nat \<Rightarrow> nat \<Rightarrow> unit option \<times> int" where "abort_dealloc ptr layout = abort_now"
definition abort_realloc :: "nat \<Rightarrow> nat \<Rightarrow> nat \<Rightarrow> nat option \<times> int" where "abort_realloc ptr layout new_size = abort_now"
definition panic_handler :: "string \<Rightarrow> unit option \<times> int" where "panic_handler info = abort_now"

subsection \<open>bzero\<close>

datatype store = ByteStore nat | WordStore nat

fun store_range :: "store \<Rightarrow> nat set" where
  "store_range (ByteStore a) = {a}"
| "store_range (WordStore a) = {a..<a + 8}"

definition zeroed :: "store \<Rightarrow> (nat \<Rightarrow> u8) \<Rightarrow> (nat \<Rightarrow> u8)" where
  "zeroed s m = (\<lambda>a. if a \<in> store_range s then 0 else m a)"

function bz_align :: "nat \<Rightarrow> nat \<Rightarrow> nat \<Rightarrow> nat \<times> store list" where
  "bz_align dst len i =
     (if i < len \<and> (dst + i) mod 8 \<noteq> 0
      then (case bz_align dst len (i + 1) of (j, ss) \<Rightarrow> (j, ByteStore (dst + i) # ss)) else (i, []))"
  by pat_completeness auto
termination by (relation "measure (\<lambda>(dst, len, i). len - i)") auto

function bz_words :: "nat \<Rightarrow> nat \<Rightarrow> nat \<Rightarrow> nat \<times> store list" where
  "bz_words dst len i =
     (if i + 8 \<le> len
      then (case bz_words dst len (i + 8) of (j, ss) \<Rightarrow> (j, WordStore (dst + i) # ss)) else (i, []))"
  by pat_completeness auto
termination by (relation "measure (\<lambda>(dst, len, i). len - i)") auto

function bz_tail :: "nat \<Rightarrow> nat \<Rightarrow> nat \<Rightarrow> store list" where
  "bz_tail dst len i = (if i < len then ByteStore (dst + i) # bz_tail dst len (i + 1) else [])"
  by pat_completeness auto
termination by (relation "measure (\<lambda>(dst, len, i). len - i)") auto

declare bz_align.simps [simp del] bz_words.simps [simp del] bz_tail.simps [simp del]

definition bzero_stores :: "nat \<Rightarrow> nat \<Rightarrow> store list" where
  "bzero_stores dst len =
     (case bz_align dst len 0 of (i, heads) \<Rightarrow>
        (case bz_words dst len i of (j, words) \<Rightarrow> heads @ words @ bz_tail dst len j))"

definition bzero :: "nat \<Rightarrow> nat \<Rightarrow> (nat \<Rightarrow> u8) \<Rightarrow> (nat \<Rightarrow> u8)" where
  "bzero dst len m = fold zeroed (bzero_stores dst len) m"

text \<open>The loops write the range once, from its start to its end, and whole words at aligned addresses only.\<close>

fun covers :: "nat \<Rightarrow> nat \<Rightarrow> store list \<Rightarrow> bool" where
  "covers a b [] = (a = b)"
| "covers a b (ByteStore c # ss) = (c = a \<and> covers (a + 1) b ss)"
| "covers a b (WordStore c # ss) = (c = a \<and> c mod 8 = 0 \<and> covers (a + 8) b ss)"

lemma covers_append: "covers a b ss \<Longrightarrow> covers b c ts \<Longrightarrow> covers a c (ss @ ts)"
  by (induction a b ss rule: covers.induct) simp_all

lemma covers_le: "covers a b ss \<Longrightarrow> a \<le> b"
  by (induction a b ss rule: covers.induct) auto

lemma covers_zero: "covers a b ss \<Longrightarrow> fold zeroed ss m = (\<lambda>c. if a \<le> c \<and> c < b then 0 else m c)"
proof (induction a b ss arbitrary: m rule: covers.induct)
  case (2 a b c ss)
  then show ?case using covers_le [of "a + 1" b ss] by (auto simp: zeroed_def fun_eq_iff)
next
  case (3 a b c ss)
  then show ?case using covers_le [of "a + 8" b ss] by (auto simp: zeroed_def fun_eq_iff)
qed (auto simp: fun_eq_iff)

lemma bz_align_covers:
  "i \<le> len \<Longrightarrow> bz_align dst len i = (j, ss) \<Longrightarrow>
   j \<le> len \<and> covers (dst + i) (dst + j) ss \<and> (j = len \<or> (dst + j) mod 8 = 0)"
proof (induction dst len i arbitrary: j ss rule: bz_align.induct)
  case (1 dst len i)
  then show ?case by (subst (asm) (2) bz_align.simps) (auto split: if_splits prod.splits)
qed

lemma bz_words_covers:
  "i \<le> len \<Longrightarrow> i = len \<or> (dst + i) mod 8 = 0 \<Longrightarrow> bz_words dst len i = (j, ss) \<Longrightarrow>
   j \<le> len \<and> covers (dst + i) (dst + j) ss"
proof (induction dst len i arbitrary: j ss rule: bz_words.induct)
  case (1 dst len i)
  then show ?case by (subst (asm) (2) bz_words.simps) (auto simp: add.assoc [symmetric] split: if_splits prod.splits)
qed

lemma bz_tail_covers: "i \<le> len \<Longrightarrow> covers (dst + i) (dst + len) (bz_tail dst len i)"
proof (induction dst len i rule: bz_tail.induct)
  case (1 dst len i)
  then show ?case by (subst bz_tail.simps) auto
qed

theorem bzero_covers: "covers dst (dst + len) (bzero_stores dst len)"
proof -
  obtain i heads where h: "bz_align dst len 0 = (i, heads)" by fastforce
  obtain j words where w: "bz_words dst len i = (j, words)" by fastforce
  have "i \<le> len" "covers dst (dst + i) heads" "i = len \<or> (dst + i) mod 8 = 0"
    using bz_align_covers [OF _ h] by auto
  moreover from this have "j \<le> len" "covers (dst + i) (dst + j) words" using bz_words_covers [OF _ _ w] by auto
  ultimately show ?thesis
    using bz_tail_covers [of j len dst] covers_append by (simp add: bzero_stores_def h w)
qed

theorem bzero_correct: "bzero dst len m a = (if dst \<le> a \<and> a < dst + len then 0 else m a)"
  using covers_zero [OF bzero_covers] by (simp add: bzero_def)

end
