(* ===== verification/Buildtools.thy ===== *)
theory Buildtools
  imports Prelude
begin

text \<open>
  How the program is built: the dispatcher behind the cargo aliases (tools/xtask) and the build script (build.rs). What
  they run, write and move is a list of events; what the commands answer is an argument.
\<close>

subsection \<open>The dispatcher\<close>

datatype host = HostLinux | HostMacos | HostOther
datatype machine = X86_64 | Aarch64 | MachineOther

text \<open>How a command ended: not started, or with its status, which a signal leaves absent.\<close>

datatype spawned = NotSpawned | Ended "int option"

datatype task_event =
    CargoBuild "string list" "string option"
  | PackBinary string string
  | RenameFile string string
  | CreateDirs string
  | CopyFile string string
  | RunBinary string "string list"

record task_answers =
  ta_build :: spawned
  ta_pack :: spawned
  ta_rename :: bool
  ta_mkdir :: bool
  ta_copy :: bool
  ta_run :: spawned

definition ended_ok :: "int option \<Rightarrow> bool" where "ended_ok c \<longleftrightarrow> c = Some 0"
definition exit_status :: "int option \<Rightarrow> int" where "exit_status c = (case c of Some n \<Rightarrow> n | None \<Rightarrow> 1)"

definition task_target :: "host \<Rightarrow> machine \<Rightarrow> string option" where
  "task_target os arch =
     (case (os, arch) of
        (HostMacos, Aarch64) \<Rightarrow> Some ''aarch64-apple-darwin''
      | (HostMacos, X86_64) \<Rightarrow> Some ''x86_64-apple-darwin''
      | (HostLinux, X86_64) \<Rightarrow> Some ''.cargo/static-linux-x86_64.json''
      | (HostLinux, Aarch64) \<Rightarrow> Some ''.cargo/static-linux-aarch64.json''
      | _ \<Rightarrow> None)"

definition task_profile :: "string \<Rightarrow> string option" where
  "task_profile subcmd =
     (if subcmd = ''stack'' then Some ''min-stack''
      else if subcmd = ''ltop'' then Some ''min''
      else if subcmd = ''ltop-dbg'' then Some ''min-dbg''
      else if subcmd = ''build'' then Some ''min''
      else None)"

text \<open>The part of the target after its last slash, without \<open>.json\<close>.\<close>

definition target_dir :: "string \<Rightarrow> string" where
  "target_dir target =
     (let base = rev (takeWhile (\<lambda>c. c \<noteq> CHR ''/'') (rev target)); n = length base - 5
      in if 5 \<le> length base \<and> drop n base = ''.json'' then take n base else base)"

definition MAC_FLAGS :: string where
  "MAC_FLAGS = ''-Zunstable-options -Cpanic=immediate-abort -Cforce-unwind-tables=no '' @
     ''-Clink-arg=-Wl,-dead_strip_dylibs -Clink-arg=-Wl,-no_data_const -Clink-arg=-Wl,-no_compact_unwind '' @
     ''-Clink-arg=-Wl,-no_function_starts -Clink-arg=-Wl,-segprot,__TEXT,rx,rx''"

definition build_command :: "host \<Rightarrow> string \<Rightarrow> string \<Rightarrow> string \<Rightarrow> string list \<Rightarrow> task_event" where
  "build_command os subcmd profile target rest = CargoBuild
     ([''build'', ''--profile'', profile, ''--target'', target, ''-Z'', ''build-std=core,alloc,panic_abort'',
       ''-Z'', ''build-std-features=compiler-builtins-mem''] @ (if subcmd \<in> {''stack'', ''ltop-dbg'', ''build''} then rest else []))
     (if os = HostMacos then Some (MAC_FLAGS @ (if subcmd = ''stack'' then '' -Zemit-stack-sizes'' else [])) else None)"

definition install_dir :: "(string \<rightharpoonup> string) \<Rightarrow> string option" where
  "install_dir env =
     (case env ''CARGO_INSTALL_ROOT'' of Some d \<Rightarrow> Some (d @ ''/bin'')
      | None \<Rightarrow> (case env ''CARGO_HOME'' of Some d \<Rightarrow> Some (d @ ''/bin'')
      | None \<Rightarrow> map_option (\<lambda>h. h @ ''/.cargo/bin'') (env ''HOME'')))"

text \<open>The events so far and the status the process ends with; \<open>die\<close> is status 2.\<close>

type_synonym task_result = "task_event list \<times> int"

definition pack_step :: "task_answers \<Rightarrow> bool \<Rightarrow> string \<Rightarrow> task_result + task_event list" where
  "pack_step A wanted bin =
     (if \<not> wanted then Inr []
      else let packed = bin @ ''.packed'' in
        (case ta_pack A of
           NotSpawned \<Rightarrow> Inl ([PackBinary bin packed], 2)
         | Ended c \<Rightarrow>
             if \<not> ended_ok c then Inl ([PackBinary bin packed], 2)
             else if \<not> ta_rename A then Inl ([PackBinary bin packed, RenameFile packed bin], 2)
             else Inr [PackBinary bin packed, RenameFile packed bin]))"

definition finish_step :: "task_answers \<Rightarrow> (string \<rightharpoonup> string) \<Rightarrow> bool \<Rightarrow> string \<Rightarrow> string \<Rightarrow> string list \<Rightarrow> task_result" where
  "finish_step A env do_install subcmd bin rest =
     (if do_install
      then (case install_dir env of None \<Rightarrow> ([], 2)
            | Some dir \<Rightarrow>
                if \<not> ta_mkdir A then ([CreateDirs dir], 2)
                else ([CreateDirs dir, CopyFile bin (dir @ ''/ltop'')], if ta_copy A then 0 else 2))
      else if subcmd = ''ltop''
      then ([RunBinary bin rest], case ta_run A of NotSpawned \<Rightarrow> 2 | Ended c \<Rightarrow> exit_status c)
      else ([], 0))"

definition after_build ::
    "task_answers \<Rightarrow> (string \<rightharpoonup> string) \<Rightarrow> host \<Rightarrow> bool \<Rightarrow> string \<Rightarrow> string \<Rightarrow> string list \<Rightarrow> task_result" where
  "after_build A env os do_install subcmd bin rest =
     (case pack_step A (os = HostMacos \<and> subcmd = ''ltop'') bin of
        Inl r \<Rightarrow> r
      | Inr es \<Rightarrow> (case finish_step A env do_install subcmd bin rest of (fs, st) \<Rightarrow> (es @ fs, st)))"

definition install_wanted :: "string \<Rightarrow> string list \<Rightarrow> bool" where
  "install_wanted subcmd rest \<longleftrightarrow> subcmd = ''ltop'' \<and> rest \<noteq> [] \<and> hd rest = ''--install''"

definition xtask :: "host \<Rightarrow> machine \<Rightarrow> (string \<rightharpoonup> string) \<Rightarrow> task_answers \<Rightarrow> string list \<Rightarrow> task_result" where
  "xtask os arch env A args =
     (case args of [] \<Rightarrow> ([], 2)
      | subcmd # given \<Rightarrow>
          let all = List.filter (\<lambda>a. a \<noteq> ''--'') given;
              do_install = install_wanted subcmd all;
              rest = (if do_install then tl all else all)
          in case task_target os arch of None \<Rightarrow> ([], 2)
             | Some target \<Rightarrow>
                 (case task_profile subcmd of None \<Rightarrow> ([], 2)
                  | Some profile \<Rightarrow>
                      let cmd = build_command os subcmd profile target rest;
                          bin = ''target/'' @ target_dir target @ ''/'' @ profile @ ''/ltop''
                      in case ta_build A of NotSpawned \<Rightarrow> ([cmd], 2)
                         | Ended c \<Rightarrow>
                             if \<not> ended_ok c then ([cmd], exit_status c)
                             else (case after_build A env os do_install subcmd bin rest of (es, st) \<Rightarrow> (cmd # es, st))))"

text \<open>The directory cargo writes to is that of the target, whichever the host.\<close>

lemma target_dirs:
  "task_target os arch = Some t \<Longrightarrow>
   target_dir t \<in> {''aarch64-apple-darwin'', ''x86_64-apple-darwin'', ''static-linux-x86_64'', ''static-linux-aarch64''}"
  by (cases os; cases arch) (auto simp: task_target_def target_dir_def)

text \<open>Nothing is run or installed that a successful build, and on macOS a successful packing, has not produced; with
  \<open>--install\<close> the binary is not run, and the other subcommands only build.\<close>

definition places_binary :: "task_event \<Rightarrow> bool" where
  "places_binary e = (case e of RunBinary b r \<Rightarrow> True | CopyFile b d \<Rightarrow> True | _ \<Rightarrow> False)"

lemma pack_stops: "pack_step A w bin = Inl (es, st) \<Longrightarrow> e \<in> set es \<Longrightarrow> \<not> places_binary e"
  by (auto simp: pack_step_def places_binary_def Let_def split: if_splits spawned.splits)

lemma pack_done:
  "pack_step A w bin = Inr es \<Longrightarrow> (\<forall>e \<in> set es. \<not> places_binary e) \<and>
     (w \<longrightarrow> ta_pack A = Ended (Some 0) \<and> ta_rename A \<and> RenameFile (bin @ ''.packed'') bin \<in> set es)"
  by (auto simp: pack_step_def places_binary_def ended_ok_def Let_def split: if_splits spawned.splits)

lemma finish_places:
  "finish_step A env do_install subcmd bin rest = (fs, st) \<Longrightarrow> e \<in> set fs \<Longrightarrow>
   (do_install \<or> subcmd = ''ltop'') \<and> ((\<exists>b d. e = CopyFile b d) \<longrightarrow> (\<forall>b r. RunBinary b r \<notin> set fs))"
  by (auto simp: finish_step_def split: if_splits option.splits)

lemma after_build_places:
  assumes "after_build A env os do_install subcmd bin rest = (es, st)" and e: "e \<in> set es" "places_binary e"
    and "do_install \<longrightarrow> subcmd = ''ltop''"
  shows "subcmd = ''ltop'' \<and>
    (os = HostMacos \<longrightarrow> ta_pack A = Ended (Some 0) \<and> ta_rename A \<and> RenameFile (bin @ ''.packed'') bin \<in> set es) \<and>
    ((\<exists>b d. e = CopyFile b d) \<longrightarrow> (\<forall>b r. RunBinary b r \<notin> set es))"
proof (cases "pack_step A (os = HostMacos \<and> subcmd = ''ltop'') bin")
  case (Inl r)
  then show ?thesis using assms pack_stops by (cases r) (auto simp: after_build_def)
next
  case (Inr ps)
  obtain fs st' where f: "finish_step A env do_install subcmd bin rest = (fs, st')" by fastforce
  have es: "es = ps @ fs" using assms(1) Inr f by (simp add: after_build_def)
  have p: "\<forall>e \<in> set ps. \<not> places_binary e" using pack_done [OF Inr] by blast
  then have "e \<in> set fs" using e es by auto
  then have "subcmd = ''ltop''" "(\<exists>b d. e = CopyFile b d) \<longrightarrow> (\<forall>b r. RunBinary b r \<notin> set fs)"
    using finish_places [OF f] assms(4) by blast+
  moreover have "RunBinary b r \<notin> set ps" for b r using p by (auto simp: places_binary_def)
  ultimately show ?thesis using pack_done [OF Inr] es by auto
qed

theorem xtask_builds_first:
  assumes "xtask os arch env A args = (es, st)" and "e \<in> set es" and "places_binary e"
  shows "(\<exists>given. args = ''ltop'' # given) \<and> (\<exists>cmd flags fs. es = CargoBuild cmd flags # fs) \<and> ta_build A = Ended (Some 0) \<and>
    (os = HostMacos \<longrightarrow> ta_pack A = Ended (Some 0) \<and> ta_rename A \<and> (\<exists>b. RenameFile (b @ ''.packed'') b \<in> set es)) \<and>
    ((\<exists>b d. e = CopyFile b d) \<longrightarrow> (\<forall>b r. RunBinary b r \<notin> set es))"
proof -
  obtain subcmd given where a: "args = subcmd # given" using assms by (cases args) (auto simp: xtask_def)
  obtain target where t: "task_target os arch = Some target"
    using assms by (cases "task_target os arch") (auto simp: xtask_def a)
  obtain profile where p: "task_profile subcmd = Some profile"
    using assms by (cases "task_profile subcmd") (auto simp: xtask_def a t)
  let ?all = "List.filter (\<lambda>a. a \<noteq> ''--'') given"
  let ?do = "install_wanted subcmd ?all"
  let ?rest = "if ?do then tl ?all else ?all"
  let ?bin = "''target/'' @ target_dir target @ ''/'' @ profile @ ''/ltop''"
  let ?cmd = "build_command os subcmd profile target ?rest"
  have np: "\<not> places_binary ?cmd" by (simp add: places_binary_def build_command_def)
  have x: "(es, st) = (case ta_build A of NotSpawned \<Rightarrow> ([?cmd], 2)
      | Ended c \<Rightarrow> if \<not> ended_ok c then ([?cmd], exit_status c)
          else (case after_build A env os ?do subcmd ?bin ?rest of (es, st) \<Rightarrow> (?cmd # es, st)))"
    using assms(1) unfolding xtask_def a list.case t p option.case Let_def by (rule sym)
  then obtain fs where b: "ta_build A = Ended (Some 0)" "es = ?cmd # fs" "after_build A env os ?do subcmd ?bin ?rest = (fs, st)"
    using assms(2,3) np by (cases "ta_build A") (fastforce simp: ended_ok_def split: if_splits prod.splits)+
  have e: "e \<in> set fs" using assms(2,3) np b(2) by auto
  have "?do \<longrightarrow> subcmd = ''ltop''" by (simp add: install_wanted_def)
  note after = after_build_places [OF b(3) e assms(3) this]
  obtain cs flags where es: "es = CargoBuild cs flags # fs" using b(2) by (simp add: build_command_def)
  show ?thesis
  proof (intro conjI impI)
    show "\<exists>given. args = ''ltop'' # given" using after a by blast
    show "\<exists>cmd flags fs. es = CargoBuild cmd flags # fs" using es by blast
    show "ta_build A = Ended (Some 0)" by (rule b(1))
  next
    assume "os = HostMacos"
    then show "ta_pack A = Ended (Some 0)" "ta_rename A" "\<exists>b. RenameFile (b @ ''.packed'') b \<in> set es"
      using after unfolding es by (blast, blast, meson list.set_intros(2))
  next
    assume "\<exists>b d. e = CopyFile b d"
    then have "\<forall>b r. RunBinary b r \<notin> set fs" using after by blast
    then show "\<forall>b r. RunBinary b r \<notin> set es" by (simp add: es)
  qed
qed

subsection \<open>The build script\<close>

definition CANDIDATES :: "string list" where
  "CANDIDATES = [''/usr/lib/x86_64-linux-gnu'', ''/usr/lib/aarch64-linux-gnu'', ''/usr/aarch64-linux-gnu/lib'', ''/usr/lib64'',
     ''/usr/lib'', ''/usr/local/cuda/lib64'']"

definition nvml_path :: "string \<Rightarrow> string" where "nvml_path dir = dir @ ''/libnvidia-ml.so.1''"

text \<open>The lines the script prints, given the target and which paths exist.\<close>

definition build_script :: "string option \<Rightarrow> (string \<Rightarrow> bool) \<Rightarrow> string list" where
  "build_script target exists' =
     (let libc_free = str_contains ''static-linux'' (case target of Some t \<Rightarrow> t | None \<Rightarrow> [])
      in [''cargo:rerun-if-changed=build.rs'', ''cargo:rustc-check-cfg=cfg(has_nvml)'', ''cargo:rustc-check-cfg=cfg(has_gpu)'',
          ''cargo:rustc-check-cfg=cfg(libc_free)''] @
         (if \<not> libc_free then [''cargo:rustc-link-arg-bin=ltop=-lc''] else []) @
         (if exists' ''/dev/nvidiactl''
          then [''cargo:rerun-if-changed=/dev/nvidiactl'', ''cargo:rustc-cfg=has_gpu''] else []) @
         (case find (\<lambda>dir. exists' (nvml_path dir)) CANDIDATES of None \<Rightarrow> []
          | Some dir \<Rightarrow> [''cargo:rerun-if-changed='' @ nvml_path dir, ''cargo:rustc-cfg=has_nvml''] @
              (if \<not> libc_free then [''cargo:rustc-link-search=native='' @ dir, ''cargo:rustc-link-arg=-l:libnvidia-ml.so.1''] else [])))"

text \<open>The static targets link nothing else, whatever is installed; \<open>has_nvml\<close> is set when some candidate has the library.\<close>

lemma find_none: "find P xs = None \<longleftrightarrow> \<not> (\<exists>x \<in> set xs. P x)"
  by (auto simp: find_None_iff)

lemma build_script_static:
  assumes "target \<in> {''static-linux-x86_64'', ''static-linux-aarch64''}"
  shows "''cargo:rustc-link-arg-bin=ltop=-lc'' \<notin> set (build_script (Some target) exists')"
    and "''cargo:rustc-link-arg=-l:libnvidia-ml.so.1'' \<notin> set (build_script (Some target) exists')"
    and "''cargo:rustc-cfg=has_nvml'' \<in> set (build_script (Some target) exists') \<longleftrightarrow>
      (\<exists>dir \<in> set CANDIDATES. exists' (nvml_path dir))"
proof -
  have free: "str_contains ''static-linux'' target" using assms by (auto simp: str_contains_def)
  show "''cargo:rustc-link-arg-bin=ltop=-lc'' \<notin> set (build_script (Some target) exists')"
    "''cargo:rustc-link-arg=-l:libnvidia-ml.so.1'' \<notin> set (build_script (Some target) exists')"
    using free by (auto simp: build_script_def split: option.splits)
  show "''cargo:rustc-cfg=has_nvml'' \<in> set (build_script (Some target) exists') \<longleftrightarrow>
      (\<exists>dir \<in> set CANDIDATES. exists' (nvml_path dir))"
    using free find_none [of "\<lambda>dir. exists' (nvml_path dir)" CANDIDATES]
    by (cases "find (\<lambda>dir. exists' (nvml_path dir)) CANDIDATES") (simp_all add: build_script_def)
qed

end
