(* ===== verification/Traps.thy ===== *)
theory Traps
  imports Start Mach
begin

unbundle bit_operations_syntax

text \<open>
  Below the wrappers of theory Syscalls: the trap instructions of src/syscall.rs as what the compiler is told about
  them (inputs, result, clobbers) and what they do to the registers, on the three ABIs the program is built for; the
  macOS side of the wrappers and of src/mac_sys.rs; the macOS clock; and the macOS \<open>main\<close> of src/main.rs.
\<close>

subsection \<open>Trap instructions\<close>

datatype reg = Rax | Rdi | Rsi | Rdx | R10 | R8 | R9 | Rcx | R11 | Xr nat

type_synonym regs = "reg \<Rightarrow> u64"

datatype abi = LinuxX86 | LinuxArm | DarwinArm

text \<open>An \<open>asm!\<close> block: the inputs, the register of the result, the registers declared as overwritten, and whether the
  result is negated when the carry flag is set (\<open>b.cc 1f; neg x0, x0\<close>).\<close>

record asm_block =
  ab_in :: "(reg \<times> u64) list"
  ab_ret :: reg
  ab_clobber :: "reg list"
  ab_negates :: bool

definition x86_args :: "reg list" where "x86_args = [Rdi, Rsi, Rdx, R10, R8]"
definition arm_args :: "reg list" where "arm_args = [Xr 0, Xr 1, Xr 2, Xr 3, Xr 4]"
definition darwin_args :: "reg list" where "darwin_args = [Xr 0, Xr 1, Xr 2, Xr 3, Xr 4, Xr 5]"

text \<open>\<open>syscall1\<close> to \<open>syscall6\<close>: the number and as many argument registers as there are arguments.\<close>

definition linux_x86_syscall :: "u64 \<Rightarrow> u64 list \<Rightarrow> asm_block" where
  "linux_x86_syscall n args =
     \<lparr>ab_in = (Rax, n) # zip x86_args args, ab_ret = Rax, ab_clobber = [Rcx, R11], ab_negates = False\<rparr>"

definition linux_arm_syscall :: "u64 \<Rightarrow> u64 list \<Rightarrow> asm_block" where
  "linux_arm_syscall n args =
     \<lparr>ab_in = (Xr 8, n) # zip arm_args args, ab_ret = Xr 0, ab_clobber = [], ab_negates = False\<rparr>"

definition darwin_syscall :: "u64 \<Rightarrow> u64 list \<Rightarrow> asm_block" where
  "darwin_syscall n args =
     \<lparr>ab_in = (Xr 16, n) # zip darwin_args args, ab_ret = Xr 0, ab_clobber = [Xr 1], ab_negates = True\<rparr>"

text \<open>The Mach traps of the clock: at most one argument, and no carry flag.\<close>

definition mach_trap :: "u64 \<Rightarrow> u64 list \<Rightarrow> asm_block" where
  "mach_trap n args = \<lparr>ab_in = (Xr 16, n) # zip [Xr 0] args, ab_ret = Xr 0, ab_clobber = [], ab_negates = False\<rparr>"

definition mach_absolute_time :: asm_block where "mach_absolute_time = mach_trap (- 3) []"

definition mach_timebase_info :: "u64 \<Rightarrow> asm_block" where "mach_timebase_info info = mach_trap (- 89) [info]"

definition mach_wait_until :: "u64 \<Rightarrow> asm_block" where "mach_wait_until deadline = mach_trap (- 90) [deadline]"

definition syscall_block :: "abi \<Rightarrow> u64 \<Rightarrow> u64 list \<Rightarrow> asm_block" where
  "syscall_block p = (case p of LinuxX86 \<Rightarrow> linux_x86_syscall | LinuxArm \<Rightarrow> linux_arm_syscall | DarwinArm \<Rightarrow> darwin_syscall)"

definition load_regs :: "(reg \<times> u64) list \<Rightarrow> regs \<Rightarrow> regs" where
  "load_regs kvs r = foldl (\<lambda>r (k, v). r(k := v)) r kvs"

definition run_asm :: "(regs \<Rightarrow> regs \<times> bool) \<Rightarrow> asm_block \<Rightarrow> regs \<Rightarrow> u64 \<times> regs" where
  "run_asm trap b r =
     (case trap (load_regs (ab_in b) r) of (r1, carry) \<Rightarrow>
        let ret = (if ab_negates b \<and> carry then - r1 (ab_ret b) else r1 (ab_ret b))
        in (ret, r1(ab_ret b := ret)))"

text \<open>
  The kernels as their ABIs document them, over what a call does: \<open>f\<close> gives for a number and six argument words the
  value or the errno, a second value, and whether it failed. Linux on x86-64 overwrites rcx and r11, Linux on aarch64
  x0 only, Darwin x0 and x1; Linux returns a failure as a negative errno, Darwin as errno with the carry flag.
\<close>

type_synonym answer = "u64 \<Rightarrow> u64 list \<Rightarrow> u64 \<times> u64 \<times> bool"

definition folded :: "u64 \<times> u64 \<times> bool \<Rightarrow> u64" where
  "folded a = (case a of (v, w, failed) \<Rightarrow> if failed then - v else v)"

definition abi_nr :: "abi \<Rightarrow> reg" where
  "abi_nr p = (case p of LinuxX86 \<Rightarrow> Rax | LinuxArm \<Rightarrow> Xr 8 | DarwinArm \<Rightarrow> Xr 16)"

definition abi_args :: "abi \<Rightarrow> reg list" where
  "abi_args p = (case p of LinuxX86 \<Rightarrow> [Rdi, Rsi, Rdx, R10, R8, R9] | _ \<Rightarrow> [Xr 0, Xr 1, Xr 2, Xr 3, Xr 4, Xr 5])"

definition kernel_trap :: "abi \<Rightarrow> answer \<Rightarrow> u64 \<times> u64 \<Rightarrow> regs \<Rightarrow> regs \<times> bool" where
  "kernel_trap p f junk r =
     (let a = f (r (abi_nr p)) (List.map r (abi_args p))
      in case p of
           LinuxX86 \<Rightarrow> (r(Rax := folded a, Rcx := fst junk, R11 := snd junk), False)
         | LinuxArm \<Rightarrow> (r(Xr 0 := folded a), False)
         | DarwinArm \<Rightarrow> (r(Xr 0 := fst a, Xr 1 := fst (snd a)), snd (snd a)))"

definition max_args :: "abi \<Rightarrow> nat" where "max_args p = (if p = DarwinArm then 6 else 5)"

lemma list_upto6:
  "length xs \<le> 6 \<Longrightarrow> xs = [] \<or> (\<exists>a. xs = [a]) \<or> (\<exists>a b. xs = [a, b]) \<or> (\<exists>a b c. xs = [a, b, c]) \<or>
     (\<exists>a b c d. xs = [a, b, c, d]) \<or> (\<exists>a b c d e. xs = [a, b, c, d, e]) \<or> (\<exists>a b c d e g. xs = [a, b, c, d, e, g])"
proof -
  assume "length xs \<le> 6"
  then have "length xs = 0 \<or> length xs = 1 \<or> length xs = 2 \<or> length xs = 3 \<or> length xs = 4 \<or> length xs = 5 \<or> length xs = 6"
    by linarith
  then show ?thesis by (auto simp: length_Suc_conv eval_nat_numeral)
qed

lemmas trap_defs = run_asm_def syscall_block_def linux_x86_syscall_def linux_arm_syscall_def darwin_syscall_def
  load_regs_def kernel_trap_def abi_nr_def abi_args_def x86_args_def arm_args_def darwin_args_def Let_def

text \<open>On every ABI the kernel sees the number and the arguments of the call, with whatever the further argument registers
  held; the block returns the value, or the negated errno; and a register that is neither the result nor declared as
  overwritten holds after the block what the compiler put there or left there.\<close>

theorem trap_uniform:
  assumes "length args \<le> max_args p"
  shows "fst (run_asm (kernel_trap p f junk) (syscall_block p n args) r)
      = folded (f n (args @ List.map r (drop (length args) (abi_args p))))"
    and "k \<noteq> ab_ret (syscall_block p n args) \<Longrightarrow> k \<notin> set (ab_clobber (syscall_block p n args)) \<Longrightarrow>
      snd (run_asm (kernel_trap p f junk) (syscall_block p n args) r) k = load_regs (ab_in (syscall_block p n args)) r k"
proof -
  have len: "length args \<le> 6" using assms by (cases p) (simp_all add: max_args_def)
  have "length args \<noteq> 6" if "p \<noteq> DarwinArm" using assms that by (simp add: max_args_def)
  with list_upto6 [OF len]
  show "fst (run_asm (kernel_trap p f junk) (syscall_block p n args) r)
      = folded (f n (args @ List.map r (drop (length args) (abi_args p))))"
    by (cases p) (elim disjE exE; simp add: trap_defs folded_def split: prod.splits)+
  show "k \<noteq> ab_ret (syscall_block p n args) \<Longrightarrow> k \<notin> set (ab_clobber (syscall_block p n args)) \<Longrightarrow>
      snd (run_asm (kernel_trap p f junk) (syscall_block p n args) r) k = load_regs (ab_in (syscall_block p n args)) r k"
    by (cases p) (simp_all add: run_asm_def syscall_block_def linux_x86_syscall_def linux_arm_syscall_def darwin_syscall_def
        kernel_trap_def Let_def)
qed

subsection \<open>More wrappers on Linux\<close>

definition sys_open_create :: "arch \<Rightarrow> u64 \<Rightarrow> i32 \<Rightarrow> u32 \<Rightarrow> sys_call" where
  "sys_open_create a path flags mode =
     (nr a NOpenat, [word_of_i32 (of_int (AT_FDCWD Linux)), path, word_of_i32 flags, ucast mode])"

definition sys_uname :: "arch \<Rightarrow> u64 \<Rightarrow> sys_call" where
  "sys_uname a buf = (nr a NUname, [buf])"

definition sys_rt_sigaction :: "arch \<Rightarrow> i32 \<Rightarrow> u64 \<Rightarrow> u64 \<Rightarrow> u64 \<Rightarrow> sys_call" where
  "sys_rt_sigaction a signum act oldact sigsetsize = (nr a NRtSigaction, [word_of_i32 signum, act, oldact, sigsetsize])"

definition sys_landlock_create_ruleset :: "arch \<Rightarrow> u64 \<Rightarrow> u64 \<Rightarrow> u32 \<Rightarrow> sys_call" where
  "sys_landlock_create_ruleset a attr sz flags = (nr a NLandlockCreateRuleset, [attr, sz, ucast flags])"

definition sys_landlock_add_rule :: "arch \<Rightarrow> i32 \<Rightarrow> u32 \<Rightarrow> u64 \<Rightarrow> u32 \<Rightarrow> sys_call" where
  "sys_landlock_add_rule a ruleset_fd rule_type rule_attr flags =
     (nr a NLandlockAddRule, [word_of_i32 ruleset_fd, ucast rule_type, rule_attr, ucast flags])"

definition sys_landlock_restrict_self :: "arch \<Rightarrow> i32 \<Rightarrow> u32 \<Rightarrow> sys_call" where
  "sys_landlock_restrict_self a ruleset_fd flags = (nr a NLandlockRestrictSelf, [word_of_i32 ruleset_fd, ucast flags])"

text \<open>\<open>sched_getaffinity_self\<close>: the size in bytes of a slice of words.\<close>

definition sys_sched_getaffinity_self :: "arch \<Rightarrow> u64 \<Rightarrow> nat \<Rightarrow> sys_call" where
  "sys_sched_getaffinity_self a set_ptr n = sys_sched_getaffinity a 0 (of_nat (8 * n)) set_ptr"

definition O_WRONLY :: i32 where "O_WRONLY = 1"

fun O_CREAT :: "target_os \<Rightarrow> i32" where "O_CREAT Linux = 0x40" | "O_CREAT Macos = 0x200"
fun O_TRUNC :: "target_os \<Rightarrow> i32" where "O_TRUNC Linux = 0x200" | "O_TRUNC Macos = 0x400"

subsection \<open>Wrappers on macOS\<close>

datatype darwin_no =
    DExit | DRead | DWrite | DOpen | DClose | DGetpid | DIoctl | DMadvise | DGettimeofday | DSysctl | DProcInfo
  | DGetdirentries64 | DOpenat | DUnlinkat

fun darwin_nr :: "darwin_no \<Rightarrow> u64" where
  "darwin_nr DExit = 1"
| "darwin_nr DRead = 3"
| "darwin_nr DWrite = 4"
| "darwin_nr DOpen = 5"
| "darwin_nr DClose = 6"
| "darwin_nr DGetpid = 20"
| "darwin_nr DIoctl = 54"
| "darwin_nr DMadvise = 75"
| "darwin_nr DGettimeofday = 116"
| "darwin_nr DSysctl = 202"
| "darwin_nr DProcInfo = 336"
| "darwin_nr DGetdirentries64 = 344"
| "darwin_nr DOpenat = 463"
| "darwin_nr DUnlinkat = 472"

type_synonym darwin_call = "u64 \<times> u64 list"

definition dar_read :: "i32 \<Rightarrow> u64 \<Rightarrow> u64 \<Rightarrow> darwin_call" where
  "dar_read fd buf len = (darwin_nr DRead, [word_of_i32 fd, buf, len])"

definition dar_write :: "i32 \<Rightarrow> u64 \<Rightarrow> u64 \<Rightarrow> darwin_call" where
  "dar_write fd buf len = (darwin_nr DWrite, [word_of_i32 fd, buf, len])"

definition dar_open :: "u64 \<Rightarrow> i32 \<Rightarrow> darwin_call" where
  "dar_open path flags = (darwin_nr DOpen, [path, word_of_i32 flags, 0])"

definition dar_openat :: "i32 \<Rightarrow> u64 \<Rightarrow> i32 \<Rightarrow> darwin_call" where
  "dar_openat dirfd path flags = (darwin_nr DOpenat, [word_of_i32 dirfd, path, word_of_i32 flags, 0])"

definition dar_open_create :: "u64 \<Rightarrow> i32 \<Rightarrow> u32 \<Rightarrow> darwin_call" where
  "dar_open_create path flags mode =
     (darwin_nr DOpenat, [word_of_i32 (of_int (AT_FDCWD Macos)), path, word_of_i32 flags, ucast mode])"

definition dar_close :: "i32 \<Rightarrow> darwin_call" where
  "dar_close fd = (darwin_nr DClose, [word_of_i32 fd])"

definition dar_ioctl :: "i32 \<Rightarrow> u64 \<Rightarrow> u64 \<Rightarrow> darwin_call" where
  "dar_ioctl fd cmd arg = (darwin_nr DIoctl, [word_of_i32 fd, cmd, arg])"

definition dar_madvise :: "u64 \<Rightarrow> u64 \<Rightarrow> i32 \<Rightarrow> darwin_call" where
  "dar_madvise addr len advice = (darwin_nr DMadvise, [addr, len, word_of_i32 advice])"

definition dar_getpid :: darwin_call where "dar_getpid = (darwin_nr DGetpid, [0])"

text \<open>\<open>getdirentries64\<close> takes a place for the position as well.\<close>

definition dar_getdents64 :: "i32 \<Rightarrow> u64 \<Rightarrow> u64 \<Rightarrow> u64 \<Rightarrow> darwin_call" where
  "dar_getdents64 fd buf len pos_ptr = (darwin_nr DGetdirentries64, [word_of_i32 fd, buf, len, pos_ptr])"

definition dar_unlinkat :: "i32 \<Rightarrow> u64 \<Rightarrow> darwin_call" where
  "dar_unlinkat dirfd path = (darwin_nr DUnlinkat, [word_of_i32 dirfd, path, 0])"

definition dar_sysctl :: "u64 \<Rightarrow> u32 \<Rightarrow> u64 \<Rightarrow> u64 \<Rightarrow> u64 \<Rightarrow> u64 \<Rightarrow> darwin_call" where
  "dar_sysctl name_ptr namelen oldp oldlenp newp newlen =
     (darwin_nr DSysctl, [name_ptr, ucast namelen, oldp, oldlenp, newp, newlen])"

definition dar_proc_info :: "i32 \<Rightarrow> i32 \<Rightarrow> u32 \<Rightarrow> u64 \<Rightarrow> u64 \<Rightarrow> i32 \<Rightarrow> darwin_call" where
  "dar_proc_info callnum p flavor arg buffer buffersize =
     (darwin_nr DProcInfo, [word_of_i32 callnum, word_of_i32 p, ucast flavor, arg, buffer, word_of_i32 buffersize])"

definition dar_exit_group :: "i32 \<Rightarrow> darwin_call" where
  "dar_exit_group code = (darwin_nr DExit, [word_of_i32 code])"

text \<open>\<open>as i32\<close> of a result.\<close>

definition i32_result :: "u64 \<Rightarrow> i32" where "i32_result w = ucast w"

text \<open>The calls of src/mac_sys.rs, with the size of the record they fill, and what they make of a sysctl's answer: the
  result code and the size the kernel wrote back.\<close>

definition PROC_INFO_CALL_LISTPIDS :: i32 where "PROC_INFO_CALL_LISTPIDS = 1"
definition PROC_INFO_CALL_PIDINFO :: i32 where "PROC_INFO_CALL_PIDINFO = 2"
definition PROC_ALL_PIDS :: u32 where "PROC_ALL_PIDS = 1"
definition PROC_PIDTASKINFO :: i32 where "PROC_PIDTASKINFO = 4"
definition PROC_PIDTBSDINFO :: i32 where "PROC_PIDTBSDINFO = 3"
definition PROC_PIDREGIONINFO :: i32 where "PROC_PIDREGIONINFO = 7"

definition proc_pidtaskinfo_call :: "i32 \<Rightarrow> u64 \<Rightarrow> i32 \<Rightarrow> darwin_call" where
  "proc_pidtaskinfo_call p ti sz = dar_proc_info PROC_INFO_CALL_PIDINFO p (ucast PROC_PIDTASKINFO) 0 ti sz"

definition proc_pidbsdinfo_call :: "i32 \<Rightarrow> u64 \<Rightarrow> nat \<Rightarrow> darwin_call" where
  "proc_pidbsdinfo_call p buf len = dar_proc_info PROC_INFO_CALL_PIDINFO p (ucast PROC_PIDTBSDINFO) 0 buf (of_nat len)"

definition region_info_call :: "i32 \<Rightarrow> u64 \<Rightarrow> u64 \<Rightarrow> i32 \<Rightarrow> darwin_call" where
  "region_info_call p addr info sz = dar_proc_info PROC_INFO_CALL_PIDINFO p (ucast PROC_PIDREGIONINFO) addr info sz"

definition sysctl_size :: "i32 \<times> nat \<Rightarrow> nat option" where
  "sysctl_size a = (if fst a = 0 then Some (snd a) else None)"

definition sysctl_read_bytes :: "i32 \<times> nat \<Rightarrow> nat option" where
  "sysctl_read_bytes a = (if fst a = 0 then Some (snd a) else None)"

subsection \<open>The numbers as a finite type\<close>

instantiation sysno :: enum
begin

definition enum_sysno :: "sysno list" where
  "enum_sysno =
     [NRead, NWrite, NClose, NIoctl, NMadvise, NNanosleep, NGetpid, NUname, NExitGroup, NClockGettime, NOpenat,
      NSchedGetaffinity, NGetdents64, NUnlinkat, NPrctl, NSeccomp, NRtSigaction, NLandlockCreateRuleset,
      NLandlockAddRule, NLandlockRestrictSelf]"

definition enum_all_sysno :: "(sysno \<Rightarrow> bool) \<Rightarrow> bool" where "enum_all_sysno P = list_all P enum_class.enum"

definition enum_ex_sysno :: "(sysno \<Rightarrow> bool) \<Rightarrow> bool" where "enum_ex_sysno P = list_ex P enum_class.enum"

instance
proof
  have u: "(UNIV :: sysno set) = set enum_class.enum"
  proof (intro equalityI subsetI UNIV_I)
    fix n :: sysno
    show "n \<in> set enum_class.enum" by (cases n) (simp_all add: enum_sysno_def)
  qed
  show "(UNIV :: sysno set) = set (enum_class.enum)" by (rule u)
  show "distinct (enum_class.enum :: sysno list)" by (simp add: enum_sysno_def)
  show "enum_class.enum_all P \<longleftrightarrow> Ball UNIV P" for P :: "sysno \<Rightarrow> bool" by (simp add: enum_all_sysno_def u list_all_iff)
  show "enum_class.enum_ex P \<longleftrightarrow> Bex UNIV P" for P :: "sysno \<Rightarrow> bool" by (simp add: enum_ex_sysno_def u list_ex_iff)
qed

end

instantiation darwin_no :: enum
begin

definition enum_darwin_no :: "darwin_no list" where
  "enum_darwin_no =
     [DExit, DRead, DWrite, DOpen, DClose, DGetpid, DIoctl, DMadvise, DGettimeofday, DSysctl, DProcInfo,
      DGetdirentries64, DOpenat, DUnlinkat]"

definition enum_all_darwin_no :: "(darwin_no \<Rightarrow> bool) \<Rightarrow> bool" where
  "enum_all_darwin_no P = list_all P enum_class.enum"

definition enum_ex_darwin_no :: "(darwin_no \<Rightarrow> bool) \<Rightarrow> bool" where
  "enum_ex_darwin_no P = list_ex P enum_class.enum"

instance
proof
  have u: "(UNIV :: darwin_no set) = set enum_class.enum"
  proof (intro equalityI subsetI UNIV_I)
    fix n :: darwin_no
    show "n \<in> set enum_class.enum" by (cases n) (simp_all add: enum_darwin_no_def)
  qed
  show "(UNIV :: darwin_no set) = set (enum_class.enum)" by (rule u)
  show "distinct (enum_class.enum :: darwin_no list)" by (simp add: enum_darwin_no_def)
  show "enum_class.enum_all P \<longleftrightarrow> Ball UNIV P" for P :: "darwin_no \<Rightarrow> bool"
    by (simp add: enum_all_darwin_no_def u list_all_iff)
  show "enum_class.enum_ex P \<longleftrightarrow> Bex UNIV P" for P :: "darwin_no \<Rightarrow> bool"
    by (simp add: enum_ex_darwin_no_def u list_ex_iff)
qed

end

text \<open>No two calls share a number.\<close>

lemma inj_enum: "distinct (List.map f enum_class.enum) \<Longrightarrow> inj f"
  by (simp add: distinct_map UNIV_enum [symmetric])

lemma nr_inj: "inj (nr a)"
proof (rule inj_enum)
  have "distinct (List.map x86_64_nr enum_class.enum)" "distinct (List.map aarch64_nr enum_class.enum)"
    by (simp_all add: enum_sysno_def)
  then show "distinct (List.map (nr a) enum_class.enum)" by (cases a) (simp_all add: nr_def [abs_def])
qed

lemma darwin_nr_inj: "inj darwin_nr"
  by (rule inj_enum) (simp add: enum_darwin_no_def)

subsection \<open>The macOS clock\<close>

record timespec =
  tv_sec :: u64
  tv_nsec :: u64

definition zero_time :: timespec where "zero_time = \<lparr>tv_sec = 0, tv_nsec = 0\<rparr>"

definition CLOCK_REALTIME :: i32 where "CLOCK_REALTIME = 0"
fun CLOCK_MONOTONIC :: "target_os \<Rightarrow> i32" where "CLOCK_MONOTONIC Linux = 1" | "CLOCK_MONOTONIC Macos = 6"

text \<open>\<open>tod\<close> is what \<open>gettimeofday\<close> returned and wrote: seconds, and microseconds in 32 bits.\<close>

definition darwin_clock_gettime ::
    "i32 \<Rightarrow> u64 \<Rightarrow> u32 \<times> u32 \<Rightarrow> i32 \<times> u64 \<times> i32 \<Rightarrow> timespec \<Rightarrow> i32 \<times> timespec" where
  "darwin_clock_gettime clk ticks timebase tod ts =
     (if clk = CLOCK_MONOTONIC Macos
      then (0, \<lparr>tv_sec = fst (darwin_monotonic ticks timebase), tv_nsec = snd (darwin_monotonic ticks timebase)\<rparr>)
      else if clk = CLOCK_REALTIME
      then (case tod of (r, sec, usec) \<Rightarrow>
             if r <s 0 then (r, ts) else (0, \<lparr>tv_sec = sec, tv_nsec = word_of_i32 usec * 1000\<rparr>))
      else (-22, ts))"

definition mac_get_clock :: "i32 \<Rightarrow> u64 \<Rightarrow> u32 \<times> u32 \<Rightarrow> i32 \<times> u64 \<times> i32 \<Rightarrow> timespec" where
  "mac_get_clock clk ticks timebase tod = snd (darwin_clock_gettime clk ticks timebase tod zero_time)"

definition mach_ticks_per_sec :: "u32 \<times> u32 \<Rightarrow> f64" where
  "mach_ticks_per_sec timebase =
     f64_div (f64_mul 1000000000 (f64_of_nat (unat (snd timebase)))) (f64_of_nat (unat (fst timebase)))"

text \<open>The nanoseconds of a clock reading stay below a second, whatever the clock (microseconds from a well-formed timeval).\<close>

lemma mac_clock_in_second:
  assumes "fst tod <s 0 \<or> 0 \<le> sint (snd (snd tod)) \<and> sint (snd (snd tod)) < 1000000"
  shows "unat (tv_nsec (mac_get_clock clk ticks timebase tod)) < 1000000000"
proof -
  obtain r sec usec where tod: "tod = (r, sec, usec)" by (cases tod)
  have mono: "unat (snd (darwin_monotonic ticks timebase)) < 1000000000"
    by (simp add: darwin_monotonic_def unat_mod)
  have real: "unat (word_of_i32 usec * 1000) < 1000000000" if u: "0 \<le> sint usec" "sint usec < 1000000"
  proof -
    have "word_of_i32 usec = of_int (sint usec)" by (simp add: word_of_i32_def)
    then have w: "word_of_i32 usec = of_nat (nat (sint usec))" using u(1) by simp
    have n: "nat (sint usec) * 1000 < 1000000000" using u by linarith
    have "word_of_i32 usec * 1000 = of_nat (nat (sint usec) * 1000)" by (simp add: w)
    then have "unat (word_of_i32 usec * 1000) = nat (sint usec) * 1000"
      using n by (simp only: unsigned_of_nat) (simp add: take_bit_nat_eq_self)
    then show ?thesis using n by simp
  qed
  show ?thesis
    using assms mono real by (auto simp: tod mac_get_clock_def darwin_clock_gettime_def zero_time_def)
qed

subsection \<open>The macOS main\<close>

text \<open>Where the program goes on from: the new stack pointer, or the old one when the region of the stack is not found.\<close>

definition mac_new_sp :: "region option \<Rightarrow> u64 \<Rightarrow> u64 option" where
  "mac_new_sp info cur_sp = (case region_containing info cur_sp of None \<Rightarrow> None | Some (lo, hi) \<Rightarrow> Some (hi - 16))"

text \<open>What happens before \<open>run\<close>: the stack pages given back (none without relocation; \<open>used\<close> is how far below the new
  stack pointer the wrapper's own frame reaches), and the idle regions handed back.\<close>

definition mac_main ::
    "region option \<Rightarrow> u64 \<Rightarrow> (u64 \<Rightarrow> bool) \<Rightarrow> u64 \<Rightarrow> anchors \<Rightarrow> ((u64 \<times> u64 \<times> i32) list \<Rightarrow> u64 \<Rightarrow> region option) \<Rightarrow>
     ((u64 \<times> u64 \<times> i32) list \<Rightarrow> u64 \<Rightarrow> u64 \<Rightarrow> i32) \<Rightarrow> (u64 list \<times> (u64 \<times> u64 \<times> i32) list) option" where
  "mac_main info cur_sp drop_one used an query dealloc =
     (case mac_new_sp info cur_sp of
        Some sp \<Rightarrow> map_option (\<lambda>dropped. (dropped, snd (unmap_idle_state an query dealloc))) (mac_run_then_exit drop_one (sp - used))
      | None \<Rightarrow> Some ([], snd (unmap_idle_state an query dealloc)))"

text \<open>When the kernel finds the region of the stack, the start returns, and it has given back every page of the stack
  but the top one, in which the program goes on, and no page outside the stack.\<close>

theorem mac_start_leaves_one_page:
  assumes vma: "stack_vma drop_one 16384 a b"
    and info: "info = Some \<lparr>rg_address = page_at 16384 a, rg_size = page_at 16384 b - page_at 16384 a\<rparr>"
    and sp: "a * 16384 \<le> unat cur_sp" "unat cur_sp < b * 16384" and used: "unat used \<le> 16384 - 16"
  shows "\<exists>handed. mac_main info cur_sp drop_one used an query dealloc =
    Some (List.map (page_at 16384) (rev [a ..< b - 1]), handed)"
proof -
  have ab: "0 < a" "a < b" using vma by (simp_all add: stack_vma_def)
  have u: "unat (page_at 16384 a) = a * 16384" "unat (page_at 16384 b) = b * 16384"
    using unat_page_at [OF vma, of a] unat_page_at [OF vma, of b] ab by simp_all
  have "region_containing info cur_sp = Some (page_at 16384 a, page_at 16384 b)"
    using sp u by (simp add: region_containing_def info region_end_def word_le_nat_alt word_less_nat_alt)
  then have new: "mac_new_sp info cur_sp = Some (page_at 16384 b - 16)" by (simp add: mac_new_sp_def)
  have le: "unat (16 :: u64) + unat used \<le> unat (page_at 16384 b)" using u(2) used ab by simp
  have "unat (page_at 16384 b - 16 - used) = b * 16384 - 16 - unat used"
    using le u(2) by (simp add: unat_sub word_le_nat_alt)
  moreover have "(b - 1) * 16384 = b * 16384 - 16384" by (simp add: diff_mult_distrib)
  ultimately have "(b - 1) * 16384 \<le> unat (page_at 16384 b - 16 - used)" "unat (page_at 16384 b - 16 - used) < b * 16384"
    using used ab by simp_all
  from mac_run_then_exit_stack [OF vma this] show ?thesis by (simp add: mac_main_def new)
qed

end
