(* ===== verification/Sigsys.thy ===== *)
theory Sigsys
  imports Traps
begin

text \<open>
  The diagnostic handler of the sandbox (feature \<open>sandbox-trap\<close> of src/sandbox.rs): the action that is installed for
  SIGSYS, and what the handler writes about a system call that the filter trapped. A \<open>siginfo_t\<close> is its bytes.
\<close>

subsection \<open>The action\<close>

record ksigaction =
  sa_handler :: u64
  sa_flags :: u64
  sa_restorer :: u64
  sa_mask :: u64

definition SIGSYS :: i32 where "SIGSYS = 31"
definition SA_SIGINFO :: u64 where "SA_SIGINFO = 4"
definition SA_RESTORER :: u64 where "SA_RESTORER = 0x04000000"

definition sigsys_action :: "arch \<Rightarrow> u64 \<Rightarrow> u64 \<Rightarrow> ksigaction" where
  "sigsys_action a trampoline sigreturn =
     \<lparr>sa_handler = trampoline,
      sa_flags = (case a of X86_64 \<Rightarrow> SA_SIGINFO OR SA_RESTORER | Aarch64 \<Rightarrow> SA_SIGINFO),
      sa_restorer = (case a of X86_64 \<Rightarrow> sigreturn | Aarch64 \<Rightarrow> 0),
      sa_mask = 0\<rparr>"

definition ksigaction_bytes :: "ksigaction \<Rightarrow> u8 list" where
  "ksigaction_bytes k = le_bytes 8 (sa_handler k) @ le_bytes 8 (sa_flags k) @ le_bytes 8 (sa_restorer k) @ le_bytes 8 (sa_mask k)"

definition sigsys_call :: "arch \<Rightarrow> u64 \<Rightarrow> sys_call" where
  "sigsys_call a act_ptr = sys_rt_sigaction a SIGSYS act_ptr 0 8"

subsection \<open>The handler\<close>

text \<open>\<open>append\<close> keeps what fits.\<close>

fun sig_append :: "string \<times> nat \<Rightarrow> string \<Rightarrow> string \<times> nat" where
  "sig_append bn [] = bn"
| "sig_append (buf, n) (c # cs) = sig_append (if n < length buf then (buf[n := c], n + 1) else (buf, n)) cs"

text \<open>The digits from the end of the array; a step below its start is a panic.\<close>

fun sig_digits :: "nat \<Rightarrow> string \<Rightarrow> nat \<Rightarrow> (string \<times> nat) option" where
  "sig_digits v tmp tn =
     (if v = 0 then Some (tmp, tn)
      else if tn = 0 then None
      else sig_digits (v div 10) (tmp[tn - 1 := digit_char (v mod 10)]) (tn - 1))"

declare sig_digits.simps [simp del]

definition sig_number :: "nat \<Rightarrow> (string \<times> nat) option" where
  "sig_number v =
     (let tmp = replicate 12 (CHR 0x00)
      in if v = 0 then Some (tmp[11 := CHR ''0''], 11) else sig_digits v tmp 12)"

definition blocked_nr :: "u8 list option \<Rightarrow> i32" where
  "blocked_nr info = (case info of None \<Rightarrow> - 1 | Some bytes \<Rightarrow> buf_u32 24 bytes)"

definition sigsys_text :: "i32 \<Rightarrow> string option" where
  "sigsys_text num =
     (let b = sig_append (replicate 48 (CHR 0x00), 0) ''ltop: blocked syscall '';
          neg = num <s 0;
          v = nat \<bar>sint num\<bar>;
          b = (if neg then sig_append b ''-'' else b)
      in map_option (\<lambda>(tmp, tn).
           case sig_append (sig_append b (drop tn tmp)) [CHR 0x0A] of (buf, n) \<Rightarrow> take n buf)
         (sig_number v))"

definition sigsys_handler :: "arch \<Rightarrow> u64 \<Rightarrow> u8 list option \<Rightarrow> (string \<times> sys_call list) option" where
  "sigsys_handler a buf_ptr info =
     map_option (\<lambda>t. (t, [sys_write a 2 buf_ptr (of_nat (length t)), sys_exit_group a 159])) (sigsys_text (blocked_nr info))"

subsection \<open>What it writes\<close>

definition sig_holds :: "string \<times> nat \<Rightarrow> string \<Rightarrow> nat \<Rightarrow> bool" where
  "sig_holds bn s m \<longleftrightarrow> length (fst bn) = m \<and> snd bn = length s \<and> take (length s) (fst bn) = s"

lemma sig_append_holds: "sig_holds bn s m \<Longrightarrow> length s + length t \<le> m \<Longrightarrow> sig_holds (sig_append bn t) (s @ t) m"
proof (induction t arbitrary: bn s)
  case (Cons c cs)
  obtain buf where bn: "bn = (buf, length s)" "length buf = m" "take (length s) buf = s"
    using Cons.prems(1) by (cases bn) (simp add: sig_holds_def)
  have "sig_holds (buf[length s := c], length s + 1) (s @ [c]) m"
    using bn Cons.prems(2) by (simp add: sig_holds_def take_Suc_conv_app_nth)
  from Cons.IH [OF this] show ?case using bn Cons.prems(2) by simp
qed simp

lemma sig_digits_decimal:
  "0 < v \<Longrightarrow> length (decimal v) \<le> tn \<Longrightarrow> tn \<le> length tmp \<Longrightarrow>
   \<exists>tmp'. sig_digits v tmp tn = Some (tmp', tn - length (decimal v)) \<and> drop (tn - length (decimal v)) tmp' = decimal v @ drop tn tmp"
proof (induction v arbitrary: tmp tn rule: decimal.induct)
  case (1 v)
  let ?t = "tmp[tn - 1 := digit_char (v mod 10)]"
  have tn: "0 < tn" using "1.prems"(2) decimal_nonempty [of v] by (cases "decimal v") auto
  have dr: "drop (tn - 1) ?t = digit_char (v mod 10) # drop tn tmp"
    using tn "1.prems"(3) by (subst Cons_nth_drop_Suc [symmetric]) simp_all
  show ?case
  proof (cases "v < 10")
    case True
    then have d: "decimal v = [digit_char v]" by (subst decimal.simps) simp
    have "sig_digits v tmp tn = Some (?t, tn - 1)"
      using "1.prems"(1) tn True by (subst sig_digits.simps, subst sig_digits.simps) simp
    then show ?thesis using dr True by (simp add: d)
  next
    case False
    then have d: "decimal v = decimal (v div 10) @ [digit_char (v mod 10)]" by (subst decimal.simps) simp
    have "0 < v div 10" using False by simp
    moreover have "length (decimal (v div 10)) \<le> tn - 1" "tn - 1 \<le> length ?t" using "1.prems"(2,3) d by simp_all
    ultimately obtain t' where "sig_digits (v div 10) ?t (tn - 1) = Some (t', tn - 1 - length (decimal (v div 10)))"
      "drop (tn - 1 - length (decimal (v div 10))) t' = decimal (v div 10) @ drop (tn - 1) ?t"
      using "1.IH" [OF False] by blast
    then show ?thesis using "1.prems"(1) tn dr by (subst sig_digits.simps) (simp add: d)
  qed
qed

lemma sig_number_decimal: "v < 10 ^ 12 \<Longrightarrow> \<exists>tmp tn. sig_number v = Some (tmp, tn) \<and> drop tn tmp = decimal v"
proof (cases "v = 0")
  case True
  then have "decimal v = [CHR ''0'']" by (subst decimal.simps) (simp add: digit_char_0)
  then show ?thesis using True by (simp add: sig_number_def Let_def eval_nat_numeral)
next
  case False
  assume "v < 10 ^ 12"
  then have "length (decimal v) \<le> 12" by (intro length_decimal_le) simp_all
  with sig_digits_decimal [of v 12 "replicate 12 (CHR 0x00)"] False show ?thesis
    by (auto simp: sig_number_def Let_def)
qed

lemma sig_parts:
  assumes "length a + length b + length c + length d \<le> m"
  shows "sig_holds (sig_append (sig_append (sig_append (sig_append (replicate m (CHR 0x00), 0) a) b) c) d) (a @ b @ c @ d) m"
proof -
  have "sig_holds (replicate m (CHR 0x00), 0) [] m" by (simp add: sig_holds_def)
  from sig_append_holds [OF this, of a] have "sig_holds (sig_append (replicate m (CHR 0x00), 0) a) a m" using assms by simp
  from sig_append_holds [OF sig_append_holds [OF sig_append_holds [OF this, of b], of c], of d] show ?thesis
    using assms by simp
qed

lemma sig_holds_text: "sig_holds bn s m \<Longrightarrow> (case bn of (buf, n) \<Rightarrow> take n buf) = s"
  by (cases bn) (simp add: sig_holds_def)

text \<open>The buffers suffice for every number, and the two calls the handler makes pass the filter that trapped the first.\<close>

theorem sigsys_reports:
  "sigsys_text num = Some (''ltop: blocked syscall '' @ (if sint num < 0 then ''-'' else []) @ decimal (nat \<bar>sint num\<bar>) @ [CHR 0x0A])"
proof -
  have s: "- 2147483648 \<le> sint num" "sint num < 2147483648"
    using sint_ge [of num] sint_less [of num] by simp_all
  let ?v = "nat \<bar>sint num\<bar>"
  have vb: "?v < 10 ^ 10" using s by simp
  obtain tmp tn where t: "sig_number ?v = Some (tmp, tn)" "drop tn tmp = decimal ?v"
    using sig_number_decimal [of ?v] vb by auto
  have len: "length (decimal ?v) \<le> 10" using vb by (intro length_decimal_le) simp_all
  define h where "h = ''ltop: blocked syscall ''"
  define b where "b = sig_append (replicate 48 (CHR 0x00), 0) h"
  let ?m = "if sint num < 0 then ''-'' else []"
  have "(if num <s 0 then sig_append b ''-'' else b) = sig_append b ?m" by (simp add: word_sless_alt)
  moreover have "length h + length ?m + length (decimal ?v) + length [CHR 0x0A] \<le> 48"
    using len by (simp add: h_def del: abs_of_nonneg abs_of_neg abs_of_pos) (auto simp: abs_if split: if_splits)
  from sig_parts [OF this]
  have "(case sig_append (sig_append (sig_append b ?m) (drop tn tmp)) [CHR 0x0A] of (buf, n) \<Rightarrow> take n buf) = h @ ?m @ decimal ?v @ [CHR 0x0A]"
    unfolding b_def t(2) by (rule sig_holds_text)
  ultimately show ?thesis
    unfolding sigsys_text_def h_def [symmetric] b_def [symmetric] Let_def t(1) option.map prod.case by simp
qed

lemma sigsys_handler_allowed:
  "sigsys_handler a buf_ptr info = Some (t, calls) \<Longrightarrow> c \<in> set calls \<Longrightarrow> filtered a True c = Some SECCOMP_RET_ALLOW"
  by (auto simp: sigsys_handler_def filtered_policy intro!: loop_call_allowed loop_call.debug_message loop_call.leave)

end
